(* ===== verification/Prelude_DB.thy ===== *)
theory Prelude_DB
  imports Main "HOL-Library.Monad_Syntax" "HOL-Library.Multiset"
begin

text \<open>
  Shared vocabulary of the development.

  The operations of the code that assert, throw or index an array are written in the option
  monad: \<open>None\<close> is the run that an \<open>assert\<close> of the source stops, or one that reads or
  writes outside an array; a result \<open>Some x\<close> says that no assertion failed.
  Exceptions that callers can observe have constructors of their own (\<open>db_error\<close>).
\<close>

named_theorems monad_simps "one-step evaluation of checks and array accesses"
named_theorems array_simps "effect of block moves on the used prefix of an array"

text \<open>The exceptions of the code under \<^verbatim>\<open>src/\<close>.\<close>

datatype db_error = DeadLockError | BufferFullError | InvalidData

section \<open>Checks and array accesses in the option monad\<close>

definition require :: "bool \<Rightarrow> unit option" where
  "require b = (if b then Some () else None)"

lemma require_simps [simp, monad_simps]:
  "require True = Some ()" "require False = None"
  by (simp_all add: require_def)

lemma require_bind_eq_Some [simp]:
  "(Option.bind (require b) f = Some x) \<longleftrightarrow> b \<and> f () = Some x"
  by (simp add: require_def)

lemma require_bind_if: "Option.bind (require b) f = (if b then f () else None)"
  by (simp add: require_def)

definition arr_get :: "'a list \<Rightarrow> nat \<Rightarrow> 'a option" where
  "arr_get xs i = (if i < length xs then Some (xs ! i) else None)"

definition arr_set :: "'a list \<Rightarrow> nat \<Rightarrow> 'a \<Rightarrow> 'a list option" where
  "arr_set xs i v = (if i < length xs then Some (xs[i := v]) else None)"

text \<open>
  \<open>memmove\<close> of \<open>n\<close> elements inside one array, and \<open>memcpy\<close> from one array
  into another, at element granularity. Both read the source as it was before the call.
\<close>

definition memcpy :: "'a list \<Rightarrow> nat \<Rightarrow> 'a list \<Rightarrow> nat \<Rightarrow> nat \<Rightarrow> 'a list option" where
  "memcpy dst d src s n =
     (if d + n \<le> length dst \<and> s + n \<le> length src
      then Some (take d dst @ take n (drop s src) @ drop (d + n) dst) else None)"

definition memmove :: "'a list \<Rightarrow> nat \<Rightarrow> nat \<Rightarrow> nat \<Rightarrow> 'a list option" where
  "memmove xs d s n = memcpy xs d xs s n"

lemma arr_get_in [simp, monad_simps]: "i < length xs \<Longrightarrow> arr_get xs i = Some (xs ! i)"
  by (simp add: arr_get_def)

lemma arr_set_in [simp, monad_simps]: "i < length xs \<Longrightarrow> arr_set xs i v = Some (xs[i := v])"
  by (simp add: arr_set_def)

lemma arr_get_SomeD: "arr_get xs i = Some x \<Longrightarrow> i < length xs \<and> x = xs ! i"
  by (simp add: arr_get_def split: if_splits)

lemma arr_set_SomeD: "arr_set xs i v = Some ys \<Longrightarrow> i < length xs \<and> ys = xs[i := v]"
  by (simp add: arr_set_def split: if_splits)

lemma memcpy_in [monad_simps]:
  "d + n \<le> length dst \<Longrightarrow> s + n \<le> length src \<Longrightarrow>
   memcpy dst d src s n = Some (take d dst @ take n (drop s src) @ drop (d + n) dst)"
  by (simp add: memcpy_def)

lemma memmove_in [monad_simps]:
  "d + n \<le> length xs \<Longrightarrow> s + n \<le> length xs \<Longrightarrow>
   memmove xs d s n = Some (take d xs @ take n (drop s xs) @ drop (d + n) xs)"
  by (simp add: memmove_def memcpy_def)

lemma length_memcpy: "memcpy dst d src s n = Some ys \<Longrightarrow> length ys = length dst"
  by (auto simp: memcpy_def split: if_splits)

section \<open>Lists\<close>

text \<open>
  The two shapes of block move that open and close a gap at position \<open>i\<close> of the first
  \<open>n\<close> cells of an array.
\<close>

lemma gap_open_take [array_simps]:
  assumes "i \<le> n" "n < length xs"
  shows "take (Suc n) ((take (Suc i) xs @ take (n - i) (drop i xs) @ drop (Suc n) xs)[i := x])
           = take i xs @ x # drop i (take n xs)"
proof -
  have "(take (Suc i) xs @ take (n - i) (drop i xs) @ drop (Suc n) xs)[i := x]
          = take i xs @ x # take (n - i) (drop i xs) @ drop (Suc n) xs"
    using assms by (simp add: take_Suc_conv_app_nth list_update_append)
  then show ?thesis using assms by (simp add: min_def drop_take Suc_diff_le) arith
qed

lemma gap_close_take [array_simps]:
  assumes "i < n" "n \<le> length xs"
  shows "take (n - 1) (take i xs @ take (n - 1 - i) (drop (Suc i) xs) @ drop (n - 1) xs)
           = take i xs @ drop (Suc i) (take n xs)"
proof -
  obtain m where "n = Suc m" using assms by (cases n) auto
  then show ?thesis using assms by (simp add: drop_take)
qed

lemma sorted_wrt_less_nth_mono:
  "sorted_wrt (<) (xs :: 'a::linorder list) \<Longrightarrow> i \<le> j \<Longrightarrow> j < length xs \<Longrightarrow> xs ! i \<le> xs ! j"
  by (cases "i = j") (auto simp: sorted_wrt_iff_nth_less le_less)

lemma sorted_wrt_less_nth_less:
  "sorted_wrt (<) (xs :: 'a::linorder list) \<Longrightarrow> i < j \<Longrightarrow> j < length xs \<Longrightarrow> xs ! i < xs ! j"
  by (simp add: sorted_wrt_iff_nth_less)

text \<open>The set removed by \<open>v.erase(std::remove(v.begin(), v.end(), x), v.end())\<close>.\<close>

definition erase_remove :: "'a \<Rightarrow> 'a list \<Rightarrow> 'a list" where
  "erase_remove x xs = removeAll x xs"

text \<open>\<open>if (std::find(v, x) == v.end()) v.push_back(x)\<close>.\<close>

definition push_new :: "'a list \<Rightarrow> 'a \<Rightarrow> 'a list" where
  "push_new xs x = (if x \<in> set xs then xs else xs @ [x])"

lemma set_push_new [simp]: "set (push_new xs x) = insert x (set xs)"
  by (auto simp: push_new_def)

lemma set_foldl_push_new [simp]: "set (foldl push_new xs ys) = set xs \<union> set ys"
  by (induction ys arbitrary: xs) auto

lemma set_erase_remove [simp]: "set (erase_remove x xs) = set xs - {x}"
  by (simp add: erase_remove_def)

text \<open>A loop that fills a vector with one fallible computation per element.\<close>

fun map_opt :: "('a \<Rightarrow> 'b option) \<Rightarrow> 'a list \<Rightarrow> 'b list option" where
  "map_opt f [] = Some []"
| "map_opt f (x # xs) = do { y \<leftarrow> f x; ys \<leftarrow> map_opt f xs; Some (y # ys) }"

lemma map_opt_total: "(\<And>x. x \<in> set xs \<Longrightarrow> f x = Some (g x)) \<Longrightarrow> map_opt f xs = Some (map g xs)"
  by (induction xs) auto

lemma map_opt_prefix: "n \<le> length xs \<Longrightarrow> map_opt (arr_get xs) [0..<n] = Some (take n xs)"
  by (subst map_opt_total [where g = "\<lambda>i. xs ! i"]) (auto intro!: nth_equalityI)

lemma filter_Cons_dropWhile:
  "filter P xs = r # rs \<Longrightarrow> \<exists>rs'. dropWhile (\<lambda>x. \<not> P x) xs = r # rs' \<and> filter P rs' = rs"
  by (induction xs) (auto split: if_splits)

end
