(* ===== verification/Waits_For_Graph.thy ===== *)
theory Waits_For_Graph
  imports Prelude_DB "HOL-Library.Finite_Map"
begin

text \<open>
  The waits-for graph of the lock manager (class \<open>WaitsForGraph\<close> of
  \<^verbatim>\<open>task-lock-manager\<close>): its depth-first cycle search \<open>findDuplicate\<close> and the three
  operations that change it. A transaction is its address, a graph the
  \<open>std::unordered_map\<close> from a transaction to the vector of those it waits for.
  \<open>waits_edges\<close> is the relation the graph stands for; the lemmas show that the search is
  exact and that the operations change the relation as intended.
\<close>

type_synonym txn = nat
type_synonym wf_graph = "(txn, txn list) fmap"

named_theorems edges_simps "the edge relation after an operation on the graph"

section \<open>The operations\<close>

text \<open>
  \<open>findDuplicate(graph, node, visited)\<close>: the loop over \<open>node->second\<close> returns at the first
  child whose own search returns true; a child without an entry is skipped.
\<close>

function find_duplicate :: "wf_graph \<Rightarrow> txn \<times> txn list \<Rightarrow> txn set \<Rightarrow> bool" where
  "find_duplicate g (t, succs) visited =
     (if t \<in> visited then True
      else list_ex (\<lambda>s. case fmlookup g s of
                          None \<Rightarrow> False
                        | Some ss \<Rightarrow> find_duplicate g (s, ss) (insert t visited)) succs)"
  by pat_completeness auto
termination
proof (relation "measure (\<lambda>(g, (t, _), visited). card (insert t (fmdom' g) - visited))", goal_cases)
  case 1
  show ?case by simp
next
  case (2 g t succs visited s ss)
  then have "s \<in> fmdom' g" by (auto simp: fmlookup_dom'_iff)
  then have "insert s (fmdom' g) - insert t visited \<subset> insert t (fmdom' g) - visited"
    using 2 by auto
  then have "card (insert s (fmdom' g) - insert t visited) < card (insert t (fmdom' g) - visited)"
    by (intro psubset_card_mono) auto
  then show ?case by simp
qed

declare find_duplicate.simps [simp del]

text \<open>\<open>findDuplicate(graph, node)\<close> starts with an empty visited set.\<close>

definition find_duplicate_from :: "wf_graph \<Rightarrow> txn \<times> txn list \<Rightarrow> bool" where
  "find_duplicate_from g node = find_duplicate g node {}"

text \<open>\<open>graph[k]\<close> of a \<open>std::unordered_map\<close>: an empty vector is inserted for a new key.\<close>

definition entry :: "wf_graph \<Rightarrow> txn \<Rightarrow> txn list" where
  "entry g t = (case fmlookup g t of None \<Rightarrow> [] | Some ss \<Rightarrow> ss)"

text \<open>The loop "check for cycles" of \<open>addWaitsFor\<close> over the owners of the lock.\<close>

fun owners_on_cycle :: "wf_graph \<Rightarrow> txn list \<Rightarrow> bool" where
  "owners_on_cycle g [] = False"
| "owners_on_cycle g (other # os) =
     (case fmlookup g other of
        None \<Rightarrow> owners_on_cycle g os
      | Some ss \<Rightarrow> if find_duplicate_from g (other, ss) then True else owners_on_cycle g os)"

text \<open>
  \<open>addWaitsFor(transaction, lock)\<close>, with the owners of the lock as argument: the result is the
  exception, if one is thrown, and the graph after the call.
\<close>

definition add_waits_for :: "txn \<Rightarrow> txn list \<Rightarrow> wf_graph \<Rightarrow> db_error option \<times> wf_graph" where
  "add_waits_for tx owners g =
     (let g1 = fmupd tx (foldl push_new (entry g tx) owners) g
      in if owners_on_cycle g1 owners then (Some DeadLockError, fmdrop tx g1) else (None, g1))"

text \<open>
  \<open>addWaiters(owner, waiters)\<close>: an edge from every waiter to the new owner, then one search
  from the owner. The exception leaves the new edges in the graph.
\<close>

definition add_waiter_edge :: "txn \<Rightarrow> wf_graph \<Rightarrow> txn \<Rightarrow> wf_graph" where
  "add_waiter_edge owner g waiter = fmupd waiter (push_new (entry g waiter) owner) g"

definition add_waiters :: "txn \<Rightarrow> txn list \<Rightarrow> wf_graph \<Rightarrow> db_error option \<times> wf_graph" where
  "add_waiters owner waiters g =
     (let g1 = foldl (add_waiter_edge owner) g waiters
      in case fmlookup g1 owner of
           None \<Rightarrow> (None, g1)
         | Some ss \<Rightarrow> if find_duplicate_from g1 (owner, ss) then (Some DeadLockError, g1)
                      else (None, g1))"

text \<open>\<open>removeTransaction\<close>: its own entry goes, and it goes from every other entry.\<close>

definition remove_transaction :: "txn \<Rightarrow> wf_graph \<Rightarrow> wf_graph" where
  "remove_transaction tx g = fmmap (erase_remove tx) (fmdrop tx g)"

section \<open>The relation a graph stands for\<close>

definition waits_edges :: "wf_graph \<Rightarrow> (txn \<times> txn) set" where
  "waits_edges g = {(a, b). b \<in> set (entry g a)}"

text \<open>Edges between transactions that both have an entry: the part the search follows.\<close>

definition inner_edges :: "wf_graph \<Rightarrow> (txn \<times> txn) set" where
  "inner_edges g = {(a, b). b \<in> set (entry g a) \<and> b \<in> fmdom' g}"

lemma waits_edges_iff: "(a, b) \<in> waits_edges g \<longleftrightarrow> b \<in> set (entry g a)"
  by (simp add: waits_edges_def)

lemma waits_edges_dom: "(a, b) \<in> waits_edges g \<Longrightarrow> a \<in> fmdom' g"
  by (cases "fmlookup g a") (simp_all add: waits_edges_def entry_def fmlookup_dom'_iff)

lemma inner_edges_alt: "inner_edges g = waits_edges g \<inter> UNIV \<times> fmdom' g"
  by (auto simp: inner_edges_def waits_edges_def)

lemma inner_rtrancl:
  "(a, b) \<in> (waits_edges g)\<^sup>* \<Longrightarrow> b \<in> fmdom' g \<Longrightarrow> (a, b) \<in> (inner_edges g)\<^sup>*"
proof (induction rule: rtrancl_induct)
  case base
  show ?case by simp
next
  case (step y z)
  from step.hyps(2) have "y \<in> fmdom' g" by (rule waits_edges_dom)
  with step show ?case by (auto simp: inner_edges_alt intro: rtrancl_into_rtrancl)
qed

lemma inner_subset: "inner_edges g \<subseteq> waits_edges g"
  by (auto simp: inner_edges_alt)

text \<open>A cycle only has transactions with an entry, so both relations have the same cycles.\<close>

lemma inner_cycle_iff: "(c, c) \<in> (inner_edges g)\<^sup>+ \<longleftrightarrow> (c, c) \<in> (waits_edges g)\<^sup>+"
proof
  assume "(c, c) \<in> (waits_edges g)\<^sup>+"
  then obtain d where e: "(d, c) \<in> waits_edges g" and p: "(c, d) \<in> (waits_edges g)\<^sup>*"
    by (meson tranclD2)
  from \<open>(c, c) \<in> (waits_edges g)\<^sup>+\<close> have "c \<in> fmdom' g"
    by (meson tranclD waits_edges_dom)
  moreover from e have "d \<in> fmdom' g" by (rule waits_edges_dom)
  ultimately show "(c, c) \<in> (inner_edges g)\<^sup>+"
    using inner_rtrancl [OF p] e by (auto simp: inner_edges_alt intro: rtrancl_into_trancl1)
next
  assume "(c, c) \<in> (inner_edges g)\<^sup>+"
  then show "(c, c) \<in> (waits_edges g)\<^sup>+" by (rule trancl_mono) (rule inner_subset)
qed

section \<open>The search is exact\<close>

lemma find_duplicate_iff:
  assumes "fmlookup g t = Some succs"
  shows "find_duplicate g (t, succs) visited \<longleftrightarrow>
           (\<exists>v\<in>visited. (t, v) \<in> (inner_edges g)\<^sup>*) \<or>
           (\<exists>c. (t, c) \<in> (inner_edges g)\<^sup>* \<and> (c, c) \<in> (inner_edges g)\<^sup>+)"
    (is "_ \<longleftrightarrow> ?R t visited")
  using assms
proof (induction g "(t, succs)" visited arbitrary: t succs rule: find_duplicate.induct)
  case (1 g t succs visited)
  let ?E = "inner_edges g"
  have step: "(t, s) \<in> ?E \<longleftrightarrow> s \<in> set succs \<and> (\<exists>ss. fmlookup g s = Some ss)" for s
    using "1.prems" by (auto simp: inner_edges_def entry_def fmlookup_dom'_iff)
  show ?case (is "_ \<longleftrightarrow> ?RHS t visited")
  proof (cases "t \<in> visited")
    case True
    then show ?thesis by (auto simp: find_duplicate.simps [of g t])
  next
    case False
    have "find_duplicate g (t, succs) visited \<longleftrightarrow>
            (\<exists>s. (t, s) \<in> ?E \<and> ?RHS s (insert t visited))"
    proof -
      have "find_duplicate g (t, succs) visited \<longleftrightarrow>
              (\<exists>s\<in>set succs. \<exists>ss. fmlookup g s = Some ss \<and>
                 find_duplicate g (s, ss) (insert t visited))"
        using False by (subst find_duplicate.simps) (auto simp: list_ex_iff split: option.splits)
      also have "\<dots> \<longleftrightarrow> (\<exists>s\<in>set succs. \<exists>ss. fmlookup g s = Some ss \<and> ?RHS s (insert t visited))"
        by (intro bex_cong ex_cong conj_cong refl "1.hyps" [OF False]) simp_all
      finally show ?thesis using step by blast
    qed
    also have "\<dots> \<longleftrightarrow> ?RHS t visited"
    proof
      assume "\<exists>s. (t, s) \<in> ?E \<and> ?RHS s (insert t visited)"
      then obtain s where s: "(t, s) \<in> ?E" and r: "?RHS s (insert t visited)" by blast
      from r consider (closes) "(s, t) \<in> ?E\<^sup>*" | (seen) v where "v \<in> visited" "(s, v) \<in> ?E\<^sup>*"
        | (cyc) c where "(s, c) \<in> ?E\<^sup>*" "(c, c) \<in> ?E\<^sup>+" by blast
      then show "?RHS t visited"
      proof cases
        case closes
        with s have "(t, t) \<in> ?E\<^sup>+" by (rule rtrancl_into_trancl2)
        then show ?thesis by blast
      next
        case seen
        with s show ?thesis by (meson converse_rtrancl_into_rtrancl)
      next
        case cyc
        with s show ?thesis by (meson converse_rtrancl_into_rtrancl)
      qed
    next
      assume "?RHS t visited"
      then consider (seen) v where "v \<in> visited" "(t, v) \<in> ?E\<^sup>*"
        | (cyc) c where "(t, c) \<in> ?E\<^sup>*" "(c, c) \<in> ?E\<^sup>+" by blast
      then show "\<exists>s. (t, s) \<in> ?E \<and> ?RHS s (insert t visited)"
      proof cases
        case seen
        with False obtain s where "(t, s) \<in> ?E" "(s, v) \<in> ?E\<^sup>*"
          by (metis converse_rtranclE)
        with seen(1) show ?thesis by blast
      next
        case cyc
        then consider (here) "c = t" | (later) s where "(t, s) \<in> ?E" "(s, c) \<in> ?E\<^sup>*"
          by (metis converse_rtranclE)
        then show ?thesis
        proof cases
          case here
          with cyc(2) obtain s where "(t, s) \<in> ?E" "(s, t) \<in> ?E\<^sup>*" by (blast dest: tranclD)
          then show ?thesis by blast
        next
          case later
          with cyc(2) show ?thesis by blast
        qed
      qed
    qed
    finally show ?thesis .
  qed
qed

lemma find_duplicate_from_iff:
  assumes "fmlookup g t = Some succs"
  shows "find_duplicate_from g (t, succs) \<longleftrightarrow>
           (\<exists>c. (t, c) \<in> (waits_edges g)\<^sup>* \<and> (c, c) \<in> (waits_edges g)\<^sup>+)"
proof -
  have "(t, c) \<in> (inner_edges g)\<^sup>* \<longleftrightarrow> (t, c) \<in> (waits_edges g)\<^sup>*"
    if "(c, c) \<in> (waits_edges g)\<^sup>+" for c
    using that by (meson inner_rtrancl inner_subset rtrancl_mono subsetD tranclD waits_edges_dom)
  then show ?thesis
    using assms by (auto simp: find_duplicate_from_def find_duplicate_iff inner_cycle_iff)
qed

text \<open>The owners' loop finds a cycle exactly when one is reachable from an owner.\<close>

lemma owners_on_cycle_iff:
  "owners_on_cycle g os \<longleftrightarrow>
     (\<exists>q\<in>set os. \<exists>c. (q, c) \<in> (waits_edges g)\<^sup>* \<and> (c, c) \<in> (waits_edges g)\<^sup>+)"
proof (induction os)
  case Nil
  show ?case by simp
next
  case (Cons q os)
  show ?case
  proof (cases "fmlookup g q")
    case None
    then have "q \<notin> fmdom' g" by (simp add: fmlookup_dom'_iff)
    then have "\<not> (\<exists>c. (q, c) \<in> (waits_edges g)\<^sup>* \<and> (c, c) \<in> (waits_edges g)\<^sup>+)"
      by (metis converse_rtranclE tranclD waits_edges_dom)
    then show ?thesis unfolding owners_on_cycle.simps None option.case Cons.IH by auto
  next
    case (Some ss)
    then show ?thesis using Cons.IH find_duplicate_from_iff [OF Some] by auto
  qed
qed

section \<open>The operations on the relation\<close>

lemma entry_fmupd [edges_simps]: "entry (fmupd a ss g) b = (if b = a then ss else entry g b)"
  by (simp add: entry_def)

lemma entry_fmdrop [edges_simps]: "entry (fmdrop a g) b = (if b = a then [] else entry g b)"
  by (simp add: entry_def)

lemma waits_edges_add [edges_simps]:
  "waits_edges (fmupd tx (foldl push_new (entry g tx) os) g) = waits_edges g \<union> {tx} \<times> set os"
  by (auto simp: waits_edges_def edges_simps split: if_splits)

lemma waits_edges_drop [edges_simps]:
  "waits_edges (fmdrop tx g) = waits_edges g - {tx} \<times> UNIV"
  by (auto simp: waits_edges_def edges_simps split: if_splits)

lemma waits_edges_add_waiter [edges_simps]:
  "waits_edges (add_waiter_edge owner g w) = insert (w, owner) (waits_edges g)"
  by (auto simp: waits_edges_def add_waiter_edge_def edges_simps split: if_splits)

lemma waits_edges_add_waiter_list [edges_simps]:
  "waits_edges (foldl (add_waiter_edge owner) g ws) = waits_edges g \<union> set ws \<times> {owner}"
  by (induction ws arbitrary: g) (auto simp: edges_simps)

lemma waits_edges_remove [edges_simps]:
  "waits_edges (remove_transaction tx g) = waits_edges g \<inter> (- {tx}) \<times> (- {tx})"
proof -
  have "entry (fmmap (erase_remove tx) (fmdrop tx g)) a
          = (if a = tx then [] else erase_remove tx (entry g a))" for a
    by (simp add: entry_def erase_remove_def split: option.splits)
  then show ?thesis
    by (auto simp: remove_transaction_def waits_edges_def split: if_splits)
qed

lemma acyclic_empty_rel [simp]: "acyclic {}"
  by (simp add: acyclic_def)

text \<open>Paths into \<open>x\<close> need no new edge that starts in \<open>x\<close>; dually for edges into \<open>x\<close>.\<close>

lemma rtrancl_out_edges:
  "(a, x) \<in> (r \<union> {x} \<times> S)\<^sup>* \<longleftrightarrow> (a, x) \<in> r\<^sup>*"
proof
  assume "(a, x) \<in> (r \<union> {x} \<times> S)\<^sup>*"
  then show "(a, x) \<in> r\<^sup>*"
    by (induction rule: converse_rtrancl_induct) (auto intro: converse_rtrancl_into_rtrancl)
next
  assume "(a, x) \<in> r\<^sup>*"
  then show "(a, x) \<in> (r \<union> {x} \<times> S)\<^sup>*" by (rule rtrancl_mono [THEN subsetD, rotated]) blast
qed

lemma acyclic_out_edges:
  assumes "acyclic r" "finite S"
  shows "acyclic (r \<union> {x} \<times> S) \<longleftrightarrow> (\<forall>q\<in>S. (q, x) \<notin> r\<^sup>*)"
  using assms(2)
proof (induction S)
  case empty
  show ?case using assms(1) by simp
next
  case (insert q S)
  have "r \<union> {x} \<times> insert q S = insert (x, q) (r \<union> {x} \<times> S)" by blast
  then have "acyclic (r \<union> {x} \<times> insert q S) \<longleftrightarrow>
               acyclic (r \<union> {x} \<times> S) \<and> (q, x) \<notin> (r \<union> {x} \<times> S)\<^sup>*"
    by (simp add: acyclic_insert)
  then show ?case using insert.IH by (auto simp: rtrancl_out_edges)
qed

lemma acyclic_in_edges:
  assumes "acyclic r" "finite S"
  shows "acyclic (r \<union> S \<times> {x}) \<longleftrightarrow> (\<forall>q\<in>S. (x, q) \<notin> r\<^sup>*)"
proof -
  have "(r \<union> S \<times> {x})\<inverse> = r\<inverse> \<union> {x} \<times> S" by blast
  then have "acyclic (r \<union> S \<times> {x}) \<longleftrightarrow> acyclic (r\<inverse> \<union> {x} \<times> S)"
    by (metis acyclic_converse)
  also have "\<dots> \<longleftrightarrow> (\<forall>q\<in>S. (q, x) \<notin> (r\<inverse>)\<^sup>*)"
    using assms by (simp add: acyclic_out_edges acyclic_converse)
  finally show ?thesis by (simp add: rtrancl_converse)
qed

text \<open>
  A cycle that new edges out of (into) \<open>x\<close> close is reachable from their targets (from \<open>x\<close>).
\<close>

lemma cycle_reachable_from_targets:
  assumes "acyclic r"
  shows "acyclic (r \<union> {x} \<times> set os) \<longleftrightarrow>
           \<not> (\<exists>q\<in>set os. \<exists>c. (q, c) \<in> (r \<union> {x} \<times> set os)\<^sup>* \<and> (c, c) \<in> (r \<union> {x} \<times> set os)\<^sup>+)"
    (is "_ \<longleftrightarrow> \<not> ?cyc")
proof
  assume "acyclic (r \<union> {x} \<times> set os)"
  then show "\<not> ?cyc" by (auto simp: acyclic_def)
next
  let ?r = "r \<union> {x} \<times> set os"
  assume no: "\<not> ?cyc"
  have "(q, x) \<notin> r\<^sup>*" if q: "q \<in> set os" for q
  proof
    assume "(q, x) \<in> r\<^sup>*"
    then have "(q, x) \<in> ?r\<^sup>*" by (simp add: rtrancl_out_edges)
    moreover have "(x, q) \<in> ?r" using q by blast
    ultimately have "(q, q) \<in> ?r\<^sup>+" by (rule rtrancl_into_trancl1)
    with no q show False by blast
  qed
  then show "acyclic ?r" using assms by (simp add: acyclic_out_edges)
qed

lemma cycle_reachable_from_owner:
  assumes "acyclic r"
  shows "acyclic (r \<union> set ws \<times> {x}) \<longleftrightarrow>
           \<not> (\<exists>c. (x, c) \<in> (r \<union> set ws \<times> {x})\<^sup>* \<and> (c, c) \<in> (r \<union> set ws \<times> {x})\<^sup>+)"
    (is "_ \<longleftrightarrow> \<not> ?cyc")
proof
  assume "acyclic (r \<union> set ws \<times> {x})"
  then show "\<not> ?cyc" by (auto simp: acyclic_def)
next
  let ?r = "r \<union> set ws \<times> {x}"
  assume no: "\<not> ?cyc"
  have "(x, w) \<notin> r\<^sup>*" if w: "w \<in> set ws" for w
  proof
    assume "(x, w) \<in> r\<^sup>*"
    then have "(x, w) \<in> ?r\<^sup>*" by (rule rtrancl_mono [THEN subsetD, rotated]) blast
    moreover have "(w, x) \<in> ?r" using w by blast
    ultimately have "(x, x) \<in> ?r\<^sup>+" by (rule rtrancl_into_trancl1)
    with no show False by blast
  qed
  then show "acyclic ?r" using assms by (simp add: acyclic_in_edges)
qed

lemma add_waits_for_edges [edges_simps]:
  "waits_edges (snd (add_waits_for tx owners g)) =
     (if fst (add_waits_for tx owners g) = None then waits_edges g \<union> {tx} \<times> set owners
      else waits_edges g - {tx} \<times> UNIV)"
  by (auto simp: add_waits_for_def Let_def edges_simps)

lemma add_waits_for_error:
  assumes "acyclic (waits_edges g)"
  shows "fst (add_waits_for tx owners g)
           = (if \<exists>q\<in>set owners. (q, tx) \<in> (waits_edges g)\<^sup>* then Some DeadLockError else None)"
proof -
  let ?g1 = "fmupd tx (foldl push_new (entry g tx) owners) g"
  have "owners_on_cycle ?g1 owners \<longleftrightarrow> (\<exists>q\<in>set owners. (q, tx) \<in> (waits_edges g)\<^sup>*)"
    using cycle_reachable_from_targets [OF assms, of tx owners] acyclic_out_edges [OF assms, of "set owners" tx]
    by (auto simp: owners_on_cycle_iff edges_simps)
  then show ?thesis by (simp add: add_waits_for_def Let_def)
qed

lemma add_waits_for_acyclic:
  assumes "acyclic (waits_edges g)"
  shows "acyclic (waits_edges (snd (add_waits_for tx owners g)))"
proof (cases "fst (add_waits_for tx owners g) = None")
  case True
  then have "\<not> (\<exists>q\<in>set owners. (q, tx) \<in> (waits_edges g)\<^sup>*)"
    by (simp add: add_waits_for_error [OF assms] split: if_splits)
  with True show ?thesis by (simp add: edges_simps acyclic_out_edges [OF assms])
next
  case False
  then show ?thesis using assms by (auto simp: edges_simps intro: acyclic_subset)
qed

lemma add_waiters_edges [edges_simps]:
  "waits_edges (snd (add_waiters owner ws g)) = waits_edges g \<union> set ws \<times> {owner}"
  by (auto simp: add_waiters_def Let_def edges_simps split: option.splits)

lemma add_waiters_error:
  assumes "acyclic (waits_edges g)"
  shows "fst (add_waiters owner ws g)
           = (if \<exists>w\<in>set ws. (owner, w) \<in> (waits_edges g)\<^sup>* then Some DeadLockError else None)"
proof -
  let ?g1 = "foldl (add_waiter_edge owner) g ws"
  have iff: "(\<exists>c. (owner, c) \<in> (waits_edges ?g1)\<^sup>* \<and> (c, c) \<in> (waits_edges ?g1)\<^sup>+) \<longleftrightarrow>
               (\<exists>w\<in>set ws. (owner, w) \<in> (waits_edges g)\<^sup>*)"
    using cycle_reachable_from_owner [OF assms, of ws owner] acyclic_in_edges [OF assms, of "set ws" owner]
    by (auto simp: edges_simps)
  have "fst (add_waiters owner ws g) = (if owners_on_cycle ?g1 [owner] then Some DeadLockError else None)"
    by (auto simp: add_waiters_def Let_def split: option.splits)
  also have "\<dots> = (if \<exists>w\<in>set ws. (owner, w) \<in> (waits_edges g)\<^sup>* then Some DeadLockError else None)"
    using iff by (simp add: owners_on_cycle_iff)
  finally show ?thesis .
qed

lemma add_waiters_acyclic:
  assumes "acyclic (waits_edges g)"
  shows "acyclic (waits_edges (snd (add_waiters owner ws g))) \<longleftrightarrow> fst (add_waiters owner ws g) = None"
  by (simp add: add_waiters_error [OF assms] edges_simps acyclic_in_edges [OF assms])

section \<open>Properties\<close>

text \<open>The depth-first search \<open>findDuplicate\<close> is exact: started at the entry of a transaction,
  it reports a duplicate if and only if a waits-for cycle can be reached from that transaction.\<close>

theorem find_duplicate_exact:
  assumes "fmlookup g t = Some succs"
  shows "find_duplicate_from g (t, succs) \<longleftrightarrow>
           (\<exists>c. (t, c) \<in> (waits_edges g)\<^sup>* \<and> (c, c) \<in> (waits_edges g)\<^sup>+)"
  using assms by (rule find_duplicate_from_iff)

theorem find_duplicate_exact_witness:
  "fmlookup (fmupd 1 [2] (fmupd 2 [3] (fmupd 3 [2] fmempty))) (1::txn) = Some [2::txn] \<and>
   find_duplicate_from (fmupd 1 [2] (fmupd 2 [3] (fmupd 3 [2] fmempty))) (1, [2]) \<and>
   (\<exists>c. (1, c) \<in> (waits_edges (fmupd 1 [2] (fmupd 2 [3] (fmupd 3 [2] fmempty))))\<^sup>* \<and>
        (c, c) \<in> (waits_edges (fmupd 1 [2] (fmupd 2 [3] (fmupd 3 [2] fmempty))))\<^sup>+)"
proof -
  let ?g = "fmupd 1 [2] (fmupd 2 [3] (fmupd 3 [2] fmempty)) :: wf_graph"
  have l: "fmlookup ?g 1 = Some [2]" by simp
  have d: "find_duplicate_from ?g (1, [2])"
    by (simp add: find_duplicate_from_def find_duplicate.simps)
  show ?thesis using l d find_duplicate_exact [OF l] by blast
qed

text \<open>On an acyclic graph \<open>addWaitsFor\<close> throws \<open>DeadLockError\<close> if and only if some owner of the lock
  already waits, directly or not, for the transaction (a transaction that waits for itself
  included); the graph is acyclic afterwards in both cases, and the edges to all owners are in it
  when no exception is thrown.\<close>

theorem add_waits_for_deadlock_iff:
  assumes "acyclic (waits_edges g)"
  shows "(fst (add_waits_for tx owners g) = Some DeadLockError \<longleftrightarrow>
            (\<exists>q\<in>set owners. (q, tx) \<in> (waits_edges g)\<^sup>*)) \<and>
         acyclic (waits_edges (snd (add_waits_for tx owners g))) \<and>
         (fst (add_waits_for tx owners g) = None \<longrightarrow>
            {tx} \<times> set owners \<subseteq> waits_edges (snd (add_waits_for tx owners g)))"
  using add_waits_for_acyclic [OF assms, of tx owners] add_waits_for_error [OF assms, of tx owners]
  by (simp add: edges_simps)

theorem add_waits_for_deadlock_iff_witness:
  "acyclic (waits_edges (fmupd 2 [1] fmempty)) \<and>
   fst (add_waits_for 1 [2] (fmupd 2 [1] fmempty)) = Some DeadLockError"
proof -
  let ?g = "fmupd 2 [1] fmempty :: wf_graph"
  have e: "waits_edges ?g = {(2, 1)}"
    by (auto simp: waits_edges_def entry_def split: if_splits)
  then have a: "acyclic (waits_edges ?g)" by (simp add: acyclic_insert)
  have "(2, 1) \<in> (waits_edges ?g)\<^sup>*" using e by auto
  then have "fst (add_waits_for 1 [2] ?g) = Some DeadLockError"
    using add_waits_for_deadlock_iff [OF a, of 1 "[2]"] by auto
  with a show ?thesis by blast
qed

text \<open>A cycle in reach of the new owner: an old one, or one that the new edges close.\<close>

lemma reachable_cycle_in_edges:
  "(\<exists>c. (x, c) \<in> (r \<union> S \<times> {x})\<^sup>* \<and> (c, c) \<in> (r \<union> S \<times> {x})\<^sup>+) \<longleftrightarrow>
     (\<exists>w\<in>S. (x, w) \<in> r\<^sup>*) \<or> (\<exists>c. (x, c) \<in> r\<^sup>* \<and> (c, c) \<in> r\<^sup>+)"
    (is "?new \<longleftrightarrow> ?closes \<or> ?old")
proof
  let ?r = "r \<union> S \<times> {x}"
  have sub: "r\<^sup>* \<subseteq> ?r\<^sup>*" by (rule rtrancl_mono) blast
  assume "?closes \<or> ?old"
  then show ?new
  proof
    assume ?closes
    then obtain w where w: "w \<in> S" "(x, w) \<in> ?r\<^sup>*" using sub by blast
    then have "(w, x) \<in> ?r" by blast
    with w(2) have "(x, x) \<in> ?r\<^sup>+" by (rule rtrancl_into_trancl1)
    then show ?new by blast
  next
    assume ?old
    then obtain c where "(x, c) \<in> r\<^sup>*" "(c, c) \<in> r\<^sup>+" by blast
    then have "(x, c) \<in> ?r\<^sup>*" "(c, c) \<in> ?r\<^sup>+" using sub by (auto intro: trancl_mono)
    then show ?new by blast
  qed
next
  let ?r = "r \<union> S \<times> {x}"
  assume ?new
  then obtain c where c: "(x, c) \<in> ?r\<^sup>*" "(c, c) \<in> ?r\<^sup>+" by blast
  show "?closes \<or> ?old"
  proof (cases ?closes)
    case False
    have stay: "(x, z) \<in> r\<^sup>* \<and> (y, z) \<in> r" if "(x, y) \<in> r\<^sup>*" "(y, z) \<in> ?r" for y z
      using that False by (auto intro: rtrancl_into_rtrancl)
    have reach: "(x, y) \<in> r\<^sup>*" if "(x, y) \<in> ?r\<^sup>*" for y
      using that by (induction rule: rtrancl_induct) (use stay in blast)+
    have "(x, y) \<in> r\<^sup>* \<and> (c, y) \<in> r\<^sup>+" if "(c, y) \<in> ?r\<^sup>+" for y
      using that
    proof (induction rule: trancl_induct)
      case (base y)
      then show ?case using stay [OF reach [OF c(1)]] by blast
    next
      case (step y z)
      then show ?case using stay by (blast intro: trancl_into_trancl)
    qed
    then have "(c, c) \<in> r\<^sup>+" using c(2) by blast
    then show ?thesis using reach [OF c(1)] by blast
  qed blast
qed

text \<open>C30: When a transaction becomes an owner, \<open>addWaiters\<close> makes every waiter of the lock wait for
  it, on every graph and whether or not it throws. It throws \<open>DeadLockError\<close> if and only if the new
  owner already waits, directly or not, for one of the waiters, or already reaches a cycle (which an
  earlier exception of \<open>addWaiters\<close> may have left: then it throws although nobody new waits in a
  circle). On an acyclic graph it throws if and only if the new edges close a cycle, which stays in
  the graph, because the exception path removes no edge.\<close>

theorem add_waiters_deadlock_iff:
  "waits_edges (snd (add_waiters owner ws g)) = waits_edges g \<union> set ws \<times> {owner} \<and>
   fst (add_waiters owner ws g) =
     (if (\<exists>w\<in>set ws. (owner, w) \<in> (waits_edges g)\<^sup>*)
         \<or> (\<exists>c. (owner, c) \<in> (waits_edges g)\<^sup>* \<and> (c, c) \<in> (waits_edges g)\<^sup>+)
      then Some DeadLockError else None) \<and>
   (acyclic (waits_edges g) \<longrightarrow>
     (fst (add_waiters owner ws g) = Some DeadLockError \<longleftrightarrow> \<not> acyclic (waits_edges (snd (add_waiters owner ws g)))))"
proof (intro conjI impI)
  let ?g1 = "foldl (add_waiter_edge owner) g ws"
  have "fst (add_waiters owner ws g) = (if owners_on_cycle ?g1 [owner] then Some DeadLockError else None)"
    by (auto simp: add_waiters_def Let_def split: option.splits)
  then show "fst (add_waiters owner ws g) =
     (if (\<exists>w\<in>set ws. (owner, w) \<in> (waits_edges g)\<^sup>*)
         \<or> (\<exists>c. (owner, c) \<in> (waits_edges g)\<^sup>* \<and> (c, c) \<in> (waits_edges g)\<^sup>+)
      then Some DeadLockError else None)"
    using reachable_cycle_in_edges [of owner "waits_edges g" "set ws"]
    by (simp add: owners_on_cycle_iff edges_simps)
  assume "acyclic (waits_edges g)"
  then show "fst (add_waiters owner ws g) = Some DeadLockError \<longleftrightarrow> \<not> acyclic (waits_edges (snd (add_waiters owner ws g)))"
    using add_waiters_acyclic [of g owner ws] add_waiters_error [of g owner ws] by simp
qed (simp add: edges_simps)

lemma add_waiters_deadlock_iff_witness:
  "acyclic (waits_edges (fmupd 1 [2] fmempty)) \<and>
   \<not> acyclic (waits_edges (snd (add_waiters 1 [2] (fmupd 1 [2] fmempty))))"
proof -
  let ?g = "fmupd 1 [2] fmempty :: wf_graph"
  have e: "waits_edges ?g = {(1, 2)}"
    by (auto simp: waits_edges_def entry_def split: if_splits)
  then have a: "acyclic (waits_edges ?g)" by (simp add: acyclic_insert)
  have "\<exists>w\<in>set [2]. (1, w) \<in> (waits_edges ?g)\<^sup>*" using e by auto
  then have "fst (add_waiters 1 [2] ?g) = Some DeadLockError"
    using conjunct1 [OF conjunct2 [OF add_waiters_deadlock_iff [of 1 "[2]" ?g]]] by simp
  then have "\<not> acyclic (waits_edges (snd (add_waiters 1 [2] ?g)))"
    using conjunct2 [OF conjunct2 [OF add_waiters_deadlock_iff [of 1 "[2]" ?g]]] a by blast
  with a show ?thesis by blast
qed

end
