(* ===== verification/Lock_Manager.thy ===== *)
theory Lock_Manager
  imports Waits_For_Graph "HOL-Library.Word"
begin

text \<open>
  The lock manager (classes \<open>Transaction\<close>, \<open>Lock\<close> and \<open>LockManager\<close> of
  \<^verbatim>\<open>task-lock-manager\<close>) as a state machine of concurrent transactions. Every critical section
  of \<open>acquireLock\<close> and of the destructor of \<open>Transaction\<close> is one step, so the steps of
  different transactions interleave between the critical sections. Three steps are coarser than
  the code, which could be interrupted inside them. The walk over a chain (\<open>chain_find\<close>) is one
  step under the latch of the chain, although references are dropped without it: a lock that
  expires between the test at line 148 and \<open>lock()\<close> is deleted there as well, without a walk over
  the rest of the chain (lines 159 to 165), and this branch is left out. \<open>end_drop\<close> drops all
  references of a transaction at once; the code releases them one after the other, and only the
  clean-up of the chains and \<open>getLockMode\<close> read them. \<open>become_owner\<close> and \<open>must_wait\<close> take the
  decision of \<open>try_lock\<close> together with the section under the mutex of the graph that follows it.

  The reference count of a \<open>std::shared_ptr<Lock>\<close> is the list of the transactions that hold
  one (\<open>refs\<close>); a lock is expired when the list is empty. The \<open>std::shared_mutex\<close> of a lock
  records its readers and its writer. \<open>leaks\<close> is a history variable: it records the calls of
  \<open>acquireLock\<close> that threw after the mutex had been taken. The destructor of the manager
  ends the run (theory \<open>Lock_Destroy\<close>), \<open>deleteLock\<close> has an empty body.
\<close>

section \<open>State\<close>

type_synonym item = "64 word"
type_synonym lock_id = nat

datatype lock_mode = Unlocked | Shared | Exclusive

record lock =
  item :: item
  readers :: "txn list"
  writer :: "txn option"
  owners :: "txn list"
  waiters :: "txn list"
  ownership :: lock_mode
  refs :: "txn list"

text \<open>
  Where a transaction is in the code: in user code; in \<open>acquireLock\<close> with the lock found, blocked
  in \<open>lock()\<close> or \<open>lock_shared()\<close>, or with that call returned; in the destructor with the locks
  that remain, or between the two statements that release one lock; destroyed.
\<close>

datatype pc =
    Idle
  | Found lock_id lock_mode
  | Blocked lock_id lock_mode
  | Granted lock_id lock_mode
  | Ending "lock_id list"
  | Releasing lock_id "lock_id list"
  | Done

record lm =
  locks :: "lock_id \<rightharpoonup> lock"
  table :: "lock_id list list"
  wfg :: wf_graph
  next_lock :: lock_id
  held :: "txn \<Rightarrow> lock_id list"
  pcs :: "txn \<Rightarrow> pc"
  leaks :: "(txn \<times> lock_id) list"

section \<open>Operations\<close>

text \<open>The constructor: \<open>table.resize(bucketCount)\<close>.\<close>

definition lock_manager_init :: "nat \<Rightarrow> lm" where
  "lock_manager_init bucket_count =
     \<lparr>locks = Map.empty, table = replicate bucket_count [], wfg = fmempty, next_lock = 1,
      held = (\<lambda>_. []), pcs = (\<lambda>_. Idle), leaks = []\<rparr>"

definition lock_construct :: "item \<Rightarrow> txn \<Rightarrow> lock" where
  "lock_construct d t =
     \<lparr>item = d, readers = [], writer = None, owners = [], waiters = [],
      ownership = Unlocked, refs = [t]\<rparr>"

definition is_lock_expired :: "lock \<Rightarrow> bool" where
  "is_lock_expired lk \<longleftrightarrow> refs lk = []"

text \<open>\<open>hash(dataItem) % table.size()\<close>; the hash function is the parameter \<open>h\<close>.\<close>

definition bucket :: "(item \<Rightarrow> 64 word) \<Rightarrow> lm \<Rightarrow> item \<Rightarrow> nat" where
  "bucket h s d = unat (h d) mod length (table s)"

text \<open>
  The walk over one chain in \<open>acquireLock\<close>: expired locks are unlinked and deleted until the
  lock of the item is found. The result is the lock, the chain afterwards and the deleted locks.
\<close>

fun chain_find :: "(lock_id \<rightharpoonup> lock) \<Rightarrow> item \<Rightarrow> lock_id list
    \<Rightarrow> lock_id option \<times> lock_id list \<times> lock_id list" where
  "chain_find lks d [] = (None, [], [])"
| "chain_find lks d (l # ls) =
     (case lks l of
        None \<Rightarrow> (None, l # ls, [])
      | Some lk \<Rightarrow>
          if is_lock_expired lk then
            (case chain_find lks d ls of (r, ls', dead) \<Rightarrow> (r, ls', l # dead))
          else if item lk = d then (Some l, l # ls, [])
          else (case chain_find lks d ls of (r, ls', dead) \<Rightarrow> (r, l # ls', dead)))"

text \<open>The part of \<open>acquireLock\<close> under the latch of the chain.\<close>

definition acquire_find :: "(item \<Rightarrow> 64 word) \<Rightarrow> txn \<Rightarrow> item \<Rightarrow> lock_mode \<Rightarrow> lm \<Rightarrow> lm" where
  "acquire_find h t d m s =
     (let b = bucket h s d in
      case chain_find (locks s) d (table s ! b) of (r, chain, dead) \<Rightarrow>
        let lks = (locks s) |` (- set dead) in
        case r of
          Some l \<Rightarrow> s\<lparr>locks := lks(l := map_option (\<lambda>lk. lk\<lparr>refs := t # refs lk\<rparr>) (lks l)),
                      table := (table s)[b := chain],
                      pcs := (pcs s)(t := Found l m)\<rparr>
        | None \<Rightarrow> s\<lparr>locks := lks(next_lock s \<mapsto> lock_construct d t),
                    table := (table s)[b := next_lock s # chain],
                    next_lock := Suc (next_lock s),
                    pcs := (pcs s)(t := Found (next_lock s) m)\<rparr>)"

text \<open>The lock's \<open>std::shared_mutex\<close>.\<close>

definition rw_available :: "lock_mode \<Rightarrow> lock \<Rightarrow> bool" where
  "rw_available m lk \<longleftrightarrow> writer lk = None \<and> (m = Shared \<or> readers lk = [])"

definition rw_lock :: "lock_mode \<Rightarrow> txn \<Rightarrow> lock \<Rightarrow> lock" where
  "rw_lock m t lk = (if m = Shared then lk\<lparr>readers := t # readers lk\<rparr> else lk\<lparr>writer := Some t\<rparr>)"

text \<open>In the destructor the call depends on the \<open>ownership\<close> field.\<close>

definition rw_unlock :: "txn \<Rightarrow> lock \<Rightarrow> lock" where
  "rw_unlock t lk =
     (if ownership lk = Shared then lk\<lparr>readers := remove1 t (readers lk)\<rparr> else lk\<lparr>writer := None\<rparr>)"

text \<open>
  With the mutex taken: set the ownership, add the owner, make the waiters wait for it. When
  \<open>addWaiters\<close> throws, the local \<open>shared_ptr\<close> is gone, but neither the owner nor the mutex is
  given back. Otherwise \<open>Transaction::addLock\<close> stores the lock.
\<close>

definition become_owner :: "txn \<Rightarrow> lock_id \<Rightarrow> lock_mode \<Rightarrow> lock \<Rightarrow> lm \<Rightarrow> lm" where
  "become_owner t l m lk s =
     (let lk1 = lk\<lparr>ownership := m, owners := owners lk @ [t]\<rparr> in
      case add_waiters t (waiters lk1) (wfg s) of
        (None, g) \<Rightarrow>
          s\<lparr>locks := (locks s)(l \<mapsto> lk1), wfg := g,
            held := (held s)(t := held s t @ [l]), pcs := (pcs s)(t := Idle)\<rparr>
      | (Some _, g) \<Rightarrow>
          s\<lparr>locks := (locks s)(l \<mapsto> lk1\<lparr>refs := remove1 t (refs lk1)\<rparr>), wfg := g,
            pcs := (pcs s)(t := Idle), leaks := (t, l) # leaks s\<rparr>)"

text \<open>The mutex is not free: wait for its owners, or leave with the exception.\<close>

definition must_wait :: "txn \<Rightarrow> lock_id \<Rightarrow> lock_mode \<Rightarrow> lock \<Rightarrow> lm \<Rightarrow> lm" where
  "must_wait t l m lk s =
     (case add_waits_for t (owners lk) (wfg s) of
        (None, g) \<Rightarrow>
          s\<lparr>locks := (locks s)(l \<mapsto> lk\<lparr>waiters := waiters lk @ [t]\<rparr>), wfg := g,
            pcs := (pcs s)(t := Blocked l m)\<rparr>
      | (Some _, g) \<Rightarrow>
          s\<lparr>locks := (locks s)(l \<mapsto> lk\<lparr>refs := remove1 t (refs lk)\<rparr>), wfg := g,
            pcs := (pcs s)(t := Idle)\<rparr>)"

definition grant :: "txn \<Rightarrow> lock_id \<Rightarrow> lock_mode \<Rightarrow> lock \<Rightarrow> lm \<Rightarrow> lm" where
  "grant t l m lk s =
     s\<lparr>locks := (locks s)(l \<mapsto> rw_lock m t lk), pcs := (pcs s)(t := Granted l m)\<rparr>"

text \<open>The destructor of \<open>Transaction\<close>; \<open>drop_refs\<close> is the end of the vector of shared pointers.\<close>

definition end_begin :: "txn \<Rightarrow> lm \<Rightarrow> lm" where
  "end_begin t s = s\<lparr>wfg := remove_transaction t (wfg s), pcs := (pcs s)(t := Ending (held s t))\<rparr>"

definition end_owner :: "txn \<Rightarrow> lock_id \<Rightarrow> lock_id list \<Rightarrow> lock \<Rightarrow> lm \<Rightarrow> lm" where
  "end_owner t l ls lk s =
     s\<lparr>locks := (locks s)(l \<mapsto> lk\<lparr>owners := erase_remove t (owners lk)\<rparr>),
       pcs := (pcs s)(t := Releasing l ls)\<rparr>"

definition end_unlock :: "txn \<Rightarrow> lock_id \<Rightarrow> lock_id list \<Rightarrow> lock \<Rightarrow> lm \<Rightarrow> lm" where
  "end_unlock t l ls lk s =
     s\<lparr>locks := (locks s)(l \<mapsto> rw_unlock t lk), pcs := (pcs s)(t := Ending ls)\<rparr>"

definition drop_ref :: "txn \<Rightarrow> (lock_id \<rightharpoonup> lock) \<Rightarrow> lock_id \<Rightarrow> (lock_id \<rightharpoonup> lock)" where
  "drop_ref t lks l = lks(l := map_option (\<lambda>lk. lk\<lparr>refs := remove1 t (refs lk)\<rparr>) (lks l))"

definition end_drop :: "txn \<Rightarrow> lm \<Rightarrow> lm" where
  "end_drop t s =
     s\<lparr>locks := foldl (drop_ref t) (locks s) (held s t), held := (held s)(t := []),
       pcs := (pcs s)(t := Done)\<rparr>"

text \<open>\<open>getLockMode\<close>: the first lock of the item in the chain, unless it is expired.\<close>

definition get_lock_mode :: "(item \<Rightarrow> 64 word) \<Rightarrow> item \<Rightarrow> lm \<Rightarrow> lock_mode" where
  "get_lock_mode h d s =
     (case find (\<lambda>l. map_option item (locks s l) = Some d) (table s ! bucket h s d) of
        None \<Rightarrow> Unlocked
      | Some l \<Rightarrow> (case locks s l of
                      None \<Rightarrow> Unlocked
                    | Some lk \<Rightarrow> if is_lock_expired lk then Unlocked else ownership lk))"

section \<open>The step relation\<close>

inductive lm_step :: "(item \<Rightarrow> 64 word) \<Rightarrow> lm \<Rightarrow> lm \<Rightarrow> bool" for h where
  find: "pcs s t = Idle \<Longrightarrow> m \<noteq> Unlocked \<Longrightarrow> lm_step h s (acquire_find h t d m s)"
| try_lock: "pcs s t = Found l m \<Longrightarrow> locks s l = Some lk \<Longrightarrow> rw_available m lk \<Longrightarrow>
     lm_step h s (become_owner t l m (rw_lock m t lk) s)"
| wait: "pcs s t = Found l m \<Longrightarrow> locks s l = Some lk \<Longrightarrow> \<not> rw_available m lk \<Longrightarrow>
     lm_step h s (must_wait t l m lk s)"
| granted: "pcs s t = Blocked l m \<Longrightarrow> locks s l = Some lk \<Longrightarrow> rw_available m lk \<Longrightarrow>
     lm_step h s (grant t l m lk s)"
| wake: "pcs s t = Granted l m \<Longrightarrow> locks s l = Some lk \<Longrightarrow>
     lm_step h s (become_owner t l m (lk\<lparr>waiters := erase_remove t (waiters lk)\<rparr>) s)"
| end_tx: "pcs s t = Idle \<Longrightarrow> lm_step h s (end_begin t s)"
| end_own: "pcs s t = Ending (l # ls) \<Longrightarrow> locks s l = Some lk \<Longrightarrow>
     lm_step h s (end_owner t l ls lk s)"
| end_rel: "pcs s t = Releasing l ls \<Longrightarrow> locks s l = Some lk \<Longrightarrow>
     lm_step h s (end_unlock t l ls lk s)"
| end_fin: "pcs s t = Ending [] \<Longrightarrow> lm_step h s (end_drop t s)"

inductive lm_reachable :: "(item \<Rightarrow> 64 word) \<Rightarrow> nat \<Rightarrow> lm \<Rightarrow> bool" for h n where
  init: "lm_reachable h n (lock_manager_init n)"
| step: "lm_reachable h n s \<Longrightarrow> lm_step h s s' \<Longrightarrow> lm_reachable h n s'"

section \<open>Schedules\<close>

text \<open>
  The step relation as a program: an action names the transaction that moves and, in user code,
  what it does next. \<open>None\<close> says that the transaction cannot move (it is blocked or gone).
\<close>

datatype action = Acquire txn item lock_mode | Continue txn | End txn

fun lm_action :: "(item \<Rightarrow> 64 word) \<Rightarrow> lm \<Rightarrow> action \<Rightarrow> lm option" where
  "lm_action h s (Acquire t d m) =
     (if pcs s t = Idle \<and> m \<noteq> Unlocked then Some (acquire_find h t d m s) else None)"
| "lm_action h s (End t) = (if pcs s t = Idle then Some (end_begin t s) else None)"
| "lm_action h s (Continue t) =
     (case pcs s t of
        Found l m \<Rightarrow> (case locks s l of
                        None \<Rightarrow> None
                      | Some lk \<Rightarrow> if rw_available m lk then Some (become_owner t l m (rw_lock m t lk) s)
                                   else Some (must_wait t l m lk s))
      | Blocked l m \<Rightarrow> (case locks s l of
                          None \<Rightarrow> None
                        | Some lk \<Rightarrow> if rw_available m lk then Some (grant t l m lk s) else None)
      | Granted l m \<Rightarrow> map_option (\<lambda>lk. become_owner t l m
                            (lk\<lparr>waiters := erase_remove t (waiters lk)\<rparr>) s) (locks s l)
      | Ending [] \<Rightarrow> Some (end_drop t s)
      | Ending (l # ls) \<Rightarrow> map_option (\<lambda>lk. end_owner t l ls lk s) (locks s l)
      | Releasing l ls \<Rightarrow> map_option (\<lambda>lk. end_unlock t l ls lk s) (locks s l)
      | _ \<Rightarrow> None)"

fun lm_run :: "(item \<Rightarrow> 64 word) \<Rightarrow> lm \<Rightarrow> action list \<Rightarrow> lm option" where
  "lm_run h s [] = Some s"
| "lm_run h s (a # as) = (case lm_action h s a of None \<Rightarrow> None | Some s' \<Rightarrow> lm_run h s' as)"

lemma lm_action_step: "lm_action h s a = Some s' \<Longrightarrow> lm_step h s s'"
  by (cases a) (auto split: if_splits pc.splits option.splits list.splits intro: lm_step.intros)

lemma lm_run_reachable:
  "lm_reachable h n s \<Longrightarrow> lm_run h s as = Some s' \<Longrightarrow> lm_reachable h n s'"
proof (induction as arbitrary: s)
  case Nil
  then show ?case by simp
next
  case (Cons a as)
  then show ?case
    by (auto split: option.splits dest: lm_action_step intro: lm_reachable.step)
qed

lemmas run_simps = lm_run.simps lm_action.simps acquire_find_def Let_def become_owner_def must_wait_def
  grant_def end_begin_def end_owner_def end_unlock_def end_drop_def bucket_def lock_manager_init_def
  is_lock_expired_def rw_available_def rw_lock_def rw_unlock_def lock_construct_def drop_ref_def
  add_waiters_def add_waits_for_def add_waiter_edge_def entry_def push_new_def remove_transaction_def
  erase_remove_def find_duplicate_from_def find_duplicate.simps restrict_map_def get_lock_mode_def

end
