(* ===== verification/Lock_Safety.thy ===== *)
theory Lock_Safety
  imports Lock_Manager
begin

text \<open>
  Invariants of the lock manager's step relation and what follows from them: locks that are
  referenced are never deleted, an item has one live lock, an exclusive owner is the only owner,
  and blocked transactions never wait for each other in a cycle.
\<close>

section \<open>Auxiliary views of the state\<close>

text \<open>The locks a transaction has acquired and not yet given back.\<close>

fun pend_of :: "pc \<Rightarrow> lock_id list \<Rightarrow> lock_id list" where
  "pend_of (Ending ls) hs = ls"
| "pend_of (Releasing l ls) hs = l # ls"
| "pend_of _ hs = hs"

definition pend :: "lm \<Rightarrow> txn \<Rightarrow> lock_id list" where
  "pend s t = pend_of (pcs s t) (held s t)"

fun pc_ref :: "lock_id \<Rightarrow> pc \<Rightarrow> nat" where
  "pc_ref l (Found l' m) = (if l' = l then 1 else 0)"
| "pc_ref l (Blocked l' m) = (if l' = l then 1 else 0)"
| "pc_ref l (Granted l' m) = (if l' = l then 1 else 0)"
| "pc_ref l _ = 0"

definition refs_of :: "lm \<Rightarrow> lock_id \<Rightarrow> txn list" where
  "refs_of s l = (case locks s l of None \<Rightarrow> [] | Some lk \<Rightarrow> refs lk)"

fun ending :: "pc \<Rightarrow> bool" where
  "ending (Ending ls) = True"
| "ending (Releasing l ls) = True"
| "ending Done = True"
| "ending _ = False"

lemma count_list_remove1 [simp]:
  "count_list (remove1 x xs) y = (if x = y then count_list xs y - 1 else count_list xs y)"
  by (induction xs) auto

lemma rw_lock_simps [simp]:
  "item (rw_lock m t lk) = item lk" "refs (rw_lock m t lk) = refs lk"
  "owners (rw_lock m t lk) = owners lk" "waiters (rw_lock m t lk) = waiters lk"
  "ownership (rw_lock m t lk) = ownership lk"
  "readers (rw_lock m t lk) = (if m = Shared then t # readers lk else readers lk)"
  "writer (rw_lock m t lk) = (if m = Shared then writer lk else Some t)"
  by (auto simp: rw_lock_def)

lemma rw_unlock_simps [simp]:
  "item (rw_unlock t lk) = item lk" "refs (rw_unlock t lk) = refs lk"
  "owners (rw_unlock t lk) = owners lk" "waiters (rw_unlock t lk) = waiters lk"
  "ownership (rw_unlock t lk) = ownership lk"
  "readers (rw_unlock t lk) = (if ownership lk = Shared then remove1 t (readers lk) else readers lk)"
  "writer (rw_unlock t lk) = (if ownership lk = Shared then writer lk else None)"
  by (auto simp: rw_unlock_def)

section \<open>The walk over a chain\<close>

definition chain_alive :: "(lock_id \<rightharpoonup> lock) \<Rightarrow> lock_id list \<Rightarrow> bool" where
  "chain_alive lks ls \<longleftrightarrow> distinct ls \<and> (\<forall>l\<in>set ls. lks l \<noteq> None)"

lemma chain_find_correct:
  assumes "chain_find lks d ls = (r, ch, dead)" "chain_alive lks ls"
  shows "set dead \<subseteq> set ls" "set ch = set ls - set dead" "distinct ch"
    "\<forall>l\<in>set dead. \<exists>lk. lks l = Some lk \<and> refs lk = []"
    "\<forall>l. r = Some l \<longrightarrow> l \<in> set ch \<and> (\<exists>lk. lks l = Some lk \<and> item lk = d \<and> refs lk \<noteq> [])"
    "r = None \<longrightarrow> (\<forall>l\<in>set ch. \<forall>lk. lks l = Some lk \<longrightarrow> item lk \<noteq> d)"
proof -
  have "set dead \<subseteq> set ls \<and> set ch = set ls - set dead \<and> distinct ch \<and>
    (\<forall>l\<in>set dead. \<exists>lk. lks l = Some lk \<and> refs lk = []) \<and>
    (\<forall>l. r = Some l \<longrightarrow> l \<in> set ch \<and> (\<exists>lk. lks l = Some lk \<and> item lk = d \<and> refs lk \<noteq> [])) \<and>
    (r = None \<longrightarrow> (\<forall>l\<in>set ch. \<forall>lk. lks l = Some lk \<longrightarrow> item lk \<noteq> d))"
    using assms
  proof (induction ls arbitrary: r ch dead)
    case Nil
    then show ?case by auto
  next
    case (Cons a ls)
    from Cons.prems(2) obtain lk where lk: "lks a = Some lk" and al: "chain_alive lks ls" "a \<notin> set ls"
      by (auto simp: chain_alive_def)
    obtain r' ch' dead' where rec: "chain_find lks d ls = (r', ch', dead')"
      by (metis prod_cases3)
    note IH = Cons.IH [OF rec al(1)]
    consider "is_lock_expired lk" | "\<not> is_lock_expired lk" "item lk = d"
      | "\<not> is_lock_expired lk" "item lk \<noteq> d" by blast
    then show ?case
    proof cases
      case 1
      with Cons.prems(1) lk rec have "r = r'" "ch = ch'" "dead = a # dead'" by auto
      with IH lk al(2) 1 show ?thesis by (auto simp: is_lock_expired_def)
    next
      case 2
      with Cons.prems lk have "r = Some a" "ch = a # ls" "dead = []" by auto
      with lk 2 al show ?thesis by (auto simp: is_lock_expired_def chain_alive_def)
    next
      case 3
      with Cons.prems(1) lk rec have "r = r'" "ch = a # ch'" "dead = dead'" by auto
      with IH lk al(2) 3 show ?thesis by auto
    qed
  qed
  then show "set dead \<subseteq> set ls" "set ch = set ls - set dead" "distinct ch"
    "\<forall>l\<in>set dead. \<exists>lk. lks l = Some lk \<and> refs lk = []"
    "\<forall>l. r = Some l \<longrightarrow> l \<in> set ch \<and> (\<exists>lk. lks l = Some lk \<and> item lk = d \<and> refs lk \<noteq> [])"
    "r = None \<longrightarrow> (\<forall>l\<in>set ch. \<forall>lk. lks l = Some lk \<longrightarrow> item lk \<noteq> d)"
    by blast+
qed

section \<open>The hash table\<close>

definition inv_table :: "(item \<Rightarrow> 64 word) \<Rightarrow> lm \<Rightarrow> bool" where
  "inv_table h s \<longleftrightarrow> table s \<noteq> [] \<and>
     (\<forall>b < length (table s). chain_alive (locks s) (table s ! b) \<and>
        (\<forall>l\<in>set (table s ! b). \<forall>lk. locks s l = Some lk \<longrightarrow> bucket h s (item lk) = b)) \<and>
     (\<forall>l lk. locks s l = Some lk \<longrightarrow> l \<in> set (table s ! bucket h s (item lk)) \<and> l < next_lock s) \<and>
     (\<forall>l l' lk lk'. locks s l = Some lk \<and> locks s l' = Some lk' \<and> item lk = item lk' \<longrightarrow> l = l')"

text \<open>Steps that keep the table and the items of the locks keep the invariant.\<close>

lemma inv_table_frame:
  assumes "inv_table h s" "table s' = table s" "next_lock s' = next_lock s"
    and "\<And>l. map_option item (locks s' l) = map_option item (locks s l)"
  shows "inv_table h s'"
proof -
  have dom: "locks s' l = None \<longleftrightarrow> locks s l = None" for l
    using assms(4) [of l] by (cases "locks s l"; cases "locks s' l") auto
  have it: "\<exists>lk0. locks s l = Some lk0 \<and> item lk0 = item lk" if "locks s' l = Some lk" for l lk
    using assms(4) [of l] that by (cases "locks s l") auto
  have b: "bucket h s' = bucket h s" using assms(2) by (auto simp: bucket_def)
  show ?thesis
    using assms(1) unfolding inv_table_def chain_alive_def b assms(2,3) dom
    by (intro conjI; (metis it | blast))
qed

lemma bucket_less: "table s \<noteq> [] \<Longrightarrow> bucket h s d < length (table s)"
  by (simp add: bucket_def)

text \<open>The walk deletes expired locks of its bucket only, and keeps the table consistent.\<close>

lemma inv_tableD:
  assumes "inv_table h s"
  shows "table s \<noteq> []"
    and "b < length (table s) \<Longrightarrow> chain_alive (locks s) (table s ! b)"
    and "b < length (table s) \<Longrightarrow> l \<in> set (table s ! b) \<Longrightarrow> locks s l = Some lk \<Longrightarrow>
           bucket h s (item lk) = b"
    and "locks s l = Some lk \<Longrightarrow> l \<in> set (table s ! bucket h s (item lk))"
    and "locks s l = Some lk \<Longrightarrow> l < next_lock s"
    and "locks s l = Some lk \<Longrightarrow> locks s l' = Some lk' \<Longrightarrow> item lk = item lk' \<Longrightarrow> l = l'"
  using assms by (auto simp: inv_table_def)

lemma inv_table_clean:
  assumes inv: "inv_table h s"
    and walk: "chain_find (locks s) d (table s ! bucket h s d) = (r, ch, dead)"
  shows "inv_table h (s\<lparr>locks := locks s |` (- set dead), table := (table s)[bucket h s d := ch]\<rparr>)"
    (is "inv_table h ?s")
proof -
  let ?b = "bucket h s d"
  have b: "?b < length (table s)" using inv by (auto simp: inv_table_def bucket_less)
  note walk_facts = chain_find_correct [OF walk inv_tableD(2) [OF inv b]]
  have bk: "bucket h ?s = bucket h s" by (rule ext) (simp add: bucket_def)
  have chain: "set (table ?s ! c) = set (table s ! c) - set dead" if c: "c < length (table s)" for c
  proof (cases "c = ?b")
    case True
    then show ?thesis using b walk_facts(2) by simp
  next
    case False
    have "x \<notin> set dead" if "x \<in> set (table s ! c)" for x
    proof
      assume "x \<in> set dead"
      with walk_facts(1) have xb: "x \<in> set (table s ! ?b)" by blast
      from walk_facts(4) \<open>x \<in> set dead\<close> obtain lk where "locks s x = Some lk" by blast
      with inv_tableD(3) [OF inv c \<open>x \<in> set (table s ! c)\<close>] inv_tableD(3) [OF inv b xb] False
      show False by simp
    qed
    with False show ?thesis by auto
  qed
  have dist: "distinct (table ?s ! c)" if "c < length (table s)" for c
    using that b walk_facts(3) inv_tableD(2) [OF inv that] by (cases "c = ?b") (auto simp: chain_alive_def)
  show ?thesis
    unfolding inv_table_def bk
  proof (intro conjI allI impI ballI)
    show "table ?s \<noteq> []" using inv_tableD(1) [OF inv] by simp
  next
    fix c assume "c < length (table ?s)"
    then have c: "c < length (table s)" by simp
    show "chain_alive (locks ?s) (table ?s ! c)"
      using dist [OF c] chain [OF c] inv_tableD(2) [OF inv c]
      by (auto simp: chain_alive_def restrict_map_def)
  next
    fix c l lk
    assume c: "c < length (table ?s)" and l: "l \<in> set (table ?s ! c)" "locks ?s l = Some lk"
    from l c show "bucket h s (item lk) = c"
      using inv_tableD(3) [OF inv, of c l lk] chain [of c]
      by (auto simp: restrict_map_def split: if_splits)
  next
    fix l lk assume "locks ?s l = Some lk"
    then have l: "locks s l = Some lk" "l \<notin> set dead"
      by (auto simp: restrict_map_def split: if_splits)
    then show "l \<in> set (table ?s ! bucket h s (item lk))"
      using inv_tableD(4) [OF inv l(1)] chain [OF bucket_less [OF inv_tableD(1) [OF inv]]] by blast
    show "l < next_lock ?s" using inv_tableD(5) [OF inv l(1)] by simp
  next
    fix l l' lk lk'
    assume "locks ?s l = Some lk \<and> locks ?s l' = Some lk' \<and> item lk = item lk'"
    then show "l = l'"
      using inv_tableD(6) [OF inv, of l lk l' lk'] by (auto simp: restrict_map_def split: if_splits)
  qed
qed

text \<open>What the walk of \<open>acquireLock\<close> finds, in terms of the whole table.\<close>

lemma walk_result:
  assumes inv: "inv_table h s"
    and walk: "chain_find (locks s) d (table s ! bucket h s d) = (r, ch, dead)"
  shows "\<forall>l\<in>set dead. refs_of s l = []"
    and "r = Some l \<Longrightarrow> l \<notin> set dead \<and> (\<exists>lk. locks s l = Some lk \<and> item lk = d \<and> refs lk \<noteq> [])"
    and "r = None \<Longrightarrow> locks s l = Some lk \<Longrightarrow> l \<notin> set dead \<Longrightarrow> item lk \<noteq> d"
proof -
  have b: "bucket h s d < length (table s)" using inv by (auto simp: inv_table_def bucket_less)
  note walk_facts = chain_find_correct [OF walk inv_tableD(2) [OF inv b]]
  show "\<forall>l\<in>set dead. refs_of s l = []"
    using walk_facts(4) by (auto simp: refs_of_def)
  show "r = Some l \<Longrightarrow> l \<notin> set dead \<and> (\<exists>lk. locks s l = Some lk \<and> item lk = d \<and> refs lk \<noteq> [])"
    using walk_facts(2,5) by auto
  show "r = None \<Longrightarrow> locks s l = Some lk \<Longrightarrow> l \<notin> set dead \<Longrightarrow> item lk \<noteq> d"
    using walk_facts(2,6) inv_tableD(4) [OF inv] by blast
qed

lemma inv_table_new:
  assumes inv: "inv_table h s" and new: "\<And>l lk. locks s l = Some lk \<Longrightarrow> item lk \<noteq> d"
  shows "inv_table h (s\<lparr>locks := (locks s)(next_lock s \<mapsto> lock_construct d t),
           table := (table s)[bucket h s d := next_lock s # table s ! bucket h s d],
           next_lock := Suc (next_lock s)\<rparr>)" (is "inv_table h ?s")
proof -
  let ?b = "bucket h s d" and ?n = "next_lock s"
  have b: "?b < length (table s)" using inv by (auto simp: inv_table_def bucket_less)
  have bk: "bucket h ?s = bucket h s" by (rule ext) (simp add: bucket_def)
  have it: "item (lock_construct d t) = d" by (simp add: lock_construct_def)
  have fresh: "locks s ?n = None"
    using inv_tableD(5) [OF inv] by (metis less_irrefl not_None_eq)
  have notin: "?n \<notin> set (table s ! c)" if "c < length (table s)" for c
    using inv_tableD(2) [OF inv that] fresh by (auto simp: chain_alive_def)
  have chain: "table ?s ! c = (if c = ?b then ?n # table s ! c else table s ! c)"
    if "c < length (table s)" for c using b by simp
  show ?thesis
    unfolding inv_table_def bk
  proof (intro conjI allI impI ballI)
    show "table ?s \<noteq> []" using inv_tableD(1) [OF inv] by simp
  next
    fix c assume "c < length (table ?s)"
    then have c: "c < length (table s)" by simp
    show "chain_alive (locks ?s) (table ?s ! c)"
      using inv_tableD(2) [OF inv c] notin [OF c] unfolding chain [OF c]
      by (auto simp: chain_alive_def)
  next
    fix c l lk
    assume "c < length (table ?s)" and l: "l \<in> set (table ?s ! c)" "locks ?s l = Some lk"
    then have c: "c < length (table s)" by simp
    from l notin [OF c] show "bucket h s (item lk) = c"
      using inv_tableD(3) [OF inv c, of l lk] unfolding chain [OF c]
      by (auto simp: it split: if_splits)
  next
    fix l lk assume l: "locks ?s l = Some lk"
    have c: "bucket h s (item lk) < length (table s)" using inv by (simp add: inv_table_def bucket_less)
    from l show "l \<in> set (table ?s ! bucket h s (item lk))"
      using inv_tableD(4) [OF inv, of l lk] unfolding chain [OF c] by (auto simp: it split: if_splits)
    from l show "l < next_lock ?s"
      using inv_tableD(5) [OF inv, of l lk] by (auto split: if_splits)
  next
    fix l l' lk lk'
    assume "locks ?s l = Some lk \<and> locks ?s l' = Some lk' \<and> item lk = item lk'"
    then show "l = l'"
      using inv_tableD(6) [OF inv, of l lk l' lk'] new it by (auto split: if_splits)
  qed
qed

lemma inv_table_find:
  assumes inv: "inv_table h s"
  shows "inv_table h (acquire_find h t d m s)"
proof -
  obtain r ch dead where walk: "chain_find (locks s) d (table s ! bucket h s d) = (r, ch, dead)"
    by (metis prod_cases3)
  let ?s1 = "s\<lparr>locks := locks s |` (- set dead), table := (table s)[bucket h s d := ch]\<rparr>"
  have inv1: "inv_table h ?s1" by (rule inv_table_clean [OF inv walk])
  have bk: "bucket h ?s1 = bucket h s" by (rule ext) (simp add: bucket_def)
  have b: "bucket h s d < length (table s)" using inv by (auto simp: inv_table_def bucket_less)
  show ?thesis
  proof (cases r)
    case None
    have "item lk \<noteq> d" if "locks ?s1 l = Some lk" for l lk
      using that walk_result(3) [OF inv walk None] by (auto simp: restrict_map_def split: if_splits)
    then have "inv_table h (?s1\<lparr>locks := (locks ?s1)(next_lock s \<mapsto> lock_construct d t),
           table := (table ?s1)[bucket h s d := next_lock s # table ?s1 ! bucket h s d],
           next_lock := Suc (next_lock s)\<rparr>)" (is "inv_table h ?s2")
      using inv_table_new [OF inv1, of d t] by (simp add: bk)
    then show ?thesis
      by (rule inv_table_frame) (use walk None b in \<open>simp_all add: acquire_find_def Let_def\<close>)
  next
    case (Some l)
    from inv1 show ?thesis
      by (rule inv_table_frame) (use walk Some in \<open>auto simp: acquire_find_def Let_def option.map_comp o_def\<close>)
  qed
qed

lemma foldl_drop_ref:
  "foldl (drop_ref t) lks ls l
     = map_option (\<lambda>lk. lk\<lparr>refs := (remove1 t ^^ count_list ls l) (refs lk)\<rparr>) (lks l)"
proof (induction ls arbitrary: lks)
  case Nil
  show ?case by (cases "lks l") simp_all
next
  case (Cons a ls)
  have *: "foldl (drop_ref t) lks (a # ls) l
          = map_option (\<lambda>lk. lk\<lparr>refs := (remove1 t ^^ count_list ls l) (refs lk)\<rparr>) (drop_ref t lks a l)"
    using Cons.IH by simp
  show ?case
    unfolding * by (auto simp: drop_ref_def option.map_comp o_def funpow_swap1)
qed

lemma count_list_funpow_remove1 [simp]:
  "count_list ((remove1 t ^^ n) xs) u = (if t = u then count_list xs u - n else count_list xs u)"
  by (induction n) auto

lemma funpow_remove1_Nil [simp]: "(remove1 t ^^ n) [] = []"
  by (induction n) simp_all

lemma refs_of_end_drop:
  "refs_of (end_drop t s) l = (remove1 t ^^ count_list (held s t) l) (refs_of s l)"
  by (cases "locks s l") (simp_all add: refs_of_def end_drop_def foldl_drop_ref)

text \<open>Every step other than \<open>find\<close> changes one lock, and never its item.\<close>

lemmas handler_defs = become_owner_def must_wait_def grant_def end_begin_def end_owner_def
  end_unlock_def end_drop_def

lemma inv_table_step:
  assumes "lm_step h s s'" "inv_table h s"
  shows "inv_table h s'"
  using assms(1)
proof (cases rule: lm_step.cases)
  case (find t m d)
  then show ?thesis using assms(2) by (simp add: inv_table_find)
qed (rule inv_table_frame [OF assms(2)];
     auto simp: handler_defs Let_def foldl_drop_ref option.map_comp o_def
          split: prod.splits option.splits)+

section \<open>Reference counts\<close>

definition inv_refs :: "lm \<Rightarrow> bool" where
  "inv_refs s \<longleftrightarrow>
     (\<forall>l t. count_list (refs_of s l) t = count_list (held s t) l + pc_ref l (pcs s t)) \<and>
     (\<forall>t l. count_list (pend s t) l \<le> count_list (held s t) l)"

lemma inv_refs_find:
  assumes inv: "inv_table h s" and refs: "inv_refs s" and idle: "pcs s t = Idle"
  shows "inv_refs (acquire_find h t d m s)"
proof -
  obtain r ch dead where walk: "chain_find (locks s) d (table s ! bucket h s d) = (r, ch, dead)"
    by (metis prod_cases3)
  have fresh: "refs_of s (next_lock s) = []"
    using inv_tableD(5) [OF inv] by (auto simp: refs_of_def split: option.splits)
  have zero: "count_list (held s u) (next_lock s) = 0 \<and> pc_ref (next_lock s) (pcs s u) = 0" for u
    using refs fresh unfolding inv_refs_def by (metis add_is_0 count_list.simps(1))
  have same: "refs_of (acquire_find h t d m s) l
     = (if pcs (acquire_find h t d m s) t = Found l m then t # refs_of s l else refs_of s l)" for l
    using walk walk_result(1,2) [OF inv walk] fresh
    by (auto simp: acquire_find_def Let_def refs_of_def lock_construct_def restrict_map_def
        split: option.splits if_splits)
  obtain l0 where pc: "pcs (acquire_find h t d m s) = (pcs s)(t := Found l0 m)"
    and hd: "held (acquire_find h t d m s) = held s"
    using walk by (cases r) (auto simp: acquire_find_def Let_def)
  have pd: "pend (acquire_find h t d m s) = pend s"
    by (rule ext) (use idle in \<open>auto simp: pend_def pc hd\<close>)
  show ?thesis
    using refs idle unfolding inv_refs_def same pd by (auto simp: pc hd)
qed

lemma inv_refs_step:
  assumes "lm_step h s s'" "inv_table h s" "inv_refs s"
  shows "inv_refs s'"
  using assms(1)
proof (cases rule: lm_step.cases)
  case (find t m d)
  then show ?thesis using inv_refs_find [OF assms(2,3)] by simp
next
  case (try_lock t l m lk)
  then show ?thesis using assms(3)
    by (auto simp: inv_refs_def become_owner_def Let_def refs_of_def pend_def split: prod.splits option.splits)
next
  case (wait t l m lk)
  then show ?thesis using assms(3)
    by (auto simp: inv_refs_def must_wait_def Let_def refs_of_def pend_def split: prod.splits option.splits)
next
  case (granted t l m lk)
  then show ?thesis using assms(3)
    by (auto simp: inv_refs_def grant_def Let_def refs_of_def pend_def split: prod.splits option.splits)
next
  case (wake t l m lk)
  then show ?thesis using assms(3)
    by (auto simp: inv_refs_def become_owner_def Let_def refs_of_def pend_def split: prod.splits option.splits)
next
  case (end_tx t)
  then show ?thesis using assms(3)
    by (auto simp: inv_refs_def end_begin_def Let_def refs_of_def pend_def split: prod.splits option.splits)
next
  case (end_own t l ls lk)
  have "count_list (l # ls) x \<le> count_list (held s t) x" for x
    using assms(3) end_own(2) unfolding inv_refs_def pend_def by (metis pend_of.simps(1))
  from this [of l] this end_own show ?thesis using assms(3)
    by (auto simp: inv_refs_def end_owner_def Let_def refs_of_def pend_def split: prod.splits option.splits)
next
  case (end_rel t l ls lk)
  have "count_list (l # ls) x \<le> count_list (held s t) x" for x
    using assms(3) end_rel(2) unfolding inv_refs_def pend_def by (metis pend_of.simps(2))
  note le = this
  have "count_list ls x \<le> count_list (held s t) x" for x
    using le [of x] by (simp split: if_splits)
  from this le [of l] end_rel show ?thesis using assms(3)
    by (auto simp: inv_refs_def end_unlock_def Let_def refs_of_def pend_def split: prod.splits option.splits)
next
  case (end_fin t)
  have "pend s' = (pend s)(t := [])" "held s' = (held s)(t := [])" "pcs s' = (pcs s)(t := Done)"
    using end_fin by (auto simp: end_drop_def pend_def)
  moreover have "pc_ref l (pcs s t) = 0" for l using end_fin by simp
  ultimately show ?thesis
    using assms(3) unfolding inv_refs_def end_fin(1) refs_of_end_drop by auto
qed

text \<open>A lock that is referenced exists, and one that is not has no holder.\<close>

lemma inv_refs_None:
  assumes "inv_refs s" "locks s l = None"
  shows "count_list (held s t) l = 0" "count_list (pend s t) l = 0" "pc_ref l (pcs s t) = 0"
proof -
  have "count_list (held s t) l + pc_ref l (pcs s t) = 0"
    using assms unfolding inv_refs_def refs_of_def by (metis count_list.simps(1) option.simps(4))
  then show "count_list (held s t) l = 0" "pc_ref l (pcs s t) = 0" by auto
  then show "count_list (pend s t) l = 0"
    using assms(1) unfolding inv_refs_def by (metis le_zero_eq)
qed

section \<open>The mutex of a lock agrees with its holders\<close>

definition rw_ok :: "lock_id \<Rightarrow> lock \<Rightarrow> txn \<Rightarrow> pc \<Rightarrow> nat \<Rightarrow> bool" where
  "rw_ok l lk t p n \<longleftrightarrow>
     (p = Granted l Exclusive \<longrightarrow> writer lk = Some t \<and> n = 0) \<and>
     (p = Granted l Shared \<longrightarrow> n < count_list (readers lk) t) \<and>
     (n > 0 \<longrightarrow> ownership lk = Shared \<and> n \<le> count_list (readers lk) t \<or>
                ownership lk = Exclusive \<and> writer lk = Some t \<and> n = 1)"

fun pc_mode_ok :: "pc \<Rightarrow> bool" where
  "pc_mode_ok (Found l m) = (m \<noteq> Unlocked)"
| "pc_mode_ok (Blocked l m) = (m \<noteq> Unlocked)"
| "pc_mode_ok (Granted l m) = (m \<noteq> Unlocked)"
| "pc_mode_ok _ = True"

definition inv_rw :: "lm \<Rightarrow> bool" where
  "inv_rw s \<longleftrightarrow>
     (\<forall>l lk. locks s l = Some lk \<longrightarrow>
        (writer lk = None \<or> readers lk = []) \<and>
        (\<forall>t. rw_ok l lk t (pcs s t) (count_list (pend s t) l))) \<and>
     (\<forall>t. pc_mode_ok (pcs s t))"

lemma inv_rwD:
  assumes "inv_rw s" "locks s l = Some lk"
  shows "writer lk = None \<or> readers lk = []" "rw_ok l lk t (pcs s t) (count_list (pend s t) l)"
  using assms by (auto simp: inv_rw_def)

text \<open>A step of transaction \<open>t\<close> on lock \<open>l\<close> only has to be looked at there.\<close>

lemma inv_rw_update:
  assumes inv: "inv_rw s"
    and locks: "\<And>l'. l' \<noteq> l \<Longrightarrow> locks s' l' = locks s l'" "locks s' l = Some lk'"
    and others: "\<And>u. u \<noteq> t \<Longrightarrow> pcs s' u = pcs s u \<and> held s' u = held s u"
    and excl: "writer lk' = None \<or> readers lk' = []"
    and away: "\<And>l'. l' \<noteq> l \<Longrightarrow> count_list (pend s' t) l' = count_list (pend s t) l'"
      "\<And>l' m. l' \<noteq> l \<Longrightarrow> pcs s' t \<noteq> Granted l' m"
    and here: "\<And>u. u \<noteq> t \<Longrightarrow> rw_ok l lk' u (pcs s u) (count_list (pend s u) l)"
      "rw_ok l lk' t (pcs s' t) (count_list (pend s' t) l)"
    and mode: "pc_mode_ok (pcs s' t)"
  shows "inv_rw s'"
  unfolding inv_rw_def
proof (intro conjI allI impI)
  have pend: "pend s' u = pend s u" if "u \<noteq> t" for u using others [OF that] by (simp add: pend_def)
  fix l1 lk1 assume l1: "locks s' l1 = Some lk1"
  show "writer lk1 = None \<or> readers lk1 = []"
    using l1 locks excl inv by (cases "l1 = l") (auto simp: inv_rw_def)
  fix u show "rw_ok l1 lk1 u (pcs s' u) (count_list (pend s' u) l1)"
  proof (cases "l1 = l")
    case True
    with l1 locks(2) here others pend show ?thesis by (cases "u = t") auto
  next
    case False
    then have r: "rw_ok l1 lk1 u (pcs s u) (count_list (pend s u) l1)"
      using l1 locks(1) inv_rwD(2) [OF inv] by metis
    show ?thesis
    proof (cases "u = t")
      case True
      with r away [OF False] show ?thesis by (auto simp: rw_ok_def)
    next
      case u: False
      with r others [OF u] pend [OF u] show ?thesis by simp
    qed
  qed
next
  fix u show "pc_mode_ok (pcs s' u)"
    using others inv mode by (cases "u = t") (auto simp: inv_rw_def)
qed

lemma rw_ok_cong:
  "rw_ok l lk t p n \<Longrightarrow> writer lk' = writer lk \<Longrightarrow> readers lk' = readers lk \<Longrightarrow>
   ownership lk' = ownership lk \<Longrightarrow> rw_ok l lk' t p n"
  by (simp add: rw_ok_def)

lemma pc_not_granted_ok:
  "rw_ok l lk t p n \<Longrightarrow> (\<And>m. q \<noteq> Granted l m) \<Longrightarrow> rw_ok l lk t q n"
  by (simp add: rw_ok_def)

text \<open>With the mutex in mode \<open>m\<close> for \<open>t\<close>, the ownership may be set to \<open>m\<close>.\<close>

definition holds_rw :: "lock_id \<Rightarrow> lock_mode \<Rightarrow> txn \<Rightarrow> lock \<Rightarrow> lm \<Rightarrow> bool" where
  "holds_rw l m t lk s \<longleftrightarrow>
     (writer lk = None \<or> readers lk = []) \<and>
     (m = Exclusive \<longrightarrow> writer lk = Some t \<and> (\<forall>u. count_list (pend s u) l = 0) \<and>
        (\<forall>u. u \<noteq> t \<longrightarrow> (\<forall>m'. pcs s u \<noteq> Granted l m'))) \<and>
     (m = Shared \<longrightarrow> writer lk = None \<and> count_list (pend s t) l < count_list (readers lk) t \<and>
        (\<forall>u. u \<noteq> t \<longrightarrow> rw_ok l lk u (pcs s u) (count_list (pend s u) l)) \<and>
        (count_list (pend s t) l > 0 \<longrightarrow> ownership lk = Shared))"

lemma inv_rw_become_owner:
  assumes inv: "inv_rw s" and lk: "locks s l = Some lk0" and hold: "holds_rw l m t lk s"
    and m: "m = Shared \<or> m = Exclusive" and pend: "pend s t = held s t"
  shows "inv_rw (become_owner t l m lk s)"
proof (rule inv_rw_update [OF inv, where l = l and t = t and
    lk' = "the (locks (become_owner t l m lk s) l)"])
  let ?s = "become_owner t l m lk s" and ?lk = "the (locks (become_owner t l m lk s) l)"
  show "locks ?s l = Some ?lk"
    by (auto simp: become_owner_def Let_def split: prod.splits option.splits)
  have f: "writer ?lk = writer lk" "readers ?lk = readers lk" "ownership ?lk = m"
    by (auto simp: become_owner_def Let_def split: prod.splits option.splits)
  have cnt: "count_list (pend ?s t) l \<le> Suc (count_list (pend s t) l)"
    and pc: "pcs ?s = (pcs s)(t := Idle)"
    using pend by (auto simp: become_owner_def Let_def pend_def split: prod.splits option.splits)
  show "writer ?lk = None \<or> readers ?lk = []"
    using hold f by (simp add: holds_rw_def)
  show "rw_ok l ?lk u (pcs s u) (count_list (pend s u) l)" if "u \<noteq> t" for u
    using that hold m f by (auto simp: holds_rw_def rw_ok_def)
  show "rw_ok l ?lk t (pcs ?s t) (count_list (pend ?s t) l)"
    using hold m f cnt pc by (auto simp: holds_rw_def rw_ok_def)
  show "count_list (pend ?s t) l' = count_list (pend s t) l'" if "l' \<noteq> l" for l'
    using that pend by (auto simp: become_owner_def Let_def pend_def split: prod.splits option.splits)
qed (auto simp: become_owner_def Let_def split: prod.splits option.splits)

lemma inv_rw_find:
  assumes inv: "inv_table h s" "inv_refs s" "inv_rw s" and idle: "pcs s t = Idle" and m: "m \<noteq> Unlocked"
  shows "inv_rw (acquire_find h t d m s)" (is "inv_rw ?s")
proof -
  obtain r ch dead where walk: "chain_find (locks s) d (table s ! bucket h s d) = (r, ch, dead)"
    by (metis prod_cases3)
  obtain l0 where pc: "pcs ?s = (pcs s)(t := Found l0 m)" and hd: "held ?s = held s"
    using walk by (cases r) (auto simp: acquire_find_def Let_def)
  have pd: "pend ?s = pend s"
    by (rule ext) (use idle in \<open>auto simp: pend_def pc hd\<close>)
  have fresh: "locks s (next_lock s) = None"
    using inv_tableD(5) [OF inv(1)] by (metis less_irrefl not_None_eq)
  note zero = inv_refs_None [OF inv(2) fresh]
  have old: "(\<exists>lk0. locks s l = Some lk0 \<and> writer lk = writer lk0 \<and> readers lk = readers lk0 \<and>
               ownership lk = ownership lk0)
             \<or> l = next_lock s \<and> writer lk = None \<and> readers lk = []"
    if "locks ?s l = Some lk" for l lk
    using that walk by (cases r) (auto simp: acquire_find_def Let_def restrict_map_def lock_construct_def
        split: if_splits)
  have ok: "rw_ok l lk u (pcs ?s u) (count_list (pend ?s u) l)" if l: "locks ?s l = Some lk" for l lk u
  proof -
    have "rw_ok l lk u (pcs s u) (count_list (pend s u) l)"
      using old [OF l]
    proof (elim disjE exE conjE)
      fix lk0 assume "locks s l = Some lk0" "writer lk = writer lk0" "readers lk = readers lk0"
        "ownership lk = ownership lk0"
      then show ?thesis using inv_rwD(2) [OF inv(3)] by (blast intro: rw_ok_cong)
    next
      assume "l = next_lock s"
      then show ?thesis using zero(2,3) [of u] by (auto simp: rw_ok_def)
    qed
    then show ?thesis unfolding pd using idle by (auto simp: pc rw_ok_def)
  qed
  have "writer lk = None \<or> readers lk = []" if "locks ?s l = Some lk" for l lk
    using old [OF that] inv_rwD(1) [OF inv(3)] by metis
  moreover have "pc_mode_ok (pcs ?s u)" for u
    using inv(3) m by (auto simp: pc inv_rw_def)
  ultimately show ?thesis using ok unfolding inv_rw_def by blast
qed

lemma rw_free_no_holder:
  assumes "inv_rw s" "locks s l = Some lk" "writer lk = None" "readers lk = []"
  shows "count_list (pend s u) l = 0" "pcs s u \<noteq> Granted l Exclusive" "pcs s u \<noteq> Granted l Shared"
  using inv_rwD(2) [OF assms(1,2), of u] assms(3,4) by (auto simp: rw_ok_def)

lemma rw_writer_no_other:
  assumes "inv_rw s" "locks s l = Some lk" "writer lk = Some t" "u \<noteq> t"
  shows "count_list (pend s u) l = 0" "pcs s u \<noteq> Granted l Exclusive" "pcs s u \<noteq> Granted l Shared"
  using inv_rwD(1) [OF assms(1,2)] inv_rwD(2) [OF assms(1,2), of u] assms(3,4)
  by (auto simp: rw_ok_def)

lemma no_grant_iff: "(\<forall>m. p \<noteq> Granted l m) \<longleftrightarrow>
    p \<noteq> Granted l Exclusive \<and> p \<noteq> Granted l Shared \<and> p \<noteq> Granted l Unlocked"
  by (metis lock_mode.exhaust)

text \<open>\<open>try_lock\<close> on a free mutex, and the return of a blocked call, establish \<open>holds_rw\<close>.\<close>

lemma holds_rw_lock:
  assumes inv: "inv_rw s" and lk: "locks s l = Some lk" and free: "rw_available m lk"
    and m: "m \<noteq> Unlocked"
  shows "holds_rw l m t (rw_lock m t lk) s"
proof (cases "m = Shared")
  case True
  have ok: "rw_ok l lk u (pcs s u) (count_list (pend s u) l)" for u by (rule inv_rwD(2) [OF inv lk])
  have w: "writer lk = None" using free by (simp add: rw_available_def)
  show ?thesis
    unfolding holds_rw_def
  proof (intro conjI impI allI)
    show "rw_ok l (rw_lock m t lk) u (pcs s u) (count_list (pend s u) l)" if "u \<noteq> t" for u
      using ok [of u] that True by (simp add: rw_ok_def)
    show "count_list (pend s t) l < count_list (readers (rw_lock m t lk)) t"
      using ok [of t] w True by (auto simp: rw_ok_def)
    show "ownership (rw_lock m t lk) = Shared" if "count_list (pend s t) l > 0"
      using ok [of t] w that by (auto simp: rw_ok_def)
  qed (use True w in auto)
next
  case False
  then have m: "m = Exclusive" using m by (cases m) auto
  then have "writer lk = None" "readers lk = []"
    using free False by (auto simp: rw_available_def)
  note none = rw_free_no_holder [OF inv lk this]
  have "pcs s u \<noteq> Granted l Unlocked" for u
    using inv unfolding inv_rw_def by (metis pc_mode_ok.simps(3))
  then show ?thesis
    using none m \<open>readers lk = []\<close> by (simp add: holds_rw_def no_grant_iff)
qed

lemma holds_rw_granted:
  assumes inv: "inv_rw s" and lk: "locks s l = Some lk" and pc: "pcs s t = Granted l m"
    and lk': "writer lk' = writer lk" "readers lk' = readers lk" "ownership lk' = ownership lk"
  shows "holds_rw l m t lk' s"
proof (cases "m = Shared")
  case True
  have ok: "rw_ok l lk u (pcs s u) (count_list (pend s u) l)" for u by (rule inv_rwD(2) [OF inv lk])
  have cnt: "count_list (pend s t) l < count_list (readers lk) t"
    using ok [of t] pc True by (simp add: rw_ok_def)
  then have w: "writer lk = None" using inv_rwD(1) [OF inv lk] by auto
  show ?thesis
    unfolding holds_rw_def lk'
  proof (intro conjI impI allI)
    show "rw_ok l lk' u (pcs s u) (count_list (pend s u) l)" if "u \<noteq> t" for u
      by (rule rw_ok_cong [OF ok lk'])
    show "ownership lk = Shared" if "count_list (pend s t) l > 0"
      using ok [of t] w that by (auto simp: rw_ok_def)
  qed (use True w cnt in auto)
next
  case False
  have "m \<noteq> Unlocked" using inv pc unfolding inv_rw_def by (metis pc_mode_ok.simps(3))
  with False have m: "m = Exclusive" by (cases m) auto
  have w: "writer lk = Some t" "count_list (pend s t) l = 0"
    using inv_rwD(2) [OF inv lk, of t] pc m by (auto simp: rw_ok_def)
  note none = rw_writer_no_other [OF inv lk w(1)]
  have "pcs s u \<noteq> Granted l Unlocked" for u
    using inv unfolding inv_rw_def by (metis pc_mode_ok.simps(3))
  moreover have "count_list (pend s u) l = 0" for u using none(1) w(2) by (cases "u = t") auto
  ultimately show ?thesis
    using none m w inv_rwD(1) [OF inv lk] by (simp add: holds_rw_def no_grant_iff lk')
qed

lemma inv_rw_mode: "inv_rw s \<Longrightarrow> pc_mode_ok (pcs s t)"
  by (simp add: inv_rw_def)

lemma inv_rw_must_wait:
  assumes inv: "inv_rw s" and pc: "pcs s t = Found l m" and lk: "locks s l = Some lk"
  shows "inv_rw (must_wait t l m lk s)"
proof (rule inv_rw_update [OF inv, where l = l and t = t and
    lk' = "the (locks (must_wait t l m lk s) l)"])
  let ?s = "must_wait t l m lk s" and ?lk = "the (locks (must_wait t l m lk s) l)"
  have ok: "rw_ok l lk u (pcs s u) (count_list (pend s u) l)" for u by (rule inv_rwD(2) [OF inv lk])
  have f: "writer ?lk = writer lk" "readers ?lk = readers lk" "ownership ?lk = ownership lk"
    by (auto simp: must_wait_def split: prod.splits option.splits)
  have p: "pend ?s t = pend s t" "\<And>k. pcs ?s t \<noteq> Granted l k"
    using pc by (auto simp: must_wait_def pend_def split: prod.splits option.splits)
  show "locks ?s l = Some ?lk"
    by (auto simp: must_wait_def split: prod.splits option.splits)
  show "writer ?lk = None \<or> readers ?lk = []"
    using inv_rwD(1) [OF inv lk] f by simp
  show "rw_ok l ?lk u (pcs s u) (count_list (pend s u) l)" for u
    using ok f by (rule rw_ok_cong)
  show "rw_ok l ?lk t (pcs ?s t) (count_list (pend ?s t) l)"
    using rw_ok_cong [OF ok f] p(2) unfolding p(1) by (rule pc_not_granted_ok)
  show "count_list (pend ?s t) l' = count_list (pend s t) l'" for l' unfolding p(1) ..
  show "pc_mode_ok (pcs ?s t)"
    using inv_rw_mode [OF inv, of t] pc by (auto simp: must_wait_def split: prod.splits option.splits)
qed (auto simp: must_wait_def split: prod.splits option.splits)

lemma inv_rw_grant:
  assumes inv: "inv_rw s" and pc: "pcs s t = Blocked l m" and lk: "locks s l = Some lk"
    and free: "rw_available m lk"
  shows "inv_rw (grant t l m lk s)"
proof (rule inv_rw_update [OF inv, where l = l and t = t and lk' = "rw_lock m t lk"])
  have m: "m \<noteq> Unlocked" using inv_rw_mode [OF inv, of t] pc by simp
  have h: "holds_rw l m t (rw_lock m t lk) s" by (rule holds_rw_lock [OF inv lk free m])
  have p: "pend (grant t l m lk s) t = pend s t" using pc by (simp add: grant_def pend_def)
  show "rw_ok l (rw_lock m t lk) u (pcs s u) (count_list (pend s u) l)" if "u \<noteq> t" for u
    using h m that by (cases m) (auto simp: holds_rw_def rw_ok_def)
  show "rw_ok l (rw_lock m t lk) t (pcs (grant t l m lk s) t) (count_list (pend (grant t l m lk s) t) l)"
    using h m unfolding p by (cases m) (auto simp: holds_rw_def rw_ok_def grant_def)
  show "writer (rw_lock m t lk) = None \<or> readers (rw_lock m t lk) = []"
    using h by (simp add: holds_rw_def)
qed (use inv_rw_mode [OF inv, of t] pc in \<open>auto simp: grant_def pend_def\<close>)

lemma inv_rw_end_unlock:
  assumes inv: "inv_rw s" and pc: "pcs s t = Releasing l ls" and lk: "locks s l = Some lk"
  shows "inv_rw (end_unlock t l ls lk s)"
proof (rule inv_rw_update [OF inv, where l = l and t = t and lk' = "rw_unlock t lk"])
  have ok: "rw_ok l lk u (pcs s u) (count_list (pend s u) l)" for u by (rule inv_rwD(2) [OF inv lk])
  have p: "pend s t = l # ls" using pc by (simp add: pend_def)
  show "writer (rw_unlock t lk) = None \<or> readers (rw_unlock t lk) = []"
    using inv_rwD(1) [OF inv lk] by auto
  show "rw_ok l (rw_unlock t lk) u (pcs s u) (count_list (pend s u) l)" if "u \<noteq> t" for u
    using ok [of u] ok [of t] rw_writer_no_other [OF inv lk _ that] that p
    by (auto simp: rw_ok_def)
  show "rw_ok l (rw_unlock t lk) t (pcs (end_unlock t l ls lk s) t)
          (count_list (pend (end_unlock t l ls lk s) t) l)"
    using ok [of t] p pc by (auto simp: rw_ok_def end_unlock_def pend_def)
qed (use pc in \<open>auto simp: end_unlock_def pend_def\<close>)

lemma inv_rw_frame:
  assumes inv: "inv_rw s"
    and locks: "\<And>l lk'. locks s' l = Some lk' \<Longrightarrow> \<exists>lk. locks s l = Some lk \<and> writer lk' = writer lk \<and>
                  readers lk' = readers lk \<and> ownership lk' = ownership lk"
    and others: "\<And>u. u \<noteq> t \<Longrightarrow> pcs s' u = pcs s u"
    and pc: "\<And>l m. pcs s' t \<noteq> Granted l m" "pc_mode_ok (pcs s' t)"
    and pend: "\<And>u. pend s' u = pend s u"
  shows "inv_rw s'"
  unfolding inv_rw_def
proof (intro conjI allI impI)
  fix l lk' assume "locks s' l = Some lk'"
  then obtain lk where lk: "locks s l = Some lk" and f: "writer lk' = writer lk"
    "readers lk' = readers lk" "ownership lk' = ownership lk" using locks by blast
  show "writer lk' = None \<or> readers lk' = []" using inv_rwD(1) [OF inv lk] f by simp
  fix u
  have "rw_ok l lk' u (pcs s u) (count_list (pend s u) l)"
    using inv_rwD(2) [OF inv lk] f by (rule rw_ok_cong)
  then show "rw_ok l lk' u (pcs s' u) (count_list (pend s' u) l)"
    using others pc(1) pend by (cases "u = t") (auto simp: rw_ok_def)
next
  fix u show "pc_mode_ok (pcs s' u)"
    using others pc(2) inv by (cases "u = t") (auto simp: inv_rw_def)
qed

lemma inv_rw_step:
  assumes "lm_step h s s'" "inv_table h s" "inv_refs s" and inv: "inv_rw s"
  shows "inv_rw s'"
  using assms(1)
proof (cases rule: lm_step.cases)
  case (find t m d)
  then show ?thesis using inv_rw_find [OF assms(2-4)] by simp
next
  case (try_lock t l m lk)
  have m: "m \<noteq> Unlocked" using inv_rw_mode [OF inv, of t] try_lock by simp
  show ?thesis unfolding try_lock(1)
    by (rule inv_rw_become_owner [OF inv try_lock(3) holds_rw_lock [OF inv try_lock(3,4) m]])
      (use m try_lock in \<open>auto simp: pend_def intro: lock_mode.exhaust [of m]\<close>)
next
  case (wait t l m lk)
  then show ?thesis using inv_rw_must_wait [OF inv] by simp
next
  case (granted t l m lk)
  then show ?thesis using inv_rw_grant [OF inv] by simp
next
  case (wake t l m lk)
  have m: "m \<noteq> Unlocked" using inv_rw_mode [OF inv, of t] wake by simp
  show ?thesis unfolding wake(1)
    by (rule inv_rw_become_owner [OF inv wake(3) holds_rw_granted [OF inv wake(3,2)]])
      (use m wake in \<open>auto simp: pend_def intro: lock_mode.exhaust [of m]\<close>)
next
  case (end_tx t)
  then show ?thesis
    by (intro inv_rw_frame [OF inv, where t = t]) (auto simp: end_begin_def pend_def)
next
  case (end_own t l ls lk)
  then show ?thesis
    by (intro inv_rw_frame [OF inv, where t = t]) (auto simp: end_owner_def pend_def split: if_splits)
next
  case (end_rel t l ls lk)
  then show ?thesis using inv_rw_end_unlock [OF inv] by simp
next
  case (end_fin t)
  then show ?thesis
    by (intro inv_rw_frame [OF inv, where t = t]) (auto simp: end_drop_def pend_def foldl_drop_ref)
qed

section \<open>The waits-for graph knows who waits for whom\<close>

definition inv_wait :: "lm \<Rightarrow> bool" where
  "inv_wait s \<longleftrightarrow>
     (leaks s = [] \<longrightarrow> acyclic (waits_edges (wfg s))) \<and>
     (\<forall>t l m. pcs s t = Blocked l m \<or> pcs s t = Granted l m \<longrightarrow>
        (\<forall>lk. locks s l = Some lk \<longrightarrow> t \<in> set (waiters lk))) \<and>
     (\<forall>t l m lk q. pcs s t = Blocked l m \<and> locks s l = Some lk \<and> q \<in> set (owners lk) \<and>
        \<not> ending (pcs s q) \<longrightarrow> (t, q) \<in> waits_edges (wfg s))"

lemma inv_wait_blocked:
  assumes "inv_wait s" "pcs s t = Blocked l m" "locks s l = Some lk"
  shows "t \<in> set (waiters lk)"
    and "q \<in> set (owners lk) \<Longrightarrow> \<not> ending (pcs s q) \<Longrightarrow> (t, q) \<in> waits_edges (wfg s)"
  using assms by (auto simp: inv_wait_def)

text \<open>Steps that keep the waiters and add no owner and no edge.\<close>

lemma inv_wait_frame:
  assumes inv: "inv_wait s"
    and locks: "\<And>l lk' u m. locks s' l = Some lk' \<Longrightarrow> pcs s' u = Blocked l m \<or> pcs s' u = Granted l m \<Longrightarrow>
                  \<exists>lk. locks s l = Some lk \<and> waiters lk' = waiters lk \<and> set (owners lk') \<subseteq> set (owners lk)"
    and graph: "leaks s' = leaks s" "wfg s' = wfg s"
    and pc: "\<And>u. pcs s' u = pcs s u \<or> (\<forall>l m. pcs s' u \<noteq> Blocked l m \<and> (pcs s' u = Granted l m \<longrightarrow> pcs s u = Blocked l m))"
    and ends: "\<And>u. ending (pcs s u) \<Longrightarrow> ending (pcs s' u)"
  shows "inv_wait s'"
  unfolding inv_wait_def graph
proof (intro conjI allI impI)
  show "acyclic (waits_edges (wfg s))" if "leaks s = []" using inv that by (simp add: inv_wait_def)
next
  fix u l m lk'
  assume p: "pcs s' u = Blocked l m \<or> pcs s' u = Granted l m" and lk': "locks s' l = Some lk'"
  with locks [OF lk'] obtain lk where "locks s l = Some lk" "waiters lk' = waiters lk" by blast
  then show "u \<in> set (waiters lk')"
    using p pc [of u] inv unfolding inv_wait_def by metis
next
  fix u l m lk' q
  assume a: "pcs s' u = Blocked l m \<and> locks s' l = Some lk' \<and> q \<in> set (owners lk') \<and> \<not> ending (pcs s' q)"
  then have p: "pcs s u = Blocked l m" using pc [of u] by auto
  from locks [of l lk' u m] a obtain lk where "locks s l = Some lk" "set (owners lk') \<subseteq> set (owners lk)" by blast
  then show "(u, q) \<in> waits_edges (wfg s)"
    using a p ends inv unfolding inv_wait_def by blast
qed

lemma inv_wait_become_owner:
  assumes inv: "inv_wait s" and lk0: "locks s l = Some lk0"
    and pc: "pcs s t = Found l m \<or> pcs s t = Granted l m"
    and lk: "owners lk = owners lk0" "set (waiters lk) - {t} = set (waiters lk0) - {t}"
  shows "inv_wait (become_owner t l m lk s)" (is "inv_wait ?s")
proof -
  obtain e g where a: "add_waiters t (waiters lk) (wfg s) = (e, g)" by fastforce
  have edges: "waits_edges g = waits_edges (wfg s) \<union> set (waiters lk) \<times> {t}"
    using add_waiters_edges [of t "waiters lk" "wfg s"] a by simp
  have acyc: "acyclic (waits_edges (wfg s)) \<Longrightarrow> e = None \<Longrightarrow> acyclic (waits_edges g)"
    using add_waiters_acyclic [of "wfg s" t "waiters lk"] a by simp
  define lk' where "lk' = the (locks ?s l)"
  have l: "locks ?s = (locks s)(l \<mapsto> lk')" and f: "owners lk' = owners lk0 @ [t]" "waiters lk' = waiters lk"
    and pcs: "pcs ?s = (pcs s)(t := Idle)" and wfg: "wfg ?s = g"
    and leaks: "leaks ?s = [] \<Longrightarrow> leaks s = [] \<and> e = None"
    using a lk(1) by (cases e; simp add: lk'_def become_owner_def)+
  show ?thesis
    unfolding inv_wait_def wfg
  proof (intro conjI allI impI)
    show "acyclic (waits_edges g)" if "leaks ?s = []"
      using leaks [OF that] inv acyc by (simp add: inv_wait_def)
  next
    fix u l' m' lk1
    assume "pcs ?s u = Blocked l' m' \<or> pcs ?s u = Granted l' m'" "locks ?s l' = Some lk1"
    then show "u \<in> set (waiters lk1)"
      using inv lk0 lk(2) f(2) by (fastforce simp: inv_wait_def pcs l split: if_splits)
  next
    fix u l' m' lk1 q
    assume "pcs ?s u = Blocked l' m' \<and> locks ?s l' = Some lk1 \<and> q \<in> set (owners lk1) \<and> \<not> ending (pcs ?s q)"
    then have b: "pcs s u = Blocked l' m'" "u \<noteq> t" "locks ?s l' = Some lk1" "q \<in> set (owners lk1)"
      "\<not> ending (pcs ?s q)" by (auto simp: pcs split: if_splits)
    have nt: "\<not> ending (pcs s t)" using pc by auto
    have nq: "\<not> ending (pcs s q)" using b(5) nt by (cases "q = t") (auto simp: pcs)
    show "(u, q) \<in> waits_edges g"
    proof (cases "l' = l")
      case False
      then show ?thesis
        using inv_wait_blocked(2) [OF inv b(1)] b(3,4) nq by (auto simp: l edges)
    next
      case True
      with b(3) have [simp]: "lk1 = lk'" by (simp add: l)
      have w: "u \<in> set (waiters lk)"
        using inv_wait_blocked(1) [OF inv b(1)] True lk0 lk(2) b(2) by auto
      show ?thesis
        using inv_wait_blocked(2) [OF inv b(1), of lk0 q] True lk0 w b(4) nq f(1) by (auto simp: edges)
    qed
  qed
qed

lemma inv_wait_must_wait:
  assumes inv: "inv_wait s" and lk: "locks s l = Some lk" and pc: "pcs s t = Found l m"
  shows "inv_wait (must_wait t l m lk s)" (is "inv_wait ?s")
proof -
  obtain e g where a: "add_waits_for t (owners lk) (wfg s) = (e, g)" by fastforce
  have edges: "waits_edges g = (if e = None then waits_edges (wfg s) \<union> {t} \<times> set (owners lk)
                                else waits_edges (wfg s) - {t} \<times> UNIV)"
    using add_waits_for_edges [of t "owners lk" "wfg s"] a by simp
  have acyc: "acyclic (waits_edges (wfg s)) \<Longrightarrow> acyclic (waits_edges g)"
    using add_waits_for_acyclic [of "wfg s" t "owners lk"] a by simp
  have keep: "(u, q) \<in> waits_edges g" if "(u, q) \<in> waits_edges (wfg s)" "u \<noteq> t" for u q
    using that edges by auto
  show ?thesis
    using inv lk pc a acyc keep
    by (cases e) (auto simp: inv_wait_def must_wait_def edges split: if_splits)
qed

lemma inv_wait_end_begin:
  assumes inv: "inv_wait s" and pc: "pcs s t = Idle"
  shows "inv_wait (end_begin t s)"
proof -
  have "acyclic (waits_edges (wfg s)) \<Longrightarrow> acyclic (waits_edges (remove_transaction t (wfg s)))"
    unfolding waits_edges_remove by (erule acyclic_subset) blast
  then show ?thesis
    using inv pc by (auto simp: inv_wait_def end_begin_def waits_edges_remove)
qed

lemma inv_wait_find:
  assumes table: "inv_table h s" and refs: "inv_refs s" and inv: "inv_wait s" and idle: "pcs s t = Idle"
    and m: "m \<noteq> Unlocked"
  shows "inv_wait (acquire_find h t d m s)" (is "inv_wait ?s")
proof -
  obtain r ch dead where walk: "chain_find (locks s) d (table s ! bucket h s d) = (r, ch, dead)"
    by (metis prod_cases3)
  obtain l0 where pc: "pcs ?s = (pcs s)(t := Found l0 m)" and g: "wfg ?s = wfg s" "leaks ?s = leaks s"
    using walk by (cases r) (auto simp: acquire_find_def Let_def)
  have fresh: "locks s (next_lock s) = None"
    using inv_tableD(5) [OF table] by (metis less_irrefl not_None_eq)
  note zero = inv_refs_None(3) [OF refs fresh]
  show ?thesis
  proof (rule inv_wait_frame [OF inv])
    fix l lk' u m'
    assume lk': "locks ?s l = Some lk'" and u: "pcs ?s u = Blocked l m' \<or> pcs ?s u = Granted l m'"
    have "l \<noteq> next_lock s" using u zero [of u] by (auto simp: pc split: if_splits)
    then show "\<exists>lk. locks s l = Some lk \<and> waiters lk' = waiters lk \<and> set (owners lk') \<subseteq> set (owners lk)"
      using lk' walk by (cases r) (auto simp: acquire_find_def Let_def restrict_map_def split: if_splits)
  qed (use idle g in \<open>auto simp: pc\<close>)
qed

lemma inv_wait_step:
  assumes "lm_step h s s'" "inv_table h s" "inv_refs s" and rw: "inv_rw s" and inv: "inv_wait s"
  shows "inv_wait s'"
  using assms(1)
proof (cases rule: lm_step.cases)
  case (find t m d)
  then show ?thesis using inv_wait_find [OF assms(2,3) inv] by simp
next
  case (try_lock t l m lk)
  then show ?thesis using inv_wait_become_owner [OF inv try_lock(3)] by simp
next
  case (wait t l m lk)
  then show ?thesis using inv_wait_must_wait [OF inv] by simp
next
  case (granted t l m lk)
  then show ?thesis
    by (intro inv_wait_frame [OF inv]) (auto simp: grant_def split: if_splits)
next
  case (wake t l m lk)
  then show ?thesis using inv_wait_become_owner [OF inv wake(3)] by simp
next
  case (end_tx t)
  then show ?thesis using inv_wait_end_begin [OF inv] by simp
next
  case (end_own t l ls lk)
  then show ?thesis
    by (intro inv_wait_frame [OF inv]) (auto simp: end_owner_def split: if_splits)
next
  case (end_rel t l ls lk)
  then show ?thesis
    by (intro inv_wait_frame [OF inv]) (auto simp: end_unlock_def split: if_splits)
next
  case (end_fin t)
  then show ?thesis
    by (intro inv_wait_frame [OF inv]) (auto simp: end_drop_def foldl_drop_ref)
qed

section \<open>Reachable states\<close>

definition lm_inv :: "(item \<Rightarrow> 64 word) \<Rightarrow> lm \<Rightarrow> bool" where
  "lm_inv h s \<longleftrightarrow> inv_table h s \<and> inv_refs s \<and> inv_rw s \<and> inv_wait s"

lemma lm_inv_init: "0 < n \<Longrightarrow> lm_inv h (lock_manager_init n)"
  by (simp add: lm_inv_def inv_table_def inv_refs_def inv_rw_def inv_wait_def lock_manager_init_def
      bucket_def chain_alive_def refs_of_def pend_def waits_edges_def entry_def)

lemma lm_inv_step: "lm_step h s s' \<Longrightarrow> lm_inv h s \<Longrightarrow> lm_inv h s'"
  unfolding lm_inv_def using inv_table_step inv_refs_step inv_rw_step inv_wait_step by blast

lemma lm_reachable_inv: "lm_reachable h n s \<Longrightarrow> 0 < n \<Longrightarrow> lm_inv h s"
  by (induction rule: lm_reachable.induct) (auto intro: lm_inv_init lm_inv_step)

text \<open>A transaction holds an item while it has acquired and not yet released a lock on it.\<close>

definition holds_item :: "lm \<Rightarrow> txn \<Rightarrow> item \<Rightarrow> bool" where
  "holds_item s t d \<longleftrightarrow> (\<exists>l\<in>set (pend s t). \<exists>lk. locks s l = Some lk \<and> item lk = d)"

lemma find_unique:
  assumes "x \<in> set xs" "P x" "\<And>y. y \<in> set xs \<Longrightarrow> P y \<Longrightarrow> y = x"
  shows "find P xs = Some x"
  using assms
proof (induction xs)
  case Nil
  then show ?case by simp
next
  case (Cons a xs)
  show ?case
  proof (cases "P a")
    case True
    then show ?thesis using Cons.prems(3) [of a] by simp
  next
    case False
    then have "x \<in> set xs" using Cons.prems(1,2) by auto
    moreover have "y = x" if "y \<in> set xs" "P y" for y
      using that by (intro Cons.prems(3)) simp_all
    ultimately have "find P xs = Some x" using Cons.prems(2) by (intro Cons.IH)
    with False show ?thesis by (simp only: find.simps if_False)
  qed
qed

lemma count_list_pos: "0 < count_list xs x \<longleftrightarrow> x \<in> set xs"
  by (induction xs) auto

text \<open>\<open>getLockMode\<close> reads the ownership of the lock that the holders of the item share.\<close>

lemma get_lock_mode_live:
  assumes inv: "inv_table h s" and lk: "locks s l = Some lk" and live: "refs lk \<noteq> []"
  shows "get_lock_mode h (item lk) s = ownership lk"
proof -
  have "find (\<lambda>l. map_option item (locks s l) = Some (item lk)) (table s ! bucket h s (item lk)) = Some l"
  proof (rule find_unique)
    show "l \<in> set (table s ! bucket h s (item lk))" by (rule inv_tableD(4) [OF inv lk])
    show "y = l" if "map_option item (locks s y) = Some (item lk)" for y
      using that inv_tableD(6) [OF inv _ lk] by auto
  qed (use lk in simp)
  then show ?thesis using lk live by (simp add: get_lock_mode_def is_lock_expired_def)
qed

lemma pend_live:
  assumes inv: "inv_refs s" and l: "l \<in> set (pend s t)"
  shows "\<exists>lk. locks s l = Some lk \<and> t \<in> set (refs lk)"
proof -
  have "0 < count_list (pend s t) l" using l by (simp add: count_list_pos)
  then have "0 < count_list (refs_of s l) t"
    using inv unfolding inv_refs_def by (metis add_is_0 gr0I le_zero_eq)
  then show ?thesis
    by (cases "locks s l") (auto simp: refs_of_def count_list_pos)
qed

lemma holder_rw:
  assumes inv: "lm_inv h s" and l: "l \<in> set (pend s t)" and lk: "locks s l = Some lk"
  shows "get_lock_mode h (item lk) s = ownership lk"
    and "ownership lk = Shared \<and> t \<in> set (readers lk) \<or> ownership lk = Exclusive \<and> writer lk = Some t"
proof -
  have "0 < count_list (pend s t) l" using l by (simp add: count_list_pos)
  moreover have "rw_ok l lk t (pcs s t) (count_list (pend s t) l)"
    using inv lk by (auto simp: lm_inv_def inv_rw_def)
  ultimately show "ownership lk = Shared \<and> t \<in> set (readers lk) \<or> ownership lk = Exclusive \<and> writer lk = Some t"
    by (auto simp: rw_ok_def simp flip: count_list_pos)
  have "refs lk \<noteq> []" using pend_live [of s l t] inv l lk by (auto simp: lm_inv_def)
  then show "get_lock_mode h (item lk) s = ownership lk"
    using inv lk by (intro get_lock_mode_live) (auto simp: lm_inv_def)
qed

section \<open>Properties\<close>

text \<open>C24: Mutual exclusion: in every reachable state, whatever the schedule and the hash function, if a
  transaction holds an item and the manager's mode of the item is Exclusive, then no other
  transaction holds the item, in any mode.\<close>

theorem lock_mutual_exclusion:
  assumes "lm_reachable h n s" "0 < n" "holds_item s t d" "get_lock_mode h d s = Exclusive"
  shows "holds_item s u d \<longleftrightarrow> u = t"
proof
  have inv: "lm_inv h s" using assms(1,2) by (rule lm_reachable_inv)
  obtain l lk where l: "l \<in> set (pend s t)" "locks s l = Some lk" "item lk = d"
    using assms(3) by (auto simp: holds_item_def)
  note t = holder_rw [OF inv l(1,2)]
  then have w: "writer lk = Some t" using assms(4) l(3) by auto
  assume "holds_item s u d"
  then obtain l' lk' where l': "l' \<in> set (pend s u)" "locks s l' = Some lk'" "item lk' = d"
    by (auto simp: holds_item_def)
  have "l' = l"
    using inv_tableD(6) [of h s l' lk' l lk] inv l(2,3) l'(2,3) by (simp add: lm_inv_def)
  then have "lk' = lk" using l(2) l'(2) by simp
  then have "writer lk = Some u"
    using holder_rw [OF inv l'(1,2)] assms(4) l(3) by auto
  with w show "u = t" by simp
next
  assume "u = t"
  then show "holds_item s u d" using assms(3) by simp
qed

definition two_txn_schedule :: "action list" where
  "two_txn_schedule = [Acquire 1 7 Exclusive, Continue 1, Acquire 2 7 Shared, Continue 2]"

lemma two_txn_run:
  obtains s where "lm_reachable (\<lambda>d. d) 2 s" "holds_item s 1 7" "get_lock_mode (\<lambda>d. d) 7 s = Exclusive"
    "leaks s = []" "pcs s 2 = Blocked 1 Shared"
proof -
  obtain s where s: "lm_run (\<lambda>d. d) (lock_manager_init 2) two_txn_schedule = Some s"
    by (auto simp: run_simps two_txn_schedule_def)
  have r: "lm_reachable (\<lambda>d. d) 2 s"
    using lm_reachable.init s by (rule lm_run_reachable)
  show ?thesis
    by (rule that [OF r])
      (use s in \<open>auto simp: run_simps two_txn_schedule_def holds_item_def pend_def\<close>)
qed

theorem lock_mutual_exclusion_witness:
  "\<exists>s. lm_reachable (\<lambda>d. d) 2 s \<and> holds_item s 1 7 \<and> get_lock_mode (\<lambda>d. d) 7 s = Exclusive \<and>
       \<not> holds_item s 2 7"
proof -
  obtain s where s: "lm_reachable (\<lambda>d. d) 2 s" "holds_item s 1 7" "get_lock_mode (\<lambda>d. d) 7 s = Exclusive"
    by (rule two_txn_run)
  have "\<not> holds_item s 2 7"
    using lock_mutual_exclusion [OF s(1) _ s(2,3), of 2] by simp
  with s show ?thesis by blast
qed

text \<open>C25: No deadlock: in every reachable state in which no call of \<open>acquireLock\<close> has leaked its mutex,
  there is no cycle of transactions each of which is blocked on a lock that the next one owns.\<close>

theorem lock_no_deadlock:
  assumes "lm_reachable h n s" "0 < n" "leaks s = []"
  shows "acyclic {(t, q). \<exists>l m lk l' m'. pcs s t = Blocked l m \<and> locks s l = Some lk \<and>
                    q \<in> set (owners lk) \<and> pcs s q = Blocked l' m'}"
proof -
  have inv: "inv_wait s" using lm_reachable_inv [OF assms(1,2)] by (simp add: lm_inv_def)
  then have "acyclic (waits_edges (wfg s))" using assms(3) by (simp add: inv_wait_def)
  then show ?thesis
    by (rule acyclic_subset) (auto intro: inv_wait_blocked(2) [OF inv])
qed

theorem lock_no_deadlock_witness:
  "\<exists>s. lm_reachable (\<lambda>d. d) 2 s \<and> leaks s = [] \<and> pcs s 2 = Blocked 1 Shared \<and>
       acyclic {(t, q). \<exists>l m lk l' m'. pcs s t = Blocked l m \<and> locks s l = Some lk \<and>
                    q \<in> set (owners lk) \<and> pcs s q = Blocked l' m'}"
proof -
  obtain s where s: "lm_reachable (\<lambda>d. d) 2 s" "leaks s = []" "pcs s 2 = Blocked 1 Shared"
    by (rule two_txn_run)
  show ?thesis using s lock_no_deadlock [OF s(1) _ s(2)] by auto
qed

text \<open>C31: Memory safety of the lazy deletion: a lock that a transaction has in its vector, or is waiting
  for inside \<open>acquireLock\<close>, is never deleted by the walk over its chain and is not expired.\<close>

theorem lock_not_deleted_while_referenced:
  assumes "lm_reachable h n s" "0 < n" "l \<in> set (held s t) \<or> pc_ref l (pcs s t) \<noteq> 0"
  shows "\<exists>lk. locks s l = Some lk \<and> t \<in> set (refs lk) \<and> \<not> is_lock_expired lk"
proof -
  have inv: "inv_refs s" using lm_reachable_inv [OF assms(1,2)] by (simp add: lm_inv_def)
  have "count_list (held s t) l + pc_ref l (pcs s t) \<noteq> 0"
    using assms(3) by (auto simp: count_list_0_iff)
  then have "t \<in> set (refs_of s l)" using inv by (simp add: inv_refs_def flip: count_list_pos)
  then show ?thesis
    by (cases "locks s l") (auto simp: refs_of_def is_lock_expired_def)
qed

theorem lock_not_deleted_while_referenced_witness:
  "\<exists>s. lm_reachable (\<lambda>d. d) 2 s \<and> pc_ref 1 (pcs s 2) \<noteq> 0 \<and>
       (\<exists>lk. locks s 1 = Some lk \<and> 2 \<in> set (refs lk))"
proof -
  obtain s where s: "lm_reachable (\<lambda>d. d) 2 s" "pcs s 2 = Blocked 1 Shared"
    by (rule two_txn_run)
  then have "pc_ref 1 (pcs s 2) \<noteq> 0" by simp
  with s show ?thesis using lock_not_deleted_while_referenced [OF s(1), of 1 2] by auto
qed

text \<open>The destructor of a transaction calls the unlock function that matches the way the mutex is
  held: \<open>unlock_shared\<close> only as a reader, \<open>unlock\<close> only as the writer.\<close>

theorem release_matches_mode:
  assumes "lm_reachable h n s" "0 < n" "pcs s t = Releasing l ls" "locks s l = Some lk"
  shows "if ownership lk = Shared then t \<in> set (readers lk) else writer lk = Some t"
proof -
  have inv: "lm_inv h s" using assms(1,2) by (rule lm_reachable_inv)
  have "l \<in> set (pend s t)" using assms(3) by (simp add: pend_def)
  then show ?thesis using holder_rw(2) [OF inv _ assms(4)] by auto
qed

theorem release_matches_mode_witness:
  "\<exists>s lk. lm_reachable (\<lambda>d. d) 2 s \<and> pcs s 1 = Releasing 1 [] \<and> locks s 1 = Some lk \<and> writer lk = Some 1"
proof -
  obtain s where s: "lm_run (\<lambda>d. d) (lock_manager_init 2)
      [Acquire 1 7 Exclusive, Continue 1, End 1, Continue 1] = Some s"
    by (auto simp: run_simps)
  have r: "lm_reachable (\<lambda>d. d) 2 s"
    using lm_reachable.init s by (rule lm_run_reachable)
  have p: "pcs s 1 = Releasing 1 []" using s by (auto simp: run_simps)
  obtain lk where lk: "locks s 1 = Some lk" "ownership lk = Exclusive" using s by (auto simp: run_simps)
  from release_matches_mode [OF r _ p lk(1)] lk p r show ?thesis by auto
qed

end
