(* ===== verification/Lock_Destroy.thy ===== *)
theory Lock_Destroy
  imports Lock_Safety
begin

text \<open>
  The destructor of the lock manager (\<^verbatim>\<open>~LockManager\<close> in \<^verbatim>\<open>lock_manager.cc\<close>) walks over the chains
  of the table and deletes every lock. Deleting a lock that is not there has no result.
\<close>

definition delete_lock :: "lock_id \<Rightarrow> (lock_id \<rightharpoonup> lock) \<Rightarrow> (lock_id \<rightharpoonup> lock) option" where
  "delete_lock l ls = do { require (ls l \<noteq> None); Some (ls(l := None)) }"

fun delete_chain :: "lock_id list \<Rightarrow> (lock_id \<rightharpoonup> lock) \<Rightarrow> (lock_id \<rightharpoonup> lock) option" where
  "delete_chain [] ls = Some ls"
| "delete_chain (l # chain) ls = do { ls \<leftarrow> delete_lock l ls; delete_chain chain ls }"

fun delete_table :: "lock_id list list \<Rightarrow> (lock_id \<rightharpoonup> lock) \<Rightarrow> (lock_id \<rightharpoonup> lock) option" where
  "delete_table [] ls = Some ls"
| "delete_table (chain # tab) ls = do { ls \<leftarrow> delete_chain chain ls; delete_table tab ls }"

definition lock_manager_destroy :: "lm \<Rightarrow> (lock_id \<rightharpoonup> lock) option" where
  "lock_manager_destroy s = delete_table (table s) (locks s)"

lemma delete_chain_ok: "distinct chain \<Longrightarrow> set chain \<subseteq> dom ls \<Longrightarrow> delete_chain chain ls = Some (ls |` (- set chain))"
proof (induction chain arbitrary: ls)
  case (Cons l chain)
  have "set chain \<subseteq> dom (ls(l := None))" using Cons.prems by auto
  then have "delete_chain chain (ls(l := None)) = Some ((ls(l := None)) |` (- set chain))"
    using Cons by simp
  moreover have "(ls(l := None)) |` (- set chain) = ls |` (- set (l # chain))"
    by (auto simp: restrict_map_def fun_eq_iff)
  moreover have "ls l \<noteq> None" using Cons.prems by auto
  ultimately show ?case by (simp add: delete_lock_def)
qed (simp add: restrict_map_def)

lemma delete_table_ok:
  "distinct (concat tab) \<Longrightarrow> set (concat tab) \<subseteq> dom ls \<Longrightarrow> delete_table tab ls = Some (ls |` (- set (concat tab)))"
proof (induction tab arbitrary: ls)
  case (Cons chain tab)
  have "delete_chain chain ls = Some (ls |` (- set chain))" using Cons.prems by (intro delete_chain_ok) auto
  moreover have "delete_table tab (ls |` (- set chain)) = Some ((ls |` (- set chain)) |` (- set (concat tab)))"
  proof (rule Cons.IH)
    show "distinct (concat tab)" using Cons.prems(1) by simp
    have "set (concat tab) \<subseteq> dom ls" "set chain \<inter> set (concat tab) = {}" using Cons.prems by simp_all
    then show "set (concat tab) \<subseteq> dom (ls |` (- set chain))" by (simp only: dom_restrict) blast
  qed
  moreover have "(ls |` (- set chain)) |` (- set (concat tab)) = ls |` (- set (concat (chain # tab)))"
    by (auto simp: restrict_map_def fun_eq_iff)
  ultimately show ?case by simp
qed (simp add: restrict_map_def)

lemma distinct_concat_nth:
  assumes "\<And>b. b < length xs \<Longrightarrow> distinct (xs ! b)"
    "\<And>b c. b < c \<Longrightarrow> c < length xs \<Longrightarrow> set (xs ! b) \<inter> set (xs ! c) = {}"
  shows "distinct (concat xs)"
  using assms
proof (induction xs)
  case (Cons x xs)
  have "distinct x" using Cons.prems(1) [of 0] by simp
  moreover have "distinct (concat xs)"
  proof (rule Cons.IH)
    show "distinct (xs ! b)" if "b < length xs" for b using Cons.prems(1) [of "Suc b"] that by simp
    show "set (xs ! b) \<inter> set (xs ! c) = {}" if "b < c" "c < length xs" for b c
      using Cons.prems(2) [of "Suc b" "Suc c"] that by simp
  qed
  moreover have "set x \<inter> set y = {}" if y: "y \<in> set xs" for y
  proof -
    obtain c where "c < length xs" "xs ! c = y" using y by (auto simp: in_set_conv_nth)
    then show ?thesis using Cons.prems(2) [of 0 "Suc c"] by simp
  qed
  ultimately show ?case by auto
qed simp

text \<open>The chains of the table hold every lock once.\<close>

lemma table_locks:
  assumes inv: "inv_table h s"
  shows "distinct (concat (table s))" "set (concat (table s)) = dom (locks s)"
proof -
  note d = inv_tableD [OF inv]
  have own: "locks s l \<noteq> None" if "b < length (table s)" "l \<in> set (table s ! b)" for b l
    using d(2) [OF that(1)] that(2) by (auto simp: chain_alive_def)
  have disj: "set (table s ! b) \<inter> set (table s ! c) = {}" if "b < length (table s)" "c < length (table s)" "b \<noteq> c" for b c
  proof -
    have "False" if l: "l \<in> set (table s ! b)" "l \<in> set (table s ! c)" for l
    proof -
      obtain lk where "locks s l = Some lk" using own [OF \<open>b < length (table s)\<close> l(1)] by blast
      then show False using d(3) l \<open>b < length (table s)\<close> \<open>c < length (table s)\<close> \<open>b \<noteq> c\<close> by metis
    qed
    then show ?thesis by blast
  qed
  show "distinct (concat (table s))"
  proof (rule distinct_concat_nth)
    show "distinct (table s ! b)" if "b < length (table s)" for b
      using d(2) [OF that] by (simp add: chain_alive_def)
    show "set (table s ! b) \<inter> set (table s ! c) = {}" if "b < c" "c < length (table s)" for b c
      using that by (intro disj) auto
  qed
  show "set (concat (table s)) = dom (locks s)"
  proof
    show "set (concat (table s)) \<subseteq> dom (locks s)" using own by (fastforce simp: in_set_conv_nth [of _ "table s"])
    show "dom (locks s) \<subseteq> set (concat (table s))"
    proof
      fix l assume "l \<in> dom (locks s)"
      then obtain lk where "locks s l = Some lk" by blast
      then have "l \<in> set (table s ! bucket h s (item lk))" by (rule d(4))
      moreover have "bucket h s (item lk) < length (table s)" using d(1) by (simp add: bucket_def)
      ultimately show "l \<in> set (concat (table s))" by auto
    qed
  qed
qed

text \<open>C32: In every reachable state the destructor deletes every lock exactly once.\<close>

theorem lock_manager_destroy_frees:
  assumes "lm_reachable h n s" "0 < n"
  shows "lock_manager_destroy s = Some Map.empty"
proof -
  have t: "inv_table h s" using lm_reachable_inv [OF assms] by (simp add: lm_inv_def)
  have "delete_table (table s) (locks s) = Some (locks s |` (- dom (locks s)))"
    using delete_table_ok [OF table_locks(1) [OF t], of "locks s"] unfolding table_locks(2) [OF t] by blast
  moreover have "locks s |` (- dom (locks s)) = Map.empty" by (auto simp: restrict_map_def fun_eq_iff domIff)
  ultimately show ?thesis by (simp add: lock_manager_destroy_def)
qed

theorem lock_manager_destroy_frees_witness:
  "\<exists>s. lm_reachable (\<lambda>d. d) 2 s \<and> locks s \<noteq> Map.empty \<and> lock_manager_destroy s = Some Map.empty"
proof -
  obtain s where s: "lm_reachable (\<lambda>d. d) 2 s" "holds_item s 1 7" by (rule two_txn_run)
  then have "locks s \<noteq> Map.empty" by (auto simp: holds_item_def)
  then show ?thesis using s(1) lock_manager_destroy_frees [OF s(1)] by auto
qed

end
