(* ===== verification/Lock_Leak.thy ===== *)
theory Lock_Leak
  imports Lock_Safety
begin

text \<open>
  What becomes of a mutex that \<open>acquireLock\<close> has taken before \<open>addWaiters\<close> throws: nobody gives
  it back, in any continuation. The history variable \<open>leaks\<close> names these calls.
\<close>

section \<open>The invariant of the leaked mutexes\<close>

text \<open>
  A mutex without a writer counts, for every transaction, its leaks, its uses in the vector and
  the call that has just returned among its readers; a writer that has leaked is the writer, and
  nobody else uses the mutex.
\<close>

definition leak_ok :: "lm \<Rightarrow> lock_id \<Rightarrow> lock \<Rightarrow> txn \<Rightarrow> bool" where
  "leak_ok s l lk t \<longleftrightarrow>
     (if writer lk = None
      then count_list (leaks s) (t, l) + count_list (pend s t) l + (if pcs s t = Granted l Shared then 1 else 0)
             \<le> count_list (readers lk) t
      else (t, l) \<in> set (leaks s) \<longrightarrow>
             writer lk = Some t \<and> (\<forall>u. count_list (pend s u) l = 0 \<and> (\<forall>m. pcs s u \<noteq> Granted l m)))"

definition inv_leak :: "lm \<Rightarrow> bool" where
  "inv_leak s \<longleftrightarrow> (\<forall>t l. (t, l) \<in> set (leaks s) \<longrightarrow> l < next_lock s)
     \<and> (\<forall>l lk t. locks s l = Some lk \<longrightarrow> leak_ok s l lk t)"

lemma inv_leakD:
  assumes "inv_leak s"
  shows "(t, l) \<in> set (leaks s) \<Longrightarrow> l < next_lock s" "locks s l = Some lk \<Longrightarrow> leak_ok s l lk t"
  using assms by (simp_all add: inv_leak_def)

lemma count_list_not: "count_list xs x = 0 \<longleftrightarrow> x \<notin> set xs"
  by (simp add: count_list_0_iff)

text \<open>A step of transaction \<open>t\<close> on lock \<open>l\<close> only has to be looked at there.\<close>

lemma inv_leak_update:
  assumes inv: "inv_leak s" and nl: "next_lock s' = next_lock s" "l < next_lock s"
    and locks: "\<And>l'. l' \<noteq> l \<Longrightarrow> locks s' l' = locks s l'" "locks s' l = Some lk'"
    and others: "\<And>u. u \<noteq> t \<Longrightarrow> pcs s' u = pcs s u \<and> held s' u = held s u"
    and leak: "leaks s' = leaks s \<or> leaks s' = (t, l) # leaks s"
    and away: "\<And>l'. l' \<noteq> l \<Longrightarrow> count_list (pend s' t) l' = count_list (pend s t) l'"
      "\<And>l' m. l' \<noteq> l \<Longrightarrow> pcs s' t \<noteq> Granted l' m"
    and here: "\<And>u. leak_ok s' l lk' u"
  shows "inv_leak s'"
  unfolding inv_leak_def
proof (intro conjI allI impI)
  have pend: "pend s' u = pend s u" if "u \<noteq> t" for u using others [OF that] by (simp add: pend_def)
  show "k < next_lock s'" if "(u, k) \<in> set (leaks s')" for u k
    using that leak nl inv_leakD(1) [OF inv, of u k] by auto
  fix k lk u
  assume k: "locks s' k = Some lk"
  show "leak_ok s' k lk u"
  proof (cases "k = l")
    case True
    then show ?thesis using k locks(2) here by simp
  next
    case False
    then have old: "leak_ok s k lk u" using k locks(1) inv_leakD(2) [OF inv] by simp
    have c: "count_list (pend s' v) k = count_list (pend s v) k" for v
      using pend away(1) [OF False] by (cases "v = t") simp_all
    have g: "pcs s' v = Granted k m \<Longrightarrow> pcs s v = Granted k m" for v m
      using others away(2) [OF False] by (cases "v = t") auto
    have lc: "count_list (leaks s') (u, k) = count_list (leaks s) (u, k)" using leak False by auto
    then have ls: "(u, k) \<in> set (leaks s') \<longleftrightarrow> (u, k) \<in> set (leaks s)" by (metis count_list_not)
    show ?thesis
    proof (cases "writer lk = None")
      case True
      then show ?thesis using old g [of u Shared] by (auto simp: leak_ok_def c lc split: if_splits)
    next
      case w: False
      then show ?thesis using old g unfolding leak_ok_def c ls by (simp, metis)
    qed
  qed
qed

text \<open>A step that leaves the mutexes and the uses of the locks as they are.\<close>

lemma inv_leak_frame:
  assumes inv: "inv_leak s" and "leaks s' = leaks s" "next_lock s \<le> next_lock s'"
    and locks: "\<And>l lk'. locks s' l = Some lk' \<Longrightarrow>
        (\<exists>lk. locks s l = Some lk \<and> writer lk' = writer lk \<and> readers lk' = readers lk)"
    and pcs: "\<And>u l m. pcs s' u = Granted l m \<Longrightarrow> pcs s u = Granted l m" and pend: "\<And>u. pend s' u = pend s u"
  shows "inv_leak s'"
  unfolding inv_leak_def
proof (intro conjI allI impI)
  show "k < next_lock s'" if "(u, k) \<in> set (leaks s')" for u k
    using that assms(2,3) inv_leakD(1) [OF inv, of u k] by simp
  fix k lk' u
  assume "locks s' k = Some lk'"
  then obtain lk where lk: "locks s k = Some lk" "writer lk' = writer lk" "readers lk' = readers lk" using locks by blast
  have old: "leak_ok s k lk u" by (rule inv_leakD(2) [OF inv lk(1)])
  show "leak_ok s' k lk' u"
  proof (cases "writer lk = None")
    case True
    then show ?thesis using old pcs [of u k Shared] lk assms(2) by (auto simp: leak_ok_def pend split: if_splits)
  next
    case False
    then show ?thesis using old pcs lk assms(2) unfolding leak_ok_def pend by (simp, metis)
  qed
qed

section \<open>The steps\<close>

text \<open>The mutex has been taken by \<open>t\<close>, which will become an owner or leak it.\<close>

definition taken :: "lm \<Rightarrow> lock_id \<Rightarrow> lock \<Rightarrow> txn \<Rightarrow> bool" where
  "taken s l lk t \<longleftrightarrow>
     (if writer lk = None
      then \<forall>u. count_list (leaks s) (u, l) + count_list (pend s u) l + (if u = t \<or> pcs s u = Granted l Shared then 1 else 0)
             \<le> count_list (readers lk) u
      else writer lk = Some t \<and> (\<forall>u. (u, l) \<notin> set (leaks s) \<and> count_list (pend s u) l = 0 \<and>
             (u \<noteq> t \<longrightarrow> (\<forall>m. pcs s u \<noteq> Granted l m))))"

lemma inv_leak_become_owner:
  assumes inv: "inv_leak s" and l: "l < next_lock s" and tk: "taken s l lk t"
    and pend: "pend s t = held s t"
  shows "inv_leak (become_owner t l m lk s)"
proof -
  let ?s = "become_owner t l m lk s"
  obtain e g where e: "add_waiters t (waiters lk) (wfg s) = (e, g)" by (metis prod.exhaust)
  have pcs: "pcs ?s = (pcs s)(t := Idle)" "next_lock ?s = next_lock s"
    and held: "held ?s = (if e = None then (held s)(t := held s t @ [l]) else held s)"
    and lk': "\<exists>lk'. locks ?s l = Some lk' \<and> writer lk' = writer lk \<and> readers lk' = readers lk"
      "\<And>k. k \<noteq> l \<Longrightarrow> locks ?s k = locks s k"
    and leaks: "leaks ?s = (if e = None then leaks s else (t, l) # leaks s)"
    by (cases e; simp add: become_owner_def e)+
  have pt: "pend ?s u = (if u = t \<and> e = None then held s t @ [l] else pend s u)" for u
    using pend by (simp add: pend_def pcs held)
  obtain lk' where lk'': "locks ?s l = Some lk'" "writer lk' = writer lk" "readers lk' = readers lk" using lk'(1) by blast
  show ?thesis
  proof (rule inv_leak_update [OF inv pcs(2) l lk'(2) lk''(1), where t = t])
    show "pcs ?s u = pcs s u \<and> held ?s u = held s u" if "u \<noteq> t" for u using that by (simp add: pcs held)
    show "leaks ?s = leaks s \<or> leaks ?s = (t, l) # leaks s" by (simp add: leaks)
    show "count_list (pend ?s t) k = count_list (pend s t) k" if "k \<noteq> l" for k
      using that pend by (simp add: pt)
    show "leak_ok ?s l lk' u" for u
    proof (cases "writer lk = None")
      case True
      then have "count_list (leaks s) (u, l) + count_list (pend s u) l + (if u = t \<or> pcs s u = Granted l Shared then 1 else 0)
             \<le> count_list (readers lk) u" using tk unfolding taken_def by simp
      then show ?thesis using True lk''(2,3) pend
        by (auto simp: leak_ok_def pt pcs leaks split: if_splits)
    next
      case False
      then have w: "writer lk = Some t" "\<And>u. (u, l) \<notin> set (leaks s)" "\<And>u. count_list (pend s u) l = 0"
        "\<And>u m. u \<noteq> t \<Longrightarrow> pcs s u \<noteq> Granted l m" using tk unfolding taken_def by auto
      then show ?thesis using lk''(2) by (auto simp: leak_ok_def pt pcs leaks split: if_splits)
    qed
  qed (simp_all add: pcs)
qed

lemma free_mutex:
  assumes inv: "lm_inv h s" "inv_leak s" and lk: "locks s l = Some lk" and free: "rw_available m lk" "m \<noteq> Unlocked"
  shows "writer lk = None" "m = Exclusive \<Longrightarrow> (u, l) \<notin> set (leaks s) \<and> count_list (pend s u) l = 0
      \<and> (\<forall>m'. pcs s u \<noteq> Granted l m')"
proof -
  have rw: "inv_rw s" using inv(1) by (simp add: lm_inv_def)
  show w: "writer lk = None" using free(1) by (simp add: rw_available_def)
  assume "m = Exclusive"
  then have r: "readers lk = []" using free(1) by (auto simp: rw_available_def)
  have "leak_ok s l lk u" by (rule inv_leakD(2) [OF inv(2) lk])
  then have "count_list (leaks s) (u, l) = 0" using w r by (simp add: leak_ok_def split: if_splits)
  moreover have "pcs s u \<noteq> Granted l Unlocked" using inv_rw_mode [OF rw, of u] by auto
  ultimately show "(u, l) \<notin> set (leaks s) \<and> count_list (pend s u) l = 0 \<and> (\<forall>m'. pcs s u \<noteq> Granted l m')"
    using rw_free_no_holder [OF rw lk w r, of u] by (simp add: count_list_not no_grant_iff)
qed

lemma taken_try_lock:
  assumes inv: "lm_inv h s" "inv_leak s" and pc: "pcs s t = Found l m" and lk: "locks s l = Some lk" and free: "rw_available m lk"
  shows "taken s l (rw_lock m t lk) t"
proof -
  have m: "m \<noteq> Unlocked" using inv_rw_mode [of s t] inv(1) pc by (simp add: lm_inv_def)
  note f = free_mutex [OF inv lk free m]
  have old: "leak_ok s l lk u" for u by (rule inv_leakD(2) [OF inv(2) lk])
  show ?thesis
  proof (cases "m = Shared")
    case True
    have "count_list (leaks s) (u, l) + count_list (pend s u) l + (if u = t \<or> pcs s u = Granted l Shared then 1 else 0)
             \<le> count_list (t # readers lk) u" for u
      using old [of u] f(1) pc by (auto simp: leak_ok_def split: if_splits)
    then show ?thesis using True f(1) by (simp add: taken_def)
  next
    case False
    then have "m = Exclusive" using m by (cases m) simp_all
    then show ?thesis using f(2) by (simp add: taken_def)
  qed
qed

lemma taken_granted:
  assumes inv: "lm_inv h s" "inv_leak s" and pc: "pcs s t = Granted l m" and lk: "locks s l = Some lk"
  shows "taken s l lk t"
proof -
  have rw: "inv_rw s" using inv(1) by (simp add: lm_inv_def)
  have m: "m \<noteq> Unlocked" using inv_rw_mode [OF rw, of t] pc by simp
  have old: "leak_ok s l lk u" for u by (rule inv_leakD(2) [OF inv(2) lk])
  have ok: "rw_ok l lk u (pcs s u) (count_list (pend s u) l)" for u by (rule inv_rwD(2) [OF rw lk])
  show ?thesis
  proof (cases "writer lk = None")
    case True
    then have "m = Shared" using ok [of t] pc m by (cases m) (auto simp: rw_ok_def)
    then have "(if u = t \<or> pcs s u = Granted l Shared then 1 else 0) = (if pcs s u = Granted l Shared then 1 else (0::nat))" for u
      using pc by auto
    then show ?thesis using old True by (simp add: leak_ok_def taken_def)
  next
    case False
    have r: "readers lk = []" using inv_rwD(1) [OF rw lk] False by simp
    then have me: "m = Exclusive" "writer lk = Some t" "count_list (pend s t) l = 0"
      using ok [of t] pc m by (cases m; auto simp: rw_ok_def)+
    have "(u, l) \<notin> set (leaks s)" for u using old [of u] me(2) pc by (auto simp: leak_ok_def)
    moreover have "count_list (pend s u) l = 0 \<and> (\<forall>m. pcs s u \<noteq> Granted l m)" if "u \<noteq> t" for u
    proof -
      have "pcs s u \<noteq> Granted l Unlocked" using inv_rw_mode [OF rw, of u] by auto
      then show ?thesis using rw_writer_no_other [OF rw lk me(2) that] by (simp add: no_grant_iff)
    qed
    ultimately show ?thesis using me(2,3) by (metis taken_def option.distinct(1))
  qed
qed

lemma inv_leak_grant:
  assumes inv: "lm_inv h s" "inv_leak s" and pc: "pcs s t = Blocked l m" and lk: "locks s l = Some lk"
    and free: "rw_available m lk" and l: "l < next_lock s"
  shows "inv_leak (grant t l m lk s)"
proof -
  have m: "m \<noteq> Unlocked" using inv_rw_mode [of s t] inv(1) pc by (simp add: lm_inv_def)
  note f = free_mutex [OF inv lk free m]
  have old: "leak_ok s l lk u" for u by (rule inv_leakD(2) [OF inv(2) lk])
  have pend: "pend (grant t l m' lk s) u = pend s u" for u m' using pc by (simp add: pend_def grant_def)
  have pcs: "pcs (grant t l m' lk s) = (pcs s)(t := Granted l m')" "leaks (grant t l m' lk s) = leaks s" for m'
    by (simp_all add: grant_def)
  show ?thesis
  proof (rule inv_leak_update [OF inv(2) _ l, where t = t and lk' = "rw_lock m t lk"])
    show "leak_ok (grant t l m lk s) l (rw_lock m t lk) u" for u
    proof (cases "m = Shared")
      case True
      then show ?thesis using old [of u] f(1) pc by (auto simp: leak_ok_def pend pcs split: if_splits)
    next
      case False
      then have "m = Exclusive" using m by (cases m) simp_all
      then show ?thesis using f(2) [of u] by (simp add: leak_ok_def pend pcs)
    qed
  qed (simp_all add: pend, simp_all add: grant_def)
qed

lemma inv_leak_end_unlock:
  assumes inv: "lm_inv h s" "inv_leak s" and pc: "pcs s t = Releasing l ls" and lk: "locks s l = Some lk"
    and l: "l < next_lock s"
  shows "inv_leak (end_unlock t l ls lk s)"
proof -
  have rw: "inv_rw s" using inv(1) by (simp add: lm_inv_def)
  let ?s = "end_unlock t l ls lk s"
  have p: "pend s t = l # ls" and p': "pend ?s u = (if u = t then ls else pend s u)" for u
    using pc by (simp_all add: pend_def end_unlock_def)
  have old: "leak_ok s l lk u" for u by (rule inv_leakD(2) [OF inv(2) lk])
  have ok: "rw_ok l lk u (pcs s u) (count_list (pend s u) l)" for u by (rule inv_rwD(2) [OF rw lk])
  have pcs: "pcs ?s = (pcs s)(t := Ending ls)" "leaks ?s = leaks s" by (simp_all add: end_unlock_def)
  show ?thesis
  proof (rule inv_leak_update [OF inv(2) _ l, where t = t and lk' = "rw_unlock t lk"])
    show "leak_ok ?s l (rw_unlock t lk) u" for u
    proof (cases "writer lk = None")
      case True
      then have "ownership lk = Shared" using ok [of t] p by (simp add: rw_ok_def)
      then show ?thesis using old [of u] True p pc by (auto simp: leak_ok_def p' pcs split: if_splits)
    next
      case False
      have r: "readers lk = []" using inv_rwD(1) [OF rw lk] False by simp
      then have x: "ownership lk = Exclusive" "writer lk = Some t" "count_list ls l = 0"
        using ok [of t] p by (auto simp: rw_ok_def)
      have "(u, l) \<notin> set (leaks s)"
      proof
        assume "(u, l) \<in> set (leaks s)"
        then have "count_list (pend s t) l = 0" using old [of u] x(2) by (simp add: leak_ok_def)
        then show False using p by simp
      qed
      then have "count_list (leaks s) (u, l) = 0" by (simp add: count_list_not)
      moreover have "u \<noteq> t \<Longrightarrow> count_list (pend s u) l = 0 \<and> pcs s u \<noteq> Granted l Shared"
        using rw_writer_no_other [OF rw lk x(2)] by blast
      ultimately show ?thesis using x r by (simp add: leak_ok_def p' pcs)
    qed
  qed (simp_all add: p' p pcs, simp_all add: end_unlock_def)
qed

lemma inv_leak_find:
  assumes inv: "lm_inv h s" "inv_leak s" and idle: "pcs s t = Idle"
  shows "inv_leak (acquire_find h t d m s)"
proof -
  have tb: "inv_table h s" and rf: "inv_refs s" using inv(1) by (simp_all add: lm_inv_def)
  let ?s = "acquire_find h t d m s" and ?n = "next_lock s"
  obtain r ch dead where walk: "chain_find (locks s) d (table s ! bucket h s d) = (r, ch, dead)"
    by (metis prod_cases3)
  have fresh: "locks s ?n = None" using inv_tableD(5) [OF tb] by (metis less_irrefl not_None_eq)
  have lk: "(k = ?n \<and> r = None \<and> writer lk' = None \<and> readers lk' = [])
      \<or> (\<exists>lk. locks s k = Some lk \<and> writer lk' = writer lk \<and> readers lk' = readers lk)" if "locks ?s k = Some lk'" for k lk'
    using that walk by (auto simp: acquire_find_def Let_def restrict_map_def lock_construct_def split: option.splits if_splits)
  obtain l0 where pcs: "pcs ?s = (pcs s)(t := Found l0 m)" and rest: "held ?s = held s" "leaks ?s = leaks s" "next_lock s \<le> next_lock ?s"
    using walk by (cases r) (auto simp: acquire_find_def Let_def)
  have pend: "pend ?s u = pend s u" for u using idle by (simp add: pend_def pcs rest)
  have none: "count_list (leaks s) (u, ?n) = 0" for u
    using inv_leakD(1) [OF inv(2), of u ?n] by (auto simp: count_list_not)
  show ?thesis
    unfolding inv_leak_def
  proof (intro conjI allI impI)
    show "k < next_lock ?s" if "(u, k) \<in> set (leaks ?s)" for u k
      using that rest inv_leakD(1) [OF inv(2), of u k] by simp
    fix k lk' u assume k: "locks ?s k = Some lk'"
    from lk [OF k] show "leak_ok ?s k lk' u"
    proof
      assume new: "k = ?n \<and> r = None \<and> writer lk' = None \<and> readers lk' = []"
      have "count_list (pend s u) ?n = 0" "pc_ref ?n (pcs s u) = 0" by (rule inv_refs_None [OF rf fresh])+
      then show ?thesis using new none [of u] by (auto simp: leak_ok_def pend pcs rest)
    next
      assume "\<exists>lk. locks s k = Some lk \<and> writer lk' = writer lk \<and> readers lk' = readers lk"
      then obtain lk0 where lk0: "locks s k = Some lk0" "writer lk' = writer lk0" "readers lk' = readers lk0" by blast
      have "leak_ok s k lk0 u" by (rule inv_leakD(2) [OF inv(2) lk0(1)])
      then show ?thesis using lk0 idle by (auto simp: leak_ok_def pend pcs rest split: if_splits)
    qed
  qed
qed

lemma inv_leak_step:
  assumes st: "lm_step h s s'" and inv: "lm_inv h s" "inv_leak s"
  shows "inv_leak s'"
proof -
  have less: "l < next_lock s" if "locks s l = Some lk" for l lk
    using inv_tableD(5) [of h s l lk] inv(1) that by (simp add: lm_inv_def)
  show ?thesis
    using st
  proof (cases rule: lm_step.cases)
    case (find t m d)
    then show ?thesis using inv_leak_find [OF inv] by simp
  next
    case (try_lock t l m lk)
    then show ?thesis
      using inv_leak_become_owner [OF inv(2) less taken_try_lock [OF inv]] by (simp add: pend_def)
  next
    case (wait t l m lk)
    then show ?thesis
      by (intro inv_leak_frame [OF inv(2)]) (auto simp: must_wait_def pend_def split: prod.splits option.splits if_splits)
  next
    case (granted t l m lk)
    then show ?thesis using inv_leak_grant [OF inv] less by simp
  next
    case (wake t l m lk)
    have "taken s l (lk\<lparr>waiters := erase_remove t (waiters lk)\<rparr>) t"
      using taken_granted [OF inv wake(2,3)] by (simp add: taken_def)
    then show ?thesis
      using wake inv_leak_become_owner [OF inv(2) less] by (simp add: pend_def)
  next
    case (end_tx t)
    then show ?thesis
      by (intro inv_leak_frame [OF inv(2)]) (auto simp: end_begin_def pend_def split: if_splits)
  next
    case (end_own t l ls lk)
    then show ?thesis
      by (intro inv_leak_frame [OF inv(2)]) (auto simp: end_owner_def pend_def split: if_splits)
  next
    case (end_rel t l ls lk)
    then show ?thesis using inv_leak_end_unlock [OF inv] less by simp
  next
    case (end_fin t)
    then show ?thesis
      by (intro inv_leak_frame [OF inv(2)]) (auto simp: end_drop_def pend_def foldl_drop_ref split: if_splits)
  qed
qed

lemma reachable_leak:
  assumes "lm_reachable h n s" "0 < n"
  shows "inv_leak s"
  using assms(1)
proof (induction rule: lm_reachable.induct)
  case init
  then show ?case by (simp add: inv_leak_def lock_manager_init_def)
next
  case (step s s')
  then show ?case using inv_leak_step lm_reachable_inv assms(2) by blast
qed

lemma leaked_mutex:
  assumes inv: "inv_leak s" and t: "(t, l) \<in> set (leaks s)" and lk: "locks s l = Some lk"
  shows "writer lk = Some t \<or> t \<in> set (readers lk)" "\<not> rw_available Exclusive lk"
proof -
  have ok: "leak_ok s l lk t" by (rule inv_leakD(2) [OF inv lk])
  have "count_list (leaks s) (t, l) \<noteq> 0" using t by (simp add: count_list_not)
  then show h: "writer lk = Some t \<or> t \<in> set (readers lk)"
    using ok t count_list_not [of "readers lk" t] by (auto simp: leak_ok_def split: if_splits)
  then show "\<not> rw_available Exclusive lk" by (auto simp: rw_available_def)
qed

lemma leaks_grow: "lm_step h s s' \<Longrightarrow> set (leaks s) \<subseteq> set (leaks s')"
  by (cases rule: lm_step.cases, assumption) (auto simp: handler_defs acquire_find_def Let_def split: prod.splits option.splits)

lemma blocked_stays:
  assumes "lm_step h s s'" "pcs s u = Blocked l Exclusive" "\<And>lk. locks s l = Some lk \<Longrightarrow> \<not> rw_available Exclusive lk"
  shows "pcs s' u = Blocked l Exclusive"
  using assms(1)
proof (cases rule: lm_step.cases)
  case (find t m d)
  then have "u \<noteq> t" using assms(2) by auto
  then show ?thesis using assms(2) find(1) by (simp add: acquire_find_def Let_def split: prod.splits option.splits)
next
  case (granted t k m lk)
  then have "u \<noteq> t" using assms(2,3) by auto
  then show ?thesis using assms(2) granted(1) by (simp add: grant_def)
qed (use assms(2) in \<open>auto simp: handler_defs Let_def split: prod.splits option.splits\<close>)

section \<open>The property\<close>

text \<open>C33: The exception of \<open>addWaiters\<close> leaves a mutex locked for ever. When \<open>acquireLock\<close> has thrown
  to transaction \<open>t\<close> after it took the mutex of lock \<open>l\<close> (recorded in \<open>leaks\<close>), then in no
  continuation, whatever any transaction does (\<open>t\<close> and its destructor included), is the mutex given
  back: as long as the lock exists it has \<open>t\<close> as its writer or among its readers and nobody can take
  it exclusively, and every transaction that waits for it exclusively waits for ever. That such a
  state can be reached is the witness: a schedule of four transactions without a deadlock.\<close>

theorem leaked_mutex_never_released:
  assumes "lm_reachable h n s" "0 < n" "(t, l) \<in> set (leaks s)" "(lm_step h)\<^sup>*\<^sup>* s s'"
  shows "(t, l) \<in> set (leaks s')
    \<and> (\<forall>lk. locks s' l = Some lk \<longrightarrow> (writer lk = Some t \<or> t \<in> set (readers lk)) \<and> \<not> rw_available Exclusive lk)
    \<and> (\<forall>u. pcs s u = Blocked l Exclusive \<longrightarrow> pcs s' u = Blocked l Exclusive)"
proof -
  have "lm_reachable h n s' \<and> (t, l) \<in> set (leaks s')
      \<and> (\<forall>u. pcs s u = Blocked l Exclusive \<longrightarrow> pcs s' u = Blocked l Exclusive)"
    using assms(4)
  proof (induction rule: rtranclp_induct)
    case base
    then show ?case using assms(1,3) by simp
  next
    case (step s1 s2)
    have leak: "(t, l) \<in> set (leaks s1)" and r: "lm_reachable h n s1" using step.IH by blast+
    have "pcs s2 u = Blocked l Exclusive" if "pcs s u = Blocked l Exclusive" for u
      using blocked_stays [OF step.hyps(2)] leaked_mutex(2) [OF reachable_leak [OF r assms(2)] leak] step.IH that by blast
    then show ?case using leaks_grow [OF step.hyps(2)] leak lm_reachable.step [OF r step.hyps(2)] by blast
  qed
  then show ?thesis using leaked_mutex [OF reachable_leak [OF _ assms(2)]] by blast
qed

definition leak_schedule :: "action list" where
  "leak_schedule =
     [Acquire 1 7 Exclusive, Continue 1, Acquire 2 7 Shared, Continue 2, Acquire 3 7 Shared, Continue 3,
      End 1, Continue 1, Continue 1, Continue 1, Continue 2, Continue 3, Continue 3, Continue 2,
      Acquire 4 8 Exclusive, Continue 4, Acquire 3 8 Exclusive, Continue 3,
      End 4, Continue 4, Continue 4, Continue 4, Acquire 2 8 Exclusive, Continue 2]"

lemma leaked_mutex_never_released_witness:
  "\<exists>s. lm_run (\<lambda>d. d) (lock_manager_init 2) leak_schedule = Some s \<and> pcs s 2 = Idle \<and> 2 \<notin> set (held s 2)
     \<and> (\<forall>s'. (lm_step (\<lambda>d. d))\<^sup>*\<^sup>* s s' \<longrightarrow> pcs s' 3 = Blocked 2 Exclusive
          \<and> (\<forall>lk. locks s' 2 = Some lk \<longrightarrow> writer lk = Some 2 \<or> 2 \<in> set (readers lk)))"
proof -
  obtain s where s: "lm_run (\<lambda>d. d) (lock_manager_init 2) leak_schedule = Some s" "leaks s = [(2, 2)]"
      "pcs s 2 = Idle" "2 \<notin> set (held s 2)" "pcs s 3 = Blocked 2 Exclusive"
    by (simp add: run_simps leak_schedule_def)
  have r: "lm_reachable (\<lambda>d. d) 2 s" by (rule lm_run_reachable [OF lm_reachable.init s(1)])
  have two: "(0 :: nat) < 2" by simp
  have "(2, 2) \<in> set (leaks s)" using s(2) by simp
  from leaked_mutex_never_released [OF r two this] have "pcs s' 3 = Blocked 2 Exclusive
      \<and> (\<forall>lk. locks s' 2 = Some lk \<longrightarrow> writer lk = Some 2 \<or> 2 \<in> set (readers lk))" if "(lm_step (\<lambda>d. d))\<^sup>*\<^sup>* s s'" for s'
    using that s(5) by blast
  then show ?thesis using s by blast
qed

end
