(* ===== verification/BTree_Node.thy ===== *)
theory BTree_Node
  imports Prelude_DB
begin

text \<open>
  The node operations of the B+ tree (\<^verbatim>\<open>src/task-btree/include/moderndbs/btree.h\<close>:
  \<open>InnerNode\<close> and \<open>LeafNode\<close>). A node is a count and arrays of fixed length
  (\<open>kCapacity\<close>); only a prefix of an array is in use, and the last key of an inner node is
  never valid. Failed assertions and accesses outside an array are \<open>None\<close>.
  The block moves of the children count their bytes by \<open>sizeof(ValueT)\<close>; the model is the
  instantiation of the repository, in which \<open>ValueT\<close> is as wide as a page id (8 bytes). The count
  is a natural, where the code has \<open>uint16_t\<close>: it never exceeds the capacity, which is below \<open>2\<^sup>1\<^sup>6\<close>
  for pages of at most 1 MiB (\<open>nodes_fit_pages\<close> in \<open>BTree_Map\<close>); the repository has pages of 1024.

  The lemmas give, for every operation on a well-formed node, its effect on the used prefix:
  \<open>lower_bound\<close> is the index of the first key that is not less, an insert into a leaf is the
  insertion into a sorted association list (\<open>upsert\<close>), an erase removes the key, and a split
  cuts the lists at the separator.
\<close>

named_theorems node_simps "effect of the node operations on well-formed nodes"

type_synonym page_id = nat

record ('k, 'v) leaf =
  lcount :: nat
  lkeys :: "'k list"
  lvals :: "'v list"

record 'k inner =
  ilevel :: nat
  icount :: nat
  ichildren :: "page_id list"
  ikeys :: "'k list"

section \<open>Capacities\<close>

text \<open>\<open>sizeof(Node)\<close> is 4, \<open>InnerNode::SIZE\<close> is 8 and
  \<open>sizeof(std::optional<uint64_t>)\<close> is 16.\<close>

definition inner_capacity :: "nat \<Rightarrow> nat \<Rightarrow> nat" where
  "inner_capacity page_size key_size = (page_size - 8) div (key_size + 8)"

definition leaf_capacity :: "nat \<Rightarrow> nat \<Rightarrow> nat \<Rightarrow> nat" where
  "leaf_capacity page_size key_size value_size = (page_size - 4 - 16) div (key_size + value_size)"

section \<open>Binary search\<close>

function lb_loop :: "'k::linorder list \<Rightarrow> 'k \<Rightarrow> nat \<Rightarrow> nat \<Rightarrow> nat option" where
  "lb_loop keys key first cnt =
     (if cnt = 0 then Some first
      else do {
        let step = cnt div 2;
        let idx = first + step;
        k \<leftarrow> arr_get keys idx;
        if k < key then lb_loop keys key (idx + 1) (cnt - (step + 1))
        else lb_loop keys key first step })"
  by pat_completeness auto
termination by (relation "measure (\<lambda>(_, _, _, cnt). cnt)") auto

declare lb_loop.simps [simp del]

definition leaf_lower_bound :: "('k::linorder, 'v) leaf \<Rightarrow> 'k \<Rightarrow> (nat \<times> bool) option" where
  "leaf_lower_bound lf key =
     (if lcount lf = 0 then Some (0, False)
      else do {
        first \<leftarrow> lb_loop (lkeys lf) key 0 (lcount lf);
        if first < lcount lf then do { k \<leftarrow> arr_get (lkeys lf) first; Some (first, k = key) }
        else Some (first, False) })"

text \<open>The inner search leaves out the last key, but the final comparison
  can still read it: \<open>first\<close> may be \<open>count - 1\<close>.\<close>

definition inner_lower_bound :: "nat \<Rightarrow> 'k::linorder inner \<Rightarrow> 'k \<Rightarrow> (nat \<times> bool) option" where
  "inner_lower_bound icap n key = do {
     require (icount n \<le> icap);
     if icount n = 0 then Some (0, False)
     else do {
       first \<leftarrow> lb_loop (ikeys n) key 0 (icount n - 1);
       if first < icount n then do { k \<leftarrow> arr_get (ikeys n) first; Some (first, k = key) }
       else Some (first, False) } }"

section \<open>Leaf operations\<close>

definition leaf_lookup :: "('k::linorder, 'v) leaf \<Rightarrow> 'k \<Rightarrow> 'v option option" where
  "leaf_lookup lf key = do {
     (index, found) \<leftarrow> leaf_lower_bound lf key;
     if found then do {
       k \<leftarrow> arr_get (lkeys lf) index;
       if k = key then do { v \<leftarrow> arr_get (lvals lf) index; Some (Some v) } else Some None }
     else Some None }"

definition leaf_insert :: "nat \<Rightarrow> 'k::linorder \<Rightarrow> 'v \<Rightarrow> ('k, 'v) leaf \<Rightarrow> ('k, 'v) leaf option" where
  "leaf_insert lcap key value lf = do {
     require (lcount lf \<noteq> lcap);
     if lcount lf = 0 then do {
       ks \<leftarrow> arr_set (lkeys lf) 0 key;
       vs \<leftarrow> arr_set (lvals lf) 0 value;
       Some (lf\<lparr>lkeys := ks, lvals := vs, lcount := lcount lf + 1\<rparr>) }
     else do {
       (index, found) \<leftarrow> leaf_lower_bound lf key;
       if found then do { vs \<leftarrow> arr_set (lvals lf) index value; Some (lf\<lparr>lvals := vs\<rparr>) }
       else do {
         require (index \<le> lcount lf);
         let num_to_copy = lcount lf - index;
         vs \<leftarrow> memmove (lvals lf) (index + 1) index num_to_copy;
         ks \<leftarrow> memmove (lkeys lf) (index + 1) index num_to_copy;
         ks \<leftarrow> arr_set ks index key;
         vs \<leftarrow> arr_set vs index value;
         Some (lf\<lparr>lkeys := ks, lvals := vs, lcount := lcount lf + 1\<rparr>) } } }"

definition leaf_erase :: "'k::linorder \<Rightarrow> ('k, 'v) leaf \<Rightarrow> ('k, 'v) leaf option" where
  "leaf_erase key lf =
     (if lcount lf = 0 then Some lf
      else do {
        (index, found) \<leftarrow> leaf_lower_bound lf key;
        if \<not> found then Some lf
        else do {
          require (index \<le> lcount lf - 1);
          let num_to_copy = lcount lf - 1 - index;
          vs \<leftarrow> memmove (lvals lf) index (index + 1) num_to_copy;
          ks \<leftarrow> memmove (lkeys lf) index (index + 1) num_to_copy;
          Some (lf\<lparr>lkeys := ks, lvals := vs, lcount := lcount lf - 1\<rparr>) } })"

text \<open>\<open>split\<close> returns the separator, the shortened node and the buddy.\<close>

definition leaf_split :: "nat \<Rightarrow> ('k, 'v) leaf \<Rightarrow> ('k, 'v) leaf
    \<Rightarrow> ('k \<times> ('k, 'v) leaf \<times> ('k, 'v) leaf) option" where
  "leaf_split lcap lf buddy = do {
     require (lcount lf \<ge> lcap - 1);
     separator \<leftarrow> arr_get (lkeys lf) (lcount lf div 2);
     let other_count = lcount lf - (lcount lf div 2 + 1);
     let this_count = lcount lf div 2 + 1;
     ks \<leftarrow> memcpy (lkeys buddy) 0 (lkeys lf) this_count other_count;
     vs \<leftarrow> memcpy (lvals buddy) 0 (lvals lf) this_count other_count;
     Some (separator, lf\<lparr>lcount := this_count\<rparr>,
           buddy\<lparr>lcount := other_count, lkeys := ks, lvals := vs\<rparr>) }"

section \<open>Inner operations\<close>

definition inner_lookup :: "nat \<Rightarrow> 'k::linorder inner \<Rightarrow> 'k \<Rightarrow> page_id option" where
  "inner_lookup icap n key = do {
     require (icount n \<ge> 2 \<and> icount n \<le> icap);
     (index, found) \<leftarrow> inner_lower_bound icap n key;
     if index = icount n then arr_get (ichildren n) (index - 1)
     else arr_get (ichildren n) index }"

definition inner_init_insert :: "'k \<Rightarrow> page_id \<Rightarrow> page_id \<Rightarrow> 'k inner \<Rightarrow> 'k inner option" where
  "inner_init_insert key left right n = do {
     require (icount n = 0);
     cs \<leftarrow> arr_set (ichildren n) 0 left;
     ks \<leftarrow> arr_set (ikeys n) 0 key;
     cs \<leftarrow> arr_set cs 1 right;
     ks \<leftarrow> arr_set ks 1 key;
     Some (n\<lparr>ichildren := cs, ikeys := ks, icount := 2\<rparr>) }"

definition inner_insert :: "nat \<Rightarrow> 'k::linorder \<Rightarrow> page_id \<Rightarrow> page_id \<Rightarrow> 'k inner \<Rightarrow> 'k inner option" where
  "inner_insert icap key left right n = do {
     require (icount n \<noteq> icap);
     require (icount n \<ge> 2 \<and> icount n \<le> icap - 1);
     (index, found) \<leftarrow> inner_lower_bound icap n key;
     require (\<not> found);
     require (index \<le> icount n - 1);
     c \<leftarrow> arr_get (ichildren n) index;
     require (c = left);
     if index = icount n - 1 then do {
       ks \<leftarrow> arr_set (ikeys n) index key;
       ks \<leftarrow> arr_set ks (index + 1) key;
       cs \<leftarrow> arr_set (ichildren n) (index + 1) right;
       Some (n\<lparr>ichildren := cs, ikeys := ks, icount := icount n + 1\<rparr>) }
     else do {
       let num_to_copy = icount n - 1 - index;
       ks \<leftarrow> memmove (ikeys n) (index + 1) index (num_to_copy + 1);
       cs \<leftarrow> memmove (ichildren n) (index + 2) (index + 1) num_to_copy;
       cs \<leftarrow> arr_set cs (index + 1) right;
       ks \<leftarrow> arr_set ks index key;
       Some (n\<lparr>ichildren := cs, ikeys := ks, icount := icount n + 1\<rparr>) } }"

definition inner_split :: "nat \<Rightarrow> 'k inner \<Rightarrow> 'k inner \<Rightarrow> ('k \<times> 'k inner \<times> 'k inner) option" where
  "inner_split icap n buddy = do {
     require (icount n \<ge> icap - 1);
     separator \<leftarrow> arr_get (ikeys n) ((icount n - 1) div 2);
     let other_count = icount n - ((icount n - 1) div 2 + 1);
     let this_count = (icount n - 1) div 2 + 1;
     ks \<leftarrow> memcpy (ikeys buddy) 0 (ikeys n) this_count other_count;
     cs \<leftarrow> memcpy (ichildren buddy) 0 (ichildren n) this_count other_count;
     last_key \<leftarrow> arr_get (ikeys n) (this_count - 1);
     require (last_key = separator);
     Some (separator, n\<lparr>icount := this_count\<rparr>,
           buddy\<lparr>icount := other_count, ikeys := ks, ichildren := cs\<rparr>) }"

section \<open>The used prefix of a node\<close>

text \<open>\<open>get_key_vector\<close>, \<open>get_value_vector\<close> and \<open>get_child_vector\<close>.\<close>

definition leaf_key_vector :: "('k, 'v) leaf \<Rightarrow> 'k list" where
  "leaf_key_vector lf = take (lcount lf) (lkeys lf)"

definition leaf_value_vector :: "('k, 'v) leaf \<Rightarrow> 'v list" where
  "leaf_value_vector lf = take (lcount lf) (lvals lf)"

definition inner_key_vector :: "'k inner \<Rightarrow> 'k list" where
  "inner_key_vector n = take (icount n - 1) (ikeys n)"

definition inner_child_vector :: "'k inner \<Rightarrow> page_id list" where
  "inner_child_vector n = take (icount n) (ichildren n)"

definition leaf_entries :: "('k, 'v) leaf \<Rightarrow> ('k \<times> 'v) list" where
  "leaf_entries lf = zip (leaf_key_vector lf) (leaf_value_vector lf)"

definition leaf_ok :: "nat \<Rightarrow> ('k::linorder, 'v) leaf \<Rightarrow> bool" where
  "leaf_ok lcap lf \<longleftrightarrow> length (lkeys lf) = lcap \<and> length (lvals lf) = lcap \<and> lcount lf \<le> lcap
     \<and> sorted_wrt (<) (leaf_key_vector lf)"

text \<open>The last, invalid key of a node is read by \<open>lower_bound\<close> all the same.
  It never equals a key that is inserted into the node, because it is not above the valid
  keys or not below the upper bound of the node's subtree.\<close>

definition last_key_harmless :: "'k::linorder option \<Rightarrow> 'k inner \<Rightarrow> bool" where
  "last_key_harmless hi n \<longleftrightarrow>
     ikeys n ! (icount n - 1) \<le> last (inner_key_vector n)
     \<or> (case hi of None \<Rightarrow> False | Some h \<Rightarrow> h \<le> ikeys n ! (icount n - 1))"

definition inner_ok :: "nat \<Rightarrow> 'k::linorder option \<Rightarrow> 'k inner \<Rightarrow> bool" where
  "inner_ok icap hi n \<longleftrightarrow> length (ikeys n) = icap \<and> length (ichildren n) = icap
     \<and> 2 \<le> icount n \<and> icount n \<le> icap - 1 \<and> last_key_harmless hi n"

section \<open>Sorted association lists\<close>

definition lb_index :: "'k::linorder list \<Rightarrow> 'k \<Rightarrow> nat" where
  "lb_index ks key = length (takeWhile (\<lambda>k. k < key) ks)"

definition upsert :: "'k::linorder \<Rightarrow> 'v \<Rightarrow> ('k \<times> 'v) list \<Rightarrow> ('k \<times> 'v) list" where
  "upsert k v es = takeWhile (\<lambda>e. fst e < k) es @ (k, v) # dropWhile (\<lambda>e. fst e \<le> k) es"

definition remove_key :: "'k \<Rightarrow> ('k \<times> 'v) list \<Rightarrow> ('k \<times> 'v) list" where
  "remove_key k es = filter (\<lambda>e. fst e \<noteq> k) es"

abbreviation sorted_keys :: "('k::linorder \<times> 'v) list \<Rightarrow> bool" where
  "sorted_keys es \<equiv> sorted_wrt (<) (map fst es)"

lemma lb_index_le [simp]: "lb_index ks key \<le> length ks"
  by (simp add: lb_index_def length_takeWhile_le)

lemma lb_index_before: "j < lb_index ks key \<Longrightarrow> ks ! j < key"
  unfolding lb_index_def
  by (metis (mono_tags, lifting) nth_mem set_takeWhileD takeWhile_nth)

lemma lb_index_after:
  assumes "sorted_wrt (<) ks" "lb_index ks key \<le> j" "j < length ks"
  shows "key \<le> ks ! j"
proof -
  have "\<not> ks ! lb_index ks key < key"
    using assms unfolding lb_index_def by (intro nth_length_takeWhile) simp
  then show ?thesis
    using sorted_wrt_less_nth_mono [OF assms(1,2,3)] by simp
qed

lemma lb_index_unique:
  assumes "sorted_wrt (<) ks" "i \<le> length ks"
    and "\<And>j. j < i \<Longrightarrow> ks ! j < key" "\<And>j. i \<le> j \<Longrightarrow> j < length ks \<Longrightarrow> \<not> ks ! j < key"
  shows "lb_index ks key = i"
proof (rule linorder_cases [of "lb_index ks key" i])
  assume "lb_index ks key < i"
  then show ?thesis using assms lb_index_after [OF assms(1), of key "lb_index ks key"] by force
next
  assume "i < lb_index ks key"
  then show ?thesis
    using assms(4) [of i] lb_index_before [of i ks key] lb_index_le [of ks key] by linarith
qed

lemma lb_index_append:
  assumes "sorted_wrt (<) (ks1 @ ks2)" "\<And>k. k \<in> set ks1 \<Longrightarrow> k < key" "\<And>k. k \<in> set ks2 \<Longrightarrow> key \<le> k"
  shows "lb_index (ks1 @ ks2) key = length ks1"
  using assms by (intro lb_index_unique) (auto simp: nth_append not_less)

lemma upsert_Nil [simp]: "upsert k v [] = [(k, v)]"
  by (simp add: upsert_def)

lemma upsert_Cons:
  assumes "sorted_keys ((a, b) # es)"
  shows "upsert k v ((a, b) # es) =
    (if a < k then (a, b) # upsert k v es else if a = k then (k, v) # es else (k, v) # (a, b) # es)"
proof -
  have "dropWhile (\<lambda>e. fst e \<le> a) es = es"
    using assms by (cases es) auto
  then show ?thesis by (auto simp: upsert_def not_less)
qed

lemma map_of_upsert: "sorted_keys es \<Longrightarrow> map_of (upsert k v es) = (map_of es)(k \<mapsto> v)"
proof (induction es)
  case (Cons e es)
  then show ?case
    by (cases e) (simp add: upsert_Cons del: sorted_wrt.simps, auto simp: fun_eq_iff)
qed simp

lemma map_of_remove_key: "map_of (remove_key k es) = (map_of es)(k := None)"
  by (induction es) (auto simp: remove_key_def)

lemma takeWhile_prefix: "(\<And>e. e \<in> set ys \<Longrightarrow> \<not> P e) \<Longrightarrow> takeWhile P (xs @ ys) = takeWhile P xs"
  by (induction xs) (cases ys, auto)

lemma dropWhile_prefix: "(\<And>e. e \<in> set ys \<Longrightarrow> \<not> P e) \<Longrightarrow> dropWhile P (xs @ ys) = dropWhile P xs @ ys"
  by (induction xs) (cases ys, auto)

lemma upsert_append:
  assumes "\<And>e. e \<in> set es1 \<Longrightarrow> fst e < k" "\<And>e. e \<in> set es2 \<Longrightarrow> k < fst e"
  shows "upsert k v (es1 @ es @ es2) = es1 @ upsert k v es @ es2"
proof -
  have "takeWhile (\<lambda>e. fst e < k) (es1 @ es @ es2) = es1 @ takeWhile (\<lambda>e. fst e < k) es"
  proof -
    have "takeWhile (\<lambda>e. fst e < k) (es @ es2) = takeWhile (\<lambda>e. fst e < k) es"
      by (rule takeWhile_prefix) (use assms(2) in force)
    then show ?thesis using assms(1) by (simp add: takeWhile_append2)
  qed
  moreover have "dropWhile (\<lambda>e. fst e \<le> k) (es1 @ es @ es2) = dropWhile (\<lambda>e. fst e \<le> k) es @ es2"
    using assms by (simp add: dropWhile_append2 dropWhile_prefix less_imp_le not_le)
  ultimately show ?thesis by (simp add: upsert_def)
qed

lemma remove_key_append [simp]: "remove_key k (es1 @ es2) = remove_key k es1 @ remove_key k es2"
  by (simp add: remove_key_def)

lemma remove_key_absent: "k \<notin> fst ` set es \<Longrightarrow> remove_key k es = es"
  by (force simp: remove_key_def filter_id_conv)

lemma set_upsert_keys: "sorted_keys es \<Longrightarrow> fst ` set (upsert k v es) = insert k (fst ` set es)"
  using map_of_upsert [of es k v] by (metis dom_fun_upd dom_map_of_conv_image_fst option.distinct(1))

lemma upsert_nth:
  assumes "sorted_keys es" and "i = lb_index (map fst es) k"
  shows "upsert k v es =
     (if i < length es \<and> fst (es ! i) = k then es[i := (k, v)] else take i es @ (k, v) # drop i es)"
proof -
  have tw: "takeWhile (\<lambda>e. fst e < k) es = take i es"
    using assms(2) by (simp add: lb_index_def takeWhile_map o_def takeWhile_eq_take [symmetric])
  have dw: "dropWhile (\<lambda>e. fst e \<le> k) es =
      (if i < length es \<and> fst (es ! i) = k then drop (Suc i) es else drop i es)"
  proof -
    let ?m = "if i < length es \<and> fst (es ! i) = k then Suc i else i"
    have le: "i \<le> length es" using assms(2) lb_index_le [of "map fst es" k] by simp
    have m: "?m \<le> length es" using le by auto
    have bef: "fst (es ! j) < k" if "j < i" for j
      using lb_index_before [of j "map fst es" k] that assms(2) le by simp
    have aft: "k \<le> fst (es ! j)" if "i \<le> j" "j < length es" for j
      using lb_index_after [OF assms(1), of k j] that assms(2) by simp
    have "takeWhile (\<lambda>e. fst e \<le> k) es = take ?m es"
    proof (rule takeWhile_eq_take_P_nth)
      show "fst (es ! j) \<le> k" if "j < ?m" "j < length es" for j
        using bef [of j] that by (cases "j < i") (auto split: if_splits simp: less_Suc_eq)
      show "\<not> fst (es ! ?m) \<le> k" if "?m < length es"
      proof (cases "i < length es \<and> fst (es ! i) = k")
        case True
        then show ?thesis
          using that sorted_wrt_less_nth_less [OF assms(1), of i "Suc i"] by simp
      next
        case False
        then show ?thesis using that aft [of i] by auto
      qed
    qed
    then have "dropWhile (\<lambda>e. fst e \<le> k) es = drop ?m es"
      using m by (metis dropWhile_eq_drop length_take min.absorb2)
    then show ?thesis by simp
  qed
  show ?thesis
    using tw dw by (simp add: upsert_def upd_conv_take_nth_drop)
qed

section \<open>Effect of the leaf operations\<close>

lemma lb_loop_correct:
  assumes "sorted_wrt (<) (take n keys)" "n \<le> length keys"
  shows "first + cnt \<le> n \<Longrightarrow> \<forall>j<first. keys ! j < key
    \<Longrightarrow> \<forall>j<n. first + cnt \<le> j \<longrightarrow> \<not> keys ! j < key
    \<Longrightarrow> lb_loop keys key first cnt = Some (lb_index (take n keys) key)"
proof (induction cnt arbitrary: first rule: less_induct)
  case (less cnt)
  show ?case
  proof (cases "cnt = 0")
    case True
    have "lb_index (take n keys) key = first"
      using assms less.prems True by (intro lb_index_unique) auto
    with True show ?thesis by (subst lb_loop.simps) simp
  next
    case False
    define step where "step = cnt div 2"
    have step: "step < cnt" using False by (simp add: step_def)
    have idx: "first + step < n" using step less.prems(1) by simp
    have mono: "keys ! i \<le> keys ! j" if "i \<le> j" "j < n" for i j
      using sorted_wrt_less_nth_mono [OF assms(1), of i j] that assms(2) by simp
    have unf: "lb_loop keys key first cnt =
        (if keys ! (first + step) < key then lb_loop keys key (first + step + 1) (cnt - (step + 1))
         else lb_loop keys key first step)"
      using False idx assms(2) by (subst lb_loop.simps) (simp add: step_def Let_def)
    show ?thesis
    proof (cases "keys ! (first + step) < key")
      case True
      have "lb_loop keys key (first + step + 1) (cnt - (step + 1)) = Some (lb_index (take n keys) key)"
      proof (rule less.IH)
        show "\<forall>j<first + step + 1. keys ! j < key"
        proof (intro allI impI)
          fix j assume "j < first + step + 1"
          then have "keys ! j \<le> keys ! (first + step)" using mono [of j "first + step"] idx by simp
          with True show "keys ! j < key" by simp
        qed
        show "\<forall>j<n. first + step + 1 + (cnt - (step + 1)) \<le> j \<longrightarrow> \<not> keys ! j < key"
          using less.prems(3) step by auto
      qed (use step less.prems(1) in auto)
      with True unf show ?thesis by simp
    next
      case notless: False
      have "lb_loop keys key first step = Some (lb_index (take n keys) key)"
      proof (rule less.IH)
        show "\<forall>j<n. first + step \<le> j \<longrightarrow> \<not> keys ! j < key"
          using mono [of "first + step"] notless by (meson not_less order_trans)
      qed (use step less.prems in auto)
      with notless unf show ?thesis by simp
    qed
  qed
qed

lemma leaf_ok_lengths:
  "leaf_ok lcap lf \<Longrightarrow> length (leaf_key_vector lf) = lcount lf \<and> length (leaf_value_vector lf) = lcount lf
    \<and> length (leaf_entries lf) = lcount lf \<and> map fst (leaf_entries lf) = leaf_key_vector lf"
  by (simp add: leaf_ok_def leaf_key_vector_def leaf_value_vector_def leaf_entries_def)

lemma leaf_lower_bound_ok:
  assumes "leaf_ok lcap lf" and "i = lb_index (leaf_key_vector lf) key"
  shows "leaf_lower_bound lf key = Some (i, i < lcount lf \<and> lkeys lf ! i = key)"
proof -
  have "lb_loop (lkeys lf) key 0 (lcount lf) = Some i"
    using assms lb_loop_correct [of "lcount lf" "lkeys lf" 0 "lcount lf" key]
    by (simp add: leaf_ok_def leaf_key_vector_def)
  then show ?thesis
    using assms by (auto simp: leaf_lower_bound_def leaf_ok_def leaf_key_vector_def lb_index_def)
qed

lemma leaf_entries_nth:
  "leaf_ok lcap lf \<Longrightarrow> i < lcount lf \<Longrightarrow> leaf_entries lf ! i = (lkeys lf ! i, lvals lf ! i)"
  by (simp add: leaf_entries_def leaf_key_vector_def leaf_value_vector_def leaf_ok_def)

lemma leaf_sorted: "leaf_ok lcap lf \<Longrightarrow> sorted_keys (leaf_entries lf)"
  by (simp add: leaf_ok_lengths) (simp add: leaf_ok_def)

lemma leaf_lookup_ok:
  assumes ok: "leaf_ok lcap lf"
  shows "leaf_lookup lf key = Some (map_of (leaf_entries lf) key)"
proof -
  define i where "i = lb_index (leaf_key_vector lf) key"
  note lb = leaf_lower_bound_ok [OF ok i_def]
  have srt: "sorted_wrt (<) (leaf_key_vector lf)" using ok by (simp add: leaf_ok_def)
  show ?thesis
  proof (cases "i < lcount lf \<and> lkeys lf ! i = key")
    case True
    have "(key, lvals lf ! i) \<in> set (leaf_entries lf)"
      using True leaf_entries_nth [OF ok, of i] leaf_ok_lengths [OF ok] nth_mem [of i "leaf_entries lf"] by simp
    moreover have "distinct (map fst (leaf_entries lf))"
      using leaf_sorted [OF ok] strict_sorted_iff by blast
    ultimately have "map_of (leaf_entries lf) key = Some (lvals lf ! i)" by simp
    then show ?thesis using True lb ok by (simp add: leaf_lookup_def leaf_ok_def)
  next
    case False
    have "key \<notin> set (leaf_key_vector lf)"
    proof
      assume "key \<in> set (leaf_key_vector lf)"
      then obtain j where j: "j < lcount lf" "leaf_key_vector lf ! j = key"
        using leaf_ok_lengths [OF ok] by (metis in_set_conv_nth)
      then have nb: "i \<le> j" using lb_index_before [of j "leaf_key_vector lf" key] i_def by fastforce
      then have "key \<le> leaf_key_vector lf ! i" "leaf_key_vector lf ! i \<le> leaf_key_vector lf ! j"
        using lb_index_after [OF srt, of key i] sorted_wrt_less_nth_mono [OF srt nb] i_def j leaf_ok_lengths [OF ok] by auto
      then have "leaf_key_vector lf ! i = key" using j by simp
      then show False using False nb j by (simp add: leaf_key_vector_def)
    qed
    then have "map_of (leaf_entries lf) key = None"
      using leaf_ok_lengths [OF ok] by (metis map_of_eq_None_iff list.set_map)
    then show ?thesis using False lb by (auto simp: leaf_lookup_def)
  qed
qed

lemma leaf_ok_entries:
  "leaf_ok lcap lf \<longleftrightarrow> length (lkeys lf) = lcap \<and> length (lvals lf) = lcap \<and> lcount lf \<le> lcap
     \<and> sorted_keys (leaf_entries lf)"
  by (auto simp: leaf_ok_def leaf_entries_def leaf_key_vector_def leaf_value_vector_def)

lemma sorted_upsert: "sorted_keys es \<Longrightarrow> sorted_keys (upsert k v es)"
proof (induction es)
  case (Cons e es)
  obtain a b where e: "e = (a, b)" by (cases e)
  have "fst ` set (upsert k v es) = insert k (fst ` set es)"
    using Cons.prems by (intro set_upsert_keys) simp
  then have "\<forall>x \<in> set (upsert k v es). fst x = k \<or> fst x \<in> fst ` set es"
    by blast
  then have "\<forall>x \<in> set (upsert k v es). a < fst x" if "a < k"
    using Cons.prems e that by fastforce
  then show ?case
    using Cons e by (auto simp: upsert_Cons)
qed simp

lemma leaf_insert_ok:
  assumes ok: "leaf_ok lcap lf" and free: "lcount lf \<noteq> lcap"
  obtains lf' where "leaf_insert lcap k v lf = Some lf'" "leaf_ok lcap lf'"
    "leaf_entries lf' = upsert k v (leaf_entries lf)"
proof -
  define i where "i = lb_index (leaf_key_vector lf) k"
  note lb = leaf_lower_bound_ok [OF ok i_def]
  note lens = leaf_ok_lengths [OF ok]
  have i: "i \<le> lcount lf" using lb_index_le [of "leaf_key_vector lf" k] lens by (simp add: i_def)
  have n: "lcount lf < lcap" "length (lkeys lf) = lcap" "length (lvals lf) = lcap"
    using ok free by (auto simp: leaf_ok_def)
  have ups: "upsert k v (leaf_entries lf) =
     (if i < lcount lf \<and> lkeys lf ! i = k then (leaf_entries lf)[i := (k, v)]
      else take i (leaf_entries lf) @ (k, v) # drop i (leaf_entries lf))"
    using upsert_nth [OF leaf_sorted [OF ok], of i k v] lens leaf_entries_nth [OF ok, of i]
    by (auto simp: i_def)
  have "\<exists>lf'. leaf_insert lcap k v lf = Some lf' \<and> length (lkeys lf') = lcap \<and> length (lvals lf') = lcap
      \<and> lcount lf' \<le> lcap \<and> leaf_entries lf' = upsert k v (leaf_entries lf)"
  proof (cases "lcount lf = 0")
    case True
    then show ?thesis
      using n ups i by (simp add: leaf_insert_def leaf_entries_def leaf_key_vector_def
          leaf_value_vector_def take_Suc_conv_app_nth)
  next
    case nz: False
    show ?thesis
    proof (cases "i < lcount lf \<and> lkeys lf ! i = k")
      case True
      then have "zip (take (lcount lf) (lkeys lf)) (take (lcount lf) ((lvals lf)[i := v]))
          = (zip (take (lcount lf) (lkeys lf)) (take (lcount lf) (lvals lf)))[i := (k, v)]"
        using n by (intro nth_equalityI) (auto simp: nth_list_update)
      then show ?thesis
        using True nz n lb ups by (simp add: leaf_insert_def leaf_entries_def leaf_key_vector_def
            leaf_value_vector_def)
    next
      case False
      then show ?thesis
        using nz n lb ups i by (auto simp add: leaf_insert_def Let_def memmove_in leaf_entries_def leaf_key_vector_def
            leaf_value_vector_def array_simps take_zip drop_zip)
    qed
  qed
  then show ?thesis
    using that sorted_upsert [OF leaf_sorted [OF ok]] by (auto simp: leaf_ok_entries)
qed

lemma remove_key_nth:
  assumes "sorted_keys es" and "i = lb_index (map fst es) k"
  shows "remove_key k es =
     (if i < length es \<and> fst (es ! i) = k then take i es @ drop (Suc i) es else es)"
proof (cases "i < length es \<and> fst (es ! i) = k")
  case True
  have other: "fst (es ! j) \<noteq> k" if "j < length es" "j \<noteq> i" for j
    using True that sorted_wrt_less_nth_less [OF assms(1), of i j]
      sorted_wrt_less_nth_less [OF assms(1), of j i] by (cases "i < j") auto
  have "\<forall>e \<in> set (take i es) \<union> set (drop (Suc i) es). fst e \<noteq> k"
    using other True by (auto simp: set_conv_nth simp del: One_nat_def)
  then have "remove_key k (take i es @ es ! i # drop (Suc i) es) = take i es @ drop (Suc i) es"
    using True by (auto simp: remove_key_def filter_id_conv)
  with True show ?thesis by (simp add: id_take_nth_drop [symmetric])
next
  case False
  have "k \<notin> set (map fst es)"
  proof
    assume "k \<in> set (map fst es)"
    then obtain j where j: "j < length es" "map fst es ! j = k"
      by (metis in_set_conv_nth length_map)
    have "i \<le> j" using lb_index_before [of j "map fst es" k] assms(2) j by fastforce
    then have "k \<le> map fst es ! i" "map fst es ! i \<le> map fst es ! j"
      using lb_index_after [OF assms(1), of k i] sorted_wrt_less_nth_mono [OF assms(1), of i j] assms(2) j
      by auto
    then show False using False j \<open>i \<le> j\<close> by simp
  qed
  then show ?thesis using False by (auto simp: remove_key_absent)
qed

lemma sorted_remove_key: "sorted_keys es \<Longrightarrow> sorted_keys (remove_key k es)"
  by (induction es) (auto simp: remove_key_def)

lemma leaf_erase_ok:
  assumes ok: "leaf_ok lcap lf"
  obtains lf' where "leaf_erase k lf = Some lf'" "leaf_ok lcap lf'"
    "leaf_entries lf' = remove_key k (leaf_entries lf)"
proof -
  define i where "i = lb_index (leaf_key_vector lf) k"
  note lb = leaf_lower_bound_ok [OF ok i_def]
  note lens = leaf_ok_lengths [OF ok]
  have n: "lcount lf \<le> lcap" "length (lkeys lf) = lcap" "length (lvals lf) = lcap"
    using ok by (auto simp: leaf_ok_def)
  have rem: "remove_key k (leaf_entries lf) =
     (if i < lcount lf \<and> lkeys lf ! i = k
      then take i (leaf_entries lf) @ drop (Suc i) (leaf_entries lf) else leaf_entries lf)"
    using remove_key_nth [OF leaf_sorted [OF ok], of i k] lens leaf_entries_nth [OF ok, of i]
    by (auto simp: i_def)
  have "\<exists>lf'. leaf_erase k lf = Some lf' \<and> length (lkeys lf') = lcap \<and> length (lvals lf') = lcap
      \<and> lcount lf' \<le> lcap \<and> leaf_entries lf' = remove_key k (leaf_entries lf)"
  proof (cases "i < lcount lf \<and> lkeys lf ! i = k")
    case True
    then obtain c where c: "lcount lf = Suc c" by (cases "lcount lf") auto
    have gap: "take c (take i xs @ take (c - i) (drop (Suc i) xs) @ drop c xs)
        = take i xs @ drop (Suc i) (take (Suc c) xs)" if "length xs = lcap" for xs :: "'x list"
      using gap_close_take [of i "Suc c" xs] True c n that by simp
    show ?thesis
      using n lb rem True c
      by (auto simp: leaf_erase_def Let_def memmove_in leaf_entries_def leaf_key_vector_def
            leaf_value_vector_def take_zip drop_zip gap simp del: take_append)
  next
    case False
    then show ?thesis
      using n lb rem by (auto simp: leaf_erase_def)
  qed
  then show ?thesis
    using that sorted_remove_key [OF leaf_sorted [OF ok], of k] by (auto simp: leaf_ok_entries)
qed

lemma leaf_split_ok:
  assumes ok: "leaf_ok lcap lf" and full: "lcount lf = lcap" and cap: "3 \<le> lcap"
    and buddy: "length (lkeys b) = lcap" "length (lvals b) = lcap"
  obtains sep l r where "leaf_split lcap lf b = Some (sep, l, r)" "leaf_ok lcap l" "leaf_ok lcap r"
    "lcount l < lcap" "lcount r < lcap" "leaf_entries lf = leaf_entries l @ leaf_entries r"
    "\<And>e. e \<in> set (leaf_entries l) \<Longrightarrow> fst e \<le> sep" "\<And>e. e \<in> set (leaf_entries r) \<Longrightarrow> sep < fst e"
    "sep \<in> fst ` set (leaf_entries l)" "leaf_entries r \<noteq> []"
proof -
  define m where "m = lcap div 2"
  define l where "l = lf\<lparr>lcount := m + 1\<rparr>"
  define r where "r = b\<lparr>lcount := lcap - (m + 1), lkeys := drop (m + 1) (lkeys lf) @ drop (lcap - (m + 1)) (lkeys b),
     lvals := drop (m + 1) (lvals lf) @ drop (lcap - (m + 1)) (lvals b)\<rparr>"
  have m: "m + 1 < lcap" using cap by (simp add: m_def)
  have n: "length (lkeys lf) = lcap" "length (lvals lf) = lcap" using ok by (auto simp: leaf_ok_def)
  have ev: "leaf_split lcap lf b = Some (lkeys lf ! m, l, r)"
    using full m n buddy by (simp add: leaf_split_def Let_def memcpy_def m_def l_def r_def)
  have el: "leaf_entries l = take (m + 1) (zip (lkeys lf) (lvals lf))"
    by (simp add: l_def leaf_entries_def leaf_key_vector_def leaf_value_vector_def take_zip)
  have er: "leaf_entries r = drop (m + 1) (zip (lkeys lf) (lvals lf))"
    using n m by (simp add: r_def leaf_entries_def leaf_key_vector_def leaf_value_vector_def drop_zip)
  have e: "leaf_entries lf = zip (lkeys lf) (lvals lf)"
    using n full by (simp add: leaf_entries_def leaf_key_vector_def leaf_value_vector_def)
  have app: "leaf_entries lf = leaf_entries l @ leaf_entries r" by (simp add: e el er)
  have srt: "sorted_keys (leaf_entries l @ leaf_entries r)" using leaf_sorted [OF ok] app by simp
  have last: "leaf_entries l = take m (zip (lkeys lf) (lvals lf)) @ [(lkeys lf ! m, lvals lf ! m)]"
    using m n by (simp add: el take_Suc_conv_app_nth)
  show ?thesis
  proof (rule that [OF ev _ _ _ _ app])
    show "leaf_ok lcap l" using n m srt by (simp add: leaf_ok_entries l_def sorted_wrt_append)
    show "leaf_ok lcap r" using n m srt buddy by (simp add: leaf_ok_entries r_def sorted_wrt_append)
    show "lcount l < lcap" "lcount r < lcap" using m by (simp_all add: l_def r_def)
    show "fst x \<le> lkeys lf ! m" if "x \<in> set (leaf_entries l)" for x
      using that srt unfolding last by (auto simp: sorted_wrt_append intro: less_imp_le)
    show "lkeys lf ! m < fst x" if "x \<in> set (leaf_entries r)" for x
      using that srt unfolding last by (auto simp: sorted_wrt_append)
    show "lkeys lf ! m \<in> fst ` set (leaf_entries l)" unfolding last by simp
    show "leaf_entries r \<noteq> []" using er n m by simp
  qed
qed

lemma leaf_entries_max:
  "leaf_ok lcap lf \<Longrightarrow> length (leaf_entries lf) \<le> lcap"
  using leaf_ok_lengths [of lcap lf] by (simp add: leaf_ok_def)

section \<open>Effect of the inner operations\<close>

definition inner_shape :: "nat \<Rightarrow> 'k::linorder inner \<Rightarrow> bool" where
  "inner_shape icap n \<longleftrightarrow> length (ikeys n) = icap \<and> length (ichildren n) = icap
     \<and> 2 \<le> icount n \<and> icount n \<le> icap \<and> sorted_wrt (<) (inner_key_vector n)"

lemma inner_vector_lengths:
  "inner_shape icap n \<Longrightarrow> length (inner_key_vector n) = icount n - 1 \<and> length (inner_child_vector n) = icount n"
  by (auto simp: inner_shape_def inner_key_vector_def inner_child_vector_def min_def)

lemma inner_lower_bound_ok:
  assumes "inner_shape icap n" and "i = lb_index (inner_key_vector n) key"
  shows "inner_lower_bound icap n key = Some (i, ikeys n ! i = key)" and "i \<le> icount n - 1"
proof -
  show i: "i \<le> icount n - 1"
    using lb_index_le [of "inner_key_vector n" key] assms inner_vector_lengths by fastforce
  have "lb_loop (ikeys n) key 0 (icount n - 1) = Some i"
    using assms lb_loop_correct [of "icount n - 1" "ikeys n" 0 "icount n - 1" key]
    by (auto simp: inner_shape_def inner_key_vector_def)
  moreover have "i < icount n" "i < length (ikeys n)" using i assms by (auto simp: inner_shape_def)
  ultimately show "inner_lower_bound icap n key = Some (i, ikeys n ! i = key)"
    using assms by (auto simp: inner_lower_bound_def inner_shape_def)
qed

lemma inner_lookup_ok:
  assumes "inner_shape icap n"
  shows "inner_lookup icap n key = Some (inner_child_vector n ! lb_index (inner_key_vector n) key)"
proof -
  note lb = inner_lower_bound_ok [OF assms refl, of key]
  have "lb_index (inner_key_vector n) key < icount n" using lb(2) assms by (auto simp: inner_shape_def)
  then show ?thesis
    using lb assms by (auto simp: inner_lookup_def inner_shape_def inner_child_vector_def)
qed

definition below_strict :: "'k::linorder option \<Rightarrow> 'k \<Rightarrow> bool" where
  "below_strict hi k = (case hi of None \<Rightarrow> True | Some h \<Rightarrow> k < h)"

lemma last_key_not_found:
  assumes "last_key_harmless hi n" "below_strict hi key" "inner_key_vector n \<noteq> []"
    "\<And>k. k \<in> set (inner_key_vector n) \<Longrightarrow> k < key"
  shows "ikeys n ! (icount n - 1) \<noteq> key"
  using assms last_in_set [OF assms(3)]
  by (fastforce simp: last_key_harmless_def below_strict_def split: option.splits)

lemma prefix_of_take:
  "take c xs = ys @ zs \<Longrightarrow> length ys \<le> c \<Longrightarrow> take (length ys) xs = ys \<and> drop (length ys) (take c xs) = zs"
  by (metis append_eq_conv_conj min.absorb1 take_take)

lemma inner_insert_ok:
  assumes sh: "inner_shape icap n" and room: "icount n < icap - 1"
    and harmless: "last_key_harmless hi n" "below_strict hi key"
    and cs: "inner_child_vector n = cs1 @ left # cs2" and ks: "inner_key_vector n = ks1 @ ks2"
    and len: "length ks1 = length cs1"
    and lo: "\<And>k. k \<in> set ks1 \<Longrightarrow> k < key" and hi: "\<And>k. k \<in> set ks2 \<Longrightarrow> key < k"
  obtains n' where "inner_insert icap key left right n = Some n'" "inner_shape icap n'"
    "icount n' = Suc (icount n)" "ilevel n' = ilevel n"
    "inner_child_vector n' = cs1 @ left # right # cs2" "inner_key_vector n' = ks1 @ key # ks2"
    "last_key_harmless hi n'"
proof -
  define i where "i = length ks1"
  have srt: "sorted_wrt (<) (ks1 @ ks2)" using sh ks by (simp add: inner_shape_def)
  have "i = lb_index (inner_key_vector n) key"
    using lb_index_append [OF srt, of key] lo hi by (simp add: i_def ks less_imp_le)
  note lb = inner_lower_bound_ok [OF sh this]
  have n: "length (ikeys n) = icap" "length (ichildren n) = icap" "2 \<le> icount n"
    using sh by (auto simp: inner_shape_def)
  have lens: "length ks1 + length ks2 = icount n - 1" "length cs1 + length cs2 = icount n - 1"
    using inner_vector_lengths [OF sh] cs ks by auto
  have kv: "take (icount n - 1) (ikeys n) = ks1 @ ks2" and cv: "take (icount n) (ichildren n) = cs1 @ left # cs2"
    using cs ks by (auto simp: inner_key_vector_def inner_child_vector_def)
  have child: "ichildren n ! i = left"
    using arg_cong [OF cv, of "\<lambda>xs. xs ! i"] lb(2) n len by (simp add: i_def)
  have nfound: "ikeys n ! i \<noteq> key"
  proof (cases ks2)
    case Nil
    then have "i = icount n - 1" using lens by (simp add: i_def)
    moreover have "inner_key_vector n \<noteq> []" using lens n ks by auto
    ultimately show ?thesis
      using last_key_not_found [OF harmless] lo ks Nil by simp
  next
    case (Cons k ks')
    then have "i < icount n - 1" using lens by (simp add: i_def)
    then have "ikeys n ! i = (ks1 @ ks2) ! i" by (metis kv nth_take)
    also have "\<dots> = k" using Cons by (simp add: i_def)
    finally show ?thesis using hi [of k] Cons by simp
  qed
  have base: "\<exists>n'. inner_insert icap key left right n = Some n' \<and> length (ikeys n') = icap
      \<and> length (ichildren n') = icap \<and> icount n' = Suc (icount n) \<and> ilevel n' = ilevel n
      \<and> inner_child_vector n' = cs1 @ left # right # cs2 \<and> inner_key_vector n' = ks1 @ key # ks2
      \<and> (ks2 = [] \<longrightarrow> ikeys n' ! icount n = key)
      \<and> (ks2 \<noteq> [] \<longrightarrow> ikeys n' ! icount n = ikeys n ! (icount n - 1))"
  proof (cases "i = icount n - 1")
    case True
    then have nil: "ks2 = []" "cs2 = []" using lens len by (auto simp: i_def)
    have tk: "take (icount n - 1) (ikeys n) = ks1" and tc: "take (icount n) (ichildren n) = cs1 @ [left]"
      using kv cv nil by auto
    obtain c where c: "icount n = Suc c" using n by (cases "icount n") auto
    have "take (Suc c) ((ikeys n)[c := key, Suc c := key]) = ks1 @ [key]"
      using tk c room n by (simp add: take_Suc_conv_app_nth)
    moreover have "take (Suc (Suc c)) ((ichildren n)[Suc c := right]) = cs1 @ [left, right]"
      using tc c room n by (simp add: take_Suc_conv_app_nth)
    ultimately show ?thesis
      using True lb nfound child room n nil c
      by (simp add: inner_insert_def Let_def inner_key_vector_def inner_child_vector_def)
  next
    case False
    then have lt: "i < icount n - 1" using lb by simp
    then have nn: "ks2 \<noteq> []" using lens by (auto simp: i_def)
    obtain c where c: "icount n = Suc c" using n by (cases "icount n") auto
    let ?ks = "(take (Suc i) (ikeys n) @ take (Suc c - i) (drop i (ikeys n)) @ drop (Suc (Suc c)) (ikeys n))[i := key]"
    let ?cs = "(take (Suc (Suc i)) (ichildren n) @ take (c - i) (drop (Suc i) (ichildren n))
                @ drop (Suc (Suc c)) (ichildren n))[Suc i := right]"
    have ev: "inner_insert icap key left right n
        = Some (n\<lparr>ichildren := ?cs, ikeys := ?ks, icount := Suc (Suc c)\<rparr>)"
      using lt lb nfound child room n c False
      by (simp add: inner_insert_def Let_def memmove_in Suc_diff_le)
    let ?A = "take i (ikeys n) @ key # drop i (take (Suc c) (ikeys n))"
    have A: "take (Suc (Suc c)) ?ks = ?A"
      using gap_open_take [of i "Suc c" "ikeys n" key] lt c room n by simp
    have pick: "take (Suc c) xs = take (Suc c) ?A \<and> xs ! Suc c = ?A ! Suc c"
      if "take (Suc (Suc c)) xs = ?A" for xs
      using that by (metis lessI min.absorb1 nth_take take_take le_SucI order_refl)
    have "take (Suc c) ?A = take i (ikeys n) @ key # drop i (take c (ikeys n))" "?A ! Suc c = ikeys n ! c"
      using lt c room n by (auto simp: nth_append drop_take Suc_diff_le min_def)
    then have "take (Suc c) ?ks = take i (ikeys n) @ key # drop i (take c (ikeys n))
        \<and> ?ks ! Suc c = ikeys n ! c"
      using pick [OF A] by simp
    moreover have "take (Suc (Suc c)) ?cs = take (Suc i) (ichildren n) @ right # drop (Suc i) (take (Suc c) (ichildren n))"
      using gap_open_take [of "Suc i" "Suc c" "ichildren n" right] lt c room n by simp
    moreover have "take i (ikeys n) = ks1" "drop i (take c (ikeys n)) = ks2"
      using prefix_of_take [of c "ikeys n" ks1 ks2] kv c lt by (auto simp: i_def)
    moreover have "take (Suc i) (ichildren n) = cs1 @ [left]" "drop (Suc i) (take (Suc c) (ichildren n)) = cs2"
      using prefix_of_take [of "Suc c" "ichildren n" "cs1 @ [left]" cs2] cv c lt len by (auto simp: i_def)
    ultimately show ?thesis
      using ev n room lt c nn by (simp add: inner_key_vector_def inner_child_vector_def)
  qed
  then obtain n' where n': "inner_insert icap key left right n = Some n'" "length (ikeys n') = icap"
      "length (ichildren n') = icap" "icount n' = Suc (icount n)" "ilevel n' = ilevel n"
      "inner_child_vector n' = cs1 @ left # right # cs2" "inner_key_vector n' = ks1 @ key # ks2"
      "ks2 = [] \<Longrightarrow> ikeys n' ! icount n = key"
      "ks2 \<noteq> [] \<Longrightarrow> ikeys n' ! icount n = ikeys n ! (icount n - 1)" by blast
  have "inner_shape icap n'"
    using n' room n srt lo hi by (auto simp: inner_shape_def sorted_wrt_append dest: less_trans)
  moreover have "last_key_harmless hi n'"
    using n'(4,7,8,9) harmless(1) ks by (cases ks2 rule: rev_cases) (auto simp: last_key_harmless_def split: option.splits)
  ultimately show ?thesis using that n' by blast
qed

lemma inner_split_ok:
  assumes sh: "inner_shape icap n" and cnt: "icount n = icap - 1" and cap: "5 \<le> icap"
    and harmless: "last_key_harmless hi n"
    and buddy: "length (ikeys b) = icap" "length (ichildren b) = icap"
  obtains sep l r cs1 cs2 ks1 ks2 where "inner_split icap n b = Some (sep, l, r)"
    "inner_shape icap l" "inner_shape icap r" "icount l < icap - 1" "icount r < icap - 1"
    "ilevel l = ilevel n" "ilevel r = ilevel b"
    "inner_child_vector l = cs1" "inner_child_vector r = cs2" "inner_child_vector n = cs1 @ cs2"
    "inner_key_vector l = ks1" "inner_key_vector r = ks2" "inner_key_vector n = ks1 @ sep # ks2"
    "length cs1 = Suc (length ks1)" "length cs2 = Suc (length ks2)" "ks2 \<noteq> []"
    "last_key_harmless (Some sep) l" "last_key_harmless hi r"
proof -
  define m where "m = (icount n - 1) div 2"
  define sep where "sep = ikeys n ! m"
  define l where "l = n\<lparr>icount := Suc m\<rparr>"
  define r where "r = b\<lparr>icount := icount n - Suc m,
    ikeys := take (icount n - Suc m) (drop (Suc m) (ikeys n)) @ drop (icount n - Suc m) (ikeys b),
    ichildren := take (icount n - Suc m) (drop (Suc m) (ichildren n)) @ drop (icount n - Suc m) (ichildren b)\<rparr>"
  have n: "length (ikeys n) = icap" "length (ichildren n) = icap" using sh by (auto simp: inner_shape_def)
  have m: "1 \<le> m" "Suc (Suc m) < icount n" using cap cnt by (auto simp: m_def)
  have ev: "inner_split icap n b = Some (sep, l, r)"
    using cnt m n buddy by (simp add: inner_split_def Let_def memcpy_def l_def r_def sep_def m_def)
  have kl: "inner_key_vector l = take m (ikeys n)" by (simp add: inner_key_vector_def l_def)
  have kr: "inner_key_vector r = drop (Suc m) (take (icount n - 1) (ikeys n))"
  proof -
    define k where "k = icount n - Suc m"
    have "k \<le> length (drop (Suc m) (ikeys n))" using m n cnt by (simp add: k_def)
    then have "take (k - 1) (take k (drop (Suc m) (ikeys n)) @ drop k (ikeys b)) = take (k - 1) (drop (Suc m) (ikeys n))"
      by (simp add: min_def)
    then show ?thesis by (simp add: inner_key_vector_def r_def drop_take k_def)
  qed
  have kn: "inner_key_vector n = take m (ikeys n) @ sep # drop (Suc m) (take (icount n - 1) (ikeys n))"
    using id_take_nth_drop [of m "take (icount n - 1) (ikeys n)"] m n cnt
    by (simp add: inner_key_vector_def sep_def)
  have cl: "inner_child_vector l = take (Suc m) (ichildren n)" by (simp add: inner_child_vector_def l_def)
  have cr: "inner_child_vector r = drop (Suc m) (take (icount n) (ichildren n))"
    using m n cnt by (simp add: inner_child_vector_def r_def drop_take)
  have cn: "inner_child_vector n = take (Suc m) (ichildren n) @ drop (Suc m) (take (icount n) (ichildren n))"
    using m by (simp add: inner_child_vector_def drop_take flip: take_add)
  have srt: "sorted_wrt (<) (take m (ikeys n) @ sep # drop (Suc m) (take (icount n - 1) (ikeys n)))"
    using sh kn by (simp add: inner_shape_def)
  have ne: "drop (Suc m) (take (icount n - 1) (ikeys n)) \<noteq> []" using m n cnt by simp
  have lastr: "ikeys r ! (icount r - 1) = ikeys n ! (icount n - 1)"
  proof -
    define k where "k = icount n - Suc m"
    have k: "0 < k" "k \<le> length (ikeys n) - Suc m" "Suc m + (k - 1) = icount n - 1"
      using m n cnt by (auto simp: k_def)
    then have "length (take k (drop (Suc m) (ikeys n))) = k" by simp
    then have "ikeys r ! (icount r - 1) = take k (drop (Suc m) (ikeys n)) ! (k - 1)"
      using k(1) by (simp add: r_def nth_append del: length_take flip: k_def)
    also have "\<dots> = ikeys n ! (Suc m + (k - 1))" using k(1,2) m n cnt by simp
    also have "\<dots> = ikeys n ! (icount n - 1)" unfolding k(3) ..
    finally show ?thesis .
  qed
  show ?thesis
  proof (rule that [OF ev _ _ _ _ _ _ cl cr cn kl kr kn])
    show "inner_shape icap l" using n m cnt srt by (simp add: inner_shape_def kl sorted_wrt_append) (auto simp: l_def)
    show "inner_shape icap r"
      using n m cnt srt buddy by (simp add: inner_shape_def kr sorted_wrt_append) (auto simp: r_def)
    show "icount l < icap - 1" "icount r < icap - 1" using m cnt by (simp_all add: l_def r_def)
    show "ilevel l = ilevel n" "ilevel r = ilevel b" by (simp_all add: l_def r_def)
    show "length (take (Suc m) (ichildren n)) = Suc (length (take m (ikeys n)))" using n m cnt by simp
    show "length (drop (Suc m) (take (icount n) (ichildren n)))
        = Suc (length (drop (Suc m) (take (icount n - 1) (ikeys n))))" using n m cnt by simp
    show "last_key_harmless (Some sep) l" by (simp add: last_key_harmless_def l_def sep_def)
    show "last_key_harmless hi r"
      using harmless ne lastr by (auto simp: last_key_harmless_def kr kn split: option.splits)
  qed (rule ne)
qed

lemma inner_init_insert_ok:
  assumes "icount n = 0" "length (ikeys n) = icap" "length (ichildren n) = icap" "5 \<le> icap"
  obtains n' where "inner_init_insert key left right n = Some n'" "inner_shape icap n'"
    "icount n' = 2" "ilevel n' = ilevel n"
    "inner_child_vector n' = [left, right]" "inner_key_vector n' = [key]" "last_key_harmless hi n'"
proof -
  define n' where "n' = n\<lparr>ichildren := (ichildren n)[0 := left, 1 := right],
     ikeys := (ikeys n)[0 := key, 1 := key], icount := 2\<rparr>"
  have "take 2 ((ichildren n)[0 := left, 1 := right]) = [left, right]"
    and "take 1 ((ikeys n)[0 := key, 1 := key]) = [key]"
    using assms by (simp_all add: numeral_2_eq_2 take_Suc_conv_app_nth)
  then have "inner_child_vector n' = [left, right]" "inner_key_vector n' = [key]"
    by (simp_all add: n'_def inner_child_vector_def inner_key_vector_def)
  with assms show ?thesis
    by (intro that [of n']) (auto simp: inner_init_insert_def n'_def inner_shape_def last_key_harmless_def)
qed

end
