(* ===== verification/BTree.thy ===== *)
theory BTree
  imports BTree_Node
begin

text \<open>
  The B+ tree over pages (\<^verbatim>\<open>src/task-btree/include/moderndbs/btree.h\<close>: \<open>get_leaf_page\<close>,
  \<open>lookup\<close>, \<open>erase\<close>, \<open>insert\<close>) and the buffer manager it is built against
  (\<^verbatim>\<open>src/task-btree/src/buffer_manager.cc\<close>), which keeps every page that was ever fixed and
  hands out a zeroed page for an id it has not seen. A zeroed page is at the same time an empty
  leaf and an inner node of level 0 without children (\<open>Fresh\<close>).

  The state is the tree's \<open>root\<close> and \<open>next_page_id\<close>, the pages, and for every page the number
  of fixes minus the number of unfixes (\<open>pins\<close>): the buffer manager of this task ignores it,
  but a real one does not. The loop of \<open>get_leaf_page\<close> recurses on the level of the
  parent, which its assertion on the levels makes decrease.
\<close>

datatype ('k, 'v) page = Fresh | LeafPage "('k, 'v) leaf" | InnerPage "'k inner"

record ('k, 'v) btree =
  root :: "page_id option"
  next_page_id :: page_id
  pages :: "page_id \<Rightarrow> ('k, 'v) page option"
  pins :: "page_id \<Rightarrow> int"

record caps =
  icap :: nat
  lcap :: nat

datatype traversal_type = Insert | Erase | Lookup

definition btree_init :: "nat \<Rightarrow> ('k, 'v) btree" where
  "btree_init segment_id = \<lparr>root = None, next_page_id = segment_id * 2 ^ 48, pages = Map.empty, pins = (\<lambda>_. 0)\<rparr>"

section \<open>Pages\<close>

definition fix_page :: "page_id \<Rightarrow> ('k, 'v) btree \<Rightarrow> ('k, 'v) btree" where
  "fix_page p t = t\<lparr>pages := (case pages t p of None \<Rightarrow> (pages t)(p \<mapsto> Fresh) | Some _ \<Rightarrow> pages t),
                    pins := (pins t)(p := pins t p + 1)\<rparr>"

definition unfix_page :: "page_id \<Rightarrow> ('k, 'v) btree \<Rightarrow> ('k, 'v) btree" where
  "unfix_page p t = t\<lparr>pins := (pins t)(p := pins t p - 1)\<rparr>"

fun page_level :: "('k, 'v) page \<Rightarrow> nat" where
  "page_level (InnerPage n) = ilevel n"
| "page_level _ = 0"

text \<open>The casts of a page's bytes to a node.\<close>

fun as_leaf :: "caps \<Rightarrow> ('k::zero, 'v::zero) page \<Rightarrow> ('k, 'v) leaf option" where
  "as_leaf c Fresh = Some \<lparr>lcount = 0, lkeys = replicate (lcap c) 0, lvals = replicate (lcap c) 0\<rparr>"
| "as_leaf c (LeafPage lf) = Some lf"
| "as_leaf c (InnerPage n) = None"

fun as_inner :: "caps \<Rightarrow> ('k::zero, 'v) page \<Rightarrow> 'k inner option" where
  "as_inner c Fresh = Some \<lparr>ilevel = 0, icount = 0, ichildren = replicate (icap c) 0, ikeys = replicate (icap c) 0\<rparr>"
| "as_inner c (InnerPage n) = Some n"
| "as_inner c (LeafPage lf) = None"

definition read_level :: "page_id \<Rightarrow> ('k, 'v) btree \<Rightarrow> nat option" where
  "read_level p t = do { pg \<leftarrow> pages t p; Some (page_level pg) }"

definition read_leaf :: "caps \<Rightarrow> page_id \<Rightarrow> ('k::zero, 'v::zero) btree \<Rightarrow> ('k, 'v) leaf option" where
  "read_leaf c p t = do { pg \<leftarrow> pages t p; as_leaf c pg }"

definition read_inner :: "caps \<Rightarrow> page_id \<Rightarrow> ('k::zero, 'v) btree \<Rightarrow> 'k inner option" where
  "read_inner c p t = do { pg \<leftarrow> pages t p; as_inner c pg }"

definition write_leaf :: "page_id \<Rightarrow> ('k, 'v) leaf \<Rightarrow> ('k, 'v) btree \<Rightarrow> ('k, 'v) btree" where
  "write_leaf p lf t = t\<lparr>pages := (pages t)(p \<mapsto> LeafPage lf)\<rparr>"

definition write_inner :: "page_id \<Rightarrow> 'k inner \<Rightarrow> ('k, 'v) btree \<Rightarrow> ('k, 'v) btree" where
  "write_inner p n t = t\<lparr>pages := (pages t)(p \<mapsto> InnerPage n)\<rparr>"

text \<open>\<open>next_page_id++\<close> with the page fixed.\<close>

definition new_page :: "('k, 'v) btree \<Rightarrow> page_id \<times> ('k, 'v) btree" where
  "new_page t = (next_page_id t, fix_page (next_page_id t) (t\<lparr>next_page_id := next_page_id t + 1\<rparr>))"

section \<open>The descent\<close>

text \<open>The split of an inner node that is not safe: the new page and the separator.
  The node is safe when it has more than one free slot.\<close>

definition split_inner_page :: "caps \<Rightarrow> page_id \<Rightarrow> ('k::{linorder, zero}, 'v) btree
    \<Rightarrow> ('k \<times> page_id \<times> ('k, 'v) btree) option" where
  "split_inner_page c p t = do {
     n \<leftarrow> read_inner c p t;
     let (new_id, t) = new_page t;
     b \<leftarrow> read_inner c new_id t;
     let b = b\<lparr>ilevel := ilevel n\<rparr>;
     (separator, l, r) \<leftarrow> inner_split (icap c) n b;
     require (icount l < icap c - 1);
     require (icount r < icap c - 1);
     Some (separator, new_id, write_inner new_id r (write_inner p l t)) }"

text \<open>Steps 2.3 of the code: a full root is split under a new root.
  The result is the page the descent goes on with.\<close>

definition make_root_safe :: "caps \<Rightarrow> 'k::{linorder, zero} \<Rightarrow> page_id \<Rightarrow> ('k, 'v) btree
    \<Rightarrow> (page_id \<times> ('k, 'v) btree) option" where
  "make_root_safe c key parent t = do {
     n \<leftarrow> read_inner c parent t;
     if icount n \<ge> icap c - 1 then do {
       (separator, new_id, t) \<leftarrow> split_inner_page c parent t;
       require (root t = Some parent);
       let (root_id, t) = new_page t;
       let t = t\<lparr>root := Some root_id\<rparr>;
       require (root_id \<noteq> parent);
       l \<leftarrow> read_inner c parent t;
       nr \<leftarrow> read_inner c root_id t;
       nr \<leftarrow> inner_init_insert separator parent new_id (nr\<lparr>ilevel := ilevel l + 1\<rparr>);
       require (icount nr = 2);
       let t = unfix_page root_id (write_inner root_id nr t);
       if separator < key then Some (new_id, unfix_page parent t)
       else Some (parent, unfix_page new_id t) }
     else Some (parent, t) }"

text \<open>Steps 2.5.1 to 2.5.7: a full child is split and the separator goes into the parent.\<close>

definition make_child_safe :: "caps \<Rightarrow> 'k::{linorder, zero} \<Rightarrow> page_id \<Rightarrow> page_id \<Rightarrow> ('k, 'v) btree
    \<Rightarrow> (page_id \<times> ('k, 'v) btree) option" where
  "make_child_safe c key parent child t = do {
     n \<leftarrow> read_inner c child t;
     if icount n \<ge> icap c - 1 then do {
       (separator, new_id, t) \<leftarrow> split_inner_page c child t;
       p \<leftarrow> read_inner c parent t;
       require (icount p < icap c);
       require (icount p \<ge> 2);
       p \<leftarrow> inner_insert (icap c) separator child new_id p;
       let t = write_inner parent p t;
       if separator < key then Some (new_id, unfix_page child t)
       else Some (child, unfix_page new_id t) }
     else Some (child, t) }"

definition assert_safe :: "caps \<Rightarrow> page_id \<Rightarrow> ('k::zero, 'v) btree \<Rightarrow> unit option" where
  "assert_safe c p t = do { n \<leftarrow> read_inner c p t; require (icount n < icap c - 1) }"

text \<open>One turn of the loop: \<open>parent\<close> is fixed and has the given level; the child is
  looked up and fixed. At a leaf the loop ends and the parent is unfixed (line 510).\<close>

fun descend :: "caps \<Rightarrow> traversal_type \<Rightarrow> 'k::{linorder, zero} \<Rightarrow> nat \<Rightarrow> page_id \<Rightarrow> ('k, 'v) btree
    \<Rightarrow> (page_id \<times> page_id \<times> ('k, 'v) btree) option" where
  "descend c tt key 0 parent t = None"
| "descend c tt key (Suc l) parent t = do {
     n \<leftarrow> read_inner c parent t;
     child \<leftarrow> inner_lookup (icap c) n key;
     let t = fix_page child t;
     lv \<leftarrow> read_level child t;
     require (lv + 1 = ilevel n);
     if lv = 0 then do {
       require (ilevel n = 1);
       Some (parent, child, unfix_page parent t) }
     else do {
       (child, t) \<leftarrow> (if tt = Insert then do {
                         (child, t) \<leftarrow> make_child_safe c key parent child t;
                         _ \<leftarrow> assert_safe c child t;
                         Some (child, t) }
                       else Some (child, t));
       descend c tt key l child (unfix_page parent t) } }"

definition get_leaf_page :: "caps \<Rightarrow> 'k::{linorder, zero} \<Rightarrow> traversal_type \<Rightarrow> ('k, 'v) btree
    \<Rightarrow> (page_id \<times> page_id \<times> ('k, 'v) btree) option" where
  "get_leaf_page c key tt t = do {
     parent \<leftarrow> root t;
     let t = fix_page parent t;
     lv \<leftarrow> read_level parent t;
     if lv = 0 then
       (if tt = Erase then Some (parent, parent, fix_page parent (unfix_page parent t))
        else Some (parent, parent, t))
     else do {
       (parent, t) \<leftarrow> (if tt = Insert then do {
                          (parent, t) \<leftarrow> make_root_safe c key parent t;
                          _ \<leftarrow> assert_safe c parent t;
                          Some (parent, t) }
                        else Some (parent, t));
       lv \<leftarrow> read_level parent t;
       descend c tt key lv parent t } }"

section \<open>The operations\<close>

definition btree_lookup :: "caps \<Rightarrow> 'k::{linorder, zero} \<Rightarrow> ('k, 'v::zero) btree
    \<Rightarrow> ('v option \<times> ('k, 'v) btree) option" where
  "btree_lookup c key t =
     (if root t = None then Some (None, t)
      else do {
        (parent, leaf, t) \<leftarrow> get_leaf_page c key Lookup t;
        let t = unfix_page parent t;
        lv \<leftarrow> read_level leaf t;
        require (lv = 0);
        lf \<leftarrow> read_leaf c leaf t;
        res \<leftarrow> leaf_lookup lf key;
        Some (res, unfix_page leaf t) })"

definition btree_erase :: "caps \<Rightarrow> 'k::{linorder, zero} \<Rightarrow> ('k, 'v::zero) btree \<Rightarrow> ('k, 'v) btree option" where
  "btree_erase c key t =
     (if root t = None then Some t
      else do {
        (parent, leaf, t) \<leftarrow> get_leaf_page c key Erase t;
        let t = unfix_page parent t;
        lv \<leftarrow> read_level leaf t;
        require (lv = 0);
        lf \<leftarrow> read_leaf c leaf t;
        lf \<leftarrow> leaf_erase key lf;
        Some (unfix_page leaf (write_leaf leaf lf t)) })"

text \<open>The part of \<open>insert\<close> after the descent.\<close>

definition insert_leaf :: "caps \<Rightarrow> 'k::{linorder, zero} \<Rightarrow> 'v::zero \<Rightarrow> page_id \<Rightarrow> page_id
    \<Rightarrow> ('k, 'v) btree \<Rightarrow> ('k, 'v) btree option" where
  "insert_leaf c key value parent leaf t = do {
     lv \<leftarrow> read_level leaf t;
     require (lv = 0);
     lf \<leftarrow> read_leaf c leaf t;
     if lcount lf = lcap c then do {
       let (new_id, t) = new_page t;
       b \<leftarrow> read_leaf c new_id t;
       (separator, l, r) \<leftarrow> leaf_split (lcap c) lf b;
       require (lcount l < lcap c);
       require (lcount r < lcap c);
       let t = write_leaf new_id r (write_leaf leaf l t);
       t \<leftarrow> (if parent = leaf then do {
                require (root t = Some leaf);
                let (root_id, t) = new_page t;
                let t = t\<lparr>root := Some root_id\<rparr>;
                nr \<leftarrow> read_inner c root_id t;
                nr \<leftarrow> inner_init_insert separator leaf new_id (nr\<lparr>ilevel := 1\<rparr>);
                require (icount nr = 2);
                Some (unfix_page root_id (write_inner root_id nr t)) }
              else do {
                p \<leftarrow> read_inner c parent t;
                require (ilevel p = 1);
                require (icount p \<ge> 2);
                p \<leftarrow> inner_insert (icap c) separator leaf new_id p;
                Some (unfix_page parent (write_inner parent p t)) });
       t \<leftarrow> (if separator < key
              then do { r \<leftarrow> leaf_insert (lcap c) key value r; Some (write_leaf new_id r t) }
              else do { l \<leftarrow> leaf_insert (lcap c) key value l; Some (write_leaf leaf l t) });
       Some (unfix_page leaf (unfix_page new_id t)) }
     else do {
       let t = (if parent \<noteq> leaf then unfix_page parent t else t);
       lf \<leftarrow> leaf_insert (lcap c) key value lf;
       Some (unfix_page leaf (write_leaf leaf lf t)) } }"

definition btree_insert :: "caps \<Rightarrow> 'k::{linorder, zero} \<Rightarrow> 'v::zero \<Rightarrow> ('k, 'v) btree \<Rightarrow> ('k, 'v) btree option" where
  "btree_insert c key value t =
     (case root t of
        None \<Rightarrow> do {
          let (root_id, t) = new_page t;
          let t = t\<lparr>root := Some root_id\<rparr>;
          lf \<leftarrow> read_leaf c root_id t;
          lf \<leftarrow> leaf_insert (lcap c) key value lf;
          Some (unfix_page root_id (write_leaf root_id lf t)) }
      | Some _ \<Rightarrow> do {
          (parent, leaf, t) \<leftarrow> get_leaf_page c key Insert t;
          insert_leaf c key value parent leaf t })"

end
