(* ===== verification/BTree_Spec.thy ===== *)
theory BTree_Spec
  imports BTree
begin

text \<open>
  What a B+ tree is: the well-formedness of a subtree with its key bounds (\<open>wf_tree\<close>), the
  pages it occupies, and the sorted list of its entries. The bounds follow the convention of
  the split: a separator is the largest key of its left neighbour, so that a child holds the
  keys \<open>k\<close> with \<open>lo < k\<close> and \<open>k \<le> hi\<close> (the comment in the source has it the
  other way round: \<open>K(i) <= K < K(i+1)\<close>).
\<close>

definition above_lo :: "'k::linorder option \<Rightarrow> 'k \<Rightarrow> bool" where
  "above_lo lo k = (case lo of None \<Rightarrow> True | Some l \<Rightarrow> l < k)"

definition below_hi :: "'k::linorder option \<Rightarrow> 'k \<Rightarrow> bool" where
  "below_hi hi k = (case hi of None \<Rightarrow> True | Some h \<Rightarrow> k \<le> h)"

lemma bound_simps [simp]:
  "above_lo None k" "above_lo (Some l) k = (l < k)" "below_hi None k" "below_hi (Some h) k = (k \<le> h)"
  "below_strict None k" "below_strict (Some h) k = (k < h)"
  by (simp_all add: above_lo_def below_hi_def below_strict_def)

lemma below_strictD: "below_strict hi k \<Longrightarrow> below_hi hi k"
  by (cases hi) auto

lemma above_trans: "above_lo lo k \<Longrightarrow> k \<le> k' \<Longrightarrow> above_lo lo k'"
  by (cases lo) auto

lemma below_trans: "below_hi hi k \<Longrightarrow> k' \<le> k \<Longrightarrow> below_hi hi k'"
  by (cases hi) auto

lemma below_strict_trans: "below_hi hi k \<Longrightarrow> k' < k \<Longrightarrow> below_strict hi k'"
  by (cases hi) auto

section \<open>Children between separators\<close>

fun chain :: "('c \<Rightarrow> 'k::linorder option \<Rightarrow> 'k option \<Rightarrow> bool) \<Rightarrow> 'k option \<Rightarrow> 'c list \<Rightarrow> 'k list
    \<Rightarrow> 'k option \<Rightarrow> bool" where
  "chain Q lo [] ks hi = False"
| "chain Q lo (c # cs) [] hi = (cs = [] \<and> Q c lo hi)"
| "chain Q lo (c # cs) (k # ks) hi = (Q c lo (Some k) \<and> above_lo lo k \<and> below_hi hi k \<and> chain Q (Some k) cs ks hi)"

text \<open>The bounds of the child between the separators \<open>ks1\<close> and \<open>ks2\<close>.\<close>

definition lo_of :: "'k option \<Rightarrow> 'k list \<Rightarrow> 'k option" where
  "lo_of lo ks1 = (if ks1 = [] then lo else Some (last ks1))"

definition hi_of :: "'k list \<Rightarrow> 'k option \<Rightarrow> 'k option" where
  "hi_of ks2 hi = (if ks2 = [] then hi else Some (hd ks2))"

lemma lo_of_simps [simp]: "lo_of lo [] = lo" "lo_of lo (k # ks) = lo_of (Some k) ks"
  by (simp_all add: lo_of_def)

lemma hi_of_simps [simp]: "hi_of [] hi = hi" "hi_of (k # ks) hi = Some k"
  by (simp_all add: hi_of_def)

lemma chain_length: "chain Q lo cs ks hi \<Longrightarrow> length cs = Suc (length ks)"
  by (induction Q lo cs ks hi rule: chain.induct) auto

lemma chain_keys: "chain Q lo cs ks hi \<Longrightarrow> k \<in> set ks \<Longrightarrow> above_lo lo k \<and> below_hi hi k"
proof (induction Q lo cs ks hi rule: chain.induct)
  case (3 Q lo c cs k' ks hi)
  then show ?case using above_trans [of lo k' k] by (auto intro: less_imp_le)
qed auto

lemma chain_sorted: "chain Q lo cs ks hi \<Longrightarrow> sorted_wrt (<) ks"
proof (induction Q lo cs ks hi rule: chain.induct)
  case (3 Q lo c cs k ks hi)
  then show ?case using chain_keys [of Q "Some k" cs ks hi] by auto
qed auto

lemma chain_cong: "(\<And>c lo hi. c \<in> set cs \<Longrightarrow> Q c lo hi = Q' c lo hi) \<Longrightarrow> chain Q lo cs ks hi = chain Q' lo cs ks hi"
  by (induction Q lo cs ks hi rule: chain.induct) auto

lemma chain_append:
  assumes "chain Q lo cs1 ks1 (Some k)" "\<And>x. x \<in> set ks1 \<Longrightarrow> x < k" "above_lo lo k" "below_hi hi k"
    "chain Q (Some k) cs2 ks2 hi"
  shows "chain Q lo (cs1 @ cs2) (ks1 @ k # ks2) hi"
  using assms
proof (induction cs1 arbitrary: lo ks1)
  case (Cons c cs1)
  then show ?case
    by (cases ks1) (auto intro: below_trans [of hi k] less_imp_le)
qed simp

lemma chain_split:
  assumes "chain Q lo (cs1 @ cs2) (ks1 @ k # ks2) hi" "length cs1 = Suc (length ks1)"
  shows "chain Q lo cs1 ks1 (Some k)" "chain Q (Some k) cs2 ks2 hi" "above_lo lo k" "below_hi hi k"
proof -
  have "chain Q lo cs1 ks1 (Some k) \<and> chain Q (Some k) cs2 ks2 hi" using assms
  proof (induction ks1 arbitrary: lo cs1)
    case Nil
    then show ?case by (cases cs1) auto
  next
    case (Cons k' ks1)
    then obtain c cs where cs1: "cs1 = c # cs" by (cases cs1) auto
    have "k' < k" using chain_sorted [OF Cons.prems(1)] by simp
    then show ?case using Cons cs1 by (auto intro: less_imp_le)
  qed
  then show "chain Q lo cs1 ks1 (Some k)" "chain Q (Some k) cs2 ks2 hi" by auto
  show "above_lo lo k" "below_hi hi k" using chain_keys [OF assms(1), of k] by auto
qed

lemma chain_focus:
  "chain Q lo (cs1 @ c # cs2) (ks1 @ ks2) hi \<Longrightarrow> length ks1 = length cs1
    \<Longrightarrow> Q c (lo_of lo ks1) (hi_of ks2 hi)"
proof (induction cs1 arbitrary: lo ks1)
  case Nil
  then show ?case by (cases ks2) auto
next
  case (Cons d cs1)
  then show ?case by (cases ks1) auto
qed

lemma chain_splice:
  assumes "chain Q lo (cs1 @ c # cs2) (ks1 @ ks2) hi" "length ks1 = length cs1"
    and "chain Q' (lo_of lo ks1) mid mk (hi_of ks2 hi)"
    and "\<And>k. k \<in> set mk \<Longrightarrow> below_strict (hi_of ks2 hi) k"
    and "\<And>x l h. x \<in> set cs1 \<union> set cs2 \<Longrightarrow> Q x l h \<Longrightarrow> Q' x l h"
  shows "chain Q' lo (cs1 @ mid @ cs2) (ks1 @ mk @ ks2) hi"
  using assms
proof (induction cs1 arbitrary: lo ks1)
  case Nil
  have Q': "chain Q' lo' cs2 ks' hi" if "chain Q lo' cs2 ks' hi" for lo' ks'
    using that Nil.prems(5)
  proof (induction Q lo' cs2 ks' hi rule: chain.induct)
    case (2 Q lo c cs hi)
    then show ?case by simp
  next
    case (3 Q lo c cs k ks hi)
    then show ?case by simp
  qed simp
  show ?case
  proof (cases ks2)
    case Nil2: Nil
    then show ?thesis using Nil by simp
  next
    case (Cons k ks)
    then show ?thesis
      using Nil Q' [of "Some k" ks] by (auto intro!: chain_append)
  qed
next
  case (Cons d cs1)
  obtain k ks where ks1: "ks1 = k # ks" using Cons.prems(2) by (cases ks1) auto
  have "chain Q' (Some k) (cs1 @ mid @ cs2) (ks @ mk @ ks2) hi"
    using Cons.prems ks1 by (intro Cons.IH) auto
  then show ?case using Cons.prems(1) Cons.prems(5) [of d] ks1 by auto
qed

lemma chain_left:
  assumes "chain Q lo (cs1 @ c # cs2) (ks1 @ ks2) hi" "length ks1 = length cs1" "x \<in> set cs1"
  shows "\<exists>l h m. Q x l (Some h) \<and> lo_of lo ks1 = Some m \<and> h \<le> m"
  using assms
proof (induction cs1 arbitrary: lo ks1)
  case (Cons d cs1)
  obtain k ks where ks1: "ks1 = k # ks" using Cons.prems(2) by (cases ks1) auto
  have rest: "chain Q (Some k) (cs1 @ c # cs2) (ks @ ks2) hi" using Cons.prems ks1 by simp
  show ?case
  proof (cases "x \<in> set cs1")
    case True
    then show ?thesis using Cons.IH [OF rest] Cons.prems(2) ks1 by simp
  next
    case False
    have "k \<le> last (k # ks)"
      using chain_keys [OF rest] by (cases ks rule: rev_cases) (auto intro: less_imp_le)
    then have "Q x lo (Some k) \<and> lo_of lo ks1 = Some (last (k # ks)) \<and> k \<le> last (k # ks)"
      using False Cons.prems ks1 by (auto simp: lo_of_def)
    then show ?thesis by blast
  qed
qed simp

lemma chain_right:
  assumes "chain Q lo (cs1 @ c # cs2) (ks1 @ ks2) hi" "length ks1 = length cs1" "x \<in> set cs2"
  shows "\<exists>l h m. Q x (Some l) h \<and> hi_of ks2 hi = Some m \<and> m \<le> l"
proof -
  obtain k ks where ks2: "ks2 = k # ks"
    using chain_length [OF assms(1)] assms(2,3) by (cases ks2) auto
  have ch: "chain Q (Some k) cs2 ks hi"
    using chain_split [of Q lo "cs1 @ [c]" cs2 ks1 k ks hi] assms(1,2) ks2 by simp
  have "\<exists>l h. Q x (Some l) h \<and> k \<le> l" if "chain Q (Some k) cs2 ks hi" for k
    using that assms(3)
  proof (induction cs2 arbitrary: k ks)
    case (Cons d cs2)
    then show ?case
      by (cases ks) (auto, meson less_le_not_le order_trans)
  qed simp
  then show ?thesis using ch ks2 by auto
qed

lemma chain_elems:
  assumes "chain Q lo cs ks hi" "x \<in> set cs"
  shows "\<exists>l h. Q x l h \<and> (\<forall>k. above_lo l k \<longrightarrow> above_lo lo k) \<and> (\<forall>k. below_hi h k \<longrightarrow> below_hi hi k)"
  using assms
proof (induction Q lo cs ks hi rule: chain.induct)
  case (3 Q lo c cs k ks hi)
  then show ?case
  proof (cases "x = c")
    case True
    then have "Q x lo (Some k)" "\<forall>k'. below_hi (Some k) k' \<longrightarrow> below_hi hi k'"
      using 3 below_trans [of hi k] by auto
    then show ?thesis by blast
  next
    case False
    then obtain l h where "Q x l h" "\<forall>k'. above_lo l k' \<longrightarrow> above_lo (Some k) k'" "\<forall>k. below_hi h k \<longrightarrow> below_hi hi k"
      using 3 by auto
    then show ?thesis using 3(2) by (metis above_trans bound_simps(2) chain.simps(3) less_imp_le)
  qed
qed auto

section \<open>Subtrees\<close>

type_synonym ('k, 'v) pages = "page_id \<Rightarrow> ('k, 'v) page option"

fun leaf_at :: "('k, 'v) pages \<Rightarrow> page_id \<Rightarrow> ('k, 'v) leaf option" where
  "leaf_at P p = (case P p of Some (LeafPage lf) \<Rightarrow> Some lf | _ \<Rightarrow> None)"

fun inner_at :: "('k, 'v) pages \<Rightarrow> page_id \<Rightarrow> 'k inner option" where
  "inner_at P p = (case P p of Some (InnerPage n) \<Rightarrow> Some n | _ \<Rightarrow> None)"

primrec wf_tree :: "caps \<Rightarrow> ('k::linorder, 'v) pages \<Rightarrow> nat \<Rightarrow> page_id \<Rightarrow> 'k option \<Rightarrow> 'k option \<Rightarrow> bool" where
  "wf_tree c P 0 p lo hi =
     (case leaf_at P p of
        None \<Rightarrow> False
      | Some lf \<Rightarrow> leaf_ok (lcap c) lf
          \<and> list_all (\<lambda>e. above_lo lo (fst e) \<and> below_hi hi (fst e)) (leaf_entries lf))"
| "wf_tree c P (Suc l) p lo hi =
     (case inner_at P p of
        None \<Rightarrow> False
      | Some n \<Rightarrow> ilevel n = Suc l \<and> inner_shape (icap c) n \<and> icount n < icap c
          \<and> last_key_harmless hi n
          \<and> chain (wf_tree c P l) lo (inner_child_vector n) (inner_key_vector n) hi)"

primrec page_list :: "('k, 'v) pages \<Rightarrow> nat \<Rightarrow> page_id \<Rightarrow> page_id list" where
  "page_list P 0 p = [p]"
| "page_list P (Suc l) p =
     p # (case inner_at P p of None \<Rightarrow> [] | Some n \<Rightarrow> concat (map (page_list P l) (inner_child_vector n)))"

primrec entries :: "('k, 'v) pages \<Rightarrow> nat \<Rightarrow> page_id \<Rightarrow> ('k \<times> 'v) list" where
  "entries P 0 p = (case leaf_at P p of None \<Rightarrow> [] | Some lf \<Rightarrow> leaf_entries lf)"
| "entries P (Suc l) p =
     (case inner_at P p of None \<Rightarrow> [] | Some n \<Rightarrow> concat (map (entries P l) (inner_child_vector n)))"

lemma leaf_at_iff: "leaf_at P p = Some lf \<longleftrightarrow> P p = Some (LeafPage lf)"
  by (auto split: option.splits page.splits)

lemma inner_at_iff: "inner_at P p = Some n \<longleftrightarrow> P p = Some (InnerPage n)"
  by (auto split: option.splits page.splits)

declare leaf_at.simps [simp del] inner_at.simps [simp del]

lemma at_simps [simp]:
  "P p = Some (LeafPage lf) \<Longrightarrow> leaf_at P p = Some lf"
  "P p = Some (InnerPage n) \<Longrightarrow> inner_at P p = Some n"
  by (simp_all add: leaf_at_iff inner_at_iff)

lemma wf_leafE:
  assumes "wf_tree c P 0 p lo hi"
  obtains lf where "P p = Some (LeafPage lf)" "leaf_ok (lcap c) lf"
    "\<And>e. e \<in> set (leaf_entries lf) \<Longrightarrow> above_lo lo (fst e) \<and> below_hi hi (fst e)"
  using assms by (auto simp: leaf_at_iff list_all_iff split: option.splits)

lemma wf_innerE:
  assumes "wf_tree c P (Suc l) p lo hi"
  obtains n where "P p = Some (InnerPage n)" "ilevel n = Suc l" "inner_shape (icap c) n" "icount n < icap c"
    "last_key_harmless hi n" "chain (wf_tree c P l) lo (inner_child_vector n) (inner_key_vector n) hi"
  using assms by (auto simp: inner_at_iff split: option.splits)

lemma page_list_self [simp]: "p \<in> set (page_list P l p)"
  by (cases l) auto

lemma tree_frame:
  "(\<And>q. q \<in> set (page_list P l p) \<Longrightarrow> P' q = P q) \<Longrightarrow>
    wf_tree c P' l p = wf_tree c P l p \<and> page_list P' l p = page_list P l p \<and> entries P' l p = entries P l p"
proof (induction l arbitrary: p)
  case 0
  then show ?case by (auto simp: leaf_at.simps fun_eq_iff)
next
  case (Suc l)
  have at: "inner_at P' p = inner_at P p" using Suc.prems [of p] by (simp add: inner_at.simps)
  show ?case
  proof (cases "inner_at P p")
    case None
    then show ?thesis using at by (simp add: fun_eq_iff)
  next
    case (Some n)
    have IH: "wf_tree c P' l q = wf_tree c P l q" "page_list P' l q = page_list P l q" "entries P' l q = entries P l q"
      if "q \<in> set (inner_child_vector n)" for q
      using Suc.IH [of q] Suc.prems that Some by auto
    have "chain (wf_tree c P' l) lo (inner_child_vector n) ks hi = chain (wf_tree c P l) lo (inner_child_vector n) ks hi"
      for lo ks hi using IH by (intro chain_cong) simp
    moreover have "concat (map (page_list P' l) (inner_child_vector n)) = concat (map (page_list P l) (inner_child_vector n))"
      "concat (map (entries P' l) (inner_child_vector n)) = concat (map (entries P l) (inner_child_vector n))"
      using IH by (auto intro!: arg_cong [where f = concat])
    ultimately show ?thesis using Some at by (simp add: fun_eq_iff)
  qed
qed

lemma wf_entries_bounds:
  "wf_tree c P l p lo hi \<Longrightarrow> e \<in> set (entries P l p) \<Longrightarrow> above_lo lo (fst e) \<and> below_hi hi (fst e)"
proof (induction l arbitrary: p lo hi)
  case 0
  from 0(1) show ?case by (rule wf_leafE) (use 0(2) in auto)
next
  case (Suc l)
  then obtain n q where n: "P p = Some (InnerPage n)" "q \<in> set (inner_child_vector n)" "e \<in> set (entries P l q)"
    and ch: "chain (wf_tree c P l) lo (inner_child_vector n) (inner_key_vector n) hi"
    by (auto elim!: wf_innerE simp del: wf_tree.simps)
  obtain lo' hi' where "wf_tree c P l q lo' hi'" "\<forall>k. above_lo lo' k \<longrightarrow> above_lo lo k"
    "\<forall>k. below_hi hi' k \<longrightarrow> below_hi hi k"
    using chain_elems [OF ch n(2)] by blast
  with Suc.IH [of q lo' hi'] n(3) show ?case by blast
qed

lemma wf_pages: "wf_tree c P l p lo hi \<Longrightarrow> q \<in> set (page_list P l p) \<Longrightarrow> P q \<noteq> None"
proof (induction l arbitrary: p lo hi)
  case 0
  from 0(1) show ?case by (rule wf_leafE) (use 0(2) in auto)
next
  case (Suc l)
  obtain n where n: "P p = Some (InnerPage n)"
    and ch: "chain (wf_tree c P l) lo (inner_child_vector n) (inner_key_vector n) hi"
    using Suc.prems(1) by (elim wf_innerE)
  show ?case
  proof (cases "q = p")
    case False
    then obtain x where x: "x \<in> set (inner_child_vector n)" "q \<in> set (page_list P l x)"
      using Suc.prems(2) n by auto
    then show ?thesis using chain_elems [OF ch x(1)] Suc.IH [of x] by blast
  qed (simp add: n)
qed

lemma wf_level: "wf_tree c P l p lo hi \<Longrightarrow> map_option page_level (P p) = Some l"
  by (cases l) (simp_all del: wf_tree.simps, auto elim!: wf_leafE wf_innerE simp del: wf_tree.simps)

section \<open>The node a search goes through\<close>

text \<open>For a key within the bounds of an inner node, the child that \<open>lower_bound\<close> picks
  splits the children and the separators, and the key is within the bounds of that child.\<close>

lemma search_splits:
  assumes n: "inner_shape m n" and ch: "chain Q lo (inner_child_vector n) (inner_key_vector n) hi"
    and key: "above_lo lo key" "below_hi hi key"
  obtains cs1 child cs2 ks1 ks2 where "inner_lookup m n key = Some child"
    "inner_child_vector n = cs1 @ child # cs2" "inner_key_vector n = ks1 @ ks2" "length ks1 = length cs1"
    "above_lo (lo_of lo ks1) key" "below_hi (hi_of ks2 hi) key" "Q child (lo_of lo ks1) (hi_of ks2 hi)"
proof -
  define i where "i = lb_index (inner_key_vector n) key"
  define cs1 child cs2 ks1 ks2 where d: "cs1 = take i (inner_child_vector n)"
    "child = inner_child_vector n ! i" "cs2 = drop (Suc i) (inner_child_vector n)"
    "ks1 = take i (inner_key_vector n)" "ks2 = drop i (inner_key_vector n)"
  have len: "length (inner_child_vector n) = Suc (length (inner_key_vector n))"
    using chain_length [OF ch] .
  have i: "i \<le> length (inner_key_vector n)" by (simp add: i_def)
  have cs: "inner_child_vector n = cs1 @ child # cs2"
    using id_take_nth_drop [of i "inner_child_vector n"] i len by (simp add: d)
  have ks: "inner_key_vector n = ks1 @ ks2" by (simp add: d)
  have lens: "length ks1 = length cs1" using i len by (simp add: d)
  have "\<forall>k \<in> set ks1. k < key"
    using lb_index_before [of _ "inner_key_vector n" key] i by (fastforce simp: d i_def in_set_conv_nth)
  then have lo: "above_lo (lo_of lo ks1) key" using key(1) by (simp add: lo_of_def)
  have hi: "below_hi (hi_of ks2 hi) key"
  proof (cases "i < length (inner_key_vector n)")
    case True
    then have "ks2 \<noteq> []" "hd ks2 = inner_key_vector n ! i" by (simp_all add: d hd_drop_conv_nth)
    then show ?thesis
      using lb_index_after [OF chain_sorted [OF ch], of key i] True by (simp add: i_def hi_of_def)
  qed (simp add: d key(2))
  have "inner_lookup m n key = Some child"
    using inner_lookup_ok [OF n, of key] by (simp add: d(2) i_def)
  moreover have "Q child (lo_of lo ks1) (hi_of ks2 hi)"
    by (rule chain_focus [OF ch [unfolded cs ks] lens])
  ultimately show ?thesis using that cs ks lens lo hi by blast
qed

lemma siblings_keys:
  assumes ch: "chain (wf_tree c P l) lo (cs1 @ child # cs2) (ks1 @ ks2) hi" and len: "length ks1 = length cs1"
    and key: "above_lo (lo_of lo ks1) key" "below_hi (hi_of ks2 hi) key"
  shows "e \<in> set (concat (map (entries P l) cs1)) \<Longrightarrow> fst e < key"
    and "e \<in> set (concat (map (entries P l) cs2)) \<Longrightarrow> key < fst e"
proof -
  assume "e \<in> set (concat (map (entries P l) cs1))"
  then obtain x where x: "x \<in> set cs1" "e \<in> set (entries P l x)" by auto
  with chain_left [OF ch len x(1)] key(1) show "fst e < key"
    using wf_entries_bounds [of c P l x _ _ e] by fastforce
next
  assume "e \<in> set (concat (map (entries P l) cs2))"
  then obtain x where x: "x \<in> set cs2" "e \<in> set (entries P l x)" by auto
  with chain_right [OF ch len x(1)] key(2) show "key < fst e"
    using wf_entries_bounds [of c P l x _ _ e] by fastforce
qed

lemma map_of_only_middle:
  assumes "\<And>e. e \<in> set es1 \<Longrightarrow> fst e < key" "\<And>e. e \<in> set es2 \<Longrightarrow> key < fst e"
  shows "map_of (es1 @ es @ es2) key = map_of es (key :: 'k::order)"
proof -
  have "key \<notin> fst ` set es1" "key \<notin> fst ` set es2" using assms by (auto dest: less_imp_neq)
  then have "map_of es1 key = None" "map_of es2 key = None" by (simp_all add: map_of_eq_None_iff)
  then show ?thesis by (simp add: map_add_def split: option.splits)
qed

lemma entries_sorted: "wf_tree c P l p lo hi \<Longrightarrow> sorted_keys (entries P l p)"
proof (induction l arbitrary: p lo hi)
  case 0
  then show ?case by (rule wf_leafE) (simp add: leaf_sorted)
next
  case (Suc l)
  obtain n where n: "P p = Some (InnerPage n)"
    and ch: "chain (wf_tree c P l) lo (inner_child_vector n) (inner_key_vector n) hi"
    using Suc.prems by (elim wf_innerE)
  have "sorted_keys (concat (map (entries P l) cs)) \<and> (\<forall>e \<in> set (concat (map (entries P l) cs)). above_lo lo (fst e))"
    if "chain (wf_tree c P l) lo cs ks hi" for cs ks lo
    using that
  proof (induction cs arbitrary: lo ks)
    case (Cons d cs)
    show ?case
    proof (cases ks)
      case Nil
      then show ?thesis using Cons.prems Suc.IH [of d] wf_entries_bounds [of c P l d] by auto
    next
      case ks: (Cons k ks')
      have d: "wf_tree c P l d lo (Some k)" and ab: "above_lo lo k" and rest: "chain (wf_tree c P l) (Some k) cs ks' hi"
        using Cons.prems ks by auto
      have IH: "sorted_keys (concat (map (entries P l) cs))"
        "\<forall>e \<in> set (concat (map (entries P l) cs)). k < fst e"
        using Cons.IH [OF rest] by auto
      have b: "above_lo lo (fst e) \<and> fst e \<le> k" if "e \<in> set (entries P l d)" for e
        using wf_entries_bounds [OF d that] by simp
      have "sorted_keys (entries P l d)" using Suc.IH [OF d] .
      moreover define R where "R = concat (map (entries P l) cs)"
      have "\<forall>e \<in> set (entries P l d). \<forall>e' \<in> set R. fst e < fst e'"
        using b IH(2) unfolding R_def by (meson le_less_trans)
      moreover have "\<forall>e \<in> set (entries P l d) \<union> set R. above_lo lo (fst e)"
        using b IH(2) above_trans [OF ab] unfolding R_def [symmetric] by (auto intro: less_imp_le)
      moreover have "sorted_keys R" using IH(1) by (simp add: R_def)
      ultimately have "sorted_keys (entries P l d @ R) \<and> (\<forall>e \<in> set (entries P l d @ R). above_lo lo (fst e))"
        by (simp add: sorted_wrt_append)
      then show ?thesis by (simp add: R_def)
    qed
  qed simp
  with ch n show ?case by auto
qed

end
