(* ===== verification/BTree_Correct.thy ===== *)
theory BTree_Correct
  imports BTree_Spec
begin

text \<open>
  Correctness of the B+ tree: on a well-formed tree (\<open>btree_inv\<close>) no assertion of the code
  fails, \<open>btree_lookup\<close> reads the map of the entries, and \<open>btree_insert\<close> and
  \<open>btree_erase\<close> update it and keep the tree well-formed, for nodes of at least five
  children and leaves of at least three entries.
\<close>

definition caps_ok :: "caps \<Rightarrow> bool" where
  "caps_ok c \<longleftrightarrow> 5 \<le> icap c \<and> 3 \<le> lcap c"

definition fresh_above :: "('k, 'v) btree \<Rightarrow> bool" where
  "fresh_above t \<longleftrightarrow> dom (pages t) \<subseteq> {..<next_page_id t}"

definition btree_inv :: "caps \<Rightarrow> ('k::linorder, 'v) btree \<Rightarrow> bool" where
  "btree_inv c t \<longleftrightarrow> fresh_above t
     \<and> (case root t of None \<Rightarrow> True
        | Some r \<Rightarrow> (case pages t r of None \<Rightarrow> False
          | Some pg \<Rightarrow> wf_tree c (pages t) (page_level pg) r None None
              \<and> distinct (page_list (pages t) (page_level pg) r)))"

definition btree_entries :: "('k, 'v) btree \<Rightarrow> ('k \<times> 'v) list" where
  "btree_entries t =
     (case root t of None \<Rightarrow> []
      | Some r \<Rightarrow> (case pages t r of None \<Rightarrow> [] | Some pg \<Rightarrow> entries (pages t) (page_level pg) r))"

lemma fresh_aboveD: "fresh_above t \<Longrightarrow> pages t q = Some pg \<Longrightarrow> q < next_page_id t"
  by (auto simp: fresh_above_def dom_def)

lemma fresh_above_None: "fresh_above t \<Longrightarrow> next_page_id t \<le> q \<Longrightarrow> pages t q = None"
  by (cases "pages t q") (auto dest: fresh_aboveD)

lemma fix_page_simps [simp]:
  "root (fix_page p t) = root t" "next_page_id (fix_page p t) = next_page_id t"
  "pages t p \<noteq> None \<Longrightarrow> pages (fix_page p t) = pages t"
  "pages t p = None \<Longrightarrow> pages (fix_page p t) = (pages t)(p \<mapsto> Fresh)"
  "pins (fix_page p t) = (pins t)(p := pins t p + 1)"
  by (auto simp: fix_page_def)

lemma unfix_page_simps [simp]:
  "root (unfix_page p t) = root t" "next_page_id (unfix_page p t) = next_page_id t"
  "pages (unfix_page p t) = pages t" "pins (unfix_page p t) = (pins t)(p := pins t p - 1)"
  by (simp_all add: unfix_page_def)

lemma write_simps [simp]:
  "root (write_leaf p lf t) = root t" "next_page_id (write_leaf p lf t) = next_page_id t"
  "pages (write_leaf p lf t) = (pages t)(p \<mapsto> LeafPage lf)"
  "root (write_inner p n t) = root t" "next_page_id (write_inner p n t) = next_page_id t"
  "pages (write_inner p n t) = (pages t)(p \<mapsto> InnerPage n)"
  by (simp_all add: write_leaf_def write_inner_def)

lemma read_level_simp [simp]: "pages t p = Some pg \<Longrightarrow> read_level p t = Some (page_level pg)"
  by (simp add: read_level_def)

lemma read_leaf_simp [simp]: "pages t p = Some (LeafPage lf) \<Longrightarrow> read_leaf c p t = Some lf"
  by (simp add: read_leaf_def)

lemma read_inner_simp [simp]: "pages t p = Some (InnerPage n) \<Longrightarrow> read_inner c p t = Some n"
  by (simp add: read_inner_def)

lemma read_leaf_fresh [simp]:
  "pages t p = Some Fresh \<Longrightarrow> read_leaf c p t
     = Some \<lparr>lcount = 0, lkeys = replicate (lcap c) 0, lvals = replicate (lcap c) 0\<rparr>"
  by (simp add: read_leaf_def)

lemma read_inner_fresh [simp]:
  "pages t p = Some Fresh \<Longrightarrow> read_inner c p t
     = Some \<lparr>ilevel = 0, icount = 0, ichildren = replicate (icap c) 0, ikeys = replicate (icap c) 0\<rparr>"
  by (simp add: read_inner_def)

text \<open>A new page is the id \<open>next_page_id\<close> and a zeroed page.\<close>

lemma new_page_fresh:
  assumes "fresh_above t"
  obtains t' where "new_page t = (next_page_id t, t')" "root t' = root t"
    "next_page_id t' = Suc (next_page_id t)" "pages t' = (pages t)(next_page_id t \<mapsto> Fresh)"
    "fresh_above t'"
proof -
  have "pages t (next_page_id t) = None" using fresh_above_None [OF assms] by simp
  then show ?thesis
    using that [of "snd (new_page t)"] subset_trans [OF assms [unfolded fresh_above_def], of "{..<Suc (next_page_id t)}"]
    by (simp add: new_page_def fresh_above_def)
qed

section \<open>Rebuilding an inner node around a changed child\<close>

text \<open>The node \<open>p\<close> keeps its children except \<open>child\<close>, whose place is taken by the
  children \<open>mid\<close> with the separators \<open>mk\<close>; \<open>N\<close> are the new page ids.\<close>

lemma replace_child:
  assumes n: "P p = Some (InnerPage n)"
    and ch: "chain (wf_tree c P l) lo (cs1 @ child # cs2) (ks1 @ ks2) hi"
    and cs: "inner_child_vector n = cs1 @ child # cs2" and len: "length ks1 = length cs1"
    and dist: "distinct (page_list P (Suc l) p)"
    and n': "P' p = Some (InnerPage n')" "ilevel n' = Suc l" "inner_shape (icap c) n'" "icount n' < icap c"
      "last_key_harmless hi n'" "inner_child_vector n' = cs1 @ mid @ cs2" "inner_key_vector n' = ks1 @ mk @ ks2"
    and same: "\<And>q. q \<in> set (page_list P (Suc l) p) \<Longrightarrow> q \<noteq> p \<Longrightarrow> q \<notin> set (page_list P l child) \<Longrightarrow> P' q = P q"
    and mid: "chain (wf_tree c P' l) (lo_of lo ks1) mid mk (hi_of ks2 hi)"
    and strict: "\<And>k. k \<in> set mk \<Longrightarrow> below_strict (hi_of ks2 hi) k"
    and pm: "distinct (concat (map (page_list P' l) mid))"
      "set (concat (map (page_list P' l) mid)) \<subseteq> set (page_list P l child) \<union> N"
    and N: "N \<inter> set (page_list P (Suc l) p) = {}"
  shows "wf_tree c P' (Suc l) p lo hi" "distinct (page_list P' (Suc l) p)"
    "set (page_list P' (Suc l) p) \<subseteq> set (page_list P (Suc l) p) \<union> N"
    "entries P' (Suc l) p = concat (map (entries P l) cs1) @ concat (map (entries P' l) mid)
       @ concat (map (entries P l) cs2)"
proof -
  have pl: "page_list P (Suc l) p = p # concat (map (page_list P l) cs1) @ page_list P l child
      @ concat (map (page_list P l) cs2)"
    using n cs by simp
  have frame: "wf_tree c P' l x = wf_tree c P l x \<and> page_list P' l x = page_list P l x \<and> entries P' l x = entries P l x"
    if "x \<in> set cs1 \<union> set cs2" for x
  proof (rule tree_frame)
    fix q assume "q \<in> set (page_list P l x)"
    then have "q \<in> set (concat (map (page_list P l) cs1)) \<union> set (concat (map (page_list P l) cs2))"
      using that by auto
    then show "P' q = P q" using dist same [of q] unfolding pl by (auto simp del: set_concat)
  qed
  have keep: "concat (map (page_list P' l) cs1) = concat (map (page_list P l) cs1)"
    "concat (map (page_list P' l) cs2) = concat (map (page_list P l) cs2)"
    "concat (map (entries P' l) cs1) = concat (map (entries P l) cs1)"
    "concat (map (entries P' l) cs2) = concat (map (entries P l) cs2)"
    using frame by (auto intro!: arg_cong [where f = concat])
  have pl': "page_list P' (Suc l) p = p # concat (map (page_list P l) cs1) @ concat (map (page_list P' l) mid)
      @ concat (map (page_list P l) cs2)"
    using n' keep(1,2) by simp
  have "chain (wf_tree c P' l) lo (cs1 @ mid @ cs2) (ks1 @ mk @ ks2) hi"
    by (rule chain_splice [OF ch len mid strict]) (use frame in auto)
  then show "wf_tree c P' (Suc l) p lo hi" using n' by simp
  show "distinct (page_list P' (Suc l) p)"
    using dist pm N unfolding pl' pl by (auto simp del: set_concat)
  show "set (page_list P' (Suc l) p) \<subseteq> set (page_list P (Suc l) p) \<union> N"
    using pm(2) unfolding pl' pl by (auto simp del: set_concat)
  show "entries P' (Suc l) p = concat (map (entries P l) cs1) @ concat (map (entries P' l) mid)
       @ concat (map (entries P l) cs2)"
    using n' keep(3,4) by simp
qed

section \<open>Searching\<close>

text \<open>\<open>leaf\<close> is the leaf that can hold \<open>key\<close>, and exchanging its entries
  exchanges them in the tree.\<close>

definition leaf_for :: "caps \<Rightarrow> ('k::linorder, 'v) pages \<Rightarrow> nat \<Rightarrow> page_id \<Rightarrow> 'k option \<Rightarrow> 'k option \<Rightarrow> 'k
    \<Rightarrow> page_id \<Rightarrow> bool" where
  "leaf_for c P l p lo hi key leaf \<longleftrightarrow>
     (\<exists>lf E1 E2. P leaf = Some (LeafPage lf) \<and> leaf_ok (lcap c) lf
        \<and> entries P l p = E1 @ leaf_entries lf @ E2
        \<and> (\<forall>e \<in> set E1. fst e < key) \<and> (\<forall>e \<in> set E2. key < fst e)
        \<and> leaf \<in> set (page_list P l p)
        \<and> (\<forall>lf'. leaf_ok (lcap c) lf'
              \<and> fst ` set (leaf_entries lf') \<subseteq> Set.insert key (fst ` set (leaf_entries lf)) \<longrightarrow>
            wf_tree c (P(leaf \<mapsto> LeafPage lf')) l p lo hi
            \<and> page_list (P(leaf \<mapsto> LeafPage lf')) l p = page_list P l p
            \<and> entries (P(leaf \<mapsto> LeafPage lf')) l p = E1 @ leaf_entries lf' @ E2))"

lemma leaf_for_leaf:
  assumes wf: "wf_tree c P 0 p lo hi" and key: "above_lo lo key" "below_hi hi key"
  shows "leaf_for c P 0 p lo hi key p"
proof -
  obtain lf where lf: "P p = Some (LeafPage lf)" "leaf_ok (lcap c) lf"
    "\<And>e. e \<in> set (leaf_entries lf) \<Longrightarrow> above_lo lo (fst e) \<and> below_hi hi (fst e)"
    using wf_leafE [OF wf] by blast
  have "above_lo lo (fst e) \<and> below_hi hi (fst e)"
    if "fst ` set (leaf_entries lf') \<subseteq> Set.insert key (fst ` set (leaf_entries lf))"
      "e \<in> set (leaf_entries lf')" for lf' :: "('a, 'b) leaf" and e
  proof -
    have "fst e = key \<or> (\<exists>e' \<in> set (leaf_entries lf). fst e = fst e')" using that by blast
    then show ?thesis using key lf(3) by metis
  qed
  then show ?thesis
    unfolding leaf_for_def using lf
    by (intro exI [of _ lf] exI [of _ "[]"]) (simp add: list_all_iff, blast)
qed

lemma leaf_for_step:
  assumes n: "P p = Some (InnerPage n)" "ilevel n = Suc l" "inner_shape (icap c) n" "icount n < icap c"
      "last_key_harmless hi n"
    and ch: "chain (wf_tree c P l) lo (cs1 @ child # cs2) (ks1 @ ks2) hi"
    and cs: "inner_child_vector n = cs1 @ child # cs2" "inner_key_vector n = ks1 @ ks2" "length ks1 = length cs1"
    and dist: "distinct (page_list P (Suc l) p)"
    and key: "above_lo (lo_of lo ks1) key" "below_hi (hi_of ks2 hi) key"
    and leaf: "leaf_for c P l child (lo_of lo ks1) (hi_of ks2 hi) key leaf"
  shows "leaf_for c P (Suc l) p lo hi key leaf"
proof -
  obtain lf E1 E2 where lf: "P leaf = Some (LeafPage lf)" "leaf_ok (lcap c) lf"
      "entries P l child = E1 @ leaf_entries lf @ E2"
      "\<forall>e \<in> set E1. fst e < key" "\<forall>e \<in> set E2. key < fst e" "leaf \<in> set (page_list P l child)"
    and upd: "\<And>lf'. leaf_ok (lcap c) lf' \<Longrightarrow>
        fst ` set (leaf_entries lf') \<subseteq> Set.insert key (fst ` set (leaf_entries lf)) \<Longrightarrow>
        wf_tree c (P(leaf \<mapsto> LeafPage lf')) l child (lo_of lo ks1) (hi_of ks2 hi)
        \<and> page_list (P(leaf \<mapsto> LeafPage lf')) l child = page_list P l child
        \<and> entries (P(leaf \<mapsto> LeafPage lf')) l child = E1 @ leaf_entries lf' @ E2"
    using leaf unfolding leaf_for_def by blast
  define F1 F2 where F: "F1 = concat (map (entries P l) cs1)" "F2 = concat (map (entries P l) cs2)"
  have sib: "\<forall>e \<in> set F1. fst e < key" "\<forall>e \<in> set F2. key < fst e"
    using siblings_keys [OF ch cs(3) key] unfolding F by blast+
  have pl: "page_list P (Suc l) p = p # concat (map (page_list P l) cs1) @ page_list P l child
      @ concat (map (page_list P l) cs2)"
    using n cs by simp
  have p: "leaf \<noteq> p" using n(1) lf(1) by auto
  have E: "entries P (Suc l) p = (F1 @ E1) @ leaf_entries lf @ (E2 @ F2)"
    using n(1) cs(1) lf(3) by (simp add: F)
  have new: "wf_tree c (P(leaf \<mapsto> LeafPage lf')) (Suc l) p lo hi
        \<and> page_list (P(leaf \<mapsto> LeafPage lf')) (Suc l) p = page_list P (Suc l) p
        \<and> entries (P(leaf \<mapsto> LeafPage lf')) (Suc l) p = (F1 @ E1) @ leaf_entries lf' @ (E2 @ F2)"
    if l': "leaf_ok (lcap c) lf'" "fst ` set (leaf_entries lf') \<subseteq> Set.insert key (fst ` set (leaf_entries lf))" for lf'
  proof -
    define P' where "P' = P(leaf \<mapsto> LeafPage lf')"
    note u = upd [OF l', folded P'_def]
    have R: "wf_tree c P' (Suc l) p lo hi"
      "entries P' (Suc l) p = F1 @ concat (map (entries P' l) [child]) @ F2"
      unfolding F
      by (rule replace_child [OF n(1) ch cs(1,3) dist, of P' n "[child]" "[]" "{}"];
          use n cs u p lf(6) dist in \<open>auto simp: P'_def pl\<close>)+
    have "page_list P' l x = page_list P l x" if "x \<in> set cs1 \<union> set cs2" for x
    proof -
      have "leaf \<notin> set (concat (map (page_list P l) cs1))" "leaf \<notin> set (concat (map (page_list P l) cs2))"
        using dist lf(6) unfolding pl by (auto simp del: set_concat)
      then have "leaf \<notin> set (page_list P l x)" using that by auto
      then show ?thesis by (intro tree_frame [THEN conjunct2, THEN conjunct1]) (auto simp: P'_def)
    qed
    then have "concat (map (page_list P' l) cs1) = concat (map (page_list P l) cs1)"
      "concat (map (page_list P' l) cs2) = concat (map (page_list P l) cs2)"
      by (auto intro!: arg_cong [where f = concat])
    then have "page_list P' (Suc l) p = page_list P (Suc l) p"
      using n(1) p cs(1) u pl by (simp add: P'_def)
    with R u show ?thesis by (simp add: P'_def)
  qed
  have "leaf \<in> set (page_list P (Suc l) p)" using lf(6) by (simp add: pl del: page_list.simps)
  with lf sib E new show ?thesis
    unfolding leaf_for_def
    by (intro exI [of _ lf] exI [of _ "F1 @ E1"] exI [of _ "E2 @ F2"])
       (auto simp del: wf_tree.simps page_list.simps entries.simps)
qed

text \<open>The read-only descent moves one pin from the page it starts at to the leaf.\<close>

lemma descend_read:
  assumes "tt \<noteq> Insert" "wf_tree c (pages t) (Suc l) p lo hi" "distinct (page_list (pages t) (Suc l) p)"
    "above_lo lo key" "below_hi hi key"
  shows "\<exists>par leaf t'. descend c tt key (Suc l) p t = Some (par, leaf, t') \<and> pages t' = pages t
      \<and> root t' = root t \<and> next_page_id t' = next_page_id t
      \<and> pins t' = (\<lambda>q. pins t q - (if q = p then 1 else 0) + (if q = leaf then 1 else 0))
      \<and> par \<in> set (page_list (pages t) (Suc l) p) \<and> par \<noteq> leaf
      \<and> leaf_for c (pages t) (Suc l) p lo hi key leaf"
  using assms
proof (induction l arbitrary: p lo hi t)
  case 0
  obtain n where n: "pages t p = Some (InnerPage n)" "ilevel n = Suc 0" "inner_shape (icap c) n" "icount n < icap c"
      "last_key_harmless hi n"
    and ch: "chain (wf_tree c (pages t) 0) lo (inner_child_vector n) (inner_key_vector n) hi"
    using 0(2) by (elim wf_innerE)
  obtain cs1 child cs2 ks1 ks2 where s: "inner_lookup (icap c) n key = Some child"
    "inner_child_vector n = cs1 @ child # cs2" "inner_key_vector n = ks1 @ ks2" "length ks1 = length cs1"
    "above_lo (lo_of lo ks1) key" "below_hi (hi_of ks2 hi) key"
    and child: "wf_tree c (pages t) 0 child (lo_of lo ks1) (hi_of ks2 hi)"
    using search_splits [OF n(3) ch 0(4,5)] by metis
  obtain lf where lf: "pages t child = Some (LeafPage lf)" using child by (elim wf_leafE)
  have "descend c tt key (Suc 0) p t = Some (p, child, unfix_page p (fix_page child t))"
    using n s(1) lf by (simp add: Let_def)
  moreover have "leaf_for c (pages t) (Suc 0) p lo hi key child"
    by (rule leaf_for_step [OF n ch [unfolded s(2,3)] s(2,3,4) 0(3) s(5,6)
        leaf_for_leaf [OF child s(5,6)]])
  ultimately show ?case using n lf by (auto simp: fun_eq_iff)
next
  case (Suc l)
  obtain n where n: "pages t p = Some (InnerPage n)" "ilevel n = Suc (Suc l)" "inner_shape (icap c) n"
      "icount n < icap c" "last_key_harmless hi n"
    and ch: "chain (wf_tree c (pages t) (Suc l)) lo (inner_child_vector n) (inner_key_vector n) hi"
    using Suc.prems(2) by (elim wf_innerE)
  obtain cs1 child cs2 ks1 ks2 where s: "inner_lookup (icap c) n key = Some child"
    "inner_child_vector n = cs1 @ child # cs2" "inner_key_vector n = ks1 @ ks2" "length ks1 = length cs1"
    "above_lo (lo_of lo ks1) key" "below_hi (hi_of ks2 hi) key"
    and child: "wf_tree c (pages t) (Suc l) child (lo_of lo ks1) (hi_of ks2 hi)"
    using search_splits [OF n(3) ch Suc.prems(4,5)] by metis
  obtain m where m: "pages t child = Some (InnerPage m)" "ilevel m = Suc l" using child by (elim wf_innerE)
  define t1 where "t1 = unfix_page p (fix_page child t)"
  have t1: "pages t1 = pages t" "root t1 = root t" "next_page_id t1 = next_page_id t"
    "pins t1 = (\<lambda>q. pins t q - (if q = p then 1 else 0) + (if q = child then 1 else 0))"
    using m by (auto simp: t1_def fun_eq_iff)
  have pl: "set (page_list (pages t) (Suc l) child) \<subseteq> set (page_list (pages t) (Suc (Suc l)) p)"
    and dist: "distinct (page_list (pages t) (Suc l) child)"
    using Suc.prems(3) n(1) s(2) by (auto simp del: page_list.simps(2) simp add: page_list.simps(2) [of _ "Suc l"])
  have "descend c tt key (Suc (Suc l)) p t = descend c tt key (Suc l) child t1"
    using n s(1) m Suc.prems(1) by (simp add: Let_def t1_def)
  moreover obtain par leaf t' where "descend c tt key (Suc l) child t1 = Some (par, leaf, t')" "pages t' = pages t"
      "root t' = root t" "next_page_id t' = next_page_id t"
      "pins t' = (\<lambda>q. pins t1 q - (if q = child then 1 else 0) + (if q = leaf then 1 else 0))"
      "par \<in> set (page_list (pages t) (Suc l) child)" "par \<noteq> leaf"
    and leaf: "leaf_for c (pages t) (Suc l) child (lo_of lo ks1) (hi_of ks2 hi) key leaf"
    using Suc.IH [of t1 child "lo_of lo ks1" "hi_of ks2 hi"] Suc.prems(1) child dist s(5,6)
    unfolding t1(1,2,3) by blast
  moreover have "leaf_for c (pages t) (Suc (Suc l)) p lo hi key leaf"
    by (rule leaf_for_step [OF n ch [unfolded s(2,3)] s(2,3,4) Suc.prems(3) s(5,6) leaf])
  ultimately show ?case
    using t1(4) pl by (auto simp: fun_eq_iff simp del: page_list.simps)
qed

lemma btree_inv_rootE:
  assumes "btree_inv c t" "root t = Some r"
  obtains pg where "pages t r = Some pg" "wf_tree c (pages t) (page_level pg) r None None"
    "distinct (page_list (pages t) (page_level pg) r)" "btree_entries t = entries (pages t) (page_level pg) r"
    "fresh_above t"
  using assms by (auto simp: btree_inv_def btree_entries_def split: option.splits)

lemma get_leaf_page_read:
  assumes inv: "btree_inv c t" and r: "root t = Some r" "pages t r = Some pg" and tt: "tt \<noteq> Insert"
  shows "\<exists>par leaf t'. get_leaf_page c key tt t = Some (par, leaf, t') \<and> pages t' = pages t
      \<and> root t' = root t \<and> next_page_id t' = next_page_id t
      \<and> pins t' = (pins t)(leaf := pins t leaf + 1) \<and> (par = leaf \<longleftrightarrow> page_level pg = 0)
      \<and> leaf_for c (pages t) (page_level pg) r None None key leaf"
proof -
  have wf: "wf_tree c (pages t) (page_level pg) r None None" "distinct (page_list (pages t) (page_level pg) r)"
    using btree_inv_rootE [OF inv r(1)] r(2) by (metis option.inject)+
  define t1 where "t1 = fix_page r t"
  have t1: "pages t1 = pages t" "root t1 = root t" "next_page_id t1 = next_page_id t"
    "pins t1 = (pins t)(r := pins t r + 1)" using r(2) by (auto simp: t1_def)
  show ?thesis
  proof (cases "page_level pg")
    case 0
    then have "leaf_for c (pages t) 0 r None None key r" using wf by (intro leaf_for_leaf) simp_all
    moreover have "get_leaf_page c key tt t = Some (r, r, if tt = Erase then fix_page r (unfix_page r t1) else t1)"
      using 0 r by (simp add: get_leaf_page_def Let_def t1_def)
    ultimately show ?thesis using 0 t1 r(2) by (auto simp: fun_eq_iff)
  next
    case (Suc l)
    obtain par leaf t' where d: "descend c tt key (Suc l) r t1 = Some (par, leaf, t')" "pages t' = pages t"
      "root t' = root t" "next_page_id t' = next_page_id t" "par \<noteq> leaf"
      "pins t' = (\<lambda>q. pins t1 q - (if q = r then 1 else 0) + (if q = leaf then 1 else 0))"
      "leaf_for c (pages t) (Suc l) r None None key leaf"
      using descend_read [of tt c t1 l r None None key] tt wf t1 Suc by auto
    moreover have "get_leaf_page c key tt t = descend c tt key (Suc l) r t1"
      using Suc r tt t1 by (simp add: get_leaf_page_def Let_def flip: t1_def)
    ultimately show ?thesis using Suc t1(4) by (auto simp: fun_eq_iff)
  qed
qed

lemma btree_lookup_ok:
  assumes inv: "btree_inv c t"
  obtains t' where "btree_lookup c key t = Some (map_of (btree_entries t) key, t')"
    "pages t' = pages t" "root t' = root t" "next_page_id t' = next_page_id t"
proof (cases "root t")
  case None
  then show ?thesis using that [of t] by (simp add: btree_lookup_def btree_entries_def)
next
  case (Some r)
  obtain pg where pg: "pages t r = Some pg" "btree_entries t = entries (pages t) (page_level pg) r"
    using btree_inv_rootE [OF inv Some] by metis
  obtain par leaf t1 where g: "get_leaf_page c key Lookup t = Some (par, leaf, t1)" "pages t1 = pages t"
      "root t1 = root t" "next_page_id t1 = next_page_id t"
    and lf: "leaf_for c (pages t) (page_level pg) r None None key leaf"
    using get_leaf_page_read [OF inv Some pg(1), of Lookup key] by auto
  obtain lf E1 E2 where lf: "pages t leaf = Some (LeafPage lf)" "leaf_ok (lcap c) lf"
      "btree_entries t = E1 @ leaf_entries lf @ E2"
      "\<forall>e \<in> set E1. fst e < key" "\<forall>e \<in> set E2. key < fst e"
    using lf unfolding leaf_for_def pg(2) by blast
  have "map_of (btree_entries t) key = map_of (leaf_entries lf) key"
    unfolding lf(3) by (rule map_of_only_middle) (use lf in auto)
  then show ?thesis
    using that [of "unfix_page leaf (unfix_page par t1)"] g lf Some leaf_lookup_ok [OF lf(2), of key]
    by (simp add: btree_lookup_def Let_def)
qed

lemma btree_erase_ok:
  assumes inv: "btree_inv c t"
  obtains t' where "btree_erase c key t = Some t'" "btree_inv c t'"
    "btree_entries t' = remove_key key (btree_entries t)"
proof (cases "root t")
  case None
  then show ?thesis using that [of t] inv by (simp add: btree_erase_def btree_entries_def remove_key_def)
next
  case (Some r)
  obtain pg where pg: "pages t r = Some pg" "btree_entries t = entries (pages t) (page_level pg) r"
      "distinct (page_list (pages t) (page_level pg) r)" "fresh_above t"
    using btree_inv_rootE [OF inv Some] by metis
  obtain par leaf t1 where g: "get_leaf_page c key Erase t = Some (par, leaf, t1)" "pages t1 = pages t"
      "root t1 = root t" "next_page_id t1 = next_page_id t"
    and lf: "leaf_for c (pages t) (page_level pg) r None None key leaf"
    using get_leaf_page_read [OF inv Some pg(1), of Erase key] by auto
  obtain lf E1 E2 where lf: "pages t leaf = Some (LeafPage lf)" "leaf_ok (lcap c) lf"
      "btree_entries t = E1 @ leaf_entries lf @ E2"
      "\<forall>e \<in> set E1. fst e < key" "\<forall>e \<in> set E2. key < fst e"
    and upd: "\<And>lf'. leaf_ok (lcap c) lf' \<Longrightarrow>
        fst ` set (leaf_entries lf') \<subseteq> Set.insert key (fst ` set (leaf_entries lf)) \<Longrightarrow>
        wf_tree c ((pages t)(leaf \<mapsto> LeafPage lf')) (page_level pg) r None None
        \<and> page_list ((pages t)(leaf \<mapsto> LeafPage lf')) (page_level pg) r = page_list (pages t) (page_level pg) r
        \<and> entries ((pages t)(leaf \<mapsto> LeafPage lf')) (page_level pg) r = E1 @ leaf_entries lf' @ E2"
    using lf unfolding leaf_for_def pg(2) by blast
  obtain lf' where lf': "leaf_erase key lf = Some lf'" "leaf_ok (lcap c) lf'"
    "leaf_entries lf' = remove_key key (leaf_entries lf)"
    using leaf_erase_ok [OF lf(2)] by metis
  define P' where "P' = (pages t)(leaf \<mapsto> LeafPage lf')"
  have "fst ` set (leaf_entries lf') \<subseteq> Set.insert key (fst ` set (leaf_entries lf))"
    by (auto simp: lf'(3) remove_key_def)
  then have u: "wf_tree c P' (page_level pg) r None None" "page_list P' (page_level pg) r = page_list (pages t) (page_level pg) r"
    "entries P' (page_level pg) r = E1 @ leaf_entries lf' @ E2"
    using upd [OF lf'(2)] by (auto simp: P'_def)
  have lvl: "\<exists>pg'. P' r = Some pg' \<and> page_level pg' = page_level pg"
    using wf_level [OF u(1)] by auto
  define t' where "t' = unfix_page leaf (write_leaf leaf lf' (unfix_page par t1))"
  have ev: "btree_erase c key t = Some t'"
    using g lf lf' Some by (simp add: btree_erase_def Let_def t'_def)
  have t': "pages t' = P'" "root t' = Some r" "next_page_id t' = next_page_id t"
    using g Some by (simp_all add: t'_def P'_def)
  have fr: "fresh_above t'"
    using pg(4) fresh_aboveD [OF pg(4) lf(1)] t' by (auto simp: fresh_above_def P'_def)
  have "remove_key key E1 = E1" "remove_key key E2 = E2"
    using lf(4,5) by (auto intro!: remove_key_absent)
  then have "btree_entries t' = remove_key key (btree_entries t)"
    using u(3) lvl t' lf(3) lf'(3) by (auto simp: btree_entries_def)
  moreover have "btree_inv c t'"
    using u lvl t' fr pg(3) by (auto simp: btree_inv_def)
  ultimately show ?thesis using that ev by blast
qed

end
