(* ===== verification/BTree_Insert.thy ===== *)
theory BTree_Insert
  imports BTree_Correct
begin

text \<open>
  Insertion into the B+ tree. The code splits full inner nodes on its way down, so that the
  parent of a leaf always has room for the separator of a split leaf. The proof follows the
  descent: \<open>grown\<close> says what the rest of an insertion does to the subtree at the page it
  has reached, and \<open>replace_child\<close> carries it to the page above.
\<close>

definition grown :: "caps \<Rightarrow> ('k::linorder, 'v) btree \<Rightarrow> ('k, 'v) btree \<Rightarrow> nat \<Rightarrow> page_id
    \<Rightarrow> 'k option \<Rightarrow> 'k option \<Rightarrow> ('k \<times> 'v) list \<Rightarrow> bool" where
  "grown c t t' l p lo hi es \<longleftrightarrow>
     wf_tree c (pages t') l p lo hi \<and> distinct (page_list (pages t') l p) \<and> entries (pages t') l p = es
     \<and> set (page_list (pages t') l p) \<subseteq> set (page_list (pages t) l p) \<union> {next_page_id t..<next_page_id t'}
     \<and> next_page_id t \<le> next_page_id t' \<and> root t' = root t \<and> fresh_above t'
     \<and> (\<forall>q < next_page_id t. q \<notin> set (page_list (pages t) l p) \<longrightarrow> pages t' q = pages t q)"

lemma page_list_bound:
  assumes "wf_tree c (pages t) l p lo hi" "fresh_above t" "q \<in> set (page_list (pages t) l p)"
  shows "q < next_page_id t"
  using wf_pages [OF assms(1,3)] fresh_aboveD [OF assms(2)] by blast

lemma split_inner_page_ok:
  assumes caps: "caps_ok c" and wf: "wf_tree c (pages t) (Suc l) p lo hi"
    and dist: "distinct (page_list (pages t) (Suc l) p)"
    and n: "pages t p = Some (InnerPage n)" "icap c - 1 \<le> icount n" and fresh: "fresh_above t"
  obtains sep t' n1 n2 where "split_inner_page c p t = Some (sep, next_page_id t, t')"
    "root t' = root t" "next_page_id t' = Suc (next_page_id t)" "fresh_above t'"
    "pages t' = (pages t)(next_page_id t \<mapsto> InnerPage n2, p \<mapsto> InnerPage n1)" "p \<noteq> next_page_id t"
    "icount n1 < icap c - 1" "icount n2 < icap c - 1"
    "wf_tree c (pages t') (Suc l) p lo (Some sep)" "wf_tree c (pages t') (Suc l) (next_page_id t) (Some sep) hi"
    "above_lo lo sep" "below_strict hi sep"
    "distinct (page_list (pages t') (Suc l) p @ page_list (pages t') (Suc l) (next_page_id t))"
    "set (page_list (pages t') (Suc l) p @ page_list (pages t') (Suc l) (next_page_id t))
       \<subseteq> set (page_list (pages t) (Suc l) p) \<union> {next_page_id t}"
    "entries (pages t) (Suc l) p = entries (pages t') (Suc l) p @ entries (pages t') (Suc l) (next_page_id t)"
proof -
  define new where "new = next_page_id t"
  have nl: "ilevel n = Suc l" "inner_shape (icap c) n" "icount n < icap c" "last_key_harmless hi n"
    and ch: "chain (wf_tree c (pages t) l) lo (inner_child_vector n) (inner_key_vector n) hi"
    using wf n(1) by simp_all
  obtain t1 where t1: "new_page t = (new, t1)" "root t1 = root t" "next_page_id t1 = Suc new"
      "pages t1 = (pages t)(new \<mapsto> Fresh)" "fresh_above t1"
    using new_page_fresh [OF fresh] unfolding new_def by metis
  have pn: "p < new" "p \<noteq> new" using fresh_aboveD [OF fresh n(1)] by (auto simp: new_def)
  define b where "b = \<lparr>ilevel = Suc l, icount = 0, ichildren = replicate (icap c) (0::nat),
                        ikeys = replicate (icap c) (0::'a)\<rparr>"
  have cnt: "icount n = icap c - 1" and cap: "5 \<le> icap c" using n(2) nl(3) caps by (auto simp: caps_ok_def)
  have blen: "length (ikeys b) = icap c" "length (ichildren b) = icap c" by (simp_all add: b_def)
  obtain sep n1 n2 cs1 cs2 ks1 ks2 where s: "inner_split (icap c) n b = Some (sep, n1, n2)"
    "inner_shape (icap c) n1" "inner_shape (icap c) n2" "icount n1 < icap c - 1" "icount n2 < icap c - 1"
    "ilevel n1 = ilevel n" "ilevel n2 = ilevel b"
    "inner_child_vector n1 = cs1" "inner_child_vector n2 = cs2" "inner_child_vector n = cs1 @ cs2"
    "inner_key_vector n1 = ks1" "inner_key_vector n2 = ks2" "inner_key_vector n = ks1 @ sep # ks2"
    "length cs1 = Suc (length ks1)" "length cs2 = Suc (length ks2)" "ks2 \<noteq> []"
    "last_key_harmless (Some sep) n1" "last_key_harmless hi n2"
    using inner_split_ok [OF nl(2) cnt cap nl(4) blen] by metis
  define t' where "t' = write_inner new n2 (write_inner p n1 t1)"
  have ev: "split_inner_page c p t = Some (sep, new, t')"
    using n(1) t1 s(1,4,5) nl(1) by (simp add: split_inner_page_def t'_def b_def)
  have t': "root t' = root t" "next_page_id t' = Suc new"
    "pages t' = (pages t)(new \<mapsto> InnerPage n2, p \<mapsto> InnerPage n1)"
    using t1 pn by (auto simp: t'_def fun_eq_iff)
  have fr': "fresh_above t'"
    using t1(5) t1(3) t1(4) pn by (auto simp: fresh_above_def t')
  define A B where AB: "A = concat (map (page_list (pages t) l) cs1)" "B = concat (map (page_list (pages t) l) cs2)"
  have pl: "page_list (pages t) (Suc l) p = p # A @ B" using n(1) s(10) by (simp add: AB)
  have newpl: "new \<notin> set (p # A @ B)"
    using page_list_bound [OF wf fresh] unfolding pl new_def by blast
  have frame: "wf_tree c (pages t') l x = wf_tree c (pages t) l x \<and> page_list (pages t') l x = page_list (pages t) l x
      \<and> entries (pages t') l x = entries (pages t) l x" if "x \<in> set cs1 \<union> set cs2" for x
  proof (rule tree_frame)
    fix q assume "q \<in> set (page_list (pages t) l x)"
    then have "q \<in> set A \<union> set B" using that by (auto simp: AB)
    then show "pages t' q = pages t q" using newpl dist unfolding pl by (auto simp: t')
  qed
  have keep: "concat (map (page_list (pages t') l) cs1) = A" "concat (map (page_list (pages t') l) cs2) = B"
    "concat (map (entries (pages t') l) cs1) = concat (map (entries (pages t) l) cs1)"
    "concat (map (entries (pages t') l) cs2) = concat (map (entries (pages t) l) cs2)"
    using frame by (auto simp: AB intro!: arg_cong [where f = concat])
  note halves = chain_split [OF ch [unfolded s(10,13)] s(14)]
  have half': "chain (wf_tree c (pages t') l) lo cs1 ks1 (Some sep)" "chain (wf_tree c (pages t') l) (Some sep) cs2 ks2 hi"
    using halves(1,2) frame chain_cong [of cs1 "wf_tree c (pages t') l" "wf_tree c (pages t) l"]
      chain_cong [of cs2 "wf_tree c (pages t') l" "wf_tree c (pages t) l"] by auto
  have sep_hi: "below_strict hi sep"
  proof -
    obtain k where k: "k \<in> set ks2" using s(16) by (meson list.set_sel(1))
    then have "sep < k" using chain_sorted [OF ch] s(13) by (simp add: sorted_wrt_append)
    moreover have "below_hi hi k" using chain_keys [OF ch, of k] k s(13) by simp
    ultimately show ?thesis using below_strict_trans by blast
  qed
  have pl': "page_list (pages t') (Suc l) p = p # A" "page_list (pages t') (Suc l) new = new # B"
    using t'(3) s(8,9) keep pn by simp_all
  show ?thesis
  proof (rule that [folded new_def, OF ev t'(1,2) fr' t'(3) pn(2) s(4,5) _ _ halves(3) sep_hi])
    show "wf_tree c (pages t') (Suc l) p lo (Some sep)"
      using t'(3) s(2,4,6,8,11,17) nl(1) half'(1) by simp
    show "wf_tree c (pages t') (Suc l) new (Some sep) hi"
      using t'(3) s(3,5,7,9,12,18) half'(2) pn by (simp add: b_def)
    show "distinct (page_list (pages t') (Suc l) p @ page_list (pages t') (Suc l) new)"
      using dist newpl unfolding pl pl' by auto
    show "set (page_list (pages t') (Suc l) p @ page_list (pages t') (Suc l) new)
       \<subseteq> set (page_list (pages t) (Suc l) p) \<union> {new}"
      unfolding pl pl' by auto
    show "entries (pages t) (Suc l) p = entries (pages t') (Suc l) p @ entries (pages t') (Suc l) new"
      using n(1) t'(3) s(8,9,10) keep(3,4) pn by simp
  qed
qed

declare wf_tree.simps(2) [simp del] page_list.simps(2) [simp del] entries.simps(2) [simp del]

lemma sep_position:
  assumes ch: "chain Q lo cs (ks1 @ ks2) hi"
    and s: "above_lo (lo_of lo ks1) s" "below_strict (hi_of ks2 hi) s"
  shows "k \<in> set ks1 \<Longrightarrow> k < s" "k \<in> set ks2 \<Longrightarrow> s < k" "below_strict hi s"
proof -
  have srt: "sorted_wrt (<) ks1" "sorted_wrt (<) ks2"
    using chain_sorted [OF ch] by (simp_all add: sorted_wrt_append)
  show "k < s" if "k \<in> set ks1"
    using srt(1) s(1) that by (cases ks1 rule: rev_cases) (auto simp: lo_of_def sorted_wrt_append dest: less_trans)
  show "s < k" if "k \<in> set ks2"
    using srt(2) s(2) that by (cases ks2) (auto dest: less_trans)
  show "below_strict hi s"
  proof (cases ks2)
    case (Cons k ks)
    then show ?thesis using chain_keys [OF ch, of k] s(2) by (auto intro: below_strict_trans)
  qed (use s in simp)
qed

lemma grown_refl:
  "wf_tree c (pages t) l p lo hi \<Longrightarrow> distinct (page_list (pages t) l p) \<Longrightarrow> fresh_above t
    \<Longrightarrow> grown c t t l p lo hi (entries (pages t) l p)"
  by (simp add: grown_def)

lemma grown_pins:
  "pages t'' = pages t' \<Longrightarrow> root t'' = root t' \<Longrightarrow> next_page_id t'' = next_page_id t'
    \<Longrightarrow> grown c t t'' l p lo hi es = grown c t t' l p lo hi es"
  by (simp add: grown_def fresh_above_def)

lemma make_child_safe_ok:
  assumes caps: "caps_ok c" and fresh: "fresh_above t"
    and wf: "wf_tree c (pages t) (Suc (Suc l)) p lo hi" and dist: "distinct (page_list (pages t) (Suc (Suc l)) p)"
    and n: "pages t p = Some (InnerPage n)" "icount n < icap c - 1"
    and cs: "inner_child_vector n = cs1 @ child # cs2" "inner_key_vector n = ks1 @ ks2" "length ks1 = length cs1"
    and key: "above_lo (lo_of lo ks1) key" "below_hi (hi_of ks2 hi) key"
  shows "\<exists>child' t' m' n' cs1' cs2' ks1' ks2'.
    make_child_safe c key p child t = Some (child', t')
    \<and> grown c t t' (Suc (Suc l)) p lo hi (entries (pages t) (Suc (Suc l)) p)
    \<and> pages t' child' = Some (InnerPage m') \<and> icount m' < icap c - 1 \<and> pages t' p = Some (InnerPage n')
    \<and> inner_child_vector n' = cs1' @ child' # cs2' \<and> inner_key_vector n' = ks1' @ ks2' \<and> length ks1' = length cs1'
    \<and> above_lo (lo_of lo ks1') key \<and> below_hi (hi_of ks2' hi) key"
proof -
  have nl: "ilevel n = Suc (Suc l)" "inner_shape (icap c) n" "icount n < icap c" "last_key_harmless hi n"
    and ch: "chain (wf_tree c (pages t) (Suc l)) lo (cs1 @ child # cs2) (ks1 @ ks2) hi"
    using wf n(1) cs by (simp_all add: wf_tree.simps(2) [of _ _ "Suc l"])
  have child: "wf_tree c (pages t) (Suc l) child (lo_of lo ks1) (hi_of ks2 hi)"
    by (rule chain_focus [OF ch cs(3)])
  obtain m where m: "pages t child = Some (InnerPage m)" using child by (elim wf_innerE)
  define A B where AB: "A = concat (map (page_list (pages t) (Suc l)) cs1)" "B = concat (map (page_list (pages t) (Suc l)) cs2)"
  have pl: "page_list (pages t) (Suc (Suc l)) p = p # A @ page_list (pages t) (Suc l) child @ B"
    using n(1) cs(1) unfolding AB page_list.simps(2) [of _ "Suc l"] by simp
  have dc: "distinct (page_list (pages t) (Suc l) child)" and pc: "p \<notin> set (page_list (pages t) (Suc l) child)"
    using dist unfolding pl by auto
  show ?thesis
  proof (cases "icap c - 1 \<le> icount m")
    case False
    then have "make_child_safe c key p child t = Some (child, t)" using m by (simp add: make_child_safe_def)
    moreover have "icount m < icap c - 1" using False by simp
    ultimately show ?thesis
      using grown_refl [OF wf dist fresh] m n(1) cs key by blast
  next
    case True
    obtain sep t1 n1 n2 where s: "split_inner_page c child t = Some (sep, next_page_id t, t1)"
      "root t1 = root t" "next_page_id t1 = Suc (next_page_id t)" "fresh_above t1"
      "pages t1 = (pages t)(next_page_id t \<mapsto> InnerPage n2, child \<mapsto> InnerPage n1)" "child \<noteq> next_page_id t"
      "icount n1 < icap c - 1" "icount n2 < icap c - 1"
      "wf_tree c (pages t1) (Suc l) child (lo_of lo ks1) (Some sep)"
      "wf_tree c (pages t1) (Suc l) (next_page_id t) (Some sep) (hi_of ks2 hi)"
      "above_lo (lo_of lo ks1) sep" "below_strict (hi_of ks2 hi) sep"
      "distinct (page_list (pages t1) (Suc l) child @ page_list (pages t1) (Suc l) (next_page_id t))"
      "set (page_list (pages t1) (Suc l) child @ page_list (pages t1) (Suc l) (next_page_id t))
         \<subseteq> set (page_list (pages t) (Suc l) child) \<union> {next_page_id t}"
      "entries (pages t) (Suc l) child
        = entries (pages t1) (Suc l) child @ entries (pages t1) (Suc l) (next_page_id t)"
      by (rule split_inner_page_ok [OF caps child dc m True fresh])
    define new where "new = next_page_id t"
    note s = s [folded new_def]
    note pos = sep_position [OF ch s(11,12)]
    have pnew: "p \<noteq> new" "p \<noteq> child" "p < new"
      using fresh_aboveD [OF fresh n(1)] pc by (auto simp: new_def)
    have p1: "pages t1 p = Some (InnerPage n)" using n(1) pnew s(5) by simp
    obtain n' where n': "inner_insert (icap c) sep child new n = Some n'" "inner_shape (icap c) n'"
      "icount n' = Suc (icount n)" "ilevel n' = ilevel n"
      "inner_child_vector n' = cs1 @ child # new # cs2" "inner_key_vector n' = ks1 @ sep # ks2"
      "last_key_harmless hi n'"
      by (rule inner_insert_ok [OF nl(2) n(2) nl(4) pos(3) cs(1,2,3) pos(1,2)]) blast+
    define t2 where "t2 = write_inner p n' t1"
    define t' where "t' = (if sep < key then unfix_page child t2 else unfix_page new t2)"
    have ev: "make_child_safe c key p child t = Some (if sep < key then new else child, t')"
      using m True s(1) p1 n' n(2) nl(2)
      by (simp add: make_child_safe_def t'_def t2_def inner_shape_def)
    have t': "root t' = root t" "next_page_id t' = Suc new" "pages t' = (pages t1)(p \<mapsto> InnerPage n')"
      by (simp_all add: t'_def t2_def s)
    have fr': "fresh_above t'" using s(3,4) pnew by (auto simp: fresh_above_def t')
    have cn: "new \<notin> set (page_list (pages t) (Suc (Suc l)) p)"
      using page_list_bound [OF wf fresh] unfolding new_def by blast
    have frame: "wf_tree c (pages t') (Suc l) x = wf_tree c (pages t1) (Suc l) x
        \<and> page_list (pages t') (Suc l) x = page_list (pages t1) (Suc l) x
        \<and> entries (pages t') (Suc l) x = entries (pages t1) (Suc l) x" if "x \<in> {child, new}" for x
    proof (rule tree_frame)
      fix q assume "q \<in> set (page_list (pages t1) (Suc l) x)"
      then have "q \<in> set (page_list (pages t) (Suc l) child) \<union> {new}" using that s(14) by auto
      then have "q \<noteq> p" using pc pnew by auto
      then show "pages t' q = pages t1 q" by (simp add: t')
    qed
    have mid: "chain (wf_tree c (pages t') (Suc l)) (lo_of lo ks1) [child, new] [sep] (hi_of ks2 hi)"
      using s(9,10,11) below_strictD [OF s(12)] frame by simp
    have pm: "distinct (concat (map (page_list (pages t') (Suc l)) [child, new]))"
      "set (concat (map (page_list (pages t') (Suc l)) [child, new])) \<subseteq> set (page_list (pages t) (Suc l) child) \<union> {new}"
      using s(13,14) frame by simp_all
    have R: "wf_tree c (pages t') (Suc (Suc l)) p lo hi" "distinct (page_list (pages t') (Suc (Suc l)) p)"
      "set (page_list (pages t') (Suc (Suc l)) p) \<subseteq> set (page_list (pages t) (Suc (Suc l)) p) \<union> {new}"
      "entries (pages t') (Suc (Suc l)) p = concat (map (entries (pages t) (Suc l)) cs1)
         @ concat (map (entries (pages t') (Suc l)) [child, new]) @ concat (map (entries (pages t) (Suc l)) cs2)"
      by (rule replace_child [OF n(1) ch cs(1,3) dist _ _ n'(2) _ n'(7) _ _ _ mid _ pm];
          use n' nl(1) n(2) cn pnew s(5,12) in \<open>auto simp: t'\<close>)+
    have E: "entries (pages t) (Suc (Suc l)) p = concat (map (entries (pages t) (Suc l)) cs1)
         @ entries (pages t) (Suc l) child @ concat (map (entries (pages t) (Suc l)) cs2)"
      using n(1) cs(1) unfolding entries.simps(2) [of _ "Suc l"] by simp
    have E': "entries (pages t') (Suc (Suc l)) p = entries (pages t) (Suc (Suc l)) p"
      using R(4) E s(15) frame by simp
    have unch: "pages t' q = pages t q" if "q < new" "q \<notin> set (page_list (pages t) (Suc (Suc l)) p)" for q
    proof -
      have "q \<noteq> p" "q \<noteq> child" using that unfolding pl by (auto)
      then show ?thesis using that s(5) by (simp add: t')
    qed
    have "grown c t t' (Suc (Suc l)) p lo hi (entries (pages t) (Suc (Suc l)) p)"
      unfolding grown_def using R E' fr' t' unch
      by (simp flip: new_def)
    moreover have "pages t' p = Some (InnerPage n')" by (simp add: t')
    moreover have "pages t' new = Some (InnerPage n2)" "pages t' child = Some (InnerPage n1)"
      using pnew s(5,6) by (simp_all add: t')
    moreover have "above_lo (lo_of lo (ks1 @ [sep])) key" if "sep < key" using that by (simp add: lo_of_def)
    moreover have "below_hi (hi_of (sep # ks2) hi) key" if "\<not> sep < key" using that by simp
    ultimately show ?thesis
      using ev n'(5,6) cs(3) key s(7,8)
      by (cases "sep < key") (fastforce intro: exI [of _ "cs1 @ [child]"] exI [of _ "ks1 @ [sep]"])+
  qed
qed

lemma leaf_split_insert:
  fixes lf :: "('k::{linorder, zero}, 'v::zero) leaf"
  assumes caps: "caps_ok c" and lf: "leaf_ok (lcap c) lf" "lcount lf = lcap c"
    and b: "b = \<lparr>lcount = 0, lkeys = replicate (lcap c) 0, lvals = replicate (lcap c) 0\<rparr>"
  obtains sep l r l' r' where "leaf_split (lcap c) lf b = Some (sep, l, r)"
    "lcount l < lcap c" "lcount r < lcap c" "leaf_ok (lcap c) l'" "leaf_ok (lcap c) r'"
    "sep < key \<Longrightarrow> leaf_insert (lcap c) key v r = Some r' \<and> l' = l"
    "\<not> sep < key \<Longrightarrow> leaf_insert (lcap c) key v l = Some l' \<and> r' = r"
    "leaf_entries l' @ leaf_entries r' = upsert key v (leaf_entries lf)"
    "\<And>e. e \<in> set (leaf_entries l') \<Longrightarrow> fst e \<le> sep" "\<And>e. e \<in> set (leaf_entries r') \<Longrightarrow> sep < fst e"
    "sep \<in> fst ` set (leaf_entries lf)" "\<exists>e \<in> set (leaf_entries lf). sep < fst e"
proof -
  have cap: "3 \<le> lcap c" "length (lkeys b) = lcap c" "length (lvals b) = lcap c"
    using caps by (simp_all add: caps_ok_def b)
  obtain sep l r where s: "leaf_split (lcap c) lf b = Some (sep, l, r)" "leaf_ok (lcap c) l" "leaf_ok (lcap c) r"
    "lcount l < lcap c" "lcount r < lcap c" "leaf_entries lf = leaf_entries l @ leaf_entries r"
    "\<And>e. e \<in> set (leaf_entries l) \<Longrightarrow> fst e \<le> sep" "\<And>e. e \<in> set (leaf_entries r) \<Longrightarrow> sep < fst e"
    "sep \<in> fst ` set (leaf_entries l)" "leaf_entries r \<noteq> []"
    using leaf_split_ok [OF lf cap] by blast
  have sep: "sep \<in> fst ` set (leaf_entries lf)" "\<exists>e \<in> set (leaf_entries lf). sep < fst e"
    using s(6,9) s(8) [of "hd (leaf_entries r)"] s(10) by auto
  note keys = set_upsert_keys [OF leaf_sorted, of "lcap c" _ key v]
  show ?thesis
  proof (cases "sep < key")
    case True
    obtain r' where r': "leaf_insert (lcap c) key v r = Some r'" "leaf_ok (lcap c) r'"
      "leaf_entries r' = upsert key v (leaf_entries r)"
      using leaf_insert_ok [OF s(3)] s(5) by (metis less_irrefl)
    have "sep < fst e" if "e \<in> set (leaf_entries r')" for e
    proof -
      have "fst e \<in> Set.insert key (fst ` set (leaf_entries r))"
        using that keys [OF s(3)] r'(3) by (metis imageI)
      then show ?thesis using True s(8) by auto
    qed
    moreover have "upsert key v (leaf_entries lf) = leaf_entries l @ leaf_entries r'"
      using upsert_append [of "leaf_entries l" key "[]" v "leaf_entries r"] True s(6,7) r'(3)
      by (auto dest: le_less_trans)
    ultimately show ?thesis
      using that [OF s(1,4,5,2) r'(2)] r'(1) True s(7) sep by simp
  next
    case False
    obtain l' where l': "leaf_insert (lcap c) key v l = Some l'" "leaf_ok (lcap c) l'"
      "leaf_entries l' = upsert key v (leaf_entries l)"
      using leaf_insert_ok [OF s(2)] s(4) by (metis less_irrefl)
    have "fst e \<le> sep" if "e \<in> set (leaf_entries l')" for e
    proof -
      have "fst e \<in> Set.insert key (fst ` set (leaf_entries l))"
        using that keys [OF s(2)] l'(3) by (metis imageI)
      then show ?thesis using False s(7) by auto
    qed
    moreover have "upsert key v (leaf_entries lf) = leaf_entries l' @ leaf_entries r"
      using upsert_append [of "[]" key "leaf_entries r" v "leaf_entries l"] False s(6,8) l'(3)
      by (auto simp: not_less dest: le_less_trans)
    ultimately show ?thesis
      using that [OF s(1,4,5) l'(2) s(3)] l'(1) False s(8) sep by simp
  qed
qed

lemma insert_leaf_ok:
  fixes t :: "('k::{linorder, zero}, 'v::zero) btree"
  assumes caps: "caps_ok c" and fresh: "fresh_above t"
    and wf: "wf_tree c (pages t) (Suc 0) p lo hi" and dist: "distinct (page_list (pages t) (Suc 0) p)"
    and n: "pages t p = Some (InnerPage n)" "icount n < icap c - 1"
    and cs: "inner_child_vector n = cs1 @ child # cs2" "inner_key_vector n = ks1 @ ks2" "length ks1 = length cs1"
    and key: "above_lo (lo_of lo ks1) key" "below_hi (hi_of ks2 hi) key"
  shows "\<exists>t'. insert_leaf c key v p child t = Some t'
    \<and> grown c t t' (Suc 0) p lo hi (upsert key v (entries (pages t) (Suc 0) p))"
proof -
  have nl: "ilevel n = Suc 0" "inner_shape (icap c) n" "icount n < icap c" "last_key_harmless hi n"
    and ch: "chain (wf_tree c (pages t) 0) lo (cs1 @ child # cs2) (ks1 @ ks2) hi"
    using wf n(1) cs by (simp_all add: wf_tree.simps(2))
  have child: "wf_tree c (pages t) 0 child (lo_of lo ks1) (hi_of ks2 hi)"
    by (rule chain_focus [OF ch cs(3)])
  obtain lf where lf: "pages t child = Some (LeafPage lf)" "leaf_ok (lcap c) lf"
    "\<And>e. e \<in> set (leaf_entries lf) \<Longrightarrow> above_lo (lo_of lo ks1) (fst e) \<and> below_hi (hi_of ks2 hi) (fst e)"
    using wf_leafE [OF child] by blast
  have pl: "page_list (pages t) (Suc 0) p = p # concat (map (page_list (pages t) 0) cs1) @ child
      # concat (map (page_list (pages t) 0) cs2)"
    using n(1) cs(1) by (simp add: page_list.simps(2))
  have pc: "p \<noteq> child" "child \<in> set (page_list (pages t) (Suc 0) p)"
    using dist unfolding pl by auto
  have E: "entries (pages t) (Suc 0) p = concat (map (entries (pages t) 0) cs1)
         @ leaf_entries lf @ concat (map (entries (pages t) 0) cs2)"
    using n(1) cs(1) lf(1) by (simp add: entries.simps(2))
  note sib = siblings_keys [OF ch cs(3) key]
  show ?thesis
  proof (cases "lcount lf = lcap c")
    case False
    have "leaf_for c (pages t) (Suc 0) p lo hi key child"
      by (rule leaf_for_step [OF n(1) nl ch cs dist key leaf_for_leaf [OF child key]])
    then obtain E1 E2 where e: "entries (pages t) (Suc 0) p = E1 @ leaf_entries lf @ E2"
        "\<forall>e \<in> set E1. fst e < key" "\<forall>e \<in> set E2. key < fst e"
      and upd: "\<And>lf'. leaf_ok (lcap c) lf' \<Longrightarrow>
        fst ` set (leaf_entries lf') \<subseteq> Set.insert key (fst ` set (leaf_entries lf)) \<Longrightarrow>
        wf_tree c ((pages t)(child \<mapsto> LeafPage lf')) (Suc 0) p lo hi
        \<and> page_list ((pages t)(child \<mapsto> LeafPage lf')) (Suc 0) p = page_list (pages t) (Suc 0) p
        \<and> entries ((pages t)(child \<mapsto> LeafPage lf')) (Suc 0) p = E1 @ leaf_entries lf' @ E2"
      using lf(1) unfolding leaf_for_def by (metis option.inject page.inject(1))
    obtain lf' where lf': "leaf_insert (lcap c) key v lf = Some lf'" "leaf_ok (lcap c) lf'"
      "leaf_entries lf' = upsert key v (leaf_entries lf)"
      using leaf_insert_ok [OF lf(2) False] by metis
    define t' where "t' = unfix_page child (write_leaf child lf' (unfix_page p t))"
    have "insert_leaf c key v p child t = Some t'"
      using lf(1) False lf'(1) pc by (simp add: insert_leaf_def t'_def)
    moreover have t': "pages t' = (pages t)(child \<mapsto> LeafPage lf')" "root t' = root t"
      "next_page_id t' = next_page_id t" by (simp_all add: t'_def)
    moreover have "fresh_above t'"
      using fresh fresh_aboveD [OF fresh lf(1)] t' by (auto simp: fresh_above_def)
    moreover have "upsert key v (E1 @ leaf_entries lf @ E2) = E1 @ leaf_entries lf' @ E2"
      using e(2,3) by (simp add: lf'(3) upsert_append)
    moreover have "fst ` set (leaf_entries lf') \<subseteq> Set.insert key (fst ` set (leaf_entries lf))"
      using set_upsert_keys [OF leaf_sorted [OF lf(2)], of key v] lf'(3) by simp
    ultimately show ?thesis
      using upd [OF lf'(2)] e(1) dist pc(2) by (auto simp: grown_def)
  next
    case True
    define new where "new = next_page_id t"
    obtain t1 where t1: "new_page t = (new, t1)" "root t1 = root t" "next_page_id t1 = Suc new"
        "pages t1 = (pages t)(new \<mapsto> Fresh)" "fresh_above t1"
      using new_page_fresh [OF fresh] unfolding new_def by metis
    have ne: "p \<noteq> new" "child \<noteq> new" "p < new" "child < new"
      using fresh_aboveD [OF fresh n(1)] fresh_aboveD [OF fresh lf(1)] by (auto simp: new_def)
    obtain sep l r l' r' where s: "leaf_split (lcap c) lf \<lparr>lcount = 0, lkeys = replicate (lcap c) 0, lvals = replicate (lcap c) 0\<rparr> = Some (sep, l, r)"
      "lcount l < lcap c" "lcount r < lcap c" "leaf_ok (lcap c) l'" "leaf_ok (lcap c) r'"
      "sep < key \<Longrightarrow> leaf_insert (lcap c) key v r = Some r' \<and> l' = l"
      "\<not> sep < key \<Longrightarrow> leaf_insert (lcap c) key v l = Some l' \<and> r' = r"
      "leaf_entries l' @ leaf_entries r' = upsert key v (leaf_entries lf)"
      "\<And>e. e \<in> set (leaf_entries l') \<Longrightarrow> fst e \<le> sep" "\<And>e. e \<in> set (leaf_entries r') \<Longrightarrow> sep < fst e"
      "sep \<in> fst ` set (leaf_entries lf)" "\<exists>e \<in> set (leaf_entries lf). sep < fst e"
      by (rule leaf_split_insert [OF caps lf(2) True refl, of key v]) blast
    have sepb: "above_lo (lo_of lo ks1) sep" "below_strict (hi_of ks2 hi) sep"
      using s(11,12) lf(3) below_strict_trans by (blast, blast)
    note pos = sep_position [OF ch sepb]
    obtain n' where n': "inner_insert (icap c) sep child new n = Some n'" "inner_shape (icap c) n'"
      "icount n' = Suc (icount n)" "ilevel n' = ilevel n"
      "inner_child_vector n' = cs1 @ child # new # cs2" "inner_key_vector n' = ks1 @ sep # ks2"
      "last_key_harmless hi n'"
      by (rule inner_insert_ok [OF nl(2) n(2) nl(4) pos(3) cs(1,2,3) pos(1,2)]) blast+
    define P' where "P' = (pages t)(child \<mapsto> LeafPage l', new \<mapsto> LeafPage r', p \<mapsto> InnerPage n')"
    have cnt: "2 \<le> icount n" using nl(2) by (simp add: inner_shape_def)
    have "\<exists>t'. insert_leaf c key v p child t = Some t' \<and> pages t' = P' \<and> root t' = root t \<and> next_page_id t' = Suc new"
      using lf(1) True t1 s(1,2,3) s(6,7) n(1) n'(1) nl(1) ne pc(1) cnt
      by (cases "sep < key") (auto simp: insert_leaf_def Let_def P'_def fun_eq_iff)
    then obtain t' where t': "insert_leaf c key v p child t = Some t'" "pages t' = P'" "root t' = root t"
      "next_page_id t' = Suc new" by blast
    have fr': "fresh_above t'"
      using fresh ne t' unfolding fresh_above_def by (auto simp: P'_def new_def less_Suc_eq)
    have P': "P' child = Some (LeafPage l')" "P' new = Some (LeafPage r')" "P' p = Some (InnerPage n')"
      using ne pc by (simp_all add: P'_def)
    have bl: "above_lo (lo_of lo ks1) (fst e) \<and> below_hi (hi_of ks2 hi) (fst e)"
      if "e \<in> set (leaf_entries l') \<union> set (leaf_entries r')" for e
    proof -
      have "e \<in> set (upsert key v (leaf_entries lf))" using that s(8) [symmetric] by simp
      then have "fst e \<in> Set.insert key (fst ` set (leaf_entries lf))"
        using set_upsert_keys [OF leaf_sorted [OF lf(2)], of key v] by blast
      then show ?thesis using key lf(3) by auto
    qed
    have mid: "chain (wf_tree c P' 0) (lo_of lo ks1) [child, new] [sep] (hi_of ks2 hi)"
      using P' s(4,5) s(9,10) bl sepb(1) below_strictD [OF sepb(2)] by (simp add: list_all_iff)
    have cn: "new \<notin> set (page_list (pages t) (Suc 0) p)"
      using page_list_bound [OF wf fresh] unfolding new_def by blast
    have R: "wf_tree c P' (Suc 0) p lo hi" "distinct (page_list P' (Suc 0) p)"
      "set (page_list P' (Suc 0) p) \<subseteq> set (page_list (pages t) (Suc 0) p) \<union> {new}"
      "entries P' (Suc 0) p = concat (map (entries (pages t) 0) cs1)
         @ concat (map (entries P' 0) [child, new]) @ concat (map (entries (pages t) 0) cs2)"
      by (rule replace_child [where N = "{new}", OF n(1) ch cs(1,3) dist P'(3) _ n'(2) _ n'(7) _ _ _ mid];
          use n' nl(1) n(2) cn ne sepb in \<open>auto simp: P'_def\<close>)+
    have E': "entries P' (Suc 0) p = upsert key v (entries (pages t) (Suc 0) p)"
      unfolding E by (subst upsert_append [OF sib]) (use R(4) P' s(8) in auto)
    have "grown c t t' (Suc 0) p lo hi (upsert key v (entries (pages t) (Suc 0) p))"
      unfolding grown_def
      using R E' fr' t' pc ne by (auto simp: P'_def simp flip: new_def)
    then show ?thesis using t'(1) by blast
  qed
qed

lemma grown_same_left:
  "pages t1 = pages t \<Longrightarrow> root t1 = root t \<Longrightarrow> next_page_id t1 = next_page_id t
    \<Longrightarrow> grown c t1 t' l p lo hi es = grown c t t' l p lo hi es"
  by (simp add: grown_def)

lemma grown_trans:
  assumes a: "grown c t t1 l p lo hi es1" and b: "grown c t1 t' l p lo hi es"
  shows "grown c t t' l p lo hi es"
proof -
  have "pages t' q = pages t q" if "q < next_page_id t" "q \<notin> set (page_list (pages t) l p)" for q
  proof -
    have "q \<notin> set (page_list (pages t1) l p)" "q < next_page_id t1" "pages t1 q = pages t q"
      using a that unfolding grown_def by auto
    then show ?thesis using b unfolding grown_def by simp
  qed
  moreover have "set (page_list (pages t') l p)
      \<subseteq> set (page_list (pages t) l p) \<union> {next_page_id t..<next_page_id t'}"
    using a b unfolding grown_def by force
  ultimately show ?thesis using a b by (simp add: grown_def)
qed

text \<open>What happens to a child happens to the node.\<close>

lemma grown_child:
  assumes fresh: "fresh_above t" and wf: "wf_tree c (pages t) (Suc l) p lo hi"
    and dist: "distinct (page_list (pages t) (Suc l) p)" and n: "pages t p = Some (InnerPage n)"
    and cs: "inner_child_vector n = cs1 @ child # cs2" "inner_key_vector n = ks1 @ ks2" "length ks1 = length cs1"
    and key: "above_lo (lo_of lo ks1) key" "below_hi (hi_of ks2 hi) key"
    and g: "grown c t t' l child (lo_of lo ks1) (hi_of ks2 hi) (upsert key v (entries (pages t) l child))"
  shows "grown c t t' (Suc l) p lo hi (upsert key v (entries (pages t) (Suc l) p))"
proof -
  have nl: "ilevel n = Suc l" "inner_shape (icap c) n" "icount n < icap c" "last_key_harmless hi n"
    and ch: "chain (wf_tree c (pages t) l) lo (cs1 @ child # cs2) (ks1 @ ks2) hi"
    using wf n cs by (simp_all add: wf_tree.simps(2))
  define A B where AB: "A = concat (map (page_list (pages t) l) cs1)" "B = concat (map (page_list (pages t) l) cs2)"
  have pl: "page_list (pages t) (Suc l) p = p # A @ page_list (pages t) l child @ B"
    using n cs(1) by (simp add: AB page_list.simps(2))
  have pc: "p \<notin> set (page_list (pages t) l child)" using dist unfolding pl by auto
  note bound = page_list_bound [OF wf fresh]
  have p': "pages t' p = Some (InnerPage n)"
    using g n pc bound [of p] by (simp add: grown_def)
  define N where "N = {next_page_id t..<next_page_id t'}"
  have R: "wf_tree c (pages t') (Suc l) p lo hi" "distinct (page_list (pages t') (Suc l) p)"
      "set (page_list (pages t') (Suc l) p) \<subseteq> set (page_list (pages t) (Suc l) p) \<union> N"
      "entries (pages t') (Suc l) p = concat (map (entries (pages t) l) cs1)
         @ concat (map (entries (pages t') l) [child]) @ concat (map (entries (pages t) l) cs2)"
    by (rule replace_child [where P = "pages t" and P' = "pages t'" and N = N and mk = "[]" and mid = "[child]", OF n ch cs(1,3) dist p' nl];
        use g cs bound in \<open>fastforce simp: grown_def N_def\<close>)+
  have "entries (pages t) (Suc l) p = concat (map (entries (pages t) l) cs1)
         @ entries (pages t) l child @ concat (map (entries (pages t) l) cs2)"
    using n cs(1) by (simp add: entries.simps(2))
  then have E: "upsert key v (entries (pages t) (Suc l) p) = concat (map (entries (pages t) l) cs1)
         @ upsert key v (entries (pages t) l child) @ concat (map (entries (pages t) l) cs2)"
    by (simp only:) (rule upsert_append; erule siblings_keys [OF ch cs(3) key])
  have "pages t' q = pages t q" if "q < next_page_id t" "q \<notin> set (page_list (pages t) (Suc l) p)" for q
    using g that unfolding grown_def pl by auto
  then show ?thesis
    using R E g unfolding grown_def N_def by simp
qed

lemma insert_subtree_ok:
  fixes t :: "('k::{linorder, zero}, 'v::zero) btree"
  assumes "caps_ok c" "fresh_above t" "wf_tree c (pages t) (Suc l) p lo hi" "distinct (page_list (pages t) (Suc l) p)"
    "pages t p = Some (InnerPage n)" "icount n < icap c - 1" "above_lo lo key" "below_hi hi key"
  shows "\<exists>par leaf t1 t'. descend c Insert key (Suc l) p t = Some (par, leaf, t1)
    \<and> insert_leaf c key v par leaf t1 = Some t'
    \<and> grown c t t' (Suc l) p lo hi (upsert key v (entries (pages t) (Suc l) p))"
  using assms
proof (induction l arbitrary: p lo hi t n)
  case 0
  have nl: "ilevel n = Suc 0" "inner_shape (icap c) n"
    and ch: "chain (wf_tree c (pages t) 0) lo (inner_child_vector n) (inner_key_vector n) hi"
    using 0(3,5) by (simp_all add: wf_tree.simps(2))
  obtain cs1 child cs2 ks1 ks2 where s: "inner_lookup (icap c) n key = Some child"
    "inner_child_vector n = cs1 @ child # cs2" "inner_key_vector n = ks1 @ ks2" "length ks1 = length cs1"
    "above_lo (lo_of lo ks1) key" "below_hi (hi_of ks2 hi) key"
    and child: "wf_tree c (pages t) 0 child (lo_of lo ks1) (hi_of ks2 hi)"
    using search_splits [OF nl(2) ch 0(7,8)] by metis
  obtain lf where lf: "pages t child = Some (LeafPage lf)" using wf_leafE [OF child] by blast
  define t1 where "t1 = unfix_page p (fix_page child t)"
  have t1: "pages t1 = pages t" "root t1 = root t" "next_page_id t1 = next_page_id t"
    using lf by (simp_all add: t1_def)
  have fr1: "fresh_above t1" using 0(2) t1 by (simp add: fresh_above_def)
  have d: "descend c Insert key (Suc 0) p t = Some (p, child, t1)"
    using 0(5) nl s(1) lf by (simp add: Let_def t1_def)
  obtain t' where "insert_leaf c key v p child t1 = Some t'"
      "grown c t1 t' (Suc 0) p lo hi (upsert key v (entries (pages t1) (Suc 0) p))"
    using insert_leaf_ok [OF 0(1) fr1, of p lo hi n cs1 child cs2 ks1 ks2 key v] 0(3-6) s(2-6) t1 by auto
  then show ?case using d t1 grown_same_left [OF t1] by auto
next
  case (Suc l)
  have nl: "ilevel n = Suc (Suc l)" "inner_shape (icap c) n"
    and ch: "chain (wf_tree c (pages t) (Suc l)) lo (inner_child_vector n) (inner_key_vector n) hi"
    using Suc.prems(3,5) by (simp_all add: wf_tree.simps(2) [of _ _ "Suc l"])
  obtain cs1 child cs2 ks1 ks2 where s: "inner_lookup (icap c) n key = Some child"
    "inner_child_vector n = cs1 @ child # cs2" "inner_key_vector n = ks1 @ ks2" "length ks1 = length cs1"
    "above_lo (lo_of lo ks1) key" "below_hi (hi_of ks2 hi) key"
    and child: "wf_tree c (pages t) (Suc l) child (lo_of lo ks1) (hi_of ks2 hi)"
    using search_splits [OF nl(2) ch Suc.prems(7,8)] by metis
  obtain m where m: "pages t child = Some (InnerPage m)" "ilevel m = Suc l" using child by (elim wf_innerE)
  define t1 where "t1 = fix_page child t"
  have t1: "pages t1 = pages t" "root t1 = root t" "next_page_id t1 = next_page_id t"
    using m by (simp_all add: t1_def)
  have fr1: "fresh_above t1" using Suc.prems(2) t1 by (simp add: fresh_above_def)
  obtain child' t2 m' n' ds1 ds2 js1 js2 where mk: "make_child_safe c key p child t1 = Some (child', t2)"
    "grown c t1 t2 (Suc (Suc l)) p lo hi (entries (pages t1) (Suc (Suc l)) p)"
    "pages t2 child' = Some (InnerPage m')" "icount m' < icap c - 1" "pages t2 p = Some (InnerPage n')"
    "inner_child_vector n' = ds1 @ child' # ds2" "inner_key_vector n' = js1 @ js2" "length js1 = length ds1"
    "above_lo (lo_of lo js1) key" "below_hi (hi_of js2 hi) key"
    using make_child_safe_ok [OF Suc.prems(1) fr1, of l p lo hi n cs1 child cs2 ks1 ks2 key] Suc.prems(3-6) s t1
    by auto
  define t3 where "t3 = unfix_page p t2"
  have t3: "pages t3 = pages t2" "root t3 = root t2" "next_page_id t3 = next_page_id t2"
    by (simp_all add: t3_def)
  have g2: "grown c t t3 (Suc (Suc l)) p lo hi (entries (pages t) (Suc (Suc l)) p)"
    using mk(2) grown_same_left [OF t1] grown_pins [OF t3] t1(1) by simp
  have d: "descend c Insert key (Suc (Suc l)) p t = descend c Insert key (Suc l) child' t3"
    using Suc.prems(5) nl s(1) m mk(1,3,4) t1(1)
    by (simp add: Let_def assert_safe_def t3_def flip: t1_def)
  have wf3: "wf_tree c (pages t3) (Suc (Suc l)) p lo hi" "distinct (page_list (pages t3) (Suc (Suc l)) p)"
    "fresh_above t3" and p3: "pages t3 p = Some (InnerPage n')"
    using g2 mk(5) t3(1) by (simp_all add: grown_def)
  have ch3: "chain (wf_tree c (pages t3) (Suc l)) lo (ds1 @ child' # ds2) (js1 @ js2) hi"
    using wf3(1) p3 mk(6,7) by (simp add: wf_tree.simps(2) [of _ _ "Suc l"])
  have child3: "wf_tree c (pages t3) (Suc l) child' (lo_of lo js1) (hi_of js2 hi)"
    by (rule chain_focus [OF ch3 mk(8)])
  have dc3: "distinct (page_list (pages t3) (Suc l) child')"
    using wf3(2) p3 mk(6) by (simp add: page_list.simps(2) [of _ "Suc l"])
  obtain par leaf t4 t' where r: "descend c Insert key (Suc l) child' t3 = Some (par, leaf, t4)"
    "insert_leaf c key v par leaf t4 = Some t'"
    "grown c t3 t' (Suc l) child' (lo_of lo js1) (hi_of js2 hi) (upsert key v (entries (pages t3) (Suc l) child'))"
    using Suc.IH [OF Suc.prems(1) wf3(3) child3 dc3 _ mk(4,9,10)] mk(3) t3(1) by auto
  have g: "grown c t3 t' (Suc (Suc l)) p lo hi (upsert key v (entries (pages t3) (Suc (Suc l)) p))"
    by (rule grown_child [OF wf3(3,1,2) p3 mk(6,7,8,9,10) r(3)])
  have "entries (pages t3) (Suc (Suc l)) p = entries (pages t) (Suc (Suc l)) p"
    using g2 by (simp add: grown_def)
  then show ?case using d r(1,2) grown_trans [OF g2 g] by auto
qed

lemma btree_invI:
  "root t = Some r \<Longrightarrow> wf_tree c (pages t) l r None None \<Longrightarrow> distinct (page_list (pages t) l r) \<Longrightarrow> fresh_above t
    \<Longrightarrow> btree_inv c t \<and> btree_entries t = entries (pages t) l r"
  using wf_level [of c "pages t" l r None None] by (auto simp: btree_inv_def btree_entries_def)

lemma zero_leaf_ok: "leaf_ok n \<lparr>lcount = 0, lkeys = replicate n 0, lvals = replicate n 0\<rparr>"
  "leaf_entries \<lparr>lcount = 0, lkeys = replicate n 0, lvals = replicate n 0\<rparr> = []"
  by (simp_all add: leaf_ok_def leaf_key_vector_def leaf_entries_def)

lemma insert_empty_ok:
  fixes t :: "('k::{linorder, zero}, 'v::zero) btree"
  assumes caps: "caps_ok c" and inv: "btree_inv c t" and r: "root t = None"
  shows "\<exists>t'. btree_insert c key v t = Some t' \<and> btree_inv c t' \<and> btree_entries t' = upsert key v (btree_entries t)"
proof -
  define new where "new = next_page_id t"
  have fresh: "fresh_above t" using inv by (simp add: btree_inv_def)
  obtain t1 where t1: "new_page t = (new, t1)" "root t1 = root t" "next_page_id t1 = Suc new"
      "pages t1 = (pages t)(new \<mapsto> Fresh)" "fresh_above t1"
    using new_page_fresh [OF fresh] unfolding new_def by metis
  obtain lf where lf: "leaf_insert (lcap c) key v \<lparr>lcount = 0, lkeys = replicate (lcap c) 0, lvals = replicate (lcap c) 0\<rparr> = Some lf"
    "leaf_ok (lcap c) lf" "leaf_entries lf = upsert key v []"
    using leaf_insert_ok [OF zero_leaf_ok(1), of "lcap c" key v] caps by (auto simp: caps_ok_def zero_leaf_ok)
  define t' where "t' = unfix_page new (write_leaf new lf (t1\<lparr>root := Some new\<rparr>))"
  have "btree_insert c key v t = Some t'"
    using r t1 lf by (simp add: btree_insert_def Let_def t'_def)
  moreover have "btree_inv c t' \<and> btree_entries t' = entries (pages t') 0 new"
    using t1 lf by (intro btree_invI) (auto simp: t'_def fresh_above_def)
  moreover have "entries (pages t') 0 new = upsert key v (btree_entries t)"
    using r lf by (simp add: t'_def btree_entries_def)
  ultimately show ?thesis by auto
qed

lemma init_zero_inner:
  fixes key :: "'k::{linorder, zero}"
  assumes "caps_ok c"
  obtains n where "inner_init_insert key left right
      \<lparr>ilevel = l, icount = 0, ichildren = replicate (icap c) 0, ikeys = replicate (icap c) 0\<rparr> = Some n"
    "inner_shape (icap c) n" "icount n = 2" "ilevel n = l" "2 < icap c - 1"
    "inner_child_vector n = [left, right]" "inner_key_vector n = [key]" "last_key_harmless None n"
proof -
  have cap: "5 \<le> icap c" using assms by (simp add: caps_ok_def)
  show ?thesis
    by (rule inner_init_insert_ok [of "\<lparr>ilevel = l, icount = 0, ichildren = replicate (icap c) 0, ikeys = replicate (icap c) 0\<rparr>"
      "icap c" key left right None]; (simp add: cap)?) (rule that; use cap in simp)
qed

text \<open>A root over two trees.\<close>

lemma new_root_wf:
  assumes n: "P r = Some (InnerPage n)" "ilevel n = Suc l" "inner_shape (icap c) n" "icount n < icap c"
      "inner_child_vector n = [left, right]" "inner_key_vector n = [sep]" "last_key_harmless None n"
    and wf: "wf_tree c P l left None (Some sep)" "wf_tree c P l right (Some sep) None"
    and dist: "distinct (page_list P l left @ page_list P l right)"
      "r \<notin> set (page_list P l left) \<union> set (page_list P l right)"
  shows "wf_tree c P (Suc l) r None None" "distinct (page_list P (Suc l) r)"
    "entries P (Suc l) r = entries P l left @ entries P l right"
  using assms by (simp_all add: wf_tree.simps(2) page_list.simps(2) entries.simps(2))

lemma insert_root_leaf_ok:
  fixes t :: "('k::{linorder, zero}, 'v::zero) btree"
  assumes caps: "caps_ok c" and fresh: "fresh_above t" and r: "root t = Some r"
    and lf: "pages t r = Some (LeafPage lf)" "leaf_ok (lcap c) lf"
  shows "\<exists>t'. insert_leaf c key v r r t = Some t' \<and> btree_inv c t' \<and> btree_entries t' = upsert key v (leaf_entries lf)"
proof (cases "lcount lf = lcap c")
  case False
  obtain lf' where lf': "leaf_insert (lcap c) key v lf = Some lf'" "leaf_ok (lcap c) lf'"
    "leaf_entries lf' = upsert key v (leaf_entries lf)"
    using leaf_insert_ok [OF lf(2) False] by metis
  define t' where "t' = unfix_page r (write_leaf r lf' t)"
  have "insert_leaf c key v r r t = Some t'"
    using lf(1) False lf'(1) by (simp add: insert_leaf_def t'_def)
  moreover have "btree_inv c t' \<and> btree_entries t' = entries (pages t') 0 r"
    using r lf' fresh fresh_aboveD [OF fresh lf(1)]
    by (intro btree_invI) (auto simp: t'_def fresh_above_def list_all_iff)
  ultimately show ?thesis using lf'(3) by (simp add: t'_def)
next
  case True
  define new where "new = next_page_id t"
  obtain t1 where t1: "new_page t = (new, t1)" "root t1 = root t" "next_page_id t1 = Suc new"
      "pages t1 = (pages t)(new \<mapsto> Fresh)" "fresh_above t1"
    using new_page_fresh [OF fresh] unfolding new_def by metis
  have rn: "r < new" using fresh_aboveD [OF fresh lf(1)] by (simp add: new_def)
  obtain sep l b l' b' where s: "leaf_split (lcap c) lf \<lparr>lcount = 0, lkeys = replicate (lcap c) 0, lvals = replicate (lcap c) 0\<rparr> = Some (sep, l, b)"
      "lcount l < lcap c" "lcount b < lcap c" "leaf_ok (lcap c) l'" "leaf_ok (lcap c) b'"
      "sep < key \<Longrightarrow> leaf_insert (lcap c) key v b = Some b' \<and> l' = l"
      "\<not> sep < key \<Longrightarrow> leaf_insert (lcap c) key v l = Some l' \<and> b' = b"
      "leaf_entries l' @ leaf_entries b' = upsert key v (leaf_entries lf)"
      "\<And>e. e \<in> set (leaf_entries l') \<Longrightarrow> fst e \<le> sep" "\<And>e. e \<in> set (leaf_entries b') \<Longrightarrow> sep < fst e"
    by (rule leaf_split_insert [OF caps lf(2) True refl, of key v]) blast
  define t2 where "t2 = write_leaf new b (write_leaf r l t1)"
  have fr2: "fresh_above t2"
    using t1(3,4,5) rn by (auto simp: t2_def fresh_above_def)
  have n2: "next_page_id t2 = Suc new" using t1 by (simp add: t2_def)
  obtain t3 where t3: "new_page t2 = (Suc new, t3)" "root t3 = root t2" "next_page_id t3 = Suc (Suc new)"
      "pages t3 = (pages t2)(Suc new \<mapsto> Fresh)" "fresh_above t3"
    using new_page_fresh [OF fr2] unfolding n2 by metis
  obtain nr where nr: "inner_init_insert sep r new
      \<lparr>ilevel = 1, icount = 0, ichildren = replicate (icap c) 0, ikeys = replicate (icap c) 0\<rparr> = Some nr"
    "inner_shape (icap c) nr" "icount nr = 2" "ilevel nr = 1" "2 < icap c - 1"
    "inner_child_vector nr = [r, new]" "inner_key_vector nr = [sep]" "last_key_harmless None nr"
    by (rule init_zero_inner [OF caps])
  define t4 where "t4 = unfix_page (Suc new) (write_inner (Suc new) nr (t3\<lparr>root := Some (Suc new)\<rparr>))"
  define t' where "t' = unfix_page r (unfix_page new
      (if sep < key then write_leaf new b' t4 else write_leaf r l' t4))"
  have ev: "insert_leaf c key v r r t = Some t'"
    using lf(1) True t1 s(1,2,3) s(6,7) r t3(1,2,4) [unfolded t2_def] nr(1,3) rn
    by (cases "sep < key") (simp_all add: insert_leaf_def t'_def t4_def)
  have t': "root t' = Some (Suc new)" "next_page_id t' = Suc (Suc new)"
    "pages t' = (pages t)(r \<mapsto> LeafPage l', new \<mapsto> LeafPage b', Suc new \<mapsto> InnerPage nr)"
    using t1 t3 rn s(6,7) by (auto simp: t'_def t4_def t2_def fun_eq_iff)
  have fr': "fresh_above t'"
    using fresh rn unfolding fresh_above_def t' new_def by (auto simp: less_Suc_eq)
  have P': "pages t' r = Some (LeafPage l')" "pages t' new = Some (LeafPage b')" "pages t' (Suc new) = Some (InnerPage nr)"
    using rn by (simp_all add: t')
  have W: "wf_tree c (pages t') (Suc 0) (Suc new) None None" "distinct (page_list (pages t') (Suc 0) (Suc new))"
    "entries (pages t') (Suc 0) (Suc new) = entries (pages t') 0 r @ entries (pages t') 0 new"
    by (rule new_root_wf [where P = "pages t'", OF P'(3) _ nr(2) _ nr(6,7,8)];
        use nr P' s(4,5) s(9,10) rn in \<open>auto simp: list_all_iff\<close>)+
  have "btree_inv c t' \<and> btree_entries t' = entries (pages t') (Suc 0) (Suc new)"
    by (rule btree_invI [OF t'(1) W(1,2) fr'])
  then show ?thesis using ev W(3) P' s(8) by simp
qed

lemma make_root_safe_ok:
  fixes t :: "('k::{linorder, zero}, 'v::zero) btree"
  assumes caps: "caps_ok c" and fresh: "fresh_above t" and r: "root t = Some r"
    and wf: "wf_tree c (pages t) (Suc l) r None None" and dist: "distinct (page_list (pages t) (Suc l) r)"
    and n: "pages t r = Some (InnerPage n)"
  shows "\<exists>p t1 lo hi np. make_root_safe c key r t = Some (p, t1) \<and> fresh_above t1
    \<and> pages t1 p = Some (InnerPage np) \<and> icount np < icap c - 1
    \<and> wf_tree c (pages t1) (Suc l) p lo hi \<and> distinct (page_list (pages t1) (Suc l) p)
    \<and> above_lo lo key \<and> below_hi hi key
    \<and> (\<forall>t'. grown c t1 t' (Suc l) p lo hi (upsert key v (entries (pages t1) (Suc l) p)) \<longrightarrow>
         btree_inv c t' \<and> btree_entries t' = upsert key v (entries (pages t) (Suc l) r))"
proof (cases "icap c - 1 \<le> icount n")
  case False
  then have "make_root_safe c key r t = Some (r, t)" using n by (simp add: make_root_safe_def)
  moreover have "icount n < icap c - 1" using False by simp
  moreover have "btree_inv c t' \<and> btree_entries t' = upsert key v (entries (pages t) (Suc l) r)"
    if "grown c t t' (Suc l) r None None (upsert key v (entries (pages t) (Suc l) r))" for t'
    using btree_invI [of t' r c "Suc l"] that r by (auto simp: grown_def)
  ultimately show ?thesis
    using fresh n wf dist by (intro exI [of _ r] exI [of _ t] exI [of _ None] exI [of _ n]) auto
next
  case True
  obtain sep t1 n1 n2 where s: "split_inner_page c r t = Some (sep, next_page_id t, t1)"
      "root t1 = root t" "next_page_id t1 = Suc (next_page_id t)" "fresh_above t1"
      "pages t1 = (pages t)(next_page_id t \<mapsto> InnerPage n2, r \<mapsto> InnerPage n1)" "r \<noteq> next_page_id t"
      "icount n1 < icap c - 1" "icount n2 < icap c - 1"
      "wf_tree c (pages t1) (Suc l) r None (Some sep)"
      "wf_tree c (pages t1) (Suc l) (next_page_id t) (Some sep) None"
      "above_lo None sep" "below_strict None sep"
      "distinct (page_list (pages t1) (Suc l) r @ page_list (pages t1) (Suc l) (next_page_id t))"
      "set (page_list (pages t1) (Suc l) r @ page_list (pages t1) (Suc l) (next_page_id t))
         \<subseteq> set (page_list (pages t) (Suc l) r) \<union> {next_page_id t}"
      "entries (pages t) (Suc l) r
        = entries (pages t1) (Suc l) r @ entries (pages t1) (Suc l) (next_page_id t)"
    by (rule split_inner_page_ok [OF caps wf dist n True fresh])
  define new where "new = next_page_id t"
  note s = s [folded new_def]
  have rn: "r < new" using fresh_aboveD [OF fresh n] by (simp add: new_def)
  obtain t2 where t2: "new_page t1 = (Suc new, t2)" "root t2 = root t1" "next_page_id t2 = Suc (Suc new)"
      "pages t2 = (pages t1)(Suc new \<mapsto> Fresh)" "fresh_above t2"
    using new_page_fresh [OF s(4)] unfolding s(3) by metis
  have lvl: "ilevel n1 = Suc l" using s(5,9) by (simp add: wf_tree.simps(2))
  obtain nr where nr: "inner_init_insert sep r new
      \<lparr>ilevel = ilevel n1 + 1, icount = 0, ichildren = replicate (icap c) 0, ikeys = replicate (icap c) 0\<rparr> = Some nr"
    "inner_shape (icap c) nr" "icount nr = 2" "ilevel nr = ilevel n1 + 1" "2 < icap c - 1"
    "inner_child_vector nr = [r, new]" "inner_key_vector nr = [sep]" "last_key_harmless None nr"
    by (rule init_zero_inner [OF caps])
  define t3 where "t3 = unfix_page (Suc new) (write_inner (Suc new) nr (t2\<lparr>root := Some (Suc new)\<rparr>))"
  define p where "p = (if sep < key then new else r)"
  define t' where "t' = (if sep < key then unfix_page r t3 else unfix_page new t3)"
  have ev: "make_root_safe c key r t = Some (p, t')"
    using n True s(1,2,5) r t2 nr(1,3) rn
    by (auto simp: make_root_safe_def p_def t'_def t3_def)
  have t': "root t' = Some (Suc new)" "next_page_id t' = Suc (Suc new)"
    "pages t' = (pages t1)(Suc new \<mapsto> InnerPage nr)"
    using t2 by (auto simp: t'_def t3_def fun_eq_iff)
  have fr': "fresh_above t'" using t2(3,4,5) unfolding fresh_above_def t' by auto
  have bound: "q \<le> new" if "q \<in> set (page_list (pages t1) (Suc l) x)" "x \<in> {r, new}" for q x
  proof -
    have "q \<in> set (page_list (pages t) (Suc l) r) \<union> {new}" using that s(14) by auto
    then show ?thesis using page_list_bound [OF wf fresh, of q] by (auto simp: new_def)
  qed
  have frame: "wf_tree c (pages t') (Suc l) x = wf_tree c (pages t1) (Suc l) x
      \<and> page_list (pages t') (Suc l) x = page_list (pages t1) (Suc l) x
      \<and> entries (pages t') (Suc l) x = entries (pages t1) (Suc l) x" if "x \<in> {r, new}" for x
    by (rule tree_frame) (use bound [of _ x] that in \<open>fastforce simp: t'\<close>)
  have rp: "pages t' (Suc new) = Some (InnerPage nr)" by (simp add: t')
  have W: "wf_tree c (pages t') (Suc (Suc l)) (Suc new) None None"
    "distinct (page_list (pages t') (Suc (Suc l)) (Suc new))"
    "entries (pages t') (Suc (Suc l)) (Suc new) = entries (pages t') (Suc l) r @ entries (pages t') (Suc l) new"
    by (rule new_root_wf [where P = "pages t'", OF rp _ nr(2) _ nr(6,7,8)];
        use nr(3,4,5) lvl s(9,10,13) frame bound in \<open>fastforce\<close>)+
  define lo hi where lh: "lo = (if sep < key then Some sep else None)" "hi = (if sep < key then None else Some sep)"
  define cs1 cs2 ks1 ks2 where cs: "cs1 = (if sep < key then [r] else [])" "cs2 = (if sep < key then [] else [new])"
    "ks1 = (if sep < key then [sep] else [])" "ks2 = (if sep < key then [] else [sep])"
  have foc: "inner_child_vector nr = cs1 @ p # cs2" "inner_key_vector nr = ks1 @ ks2" "length ks1 = length cs1"
    "lo_of None ks1 = lo" "hi_of ks2 None = hi" "above_lo lo key" "below_hi hi key"
    using nr(6,7) by (auto simp: cs p_def lh lo_of_def)
  have wfp: "wf_tree c (pages t') (Suc l) p lo hi" "distinct (page_list (pages t') (Suc l) p)"
    using s(9,10,13) frame by (simp_all add: p_def lh)
  have np: "pages t' p = Some (InnerPage (if sep < key then n2 else n1))"
    using s(5) rn by (simp add: p_def t')
  have "btree_inv c u \<and> btree_entries u = upsert key v (entries (pages t) (Suc l) r)"
    if g: "grown c t' u (Suc l) p lo hi (upsert key v (entries (pages t') (Suc l) p))" for u
  proof -
    have "grown c t' u (Suc (Suc l)) (Suc new) None None (upsert key v (entries (pages t') (Suc (Suc l)) (Suc new)))"
      by (rule grown_child [OF fr' W(1,2) rp foc(1,2,3)]) (use foc g in simp_all)
    moreover have "entries (pages t') (Suc (Suc l)) (Suc new) = entries (pages t) (Suc l) r"
      using W(3) s(15) frame by simp
    ultimately show ?thesis
      using btree_invI [of u "Suc new" c "Suc (Suc l)"] t'(1) by (auto simp: grown_def)
  qed
  moreover have "icount (if sep < key then n2 else n1) < icap c - 1" using s(7,8) by simp
  ultimately show ?thesis using ev fr' np wfp foc(6,7) by blast
qed

lemma btree_insert_ok:
  fixes t :: "('k::{linorder, zero}, 'v::zero) btree"
  assumes caps: "caps_ok c" and inv: "btree_inv c t"
  obtains t' where "btree_insert c key v t = Some t'" "btree_inv c t'"
    "btree_entries t' = upsert key v (btree_entries t)"
proof (cases "root t")
  case None
  then show ?thesis using insert_empty_ok [OF caps inv] that by blast
next
  case (Some r)
  obtain pg where pg: "pages t r = Some pg" "wf_tree c (pages t) (page_level pg) r None None"
    "distinct (page_list (pages t) (page_level pg) r)" "btree_entries t = entries (pages t) (page_level pg) r"
    "fresh_above t"
    by (rule btree_inv_rootE [OF inv Some])
  define t1 where "t1 = fix_page r t"
  have t1: "pages t1 = pages t" "root t1 = Some r" "next_page_id t1 = next_page_id t"
    using pg(1) Some by (simp_all add: t1_def)
  have fr1: "fresh_above t1" using pg(5) t1 by (simp add: fresh_above_def)
  have "\<exists>t'. btree_insert c key v t = Some t' \<and> btree_inv c t' \<and> btree_entries t' = upsert key v (btree_entries t)"
  proof (cases "page_level pg")
    case 0
    obtain lf where lf: "pages t r = Some (LeafPage lf)" "leaf_ok (lcap c) lf"
      using pg(2) unfolding 0 by (elim wf_leafE)
    have "get_leaf_page c key Insert t = Some (r, r, t1)"
      using Some pg(1) 0 by (simp add: get_leaf_page_def Let_def t1_def)
    moreover have "btree_entries t = leaf_entries lf" using pg(4) lf(1) 0 by simp
    ultimately show ?thesis
      using insert_root_leaf_ok [OF caps fr1 t1(2) _ lf(2), of key v] lf(1) t1(1) Some
      by (auto simp: btree_insert_def)
  next
    case (Suc l)
    obtain n where n: "pages t r = Some (InnerPage n)" using pg(2) unfolding Suc by (elim wf_innerE)
    obtain p t2 lo hi np where m: "make_root_safe c key r t1 = Some (p, t2)" "fresh_above t2"
      "pages t2 p = Some (InnerPage np)" "icount np < icap c - 1"
      "wf_tree c (pages t2) (Suc l) p lo hi" "distinct (page_list (pages t2) (Suc l) p)"
      "above_lo lo key" "below_hi hi key"
      "\<And>t'. grown c t2 t' (Suc l) p lo hi (upsert key v (entries (pages t2) (Suc l) p)) \<Longrightarrow>
         btree_inv c t' \<and> btree_entries t' = upsert key v (entries (pages t1) (Suc l) r)"
      using make_root_safe_ok [OF caps fr1 t1(2), of l n key v] pg(2,3) n Suc t1(1) by auto
    have lvl: "ilevel np = Suc l" using m(3,5) by (simp add: wf_tree.simps(2))
    obtain par leaf t3 t' where d: "descend c Insert key (Suc l) p t2 = Some (par, leaf, t3)"
      "insert_leaf c key v par leaf t3 = Some t'"
      "grown c t2 t' (Suc l) p lo hi (upsert key v (entries (pages t2) (Suc l) p))"
      using insert_subtree_ok [OF caps m(2,5,6,3,4,7,8), of v] by blast
    have "get_leaf_page c key Insert t = descend c Insert key (Suc l) p t2"
      using Some n Suc pg(1) t1(1) m(1,3,4) lvl
      by (simp add: get_leaf_page_def Let_def assert_safe_def flip: t1_def)
    then show ?thesis
      using d m(9) [OF d(3)] Some pg(4) Suc t1(1) by (simp add: btree_insert_def)
  qed
  then show ?thesis using that by blast
qed

end
