(* ===== verification/Map_Interface.thy ===== *)
theory Map_Interface
  imports BTree_Node
begin

text \<open>
  The interface of an ordered map with fallible, state-passing operations, and what a client
  may conclude from it: a whole sequence of operations never fails and answers as the map does.
  The B+ tree provides it (theory \<open>BTree_Map\<close>).
\<close>

datatype ('k, 'v) map_op = Put 'k 'v | Del 'k | Get 'k

text \<open>A client that issues a list of operations and collects the answers of its lookups.\<close>

fun run_ops :: "('k \<Rightarrow> 'v \<Rightarrow> 't \<Rightarrow> 't option) \<Rightarrow> ('k \<Rightarrow> 't \<Rightarrow> 't option)
    \<Rightarrow> ('k \<Rightarrow> 't \<Rightarrow> ('v option \<times> 't) option) \<Rightarrow> ('k, 'v) map_op list \<Rightarrow> 't
    \<Rightarrow> ('v option list \<times> 't) option" where
  "run_ops put del get [] t = Some ([], t)"
| "run_ops put del get (Put k v # ops) t = do { t \<leftarrow> put k v t; run_ops put del get ops t }"
| "run_ops put del get (Del k # ops) t = do { t \<leftarrow> del k t; run_ops put del get ops t }"
| "run_ops put del get (Get k # ops) t = do {
     (a, t) \<leftarrow> get k t;
     (answers, t) \<leftarrow> run_ops put del get ops t;
     Some (a # answers, t) }"

fun map_answers :: "('k, 'v) map_op list \<Rightarrow> ('k \<Rightarrow> 'v option) \<Rightarrow> 'v option list" where
  "map_answers [] m = []"
| "map_answers (Put k v # ops) m = map_answers ops (m(k \<mapsto> v))"
| "map_answers (Del k # ops) m = map_answers ops (m(k := None))"
| "map_answers (Get k # ops) m = m k # map_answers ops m"

fun map_after :: "('k, 'v) map_op list \<Rightarrow> ('k \<Rightarrow> 'v option) \<Rightarrow> ('k \<Rightarrow> 'v option)" where
  "map_after [] m = m"
| "map_after (Put k v # ops) m = map_after ops (m(k \<mapsto> v))"
| "map_after (Del k # ops) m = map_after ops (m(k := None))"
| "map_after (Get k # ops) m = map_after ops m"

locale ordered_map =
  fixes inv :: "'t \<Rightarrow> bool"
    and contents :: "'t \<Rightarrow> ('k::linorder \<times> 'v) list"
    and put :: "'k \<Rightarrow> 'v \<Rightarrow> 't \<Rightarrow> 't option"
    and del :: "'k \<Rightarrow> 't \<Rightarrow> 't option"
    and get :: "'k \<Rightarrow> 't \<Rightarrow> ('v option \<times> 't) option"
  assumes contents_sorted: "inv t \<Longrightarrow> sorted_keys (contents t)"
    and put_ok: "inv t \<Longrightarrow> \<exists>t'. put k v t = Some t' \<and> inv t' \<and> contents t' = upsert k v (contents t)"
    and del_ok: "inv t \<Longrightarrow> \<exists>t'. del k t = Some t' \<and> inv t' \<and> contents t' = remove_key k (contents t)"
    and get_ok: "inv t \<Longrightarrow> \<exists>t'. get k t = Some (map_of (contents t) k, t') \<and> inv t' \<and> contents t' = contents t"
begin

lemma put_map: "inv t \<Longrightarrow> put k v t = Some t' \<Longrightarrow> inv t' \<and> map_of (contents t') = (map_of (contents t))(k \<mapsto> v)"
  using put_ok [of t k v] contents_sorted [of t] by (auto simp: map_of_upsert)

lemma del_map: "inv t \<Longrightarrow> del k t = Some t' \<Longrightarrow> inv t' \<and> map_of (contents t') = (map_of (contents t))(k := None)"
  using del_ok [of t k] by (auto simp: map_of_remove_key)

lemma run_ops_refines:
  "inv t \<Longrightarrow> \<exists>t'. run_ops put del get ops t = Some (map_answers ops (map_of (contents t)), t')
     \<and> inv t' \<and> map_of (contents t') = map_after ops (map_of (contents t))"
proof (induction ops arbitrary: t)
  case (Cons op ops)
  show ?case
  proof (cases op)
    case (Put k v)
    obtain t1 where t1: "put k v t = Some t1" using put_ok [OF Cons.prems] by blast
    note m = put_map [OF Cons.prems t1]
    show ?thesis using Cons.IH [OF conjunct1 [OF m]] conjunct2 [OF m] t1 Put by (simp del: fun_upd_apply)
  next
    case (Del k)
    obtain t1 where t1: "del k t = Some t1" using del_ok [OF Cons.prems] by blast
    note m = del_map [OF Cons.prems t1]
    show ?thesis using Cons.IH [OF conjunct1 [OF m]] conjunct2 [OF m] t1 Del by (simp del: fun_upd_apply)
  next
    case (Get k)
    obtain t1 where t1: "get k t = Some (map_of (contents t) k, t1)" "inv t1" "contents t1 = contents t"
      using get_ok [OF Cons.prems] by blast
    show ?thesis using Cons.IH [of t1] t1 Get by auto
  qed
qed simp

end

end
