(* ===== verification/BTree_Map.thy ===== *)
theory BTree_Map
  imports BTree_Insert Map_Interface
begin

text \<open>
  The B+ tree as an ordered map, and the properties of the component: the operations refine
  the map, they keep the tree well-formed and its entries sorted, the nodes of every tree fit
  their pages with the layout of their structs, and the searching operations release a page more
  often than they fix it.
\<close>

lemma btree_inv_cong:
  "pages t' = pages t \<Longrightarrow> root t' = root t \<Longrightarrow> next_page_id t' = next_page_id t
    \<Longrightarrow> btree_inv c t' = btree_inv c t \<and> btree_entries t' = btree_entries t"
  by (simp add: btree_inv_def btree_entries_def fresh_above_def cong: option.case_cong)

lemma btree_entries_sorted: "btree_inv c t \<Longrightarrow> sorted_keys (btree_entries t)"
  by (auto simp: btree_inv_def btree_entries_def split: option.splits intro: entries_sorted)

interpretation bt: ordered_map "\<lambda>t. caps_ok c \<and> btree_inv c t"
    "btree_entries :: ('k::{linorder, zero}, 'v::zero) btree \<Rightarrow> ('k \<times> 'v) list"
    "btree_insert c" "btree_erase c" "btree_lookup c" for c
proof unfold_locales
  fix t :: "('k, 'v) btree" and k :: 'k and v :: 'v
  assume a: "caps_ok c \<and> btree_inv c t"
  show "sorted_keys (btree_entries t)" using a btree_entries_sorted by blast
  show "\<exists>t'. btree_insert c k v t = Some t' \<and> (caps_ok c \<and> btree_inv c t')
      \<and> btree_entries t' = upsert k v (btree_entries t)"
    using a btree_insert_ok [of c t k v] by metis
  show "\<exists>t'. btree_erase c k t = Some t' \<and> (caps_ok c \<and> btree_inv c t')
      \<and> btree_entries t' = remove_key k (btree_entries t)"
    using a btree_erase_ok [of c t k] by metis
  obtain t' where t': "btree_lookup c k t = Some (map_of (btree_entries t) k, t')"
    "pages t' = pages t" "root t' = root t" "next_page_id t' = next_page_id t"
    using btree_lookup_ok [of c t k] a by metis
  then show "\<exists>t'. btree_lookup c k t = Some (map_of (btree_entries t) k, t') \<and> (caps_ok c \<and> btree_inv c t')
      \<and> btree_entries t' = btree_entries t"
    using a btree_inv_cong [OF t'(2,3,4)] by auto
qed

lemma btree_init_inv: "btree_inv c (btree_init s)" "btree_entries (btree_init s) = []"
  by (simp_all add: btree_inv_def btree_init_def btree_entries_def fresh_above_def)

text \<open>A tree of one full leaf, for the concrete instances below.\<close>

definition sample_caps :: caps where
  "sample_caps = \<lparr>icap = 5, lcap = 3\<rparr>"

definition sample_tree :: "(int, int) btree" where
  "sample_tree = \<lparr>root = Some 2, next_page_id = 3,
     pages = [0 \<mapsto> LeafPage \<lparr>lcount = 2, lkeys = [10, 20, 30], lvals = [1, 2, 3]\<rparr>,
              1 \<mapsto> LeafPage \<lparr>lcount = 3, lkeys = [30, 40, 50], lvals = [3, 4, 5]\<rparr>,
              2 \<mapsto> InnerPage \<lparr>ilevel = 1, icount = 2, ichildren = [0, 1, 0, 0, 0], ikeys = [20, 20, 0, 0, 0]\<rparr>],
     pins = (\<lambda>_. 0)\<rparr>"

lemma sample_tree_inv: "caps_ok sample_caps" "btree_inv sample_caps sample_tree"
  by (simp add: caps_ok_def sample_caps_def)
    (auto simp: btree_inv_def sample_caps_def sample_tree_def fresh_above_def leaf_ok_def leaf_key_vector_def
      leaf_value_vector_def leaf_entries_def inner_shape_def inner_key_vector_def inner_child_vector_def
      last_key_harmless_def wf_tree.simps page_list.simps eval_nat_numeral list_all_iff split: if_splits)

text \<open>C26: Every sequence of insertions, erasures and lookups on a new tree runs without a failed
  assertion, answers each lookup as the map that the sequence builds, and ends in a
  well-formed tree with exactly the entries of that map.\<close>

theorem btree_refines_map:
  fixes ops :: "('k::{linorder, zero}, 'v::zero) map_op list"
  assumes "caps_ok c"
  shows "\<exists>t'. run_ops (btree_insert c) (btree_erase c) (btree_lookup c) ops (btree_init segment)
           = Some (map_answers ops Map.empty, t')
         \<and> btree_inv c t' \<and> map_of (btree_entries t') = map_after ops Map.empty"
  using bt.run_ops_refines [of c "btree_init segment" ops] assms by (auto simp: btree_init_inv)

theorem btree_refines_map_witness:
  "\<exists>t'. run_ops (btree_insert sample_caps) (btree_erase sample_caps) (btree_lookup sample_caps)
      [Put 3 30, Put 1 10, Put 2 20, Put 4 40, Del 2, Get 2, Put 3 (31::int), Get (3::int)] (btree_init 1)
      = Some ([None, Some 31], t')"
  using btree_refines_map [OF sample_tree_inv(1),
      of "[Put 3 30, Put 1 10, Put 2 20, Put 4 40, Del 2, Get 2, Put 3 (31::int), Get (3::int)]" 1]
  by auto

text \<open>C27: An insertion into a well-formed tree never fails an assertion, leaves a well-formed
  tree, and its entries in key order are the old ones with the pair inserted or its value
  replaced; the splits of leaves, inner nodes and the root are all covered.\<close>

theorem btree_insert_correct:
  fixes t :: "('k::{linorder, zero}, 'v::zero) btree"
  assumes "caps_ok c" "btree_inv c t"
  shows "\<exists>t'. btree_insert c key v t = Some t' \<and> btree_inv c t'
    \<and> btree_entries t' = upsert key v (btree_entries t)
    \<and> map_of (btree_entries t') = (map_of (btree_entries t))(key \<mapsto> v)"
  using bt.put_ok [of c t key v] bt.put_map [of c t key v] assms by auto

theorem btree_insert_correct_witness:
  "\<exists>t'. btree_insert sample_caps 45 450 sample_tree = Some t' \<and> btree_inv sample_caps t'
     \<and> map_of (btree_entries t') 45 = Some 450"
  using btree_insert_correct [OF sample_tree_inv, of 45 450] by auto

text \<open>C28: An erasure removes exactly the key from the entries and keeps the tree well-formed.\<close>

theorem btree_erase_correct:
  fixes t :: "('k::{linorder, zero}, 'v::zero) btree"
  assumes "caps_ok c" "btree_inv c t"
  shows "\<exists>t'. btree_erase c key t = Some t' \<and> btree_inv c t'
    \<and> btree_entries t' = remove_key key (btree_entries t)"
  using bt.del_ok [of c t key] assms by auto

theorem btree_erase_correct_witness:
  "\<exists>t'. btree_erase sample_caps 40 sample_tree = Some t' \<and> 40 \<notin> fst ` set (btree_entries t')"
  using btree_erase_correct [OF sample_tree_inv, of 40] by (auto simp: remove_key_def)

text \<open>C29: A lookup returns the value of the key in the tree's entries, changes no page, and on
  a tree that is not empty gives up one fix more than it took: \<open>get_leaf_page\<close> has already
  unfixed the parent that \<open>lookup\<close> unfixes again.\<close>

theorem btree_lookup_correct:
  fixes t :: "('k::{linorder, zero}, 'v::zero) btree"
  assumes "btree_inv c t" "root t \<noteq> None"
  shows "\<exists>parent t'. btree_lookup c key t = Some (map_of (btree_entries t) key, t')
    \<and> pages t' = pages t \<and> pins t' = (pins t)(parent := pins t parent - 1)"
proof -
  obtain r where r: "root t = Some r" using assms(2) by blast
  obtain pg where pg: "pages t r = Some pg" using btree_inv_rootE [OF assms(1) r] by metis
  obtain par leaf t1 where g: "get_leaf_page c key Lookup t = Some (par, leaf, t1)"
      "pins t1 = (pins t)(leaf := pins t leaf + 1)"
    using get_leaf_page_read [OF assms(1) r pg, of Lookup key] by auto
  obtain t' where t': "btree_lookup c key t = Some (map_of (btree_entries t) key, t')" "pages t' = pages t"
    using btree_lookup_ok [OF assms(1)] by metis
  have "t' = unfix_page leaf (unfix_page par t1)"
    using t'(1) g(1) r by (auto simp: btree_lookup_def Let_def Option.bind_eq_Some_conv)
  then have "pins t' = (pins t)(par := pins t par - 1)" using g(2) by (auto simp: fun_eq_iff)
  with t' show ?thesis by blast
qed

theorem btree_lookup_correct_witness:
  "\<exists>parent t'. btree_lookup sample_caps 40 sample_tree = Some (Some 4, t') \<and> pins t' parent = - 1"
proof -
  have e: "map_of (btree_entries sample_tree) 40 = Some 4"
    by (simp add: btree_entries_def sample_tree_def leaf_entries_def leaf_key_vector_def leaf_value_vector_def
        inner_child_vector_def entries.simps eval_nat_numeral)
  show ?thesis
    using btree_lookup_correct [OF sample_tree_inv(2), of 40] e by (auto simp: sample_tree_def)
qed

section \<open>Nodes and pages\<close>

text \<open>
  The layout of a struct: every member (its size and its alignment) starts at the next multiple of
  its alignment, and the size of the struct is a multiple of the largest one. A node is its level
  and its count, of two bytes each, and its two arrays.
\<close>

definition align_up :: "nat \<Rightarrow> nat \<Rightarrow> nat" where
  "align_up n a = (n + (a - 1)) div a * a"

fun struct_end :: "nat \<Rightarrow> (nat \<times> nat) list \<Rightarrow> nat" where
  "struct_end at [] = at"
| "struct_end at ((sz, al) # ms) = struct_end (align_up at al + sz) ms"

definition struct_size :: "(nat \<times> nat) list \<Rightarrow> nat" where
  "struct_size ms = align_up (struct_end 0 ms) (fold (\<lambda>m. max (snd m)) ms 1)"

definition inner_members :: "nat \<Rightarrow> (nat \<times> nat) list" where
  "inner_members cap = [(2, 2), (2, 2), (cap * 8, 8), (cap * 8, 8)]"

definition leaf_members :: "nat \<Rightarrow> (nat \<times> nat) list" where
  "leaf_members cap = [(2, 2), (2, 2), (cap * 8, 8), (cap * 8, 8)]"

text \<open>The capacities for a page size, with keys and values of eight bytes.\<close>

definition page_caps :: "nat \<Rightarrow> caps" where
  "page_caps page_size = \<lparr>icap = inner_capacity page_size 8, lcap = leaf_capacity page_size 8 8\<rparr>"

definition tree_pages :: "('k, 'v) btree \<Rightarrow> page_id list" where
  "tree_pages t =
     (case root t of None \<Rightarrow> []
      | Some r \<Rightarrow> (case pages t r of None \<Rightarrow> [] | Some pg \<Rightarrow> page_list (pages t) (page_level pg) r))"

text \<open>The count of a node fits its 16 bits and its arrays, and the struct fits the page.\<close>

fun node_fits :: "nat \<Rightarrow> ('k, 'v) page option \<Rightarrow> bool" where
  "node_fits page_size (Some (LeafPage lf)) =
     (lcount lf < 2 ^ 16 \<and> lcount lf \<le> length (lkeys lf) \<and> length (lvals lf) = length (lkeys lf)
      \<and> struct_size (leaf_members (length (lkeys lf))) \<le> page_size)"
| "node_fits page_size (Some (InnerPage n)) =
     (icount n < 2 ^ 16 \<and> icount n \<le> length (ichildren n) \<and> length (ikeys n) = length (ichildren n)
      \<and> struct_size (inner_members (length (ichildren n))) \<le> page_size)"
| "node_fits page_size _ = False"

lemma align_up_multiple: "align_up (8 * k) 8 = 8 * k" "align_up (8 + 8 * k) 8 = 8 + 8 * k"
proof -
  show *: "align_up (8 * k) 8 = 8 * k" for k by (simp add: align_up_def)
  show "align_up (8 + 8 * k) 8 = 8 + 8 * k" using * [of "Suc k"] by simp
qed

lemma struct_sizes: "struct_size (leaf_members cap) = 8 + 16 * cap" "struct_size (inner_members cap) = 8 + 16 * cap"
proof -
  have head: "align_up (align_up (align_up 0 2 + 2) 2 + 2) 8 = 8" by (simp add: align_up_def)
  have a: "struct_end 0 [(2, 2), (2, 2), (cap * 8, 8), (cap * 8, 8)] = align_up (8 + cap * 8) 8 + cap * 8"
    by (simp only: struct_end.simps head)
  also have "\<dots> = 8 * (1 + 2 * cap)" using align_up_multiple(2) [of cap] by (simp add: mult.commute [of cap])
  finally have e: "struct_end 0 [(2, 2), (2, 2), (cap * 8, 8), (cap * 8, 8)] = 8 * (1 + 2 * cap)" .
  have f: "fold (\<lambda>m. max (snd m)) [(2, 2), (2, 2), (cap * 8, 8), (cap * 8, 8)] 1 = (8::nat)" by simp
  have "struct_size [(2, 2), (2, 2), (cap * 8, 8), (cap * 8, 8)] = 8 * (1 + 2 * cap)"
    by (simp only: struct_size_def e f align_up_multiple(1))
  then show "struct_size (leaf_members cap) = 8 + 16 * cap" "struct_size (inner_members cap) = 8 + 16 * cap"
    by (simp_all only: leaf_members_def inner_members_def) simp_all
qed

lemma page_caps_bounds:
  assumes "88 \<le> ps" "ps \<le> 2 ^ 20"
  shows "caps_ok (page_caps ps)" "icap (page_caps ps) < 2 ^ 16" "lcap (page_caps ps) < 2 ^ 16"
    "8 + 16 * icap (page_caps ps) \<le> ps" "8 + 16 * lcap (page_caps ps) \<le> ps"
proof -
  have i: "icap (page_caps ps) = (ps - 8) div 16" and l: "lcap (page_caps ps) = (ps - 20) div 16"
    by (simp_all add: page_caps_def inner_capacity_def leaf_capacity_def)
  show "caps_ok (page_caps ps)"
    using div_le_mono [of 80 "ps - 8" 16] div_le_mono [of 64 "ps - 20" 16] assms(1) unfolding caps_ok_def i l by simp
  show "icap (page_caps ps) < 2 ^ 16" "lcap (page_caps ps) < 2 ^ 16" using assms(2) unfolding i l by simp_all
  show "8 + 16 * icap (page_caps ps) \<le> ps" "8 + 16 * lcap (page_caps ps) \<le> ps"
    using div_times_less_eq_dividend [of "ps - 8" 16] div_times_less_eq_dividend [of "ps - 20" 16] assms(1) unfolding i l by linarith+
qed

lemma node_fitsI:
  assumes "88 \<le> ps" "ps \<le> 2 ^ 20"
  shows "leaf_ok (lcap (page_caps ps)) lf \<Longrightarrow> node_fits ps (Some (LeafPage lf))"
    "inner_shape (icap (page_caps ps)) n \<Longrightarrow> node_fits ps (Some (InnerPage n))"
  using page_caps_bounds [OF assms] by (simp_all add: leaf_ok_def inner_shape_def struct_sizes)

lemma wf_nodes_fit:
  assumes "88 \<le> ps" "ps \<le> 2 ^ 20"
  shows "wf_tree (page_caps ps) P l p lo hi \<Longrightarrow> q \<in> set (page_list P l p) \<Longrightarrow> node_fits ps (P q)"
proof (induction l arbitrary: p lo hi)
  case 0
  obtain lf where "P p = Some (LeafPage lf)" "leaf_ok (lcap (page_caps ps)) lf" using 0(1) by (rule wf_leafE)
  then show ?case using 0(2) node_fitsI(1) [OF assms] by simp
next
  case (Suc l)
  obtain n where n: "P p = Some (InnerPage n)" "inner_shape (icap (page_caps ps)) n"
    and ch: "chain (wf_tree (page_caps ps) P l) lo (inner_child_vector n) (inner_key_vector n) hi"
    using Suc.prems(1) by (elim wf_innerE)
  show ?case
  proof (cases "q = p")
    case True
    then show ?thesis using n node_fitsI(2) [OF assms] by simp
  next
    case False
    then obtain x where x: "x \<in> set (inner_child_vector n)" "q \<in> set (page_list P l x)"
      using Suc.prems(2) n(1) by (auto simp: page_list.simps)
    then show ?thesis using chain_elems [OF ch x(1)] Suc.IH [of x] by blast
  qed
qed

text \<open>C39: Nodes fit their pages. With keys and values of eight bytes and any page size from 88 bytes
  to 1 MiB, the capacities that the code computes are large enough for the algorithms (every
  sequence of operations on a new tree succeeds) and small enough for the layout: in the tree that
  the operations leave, every node is laid out inside its page, with the padding in front of its
  arrays that their alignment asks for, its count does not exceed its arrays, and the count fits
  the 16 bits that it has.\<close>

theorem nodes_fit_pages:
  fixes ops :: "('k::{linorder, zero}, 'v::zero) map_op list"
  assumes "88 \<le> page_size" "page_size \<le> 2 ^ 20"
  shows "\<exists>t. run_ops (btree_insert (page_caps page_size)) (btree_erase (page_caps page_size)) (btree_lookup (page_caps page_size))
        ops (btree_init segment) = Some (map_answers ops Map.empty, t)
    \<and> (\<forall>p \<in> set (tree_pages t). node_fits page_size (pages t p))"
proof -
  let ?c = "page_caps page_size"
  obtain t where t: "run_ops (btree_insert ?c) (btree_erase ?c) (btree_lookup ?c) ops (btree_init segment)
      = Some (map_answers ops Map.empty, t)" "btree_inv ?c t"
    using bt.run_ops_refines [of ?c "btree_init segment" ops] page_caps_bounds(1) [OF assms] by (auto simp: btree_init_inv)
  have "node_fits page_size (pages t p)" if "p \<in> set (tree_pages t)" for p
    using that t(2) wf_nodes_fit [OF assms] by (auto simp: tree_pages_def btree_inv_def split: option.splits)
  then show ?thesis using t(1) by blast
qed

lemma nodes_fit_pages_witness:
  "\<exists>t. run_ops (btree_insert (page_caps 88)) (btree_erase (page_caps 88)) (btree_lookup (page_caps 88))
        [Put 1 10, Put 2 20, Put 3 30, Put 4 40, Put 5 50, Get (2::int)] (btree_init 1) = Some ([Some (20::int)], t)
    \<and> (\<forall>p \<in> set (tree_pages t). node_fits 88 (pages t p))"
  using nodes_fit_pages [of 88 "[Put 1 10, Put 2 20, Put 3 30, Put 4 40, Put 5 50, Get (2::int)] :: (int, int) map_op list" 1]
  by auto

end
