(* ===== verification/Register.thy ===== *)
theory Register
  imports Prelude_DB "HOL-Library.List_Lexorder" "HOL-Library.Char_ord"
begin

text \<open>
  The registers that tuples are made of (\<open>Register\<close> in
  \<^verbatim>\<open>src/task-operators/include/moderndbs/algebra.h\<close> and \<^verbatim>\<open>algebra.cc\<close>): a variant of a 64-bit
  integer and a string. The comparisons assert that both sides have the same type. As a type,
  registers are ordered like the variant: by the alternative first.
\<close>

datatype register = IntReg int | CharReg string

datatype reg_type = INT64 | CHAR16

type_synonym tuple = "register list"

definition from_int :: "int \<Rightarrow> register" where "from_int v = IntReg v"

definition from_string :: "string \<Rightarrow> register" where "from_string v = CharReg v"

fun get_type :: "register \<Rightarrow> reg_type" where
  "get_type (IntReg i) = INT64"
| "get_type (CharReg s) = CHAR16"

text \<open>\<open>std::get\<close> throws when the alternative is another one.\<close>

fun as_int :: "register \<Rightarrow> int option" where
  "as_int (IntReg i) = Some i"
| "as_int (CharReg s) = None"

fun as_string :: "register \<Rightarrow> string option" where
  "as_string (CharReg s) = Some s"
| "as_string (IntReg i) = None"

definition reg_lt :: "register \<Rightarrow> register \<Rightarrow> bool option" where
  "reg_lt r1 r2 = do {
     require (get_type r1 = get_type r2);
     if get_type r1 = INT64 then do { a \<leftarrow> as_int r1; b \<leftarrow> as_int r2; Some (a < b) }
     else do { require (get_type r1 = CHAR16); a \<leftarrow> as_string r1; b \<leftarrow> as_string r2; Some (a < b) } }"

definition reg_le :: "register \<Rightarrow> register \<Rightarrow> bool option" where
  "reg_le r1 r2 = do { require (get_type r1 = get_type r2); b \<leftarrow> reg_lt r1 r2; Some (b \<or> r1 = r2) }"

definition reg_gt :: "register \<Rightarrow> register \<Rightarrow> bool option" where
  "reg_gt r1 r2 = do {
     require (get_type r1 = get_type r2);
     if get_type r1 = INT64 then do { a \<leftarrow> as_int r1; b \<leftarrow> as_int r2; Some (a > b) }
     else do { require (get_type r1 = CHAR16); a \<leftarrow> as_string r1; b \<leftarrow> as_string r2; Some (a > b) } }"

definition reg_ge :: "register \<Rightarrow> register \<Rightarrow> bool option" where
  "reg_ge r1 r2 = do { require (get_type r1 = get_type r2); b \<leftarrow> reg_gt r1 r2; Some (b \<or> r1 = r2) }"

instantiation register :: linorder
begin

fun less_register :: "register \<Rightarrow> register \<Rightarrow> bool" where
  "IntReg a < IntReg b \<longleftrightarrow> a < b"
| "IntReg a < CharReg b \<longleftrightarrow> True"
| "CharReg a < IntReg b \<longleftrightarrow> False"
| "CharReg a < CharReg b \<longleftrightarrow> a < b"

definition less_eq_register :: "register \<Rightarrow> register \<Rightarrow> bool" where
  "r1 \<le> r2 \<longleftrightarrow> r1 < r2 \<or> r1 = (r2 :: register)"

instance
proof
  fix x y z :: register
  have irr: "\<not> x < x" for x :: register by (cases x) auto
  have tr: "x < y \<Longrightarrow> y < z \<Longrightarrow> x < z" for x y z :: register
    by (cases x; cases y; cases z) auto
  have tot: "x < y \<or> x = y \<or> y < x" for x y :: register
    by (cases x; cases y) auto
  show "x < y \<longleftrightarrow> x \<le> y \<and> \<not> y \<le> x"
    unfolding less_eq_register_def by (metis irr tr)
  show "x \<le> x" by (simp add: less_eq_register_def)
  show "x \<le> y \<Longrightarrow> y \<le> z \<Longrightarrow> x \<le> z" unfolding less_eq_register_def by (metis tr)
  show "x \<le> y \<Longrightarrow> y \<le> x \<Longrightarrow> x = y" unfolding less_eq_register_def by (metis irr tr)
  show "x \<le> y \<or> y \<le> x" unfolding less_eq_register_def by (metis tot)
qed

end

lemma reg_lt_eq: "reg_lt r1 r2 = (if get_type r1 = get_type r2 then Some (r1 < r2) else None)"
  by (cases r1; cases r2) (simp_all add: reg_lt_def)

lemma reg_gt_eq: "reg_gt r1 r2 = (if get_type r1 = get_type r2 then Some (r1 > r2) else None)"
  by (cases r1; cases r2) (simp_all add: reg_gt_def)

lemma reg_le_eq: "reg_le r1 r2 = (if get_type r1 = get_type r2 then Some (r1 \<le> r2) else None)"
  by (simp add: reg_le_def reg_lt_eq less_eq_register_def)

lemma reg_ge_eq: "reg_ge r1 r2 = (if get_type r1 = get_type r2 then Some (r1 \<ge> r2) else None)"
  by (auto simp add: reg_ge_def reg_gt_eq less_eq_register_def)

lemmas reg_cmp_eqs = reg_lt_eq reg_gt_eq reg_le_eq reg_ge_eq

text \<open>\<open>std::min\<close> and \<open>std::max\<close> by the register's \<open><\<close>.\<close>

definition reg_min :: "register \<Rightarrow> register \<Rightarrow> register option" where
  "reg_min a b = do { l \<leftarrow> reg_lt b a; Some (if l then b else a) }"

definition reg_max :: "register \<Rightarrow> register \<Rightarrow> register option" where
  "reg_max a b = do { l \<leftarrow> reg_lt a b; Some (if l then b else a) }"

lemma reg_min_eq: "reg_min a b = (if get_type a = get_type b then Some (min a b) else None)"
  by (auto simp: reg_min_def reg_lt_eq min_def)

lemma reg_max_eq: "reg_max a b = (if get_type a = get_type b then Some (max a b) else None)"
  by (auto simp: reg_max_def reg_lt_eq max_def)

section \<open>Printing\<close>

function nat_str :: "nat \<Rightarrow> string" where
  "nat_str n = (if n < 10 then [char_of (48 + n)] else nat_str (n div 10) @ [char_of (48 + n mod 10)])"
  by pat_completeness auto
termination by (relation "measure id") auto

declare nat_str.simps [simp del]

definition int_str :: "int \<Rightarrow> string" where
  "int_str i = (if i < 0 then ''-'' @ nat_str (nat (- i)) else nat_str (nat i))"

fun reg_str :: "register \<Rightarrow> string" where
  "reg_str (IntReg i) = int_str i"
| "reg_str (CharReg s) = s"

fun print_tuple :: "tuple \<Rightarrow> string" where
  "print_tuple [] = ''''"
| "print_tuple [r] = reg_str r"
| "print_tuple (r # rs) = reg_str r @ '','' @ print_tuple rs"

end
