(* ===== verification/Iterator.thy ===== *)
theory Iterator
  imports Register
begin

text \<open>
  The iterator interface \<open>Operator\<close> of \<^verbatim>\<open>src/task-operators/include/moderndbs/algebra.h\<close>:
  \<open>open\<close>, \<open>next\<close> and the values behind the registers of \<open>get_output\<close>. The state of an
  operator contains the state of its inputs. The locale \<open>iterator\<close> states what an
  operator may assume of an input until it has reported its end, and \<open>quiet_iterator\<close> that
  asking once more after the end is harmless.

  The loops \<open>while (input->next()) ...\<close> of the operators are two combinators: \<open>drain\<close>
  runs to the end of the input, \<open>seek\<close> stops at the first tuple its body accepts. They are
  partial functions, so that a loop that does not end has no result; the lemmas of the
  locales show that they end.
\<close>

partial_function (option) drain ::
    "('s \<Rightarrow> (bool \<times> 's) option) \<Rightarrow> ('s \<Rightarrow> tuple option) \<Rightarrow> (tuple \<Rightarrow> 'a \<Rightarrow> 'a option)
      \<Rightarrow> 's \<Rightarrow> 'a \<Rightarrow> ('s \<times> 'a) option" where
  "drain nxt out f s a = do {
     (more, s) \<leftarrow> nxt s;
     if more then do { r \<leftarrow> out s; a \<leftarrow> f r a; drain nxt out f s a } else Some (s, a) }"

partial_function (option) seek ::
    "('s \<Rightarrow> (bool \<times> 's) option) \<Rightarrow> ('s \<Rightarrow> tuple option) \<Rightarrow> (tuple \<Rightarrow> 'a \<Rightarrow> (bool \<times> 'a) option)
      \<Rightarrow> 's \<Rightarrow> 'a \<Rightarrow> (bool \<times> 's \<times> 'a) option" where
  "seek nxt out f s a = do {
     (more, s) \<leftarrow> nxt s;
     if more then do {
       r \<leftarrow> out s;
       (hit, a) \<leftarrow> f r a;
       if hit then Some (True, s, a) else seek nxt out f s a }
     else Some (False, s, a) }"

declare drain.simps [code] seek.simps [code]

text \<open>The same loops over the list of tuples an input delivers.\<close>

fun fold_opt :: "('r \<Rightarrow> 'a \<Rightarrow> 'a option) \<Rightarrow> 'r list \<Rightarrow> 'a \<Rightarrow> 'a option" where
  "fold_opt f [] a = Some a"
| "fold_opt f (r # rs) a = do { a \<leftarrow> f r a; fold_opt f rs a }"

fun seek_list :: "('r \<Rightarrow> 'a \<Rightarrow> (bool \<times> 'a) option) \<Rightarrow> 'r list \<Rightarrow> 'a \<Rightarrow> (('r \<times> 'r list) option \<times> 'a) option" where
  "seek_list f [] a = Some (None, a)"
| "seek_list f (r # rs) a = do {
     (hit, a) \<leftarrow> f r a;
     if hit then Some (Some (r, rs), a) else seek_list f rs a }"

text \<open>A client that asks for tuples until the end and keeps them.\<close>

definition collect :: "('s \<Rightarrow> (bool \<times> 's) option) \<Rightarrow> ('s \<Rightarrow> tuple option) \<Rightarrow> 's \<Rightarrow> tuple list option" where
  "collect nxt out s = map_option snd (drain nxt out (\<lambda>r rs. Some (rs @ [r])) s [])"

locale iterator =
  fixes opn :: "'s \<Rightarrow> 's option"
    and nxt :: "'s \<Rightarrow> (bool \<times> 's) option"
    and out :: "'s \<Rightarrow> tuple option"
    and width :: nat
    and closed :: "'s \<Rightarrow> bool"
    and live :: "'s \<Rightarrow> bool"
    and rows :: "'s \<Rightarrow> tuple list"
  assumes open_live: "closed s \<Longrightarrow> \<exists>s'. opn s = Some s' \<and> live s' \<and> rows s' = rows s"
    and out_width: "live s \<Longrightarrow> \<exists>r. out s = Some r \<and> length r = width"
    and rows_width: "live s \<Longrightarrow> r \<in> set (rows s) \<Longrightarrow> length r = width"
    and next_row: "live s \<Longrightarrow> rows s = r # rs \<Longrightarrow>
       \<exists>s'. nxt s = Some (True, s') \<and> live s' \<and> rows s' = rs \<and> out s' = Some r"
    and next_end: "live s \<Longrightarrow> rows s = [] \<Longrightarrow> \<exists>s'. nxt s = Some (False, s')"
begin

lemma drain_rows:
  "live s \<Longrightarrow> fold_opt f (rows s) a = Some b \<Longrightarrow> \<exists>s'. drain nxt out f s a = Some (s', b)"
proof (induction "rows s" arbitrary: s a)
  case Nil
  then show ?case using next_end [of s] by (subst drain.simps) auto
next
  case (Cons r rs)
  obtain s' where s': "nxt s = Some (True, s')" "live s'" "rows s' = rs" "out s' = Some r"
    using next_row [OF Cons.prems(1)] Cons.hyps(2) by metis
  obtain a' where a': "f r a = Some a'" "fold_opt f rs a' = Some b"
    using Cons.prems(2) unfolding Cons.hyps(2) [symmetric] by (auto simp: bind_eq_Some_conv)
  show ?case
    using Cons.hyps(1) [of s' a'] s' a' by (subst drain.simps) simp
qed

lemma drain_fail:
  "live s \<Longrightarrow> fold_opt f (rows s) a = None \<Longrightarrow> drain nxt out f s a = None"
proof (induction "rows s" arbitrary: s a)
  case (Cons r rs)
  obtain s' where s': "nxt s = Some (True, s')" "live s'" "rows s' = rs" "out s' = Some r"
    using next_row [OF Cons.prems(1)] Cons.hyps(2) by metis
  show ?case
  proof (cases "f r a")
    case (Some a')
    have "fold_opt f rs a' = None" using Cons.prems(2) Some unfolding Cons.hyps(2) [symmetric] by simp
    then show ?thesis using Cons.hyps(1) [of s' a'] s' Some by (subst drain.simps) simp
  qed (use s' in \<open>subst drain.simps, simp\<close>)
qed simp

lemma seek_hit:
  "live s \<Longrightarrow> seek_list f (rows s) a = Some (Some (r, rs), b)
    \<Longrightarrow> \<exists>s'. seek nxt out f s a = Some (True, s', b) \<and> live s' \<and> rows s' = rs \<and> out s' = Some r"
proof (induction "rows s" arbitrary: s a)
  case (Cons r' rs')
  obtain s' where s': "nxt s = Some (True, s')" "live s'" "rows s' = rs'" "out s' = Some r'"
    using next_row [OF Cons.prems(1)] Cons.hyps(2) by metis
  have sl: "seek_list f (r' # rs') a = Some (Some (r, rs), b)" using Cons.prems(2) Cons.hyps(2) by simp
  then obtain hit a' where a': "f r' a = Some (hit, a')" by (auto simp: bind_eq_Some_conv)
  show ?case
  proof (cases hit)
    case True
    then show ?thesis using sl a' s' by (subst seek.simps) simp
  next
    case False
    then show ?thesis using Cons.hyps(1) [of s' a'] sl a' s' by (subst seek.simps) simp
  qed
qed simp

lemma seek_miss:
  "live s \<Longrightarrow> seek_list f (rows s) a = Some (None, b) \<Longrightarrow> \<exists>s'. seek nxt out f s a = Some (False, s', b)"
proof (induction "rows s" arbitrary: s a)
  case Nil
  then show ?case using next_end [of s] by (subst seek.simps) auto
next
  case (Cons r' rs')
  obtain s' where s': "nxt s = Some (True, s')" "live s'" "rows s' = rs'" "out s' = Some r'"
    using next_row [OF Cons.prems(1)] Cons.hyps(2) by metis
  have sl: "seek_list f (r' # rs') a = Some (None, b)" using Cons.prems(2) Cons.hyps(2) by simp
  then obtain a' where "f r' a = Some (False, a')" by (auto simp: bind_eq_Some_conv split: if_splits)
  then show ?case using Cons.hyps(1) [of s' a'] sl s' by (subst seek.simps) simp
qed

lemma fold_opt_snoc: "fold_opt (\<lambda>r rs. Some (rs @ [r])) xs a = Some (a @ xs)"
  by (induction xs arbitrary: a) auto

text \<open>What a client of the interface gets.\<close>

lemma collect_rows: "live s \<Longrightarrow> collect nxt out s = Some (rows s)"
  using drain_rows [of s "\<lambda>r rs. Some (rs @ [r])" "[]" "rows s"] by (auto simp: collect_def fold_opt_snoc)

lemma open_collect: "closed s \<Longrightarrow> Option.bind (opn s) (collect nxt out) = Some (rows s)"
  using open_live [of s] collect_rows by fastforce

end

locale quiet_iterator = iterator +
  assumes next_end_quiet: "live s \<Longrightarrow> rows s = [] \<Longrightarrow> \<exists>s'. nxt s = Some (False, s') \<and> live s' \<and> rows s' = []"
begin

lemma drain_rows_quiet:
  "live s \<Longrightarrow> fold_opt f (rows s) a = Some b
    \<Longrightarrow> \<exists>s'. drain nxt out f s a = Some (s', b) \<and> live s' \<and> rows s' = []"
proof (induction "rows s" arbitrary: s a)
  case Nil
  then show ?case using next_end_quiet [of s] by (subst drain.simps) auto
next
  case (Cons r rs)
  obtain s' where s': "nxt s = Some (True, s')" "live s'" "rows s' = rs" "out s' = Some r"
    using next_row [OF Cons.prems(1)] Cons.hyps(2) by metis
  obtain a' where a': "f r a = Some a'" "fold_opt f rs a' = Some b"
    using Cons.prems(2) unfolding Cons.hyps(2) [symmetric] by (auto simp: bind_eq_Some_conv)
  show ?case
    using Cons.hyps(1) [of s' a'] s' a' by (subst drain.simps) simp
qed

lemma seek_miss_quiet:
  "live s \<Longrightarrow> seek_list f (rows s) a = Some (None, b)
    \<Longrightarrow> \<exists>s'. seek nxt out f s a = Some (False, s', b) \<and> live s' \<and> rows s' = []"
proof (induction "rows s" arbitrary: s a)
  case Nil
  then show ?case using next_end_quiet [of s] by (subst seek.simps) auto
next
  case (Cons r' rs')
  obtain s' where s': "nxt s = Some (True, s')" "live s'" "rows s' = rs'" "out s' = Some r'"
    using next_row [OF Cons.prems(1)] Cons.hyps(2) by metis
  have sl: "seek_list f (r' # rs') a = Some (None, b)" using Cons.prems(2) Cons.hyps(2) by simp
  then obtain a' where "f r' a = Some (False, a')" by (auto simp: bind_eq_Some_conv split: if_splits)
  then show ?case using Cons.hyps(1) [of s' a'] sl s' by (subst seek.simps) simp
qed

end

section \<open>A table in memory\<close>

text \<open>The source operator of the tests (\<open>TestTupleSource\<close> in
  \<^verbatim>\<open>src/task-operators/test/iterator_model_test.cc\<close>): the leaf of every query of the
  repository.\<close>

record scan =
  sc_tuples :: "tuple list"
  sc_width :: nat
  sc_index :: nat
  sc_regs :: tuple
  sc_opened :: bool
  sc_closed :: bool

definition scan_init :: "nat \<Rightarrow> tuple list \<Rightarrow> scan" where
  "scan_init w ts = \<lparr>sc_tuples = ts, sc_width = w, sc_index = 0, sc_regs = [], sc_opened = False, sc_closed = False\<rparr>"

text \<open>\<open>std::vector::resize\<close>: new registers hold the integer 0.\<close>

definition resize_regs :: "nat \<Rightarrow> tuple \<Rightarrow> tuple" where
  "resize_regs n rs = take n rs @ replicate (n - length rs) (IntReg 0)"

lemma length_resize_regs [simp]: "length (resize_regs n rs) = n"
  by (simp add: resize_regs_def)

definition scan_open :: "scan \<Rightarrow> scan option" where
  "scan_open s = Some (s\<lparr>sc_regs := resize_regs (sc_width s) (sc_regs s), sc_opened := True\<rparr>)"

definition scan_next :: "scan \<Rightarrow> (bool \<times> scan) option" where
  "scan_next s =
     (if sc_index s < length (sc_tuples s)
      then Some (True, s\<lparr>sc_regs := sc_tuples s ! sc_index s, sc_index := sc_index s + 1\<rparr>)
      else Some (False, s))"

definition scan_close :: "scan \<Rightarrow> scan" where
  "scan_close s = s\<lparr>sc_regs := [], sc_closed := True\<rparr>"

definition scan_out :: "scan \<Rightarrow> tuple option" where
  "scan_out s = Some (sc_regs s)"

definition scan_live :: "nat \<Rightarrow> scan \<Rightarrow> bool" where
  "scan_live w s \<longleftrightarrow> sc_width s = w \<and> length (sc_regs s) = w \<and> (\<forall>r \<in> set (sc_tuples s). length r = w)"

definition scan_closed :: "nat \<Rightarrow> scan \<Rightarrow> bool" where
  "scan_closed w s \<longleftrightarrow> sc_width s = w \<and> (\<forall>r \<in> set (sc_tuples s). length r = w)"

definition scan_rows :: "scan \<Rightarrow> tuple list" where
  "scan_rows s = drop (sc_index s) (sc_tuples s)"

interpretation scan: quiet_iterator scan_open scan_next scan_out w "scan_closed w" "scan_live w" scan_rows for w
proof unfold_locales
  fix s r and rs :: "tuple list"
  show "scan_closed w s \<Longrightarrow> \<exists>s'. scan_open s = Some s' \<and> scan_live w s' \<and> scan_rows s' = scan_rows s"
    by (simp add: scan_closed_def scan_open_def scan_live_def scan_rows_def)
  show "scan_live w s \<Longrightarrow> \<exists>r. scan_out s = Some r \<and> length r = w"
    by (simp add: scan_out_def scan_live_def)
  show "scan_live w s \<Longrightarrow> r \<in> set (scan_rows s) \<Longrightarrow> length r = w"
    by (auto simp: scan_live_def scan_rows_def dest: in_set_dropD)
  show "\<exists>s'. scan_next s = Some (True, s') \<and> scan_live w s' \<and> scan_rows s' = rs \<and> scan_out s' = Some r"
    if "scan_live w s" "scan_rows s = r # rs"
  proof -
    have i: "sc_index s < length (sc_tuples s)" using that(2) by (simp add: scan_rows_def) (metis drop_all list.simps(3) not_le)
    then have "sc_tuples s ! sc_index s = r" "drop (Suc (sc_index s)) (sc_tuples s) = rs"
      using that(2) Cons_nth_drop_Suc [OF i] by (auto simp: scan_rows_def)
    then show ?thesis using i that(1) by (auto simp: scan_next_def scan_live_def scan_rows_def scan_out_def)
  qed
  show "scan_live w s \<Longrightarrow> scan_rows s = [] \<Longrightarrow> \<exists>s'. scan_next s = Some (False, s')"
    by (simp add: scan_next_def scan_rows_def)
  show "scan_live w s \<Longrightarrow> scan_rows s = [] \<Longrightarrow>
      \<exists>s'. scan_next s = Some (False, s') \<and> scan_live w s' \<and> scan_rows s' = []"
    by (simp add: scan_next_def scan_rows_def)
qed

lemma scan_init_ok: "\<forall>r \<in> set ts. length r = w \<Longrightarrow> scan_closed w (scan_init w ts)" "scan_rows (scan_init w ts) = ts"
  by (simp_all add: scan_closed_def scan_init_def scan_rows_def)

section \<open>Helpers of the operators\<close>

text \<open>\<open>for (i) output_regs[off + i] = src[i]\<close>.\<close>

definition write_regs :: "nat \<Rightarrow> tuple \<Rightarrow> tuple \<Rightarrow> tuple option" where
  "write_regs off src regs = memcpy regs off src 0 (length src)"

text \<open>The order in which a hash table is iterated: some permutation of its entries.\<close>

definition valid_order :: "('a list \<Rightarrow> 'a list) \<Rightarrow> bool" where
  "valid_order ord \<longleftrightarrow> (\<forall>xs. mset (ord xs) = mset xs)"

lemma fold_opt_append: "fold_opt f (xs @ ys) a = Option.bind (fold_opt f xs a) (fold_opt f ys)"
  by (induction xs arbitrary: a) (auto simp: bind_eq_Some_conv split: Option.bind_splits)

lemma fold_opt_total: "(\<And>r a. r \<in> set rs \<Longrightarrow> f r a = Some (g r a)) \<Longrightarrow> fold_opt f rs a = Some (fold g rs a)"
  by (induction rs arbitrary: a) auto

end
