(* ===== verification/Op_Pipeline.thy ===== *)
theory Op_Pipeline
  imports Iterator
begin

text \<open>
  The operators \<open>Print\<close>, \<open>Projection\<close>, \<open>Select\<close> and \<open>Sort\<close>
  (\<^verbatim>\<open>src/task-operators/src/algebra.cc\<close>) over an arbitrary input, given by its \<open>open\<close>,
  \<open>next\<close>, \<open>close\<close> and its output registers. For each of them: if the input is an iterator
  then so is the operator, and its tuples are the stated function of the input's tuples.
\<close>

section \<open>Print\<close>

record 'i print =
  pr_input :: 'i
  stream :: string

definition print_open :: "('i \<Rightarrow> 'i option) \<Rightarrow> ('i \<Rightarrow> tuple option) \<Rightarrow> 'i print \<Rightarrow> 'i print option" where
  "print_open opn out p = do { i \<leftarrow> opn (pr_input p); _ \<leftarrow> out i; Some (p\<lparr>pr_input := i\<rparr>) }"

definition print_next :: "('i \<Rightarrow> (bool \<times> 'i) option) \<Rightarrow> ('i \<Rightarrow> tuple option) \<Rightarrow> 'i print \<Rightarrow> (bool \<times> 'i print) option" where
  "print_next nxt out p = do {
     (more, i) \<leftarrow> nxt (pr_input p);
     if more then do {
       r \<leftarrow> out i;
       Some (True, p\<lparr>pr_input := i, stream := stream p @ print_tuple r @ [char_of (10::nat)]\<rparr>) }
     else Some (False, p\<lparr>pr_input := i\<rparr>) }"

definition print_close :: "('i \<Rightarrow> 'i) \<Rightarrow> 'i print \<Rightarrow> 'i print" where
  "print_close cls p = p\<lparr>pr_input := cls (pr_input p)\<rparr>"

definition print_out :: "'i print \<Rightarrow> tuple option" where
  "print_out p = Some []"

text \<open>The driver of every query of the tests: \<open>while (print.next()) {}\<close>.\<close>

definition print_all :: "('i \<Rightarrow> (bool \<times> 'i) option) \<Rightarrow> ('i \<Rightarrow> tuple option) \<Rightarrow> 'i print \<Rightarrow> 'i print option" where
  "print_all nxt out p = map_option fst (drain (print_next nxt out) print_out (\<lambda>_ _. Some ()) p ())"

definition line :: "tuple \<Rightarrow> string" where
  "line r = print_tuple r @ [char_of (10::nat)]"

context iterator
begin

lemma print_all_lines:
  assumes "live (pr_input p)"
  shows "\<exists>p'. print_all nxt out p = Some p' \<and> stream p' = stream p @ concat (map line (rows (pr_input p)))"
proof -
  have "\<exists>p'. drain (print_next nxt out) print_out (\<lambda>_ _. Some ()) p () = Some (p', ())
      \<and> stream p' = stream p @ concat (map line (rows (pr_input p)))"
    using assms
  proof (induction "rows (pr_input p)" arbitrary: p)
    case Nil
    then show ?case using next_end [of "pr_input p"] by (subst drain.simps) (auto simp: print_next_def)
  next
    case (Cons r rs)
    obtain i where i: "nxt (pr_input p) = Some (True, i)" "live i" "rows i = rs" "out i = Some r"
      using next_row [OF Cons.prems] Cons.hyps(2) by metis
    have "print_next nxt out p = Some (True, p\<lparr>pr_input := i, stream := stream p @ line r\<rparr>)"
      using i by (simp add: print_next_def line_def)
    then show ?case
      using Cons.hyps(1) [of "p\<lparr>pr_input := i, stream := stream p @ line r\<rparr>"] Cons.hyps(2) [symmetric] i
      by (subst drain.simps) (simp add: print_out_def)
  qed
  then show ?thesis by (auto simp: print_all_def)
qed

end

section \<open>Projection\<close>

record 'i projection =
  pj_input :: 'i
  attr_indexes :: "nat list"

definition projection_open :: "('i \<Rightarrow> 'i option) \<Rightarrow> 'i projection \<Rightarrow> 'i projection option" where
  "projection_open opn p = do { i \<leftarrow> opn (pj_input p); Some (p\<lparr>pj_input := i\<rparr>) }"

definition projection_next :: "('i \<Rightarrow> (bool \<times> 'i) option) \<Rightarrow> 'i projection \<Rightarrow> (bool \<times> 'i projection) option" where
  "projection_next nxt p = do { (more, i) \<leftarrow> nxt (pj_input p); Some (more, p\<lparr>pj_input := i\<rparr>) }"

definition projection_close :: "('i \<Rightarrow> 'i) \<Rightarrow> 'i projection \<Rightarrow> 'i projection" where
  "projection_close cls p = p\<lparr>pj_input := cls (pj_input p), attr_indexes := []\<rparr>"

text \<open>The loop runs over \<open>i < attr_indexes.size()\<close> and takes \<open>src_regs[i]\<close>.\<close>

definition projection_out :: "('i \<Rightarrow> tuple option) \<Rightarrow> 'i projection \<Rightarrow> tuple option" where
  "projection_out out p = do {
     src_regs \<leftarrow> out (pj_input p);
     map_opt (arr_get src_regs) [0..<length (attr_indexes p)] }"

definition projection_live :: "('i \<Rightarrow> bool) \<Rightarrow> nat \<Rightarrow> nat \<Rightarrow> 'i projection \<Rightarrow> bool" where
  "projection_live live width n p \<longleftrightarrow> live (pj_input p) \<and> length (attr_indexes p) = n \<and> n \<le> width"

definition projection_rows :: "('i \<Rightarrow> tuple list) \<Rightarrow> 'i projection \<Rightarrow> tuple list" where
  "projection_rows rows p = map (take (length (attr_indexes p))) (rows (pj_input p))"

context iterator
begin

lemma projection_iterator:
  "iterator (projection_open opn) (projection_next nxt) (projection_out out) n
     (projection_live closed width n) (projection_live live width n) (projection_rows rows)"
proof unfold_locales
  fix p r and rs :: "tuple list"
  have o: "projection_out out p = Some (take (length (attr_indexes p)) r)"
    if "out (pj_input p) = Some r" "length r = width" "length (attr_indexes p) \<le> width" for p :: "'s projection" and r
    using that by (simp add: projection_out_def map_opt_prefix)
  show "\<exists>p'. projection_open opn p = Some p' \<and> projection_live live width n p'
      \<and> projection_rows rows p' = projection_rows rows p" if "projection_live closed width n p"
    using open_live [of "pj_input p"] that
    by (auto simp: projection_open_def projection_live_def projection_rows_def)
  show "\<exists>r. projection_out out p = Some r \<and> length r = n" if "projection_live live width n p"
    using out_width [of "pj_input p"] o [of p] that by (fastforce simp: projection_live_def)
  show "length r = n" if "projection_live live width n p" "r \<in> set (projection_rows rows p)"
    using rows_width [of "pj_input p"] that by (auto simp: projection_live_def projection_rows_def)
  show "\<exists>p'. projection_next nxt p = Some (True, p') \<and> projection_live live width n p'
      \<and> projection_rows rows p' = rs \<and> projection_out out p' = Some r"
    if l: "projection_live live width n p" "projection_rows rows p = r # rs"
  proof -
    obtain r0 rs0 where r0: "rows (pj_input p) = r0 # rs0" "r = take n r0" "rs = map (take n) rs0"
      using l by (auto simp: projection_rows_def projection_live_def)
    obtain i where i: "nxt (pj_input p) = Some (True, i)" "live i" "rows i = rs0" "out i = Some r0"
      using next_row [OF _ r0(1)] l(1) by (auto simp: projection_live_def)
    have "length r0 = width" using rows_width [of "pj_input p" r0] l(1) r0(1) by (simp add: projection_live_def)
    then show ?thesis
      using i r0 l(1) o [of "p\<lparr>pj_input := i\<rparr>" r0]
      by (simp add: projection_next_def projection_live_def projection_rows_def)
  qed
  show "\<exists>p'. projection_next nxt p = Some (False, p')" if "projection_live live width n p" "projection_rows rows p = []"
    using next_end [of "pj_input p"] that by (auto simp: projection_live_def projection_rows_def projection_next_def)
qed

end

section \<open>Select\<close>

datatype predicate_type = EQ | NE | LT | LE | GT | GE

datatype operand = Constant register | Attribute nat

text \<open>The three constructors.\<close>

record 'i select =
  sl_input :: 'i
  attr_index :: nat
  right_operand :: operand
  predicate :: predicate_type

definition select_int64 :: "'i \<Rightarrow> nat \<Rightarrow> int \<Rightarrow> predicate_type \<Rightarrow> 'i select" where
  "select_int64 i a c p = \<lparr>sl_input = i, attr_index = a, right_operand = Constant (from_int c), predicate = p\<rparr>"

definition select_char16 :: "'i \<Rightarrow> nat \<Rightarrow> string \<Rightarrow> predicate_type \<Rightarrow> 'i select" where
  "select_char16 i a c p = \<lparr>sl_input = i, attr_index = a, right_operand = Constant (from_string c), predicate = p\<rparr>"

definition select_attribute :: "'i \<Rightarrow> nat \<Rightarrow> nat \<Rightarrow> predicate_type \<Rightarrow> 'i select" where
  "select_attribute i a b p = \<lparr>sl_input = i, attr_index = a, right_operand = Attribute b, predicate = p\<rparr>"

fun compare_regs :: "predicate_type \<Rightarrow> register \<Rightarrow> register \<Rightarrow> bool option" where
  "compare_regs EQ a b = Some (a = b)"
| "compare_regs NE a b = Some (a \<noteq> b)"
| "compare_regs LT a b = reg_lt a b"
| "compare_regs LE a b = reg_le a b"
| "compare_regs GT a b = reg_gt a b"
| "compare_regs GE a b = reg_ge a b"

fun right_register :: "operand \<Rightarrow> tuple \<Rightarrow> register option" where
  "right_register (Constant c) r = Some c"
| "right_register (Attribute b) r = arr_get r b"

definition select_test :: "'i select \<Rightarrow> tuple \<Rightarrow> bool option" where
  "select_test s r = do {
     reg_left \<leftarrow> arr_get r (attr_index s);
     reg_right \<leftarrow> right_register (right_operand s) r;
     compare_regs (predicate s) reg_left reg_right }"

definition select_open :: "('i \<Rightarrow> 'i option) \<Rightarrow> ('i \<Rightarrow> tuple option) \<Rightarrow> 'i select \<Rightarrow> 'i select option" where
  "select_open opn out s = do { i \<leftarrow> opn (sl_input s); _ \<leftarrow> out i; Some (s\<lparr>sl_input := i\<rparr>) }"

definition select_next :: "('i \<Rightarrow> (bool \<times> 'i) option) \<Rightarrow> ('i \<Rightarrow> tuple option) \<Rightarrow> 'i select \<Rightarrow> (bool \<times> 'i select) option" where
  "select_next nxt out s = do {
     (found, i, _) \<leftarrow> seek nxt out (\<lambda>r _. do { b \<leftarrow> select_test s r; Some (b, ()) }) (sl_input s) ();
     Some (found, s\<lparr>sl_input := i\<rparr>) }"

definition select_close :: "('i \<Rightarrow> 'i) \<Rightarrow> 'i select \<Rightarrow> 'i select" where
  "select_close cls s = s\<lparr>sl_input := cls (sl_input s)\<rparr>"

definition select_out :: "('i \<Rightarrow> tuple option) \<Rightarrow> 'i select \<Rightarrow> tuple option" where
  "select_out out s = out (sl_input s)"

text \<open>No comparison of the predicate fails on the tuples to come.\<close>

definition select_live :: "('i \<Rightarrow> bool) \<Rightarrow> ('i \<Rightarrow> tuple list) \<Rightarrow> 'i select \<Rightarrow> bool" where
  "select_live live rows s \<longleftrightarrow> live (sl_input s) \<and> (\<forall>r \<in> set (rows (sl_input s)). select_test s r \<noteq> None)"

definition select_rows :: "('i \<Rightarrow> tuple list) \<Rightarrow> 'i select \<Rightarrow> tuple list" where
  "select_rows rows s = filter (\<lambda>r. select_test s r = Some True) (rows (sl_input s))"

lemma select_test_input [simp]: "select_test (s\<lparr>sl_input := i\<rparr>) = select_test s"
  by (simp add: select_test_def fun_eq_iff)

lemma seek_list_test:
  assumes "\<forall>r \<in> set rs. t r \<noteq> None"
  shows "seek_list (\<lambda>r _. do { b \<leftarrow> t r; Some (b, ()) }) rs () =
    Some (case dropWhile (\<lambda>r. t r \<noteq> Some True) rs of [] \<Rightarrow> None | r # rs' \<Rightarrow> Some (r, rs'), ())"
  using assms by (induction rs) auto

context iterator
begin

lemma select_hit:
  assumes "select_live live rows s" "dropWhile (\<lambda>r. select_test s r \<noteq> Some True) (rows (sl_input s)) = r # rs"
  shows "\<exists>i. select_next nxt out s = Some (True, s\<lparr>sl_input := i\<rparr>) \<and> live i \<and> rows i = rs \<and> out i = Some r"
proof -
  let ?f = "\<lambda>r _. do { b \<leftarrow> select_test s r; Some (b, ()) }"
  have "seek_list ?f (rows (sl_input s)) () = Some (Some (r, rs), ())"
    using seek_list_test [of "rows (sl_input s)" "select_test s"] assms(1) unfolding assms(2) select_live_def by simp
  then obtain i where "seek nxt out ?f (sl_input s) () = Some (True, i, ())" "live i" "rows i = rs" "out i = Some r"
    using seek_hit [of "sl_input s" ?f "()" r rs "()"] assms(1) unfolding select_live_def by auto
  then show ?thesis by (intro exI [of _ i]) (simp add: select_next_def)
qed

lemma select_miss:
  assumes "select_live live rows s" "dropWhile (\<lambda>r. select_test s r \<noteq> Some True) (rows (sl_input s)) = []"
  shows "\<exists>i. select_next nxt out s = Some (False, s\<lparr>sl_input := i\<rparr>)"
proof -
  let ?f = "\<lambda>r _. do { b \<leftarrow> select_test s r; Some (b, ()) }"
  have "seek_list ?f (rows (sl_input s)) () = Some (None, ())"
    using seek_list_test [of "rows (sl_input s)" "select_test s"] assms(1) unfolding assms(2) select_live_def by simp
  then obtain i where "seek nxt out ?f (sl_input s) () = Some (False, i, ())"
    using seek_miss [of "sl_input s" ?f "()" "()"] assms(1) unfolding select_live_def by auto
  then show ?thesis by (intro exI [of _ i]) (simp add: select_next_def)
qed

lemma select_iterator:
  "iterator (select_open opn out) (select_next nxt out) (select_out out) width
     (select_live closed rows) (select_live live rows) (select_rows rows)"
proof unfold_locales
  fix s r and rs :: "tuple list"
  show "\<exists>s'. select_open opn out s = Some s' \<and> select_live live rows s'
      \<and> select_rows rows s' = select_rows rows s" if "select_live closed rows s"
    using open_live [of "sl_input s"] out_width that
    by (fastforce simp: select_open_def select_live_def select_rows_def)
  show "\<exists>r. select_out out s = Some r \<and> length r = width" if "select_live live rows s"
    using out_width [of "sl_input s"] that by (simp add: select_live_def select_out_def)
  show "length r = width" if "select_live live rows s" "r \<in> set (select_rows rows s)"
    using rows_width [of "sl_input s"] that by (auto simp: select_live_def select_rows_def)
  show "\<exists>s'. select_next nxt out s = Some (True, s') \<and> select_live live rows s'
      \<and> select_rows rows s' = rs \<and> select_out out s' = Some r"
    if l: "select_live live rows s" "select_rows rows s = r # rs"
  proof -
    let ?P = "\<lambda>r. select_test s r = Some True"
    obtain rs' where d: "dropWhile (\<lambda>r. \<not> ?P r) (rows (sl_input s)) = r # rs'" "filter ?P rs' = rs"
      using filter_Cons_dropWhile l(2) unfolding select_rows_def by metis
    obtain i where "select_next nxt out s = Some (True, s\<lparr>sl_input := i\<rparr>)" "live i" "rows i = rs'" "out i = Some r"
      using select_hit [OF l(1) d(1)] by blast
    moreover have "set rs' \<subseteq> set (rows (sl_input s))" using d(1) by (metis list.set_intros(2) set_dropWhileD subsetI)
    ultimately show ?thesis using l(1) d(2) by (auto simp: select_live_def select_rows_def select_out_def)
  qed
  show "\<exists>s'. select_next nxt out s = Some (False, s')" if "select_live live rows s" "select_rows rows s = []"
  proof -
    have "dropWhile (\<lambda>r. select_test s r \<noteq> Some True) (rows (sl_input s)) = []"
      using that(2) by (auto simp: select_rows_def filter_empty_conv dropWhile_eq_Nil_conv)
    then show ?thesis using select_miss [OF that(1)] by blast
  qed
qed

end

end
