(* ===== verification/Op_Sort.thy ===== *)
theory Op_Sort
  imports Iterator
begin

text \<open>
  The operator \<open>Sort\<close> (\<^verbatim>\<open>src/task-operators/src/algebra.cc\<close>): the input is read to its end
  and sorted by one \<open>std::stable_sort\<close> per criterion, the last criterion first. The lemmas
  show that this is the stable sort by the criteria in lexicographic order.
\<close>

record criterion =
  crit_attr :: nat
  crit_desc :: bool

record 'i sort_op =
  so_input :: 'i
  criteria :: "criterion list"
  next_output_offset :: nat
  sorted_rows :: "tuple list"
  so_regs :: tuple

section \<open>\<open>std::stable_sort\<close>\<close>

fun insert_stable :: "('a \<Rightarrow> 'a \<Rightarrow> bool) \<Rightarrow> 'a \<Rightarrow> 'a list \<Rightarrow> 'a list" where
  "insert_stable lt x [] = [x]"
| "insert_stable lt x (y # ys) = (if lt y x then y # insert_stable lt x ys else x # y # ys)"

definition stable_sort :: "('a \<Rightarrow> 'a \<Rightarrow> bool) \<Rightarrow> 'a list \<Rightarrow> 'a list" where
  "stable_sort lt xs = foldr (insert_stable lt) xs []"

text \<open>The comparison of one criterion, for registers of one type.\<close>

definition crit_lt :: "criterion \<Rightarrow> tuple \<Rightarrow> tuple \<Rightarrow> bool" where
  "crit_lt c a b = (if crit_desc c then a ! crit_attr c > b ! crit_attr c else a ! crit_attr c < b ! crit_attr c)"

text \<open>A sort of at least two tuples compares their attributes: an index outside a
  tuple, or registers of different types, fails.\<close>

definition comparable :: "criterion \<Rightarrow> tuple list \<Rightarrow> bool" where
  "comparable c xs \<longleftrightarrow> length xs \<le> 1
     \<or> (\<forall>x \<in> set xs. crit_attr c < length x \<and> get_type (x ! crit_attr c) = get_type (hd xs ! crit_attr c))"

fun sort_rows :: "criterion list \<Rightarrow> tuple list \<Rightarrow> tuple list option" where
  "sort_rows [] xs = Some xs"
| "sort_rows (c # cs) xs = do { xs \<leftarrow> sort_rows cs xs; require (comparable c xs); Some (stable_sort (crit_lt c) xs) }"

section \<open>The operator\<close>

definition sort_init :: "'i \<Rightarrow> criterion list \<Rightarrow> 'i sort_op" where
  "sort_init i cs = \<lparr>so_input = i, criteria = cs, next_output_offset = 0, sorted_rows = [], so_regs = []\<rparr>"

definition sort_open :: "('i \<Rightarrow> 'i option) \<Rightarrow> ('i \<Rightarrow> tuple option) \<Rightarrow> 'i sort_op \<Rightarrow> 'i sort_op option" where
  "sort_open opn out s = do {
     i \<leftarrow> opn (so_input s);
     input_regs \<leftarrow> out i;
     Some (s\<lparr>so_input := i, so_regs := resize_regs (length input_regs) (so_regs s)\<rparr>) }"

definition sort_next :: "('i \<Rightarrow> (bool \<times> 'i) option) \<Rightarrow> ('i \<Rightarrow> tuple option) \<Rightarrow> 'i sort_op \<Rightarrow> (bool \<times> 'i sort_op) option" where
  "sort_next nxt out s = do {
     s \<leftarrow> (if next_output_offset s = 0 then do {
             (i, xs) \<leftarrow> drain nxt out (\<lambda>r xs. Some (xs @ [r])) (so_input s) (sorted_rows s);
             xs \<leftarrow> sort_rows (criteria s) xs;
             Some (s\<lparr>so_input := i, sorted_rows := xs\<rparr>) }
           else Some s);
     if next_output_offset s = length (sorted_rows s) then Some (False, s)
     else do {
       r \<leftarrow> arr_get (sorted_rows s) (next_output_offset s);
       Some (True, s\<lparr>so_regs := r, next_output_offset := next_output_offset s + 1\<rparr>) } }"

definition sort_close :: "('i \<Rightarrow> 'i) \<Rightarrow> 'i sort_op \<Rightarrow> 'i sort_op" where
  "sort_close cls s = s\<lparr>so_input := cls (so_input s), sorted_rows := []\<rparr>"

definition sort_out :: "'i sort_op \<Rightarrow> tuple option" where
  "sort_out s = Some (so_regs s)"

section \<open>What the sorting does\<close>

lemma mset_insert_stable [simp]: "mset (insert_stable lt x ys) = add_mset x (mset ys)"
  by (induction ys) auto

lemma set_insert_stable [simp]: "set (insert_stable lt x ys) = insert x (set ys)"
  by (metis list.set(2) mset.simps(2) mset_insert_stable set_mset_mset)

lemma mset_stable_sort [simp]: "mset (stable_sort lt xs) = mset xs"
  by (induction xs) (auto simp: stable_sort_def)

lemma length_stable_sort [simp]: "length (stable_sort lt xs) = length xs"
  by (metis mset_stable_sort size_mset)

text \<open>The order after a pass: by the criterion, ties in the order before the pass.\<close>

definition lex_after :: "('a \<Rightarrow> 'a \<Rightarrow> bool) \<Rightarrow> ('a \<Rightarrow> 'a \<Rightarrow> bool) \<Rightarrow> 'a \<Rightarrow> 'a \<Rightarrow> bool" where
  "lex_after lt R a b \<longleftrightarrow> \<not> lt b a \<and> (\<not> lt a b \<longrightarrow> R a b)"

lemma insert_stable_sorted:
  assumes lt: "\<And>a b c. \<not> lt b a \<Longrightarrow> \<not> lt c b \<Longrightarrow> \<not> lt c a" "\<And>a b. lt a b \<Longrightarrow> \<not> lt b a"
    and "sorted_wrt (lex_after lt R) ys" "\<forall>y \<in> set ys. R x y"
  shows "sorted_wrt (lex_after lt R) (insert_stable lt x ys)"
  using assms(3,4)
proof (induction ys)
  case (Cons y ys)
  show ?case
  proof (cases "lt y x")
    case True
    then show ?thesis using Cons lt(2) [of y x] by (auto simp: lex_after_def)
  next
    case False
    then have "\<forall>z \<in> set ys. \<not> lt z x" using Cons.prems lt(1) [of y x] by (auto simp: lex_after_def)
    then show ?thesis using False Cons.prems by (auto simp: lex_after_def)
  qed
qed simp

lemma stable_sort_sorted:
  assumes lt: "\<And>a b c. \<not> lt b a \<Longrightarrow> \<not> lt c b \<Longrightarrow> \<not> lt c a" "\<And>a b. lt a b \<Longrightarrow> \<not> lt b a"
    and "sorted_wrt R xs"
  shows "sorted_wrt (lex_after lt R) (stable_sort lt xs)"
  using assms(3)
proof (induction xs)
  case (Cons x xs)
  have "set (foldr (insert_stable lt) xs []) = set xs"
    using mset_stable_sort [of lt xs] by (metis set_mset_mset stable_sort_def)
  with Cons show ?case
    using insert_stable_sorted [of lt R "foldr (insert_stable lt) xs []" x, OF lt] by (simp add: stable_sort_def)
qed (simp add: stable_sort_def)

lemma crit_lt_order:
  "\<not> crit_lt c b a \<Longrightarrow> \<not> crit_lt c d b \<Longrightarrow> \<not> crit_lt c d a" "crit_lt c a b \<Longrightarrow> \<not> crit_lt c b a"
  by (auto simp: crit_lt_def split: if_splits)

text \<open>The order that the criteria describe, the first one the most important.\<close>

fun lex_le :: "criterion list \<Rightarrow> tuple \<Rightarrow> tuple \<Rightarrow> bool" where
  "lex_le [] a b = True"
| "lex_le (c # cs) a b = (crit_lt c a b \<or> (\<not> crit_lt c b a \<and> lex_le cs a b))"

definition sort_key_of :: "criterion list \<Rightarrow> tuple \<Rightarrow> register list" where
  "sort_key_of cs r = map (\<lambda>c. r ! crit_attr c) cs"

lemma sort_rows_sorted: "sort_rows cs xs = Some ys \<Longrightarrow> mset ys = mset xs \<and> sorted_wrt (lex_le cs) ys"
proof (induction cs arbitrary: ys)
  case Nil
  then show ?case by (simp add: sorted_wrt_iff_nth_less)
next
  case (Cons c cs)
  then obtain zs where zs: "sort_rows cs xs = Some zs" "ys = stable_sort (crit_lt c) zs"
    by (auto simp: bind_eq_Some_conv)
  have "sorted_wrt (lex_after (crit_lt c) (lex_le cs)) ys"
    unfolding zs(2)
    by (rule stable_sort_sorted [OF crit_lt_order]) (use Cons.IH [OF zs(1)] in simp_all)
  then have "sorted_wrt (lex_le (c # cs)) ys"
    by (rule sorted_wrt_mono_rel [rotated]) (auto simp: lex_after_def)
  then show ?case using Cons.IH [OF zs(1)] zs(2) by (simp del: lex_le.simps)
qed

lemma insert_stable_filter:
  assumes "\<And>a b. lt a b \<Longrightarrow> \<not> (P a \<and> P b)"
  shows "filter P (insert_stable lt x ys) = filter P (x # ys)"
  using assms by (induction ys) auto

lemma stable_sort_filter:
  assumes "\<And>a b. lt a b \<Longrightarrow> \<not> (P a \<and> P b)"
  shows "filter P (stable_sort lt xs) = filter P xs"
  unfolding stable_sort_def
  by (induction xs) (use insert_stable_filter [of lt P, OF assms] in auto)

lemma sort_rows_stable:
  "sort_rows cs xs = Some ys \<Longrightarrow> filter (\<lambda>r. sort_key_of cs r = k) ys = filter (\<lambda>r. sort_key_of cs r = k) xs"
proof (induction cs arbitrary: ys k)
  case (Cons c cs)
  then obtain zs where zs: "sort_rows cs xs = Some zs" "ys = stable_sort (crit_lt c) zs"
    by (auto simp: bind_eq_Some_conv)
  have "filter (\<lambda>r. sort_key_of (c # cs) r = k) ys = filter (\<lambda>r. sort_key_of (c # cs) r = k) zs"
    unfolding zs(2) by (rule stable_sort_filter) (auto simp: sort_key_of_def crit_lt_def split: if_splits)
  also have "\<dots> = filter (\<lambda>r. sort_key_of (c # cs) r = k) xs"
  proof (cases k)
    case k: (Cons h ks)
    have split: "filter (\<lambda>r. sort_key_of (c # cs) r = k) ys
        = filter (\<lambda>r. r ! crit_attr c = h) (filter (\<lambda>r. sort_key_of cs r = ks) ys)" for ys
      by (induction ys) (auto simp: k sort_key_of_def)
    show ?thesis unfolding split using Cons.IH [OF zs(1)] by simp
  qed (simp add: sort_key_of_def)
  finally show ?case .
qed simp

lemma comparable_mset: "mset xs = mset ys \<Longrightarrow> comparable c xs = comparable c ys"
proof -
  assume m: "mset xs = mset ys"
  have "set xs = set ys" "length xs = length ys" using m mset_eq_setD mset_eq_length by blast+
  moreover have "comparable c zs \<longleftrightarrow> length zs \<le> 1
     \<or> (\<forall>x \<in> set zs. crit_attr c < length x \<and> (\<forall>y \<in> set zs. get_type (x ! crit_attr c) = get_type (y ! crit_attr c)))" for zs
  proof (cases zs)
    case (Cons z zs')
    have "hd zs \<in> set zs" using Cons by simp
    then show ?thesis unfolding comparable_def by (metis (no_types, lifting))
  qed (simp add: comparable_def)
  ultimately show ?thesis by metis
qed

text \<open>The sort succeeds exactly when every criterion can compare the tuples.\<close>

lemma sort_rows_total: "sort_rows cs xs \<noteq> None \<longleftrightarrow> (\<forall>c \<in> set cs. comparable c xs)"
proof (induction cs)
  case (Cons c cs)
  then show ?case
  proof (cases "sort_rows cs xs")
    case (Some ys)
    then show ?thesis using Cons comparable_mset [of ys xs c] sort_rows_sorted [of cs xs ys]
      by (simp add: require_bind_if)
  qed auto
qed simp

section \<open>The operator as an iterator\<close>

definition sort_closed :: "('i \<Rightarrow> bool) \<Rightarrow> ('i \<Rightarrow> tuple list) \<Rightarrow> 'i sort_op \<Rightarrow> bool" where
  "sort_closed closed rows s \<longleftrightarrow> closed (so_input s) \<and> next_output_offset s = 0 \<and> sorted_rows s = []
     \<and> (\<forall>c \<in> set (criteria s). comparable c (rows (so_input s)))"

definition sort_live :: "('i \<Rightarrow> bool) \<Rightarrow> nat \<Rightarrow> ('i \<Rightarrow> tuple list) \<Rightarrow> 'i sort_op \<Rightarrow> bool" where
  "sort_live live width rows s \<longleftrightarrow> length (so_regs s) = width \<and> (\<forall>r \<in> set (sorted_rows s). length r = width) \<and>
     (if next_output_offset s = 0
      then live (so_input s) \<and> sorted_rows s = [] \<and> (\<forall>c \<in> set (criteria s). comparable c (rows (so_input s)))
      else next_output_offset s \<le> length (sorted_rows s))"

definition sort_op_rows :: "('i \<Rightarrow> tuple list) \<Rightarrow> 'i sort_op \<Rightarrow> tuple list" where
  "sort_op_rows rows s =
     (if next_output_offset s = 0 then (case sort_rows (criteria s) (rows (so_input s)) of None \<Rightarrow> [] | Some xs \<Rightarrow> xs)
      else drop (next_output_offset s) (sorted_rows s))"

context iterator
begin

lemma sort_iterator:
  "iterator (sort_open opn out) (sort_next nxt out) sort_out width
     (sort_closed closed rows) (sort_live live width rows) (sort_op_rows rows)"
proof unfold_locales
  fix s r and rs :: "tuple list"
  show "\<exists>s'. sort_open opn out s = Some s' \<and> sort_live live width rows s'
      \<and> sort_op_rows rows s' = sort_op_rows rows s" if "sort_closed closed rows s"
  proof -
    obtain i where i: "opn (so_input s) = Some i" "live i" "rows i = rows (so_input s)"
      using open_live [of "so_input s"] \<open>sort_closed closed rows s\<close> by (auto simp: sort_closed_def)
    obtain regs where "out i = Some regs" "length regs = width" using out_width [OF i(2)] by blast
    then show ?thesis
      using i that by (auto simp: sort_closed_def sort_open_def sort_live_def sort_op_rows_def)
  qed
  show "\<exists>r. sort_out s = Some r \<and> length r = width" if "sort_live live width rows s"
    using that by (simp add: sort_live_def sort_out_def)
  have load: "\<exists>s1. sort_next nxt out s =
        (if next_output_offset s1 = length (sorted_rows s1) then Some (False, s1)
         else Some (True, s1\<lparr>so_regs := sorted_rows s1 ! next_output_offset s1,
                             next_output_offset := next_output_offset s1 + 1\<rparr>))
      \<and> sort_op_rows rows s = drop (next_output_offset s1) (sorted_rows s1)
      \<and> next_output_offset s1 \<le> length (sorted_rows s1) \<and> (\<forall>r \<in> set (sorted_rows s1). length r = width)"
    if l: "sort_live live width rows s"
  proof (cases "next_output_offset s = 0")
    case True
    then have inp: "live (so_input s)" "sorted_rows s = []" "\<forall>c \<in> set (criteria s). comparable c (rows (so_input s))"
      using l by (simp_all add: sort_live_def)
    obtain i where i: "drain nxt out (\<lambda>r xs. Some (xs @ [r])) (so_input s) [] = Some (i, rows (so_input s))"
      using drain_rows [OF inp(1), of "\<lambda>r xs. Some (xs @ [r])" "[]" "rows (so_input s)"] by (auto simp: fold_opt_snoc)
    obtain xs where xs: "sort_rows (criteria s) (rows (so_input s)) = Some xs"
      using sort_rows_total inp(3) by blast
    have "set xs = set (rows (so_input s))" using sort_rows_sorted [OF xs] mset_eq_setD by blast
    then have "\<forall>r \<in> set xs. length r = width" using rows_width [OF inp(1)] by simp
    then show ?thesis
      using True inp i xs
      by (intro exI [of _ "s\<lparr>so_input := i, sorted_rows := xs\<rparr>"]) (auto simp: sort_next_def sort_op_rows_def)
  next
    case False
    then show ?thesis using l
      by (intro exI [of _ s]) (auto simp: sort_next_def sort_op_rows_def sort_live_def)
  qed
  show "length r = width" if "sort_live live width rows s" "r \<in> set (sort_op_rows rows s)"
    using load [OF that(1)] that(2) by (metis in_set_dropD)
  show "\<exists>s'. sort_next nxt out s = Some (True, s') \<and> sort_live live width rows s'
      \<and> sort_op_rows rows s' = rs \<and> sort_out s' = Some r"
    if l: "sort_live live width rows s" "sort_op_rows rows s = r # rs"
  proof -
    obtain s1 where s1: "sort_next nxt out s =
        (if next_output_offset s1 = length (sorted_rows s1) then Some (False, s1)
         else Some (True, s1\<lparr>so_regs := sorted_rows s1 ! next_output_offset s1,
                             next_output_offset := next_output_offset s1 + 1\<rparr>))"
      "drop (next_output_offset s1) (sorted_rows s1) = r # rs"
      "next_output_offset s1 \<le> length (sorted_rows s1)" "\<forall>r \<in> set (sorted_rows s1). length r = width"
      using load [OF l(1)] l(2) by metis
    have lt: "next_output_offset s1 < length (sorted_rows s1)" using s1(2,3) by (metis drop_all le_neq_implies_less list.distinct(1) order_refl)
    then have "sorted_rows s1 ! next_output_offset s1 = r" "drop (Suc (next_output_offset s1)) (sorted_rows s1) = rs"
      using s1(2) Cons_nth_drop_Suc [OF lt] by auto
    then show ?thesis
      using s1(1,4) lt by (auto simp: sort_live_def sort_op_rows_def sort_out_def)
  qed
  show "\<exists>s'. sort_next nxt out s = Some (False, s')" if "sort_live live width rows s" "sort_op_rows rows s = []"
    using load [OF that(1)] that(2) by auto
qed

end

end
