(* ===== verification/Op_Join.thy ===== *)
theory Op_Join
  imports Iterator
begin

text \<open>
  The operator \<open>HashJoin\<close> (\<^verbatim>\<open>src/task-operators/src/algebra.cc\<close>). The hash table is an
  \<open>std::unordered_multimap\<close>: the list of its entries, of which \<open>find\<close> returns any one
  with the key (the parameter \<open>pick\<close>). The flag \<open>ht_build\<close> is never set, so that every
  \<open>next\<close> asks the left input once more after its end.
\<close>

record ('l, 'r) hash_join =
  hj_left :: 'l
  hj_right :: 'r
  attr_index_left :: nat
  attr_index_right :: nat
  ht_build :: bool
  hj_ht :: "(register \<times> tuple) list"
  hj_regs :: tuple

definition hash_join_init :: "'l \<Rightarrow> 'r \<Rightarrow> nat \<Rightarrow> nat \<Rightarrow> ('l, 'r) hash_join" where
  "hash_join_init l r i j = \<lparr>hj_left = l, hj_right = r, attr_index_left = i, attr_index_right = j,
     ht_build = False, hj_ht = [], hj_regs = []\<rparr>"

definition hash_join_open :: "('l \<Rightarrow> 'l option) \<Rightarrow> ('l \<Rightarrow> tuple option) \<Rightarrow> ('r \<Rightarrow> 'r option) \<Rightarrow> ('r \<Rightarrow> tuple option)
    \<Rightarrow> ('l, 'r) hash_join \<Rightarrow> ('l, 'r) hash_join option" where
  "hash_join_open lopn lout ropn rout s = do {
     l \<leftarrow> lopn (hj_left s);
     r \<leftarrow> ropn (hj_right s);
     lregs \<leftarrow> lout l;
     rregs \<leftarrow> rout r;
     Some (s\<lparr>hj_left := l, hj_right := r, hj_regs := resize_regs (length lregs + length rregs) (hj_regs s)\<rparr>) }"

definition join_build :: "nat \<Rightarrow> tuple \<Rightarrow> (register \<times> tuple) list \<Rightarrow> (register \<times> tuple) list option" where
  "join_build i r ht = do { k \<leftarrow> arr_get r i; Some (ht @ [(k, r)]) }"

definition ht_matches :: "(register \<times> tuple) list \<Rightarrow> register \<Rightarrow> tuple list" where
  "ht_matches ht k = map snd (filter (\<lambda>e. fst e = k) ht)"

definition join_probe :: "(tuple list \<Rightarrow> tuple) \<Rightarrow> (register \<times> tuple) list \<Rightarrow> nat \<Rightarrow> tuple \<Rightarrow> tuple
    \<Rightarrow> (bool \<times> tuple) option" where
  "join_probe pick ht j r regs = do {
     k \<leftarrow> arr_get r j;
     if ht_matches ht k = [] then Some (False, regs)
     else do {
       let l = pick (ht_matches ht k);
       regs \<leftarrow> write_regs 0 l regs;
       regs \<leftarrow> write_regs (length l) r regs;
       Some (True, regs) } }"

definition hash_join_next :: "(tuple list \<Rightarrow> tuple) \<Rightarrow> ('l \<Rightarrow> (bool \<times> 'l) option) \<Rightarrow> ('l \<Rightarrow> tuple option)
    \<Rightarrow> ('r \<Rightarrow> (bool \<times> 'r) option) \<Rightarrow> ('r \<Rightarrow> tuple option)
    \<Rightarrow> ('l, 'r) hash_join \<Rightarrow> (bool \<times> ('l, 'r) hash_join) option" where
  "hash_join_next pick lnxt lout rnxt rout s = do {
     (l, ht) \<leftarrow> (if \<not> ht_build s
        then drain lnxt lout (join_build (attr_index_left s)) (hj_left s) (hj_ht s)
        else Some (hj_left s, hj_ht s));
     (found, r, regs) \<leftarrow> seek rnxt rout (join_probe pick ht (attr_index_right s)) (hj_right s) (hj_regs s);
     Some (found, s\<lparr>hj_left := l, hj_right := r, hj_ht := ht, hj_regs := regs\<rparr>) }"

definition hash_join_close :: "('l \<Rightarrow> 'l) \<Rightarrow> ('r \<Rightarrow> 'r) \<Rightarrow> ('l, 'r) hash_join \<Rightarrow> ('l, 'r) hash_join" where
  "hash_join_close lcls rcls s = s\<lparr>hj_left := lcls (hj_left s), hj_right := rcls (hj_right s), hj_ht := []\<rparr>"

definition hash_join_out :: "('l, 'r) hash_join \<Rightarrow> tuple option" where
  "hash_join_out s = Some (hj_regs s)"

section \<open>What it computes\<close>

definition partners :: "nat \<Rightarrow> tuple list \<Rightarrow> register \<Rightarrow> tuple list" where
  "partners i ls k = filter (\<lambda>l. l ! i = k) ls"

definition join_rows :: "(tuple list \<Rightarrow> tuple) \<Rightarrow> nat \<Rightarrow> nat \<Rightarrow> tuple list \<Rightarrow> tuple list \<Rightarrow> tuple list" where
  "join_rows pick i j ls rs =
     map (\<lambda>r. pick (partners i ls (r ! j)) @ r) (filter (\<lambda>r. partners i ls (r ! j) \<noteq> []) rs)"

text \<open>The inner equi-join the operator is for: every matching pair.\<close>

definition equi_join :: "nat \<Rightarrow> nat \<Rightarrow> tuple list \<Rightarrow> tuple list \<Rightarrow> tuple list" where
  "equi_join i j ls rs = concat (map (\<lambda>r. map (\<lambda>l. l @ r) (partners i ls (r ! j))) rs)"

definition valid_pick :: "(tuple list \<Rightarrow> tuple) \<Rightarrow> bool" where
  "valid_pick pick \<longleftrightarrow> (\<forall>ms. ms \<noteq> [] \<longrightarrow> pick ms \<in> set ms)"

lemma join_rows_unique_keys:
  assumes "valid_pick pick" "distinct (map (\<lambda>l. l ! i) ls)"
  shows "join_rows pick i j ls rs = equi_join i j ls rs"
proof -
  have one: "length (partners i ls k) \<le> 1" for k
  proof -
    have "distinct (map (\<lambda>l. l ! i) (partners i ls k))"
      using assms(2) by (simp add: partners_def distinct_map_filter)
    moreover have "set (map (\<lambda>l. l ! i) (partners i ls k)) \<subseteq> {k}" by (auto simp: partners_def)
    ultimately have "length (map (\<lambda>l. l ! i) (partners i ls k)) \<le> card {k}"
      by (metis card_mono distinct_card finite.emptyI finite_insert)
    then show ?thesis by simp
  qed
  have one': "map (\<lambda>l. l @ r) (partners i ls k) = (if partners i ls k = [] then [] else [pick (partners i ls k) @ r])" for k r
  proof (cases "partners i ls k")
    case (Cons m ms)
    then have "partners i ls k = [m]" using one [of k] by simp
    then show ?thesis using assms(1) unfolding valid_pick_def by (metis empty_iff insert_iff list.set list.simps(3) list.simps(8,9))
  qed simp
  then show ?thesis
    unfolding join_rows_def equi_join_def one' by (induction rs) auto
qed

lemma join_rows_at_most_one: "length (join_rows pick i j ls rs) = length (filter (\<lambda>r. partners i ls (r ! j) \<noteq> []) rs)"
  by (simp add: join_rows_def)

lemma fold_join_build:
  "\<forall>r \<in> set rs. i < length r \<Longrightarrow> fold_opt (join_build i) rs ht = Some (ht @ map (\<lambda>r. (r ! i, r)) rs)"
  by (induction rs arbitrary: ht) (auto simp: join_build_def)

lemma ht_matches_partners:
  "\<forall>e \<in> set ht. fst e = snd e ! i \<Longrightarrow> ht_matches ht k = partners i (map snd ht) k"
  by (induction ht) (auto simp: ht_matches_def partners_def)

lemma write_regs_pair:
  assumes "length regs = length l + length r"
  shows "do { regs \<leftarrow> write_regs 0 l regs; write_regs (length l) r regs } = Some (l @ r)"
  using assms by (simp add: write_regs_def memcpy_def)

text \<open>The two inputs of a join: the left one is asked again after its end.\<close>

locale join_inputs =
  left: quiet_iterator lopn lnxt lout lw lclosed llive lrows +
  right: iterator ropn rnxt rout rw rclosed rlive rrows
  for lopn :: "'l \<Rightarrow> 'l option" and lnxt lout lw lclosed llive lrows
    and ropn :: "'r \<Rightarrow> 'r option" and rnxt rout rw rclosed rlive rrows

definition join_closed :: "('l \<Rightarrow> bool) \<Rightarrow> nat \<Rightarrow> ('r \<Rightarrow> bool) \<Rightarrow> nat \<Rightarrow> ('l, 'r) hash_join \<Rightarrow> bool" where
  "join_closed lclosed lw rclosed rw s \<longleftrightarrow> lclosed (hj_left s) \<and> rclosed (hj_right s) \<and> \<not> ht_build s \<and> hj_ht s = []
     \<and> attr_index_left s < lw \<and> attr_index_right s < rw"

definition join_live :: "('l \<Rightarrow> bool) \<Rightarrow> nat \<Rightarrow> ('r \<Rightarrow> bool) \<Rightarrow> nat \<Rightarrow> ('l, 'r) hash_join \<Rightarrow> bool" where
  "join_live llive lw rlive rw s \<longleftrightarrow> llive (hj_left s) \<and> rlive (hj_right s) \<and> \<not> ht_build s
     \<and> attr_index_left s < lw \<and> attr_index_right s < rw \<and> length (hj_regs s) = lw + rw
     \<and> (\<forall>e \<in> set (hj_ht s). fst e = snd e ! attr_index_left s \<and> length (snd e) = lw)"

definition hash_join_rows :: "(tuple list \<Rightarrow> tuple) \<Rightarrow> ('l \<Rightarrow> tuple list) \<Rightarrow> ('r \<Rightarrow> tuple list)
    \<Rightarrow> ('l, 'r) hash_join \<Rightarrow> tuple list" where
  "hash_join_rows pick lrows rrows s =
     join_rows pick (attr_index_left s) (attr_index_right s) (map snd (hj_ht s) @ lrows (hj_left s)) (rrows (hj_right s))"

lemma seek_probe:
  assumes pick: "valid_pick pick" and ht: "\<forall>e \<in> set ht. fst e = snd e ! i \<and> length (snd e) = lw"
    and rs: "\<forall>r \<in> set rs. length r = rw" "j < rw" and regs: "length regs = lw + rw"
  shows "seek_list (join_probe pick ht j) rs regs =
    Some (case dropWhile (\<lambda>r. partners i (map snd ht) (r ! j) = []) rs of
            [] \<Rightarrow> (None, regs)
          | r # rs' \<Rightarrow> (Some (r, rs'), pick (partners i (map snd ht) (r ! j)) @ r))"
  using rs(1)
proof (induction rs)
  case (Cons r rs)
  have m: "ht_matches ht (r ! j) = partners i (map snd ht) (r ! j)"
    using ht by (intro ht_matches_partners) simp
  show ?case
  proof (cases "partners i (map snd ht) (r ! j) = []")
    case True
    then show ?thesis using Cons rs(2) m by (simp add: join_probe_def)
  next
    case False
    let ?l = "pick (partners i (map snd ht) (r ! j))"
    have "?l \<in> set (map snd ht)" using False pick by (auto simp: valid_pick_def partners_def)
    then have "length regs = length ?l + length r" using ht regs Cons.prems by auto
    then have "do { regs \<leftarrow> write_regs 0 ?l regs; write_regs (length ?l) r regs } = Some (?l @ r)"
      by (rule write_regs_pair)
    then have "join_probe pick ht j r regs = Some (True, ?l @ r)"
      using False Cons.prems rs(2) m by (auto simp: join_probe_def Let_def bind_eq_Some_conv)
    then show ?thesis using False by simp
  qed
qed simp

context join_inputs
begin

lemma join_load:
  assumes "join_live llive lw rlive rw s"
  shows "\<exists>l ht. drain lnxt lout (join_build (attr_index_left s)) (hj_left s) (hj_ht s) = Some (l, ht)
    \<and> llive l \<and> lrows l = [] \<and> map snd ht = map snd (hj_ht s) @ lrows (hj_left s)
    \<and> (\<forall>e \<in> set ht. fst e = snd e ! attr_index_left s \<and> length (snd e) = lw)"
proof -
  have w: "\<forall>r \<in> set (lrows (hj_left s)). length r = lw"
    using assms left.rows_width [of "hj_left s"] by (simp add: join_live_def)
  then have "fold_opt (join_build (attr_index_left s)) (lrows (hj_left s)) (hj_ht s)
      = Some (hj_ht s @ map (\<lambda>r. (r ! attr_index_left s, r)) (lrows (hj_left s)))"
    using assms by (intro fold_join_build) (simp add: join_live_def)
  then obtain l where "drain lnxt lout (join_build (attr_index_left s)) (hj_left s) (hj_ht s)
      = Some (l, hj_ht s @ map (\<lambda>r. (r ! attr_index_left s, r)) (lrows (hj_left s)))" "llive l" "lrows l = []"
    using left.drain_rows_quiet [of "hj_left s" "join_build (attr_index_left s)" "hj_ht s"] assms
    unfolding join_live_def by blast
  then show ?thesis using assms w by (auto simp: join_live_def o_def)
qed

lemma hash_join_iterator:
  assumes pick: "valid_pick pick"
  shows "iterator (hash_join_open lopn lout ropn rout) (hash_join_next pick lnxt lout rnxt rout) hash_join_out (lw + rw)
     (join_closed lclosed lw rclosed rw) (join_live llive lw rlive rw) (hash_join_rows pick lrows rrows)"
proof unfold_locales
  fix s r and rs :: "tuple list"
  show "\<exists>s'. hash_join_open lopn lout ropn rout s = Some s' \<and> join_live llive lw rlive rw s'
      \<and> hash_join_rows pick lrows rrows s' = hash_join_rows pick lrows rrows s"
    if c: "join_closed lclosed lw rclosed rw s"
  proof -
    obtain l where l: "lopn (hj_left s) = Some l" "llive l" "lrows l = lrows (hj_left s)"
      using left.open_live [of "hj_left s"] c by (auto simp: join_closed_def)
    obtain r where r: "ropn (hj_right s) = Some r" "rlive r" "rrows r = rrows (hj_right s)"
      using right.open_live [of "hj_right s"] c by (auto simp: join_closed_def)
    obtain lr rr where "lout l = Some lr" "length lr = lw" "rout r = Some rr" "length rr = rw"
      using left.out_width [OF l(2)] right.out_width [OF r(2)] by blast
    then show ?thesis using l r c
      by (auto simp: hash_join_open_def join_closed_def join_live_def hash_join_rows_def)
  qed
  show "\<exists>r. hash_join_out s = Some r \<and> length r = lw + rw" if "join_live llive lw rlive rw s"
    using that by (simp add: hash_join_out_def join_live_def)
  have run: "\<exists>l ht. hash_join_next pick lnxt lout rnxt rout s =
        do { (found, r, regs) \<leftarrow> seek rnxt rout (join_probe pick ht (attr_index_right s)) (hj_right s) (hj_regs s);
             Some (found, s\<lparr>hj_left := l, hj_right := r, hj_ht := ht, hj_regs := regs\<rparr>) }
      \<and> llive l \<and> lrows l = [] \<and> map snd ht = map snd (hj_ht s) @ lrows (hj_left s)
      \<and> (\<forall>e \<in> set ht. fst e = snd e ! attr_index_left s \<and> length (snd e) = lw)
      \<and> seek_list (join_probe pick ht (attr_index_right s)) (rrows (hj_right s)) (hj_regs s) =
          Some (case dropWhile (\<lambda>r. partners (attr_index_left s) (map snd ht) (r ! attr_index_right s) = []) (rrows (hj_right s)) of
            [] \<Rightarrow> (None, hj_regs s)
          | r # rs' \<Rightarrow> (Some (r, rs'), pick (partners (attr_index_left s) (map snd ht) (r ! attr_index_right s)) @ r))"
    if l: "join_live llive lw rlive rw s"
  proof -
    obtain l ht where d: "drain lnxt lout (join_build (attr_index_left s)) (hj_left s) (hj_ht s) = Some (l, ht)"
        "llive l" "lrows l = []" "map snd ht = map snd (hj_ht s) @ lrows (hj_left s)"
        "\<forall>e \<in> set ht. fst e = snd e ! attr_index_left s \<and> length (snd e) = lw"
      using join_load [OF l] by blast
    have r: "\<forall>r \<in> set (rrows (hj_right s)). length r = rw" "attr_index_right s < rw" "length (hj_regs s) = lw + rw"
      using l right.rows_width by (auto simp: join_live_def)
    show ?thesis
      using d l seek_probe [OF pick d(5) r]
      by (intro exI [of _ l] exI [of _ ht]) (simp add: hash_join_next_def join_live_def)
  qed
  show "length r = lw + rw" if l: "join_live llive lw rlive rw s" and r: "r \<in> set (hash_join_rows pick lrows rrows s)"
  proof -
    let ?ls = "map snd (hj_ht s) @ lrows (hj_left s)"
    obtain r0 where r0: "r0 \<in> set (rrows (hj_right s))" "partners (attr_index_left s) ?ls (r0 ! attr_index_right s) \<noteq> []"
      "r = pick (partners (attr_index_left s) ?ls (r0 ! attr_index_right s)) @ r0"
      using r by (auto simp: hash_join_rows_def join_rows_def)
    have "pick (partners (attr_index_left s) ?ls (r0 ! attr_index_right s)) \<in> set ?ls"
      using pick r0(2) unfolding valid_pick_def partners_def by (metis filter_is_subset subsetD)
    moreover have "\<forall>x \<in> set ?ls. length x = lw"
      using l left.rows_width [of "hj_left s"] by (auto simp: join_live_def)
    ultimately show ?thesis using r0 l right.rows_width [of "hj_right s" r0] by (simp add: join_live_def)
  qed
  show "\<exists>s'. hash_join_next pick lnxt lout rnxt rout s = Some (True, s') \<and> join_live llive lw rlive rw s'
      \<and> hash_join_rows pick lrows rrows s' = rs \<and> hash_join_out s' = Some r"
    if l: "join_live llive lw rlive rw s" and r: "hash_join_rows pick lrows rrows s = r # rs"
  proof -
    obtain l ht where d: "hash_join_next pick lnxt lout rnxt rout s =
        do { (found, r, regs) \<leftarrow> seek rnxt rout (join_probe pick ht (attr_index_right s)) (hj_right s) (hj_regs s);
             Some (found, s\<lparr>hj_left := l, hj_right := r, hj_ht := ht, hj_regs := regs\<rparr>) }"
      "llive l" "lrows l = []" "map snd ht = map snd (hj_ht s) @ lrows (hj_left s)"
      "\<forall>e \<in> set ht. fst e = snd e ! attr_index_left s \<and> length (snd e) = lw"
      "seek_list (join_probe pick ht (attr_index_right s)) (rrows (hj_right s)) (hj_regs s) =
          Some (case dropWhile (\<lambda>r. partners (attr_index_left s) (map snd ht) (r ! attr_index_right s) = []) (rrows (hj_right s)) of
            [] \<Rightarrow> (None, hj_regs s)
          | r # rs' \<Rightarrow> (Some (r, rs'), pick (partners (attr_index_left s) (map snd ht) (r ! attr_index_right s)) @ r))"
      using run [OF l] by blast
    let ?p = "\<lambda>r. partners (attr_index_left s) (map snd ht) (r ! attr_index_right s)"
    have J: "map (\<lambda>r. pick (?p r) @ r) (filter (\<lambda>r. ?p r \<noteq> []) (rrows (hj_right s))) = r # rs"
      using r d(4) by (simp add: hash_join_rows_def join_rows_def)
    then obtain r0 rs0 where f: "filter (\<lambda>r. ?p r \<noteq> []) (rrows (hj_right s)) = r0 # rs0"
      "r = pick (?p r0) @ r0" "rs = map (\<lambda>r. pick (?p r) @ r) rs0" by auto
    obtain rs1 where rs1: "dropWhile (\<lambda>r. ?p r = []) (rrows (hj_right s)) = r0 # rs1" "filter (\<lambda>r. ?p r \<noteq> []) rs1 = rs0"
      using filter_Cons_dropWhile [OF f(1)] by auto
    obtain i where i: "seek rnxt rout (join_probe pick ht (attr_index_right s)) (hj_right s) (hj_regs s)
        = Some (True, i, r)" "rlive i" "rrows i = rs1"
      using right.seek_hit [of "hj_right s" "join_probe pick ht (attr_index_right s)" "hj_regs s" r0 rs1 r] d(6) l rs1(1) f(2)
      by (auto simp: join_live_def)
    have "length r = lw + rw"
    proof -
      have "r0 \<in> set (rrows (hj_right s))" "?p r0 \<noteq> []" using f(1) by (auto simp: filter_eq_Cons_iff)
      moreover have "pick (?p r0) \<in> set (map snd ht)"
        using pick \<open>?p r0 \<noteq> []\<close> unfolding valid_pick_def partners_def by (metis filter_is_subset subsetD)
      ultimately show ?thesis using d(5) f(2) l right.rows_width [of "hj_right s" r0] by (auto simp: join_live_def)
    qed
    then show ?thesis
      using d(1-5) i l f(3) rs1(2)
      by (auto simp: join_live_def hash_join_rows_def join_rows_def hash_join_out_def)
  qed
  show "\<exists>s'. hash_join_next pick lnxt lout rnxt rout s = Some (False, s')"
    if l: "join_live llive lw rlive rw s" and r: "hash_join_rows pick lrows rrows s = []"
  proof -
    obtain l ht where d: "hash_join_next pick lnxt lout rnxt rout s =
        do { (found, r, regs) \<leftarrow> seek rnxt rout (join_probe pick ht (attr_index_right s)) (hj_right s) (hj_regs s);
             Some (found, s\<lparr>hj_left := l, hj_right := r, hj_ht := ht, hj_regs := regs\<rparr>) }"
      "map snd ht = map snd (hj_ht s) @ lrows (hj_left s)"
      "seek_list (join_probe pick ht (attr_index_right s)) (rrows (hj_right s)) (hj_regs s) =
          Some (case dropWhile (\<lambda>r. partners (attr_index_left s) (map snd ht) (r ! attr_index_right s) = []) (rrows (hj_right s)) of
            [] \<Rightarrow> (None, hj_regs s)
          | r # rs' \<Rightarrow> (Some (r, rs'), pick (partners (attr_index_left s) (map snd ht) (r ! attr_index_right s)) @ r))"
      using run [OF l] by blast
    let ?p = "\<lambda>r. partners (attr_index_left s) (map snd ht) (r ! attr_index_right s)"
    have dw: "dropWhile (\<lambda>r. ?p r = []) (rrows (hj_right s)) = []"
      using r d(2) by (auto simp: hash_join_rows_def join_rows_def filter_empty_conv dropWhile_eq_Nil_conv)
    have "seek_list (join_probe pick ht (attr_index_right s)) (rrows (hj_right s)) (hj_regs s) = Some (None, hj_regs s)"
      using d(3) unfolding dw by simp
    then obtain i where "seek rnxt rout (join_probe pick ht (attr_index_right s)) (hj_right s) (hj_regs s)
        = Some (False, i, hj_regs s)"
      using right.seek_miss [of "hj_right s" "join_probe pick ht (attr_index_right s)" "hj_regs s" "hj_regs s"] l
      by (auto simp: join_live_def)
    then show ?thesis using d(1) by simp
  qed
qed

end

interpretation scans: join_inputs scan_open scan_next scan_out lw "scan_closed lw" "scan_live lw" scan_rows
    scan_open scan_next scan_out rw "scan_closed rw" "scan_live rw" scan_rows for lw rw
  by unfold_locales

end
