(* ===== verification/Op_Aggregation.thy ===== *)
theory Op_Aggregation
  imports Iterator "HOL-Library.AList"
begin

text \<open>
  The operator \<open>HashAggregation\<close> (\<^verbatim>\<open>src/task-operators/src/algebra.cc\<close>). The hash table maps
  a group to its aggregates; the order in which the library iterates over it is the parameter
  \<open>ord\<close>. The iterator is the list of the entries that remain; advancing it past the end
  fails. A sum outside 64 bits is undefined in the source and fails in the model.
\<close>

datatype aggr_kind = MIN_AGGR | MAX_AGGR | SUM_AGGR | COUNT_AGGR

record aggr_func =
  func :: aggr_kind
  aggr_attr :: nat

type_synonym aggr_table = "(tuple \<times> tuple) list"

record 'i aggregation =
  ha_input :: 'i
  group_by_attrs :: "nat list"
  aggr_funcs :: "aggr_func list"
  ha_seen :: bool
  ha_regs :: tuple
  ha_ht :: aggr_table
  ha_it :: aggr_table

definition aggregation_init :: "'i \<Rightarrow> nat list \<Rightarrow> aggr_func list \<Rightarrow> 'i aggregation" where
  "aggregation_init i gs fs = \<lparr>ha_input = i, group_by_attrs = gs, aggr_funcs = fs, ha_seen = False,
     ha_regs = [], ha_ht = [], ha_it = []\<rparr>"

definition int64_max :: int where
  "int64_max = 2 ^ 63 - 1"

definition int64_ok :: "int \<Rightarrow> bool" where
  "int64_ok i \<longleftrightarrow> - int64_max - 1 \<le> i \<and> i \<le> int64_max"

definition aggr_init :: "tuple \<Rightarrow> aggr_func \<Rightarrow> register option" where
  "aggr_init r f =
     (case func f of
        MIN_AGGR \<Rightarrow> arr_get r (aggr_attr f)
      | MAX_AGGR \<Rightarrow> arr_get r (aggr_attr f)
      | SUM_AGGR \<Rightarrow> Some (from_int 0)
      | COUNT_AGGR \<Rightarrow> Some (from_int 0))"

definition aggr_step :: "tuple \<Rightarrow> aggr_func \<Rightarrow> register \<Rightarrow> register option" where
  "aggr_step r f a =
     (case func f of
        MIN_AGGR \<Rightarrow> do { x \<leftarrow> arr_get r (aggr_attr f); reg_min a x }
      | MAX_AGGR \<Rightarrow> do { x \<leftarrow> arr_get r (aggr_attr f); reg_max a x }
      | SUM_AGGR \<Rightarrow> do {
          require (get_type a = INT64);
          i \<leftarrow> as_int a;
          x \<leftarrow> arr_get r (aggr_attr f);
          j \<leftarrow> as_int x;
          require (int64_ok (i + j));
          Some (from_int (i + j)) }
      | COUNT_AGGR \<Rightarrow> do {
          require (get_type a = INT64);
          i \<leftarrow> as_int a;
          require (int64_ok (i + 1));
          Some (from_int (i + 1)) })"

text \<open>The body of the loop over the input.\<close>

definition aggr_tuple :: "nat list \<Rightarrow> aggr_func list \<Rightarrow> tuple \<Rightarrow> aggr_table \<Rightarrow> aggr_table option" where
  "aggr_tuple gs fs r ht = do {
     grp \<leftarrow> map_opt (arr_get r) gs;
     let aggregates = (case map_of ht grp of None \<Rightarrow> [] | Some a \<Rightarrow> a);
     aggregates \<leftarrow> (if aggregates = [] then map_opt (aggr_init r) fs else Some aggregates);
     aggregates \<leftarrow> map_opt (\<lambda>i. do { f \<leftarrow> arr_get fs i; a \<leftarrow> arr_get aggregates i; aggr_step r f a }) [0..<length fs];
     Some (AList.update grp aggregates ht) }"

definition aggregation_open :: "('i \<Rightarrow> 'i option) \<Rightarrow> ('i \<Rightarrow> tuple option) \<Rightarrow> 'i aggregation \<Rightarrow> 'i aggregation option" where
  "aggregation_open opn out s = do {
     i \<leftarrow> opn (ha_input s);
     _ \<leftarrow> out i;
     Some (s\<lparr>ha_input := i,
             ha_regs := resize_regs (length (group_by_attrs s) + length (aggr_funcs s)) (ha_regs s)\<rparr>) }"

definition aggregation_next :: "(aggr_table \<Rightarrow> aggr_table) \<Rightarrow> ('i \<Rightarrow> (bool \<times> 'i) option) \<Rightarrow> ('i \<Rightarrow> tuple option)
    \<Rightarrow> 'i aggregation \<Rightarrow> (bool \<times> 'i aggregation) option" where
  "aggregation_next ord nxt out s = do {
     s \<leftarrow> (if \<not> ha_seen s then do {
             (i, ht) \<leftarrow> drain nxt out (aggr_tuple (group_by_attrs s) (aggr_funcs s)) (ha_input s) (ha_ht s);
             Some (s\<lparr>ha_input := i, ha_ht := ht, ha_it := ord ht, ha_seen := True\<rparr>) }
           else do { require (ha_it s \<noteq> []); Some (s\<lparr>ha_it := tl (ha_it s)\<rparr>) });
     case ha_it s of
       [] \<Rightarrow> Some (False, s)
     | (grp, aggregates) # _ \<Rightarrow> do {
         regs \<leftarrow> memcpy (ha_regs s) 0 grp 0 (length (group_by_attrs s));
         regs \<leftarrow> memcpy regs (length (group_by_attrs s)) aggregates 0 (length (aggr_funcs s));
         Some (True, s\<lparr>ha_regs := regs\<rparr>) } }"

definition aggregation_close :: "('i \<Rightarrow> 'i) \<Rightarrow> 'i aggregation \<Rightarrow> 'i aggregation" where
  "aggregation_close cls s = s\<lparr>ha_input := cls (ha_input s), ha_ht := []\<rparr>"

definition aggregation_out :: "'i aggregation \<Rightarrow> tuple option" where
  "aggregation_out s = Some (ha_regs s)"

section \<open>The aggregates of a group\<close>

definition group_of :: "nat list \<Rightarrow> tuple \<Rightarrow> tuple" where
  "group_of gs r = map (\<lambda>i. r ! i) gs"

fun int_of :: "register \<Rightarrow> int" where
  "int_of (IntReg i) = i"
| "int_of (CharReg s) = 0"

definition column :: "nat \<Rightarrow> tuple list \<Rightarrow> register list" where
  "column i rs = map (\<lambda>r. r ! i) rs"

definition aggr_value :: "tuple list \<Rightarrow> aggr_func \<Rightarrow> register" where
  "aggr_value rs f =
     (case func f of
        MIN_AGGR \<Rightarrow> Min (set (column (aggr_attr f) rs))
      | MAX_AGGR \<Rightarrow> Max (set (column (aggr_attr f) rs))
      | SUM_AGGR \<Rightarrow> IntReg (sum_list (map int_of (column (aggr_attr f) rs)))
      | COUNT_AGGR \<Rightarrow> IntReg (int (length rs)))"

text \<open>What the functions need of the tuples: attributes that exist, one type per
  aggregated column, integers whose sums stay within 64 bits.\<close>

definition aggr_ok :: "nat \<Rightarrow> tuple list \<Rightarrow> aggr_func \<Rightarrow> bool" where
  "aggr_ok width rs f \<longleftrightarrow> aggr_attr f < width
     \<and> (func f = MIN_AGGR \<or> func f = MAX_AGGR \<longrightarrow>
          (\<exists>t. \<forall>x \<in> set (column (aggr_attr f) rs). get_type x = t))
     \<and> (func f = SUM_AGGR \<longrightarrow> (\<forall>x \<in> set (column (aggr_attr f) rs). get_type x = INT64)
          \<and> sum_list (map (\<lambda>x. \<bar>int_of x\<bar>) (column (aggr_attr f) rs)) \<le> int64_max)"

definition aggregable :: "nat \<Rightarrow> nat list \<Rightarrow> aggr_func list \<Rightarrow> tuple list \<Rightarrow> bool" where
  "aggregable width gs fs rs \<longleftrightarrow> (\<forall>g \<in> set gs. g < width) \<and> int (length rs) \<le> int64_max
     \<and> (\<forall>f \<in> set fs. aggr_ok width rs f)"

definition group_rows :: "nat list \<Rightarrow> tuple \<Rightarrow> tuple list \<Rightarrow> tuple list" where
  "group_rows gs k rs = filter (\<lambda>r. group_of gs r = k) rs"

definition table_of :: "nat list \<Rightarrow> aggr_func list \<Rightarrow> tuple list \<Rightarrow> aggr_table \<Rightarrow> bool" where
  "table_of gs fs rs ht \<longleftrightarrow> distinct (map fst ht) \<and> set (map fst ht) = group_of gs ` set rs
     \<and> (\<forall>k a. map_of ht k = Some a \<longrightarrow> a = map (aggr_value (group_rows gs k rs)) fs)"

lemma aggr_ok_prefix: "aggr_ok w (rs @ [r]) f \<Longrightarrow> aggr_ok w rs f"
  by (auto simp: aggr_ok_def column_def)

lemma aggregable_prefix: "aggregable w gs fs (rs @ [r]) \<Longrightarrow> aggregable w gs fs rs"
  by (auto simp: aggregable_def dest: aggr_ok_prefix)

lemma sum_bound:
  assumes "sum_list (map (\<lambda>x. \<bar>int_of x\<bar>) xs) \<le> int64_max"
  shows "int64_ok (sum_list (map int_of xs))"
proof -
  have "\<bar>sum_list (map int_of xs)\<bar> \<le> sum_list (map (\<lambda>x. \<bar>int_of x\<bar>) xs)"
    by (induction xs) auto
  with assms show ?thesis unfolding int64_ok_def by linarith
qed

lemma group_rows_sum_le:
  "sum_list (map (\<lambda>x. \<bar>int_of x\<bar>) (column i (group_rows gs k rs))) \<le> sum_list (map (\<lambda>x. \<bar>int_of x\<bar>) (column i rs))"
  by (induction rs) (auto simp: column_def group_rows_def)

lemma aggr_ok_sum:
  assumes "aggr_ok w rs f" "func f = SUM_AGGR"
  shows "int64_ok (sum_list (map int_of (column (aggr_attr f) (group_rows gs k rs))))"
    and "r \<in> set rs \<Longrightarrow> \<exists>j. r ! aggr_attr f = IntReg j"
proof -
  have "sum_list (map (\<lambda>x. \<bar>int_of x\<bar>) (column (aggr_attr f) rs)) \<le> int64_max"
    using assms by (simp add: aggr_ok_def)
  then show "int64_ok (sum_list (map int_of (column (aggr_attr f) (group_rows gs k rs))))"
    by (intro sum_bound order_trans [OF group_rows_sum_le])
  assume "r \<in> set rs"
  then have "get_type (r ! aggr_attr f) = INT64" using assms by (simp add: aggr_ok_def column_def)
  then show "\<exists>j. r ! aggr_attr f = IntReg j" by (cases "r ! aggr_attr f") auto
qed

lemma aggr_ok_type:
  assumes "aggr_ok w rs f" "func f = MIN_AGGR \<or> func f = MAX_AGGR" "r \<in> set rs"
    and "x \<in> set (column (aggr_attr f) (group_rows gs k rs))"
  shows "get_type x = get_type (r ! aggr_attr f)"
proof -
  obtain t where t: "\<forall>x \<in> set (column (aggr_attr f) rs). get_type x = t"
    using assms(1,2) unfolding aggr_ok_def by blast
  have "x \<in> set (column (aggr_attr f) rs)" "r ! aggr_attr f \<in> set (column (aggr_attr f) rs)"
    using assms(3,4) by (auto simp: column_def group_rows_def)
  with t show ?thesis by simp
qed

lemma aggr_step_value:
  assumes ok: "aggr_ok w (rs @ [r]) f" and len: "int (length (rs @ [r])) \<le> int64_max" and w: "length r = w"
    and k: "k = group_of gs r" and g: "group_rows gs k rs \<noteq> []"
  shows "aggr_step r f (aggr_value (group_rows gs k rs) f) = Some (aggr_value (group_rows gs k (rs @ [r])) f)"
proof -
  let ?xs = "column (aggr_attr f) (group_rows gs k rs)"
  have at: "aggr_attr f < length r" using ok w by (simp add: aggr_ok_def)
  have new: "group_rows gs k (rs @ [r]) = group_rows gs k rs @ [r]" using k by (simp add: group_rows_def)
  have ne: "set ?xs \<noteq> {}" using g by (simp add: column_def)
  have sub: "x \<in> set ?xs \<Longrightarrow> x \<in> set (column (aggr_attr f) (group_rows gs k (rs @ [r])))" for x
    by (simp add: new column_def)
  show ?thesis
  proof (cases "func f")
    case MIN_AGGR
    have "get_type (Min (set ?xs)) = get_type (r ! aggr_attr f)"
      by (rule aggr_ok_type [OF ok _ _ sub]) (use MIN_AGGR ne in auto)
    then show ?thesis using MIN_AGGR at new ne
      by (simp add: aggr_step_def aggr_value_def reg_min_eq column_def min.commute)
  next
    case MAX_AGGR
    have "get_type (Max (set ?xs)) = get_type (r ! aggr_attr f)"
      by (rule aggr_ok_type [OF ok _ _ sub]) (use MAX_AGGR ne in auto)
    then show ?thesis using MAX_AGGR at new ne
      by (simp add: aggr_step_def aggr_value_def reg_max_eq column_def max.commute)
  next
    case SUM_AGGR
    obtain j where "r ! aggr_attr f = IntReg j" using aggr_ok_sum(2) [OF ok SUM_AGGR, of r] by auto
    then show ?thesis using SUM_AGGR at new aggr_ok_sum(1) [OF ok SUM_AGGR, of gs k]
      by (simp add: aggr_step_def aggr_value_def column_def from_int_def)
  next
    case COUNT_AGGR
    have "length (group_rows gs k rs) \<le> length rs" by (simp add: group_rows_def)
    then have "int64_ok (int (length (group_rows gs k rs)) + 1)" using len unfolding int64_ok_def by simp
    then show ?thesis using COUNT_AGGR new by (simp add: aggr_step_def aggr_value_def from_int_def add.commute)
  qed
qed

lemma aggr_first_value:
  assumes ok: "aggr_ok w (rs @ [r]) f" and w: "length r = w"
    and k: "k = group_of gs r" and g: "group_rows gs k rs = []"
  shows "\<exists>x. aggr_init r f = Some x \<and> aggr_step r f x = Some (aggr_value (group_rows gs k (rs @ [r])) f)"
proof -
  have at: "aggr_attr f < length r" using ok w by (simp add: aggr_ok_def)
  have new: "group_rows gs k (rs @ [r]) = [r]" using k g by (simp add: group_rows_def)
  show ?thesis
  proof (cases "func f")
    case SUM_AGGR
    obtain j where "r ! aggr_attr f = IntReg j" using aggr_ok_sum(2) [OF ok SUM_AGGR, of r] by auto
    then show ?thesis using SUM_AGGR at new aggr_ok_sum(1) [OF ok SUM_AGGR, of gs k]
      by (simp add: aggr_init_def aggr_step_def aggr_value_def column_def from_int_def)
  next
    case COUNT_AGGR
    have "int64_ok 1" by (simp add: int64_ok_def int64_max_def)
    then show ?thesis using COUNT_AGGR new by (simp add: aggr_init_def aggr_step_def aggr_value_def from_int_def)
  qed (use at new in \<open>simp_all add: aggr_init_def aggr_step_def aggr_value_def column_def reg_min_eq reg_max_eq\<close>)
qed

lemma map_opt_nth: "length as = length fs \<Longrightarrow> (\<And>i. i < length fs \<Longrightarrow> h (fs ! i) (as ! i) = Some (g (fs ! i)))
  \<Longrightarrow> map_opt (\<lambda>i. do { f \<leftarrow> arr_get fs i; a \<leftarrow> arr_get as i; h f a }) [0..<length fs] = Some (map g fs)"
  by (subst map_opt_total [where g = "\<lambda>i. g (fs ! i)"]) (auto intro!: nth_equalityI)

lemma aggr_tuple_ok:
  assumes t: "table_of gs fs rs ht" and a: "aggregable w gs fs (rs @ [r])" and w: "length r = w"
  shows "\<exists>ht'. aggr_tuple gs fs r ht = Some ht' \<and> table_of gs fs (rs @ [r]) ht'"
proof -
  define k where "k = group_of gs r"
  let ?new = "map (aggr_value (group_rows gs k (rs @ [r]))) fs"
  have grp: "map_opt (arr_get r) gs = Some k"
    unfolding k_def group_of_def using a w by (intro map_opt_total) (simp add: aggregable_def)
  have ok: "aggr_ok w (rs @ [r]) f" if "f \<in> set fs" for f using a that by (simp add: aggregable_def)
  have len: "int (length (rs @ [r])) \<le> int64_max" using a by (simp add: aggregable_def)
  have "\<exists>as. (if (case map_of ht k of None \<Rightarrow> [] | Some a \<Rightarrow> a) = [] then map_opt (aggr_init r) fs
        else Some (case map_of ht k of None \<Rightarrow> [] | Some a \<Rightarrow> a)) = Some as \<and> length as = length fs
      \<and> (\<forall>i < length fs. aggr_step r (fs ! i) (as ! i) = Some (aggr_value (group_rows gs k (rs @ [r])) (fs ! i)))"
  proof (cases "group_rows gs k rs = []")
    case True
    then have "k \<notin> set (map fst ht)"
      using t by (auto simp: table_of_def group_rows_def filter_empty_conv)
    then have none: "map_of ht k = None" by (simp add: map_of_eq_None_iff)
    obtain h where h: "\<And>f. f \<in> set fs \<Longrightarrow> aggr_init r f = Some (h f)
        \<and> aggr_step r f (h f) = Some (aggr_value (group_rows gs k (rs @ [r])) f)"
      using aggr_first_value [OF ok w k_def True] by metis
    then have "map_opt (aggr_init r) fs = Some (map h fs)" by (intro map_opt_total) blast
    then show ?thesis using none h by auto
  next
    case False
    then have "k \<in> set (map fst ht)"
      using t by (fastforce simp: table_of_def group_rows_def filter_empty_conv)
    then obtain b where "map_of ht k = Some b" by (metis list.set_map map_of_eq_None_iff not_Some_eq)
    moreover from this have "b = map (aggr_value (group_rows gs k rs)) fs" using t by (simp add: table_of_def)
    moreover have "\<forall>i < length fs. aggr_step r (fs ! i) (map (aggr_value (group_rows gs k rs)) fs ! i)
        = Some (aggr_value (group_rows gs k (rs @ [r])) (fs ! i))"
      using aggr_step_value [OF ok len w k_def False] by simp
    ultimately show ?thesis by (cases "fs = []") auto
  qed
  then obtain as where as: "(if (case map_of ht k of None \<Rightarrow> [] | Some a \<Rightarrow> a) = [] then map_opt (aggr_init r) fs
        else Some (case map_of ht k of None \<Rightarrow> [] | Some a \<Rightarrow> a)) = Some as" "length as = length fs"
      "\<forall>i < length fs. aggr_step r (fs ! i) (as ! i) = Some (aggr_value (group_rows gs k (rs @ [r])) (fs ! i))" by blast
  have "aggr_tuple gs fs r ht = Some (AList.update k ?new ht)"
    using grp as map_opt_nth [OF as(2), of "aggr_step r" "aggr_value (group_rows gs k (rs @ [r]))"]
    by (simp add: aggr_tuple_def Let_def)
  moreover have "table_of gs fs (rs @ [r]) (AList.update k ?new ht)"
  proof -
    have "group_rows gs k' (rs @ [r]) = group_rows gs k' rs" if "k' \<noteq> k" for k'
      using that by (simp add: group_rows_def k_def)
    then show ?thesis
      using t by (auto simp: table_of_def AList.distinct_update AList.dom_update AList.update_conv' k_def split: if_splits)
  qed
  ultimately show ?thesis by blast
qed

lemma aggr_fold_ok:
  "aggregable w gs fs rs \<Longrightarrow> \<forall>r \<in> set rs. length r = w
    \<Longrightarrow> \<exists>ht. fold_opt (aggr_tuple gs fs) rs [] = Some ht \<and> table_of gs fs rs ht"
proof (induction rs rule: rev_induct)
  case Nil
  then show ?case by (simp add: table_of_def)
next
  case (snoc r rs)
  obtain ht where ht: "fold_opt (aggr_tuple gs fs) rs [] = Some ht" "table_of gs fs rs ht"
    using snoc aggregable_prefix by fastforce
  obtain ht' where "aggr_tuple gs fs r ht = Some ht'" "table_of gs fs (rs @ [r]) ht'"
    using aggr_tuple_ok [OF ht(2) snoc.prems(1)] snoc.prems(2) by auto
  then show ?case using ht by (simp add: fold_opt_append)
qed

definition aggr_rows :: "nat list \<Rightarrow> aggr_func list \<Rightarrow> tuple list \<Rightarrow> tuple list" where
  "aggr_rows gs fs rs =
     map (\<lambda>k. k @ map (aggr_value (group_rows gs k rs)) fs) (remdups (map (group_of gs) rs))"

lemma table_rows:
  assumes "table_of gs fs rs ht"
  shows "mset (map (\<lambda>(k, a). k @ a) ht) = mset (aggr_rows gs fs rs)"
proof -
  have "map (\<lambda>(k, a). k @ a) ht = map (\<lambda>k. k @ map (aggr_value (group_rows gs k rs)) fs) (map fst ht)"
    using assms by (auto simp: table_of_def)
  then have "mset (map (\<lambda>(k, a). k @ a) ht)
      = image_mset (\<lambda>k. k @ map (aggr_value (group_rows gs k rs)) fs) (mset (map fst ht))"
    by (metis mset_map)
  also have "mset (map fst ht) = mset (remdups (map (group_of gs) rs))"
    using assms by (intro set_eq_iff_mset_eq_distinct [THEN iffD1]) (auto simp: table_of_def)
  finally show ?thesis by (simp only: aggr_rows_def mset_map)
qed

section \<open>The operator as an iterator\<close>

definition aggregation_closed :: "('i \<Rightarrow> bool) \<Rightarrow> nat \<Rightarrow> ('i \<Rightarrow> tuple list) \<Rightarrow> nat \<Rightarrow> 'i aggregation \<Rightarrow> bool" where
  "aggregation_closed closed width rows n s \<longleftrightarrow> closed (ha_input s) \<and> \<not> ha_seen s \<and> ha_ht s = []
     \<and> n = length (group_by_attrs s) + length (aggr_funcs s)
     \<and> aggregable width (group_by_attrs s) (aggr_funcs s) (rows (ha_input s))"

definition aggregation_live :: "('i \<Rightarrow> bool) \<Rightarrow> nat \<Rightarrow> ('i \<Rightarrow> tuple list) \<Rightarrow> nat \<Rightarrow> 'i aggregation \<Rightarrow> bool" where
  "aggregation_live live width rows n s \<longleftrightarrow>
     n = length (group_by_attrs s) + length (aggr_funcs s) \<and> length (ha_regs s) = n \<and>
     (if ha_seen s
      then ha_it s \<noteq> []
        \<and> (\<forall>e \<in> set (ha_it s). length (fst e) = length (group_by_attrs s) \<and> length (snd e) = length (aggr_funcs s))
      else live (ha_input s) \<and> ha_ht s = []
        \<and> aggregable width (group_by_attrs s) (aggr_funcs s) (rows (ha_input s)))"

definition aggregation_rows :: "(aggr_table \<Rightarrow> aggr_table) \<Rightarrow> ('i \<Rightarrow> tuple list) \<Rightarrow> 'i aggregation \<Rightarrow> tuple list" where
  "aggregation_rows ord rows s = map (\<lambda>(k, a). k @ a)
     (if ha_seen s then tl (ha_it s)
      else (case fold_opt (aggr_tuple (group_by_attrs s) (aggr_funcs s)) (rows (ha_input s)) [] of
              None \<Rightarrow> [] | Some ht \<Rightarrow> ord ht))"

lemma table_lengths:
  "table_of gs fs rs ht \<Longrightarrow> (k, a) \<in> set ht \<Longrightarrow> length k = length gs \<and> length a = length fs"
proof -
  assume t: "table_of gs fs rs ht" and i: "(k, a) \<in> set ht"
  have "k \<in> group_of gs ` set rs" using t i unfolding table_of_def by (metis fst_conv image_eqI list.set_map)
  then have "length k = length gs" by (auto simp: group_of_def)
  moreover have "map_of ht k = Some a" using t i by (simp add: table_of_def)
  then have "a = map (aggr_value (group_rows gs k rs)) fs" using t unfolding table_of_def by blast
  ultimately show ?thesis by simp
qed

lemma aggregation_output:
  assumes "length regs = length gs + length fs" "length k = length gs" "length a = length fs"
  shows "do { regs \<leftarrow> memcpy regs 0 k 0 (length gs); memcpy regs (length gs) a 0 (length fs) } = Some (k @ a)"
  using assms by (simp add: memcpy_def)

context iterator
begin

lemma aggregation_load:
  assumes ord: "valid_order ord" and l: "aggregation_live live width rows n s"
  shows "\<exists>s1. aggregation_next ord nxt out s =
      (case ha_it s1 of [] \<Rightarrow> Some (False, s1) | (k, a) # _ \<Rightarrow> Some (True, s1\<lparr>ha_regs := k @ a\<rparr>))
    \<and> aggregation_rows ord rows s = map (\<lambda>(k, a). k @ a) (ha_it s1) \<and> ha_seen s1
    \<and> group_by_attrs s1 = group_by_attrs s \<and> aggr_funcs s1 = aggr_funcs s
    \<and> (\<forall>e \<in> set (ha_it s1). length (fst e) = length (group_by_attrs s) \<and> length (snd e) = length (aggr_funcs s))"
proof -
  have "\<exists>s1. (if \<not> ha_seen s then do {
             (i, ht) \<leftarrow> drain nxt out (aggr_tuple (group_by_attrs s) (aggr_funcs s)) (ha_input s) (ha_ht s);
             Some (s\<lparr>ha_input := i, ha_ht := ht, ha_it := ord ht, ha_seen := True\<rparr>) }
           else do { require (ha_it s \<noteq> []); Some (s\<lparr>ha_it := tl (ha_it s)\<rparr>) }) = Some s1
    \<and> aggregation_rows ord rows s = map (\<lambda>(k, a). k @ a) (ha_it s1) \<and> ha_seen s1
    \<and> group_by_attrs s1 = group_by_attrs s \<and> aggr_funcs s1 = aggr_funcs s \<and> ha_regs s1 = ha_regs s
    \<and> (\<forall>e \<in> set (ha_it s1). length (fst e) = length (group_by_attrs s) \<and> length (snd e) = length (aggr_funcs s))"
  proof (cases "ha_seen s")
    case True
    then have "set (tl (ha_it s)) \<subseteq> set (ha_it s)" by (metis list.set_sel(2) list.sel(2) subsetI)
    then show ?thesis using True l by (auto simp: aggregation_live_def aggregation_rows_def)
  next
    case False
    then have inp: "live (ha_input s)" "ha_ht s = []" "aggregable width (group_by_attrs s) (aggr_funcs s) (rows (ha_input s))"
      using l by (simp_all add: aggregation_live_def)
    have "\<forall>r \<in> set (rows (ha_input s)). length r = width" using rows_width [OF inp(1)] by blast
    then obtain ht where ht: "fold_opt (aggr_tuple (group_by_attrs s) (aggr_funcs s)) (rows (ha_input s)) [] = Some ht"
        "table_of (group_by_attrs s) (aggr_funcs s) (rows (ha_input s)) ht"
      using aggr_fold_ok [OF inp(3)] by blast
    obtain i where "drain nxt out (aggr_tuple (group_by_attrs s) (aggr_funcs s)) (ha_input s) [] = Some (i, ht)"
      using drain_rows [OF inp(1) ht(1)] by blast
    moreover have "set (ord ht) = set ht" using ord by (metis valid_order_def set_mset_mset)
    ultimately show ?thesis
      using False inp ht table_lengths [OF ht(2)] by (auto simp: aggregation_rows_def)
  qed
  then obtain s1 where s1: "(if \<not> ha_seen s then do {
             (i, ht) \<leftarrow> drain nxt out (aggr_tuple (group_by_attrs s) (aggr_funcs s)) (ha_input s) (ha_ht s);
             Some (s\<lparr>ha_input := i, ha_ht := ht, ha_it := ord ht, ha_seen := True\<rparr>) }
           else do { require (ha_it s \<noteq> []); Some (s\<lparr>ha_it := tl (ha_it s)\<rparr>) }) = Some s1"
    "aggregation_rows ord rows s = map (\<lambda>(k, a). k @ a) (ha_it s1)" "ha_seen s1"
    "group_by_attrs s1 = group_by_attrs s" "aggr_funcs s1 = aggr_funcs s" "ha_regs s1 = ha_regs s"
    "\<forall>e \<in> set (ha_it s1). length (fst e) = length (group_by_attrs s) \<and> length (snd e) = length (aggr_funcs s)" by blast
  have regs: "length (ha_regs s1) = length (group_by_attrs s1) + length (aggr_funcs s1)"
    using l s1(4,5,6) by (simp add: aggregation_live_def)
  have "aggregation_next ord nxt out s =
      (case ha_it s1 of [] \<Rightarrow> Some (False, s1) | (k, a) # _ \<Rightarrow> Some (True, s1\<lparr>ha_regs := k @ a\<rparr>))"
  proof (cases "ha_it s1")
    case Nil
    then show ?thesis unfolding aggregation_next_def s1(1) by simp
  next
    case (Cons e it)
    obtain k a where e: "e = (k, a)" by (cases e)
    have o: "do { regs \<leftarrow> memcpy (ha_regs s1) 0 k 0 (length (group_by_attrs s1));
        memcpy regs (length (group_by_attrs s1)) a 0 (length (aggr_funcs s1)) } = Some (k @ a)"
      using s1(4,5,7) Cons e regs by (intro aggregation_output) auto
    then show ?thesis unfolding aggregation_next_def s1(1) using Cons e by (auto simp: bind_eq_Some_conv)
  qed
  then show ?thesis using s1 by blast
qed

lemma aggregation_iterator:
  assumes ord: "valid_order ord"
  shows "iterator (aggregation_open opn out) (aggregation_next ord nxt out) aggregation_out n
     (aggregation_closed closed width rows n) (aggregation_live live width rows n) (aggregation_rows ord rows)"
proof unfold_locales
  fix s r and rs :: "tuple list"
  show "\<exists>s'. aggregation_open opn out s = Some s' \<and> aggregation_live live width rows n s'
      \<and> aggregation_rows ord rows s' = aggregation_rows ord rows s" if c: "aggregation_closed closed width rows n s"
  proof -
    obtain i where i: "opn (ha_input s) = Some i" "live i" "rows i = rows (ha_input s)"
      using open_live [of "ha_input s"] c by (auto simp: aggregation_closed_def)
    obtain regs where "out i = Some regs" using out_width [OF i(2)] by blast
    then show ?thesis
      using i c by (auto simp: aggregation_closed_def aggregation_open_def aggregation_live_def aggregation_rows_def)
  qed
  show "\<exists>r. aggregation_out s = Some r \<and> length r = n" if "aggregation_live live width rows n s"
    using that by (simp add: aggregation_live_def aggregation_out_def)
  show "length r = n" if l: "aggregation_live live width rows n s" and r: "r \<in> set (aggregation_rows ord rows s)"
    using aggregation_load [OF ord l] r l by (fastforce simp: aggregation_live_def)
  show "\<exists>s'. aggregation_next ord nxt out s = Some (True, s') \<and> aggregation_live live width rows n s'
      \<and> aggregation_rows ord rows s' = rs \<and> aggregation_out s' = Some r"
    if l: "aggregation_live live width rows n s" and r: "aggregation_rows ord rows s = r # rs"
  proof -
    obtain s1 where s1: "aggregation_next ord nxt out s =
        (case ha_it s1 of [] \<Rightarrow> Some (False, s1) | (k, a) # _ \<Rightarrow> Some (True, s1\<lparr>ha_regs := k @ a\<rparr>))"
      "map (\<lambda>(k, a). k @ a) (ha_it s1) = r # rs" "ha_seen s1"
      "group_by_attrs s1 = group_by_attrs s" "aggr_funcs s1 = aggr_funcs s"
      "\<forall>e \<in> set (ha_it s1). length (fst e) = length (group_by_attrs s) \<and> length (snd e) = length (aggr_funcs s)"
      using aggregation_load [OF ord l] r by metis
    obtain k a it where it: "ha_it s1 = (k, a) # it" using s1(2) by (cases "ha_it s1") auto
    then show ?thesis
      using s1 l by (auto simp: aggregation_live_def aggregation_rows_def aggregation_out_def)
  qed
  show "\<exists>s'. aggregation_next ord nxt out s = Some (False, s')"
    if l: "aggregation_live live width rows n s" and r: "aggregation_rows ord rows s = []"
    using aggregation_load [OF ord l] r by auto
qed

lemma aggregation_multiset:
  assumes ord: "valid_order ord" and c: "aggregation_closed closed width rows n s"
  shows "mset (aggregation_rows ord rows s) = mset (aggr_rows (group_by_attrs s) (aggr_funcs s) (rows (ha_input s)))"
proof -
  have a: "aggregable width (group_by_attrs s) (aggr_funcs s) (rows (ha_input s))" "\<not> ha_seen s"
    using c by (simp_all add: aggregation_closed_def)
  obtain i where "live i" "rows i = rows (ha_input s)"
    using open_live [of "ha_input s"] c by (auto simp: aggregation_closed_def)
  then have "\<forall>r \<in> set (rows (ha_input s)). length r = width" using rows_width by metis
  then obtain ht where ht: "fold_opt (aggr_tuple (group_by_attrs s) (aggr_funcs s)) (rows (ha_input s)) [] = Some ht"
      "table_of (group_by_attrs s) (aggr_funcs s) (rows (ha_input s)) ht"
    using aggr_fold_ok [OF a(1)] by blast
  have "mset (map (\<lambda>(k, a). k @ a) (ord ht)) = mset (map (\<lambda>(k, a). k @ a) ht)"
    using ord by (metis mset_map valid_order_def)
  then show ?thesis using ht a(2) table_rows [OF ht(2)] by (simp add: aggregation_rows_def)
qed

end

interpretation scan_aggregation: iterator "aggregation_open scan_open scan_out"
    "aggregation_next (\<lambda>ht. ht) scan_next scan_out" aggregation_out n
    "aggregation_closed (scan_closed w) w scan_rows n" "aggregation_live (scan_live w) w scan_rows n"
    "aggregation_rows (\<lambda>ht. ht) scan_rows" for w n
  by (rule scan.aggregation_iterator) (simp add: valid_order_def)

end
