(* ===== verification/Op_Set.thy ===== *)
theory Op_Set
  imports Iterator "HOL-Library.AList"
begin

text \<open>
  The operators on two inputs of one width (\<^verbatim>\<open>src/task-operators/src/algebra.cc\<close>):
  \<open>Union\<close>, \<open>UnionAll\<close>, \<open>Intersect\<close>, \<open>IntersectAll\<close>, \<open>Except\<close> and
  \<open>ExceptAll\<close>. The set and the bag version of an operator differ in one line, the update
  of the counter of a left tuple (\<open>counter = 1\<close> or \<open>++counter\<close>); here it is the
  parameter \<open>all\<close>. The order in which \<open>Except\<close> walks over its hash table is \<open>ord\<close>.
\<close>

record ('l, 'r) binary =
  bi_left :: 'l
  bi_right :: 'r
  bi_seen :: bool
  bi_regs :: tuple

record ('l, 'r) union_op = "('l, 'r) binary" +
  un_ht :: "tuple set"

type_synonym counters = "(tuple \<times> nat) list"

record ('l, 'r) counting = "('l, 'r) binary" +
  ct_ht :: counters
  ct_it :: "tuple list"

definition binary_open :: "('l \<Rightarrow> 'l option) \<Rightarrow> ('l \<Rightarrow> tuple option) \<Rightarrow> ('r \<Rightarrow> 'r option) \<Rightarrow> ('r \<Rightarrow> tuple option)
    \<Rightarrow> ('l, 'r, 'z) binary_scheme \<Rightarrow> ('l, 'r, 'z) binary_scheme option" where
  "binary_open lopn lout ropn rout s = do {
     l \<leftarrow> lopn (bi_left s);
     r \<leftarrow> ropn (bi_right s);
     lregs \<leftarrow> lout l;
     _ \<leftarrow> rout r;
     Some (s\<lparr>bi_left := l, bi_right := r, bi_regs := resize_regs (length lregs) (bi_regs s)\<rparr>) }"

definition binary_out :: "('l, 'r, 'z) binary_scheme \<Rightarrow> tuple option" where
  "binary_out s = Some (bi_regs s)"

section \<open>Union\<close>

definition union_init :: "'l \<Rightarrow> 'r \<Rightarrow> ('l, 'r) union_op" where
  "union_init l r = \<lparr>bi_left = l, bi_right = r, bi_seen = False, bi_regs = [], un_ht = {}\<rparr>"

definition check_tuple :: "tuple \<Rightarrow> tuple set \<times> tuple \<Rightarrow> (bool \<times> (tuple set \<times> tuple)) option" where
  "check_tuple r = (\<lambda>(ht, regs).
     if r \<in> ht then Some (False, (ht, regs))
     else do { regs \<leftarrow> write_regs 0 r regs; Some (True, (insert r ht, regs)) })"

definition union_right :: "('r \<Rightarrow> (bool \<times> 'r) option) \<Rightarrow> ('r \<Rightarrow> tuple option)
    \<Rightarrow> ('l, 'r) union_op \<Rightarrow> (bool \<times> ('l, 'r) union_op) option" where
  "union_right rnxt rout s = do {
     (found, r, (ht, regs)) \<leftarrow> seek rnxt rout check_tuple (bi_right s) (un_ht s, bi_regs s);
     Some (found, s\<lparr>bi_right := r, un_ht := ht, bi_regs := regs\<rparr>) }"

definition union_next :: "('l \<Rightarrow> (bool \<times> 'l) option) \<Rightarrow> ('l \<Rightarrow> tuple option)
    \<Rightarrow> ('r \<Rightarrow> (bool \<times> 'r) option) \<Rightarrow> ('r \<Rightarrow> tuple option)
    \<Rightarrow> ('l, 'r) union_op \<Rightarrow> (bool \<times> ('l, 'r) union_op) option" where
  "union_next lnxt lout rnxt rout s =
     (if \<not> bi_seen s then do {
        (found, l, (ht, regs)) \<leftarrow> seek lnxt lout check_tuple (bi_left s) (un_ht s, bi_regs s);
        let s = s\<lparr>bi_left := l, un_ht := ht, bi_regs := regs\<rparr>;
        if found then Some (True, s) else union_right rnxt rout (s\<lparr>bi_seen := True\<rparr>) }
      else union_right rnxt rout s)"

definition union_close :: "('l \<Rightarrow> 'l) \<Rightarrow> ('r \<Rightarrow> 'r) \<Rightarrow> ('l, 'r) union_op \<Rightarrow> ('l, 'r) union_op" where
  "union_close lcls rcls s = s\<lparr>bi_left := lcls (bi_left s), bi_right := rcls (bi_right s), un_ht := {}\<rparr>"

section \<open>UnionAll\<close>

definition union_all_init :: "'l \<Rightarrow> 'r \<Rightarrow> ('l, 'r) binary" where
  "union_all_init l r = \<lparr>bi_left = l, bi_right = r, bi_seen = False, bi_regs = []\<rparr>"

definition union_all_right :: "('r \<Rightarrow> (bool \<times> 'r) option) \<Rightarrow> ('r \<Rightarrow> tuple option)
    \<Rightarrow> ('l, 'r) binary \<Rightarrow> (bool \<times> ('l, 'r) binary) option" where
  "union_all_right rnxt rout s = do {
     (more, i) \<leftarrow> rnxt (bi_right s);
     if more then do {
       r \<leftarrow> rout i;
       regs \<leftarrow> memcpy (bi_regs s) 0 r 0 (length (bi_regs s));
       Some (True, s\<lparr>bi_right := i, bi_regs := regs\<rparr>) }
     else Some (False, s\<lparr>bi_right := i\<rparr>) }"

definition union_all_next :: "('l \<Rightarrow> (bool \<times> 'l) option) \<Rightarrow> ('l \<Rightarrow> tuple option)
    \<Rightarrow> ('r \<Rightarrow> (bool \<times> 'r) option) \<Rightarrow> ('r \<Rightarrow> tuple option)
    \<Rightarrow> ('l, 'r) binary \<Rightarrow> (bool \<times> ('l, 'r) binary) option" where
  "union_all_next lnxt lout rnxt rout s =
     (if \<not> bi_seen s then do {
        (more, i) \<leftarrow> lnxt (bi_left s);
        if more then do {
          r \<leftarrow> lout i;
          regs \<leftarrow> memcpy (bi_regs s) 0 r 0 (length (bi_regs s));
          Some (True, s\<lparr>bi_left := i, bi_regs := regs\<rparr>) }
        else union_all_right rnxt rout (s\<lparr>bi_left := i, bi_seen := True\<rparr>) }
      else union_all_right rnxt rout s)"

definition union_all_close :: "('l \<Rightarrow> 'l) \<Rightarrow> ('r \<Rightarrow> 'r) \<Rightarrow> ('l, 'r) binary \<Rightarrow> ('l, 'r) binary" where
  "union_all_close lcls rcls s = s\<lparr>bi_left := lcls (bi_left s), bi_right := rcls (bi_right s)\<rparr>"

section \<open>Intersect and IntersectAll\<close>

definition counting_init :: "'l \<Rightarrow> 'r \<Rightarrow> ('l, 'r) counting" where
  "counting_init l r = \<lparr>bi_left = l, bi_right = r, bi_seen = False, bi_regs = [], ct_ht = [], ct_it = []\<rparr>"

definition counter :: "counters \<Rightarrow> tuple \<Rightarrow> nat" where
  "counter ht r = (case map_of ht r of None \<Rightarrow> 0 | Some n \<Rightarrow> n)"

definition count_left :: "bool \<Rightarrow> tuple \<Rightarrow> counters \<Rightarrow> counters" where
  "count_left all r ht = AList.update r (if all then counter ht r + 1 else 1) ht"

definition take_right :: "tuple \<Rightarrow> counters \<times> tuple \<Rightarrow> (bool \<times> (counters \<times> tuple)) option" where
  "take_right r = (\<lambda>(ht, regs).
     if map_of ht r \<noteq> None \<and> counter ht r > 0
     then do {
       regs \<leftarrow> memcpy regs 0 r 0 (length regs);
       Some (True, (AList.update r (counter ht r - 1) ht, regs)) }
     else Some (False, (ht, regs)))"

definition intersect_next :: "bool \<Rightarrow> ('l \<Rightarrow> (bool \<times> 'l) option) \<Rightarrow> ('l \<Rightarrow> tuple option)
    \<Rightarrow> ('r \<Rightarrow> (bool \<times> 'r) option) \<Rightarrow> ('r \<Rightarrow> tuple option)
    \<Rightarrow> ('l, 'r) counting \<Rightarrow> (bool \<times> ('l, 'r) counting) option" where
  "intersect_next all lnxt lout rnxt rout s = do {
     s \<leftarrow> (if \<not> bi_seen s then do {
             (l, ht) \<leftarrow> drain lnxt lout (\<lambda>r ht. Some (count_left all r ht)) (bi_left s) (ct_ht s);
             Some (s\<lparr>bi_left := l, ct_ht := ht, bi_seen := True\<rparr>) }
           else Some s);
     (found, r, (ht, regs)) \<leftarrow> seek rnxt rout take_right (bi_right s) (ct_ht s, bi_regs s);
     Some (found, s\<lparr>bi_right := r, ct_ht := ht, bi_regs := regs\<rparr>) }"

definition intersect_set_next :: "('l \<Rightarrow> (bool \<times> 'l) option) \<Rightarrow> ('l \<Rightarrow> tuple option)
    \<Rightarrow> ('r \<Rightarrow> (bool \<times> 'r) option) \<Rightarrow> ('r \<Rightarrow> tuple option)
    \<Rightarrow> ('l, 'r) counting \<Rightarrow> (bool \<times> ('l, 'r) counting) option" where
  "intersect_set_next = intersect_next False"

definition intersect_all_next :: "('l \<Rightarrow> (bool \<times> 'l) option) \<Rightarrow> ('l \<Rightarrow> tuple option)
    \<Rightarrow> ('r \<Rightarrow> (bool \<times> 'r) option) \<Rightarrow> ('r \<Rightarrow> tuple option)
    \<Rightarrow> ('l, 'r) counting \<Rightarrow> (bool \<times> ('l, 'r) counting) option" where
  "intersect_all_next = intersect_next True"

definition counting_close :: "('l \<Rightarrow> 'l) \<Rightarrow> ('r \<Rightarrow> 'r) \<Rightarrow> ('l, 'r) counting \<Rightarrow> ('l, 'r) counting" where
  "counting_close lcls rcls s = s\<lparr>bi_left := lcls (bi_left s), bi_right := rcls (bi_right s), ct_ht := []\<rparr>"

section \<open>Except and ExceptAll\<close>

definition drop_right :: "tuple \<Rightarrow> counters \<Rightarrow> counters" where
  "drop_right r ht =
     (if map_of ht r \<noteq> None \<and> counter ht r > 0 then AList.update r (counter ht r - 1) ht else ht)"

text \<open>The walk over the hash table: skip the entries whose counter is 0.\<close>

fun except_walk :: "counters \<Rightarrow> tuple list \<Rightarrow> (tuple option \<times> counters \<times> tuple list)" where
  "except_walk ht [] = (None, ht, [])"
| "except_walk ht (k # ks) =
     (if counter ht k > 0 then (Some k, AList.update k (counter ht k - 1) ht, k # ks) else except_walk ht ks)"

definition except_next :: "bool \<Rightarrow> (tuple list \<Rightarrow> tuple list) \<Rightarrow> ('l \<Rightarrow> (bool \<times> 'l) option) \<Rightarrow> ('l \<Rightarrow> tuple option)
    \<Rightarrow> ('r \<Rightarrow> (bool \<times> 'r) option) \<Rightarrow> ('r \<Rightarrow> tuple option)
    \<Rightarrow> ('l, 'r) counting \<Rightarrow> (bool \<times> ('l, 'r) counting) option" where
  "except_next all ord lnxt lout rnxt rout s = do {
     s \<leftarrow> (if \<not> bi_seen s then do {
             (l, ht) \<leftarrow> drain lnxt lout (\<lambda>r ht. Some (count_left all r ht)) (bi_left s) (ct_ht s);
             (r, ht) \<leftarrow> drain rnxt rout (\<lambda>r ht. Some (drop_right r ht)) (bi_right s) ht;
             Some (s\<lparr>bi_left := l, bi_right := r, ct_ht := ht, ct_it := ord (map fst ht), bi_seen := True\<rparr>) }
           else Some s);
     let (found, ht, it) = except_walk (ct_ht s) (ct_it s);
     let s = s\<lparr>ct_ht := ht, ct_it := it\<rparr>;
     case found of
       None \<Rightarrow> Some (False, s)
     | Some k \<Rightarrow> do {
         regs \<leftarrow> memcpy (bi_regs s) 0 k 0 (length (bi_regs s));
         Some (True, s\<lparr>bi_regs := regs\<rparr>) } }"

definition except_set_next :: "(tuple list \<Rightarrow> tuple list) \<Rightarrow> ('l \<Rightarrow> (bool \<times> 'l) option) \<Rightarrow> ('l \<Rightarrow> tuple option)
    \<Rightarrow> ('r \<Rightarrow> (bool \<times> 'r) option) \<Rightarrow> ('r \<Rightarrow> tuple option)
    \<Rightarrow> ('l, 'r) counting \<Rightarrow> (bool \<times> ('l, 'r) counting) option" where
  "except_set_next = except_next False"

definition except_all_next :: "(tuple list \<Rightarrow> tuple list) \<Rightarrow> ('l \<Rightarrow> (bool \<times> 'l) option) \<Rightarrow> ('l \<Rightarrow> tuple option)
    \<Rightarrow> ('r \<Rightarrow> (bool \<times> 'r) option) \<Rightarrow> ('r \<Rightarrow> tuple option)
    \<Rightarrow> ('l, 'r) counting \<Rightarrow> (bool \<times> ('l, 'r) counting) option" where
  "except_all_next = except_next True"

end
