(* ===== verification/Op_Set_Correct.thy ===== *)
theory Op_Set_Correct
  imports Op_Set
begin

text \<open>
  The set operators as iterators: what each of them delivers, as a function of the tuples of
  its inputs, and the multisets or sets these lists are.
\<close>

locale same_width_inputs =
  left: iterator lopn lnxt lout w lclosed llive lrows +
  right: iterator ropn rnxt rout w rclosed rlive rrows
  for lopn :: "'l \<Rightarrow> 'l option" and lnxt lout w lclosed llive lrows
    and ropn :: "'r \<Rightarrow> 'r option" and rnxt rout rclosed rlive rrows

section \<open>Union\<close>

fun new_rows :: "tuple set \<Rightarrow> tuple list \<Rightarrow> tuple list" where
  "new_rows H [] = []"
| "new_rows H (x # xs) = (if x \<in> H then new_rows H xs else x # new_rows (insert x H) xs)"

lemma set_new_rows: "set (new_rows H xs) = set xs - H"
  by (induction H xs rule: new_rows.induct) auto

lemma distinct_new_rows: "distinct (new_rows H xs)"
  by (induction H xs rule: new_rows.induct) (auto simp: set_new_rows)

lemma new_rows_dropWhile: "new_rows H xs =
  (case dropWhile (\<lambda>x. x \<in> H) xs of [] \<Rightarrow> [] | r # rs \<Rightarrow> r # new_rows (insert r H) rs)"
  by (induction xs) auto

lemma new_rows_append: "new_rows H (xs @ ys) =
  (case dropWhile (\<lambda>x. x \<in> H) xs of [] \<Rightarrow> new_rows H ys | r # rs \<Rightarrow> r # new_rows (insert r H) (rs @ ys))"
  by (induction xs) auto

lemma seek_check:
  assumes "\<forall>r \<in> set rs. length r = w" "length regs = w"
  shows "seek_list check_tuple rs (H, regs) =
    Some (case dropWhile (\<lambda>x. x \<in> H) rs of [] \<Rightarrow> (None, (H, regs)) | r # rs' \<Rightarrow> (Some (r, rs'), (insert r H, r)))"
  using assms by (induction rs) (auto simp: check_tuple_def write_regs_def memcpy_def)

definition union_closed :: "('l \<Rightarrow> bool) \<Rightarrow> ('r \<Rightarrow> bool) \<Rightarrow> ('l, 'r) union_op \<Rightarrow> bool" where
  "union_closed lclosed rclosed s \<longleftrightarrow> lclosed (bi_left s) \<and> rclosed (bi_right s) \<and> \<not> bi_seen s \<and> un_ht s = {}"

definition union_live :: "('l \<Rightarrow> bool) \<Rightarrow> ('r \<Rightarrow> bool) \<Rightarrow> nat \<Rightarrow> ('l, 'r) union_op \<Rightarrow> bool" where
  "union_live llive rlive w s \<longleftrightarrow> length (bi_regs s) = w \<and> rlive (bi_right s) \<and> (\<not> bi_seen s \<longrightarrow> llive (bi_left s))"

definition union_rows :: "('l \<Rightarrow> tuple list) \<Rightarrow> ('r \<Rightarrow> tuple list) \<Rightarrow> ('l, 'r) union_op \<Rightarrow> tuple list" where
  "union_rows lrows rrows s =
     new_rows (un_ht s) (if bi_seen s then rrows (bi_right s) else lrows (bi_left s) @ rrows (bi_right s))"

context same_width_inputs
begin

lemma binary_open_ok:
  assumes "lclosed (bi_left s)" "rclosed (bi_right s)"
  shows "\<exists>l r. binary_open lopn lout ropn rout s
      = Some (s\<lparr>bi_left := l, bi_right := r, bi_regs := resize_regs w (bi_regs s)\<rparr>)
    \<and> llive l \<and> rlive r \<and> lrows l = lrows (bi_left s) \<and> rrows r = rrows (bi_right s)"
proof -
  obtain l where l: "lopn (bi_left s) = Some l" "llive l" "lrows l = lrows (bi_left s)"
    using left.open_live [OF assms(1)] by blast
  obtain r where r: "ropn (bi_right s) = Some r" "rlive r" "rrows r = rrows (bi_right s)"
    using right.open_live [OF assms(2)] by blast
  obtain lr rr where "lout l = Some lr" "length lr = w" "rout r = Some rr"
    using left.out_width [OF l(2)] right.out_width [OF r(2)] by blast
  then show ?thesis using l r by (intro exI [of _ l] exI [of _ r]) (simp add: binary_open_def)
qed

lemma union_right_step:
  assumes l: "union_live llive rlive w s" "bi_seen s"
  shows "case union_rows lrows rrows s of
      [] \<Rightarrow> \<exists>s'. union_right rnxt rout s = Some (False, s')
    | r # rs \<Rightarrow> \<exists>s'. union_right rnxt rout s = Some (True, s') \<and> union_live llive rlive w s'
        \<and> union_rows lrows rrows s' = rs \<and> binary_out s' = Some r"
proof -
  have live: "rlive (bi_right s)" "length (bi_regs s) = w" using l by (simp_all add: union_live_def)
  have wid: "\<forall>r \<in> set (rrows (bi_right s)). length r = w" using right.rows_width [OF live(1)] by blast
  note sk = seek_check [OF wid live(2), of "un_ht s"]
  show ?thesis
  proof (cases "dropWhile (\<lambda>x. x \<in> un_ht s) (rrows (bi_right s))")
    case Nil
    have "seek_list check_tuple (rrows (bi_right s)) (un_ht s, bi_regs s) = Some (None, (un_ht s, bi_regs s))"
      unfolding sk Nil by simp
    from right.seek_miss [OF live(1) this] obtain i where "seek rnxt rout check_tuple (bi_right s) (un_ht s, bi_regs s) = Some (False, i, (un_ht s, bi_regs s))"
      by blast
    moreover have "union_rows lrows rrows s = []"
      unfolding union_rows_def new_rows_dropWhile [of _ "if _ then _ else _"] using l(2) by (simp only: if_True Nil list.case)
    ultimately show ?thesis by (simp add: union_right_def)
  next
    case (Cons r rs)
    have "seek_list check_tuple (rrows (bi_right s)) (un_ht s, bi_regs s) = Some (Some (r, rs), (insert r (un_ht s), r))"
      unfolding sk Cons by simp
    from right.seek_hit [OF live(1) this] obtain i where i: "seek rnxt rout check_tuple (bi_right s) (un_ht s, bi_regs s)
        = Some (True, i, (insert r (un_ht s), r))" "rlive i" "rrows i = rs"
      by blast
    have "r \<in> set (rrows (bi_right s))" using Cons by (metis list.set_intros(1) set_dropWhileD)
    then have "length r = w" using wid by blast
    moreover have "union_rows lrows rrows s = r # new_rows (insert r (un_ht s)) rs"
      unfolding union_rows_def using l(2) Cons by (subst new_rows_dropWhile) simp
    ultimately show ?thesis using i l(2)
      by (auto simp: union_right_def union_live_def union_rows_def binary_out_def)
  qed
qed

lemma union_step:
  assumes l: "union_live llive rlive w s"
  shows "case union_rows lrows rrows s of
      [] \<Rightarrow> \<exists>s'. union_next lnxt lout rnxt rout s = Some (False, s')
    | r # rs \<Rightarrow> \<exists>s'. union_next lnxt lout rnxt rout s = Some (True, s') \<and> union_live llive rlive w s'
        \<and> union_rows lrows rrows s' = rs \<and> binary_out s' = Some r"
proof (cases "bi_seen s")
  case True
  then have "union_next lnxt lout rnxt rout s = union_right rnxt rout s" by (simp add: union_next_def)
  then show ?thesis using union_right_step [OF l True] by (simp only:)
next
  case False
  have live: "llive (bi_left s)" "length (bi_regs s) = w" using l False by (simp_all add: union_live_def)
  have wid: "\<forall>r \<in> set (lrows (bi_left s)). length r = w" using left.rows_width [OF live(1)] by blast
  note sk = seek_check [OF wid live(2), of "un_ht s"]
  show ?thesis
  proof (cases "dropWhile (\<lambda>x. x \<in> un_ht s) (lrows (bi_left s))")
    case Nil
    have "seek_list check_tuple (lrows (bi_left s)) (un_ht s, bi_regs s) = Some (None, (un_ht s, bi_regs s))"
      unfolding sk Nil by simp
    from left.seek_miss [OF live(1) this] obtain i where i: "seek lnxt lout check_tuple (bi_left s) (un_ht s, bi_regs s) = Some (False, i, (un_ht s, bi_regs s))"
      by blast
    define s1 where "s1 = s\<lparr>bi_left := i, un_ht := un_ht s, bi_regs := bi_regs s, bi_seen := True\<rparr>"
    have "union_next lnxt lout rnxt rout s = union_right rnxt rout s1"
      using False i by (simp add: union_next_def s1_def)
    moreover have "union_rows lrows rrows s = union_rows lrows rrows s1"
      unfolding union_rows_def new_rows_append Nil using False by (simp add: s1_def new_rows_append Nil)
    moreover have "union_live llive rlive w s1" "bi_seen s1" using l by (simp_all add: s1_def union_live_def)
    ultimately show ?thesis using union_right_step [of s1] by (simp only:)
  next
    case (Cons r rs)
    have "seek_list check_tuple (lrows (bi_left s)) (un_ht s, bi_regs s) = Some (Some (r, rs), (insert r (un_ht s), r))"
      unfolding sk Cons by simp
    from left.seek_hit [OF live(1) this] obtain i where i: "seek lnxt lout check_tuple (bi_left s) (un_ht s, bi_regs s)
        = Some (True, i, (insert r (un_ht s), r))" "llive i" "lrows i = rs"
      by blast
    have "r \<in> set (lrows (bi_left s))" using Cons by (metis list.set_intros(1) set_dropWhileD)
    then have "length r = w" using wid by blast
    moreover have "union_rows lrows rrows s = r # new_rows (insert r (un_ht s)) (rs @ rrows (bi_right s))"
      unfolding union_rows_def using False Cons by (simp add: new_rows_append)
    ultimately show ?thesis using i l False
      by (auto simp: union_next_def union_live_def union_rows_def binary_out_def)
  qed
qed

lemma union_iterator:
  "iterator (binary_open lopn lout ropn rout) (union_next lnxt lout rnxt rout) binary_out w
     (union_closed lclosed rclosed) (union_live llive rlive w) (union_rows lrows rrows)"
proof unfold_locales
  fix s r and rs :: "tuple list"
  show "\<exists>s'. binary_open lopn lout ropn rout s = Some s' \<and> union_live llive rlive w s'
      \<and> union_rows lrows rrows s' = union_rows lrows rrows s" if "union_closed lclosed rclosed s"
    using binary_open_ok [of s] that by (auto simp: union_closed_def union_live_def union_rows_def)
  show "\<exists>r. binary_out s = Some r \<and> length r = w" if "union_live llive rlive w s"
    using that by (simp add: binary_out_def union_live_def)
  show "length r = w" if "union_live llive rlive w s" "r \<in> set (union_rows lrows rrows s)"
    using that left.rows_width right.rows_width
    by (auto simp: union_rows_def union_live_def set_new_rows split: if_splits)
  show "\<exists>s'. union_next lnxt lout rnxt rout s = Some (True, s') \<and> union_live llive rlive w s'
      \<and> union_rows lrows rrows s' = rs \<and> binary_out s' = Some r"
    if "union_live llive rlive w s" "union_rows lrows rrows s = r # rs"
    using union_step [OF that(1)] that(2) by simp
  show "\<exists>s'. union_next lnxt lout rnxt rout s = Some (False, s')"
    if "union_live llive rlive w s" "union_rows lrows rrows s = []"
    using union_step [OF that(1)] that(2) by simp
qed

end

section \<open>UnionAll\<close>

lemma copy_regs [simp]: "length r = length regs \<Longrightarrow> n = length regs \<Longrightarrow> memcpy regs 0 r 0 n = Some r"
  by (simp add: memcpy_def)

definition union_all_closed :: "('l \<Rightarrow> bool) \<Rightarrow> ('r \<Rightarrow> bool) \<Rightarrow> ('l, 'r) binary \<Rightarrow> bool" where
  "union_all_closed lclosed rclosed s \<longleftrightarrow> lclosed (bi_left s) \<and> rclosed (bi_right s) \<and> \<not> bi_seen s"

definition binary_live :: "('l \<Rightarrow> bool) \<Rightarrow> ('r \<Rightarrow> bool) \<Rightarrow> nat \<Rightarrow> ('l, 'r, 'z) binary_scheme \<Rightarrow> bool" where
  "binary_live llive rlive w s \<longleftrightarrow> length (bi_regs s) = w \<and> rlive (bi_right s) \<and> (\<not> bi_seen s \<longrightarrow> llive (bi_left s))"

definition union_all_rows :: "('l \<Rightarrow> tuple list) \<Rightarrow> ('r \<Rightarrow> tuple list) \<Rightarrow> ('l, 'r) binary \<Rightarrow> tuple list" where
  "union_all_rows lrows rrows s = (if bi_seen s then [] else lrows (bi_left s)) @ rrows (bi_right s)"

context same_width_inputs
begin

lemma union_all_right_step:
  assumes l: "binary_live llive rlive w s" "bi_seen s"
  shows "case union_all_rows lrows rrows s of
      [] \<Rightarrow> \<exists>s'. union_all_right rnxt rout s = Some (False, s')
    | r # rs \<Rightarrow> \<exists>s'. union_all_right rnxt rout s = Some (True, s') \<and> binary_live llive rlive w s'
        \<and> union_all_rows lrows rrows s' = rs \<and> binary_out s' = Some r"
proof -
  have live: "rlive (bi_right s)" "length (bi_regs s) = w" using l by (simp_all add: binary_live_def)
  show ?thesis
  proof (cases "rrows (bi_right s)")
    case Nil
    from right.next_end [OF live(1) Nil] show ?thesis
      using l(2) Nil by (auto simp: union_all_rows_def union_all_right_def)
  next
    case (Cons r rs)
    from right.next_row [OF live(1) Cons] obtain i where
      i: "rnxt (bi_right s) = Some (True, i)" "rlive i" "rrows i = rs" "rout i = Some r" by blast
    have "length r = w" using right.rows_width [OF live(1)] Cons by auto
    then show ?thesis using i l(2) live Cons
      by (auto simp: union_all_rows_def union_all_right_def binary_live_def binary_out_def)
  qed
qed

lemma union_all_step:
  assumes l: "binary_live llive rlive w s"
  shows "case union_all_rows lrows rrows s of
      [] \<Rightarrow> \<exists>s'. union_all_next lnxt lout rnxt rout s = Some (False, s')
    | r # rs \<Rightarrow> \<exists>s'. union_all_next lnxt lout rnxt rout s = Some (True, s') \<and> binary_live llive rlive w s'
        \<and> union_all_rows lrows rrows s' = rs \<and> binary_out s' = Some r"
proof (cases "bi_seen s")
  case True
  then have "union_all_next lnxt lout rnxt rout s = union_all_right rnxt rout s" by (simp add: union_all_next_def)
  then show ?thesis using union_all_right_step [OF l True] by (simp only:)
next
  case False
  have live: "llive (bi_left s)" "length (bi_regs s) = w" using l False by (simp_all add: binary_live_def)
  show ?thesis
  proof (cases "lrows (bi_left s)")
    case Nil
    from left.next_end [OF live(1) Nil] obtain i where i: "lnxt (bi_left s) = Some (False, i)" by blast
    define s1 where "s1 = s\<lparr>bi_left := i, bi_seen := True\<rparr>"
    have "union_all_next lnxt lout rnxt rout s = union_all_right rnxt rout s1"
      using False i by (simp add: union_all_next_def s1_def)
    moreover have "union_all_rows lrows rrows s = union_all_rows lrows rrows s1"
      using False Nil by (simp add: union_all_rows_def s1_def)
    moreover have "binary_live llive rlive w s1" "bi_seen s1" using l by (simp_all add: s1_def binary_live_def)
    ultimately show ?thesis using union_all_right_step [of s1] by (simp only:)
  next
    case (Cons r rs)
    from left.next_row [OF live(1) Cons] obtain i where
      i: "lnxt (bi_left s) = Some (True, i)" "llive i" "lrows i = rs" "lout i = Some r" by blast
    have "length r = w" using left.rows_width [OF live(1)] Cons by auto
    then show ?thesis using i l False live Cons
      by (auto simp: union_all_rows_def union_all_next_def binary_live_def binary_out_def)
  qed
qed

lemma union_all_iterator:
  "iterator (binary_open lopn lout ropn rout) (union_all_next lnxt lout rnxt rout) binary_out w
     (union_all_closed lclosed rclosed) (binary_live llive rlive w) (union_all_rows lrows rrows)"
proof unfold_locales
  fix s :: "('l, 'r) binary" and r and rs :: "tuple list"
  show "\<exists>s'. binary_open lopn lout ropn rout s = Some s' \<and> binary_live llive rlive w s'
      \<and> union_all_rows lrows rrows s' = union_all_rows lrows rrows s" if "union_all_closed lclosed rclosed s"
  proof -
    have c: "lclosed (bi_left s)" "rclosed (bi_right s)" "\<not> bi_seen s"
      using that by (simp_all add: union_all_closed_def)
    from binary_open_ok [OF c(1,2)] c(3) show ?thesis
      by (elim exE conjE) (simp add: binary_live_def union_all_rows_def)
  qed
  show "\<exists>r. binary_out s = Some r \<and> length r = w" if "binary_live llive rlive w s"
    using that by (simp add: binary_out_def binary_live_def)
  show "length r = w" if "binary_live llive rlive w s" "r \<in> set (union_all_rows lrows rrows s)"
    using that left.rows_width right.rows_width
    by (auto simp: union_all_rows_def binary_live_def split: if_splits)
  show "\<exists>s'. union_all_next lnxt lout rnxt rout s = Some (True, s') \<and> binary_live llive rlive w s'
      \<and> union_all_rows lrows rrows s' = rs \<and> binary_out s' = Some r"
    if "binary_live llive rlive w s" "union_all_rows lrows rrows s = r # rs"
    using union_all_step [OF that(1)] that(2) by simp
  show "\<exists>s'. union_all_next lnxt lout rnxt rout s = Some (False, s')"
    if "binary_live llive rlive w s" "union_all_rows lrows rrows s = []"
    using union_all_step [OF that(1)] that(2) by simp
qed

end

section \<open>Counters\<close>

lemma counter_update [simp]: "counter (AList.update k n ht) = (counter ht)(k := n)"
  by (auto simp: counter_def update_conv')

lemma counter_Nil [simp]: "counter [] = (\<lambda>_. 0)"
  by (auto simp: counter_def)

lemma counter_pos: "map_of ht r \<noteq> None \<and> counter ht r > 0 \<longleftrightarrow> counter ht r > 0"
  by (auto simp: counter_def split: option.splits)

lemma count_left_all: "counter (fold (count_left True) xs ht) = (\<lambda>y. counter ht y + count (mset xs) y)"
  by (induction xs arbitrary: ht) (auto simp: count_left_def)

lemma count_left_set: "counter (fold (count_left False) xs ht) = (\<lambda>y. if y \<in> set xs then 1 else counter ht y)"
  by (induction xs arbitrary: ht) (auto simp: count_left_def)

lemma counter_drop_right: "counter (drop_right r ht) = (counter ht)(r := counter ht r - 1)"
  unfolding drop_right_def counter_pos by (auto simp: fun_eq_iff)

lemma count_drop: "counter (fold drop_right xs ht) = (\<lambda>y. counter ht y - count (mset xs) y)"
  by (induction xs arbitrary: ht) (auto simp: counter_drop_right fun_eq_iff)

definition left_counter :: "bool \<Rightarrow> tuple list \<Rightarrow> tuple \<Rightarrow> nat" where
  "left_counter all xs y = (if all then count (mset xs) y else if y \<in> set xs then 1 else 0)"

lemma counter_left: "counter (fold (count_left all) xs []) = left_counter all xs"
  by (cases all) (auto simp: left_counter_def count_left_all count_left_set fun_eq_iff)

lemma keys_count_left: "fst ` set (fold (count_left all) xs ht) = fst ` set ht \<union> set xs"
  by (induction xs arbitrary: ht) (auto simp: count_left_def dom_update)

lemma keys_drop_right: "fst ` set (fold drop_right xs ht) = fst ` set ht"
proof (induction xs arbitrary: ht)
  case (Cons x xs)
  have "fst ` set (drop_right x ht) = fst ` set ht"
    by (auto simp: drop_right_def dom_update map_of_eq_None_iff image_iff dest: map_of_SomeD)
  then show ?case using Cons by simp
qed simp

lemma distinct_count_left: "distinct (map fst ht) \<Longrightarrow> distinct (map fst (fold (count_left all) xs ht))"
  by (induction xs arbitrary: ht) (auto simp: count_left_def distinct_update)

lemma distinct_drop_right: "distinct (map fst ht) \<Longrightarrow> distinct (map fst (fold drop_right xs ht))"
  by (induction xs arbitrary: ht) (auto simp: drop_right_def distinct_update)

section \<open>Intersect and IntersectAll\<close>

text \<open>The right tuples that still find a positive counter.\<close>

fun kept :: "(tuple \<Rightarrow> nat) \<Rightarrow> tuple list \<Rightarrow> tuple list" where
  "kept c [] = []"
| "kept c (x # xs) = (if c x > 0 then x # kept (c(x := c x - 1)) xs else kept c xs)"

lemma count_kept: "count (mset (kept c xs)) y = min (c y) (count (mset xs) y)"
  by (induction xs arbitrary: c) auto

lemma set_kept: "set (kept c xs) \<subseteq> set xs"
  by (induction xs arbitrary: c) (auto dest: subsetD)

lemma kept_dropWhile: "kept c xs =
  (case dropWhile (\<lambda>x. c x = 0) xs of [] \<Rightarrow> [] | r # rs \<Rightarrow> r # kept (c(r := c r - 1)) rs)"
  by (induction xs) auto

lemma seek_take:
  assumes "\<forall>r \<in> set rs. length r = w" "length regs = w"
  shows "seek_list take_right rs (ht, regs) =
    Some (case dropWhile (\<lambda>x. counter ht x = 0) rs of
        [] \<Rightarrow> (None, (ht, regs))
      | r # rs' \<Rightarrow> (Some (r, rs'), (AList.update r (counter ht r - 1) ht, r)))"
proof -
  have "take_right r (ht, regs) = (if counter ht r = 0 then Some (False, (ht, regs))
      else Option.bind (memcpy regs 0 r 0 (length regs))
        (\<lambda>regs. Some (True, (AList.update r (counter ht r - 1) ht, regs))))" for r
    by (cases "map_of ht r") (auto simp: take_right_def counter_def)
  then show ?thesis using assms by (induction rs) auto
qed

definition counting_closed :: "('l \<Rightarrow> bool) \<Rightarrow> ('r \<Rightarrow> bool) \<Rightarrow> ('l, 'r) counting \<Rightarrow> bool" where
  "counting_closed lclosed rclosed s \<longleftrightarrow>
     lclosed (bi_left s) \<and> rclosed (bi_right s) \<and> \<not> bi_seen s \<and> ct_ht s = []"

definition intersect_rows :: "bool \<Rightarrow> ('l \<Rightarrow> tuple list) \<Rightarrow> ('r \<Rightarrow> tuple list) \<Rightarrow> ('l, 'r) counting \<Rightarrow> tuple list" where
  "intersect_rows all lrows rrows s =
     kept (counter (if bi_seen s then ct_ht s else fold (count_left all) (lrows (bi_left s)) (ct_ht s)))
       (rrows (bi_right s))"

lemma fold_opt_pure: "fold_opt (\<lambda>r a. Some (g r a)) rs a = Some (fold g rs a)"
  by (rule fold_opt_total) simp

context same_width_inputs
begin

lemma intersect_seen_step:
  assumes l: "binary_live llive rlive w s" "bi_seen s"
  shows "case intersect_rows all lrows rrows s of
      [] \<Rightarrow> \<exists>s'. intersect_next all lnxt lout rnxt rout s = Some (False, s')
    | r # rs \<Rightarrow> \<exists>s'. intersect_next all lnxt lout rnxt rout s = Some (True, s') \<and> binary_live llive rlive w s'
        \<and> intersect_rows all lrows rrows s' = rs \<and> binary_out s' = Some r"
proof -
  have live: "rlive (bi_right s)" "length (bi_regs s) = w" using l by (simp_all add: binary_live_def)
  have wid: "\<forall>r \<in> set (rrows (bi_right s)). length r = w" using right.rows_width [OF live(1)] by blast
  have rows: "intersect_rows all lrows rrows s = kept (counter (ct_ht s)) (rrows (bi_right s))"
    using l(2) by (simp add: intersect_rows_def)
  note sk = seek_take [OF wid live(2), of "ct_ht s"]
  show ?thesis
  proof (cases "dropWhile (\<lambda>x. counter (ct_ht s) x = 0) (rrows (bi_right s))")
    case Nil
    have "seek_list take_right (rrows (bi_right s)) (ct_ht s, bi_regs s) = Some (None, (ct_ht s, bi_regs s))"
      unfolding sk Nil by simp
    from right.seek_miss [OF live(1) this] show ?thesis
      unfolding rows kept_dropWhile [of "counter (ct_ht s)"] Nil using l(2) by (auto simp: intersect_next_def)
  next
    case (Cons r rs)
    have "seek_list take_right (rrows (bi_right s)) (ct_ht s, bi_regs s)
        = Some (Some (r, rs), (AList.update r (counter (ct_ht s) r - 1) (ct_ht s), r))"
      unfolding sk Cons by simp
    from right.seek_hit [OF live(1) this] obtain i where
      i: "seek rnxt rout take_right (bi_right s) (ct_ht s, bi_regs s)
        = Some (True, i, (AList.update r (counter (ct_ht s) r - 1) (ct_ht s), r))" "rlive i" "rrows i = rs"
      by blast
    have "r \<in> set (rrows (bi_right s))" using Cons by (metis list.set_intros(1) set_dropWhileD)
    then have "length r = w" using wid by blast
    then show ?thesis unfolding rows kept_dropWhile [of "counter (ct_ht s)"] Cons using i l(2)
      by (simp add: intersect_next_def binary_live_def intersect_rows_def binary_out_def)
  qed
qed

lemma intersect_step:
  assumes l: "binary_live llive rlive w s"
  shows "case intersect_rows all lrows rrows s of
      [] \<Rightarrow> \<exists>s'. intersect_next all lnxt lout rnxt rout s = Some (False, s')
    | r # rs \<Rightarrow> \<exists>s'. intersect_next all lnxt lout rnxt rout s = Some (True, s') \<and> binary_live llive rlive w s'
        \<and> intersect_rows all lrows rrows s' = rs \<and> binary_out s' = Some r"
proof (cases "bi_seen s")
  case True
  then show ?thesis by (rule intersect_seen_step [OF l])
next
  case False
  then have live: "llive (bi_left s)" using l by (simp add: binary_live_def)
  from left.drain_rows [OF live fold_opt_pure [of "count_left all"], of "ct_ht s"] obtain i where
    i: "drain lnxt lout (\<lambda>r ht. Some (count_left all r ht)) (bi_left s) (ct_ht s)
      = Some (i, fold (count_left all) (lrows (bi_left s)) (ct_ht s))" by blast
  define s1 where "s1 = s\<lparr>bi_left := i, ct_ht := fold (count_left all) (lrows (bi_left s)) (ct_ht s), bi_seen := True\<rparr>"
  have "intersect_next all lnxt lout rnxt rout s = intersect_next all lnxt lout rnxt rout s1"
    using False i by (simp add: intersect_next_def s1_def)
  moreover have "intersect_rows all lrows rrows s = intersect_rows all lrows rrows s1"
    using False by (simp add: intersect_rows_def s1_def)
  moreover have "binary_live llive rlive w s1" "bi_seen s1" using l by (simp_all add: s1_def binary_live_def)
  ultimately show ?thesis using intersect_seen_step [of s1] by (simp only:)
qed

lemma intersect_iterator:
  "iterator (binary_open lopn lout ropn rout) (intersect_next all lnxt lout rnxt rout) binary_out w
     (counting_closed lclosed rclosed) (binary_live llive rlive w) (intersect_rows all lrows rrows)"
proof unfold_locales
  fix s :: "('l, 'r) counting" and r and rs :: "tuple list"
  show "\<exists>s'. binary_open lopn lout ropn rout s = Some s' \<and> binary_live llive rlive w s'
      \<and> intersect_rows all lrows rrows s' = intersect_rows all lrows rrows s" if "counting_closed lclosed rclosed s"
  proof -
    have c: "lclosed (bi_left s)" "rclosed (bi_right s)" "\<not> bi_seen s"
      using that by (simp_all add: counting_closed_def)
    from binary_open_ok [OF c(1,2)] c(3) show ?thesis
      by (elim exE conjE) (simp add: binary_live_def intersect_rows_def)
  qed
  show "\<exists>r. binary_out s = Some r \<and> length r = w" if "binary_live llive rlive w s"
    using that by (simp add: binary_out_def binary_live_def)
  show "length r = w" if "binary_live llive rlive w s" "r \<in> set (intersect_rows all lrows rrows s)"
    using that right.rows_width set_kept by (fastforce simp: intersect_rows_def binary_live_def)
  show "\<exists>s'. intersect_next all lnxt lout rnxt rout s = Some (True, s') \<and> binary_live llive rlive w s'
      \<and> intersect_rows all lrows rrows s' = rs \<and> binary_out s' = Some r"
    if "binary_live llive rlive w s" "intersect_rows all lrows rrows s = r # rs"
    using intersect_step [OF that(1), of all] that(2) by simp
  show "\<exists>s'. intersect_next all lnxt lout rnxt rout s = Some (False, s')"
    if "binary_live llive rlive w s" "intersect_rows all lrows rrows s = []"
    using intersect_step [OF that(1), of all] that(2) by simp
qed

end

section \<open>Except and ExceptAll\<close>

definition counted :: "counters \<Rightarrow> tuple list \<Rightarrow> tuple list" where
  "counted ht ks = concat (map (\<lambda>k. replicate (counter ht k) k) ks)"

lemma counted_Cons: "counted ht (k # ks) = replicate (counter ht k) k @ counted ht ks"
  by (simp add: counted_def)

lemma counted_cong: "(\<And>k. k \<in> set ks \<Longrightarrow> counter ht k = counter ht' k) \<Longrightarrow> counted ht ks = counted ht' ks"
  by (auto simp: counted_def cong: map_cong)

lemma set_counted: "set (counted ht ks) = {k \<in> set ks. counter ht k > 0}"
  by (auto simp: counted_def)

lemma count_counted: "distinct ks \<Longrightarrow> count (mset (counted ht ks)) y = (if y \<in> set ks then counter ht y else 0)"
  by (induction ks) (auto simp: counted_def)

lemma except_walk_counted: "distinct ks \<Longrightarrow>
  (case except_walk ht ks of
     (None, ht', it) \<Rightarrow> counted ht ks = []
   | (Some k, ht', it) \<Rightarrow> counted ht ks = k # counted ht' it \<and> distinct it \<and> set it \<subseteq> set ks \<and> k \<in> set ks)"
proof (induction ht ks rule: except_walk.induct)
  case (2 ht k ks)
  show ?case
  proof (cases "counter ht k")
    case 0
    then show ?thesis using 2 by (auto simp: counted_Cons split: prod.splits option.splits)
  next
    case (Suc n)
    have "counted (AList.update k n ht) ks = counted ht ks" using 2(2) by (intro counted_cong) auto
    then show ?thesis using 2(2) Suc by (simp add: counted_Cons)
  qed
qed (simp add: counted_def)

definition except_table :: "bool \<Rightarrow> ('l \<Rightarrow> tuple list) \<Rightarrow> ('r \<Rightarrow> tuple list) \<Rightarrow> ('l, 'r) counting \<Rightarrow> counters" where
  "except_table all lrows rrows s =
     fold drop_right (rrows (bi_right s)) (fold (count_left all) (lrows (bi_left s)) (ct_ht s))"

definition except_rows :: "bool \<Rightarrow> (tuple list \<Rightarrow> tuple list) \<Rightarrow> ('l \<Rightarrow> tuple list) \<Rightarrow> ('r \<Rightarrow> tuple list)
    \<Rightarrow> ('l, 'r) counting \<Rightarrow> tuple list" where
  "except_rows all ord lrows rrows s =
     (if bi_seen s then counted (ct_ht s) (ct_it s)
      else let ht = except_table all lrows rrows s in counted ht (ord (map fst ht)))"

definition except_live :: "('l \<Rightarrow> bool) \<Rightarrow> ('r \<Rightarrow> bool) \<Rightarrow> nat \<Rightarrow> ('l, 'r) counting \<Rightarrow> bool" where
  "except_live llive rlive w s \<longleftrightarrow> length (bi_regs s) = w
     \<and> (if bi_seen s then distinct (ct_it s) \<and> (\<forall>k \<in> set (ct_it s). length k = w)
        else llive (bi_left s) \<and> rlive (bi_right s) \<and> ct_ht s = [])"

lemma valid_order_distinct: "valid_order ord \<Longrightarrow> distinct xs \<Longrightarrow> distinct (ord xs)"
  by (metis valid_order_def mset_eq_imp_distinct_iff)

lemma valid_order_set: "valid_order ord \<Longrightarrow> set (ord xs) = set xs"
  by (metis valid_order_def mset_eq_setD)

lemma except_table_keys:
  assumes "ct_ht s = []"
  shows "distinct (map fst (except_table all lrows rrows s))"
    and "fst ` set (except_table all lrows rrows s) = set (lrows (bi_left s))"
    and "counter (except_table all lrows rrows s) =
      (\<lambda>y. left_counter all (lrows (bi_left s)) y - count (mset (rrows (bi_right s))) y)"
  using assms by (simp_all add: except_table_def distinct_drop_right distinct_count_left keys_drop_right
      keys_count_left count_drop counter_left)

context same_width_inputs
begin

lemma except_seen_step:
  assumes l: "except_live llive rlive w s" "bi_seen s"
  shows "case except_rows all ord lrows rrows s of
      [] \<Rightarrow> \<exists>s'. except_next all ord lnxt lout rnxt rout s = Some (False, s')
    | r # rs \<Rightarrow> \<exists>s'. except_next all ord lnxt lout rnxt rout s = Some (True, s') \<and> except_live llive rlive w s'
        \<and> except_rows all ord lrows rrows s' = rs \<and> binary_out s' = Some r"
proof -
  have d: "distinct (ct_it s)" "\<forall>k \<in> set (ct_it s). length k = w" "length (bi_regs s) = w"
    using l by (simp_all add: except_live_def)
  have rows: "except_rows all ord lrows rrows s = counted (ct_ht s) (ct_it s)"
    using l(2) by (simp add: except_rows_def)
  obtain found ht it where walk: "except_walk (ct_ht s) (ct_it s) = (found, ht, it)" by (metis prod_cases3)
  note wc = except_walk_counted [OF d(1), of "ct_ht s"]
  show ?thesis
  proof (cases found)
    case None
    then have "counted (ct_ht s) (ct_it s) = []" using wc walk by simp
    then show ?thesis unfolding rows using walk None l(2) by (simp add: except_next_def)
  next
    case (Some k)
    then have k: "counted (ct_ht s) (ct_it s) = k # counted ht it" "distinct it" "set it \<subseteq> set (ct_it s)"
        "k \<in> set (ct_it s)" using wc walk by simp_all
    moreover have "length k = w" using k(4) d(2) by blast
    ultimately show ?thesis unfolding rows using walk Some l(2) d
      by (auto simp: except_next_def except_live_def except_rows_def binary_out_def subset_iff)
  qed
qed

lemma except_step:
  assumes l: "except_live llive rlive w s" and ord: "valid_order ord"
  shows "case except_rows all ord lrows rrows s of
      [] \<Rightarrow> \<exists>s'. except_next all ord lnxt lout rnxt rout s = Some (False, s')
    | r # rs \<Rightarrow> \<exists>s'. except_next all ord lnxt lout rnxt rout s = Some (True, s') \<and> except_live llive rlive w s'
        \<and> except_rows all ord lrows rrows s' = rs \<and> binary_out s' = Some r"
proof (cases "bi_seen s")
  case True
  then show ?thesis by (rule except_seen_step [OF l])
next
  case False
  then have live: "llive (bi_left s)" "rlive (bi_right s)" and ht: "ct_ht s = []"
    using l by (simp_all add: except_live_def)
  let ?ht = "fold (count_left all) (lrows (bi_left s)) (ct_ht s)"
  from left.drain_rows [OF live(1) fold_opt_pure [of "count_left all"], of "ct_ht s"] obtain i where
    i: "drain lnxt lout (\<lambda>r ht. Some (count_left all r ht)) (bi_left s) (ct_ht s) = Some (i, ?ht)" by blast
  from right.drain_rows [OF live(2) fold_opt_pure [of drop_right], of ?ht] obtain j where
    j: "drain rnxt rout (\<lambda>r ht. Some (drop_right r ht)) (bi_right s) ?ht = Some (j, except_table all lrows rrows s)"
    unfolding except_table_def by blast
  define s1 where "s1 = s\<lparr>bi_left := i, bi_right := j, ct_ht := except_table all lrows rrows s,
    ct_it := ord (map fst (except_table all lrows rrows s)), bi_seen := True\<rparr>"
  have "except_next all ord lnxt lout rnxt rout s = except_next all ord lnxt lout rnxt rout s1"
    using False i j by (simp add: except_next_def s1_def)
  moreover have "except_rows all ord lrows rrows s = except_rows all ord lrows rrows s1"
    using False by (simp add: except_rows_def s1_def Let_def)
  moreover have "except_live llive rlive w s1"
    using l left.rows_width [OF live(1)] except_table_keys [OF ht, of all lrows rrows]
    by (simp add: s1_def except_live_def valid_order_distinct [OF ord] valid_order_set [OF ord])
  moreover have "bi_seen s1" by (simp add: s1_def)
  ultimately show ?thesis using except_seen_step [of s1] by (simp only:)
qed

lemma except_iterator:
  assumes "valid_order ord"
  shows "iterator (binary_open lopn lout ropn rout) (except_next all ord lnxt lout rnxt rout) binary_out w
     (counting_closed lclosed rclosed) (except_live llive rlive w) (except_rows all ord lrows rrows)"
proof unfold_locales
  fix s :: "('l, 'r) counting" and r and rs :: "tuple list"
  show "\<exists>s'. binary_open lopn lout ropn rout s = Some s' \<and> except_live llive rlive w s'
      \<and> except_rows all ord lrows rrows s' = except_rows all ord lrows rrows s" if "counting_closed lclosed rclosed s"
  proof -
    have c: "lclosed (bi_left s)" "rclosed (bi_right s)" "\<not> bi_seen s" "ct_ht s = []"
      using that by (simp_all add: counting_closed_def)
    from binary_open_ok [OF c(1,2)] c(3,4) show ?thesis
      by (elim exE conjE) (simp add: except_live_def except_rows_def except_table_def)
  qed
  show "\<exists>r. binary_out s = Some r \<and> length r = w" if "except_live llive rlive w s"
    using that by (simp add: binary_out_def except_live_def)
  show "length r = w" if "except_live llive rlive w s" "r \<in> set (except_rows all ord lrows rrows s)"
    using that left.rows_width except_table_keys(2) [of s all lrows rrows]
    by (auto simp: except_rows_def except_live_def set_counted valid_order_set [OF assms] Let_def split: if_splits)
  show "\<exists>s'. except_next all ord lnxt lout rnxt rout s = Some (True, s') \<and> except_live llive rlive w s'
      \<and> except_rows all ord lrows rrows s' = rs \<and> binary_out s' = Some r"
    if "except_live llive rlive w s" "except_rows all ord lrows rrows s = r # rs"
    using except_step [OF that(1) assms, of all] that(2) by simp
  show "\<exists>s'. except_next all ord lnxt lout rnxt rout s = Some (False, s')"
    if "except_live llive rlive w s" "except_rows all ord lrows rrows s = []"
    using except_step [OF that(1) assms, of all] that(2) by simp
qed

end

section \<open>The bags and sets delivered\<close>

lemma count_indicator:
  assumes "\<And>y. count (mset zs) y = (if y \<in> A then 1 else 0)"
  shows "set zs = A" "distinct zs"
proof -
  have "y \<in> set zs \<longleftrightarrow> y \<in> A" for y
    using assms [of y] count_greater_zero_iff [of "mset zs" y] by (auto split: if_splits)
  then show "set zs = A" by blast
  show "distinct zs"
    using assms by (auto simp: distinct_count_atmost_1 \<open>set zs = A\<close>)
qed

lemma mset_new_rows: "set (new_rows {} xs) = set xs" "distinct (new_rows {} xs)"
  by (simp_all add: set_new_rows distinct_new_rows)

lemma mset_intersect_all: "mset (kept (left_counter True xs) ys) = mset xs \<inter># mset ys"
  by (rule multiset_eqI) (simp add: count_kept left_counter_def)

lemma count_intersect:
  "count (mset (kept (left_counter False xs) ys)) y = (if y \<in> set xs \<inter> set ys then 1 else 0)"
  using count_greater_zero_iff [of "mset ys" y] by (auto simp: count_kept left_counter_def min_def)

lemmas set_intersect = count_indicator [OF count_intersect]

lemma count_except_rows:
  assumes "valid_order ord" "ct_ht s = []" "\<not> bi_seen s"
  shows "count (mset (except_rows all ord lrows rrows s)) y =
    left_counter all (lrows (bi_left s)) y - count (mset (rrows (bi_right s))) y"
proof -
  have "left_counter all (lrows (bi_left s)) y = 0" if "y \<notin> set (lrows (bi_left s))"
    using that by (simp add: left_counter_def)
  then show ?thesis
    using assms except_table_keys [OF assms(2), of all lrows rrows]
    by (auto simp: except_rows_def Let_def count_counted valid_order_distinct valid_order_set)
qed

lemma mset_except_all:
  assumes "valid_order ord" "ct_ht s = []" "\<not> bi_seen s"
  shows "mset (except_rows True ord lrows rrows s) = mset (lrows (bi_left s)) - mset (rrows (bi_right s))"
  by (rule multiset_eqI) (simp add: count_except_rows [OF assms] left_counter_def)

lemma set_except:
  assumes "valid_order ord" "ct_ht s = []" "\<not> bi_seen s"
  shows "set (except_rows False ord lrows rrows s) = set (lrows (bi_left s)) - set (rrows (bi_right s))"
    and "distinct (except_rows False ord lrows rrows s)"
proof -
  let ?zs = "except_rows False ord lrows rrows s"
  have "count (mset ?zs) y = (if y \<in> set (lrows (bi_left s)) - set (rrows (bi_right s)) then 1 else 0)" for y
  proof (cases "y \<in> set (rrows (bi_right s))")
    case True
    then have "count (mset (rrows (bi_right s))) y \<noteq> 0" by simp
    then show ?thesis using True by (simp add: count_except_rows [OF assms] left_counter_def)
  next
    case False
    then have "count (mset (rrows (bi_right s))) y = 0" by (simp only: count_eq_zero_iff set_mset_mset not_False_eq_True)
    then show ?thesis using False by (simp only: count_except_rows [OF assms] left_counter_def) simp
  qed
  note ind = count_indicator [OF this]
  show "set ?zs = set (lrows (bi_left s)) - set (rrows (bi_right s))" by (rule ind(1))
  show "distinct ?zs" by (rule ind(2))
qed

section \<open>The operators over two tables\<close>

interpretation tables: same_width_inputs scan_open scan_next scan_out w "scan_closed w" "scan_live w" scan_rows
    scan_open scan_next scan_out "scan_closed w" "scan_live w" scan_rows for w
  by unfold_locales

end
