(* ===== verification/Query_Properties.thy ===== *)
theory Query_Properties
  imports Op_Pipeline Op_Sort Op_Join Op_Aggregation Op_Set_Correct
begin

text \<open>
  What a query delivers: each operator over tables in memory, from \<open>open\<close> to the end of its
  output. The proofs are those of the locale \<open>iterator\<close>, at the operator's instance.
\<close>

definition table_ok :: "nat \<Rightarrow> tuple list \<Rightarrow> bool" where
  "table_ok w ts \<longleftrightarrow> (\<forall>r \<in> set ts. length r = w)"

lemma table_scan: "table_ok w ts \<Longrightarrow> scan_closed w (scan_init w ts)"
  unfolding table_ok_def by (rule scan_init_ok(1))

text \<open>\<open>open\<close> and then \<open>next\<close> until the end.\<close>

definition run_op :: "('s \<Rightarrow> 's option) \<Rightarrow> ('s \<Rightarrow> (bool \<times> 's) option) \<Rightarrow> ('s \<Rightarrow> tuple option) \<Rightarrow> 's \<Rightarrow> tuple list option" where
  "run_op opn nxt out s = do { s \<leftarrow> opn s; collect nxt out s }"

lemmas run_rows = iterator.open_collect [folded run_op_def]

definition students :: "tuple list" where
  "students = [[IntReg 24002, CharReg ''Xenokrates'', IntReg 18],
               [IntReg 26120, CharReg ''Fichte'', IntReg 10],
               [IntReg 29555, CharReg ''Feuerbach'', IntReg 2],
               [IntReg 27550, CharReg ''Schopenhauer'', IntReg 6]]"

lemma students_table: "table_ok 3 students"
  by (simp add: table_ok_def students_def)

section \<open>Selection, projection and printing\<close>

text \<open>A selection delivers, in order, exactly the tuples that satisfy its predicate.\<close>

theorem select_delivers:
  assumes "table_ok w ts" "\<forall>r \<in> set ts. select_test s r \<noteq> None" "sl_input s = scan_init w ts"
  shows "run_op (select_open scan_open scan_out) (select_next scan_next scan_out) (select_out scan_out) s
    = Some (filter (\<lambda>r. select_test s r = Some True) ts)"
proof -
  have "select_live (scan_closed w) scan_rows s"
    using assms by (simp add: select_live_def table_scan scan_init_ok)
  from run_rows [OF scan.select_iterator this] show ?thesis
    by (simp add: select_rows_def assms(3) scan_init_ok)
qed

theorem select_delivers_witness:
  "run_op (select_open scan_open scan_out) (select_next scan_next scan_out) (select_out scan_out)
     (select_int64 (scan_init 3 students) 2 6 GT) = Some (take 2 students)"
proof -
  let ?s = "select_int64 (scan_init 3 students) 2 6 GT"
  have "filter (\<lambda>r. select_test ?s r = Some True) students = take 2 students"
    by (simp add: students_def select_test_def select_int64_def from_int_def reg_gt_eq arr_get_def)
  moreover have "\<forall>r \<in> set students. select_test ?s r \<noteq> None"
    by (auto simp: students_def select_test_def select_int64_def from_int_def reg_gt_eq arr_get_def)
  ultimately show ?thesis
    using select_delivers [OF students_table, of ?s] by (simp add: select_int64_def)
qed

text \<open>A projection delivers the first attributes of every tuple, as many as indexes were
  given, whatever the indexes are.\<close>

theorem projection_delivers_prefix:
  assumes "table_ok w ts" "length idx \<le> w"
  shows "run_op (projection_open scan_open) (projection_next scan_next) (projection_out scan_out)
      \<lparr>pj_input = scan_init w ts, attr_indexes = idx\<rparr> = Some (map (take (length idx)) ts)"
proof -
  let ?p = "\<lparr>pj_input = scan_init w ts, attr_indexes = idx\<rparr>"
  have "projection_live (scan_closed w) w (length idx) ?p"
    using assms by (simp add: projection_live_def table_scan)
  from run_rows [OF scan.projection_iterator this] show ?thesis
    by (simp add: projection_rows_def scan_init_ok)
qed

theorem projection_delivers_prefix_witness:
  "run_op (projection_open scan_open) (projection_next scan_next) (projection_out scan_out)
      \<lparr>pj_input = scan_init 3 students, attr_indexes = [1]\<rparr>
    = Some [[IntReg 24002], [IntReg 26120], [IntReg 29555], [IntReg 27550]]"
  using projection_delivers_prefix [OF students_table, of "[1]"] by (simp add: students_def)

text \<open>Printing a query writes one line for every tuple, its registers separated by commas.
  The query is here a selection on a table.\<close>

theorem print_selection_lines:
  assumes "table_ok w ts" "\<forall>r \<in> set ts. select_test s r \<noteq> None" "sl_input s = scan_init w ts"
  shows "\<exists>p p'. print_open (select_open scan_open scan_out) (select_out scan_out) \<lparr>pr_input = s, stream = str\<rparr> = Some p
    \<and> print_all (select_next scan_next scan_out) (select_out scan_out) p = Some p'
    \<and> stream p' = str @ concat (map line (filter (\<lambda>r. select_test s r = Some True) ts))"
proof -
  let ?p = "\<lparr>pr_input = s, stream = str\<rparr>"
  have c: "select_live (scan_closed w) scan_rows s"
    using assms by (simp add: select_live_def table_scan scan_init_ok)
  obtain s' where s': "select_open scan_open scan_out s = Some s'" "select_live (scan_live w) scan_rows s'"
      "select_rows scan_rows s' = select_rows scan_rows s"
    using iterator.open_live [OF scan.select_iterator c] by blast
  obtain r where "select_out scan_out s' = Some r"
    using iterator.out_width [OF scan.select_iterator s'(2)] by blast
  then have "print_open (select_open scan_open scan_out) (select_out scan_out) ?p = Some (?p\<lparr>pr_input := s'\<rparr>)"
    using s' by (simp add: print_open_def)
  moreover obtain p' where "print_all (select_next scan_next scan_out) (select_out scan_out) (?p\<lparr>pr_input := s'\<rparr>) = Some p'"
      "stream p' = str @ concat (map line (select_rows scan_rows s'))"
    using iterator.print_all_lines [OF scan.select_iterator, where p = "?p\<lparr>pr_input := s'\<rparr>"] s'(2) by auto
  ultimately show ?thesis unfolding s'(3) by (simp add: select_rows_def assms(3) scan_init_ok)
qed

theorem print_selection_lines_witness:
  "\<exists>p p'. print_open (select_open scan_open scan_out) (select_out scan_out)
        \<lparr>pr_input = select_char16 (scan_init 3 students) 1 ''Fichte'' EQ, stream = []\<rparr> = Some p
    \<and> print_all (select_next scan_next scan_out) (select_out scan_out) p = Some p'
    \<and> stream p' = ''26120,Fichte,10'' @ [char_of (10::nat)]"
proof -
  let ?s = "select_char16 (scan_init 3 students) 1 ''Fichte'' EQ"
  have f: "filter (\<lambda>r. select_test ?s r = Some True) students = [[IntReg 26120, CharReg ''Fichte'', IntReg 10]]"
    by (simp add: students_def select_test_def select_char16_def from_string_def arr_get_def)
  have t: "\<forall>r \<in> set students. select_test ?s r \<noteq> None"
    by (auto simp: students_def select_test_def select_char16_def from_string_def arr_get_def)
  have l: "line [IntReg 26120, CharReg ''Fichte'', IntReg 10] = ''26120,Fichte,10'' @ [char_of (10::nat)]"
    by (simp add: line_def int_str_def nat_str.simps char_of_def bit_Suc_0_iff)
  have "sl_input ?s = scan_init 3 students" by (simp add: select_char16_def)
  from print_selection_lines [OF students_table t this, of "[]"] show ?thesis
    unfolding f by (simp only: list.map concat.simps l append_Nil append_Nil2)
qed

section \<open>Sorting\<close>

text \<open>C36: A sort delivers its input as a permutation ordered by the criteria, the first one the
  most important, and keeps the order of tuples that agree on all of them.\<close>

theorem sort_delivers:
  assumes "table_ok w ts" "\<forall>c \<in> set cs. comparable c ts"
  shows "\<exists>ys. run_op (sort_open scan_open scan_out) (sort_next scan_next scan_out) sort_out (sort_init (scan_init w ts) cs)
      = Some ys \<and> mset ys = mset ts \<and> sorted_wrt (lex_le cs) ys
    \<and> (\<forall>k. filter (\<lambda>r. sort_key_of cs r = k) ys = filter (\<lambda>r. sort_key_of cs r = k) ts)"
proof -
  let ?s = "sort_init (scan_init w ts) cs"
  have "sort_closed (scan_closed w) scan_rows ?s"
    using assms by (simp add: sort_closed_def sort_init_def table_scan scan_init_ok)
  note run = run_rows [OF scan.sort_iterator this]
  obtain ys where "sort_rows cs ts = Some ys" using sort_rows_total [of cs ts] assms(2) by auto
  with run sort_rows_sorted [OF this] sort_rows_stable [OF this] show ?thesis
    by (simp add: sort_op_rows_def sort_init_def scan_init_ok)
qed

theorem sort_delivers_witness:
  "\<exists>ys. run_op (sort_open scan_open scan_out) (sort_next scan_next scan_out) sort_out
        (sort_init (scan_init 3 students) [\<lparr>crit_attr = 2, crit_desc = True\<rparr>, \<lparr>crit_attr = 1, crit_desc = False\<rparr>])
      = Some ys \<and> mset ys = mset students"
  using sort_delivers [OF students_table,
      of "[\<lparr>crit_attr = 2, crit_desc = True\<rparr>, \<lparr>crit_attr = 1, crit_desc = False\<rparr>]"]
  by (auto simp: comparable_def students_def)

section \<open>Joining\<close>

text \<open>C34: A hash join on a left input whose keys are distinct is the inner equi-join, in the order
  of the right input; whichever of several matches the hash table returned would be the same.\<close>

theorem hash_join_delivers:
  assumes "valid_pick pick" "table_ok lw ls" "table_ok rw rs" "i < lw" "j < rw" "distinct (map (\<lambda>l. l ! i) ls)"
  shows "run_op (hash_join_open scan_open scan_out scan_open scan_out)
      (hash_join_next pick scan_next scan_out scan_next scan_out) hash_join_out
      (hash_join_init (scan_init lw ls) (scan_init rw rs) i j) = Some (equi_join i j ls rs)"
proof -
  let ?s = "hash_join_init (scan_init lw ls) (scan_init rw rs) i j"
  have "join_closed (scan_closed lw) lw (scan_closed rw) rw ?s"
    using assms by (simp add: join_closed_def hash_join_init_def table_scan)
  from run_rows [OF scans.hash_join_iterator [OF assms(1)] this] show ?thesis
    using join_rows_unique_keys [OF assms(1,6), of j rs]
    by (simp add: hash_join_rows_def hash_join_init_def scan_init_ok)
qed

theorem hash_join_delivers_witness:
  "run_op (hash_join_open scan_open scan_out scan_open scan_out)
      (hash_join_next hd scan_next scan_out scan_next scan_out) hash_join_out
      (hash_join_init (scan_init 3 students) (scan_init 2 [[IntReg 9, IntReg 26120], [IntReg 8, IntReg 1]]) 0 1)
    = Some [[IntReg 26120, CharReg ''Fichte'', IntReg 10, IntReg 9, IntReg 26120]]"
  using hash_join_delivers [of hd 3 students 2 "[[IntReg 9, IntReg 26120], [IntReg 8, IntReg 1]]" 0 1] students_table
  by (simp add: valid_pick_def table_ok_def students_def equi_join_def partners_def)

text \<open>Whatever the keys of the left input, every right tuple that has a partner is joined with
  exactly one of its partners: the other pairs of the equi-join are never delivered.\<close>

theorem hash_join_one_partner:
  assumes "valid_pick pick" "table_ok lw ls" "table_ok rw rs" "i < lw" "j < rw"
  shows "run_op (hash_join_open scan_open scan_out scan_open scan_out)
      (hash_join_next pick scan_next scan_out scan_next scan_out) hash_join_out
      (hash_join_init (scan_init lw ls) (scan_init rw rs) i j)
    = Some (map (\<lambda>r. pick (partners i ls (r ! j)) @ r) (filter (\<lambda>r. partners i ls (r ! j) \<noteq> []) rs))"
proof -
  let ?s = "hash_join_init (scan_init lw ls) (scan_init rw rs) i j"
  have "join_closed (scan_closed lw) lw (scan_closed rw) rw ?s"
    using assms by (simp add: join_closed_def hash_join_init_def table_scan)
  from run_rows [OF scans.hash_join_iterator [OF assms(1)] this] show ?thesis
    by (simp add: hash_join_rows_def hash_join_init_def scan_init_ok join_rows_def)
qed

theorem hash_join_one_partner_witness:
  "run_op (hash_join_open scan_open scan_out scan_open scan_out)
      (hash_join_next hd scan_next scan_out scan_next scan_out) hash_join_out
      (hash_join_init (scan_init 2 [[IntReg 1, IntReg 10], [IntReg 1, IntReg 20]]) (scan_init 1 [[IntReg 1]]) 0 0)
    = Some [[IntReg 1, IntReg 10, IntReg 1]]
   \<and> equi_join 0 0 [[IntReg 1, IntReg 10], [IntReg 1, IntReg 20]] [[IntReg 1]]
    = [[IntReg 1, IntReg 10, IntReg 1], [IntReg 1, IntReg 20, IntReg 1]]"
  using hash_join_one_partner [of hd 2 "[[IntReg 1, IntReg 10], [IntReg 1, IntReg 20]]" 1 "[[IntReg 1]]" 0 0]
  by (simp add: valid_pick_def table_ok_def equi_join_def partners_def)

section \<open>Aggregation\<close>

text \<open>C35: A hash aggregation delivers one tuple for every group of its input: the group's
  attributes, then the minimum, maximum, sum or number the functions ask for.\<close>

theorem aggregation_delivers:
  assumes "valid_order ord" "table_ok w ts" "aggregable w gs fs ts"
  shows "\<exists>ys. run_op (aggregation_open scan_open scan_out) (aggregation_next ord scan_next scan_out) aggregation_out
      (aggregation_init (scan_init w ts) gs fs) = Some ys
    \<and> mset ys = mset (map (\<lambda>k. k @ map (aggr_value (group_rows gs k ts)) fs) (remdups (map (group_of gs) ts)))"
proof -
  let ?s = "aggregation_init (scan_init w ts) gs fs"
  have c: "aggregation_closed (scan_closed w) w scan_rows (length gs + length fs) ?s"
    using assms by (simp add: aggregation_closed_def aggregation_init_def table_scan scan_init_ok)
  from run_rows [OF scan.aggregation_iterator [OF assms(1)] c] scan.aggregation_multiset [OF assms(1) c]
  show ?thesis by (simp add: aggr_rows_def aggregation_init_def scan_init_ok)
qed

theorem aggregation_delivers_witness:
  "\<exists>ys. run_op (aggregation_open scan_open scan_out) (aggregation_next rev scan_next scan_out) aggregation_out
      (aggregation_init (scan_init 2 [[IntReg 1, IntReg 5], [IntReg 2, IntReg 7], [IntReg 1, IntReg 6]]) [0]
        [\<lparr>func = SUM_AGGR, aggr_attr = 1\<rparr>, \<lparr>func = MAX_AGGR, aggr_attr = 1\<rparr>]) = Some ys
    \<and> mset ys = {# [IntReg 1, IntReg 11, IntReg 6], [IntReg 2, IntReg 7, IntReg 7] #}"
proof -
  let ?ts = "[[IntReg 1, IntReg 5], [IntReg 2, IntReg 7], [IntReg 1, IntReg 6]]"
  let ?fs = "[\<lparr>func = SUM_AGGR, aggr_attr = 1\<rparr>, \<lparr>func = MAX_AGGR, aggr_attr = 1\<rparr>]"
  have a: "aggregable 2 [0] ?fs ?ts"
    by (simp add: aggregable_def aggr_ok_def column_def int64_max_def)
  have m: "max (IntReg 5) (IntReg 6) = IntReg 6"
    by (simp add: max_def less_eq_register_def)
  have o: "valid_order rev" by (simp add: valid_order_def)
  have t: "table_ok 2 ?ts" by (simp add: table_ok_def)
  show ?thesis
    using aggregation_delivers [OF o t a]
    by (simp add: group_of_def group_rows_def aggr_value_def column_def m add_mset_commute)
qed

section \<open>The set operators\<close>

lemma binary_union: "table_ok w ls \<Longrightarrow> table_ok w rs
    \<Longrightarrow> union_closed (scan_closed w) (scan_closed w) (union_init (scan_init w ls) (scan_init w rs))"
  by (simp add: union_closed_def union_init_def table_scan)

lemma binary_union_all: "table_ok w ls \<Longrightarrow> table_ok w rs
    \<Longrightarrow> union_all_closed (scan_closed w) (scan_closed w) (union_all_init (scan_init w ls) (scan_init w rs))"
  by (simp add: union_all_closed_def union_all_init_def table_scan)

lemma binary_counting: "table_ok w ls \<Longrightarrow> table_ok w rs
    \<Longrightarrow> counting_closed (scan_closed w) (scan_closed w) (counting_init (scan_init w ls) (scan_init w rs))"
  by (simp add: counting_closed_def counting_init_def table_scan)

text \<open>\<open>UnionAll\<close> delivers the left input and then the right one; \<open>Union\<close> delivers the tuples of
  both, each once.\<close>

theorem union_delivers:
  assumes "table_ok w ls" "table_ok w rs"
  shows "run_op (binary_open scan_open scan_out scan_open scan_out)
      (union_all_next scan_next scan_out scan_next scan_out) binary_out
      (union_all_init (scan_init w ls) (scan_init w rs)) = Some (ls @ rs)
    \<and> (\<exists>ys. run_op (binary_open scan_open scan_out scan_open scan_out)
        (union_next scan_next scan_out scan_next scan_out) binary_out
        (union_init (scan_init w ls) (scan_init w rs)) = Some ys \<and> distinct ys \<and> set ys = set ls \<union> set rs)"
  using run_rows [OF tables.union_all_iterator binary_union_all [OF assms]]
    run_rows [OF tables.union_iterator binary_union [OF assms]]
  by (simp add: union_all_rows_def union_all_init_def union_rows_def union_init_def scan_init_ok
      set_new_rows distinct_new_rows)

theorem union_delivers_witness:
  "run_op (binary_open scan_open scan_out scan_open scan_out)
      (union_all_next scan_next scan_out scan_next scan_out) binary_out
      (union_all_init (scan_init 1 [[IntReg 1], [IntReg 1]]) (scan_init 1 [[IntReg 1], [IntReg 2]]))
    = Some [[IntReg 1], [IntReg 1], [IntReg 1], [IntReg 2]]"
  using union_delivers [of 1 "[[IntReg 1], [IntReg 1]]" "[[IntReg 1], [IntReg 2]]"] by (simp add: table_ok_def)

text \<open>C37: \<open>IntersectAll\<close> delivers the bag intersection of its inputs and \<open>Intersect\<close> the set
  intersection, without duplicates.\<close>

theorem intersect_delivers:
  assumes "table_ok w ls" "table_ok w rs"
  shows "\<exists>ys zs. run_op (binary_open scan_open scan_out scan_open scan_out)
      (intersect_all_next scan_next scan_out scan_next scan_out) binary_out
      (counting_init (scan_init w ls) (scan_init w rs)) = Some ys \<and> mset ys = mset ls \<inter># mset rs
    \<and> run_op (binary_open scan_open scan_out scan_open scan_out)
      (intersect_set_next scan_next scan_out scan_next scan_out) binary_out
      (counting_init (scan_init w ls) (scan_init w rs)) = Some zs \<and> distinct zs \<and> set zs = set ls \<inter> set rs"
  using run_rows [OF tables.intersect_iterator [of True] binary_counting [OF assms]]
    run_rows [OF tables.intersect_iterator [of False] binary_counting [OF assms]]
  by (simp add: intersect_set_next_def intersect_all_next_def intersect_rows_def counting_init_def scan_init_ok counter_left mset_intersect_all set_intersect)

theorem intersect_delivers_witness:
  "\<exists>ys. run_op (binary_open scan_open scan_out scan_open scan_out)
      (intersect_all_next scan_next scan_out scan_next scan_out) binary_out
      (counting_init (scan_init 1 [[IntReg 1], [IntReg 1]]) (scan_init 1 [[IntReg 1], [IntReg 2]])) = Some ys
    \<and> mset ys = {# [IntReg 1] #}"
  using intersect_delivers [of 1 "[[IntReg 1], [IntReg 1]]" "[[IntReg 1], [IntReg 2]]"] by (auto simp: table_ok_def)

text \<open>C38: \<open>ExceptAll\<close> delivers the bag difference of its inputs and \<open>Except\<close> the set difference,
  without duplicates, whatever the order of the hash table.\<close>

theorem except_delivers:
  assumes "valid_order ord" "table_ok w ls" "table_ok w rs"
  shows "\<exists>ys zs. run_op (binary_open scan_open scan_out scan_open scan_out)
      (except_all_next ord scan_next scan_out scan_next scan_out) binary_out
      (counting_init (scan_init w ls) (scan_init w rs)) = Some ys \<and> mset ys = mset ls - mset rs
    \<and> run_op (binary_open scan_open scan_out scan_open scan_out)
      (except_set_next ord scan_next scan_out scan_next scan_out) binary_out
      (counting_init (scan_init w ls) (scan_init w rs)) = Some zs \<and> distinct zs \<and> set zs = set ls - set rs"
proof -
  let ?s = "counting_init (scan_init w ls) (scan_init w rs)"
  have s: "ct_ht ?s = []" "\<not> bi_seen ?s" "scan_rows (bi_left ?s) = ls" "scan_rows (bi_right ?s) = rs"
    by (simp_all add: counting_init_def scan_init_ok)
  from run_rows [OF tables.except_iterator [OF assms(1), of True] binary_counting [OF assms(2,3)]]
    run_rows [OF tables.except_iterator [OF assms(1), of False] binary_counting [OF assms(2,3)]]
    mset_except_all [OF assms(1) s(1,2), of scan_rows scan_rows]
    set_except [OF assms(1) s(1,2), of scan_rows scan_rows]
  show ?thesis by (simp add: s except_set_next_def except_all_next_def)
qed

theorem except_delivers_witness:
  "\<exists>ys. run_op (binary_open scan_open scan_out scan_open scan_out)
      (except_all_next rev scan_next scan_out scan_next scan_out) binary_out
      (counting_init (scan_init 1 [[IntReg 1], [IntReg 1]]) (scan_init 1 [[IntReg 1], [IntReg 2]])) = Some ys
    \<and> mset ys = {# [IntReg 1] #}"
  using except_delivers [of rev 1 "[[IntReg 1], [IntReg 1]]" "[[IntReg 1], [IntReg 2]]"]
  by (auto simp: table_ok_def valid_order_def)

end
