(* ===== verification/Two_Q.thy ===== *)
theory Two_Q
  imports Prelude_DB "HOL-Library.AList"
begin

text \<open>
  The two-queue replacer of the buffer pool
  (\<^verbatim>\<open>src/task-slotted-pages/src/buffer/2Q_replacer.cc\<close>) behind the interface \<open>Replacer\<close>.
  Its lists are kept front first, as the code keeps them; the iterator that the hash table
  stores for a frame is the frame itself, which occurs once in the two lists. Every operation
  runs under the replacer's latch and is one step.
\<close>

type_synonym frame_id = int

datatype page_hotness = COLD | HOT | COLD_PINNED | HOT_PINNED

record two_q =
  num_pages :: nat
  fifo_size :: nat
  lru_size :: nat
  fifo_list :: "frame_id list"
  lru_list :: "frame_id list"
  frame_table :: "(frame_id \<times> page_hotness) list"

definition two_q_init :: "nat \<Rightarrow> two_q" where
  "two_q_init n = \<lparr>num_pages = n, fifo_size = 0, lru_size = 0, fifo_list = [], lru_list = [], frame_table = []\<rparr>"

text \<open>The assertions that every operation starts with.\<close>

definition sizes_agree :: "two_q \<Rightarrow> bool" where
  "sizes_agree q \<longleftrightarrow> length (frame_table q) = length (fifo_list q) + length (lru_list q)
     \<and> length (frame_table q) \<le> num_pages q"

text \<open>The walk from the end of a list to the first frame of the given hotness.\<close>

fun find_victim :: "page_hotness \<Rightarrow> (frame_id \<times> page_hotness) list \<Rightarrow> frame_id list \<Rightarrow> frame_id option" where
  "find_victim want t [] = None"
| "find_victim want t (f # fs) = do {
     h \<leftarrow> map_of t f;
     if h = want then Some f else find_victim want t fs }"

definition Victim :: "two_q \<Rightarrow> (frame_id option \<times> two_q) option" where
  "Victim q = do {
     require (sizes_agree q);
     require (length (frame_table q) > 0);
     if fifo_size q + lru_size q = 0 then Some (None, q)
     else if fifo_size q = 0 then do {
       f \<leftarrow> find_victim HOT (frame_table q) (rev (lru_list q));
       let q = q\<lparr>lru_size := lru_size q - 1, lru_list := remove1 f (lru_list q), frame_table := AList.delete f (frame_table q)\<rparr>;
       require (length (frame_table q) = length (fifo_list q) + length (lru_list q));
       Some (Some f, q) }
     else do {
       f \<leftarrow> find_victim COLD (frame_table q) (rev (fifo_list q));
       let q = q\<lparr>fifo_size := fifo_size q - 1, fifo_list := remove1 f (fifo_list q), frame_table := AList.delete f (frame_table q)\<rparr>;
       require (length (frame_table q) = length (fifo_list q) + length (lru_list q));
       Some (Some f, q) } }"

definition Pin :: "frame_id \<Rightarrow> two_q \<Rightarrow> two_q option" where
  "Pin f q = do {
     require (sizes_agree q);
     require (0 \<le> f \<and> f \<le> int (num_pages q));
     let q = (case map_of (frame_table q) f of
         Some COLD \<Rightarrow> q\<lparr>frame_table := AList.update f COLD_PINNED (frame_table q), fifo_size := fifo_size q - 1\<rparr>
       | Some HOT \<Rightarrow> q\<lparr>frame_table := AList.update f HOT_PINNED (frame_table q), lru_size := lru_size q - 1\<rparr>
       | _ \<Rightarrow> q);
     require (length (frame_table q) = length (fifo_list q) + length (lru_list q));
     Some q }"

definition Unpin :: "frame_id \<Rightarrow> two_q \<Rightarrow> two_q option" where
  "Unpin f q = do {
     require (sizes_agree q);
     require (0 \<le> f \<and> f \<le> int (num_pages q));
     q \<leftarrow> (case map_of (frame_table q) f of
         None \<Rightarrow> do {
           require (length (frame_table q) < num_pages q);
           Some (q\<lparr>fifo_list := f # fifo_list q, frame_table := AList.update f COLD (frame_table q), fifo_size := fifo_size q + 1\<rparr>) }
       | Some h \<Rightarrow> do {
           let q = (if h = HOT \<or> h = HOT_PINNED then q\<lparr>lru_list := f # remove1 f (lru_list q)\<rparr>
                    else q\<lparr>lru_list := f # lru_list q, fifo_list := remove1 f (fifo_list q)\<rparr>);
           Some (if h = COLD
                 then q\<lparr>fifo_size := fifo_size q - 1, lru_size := lru_size q + 1, frame_table := AList.update f HOT (frame_table q)\<rparr>
                 else if h = HOT_PINNED \<or> h = COLD_PINNED
                 then q\<lparr>lru_size := lru_size q + 1, frame_table := AList.update f HOT (frame_table q)\<rparr>
                 else q) });
     require (length (frame_table q) = length (fifo_list q) + length (lru_list q));
     Some q }"

definition replacer_size :: "two_q \<Rightarrow> nat option" where
  "replacer_size q = do { require (sizes_agree q); Some (fifo_size q + lru_size q) }"

definition FifoSize :: "two_q \<Rightarrow> nat option" where
  "FifoSize q = do { require (sizes_agree q); Some (fifo_size q) }"

definition LruSize :: "two_q \<Rightarrow> nat option" where
  "LruSize q = do { require (sizes_agree q); Some (lru_size q) }"

definition get_fifo_list :: "two_q \<Rightarrow> frame_id list" where
  "get_fifo_list q = rev (fifo_list q)"

definition get_lru_list :: "two_q \<Rightarrow> frame_id list" where
  "get_lru_list q = rev (lru_list q)"

section \<open>The policy\<close>

text \<open>
  What the replacer promises: the frames it tracks, and the frames that may be evicted, in the
  order of their eviction: first the cold ones, oldest first, then the hot ones, least recently
  used first.
\<close>

definition heat :: "two_q \<Rightarrow> frame_id \<Rightarrow> page_hotness option" where
  "heat q = map_of (frame_table q)"

definition cold_frames :: "two_q \<Rightarrow> frame_id list" where
  "cold_frames q = rev (filter (\<lambda>f. heat q f = Some COLD) (fifo_list q))"

definition hot_frames :: "two_q \<Rightarrow> frame_id list" where
  "hot_frames q = rev (filter (\<lambda>f. heat q f = Some HOT) (lru_list q))"

record policy =
  tracked :: "frame_id set"
  cold :: "frame_id list"
  hot :: "frame_id list"

definition policy_of :: "two_q \<Rightarrow> policy" where
  "policy_of q = \<lparr>tracked = dom (heat q), cold = cold_frames q, hot = hot_frames q\<rparr>"

fun policy_victim :: "policy \<Rightarrow> frame_id option \<times> policy" where
  "policy_victim p =
     (case cold p of
        f # fs \<Rightarrow> (Some f, p\<lparr>tracked := tracked p - {f}, cold := fs\<rparr>)
      | [] \<Rightarrow> (case hot p of
          f # fs \<Rightarrow> (Some f, p\<lparr>tracked := tracked p - {f}, hot := fs\<rparr>)
        | [] \<Rightarrow> (None, p)))"

definition policy_pin :: "frame_id \<Rightarrow> policy \<Rightarrow> policy" where
  "policy_pin f p = p\<lparr>cold := filter (\<lambda>g. g \<noteq> f) (cold p), hot := filter (\<lambda>g. g \<noteq> f) (hot p)\<rparr>"

definition policy_unpin :: "frame_id \<Rightarrow> policy \<Rightarrow> policy" where
  "policy_unpin f p =
     (if f \<in> tracked p then p\<lparr>cold := filter (\<lambda>g. g \<noteq> f) (cold p), hot := filter (\<lambda>g. g \<noteq> f) (hot p) @ [f]\<rparr>
      else p\<lparr>tracked := insert f (tracked p), cold := cold p @ [f]\<rparr>)"

section \<open>The invariant\<close>

definition two_q_inv :: "two_q \<Rightarrow> bool" where
  "two_q_inv q \<longleftrightarrow> distinct (map fst (frame_table q)) \<and> distinct (fifo_list q) \<and> distinct (lru_list q)
     \<and> (\<forall>f. f \<in> set (fifo_list q) \<longleftrightarrow> heat q f = Some COLD \<or> heat q f = Some COLD_PINNED)
     \<and> (\<forall>f. f \<in> set (lru_list q) \<longleftrightarrow> heat q f = Some HOT \<or> heat q f = Some HOT_PINNED)
     \<and> fifo_size q = length (cold_frames q) \<and> lru_size q = length (hot_frames q)
     \<and> length (frame_table q) \<le> num_pages q"

lemma two_q_invD:
  assumes "two_q_inv q"
  shows "distinct (map fst (frame_table q))" "distinct (fifo_list q)" "distinct (lru_list q)"
    "f \<in> set (fifo_list q) \<longleftrightarrow> heat q f = Some COLD \<or> heat q f = Some COLD_PINNED"
    "f \<in> set (lru_list q) \<longleftrightarrow> heat q f = Some HOT \<or> heat q f = Some HOT_PINNED"
    "fifo_size q = length (cold_frames q)" "lru_size q = length (hot_frames q)"
    "length (frame_table q) \<le> num_pages q"
  using assms by (simp_all add: two_q_inv_def)

lemma inv_disjoint: "two_q_inv q \<Longrightarrow> set (fifo_list q) \<inter> set (lru_list q) = {}"
  using two_q_invD(4,5) by auto

lemma dom_lists: "two_q_inv q \<Longrightarrow> dom (heat q) = set (fifo_list q) \<union> set (lru_list q)"
proof -
  assume a: "two_q_inv q"
  have "f \<in> dom (heat q) \<longleftrightarrow> f \<in> set (fifo_list q) \<union> set (lru_list q)" for f
    unfolding Un_iff two_q_invD(4,5) [OF a] by (cases "heat q f") (auto intro: page_hotness.exhaust)
  then show ?thesis by blast
qed

lemma length_table: "two_q_inv q \<Longrightarrow> length (frame_table q) = card (dom (heat q))"
  using distinct_card [of "map fst (frame_table q)"] two_q_invD(1) [of q]
  by (simp add: heat_def dom_map_of_conv_image_fst)

lemma inv_sizes: "two_q_inv q \<Longrightarrow> sizes_agree q"
  using length_table [of q] dom_lists [of q] inv_disjoint [of q]
  by (simp add: sizes_agree_def two_q_inv_def card_Un_disjoint distinct_card)

section \<open>The operations keep the invariant and follow the policy\<close>

named_theorems table_simps "the hash table as a map, and the lists that are read through it"

lemma heat_update [table_simps]: "heat (q\<lparr>frame_table := AList.update f h t\<rparr>) = (map_of t)(f \<mapsto> h)"
  by (simp add: heat_def update_conv')

lemma heat_delete [table_simps]: "heat (q\<lparr>frame_table := AList.delete f t\<rparr>) = (map_of t)(f := None)"
  by (simp add: heat_def delete_conv')

lemma heat_frame [table_simps]:
  "heat (q\<lparr>fifo_size := n\<rparr>) = heat q" "heat (q\<lparr>lru_size := n\<rparr>) = heat q"
  "heat (q\<lparr>fifo_list := l\<rparr>) = heat q" "heat (q\<lparr>lru_list := l\<rparr>) = heat q"
  by (simp_all add: heat_def)

lemma filter_heat_other:
  "h \<noteq> Some c \<Longrightarrow> filter (\<lambda>g. (m(f := h)) g = Some c) xs = filter (\<lambda>g. g \<noteq> f) (filter (\<lambda>g. m g = Some c) xs)"
  by (induction xs) auto

lemma filter_heat_gone:
  "filter (\<lambda>g. (m(f := None)) g = Some c) (filter (\<lambda>g. g \<noteq> f) xs) = filter (\<lambda>g. g \<noteq> f) (filter (\<lambda>g. m g = Some c) xs)"
  by (induction xs) auto

lemma filter_heat_absent:
  "f \<notin> set xs \<Longrightarrow> filter (\<lambda>g. (m(f := h)) g = Some c) xs = filter (\<lambda>g. m g = Some c) xs"
  by (rule filter_cong) auto

lemma filter_not_in: "f \<notin> set xs \<Longrightarrow> filter (\<lambda>g. g \<noteq> f) xs = xs"
  by (simp add: filter_id_conv) metis

lemma remove1_filter: "distinct xs \<Longrightarrow> remove1 f xs = filter (\<lambda>g. g \<noteq> f) xs"
  by (simp add: distinct_remove1_removeAll removeAll_filter_not_eq) (metis (no_types))

lemma length_filter_one: "distinct xs \<Longrightarrow> f \<in> set xs \<Longrightarrow> length (filter (\<lambda>g. g \<noteq> f) xs) = length xs - 1"
  by (metis remove1_filter length_remove1)

lemma length_update_table:
  "map_of t f \<noteq> None \<Longrightarrow> length (AList.update f h t) = length t"
  "map_of t f = None \<Longrightarrow> length (AList.update f h t) = Suc (length t)"
  by (induction t) auto

lemma length_delete_table:
  "distinct (map fst t) \<Longrightarrow> map_of t f \<noteq> None \<Longrightarrow> Suc (length (AList.delete f t)) = length t"
proof (induction t)
  case (Cons e t)
  show ?case
  proof (cases "fst e = f")
    case True
    then have "map_of t f = None" using Cons.prems(1) by (auto simp: map_of_eq_None_iff)
    then have "AList.delete f t = t" by (simp add: delete_conv' map_of_eq_None_iff delete_idem)
    then show ?thesis using True by simp
  next
    case False
    then show ?thesis using Cons by (cases e) auto
  qed
qed simp

end
