(* ===== verification/Two_Q_Correct.thy ===== *)
theory Two_Q_Correct
  imports Two_Q
begin

text \<open>
  The replacer keeps its invariant and follows its policy; the interface that the buffer pool
  relies on, and what it gives.
\<close>

section \<open>Victim\<close>

lemma find_victim_ok:
  assumes "set xs \<subseteq> dom (map_of t)" "filter (\<lambda>f. map_of t f = Some h) xs = f # fs"
  shows "find_victim h t xs = Some f"
  using assms by (induction xs) (auto split: if_splits)

lemma cold_frames_props:
  "two_q_inv q \<Longrightarrow> distinct (cold_frames q)" "set (cold_frames q) \<subseteq> set (fifo_list q)"
  "two_q_inv q \<Longrightarrow> distinct (hot_frames q)" "set (hot_frames q) \<subseteq> set (lru_list q)"
  by (auto simp: cold_frames_def hot_frames_def two_q_invD)

lemma heat_frames:
  "f \<in> set (cold_frames q) \<longleftrightarrow> f \<in> set (fifo_list q) \<and> heat q f = Some COLD"
  "f \<in> set (hot_frames q) \<longleftrightarrow> f \<in> set (lru_list q) \<and> heat q f = Some HOT"
  by (auto simp: cold_frames_def hot_frames_def)

lemma frames_disjoint: "two_q_inv q \<Longrightarrow> set (cold_frames q) \<inter> set (hot_frames q) = {}"
  by (auto simp: heat_frames)

lemma filter_head: "distinct (f # fs) \<Longrightarrow> filter (\<lambda>g. g \<noteq> f) (f # fs) = fs"
  by (simp add: filter_not_in)

text \<open>The frame of a list leaves the tables.\<close>

lemma drop_cold:
  assumes inv: "two_q_inv q" and f: "cold_frames q = f # fs"
  defines "q' \<equiv> q\<lparr>fifo_size := fifo_size q - 1, fifo_list := remove1 f (fifo_list q), frame_table := AList.delete f (frame_table q)\<rparr>"
  shows "two_q_inv q'" "cold_frames q' = fs" "hot_frames q' = hot_frames q" "dom (heat q') = dom (heat q) - {f}"
    "length (frame_table q') = length (fifo_list q') + length (lru_list q')"
proof -
  note d = two_q_invD(1,2,3) [OF inv]
  have m: "heat q' = (heat q)(f := None)" by (simp add: q'_def heat_def delete_conv')
  have l: "fifo_list q' = filter (\<lambda>g. g \<noteq> f) (fifo_list q)" "lru_list q' = lru_list q" "frame_table q' = AList.delete f (frame_table q)"
    by (simp_all add: q'_def remove1_filter d)
  have ff: "f \<in> set (fifo_list q)" "heat q f = Some COLD" using heat_frames(1) [of f q] f by auto
  then have fl: "f \<notin> set (lru_list q)" using two_q_invD(5) [OF inv] by simp
  show c: "cold_frames q' = fs"
  proof -
    have "cold_frames q' = filter (\<lambda>g. g \<noteq> f) (cold_frames q)"
      by (simp only: cold_frames_def m l filter_heat_gone rev_filter)
    then show ?thesis using f filter_head [of f fs] cold_frames_props(1) [OF inv] by simp
  qed
  show h: "hot_frames q' = hot_frames q"
    using fl unfolding hot_frames_def m l by (simp add: filter_heat_absent del: fun_upd_apply)
  show "dom (heat q') = dom (heat q) - {f}" by (auto simp: m)
  have len: "Suc (length (AList.delete f (frame_table q))) = length (frame_table q)"
    by (rule length_delete_table [OF d(1)]) (use ff(2) in \<open>simp add: heat_def\<close>)
  show inv': "two_q_inv q'"
    unfolding two_q_inv_def c h m l
    using d two_q_invD(4-8) [OF inv] f len ff by (auto simp: distinct_delete q'_def)
  show "length (frame_table q') = length (fifo_list q') + length (lru_list q')"
    using inv_sizes [OF inv'] by (simp add: sizes_agree_def)
qed

lemma drop_hot:
  assumes inv: "two_q_inv q" and f: "hot_frames q = f # fs"
  defines "q' \<equiv> q\<lparr>lru_size := lru_size q - 1, lru_list := remove1 f (lru_list q), frame_table := AList.delete f (frame_table q)\<rparr>"
  shows "two_q_inv q'" "hot_frames q' = fs" "cold_frames q' = cold_frames q" "dom (heat q') = dom (heat q) - {f}"
    "length (frame_table q') = length (fifo_list q') + length (lru_list q')"
proof -
  note d = two_q_invD(1,2,3) [OF inv]
  have m: "heat q' = (heat q)(f := None)" by (simp add: q'_def heat_def delete_conv')
  have l: "lru_list q' = filter (\<lambda>g. g \<noteq> f) (lru_list q)" "fifo_list q' = fifo_list q" "frame_table q' = AList.delete f (frame_table q)"
    by (simp_all add: q'_def remove1_filter d)
  have ff: "f \<in> set (lru_list q)" "heat q f = Some HOT" using heat_frames(2) [of f q] f by auto
  then have fl: "f \<notin> set (fifo_list q)" using two_q_invD(4) [OF inv] by simp
  show h: "hot_frames q' = fs"
  proof -
    have "hot_frames q' = filter (\<lambda>g. g \<noteq> f) (hot_frames q)"
      by (simp only: hot_frames_def m l filter_heat_gone rev_filter)
    then show ?thesis using f filter_head [of f fs] cold_frames_props(3) [OF inv] by simp
  qed
  show c: "cold_frames q' = cold_frames q"
    using fl unfolding cold_frames_def m l by (simp add: filter_heat_absent del: fun_upd_apply)
  show "dom (heat q') = dom (heat q) - {f}" by (auto simp: m)
  have len: "Suc (length (AList.delete f (frame_table q))) = length (frame_table q)"
    by (rule length_delete_table [OF d(1)]) (use ff(2) in \<open>simp add: heat_def\<close>)
  show inv': "two_q_inv q'"
    unfolding two_q_inv_def c h m l
    using d two_q_invD(4-8) [OF inv] f len ff by (auto simp: distinct_delete q'_def)
  show "length (frame_table q') = length (fifo_list q') + length (lru_list q')"
    using inv_sizes [OF inv'] by (simp add: sizes_agree_def)
qed

lemma find_cold: "two_q_inv q \<Longrightarrow> cold_frames q = f # fs \<Longrightarrow> find_victim COLD (frame_table q) (rev (fifo_list q)) = Some f"
  using dom_lists [of q] by (intro find_victim_ok) (auto simp: heat_def cold_frames_def rev_filter)

lemma find_hot: "two_q_inv q \<Longrightarrow> hot_frames q = f # fs \<Longrightarrow> find_victim HOT (frame_table q) (rev (lru_list q)) = Some f"
  using dom_lists [of q] by (intro find_victim_ok) (auto simp: heat_def hot_frames_def rev_filter)

lemma Victim_ok:
  assumes inv: "two_q_inv q" and some: "dom (heat q) \<noteq> {}"
  shows "\<exists>r q'. Victim q = Some (r, q') \<and> two_q_inv q' \<and> num_pages q' = num_pages q \<and> policy_victim (policy_of q) = (r, policy_of q')"
proof -
  have t: "length (frame_table q) > 0" using some by (auto simp: heat_def)
  note s = two_q_invD(6,7) [OF inv] inv_sizes [OF inv]
  show ?thesis
  proof (cases "cold_frames q")
    case (Cons f fs)
    note dc = drop_cold [OF inv Cons]
    show ?thesis using s t Cons find_cold [OF inv Cons] dc
      by (simp add: Victim_def Let_def policy_of_def)
  next
    case c: Nil
    show ?thesis
    proof (cases "hot_frames q")
      case Nil
      then show ?thesis using s t c inv by (simp add: Victim_def policy_of_def)
    next
      case (Cons f fs)
      note dc = drop_hot [OF inv Cons]
      show ?thesis using s t c Cons find_hot [OF inv Cons] dc
        by (simp add: Victim_def Let_def policy_of_def)
    qed
  qed
qed

section \<open>Pin and Unpin\<close>

lemma Pin_ok:
  assumes inv: "two_q_inv q" and f: "0 \<le> f" "f \<le> int (num_pages q)"
  shows "\<exists>q'. Pin f q = Some q' \<and> two_q_inv q' \<and> num_pages q' = num_pages q \<and> policy_of q' = policy_pin f (policy_of q)"
proof -
  note d = two_q_invD(1,2,3) [OF inv]
  have s: "sizes_agree q" by (rule inv_sizes [OF inv])
  have same: ?thesis if h: "heat q f \<noteq> Some COLD" "heat q f \<noteq> Some HOT"
  proof -
    have "Pin f q = Some q"
      using s f h by (cases "map_of (frame_table q) f") (auto simp: Pin_def sizes_agree_def heat_def Let_def split: page_hotness.splits)
    moreover have "f \<notin> set (cold_frames q)" "f \<notin> set (hot_frames q)" using h by (simp_all add: heat_frames)
    ultimately show ?thesis using inv by (simp add: policy_pin_def policy_of_def filter_not_in)
  qed
  consider "heat q f = Some COLD" | "heat q f = Some HOT" | "heat q f \<noteq> Some COLD" "heat q f \<noteq> Some HOT" by blast
  then show ?thesis
  proof cases
    case 1
    define q' where "q' = q\<lparr>frame_table := AList.update f COLD_PINNED (frame_table q), fifo_size := fifo_size q - 1\<rparr>"
    have m: "heat q' = (heat q)(f := Some COLD_PINNED)" by (simp add: q'_def heat_def update_conv')
    have l: "fifo_list q' = fifo_list q" "lru_list q' = lru_list q" by (simp_all add: q'_def)
    have c: "cold_frames q' = filter (\<lambda>g. g \<noteq> f) (cold_frames q)" "hot_frames q' = filter (\<lambda>g. g \<noteq> f) (hot_frames q)"
      by (simp_all add: cold_frames_def hot_frames_def m l filter_heat_other rev_filter del: fun_upd_apply)
    have fc: "f \<in> set (cold_frames q)" "f \<notin> set (hot_frames q)" using 1 two_q_invD(4) [OF inv] by (simp_all add: heat_frames)
    have "length (AList.update f COLD_PINNED (frame_table q)) = length (frame_table q)"
      by (rule length_update_table) (use 1 in \<open>simp add: heat_def\<close>)
    then have inv': "two_q_inv q'"
      unfolding two_q_inv_def c m l
      using d two_q_invD(4-8) [OF inv] 1 fc length_filter_one [OF cold_frames_props(1) [OF inv] fc(1)] filter_not_in [OF fc(2)]
      by (auto simp: distinct_update q'_def)
    have "Pin f q = Some q'"
      using s f 1 inv_sizes [OF inv'] by (simp add: Pin_def heat_def Let_def q'_def sizes_agree_def)
    moreover have "dom (heat q') = dom (heat q)" using 1 by (auto simp: m)
    ultimately show ?thesis using inv' c by (simp add: policy_of_def policy_pin_def) (simp add: q'_def)
  next
    case 2
    define q' where "q' = q\<lparr>frame_table := AList.update f HOT_PINNED (frame_table q), lru_size := lru_size q - 1\<rparr>"
    have m: "heat q' = (heat q)(f := Some HOT_PINNED)" by (simp add: q'_def heat_def update_conv')
    have l: "fifo_list q' = fifo_list q" "lru_list q' = lru_list q" by (simp_all add: q'_def)
    have c: "cold_frames q' = filter (\<lambda>g. g \<noteq> f) (cold_frames q)" "hot_frames q' = filter (\<lambda>g. g \<noteq> f) (hot_frames q)"
      by (simp_all add: cold_frames_def hot_frames_def m l filter_heat_other rev_filter del: fun_upd_apply)
    have fc: "f \<in> set (hot_frames q)" "f \<notin> set (cold_frames q)" using 2 two_q_invD(5) [OF inv] by (simp_all add: heat_frames)
    have "length (AList.update f HOT_PINNED (frame_table q)) = length (frame_table q)"
      by (rule length_update_table) (use 2 in \<open>simp add: heat_def\<close>)
    then have inv': "two_q_inv q'"
      unfolding two_q_inv_def c m l
      using d two_q_invD(4-8) [OF inv] 2 fc length_filter_one [OF cold_frames_props(3) [OF inv] fc(1)] filter_not_in [OF fc(2)]
      by (auto simp: distinct_update q'_def)
    have "Pin f q = Some q'"
      using s f 2 inv_sizes [OF inv'] by (simp add: Pin_def heat_def Let_def q'_def sizes_agree_def)
    moreover have "dom (heat q') = dom (heat q)" using 2 by (auto simp: m)
    ultimately show ?thesis using inv' c by (simp add: policy_of_def policy_pin_def) (simp add: q'_def)
  qed (rule same)
qed

text \<open>The frame moves to the front of the hot list, from whichever list it was in.\<close>

lemma become_hot:
  assumes inv: "two_q_inv q" and f: "heat q f \<noteq> None"
    and m: "heat q' = (heat q)(f := Some HOT)" and k: "distinct (map fst (frame_table q'))"
    and l: "fifo_list q' = filter (\<lambda>g. g \<noteq> f) (fifo_list q)" "lru_list q' = f # filter (\<lambda>g. g \<noteq> f) (lru_list q)"
    and n: "fifo_size q' = length (filter (\<lambda>g. g \<noteq> f) (cold_frames q))" "lru_size q' = Suc (length (filter (\<lambda>g. g \<noteq> f) (hot_frames q)))"
    and t: "length (frame_table q') = length (frame_table q)" "num_pages q' = num_pages q"
  shows "two_q_inv q'" "policy_of q' = policy_unpin f (policy_of q)"
proof -
  have cf: "filter (\<lambda>g. ((heat q)(f := Some HOT)) g = Some COLD) (filter (\<lambda>g. g \<noteq> f) xs)
      = filter (\<lambda>g. g \<noteq> f) (filter (\<lambda>g. heat q g = Some COLD) xs)" for xs
    by (induction xs) auto
  have hf: "filter (\<lambda>g. ((heat q)(f := Some HOT)) g = Some HOT) (f # filter (\<lambda>g. g \<noteq> f) xs)
      = f # filter (\<lambda>g. g \<noteq> f) (filter (\<lambda>g. heat q g = Some HOT) xs)" for xs
    by (induction xs) auto
  have c: "cold_frames q' = filter (\<lambda>g. g \<noteq> f) (cold_frames q)"
    by (simp only: cold_frames_def m l cf rev_filter)
  have h: "hot_frames q' = filter (\<lambda>g. g \<noteq> f) (hot_frames q) @ [f]"
    by (simp only: hot_frames_def m l hf rev_filter rev.simps)
  show "two_q_inv q'"
    unfolding two_q_inv_def c h m l
    using k n t f two_q_invD [OF inv] by auto
  have "dom (heat q') = dom (heat q)" using f by (auto simp: m)
  then show "policy_of q' = policy_unpin f (policy_of q)" using f c h by (auto simp: policy_of_def policy_unpin_def)
qed

lemma Unpin_new:
  assumes inv: "two_q_inv q" and f: "0 \<le> f" "f \<le> int (num_pages q)" and new: "heat q f = None"
    and room: "card (dom (heat q)) < num_pages q"
  shows "\<exists>q'. Unpin f q = Some q' \<and> two_q_inv q' \<and> num_pages q' = num_pages q \<and> policy_of q' = policy_unpin f (policy_of q)"
proof -
  define q' where "q' = q\<lparr>fifo_list := f # fifo_list q, frame_table := AList.update f COLD (frame_table q), fifo_size := fifo_size q + 1\<rparr>"
  have m: "heat q' = (heat q)(f := Some COLD)" by (simp add: q'_def heat_def update_conv')
  have l: "fifo_list q' = f # fifo_list q" "lru_list q' = lru_list q" "num_pages q' = num_pages q" by (simp_all add: q'_def)
  have fl: "f \<notin> set (fifo_list q)" "f \<notin> set (lru_list q)" using new two_q_invD(4,5) [OF inv] by simp_all
  have c: "cold_frames q' = cold_frames q @ [f]" "hot_frames q' = hot_frames q"
    using fl by (simp_all add: cold_frames_def hot_frames_def m l filter_heat_absent del: fun_upd_apply) simp
  have len: "length (frame_table q') = Suc (length (frame_table q))"
    using new length_update_table(2) [of "frame_table q" f COLD] by (simp add: q'_def heat_def)
  have room': "length (frame_table q) < num_pages q" using room length_table [OF inv] by simp
  have inv': "two_q_inv q'"
    unfolding two_q_inv_def c m l
    using two_q_invD [OF inv] fl new len room' by (auto simp: q'_def distinct_update)
  have "Unpin f q = Some q'"
    using inv_sizes [OF inv] inv_sizes [OF inv'] f new room' by (simp add: Unpin_def heat_def Let_def q'_def sizes_agree_def)
  moreover have "dom (heat q') = insert f (dom (heat q))" by (auto simp: m)
  ultimately show ?thesis using inv' c new l by (auto simp: policy_of_def policy_unpin_def)
qed

lemma Unpin_known:
  assumes inv: "two_q_inv q" and f: "0 \<le> f" "f \<le> int (num_pages q)" and h: "heat q f = Some h"
  shows "\<exists>q'. Unpin f q = Some q' \<and> two_q_inv q' \<and> num_pages q' = num_pages q \<and> policy_of q' = policy_unpin f (policy_of q)"
proof -
  note d = two_q_invD(1,2,3) [OF inv] and z = two_q_invD(6,7) [OF inv]
  define t where "t = (if h = HOT then frame_table q else AList.update f HOT (frame_table q))"
  define q' where "q' = q\<lparr>lru_list := f # filter (\<lambda>g. g \<noteq> f) (lru_list q), fifo_list := filter (\<lambda>g. g \<noteq> f) (fifo_list q),
      frame_table := t, fifo_size := (if h = COLD then fifo_size q - 1 else fifo_size q),
      lru_size := (if h = HOT then lru_size q else lru_size q + 1)\<rparr>"
  have hm: "map_of (frame_table q) f = Some h" using h by (simp add: heat_def)
  have fl: "f \<in> set (fifo_list q) \<longleftrightarrow> h = COLD \<or> h = COLD_PINNED" "f \<in> set (lru_list q) \<longleftrightarrow> h = HOT \<or> h = HOT_PINNED"
    using two_q_invD(4,5) [OF inv] h by simp_all
  have fc: "f \<in> set (cold_frames q) \<longleftrightarrow> h = COLD" "f \<in> set (hot_frames q) \<longleftrightarrow> h = HOT"
    using fl h by (auto simp: heat_frames)
  have m: "heat q' = (heat q)(f := Some HOT)"
    using h by (auto simp: q'_def t_def heat_def update_conv' fun_eq_iff)
  have k: "distinct (map fst t)" "length t = length (frame_table q)"
    using d hm by (simp_all add: t_def distinct_update length_update_table)
  have n: "fifo_size q' = length (filter (\<lambda>g. g \<noteq> f) (cold_frames q))"
    "lru_size q' = Suc (length (filter (\<lambda>g. g \<noteq> f) (hot_frames q)))"
  proof -
    show "fifo_size q' = length (filter (\<lambda>g. g \<noteq> f) (cold_frames q))"
      using fc z length_filter_one [OF cold_frames_props(1) [OF inv], of f] filter_not_in [of f "cold_frames q"] by (simp add: q'_def)
    show "lru_size q' = Suc (length (filter (\<lambda>g. g \<noteq> f) (hot_frames q)))"
    proof (cases "h = HOT")
      case True
      then have "f \<in> set (hot_frames q)" using fc by simp
      then have "hot_frames q \<noteq> []" "length (filter (\<lambda>g. g \<noteq> f) (hot_frames q)) = length (hot_frames q) - 1"
        using length_filter_one [OF cold_frames_props(3) [OF inv], of f] by auto
      then show ?thesis using True z by (cases "hot_frames q") (simp_all add: q'_def)
    next
      case False
      then show ?thesis using fc z filter_not_in [of f "hot_frames q"] by (simp add: q'_def)
    qed
  qed
  have bh: "two_q_inv q'" "policy_of q' = policy_unpin f (policy_of q)"
    using become_hot [OF inv _ m _ _ _ n] h k by (simp_all add: q'_def)
  have r: "f \<notin> set (lru_list q) \<Longrightarrow> filter (\<lambda>g. g \<noteq> f) (lru_list q) = lru_list q"
    "f \<notin> set (fifo_list q) \<Longrightarrow> filter (\<lambda>g. g \<noteq> f) (fifo_list q) = fifo_list q"
    by (rule filter_not_in, assumption)+
  have "Unpin f q = Some q'"
    using inv_sizes [OF inv] inv_sizes [OF bh(1)] f hm fl r d
    by (cases h) (simp_all add: Unpin_def Let_def q'_def t_def sizes_agree_def remove1_filter)
  then show ?thesis using bh by (auto simp: q'_def)
qed

end
