(* ===== verification/Replacer.thy ===== *)
theory Replacer
  imports Two_Q_Correct
begin

text \<open>
  The interface \<open>Replacer\<close> (\<^verbatim>\<open>src/task-slotted-pages/include/buffer/replacer.h\<close>) as its clients
  use it, and the two-queue replacer as its provider.
\<close>

section \<open>The interface\<close>

text \<open>Evicting frames until the given number of them is free.\<close>

primrec drain :: "('q \<Rightarrow> ('f option \<times> 'q) option) \<Rightarrow> nat \<Rightarrow> 'q \<Rightarrow> ('f list \<times> 'q) option" where
  "drain victim 0 q = Some ([], q)"
| "drain victim (Suc n) q = do {
     (f, q) \<leftarrow> victim q;
     f \<leftarrow> f;
     (fs, q) \<leftarrow> drain victim n q;
     Some (f # fs, q) }"

locale replacer =
  fixes inv :: "'q \<Rightarrow> bool"
    and order :: "'q \<Rightarrow> 'f list"
    and victim :: "'q \<Rightarrow> ('f option \<times> 'q) option"
    and pin :: "'f \<Rightarrow> 'q \<Rightarrow> 'q option"
    and size_of :: "'q \<Rightarrow> nat option"
  assumes distinct_order: "inv q \<Longrightarrow> distinct (order q)"
    and victim_first: "inv q \<Longrightarrow> order q = f # fs \<Longrightarrow> \<exists>q'. victim q = Some (Some f, q') \<and> inv q' \<and> order q' = fs"
    and pin_removes: "inv q \<Longrightarrow> pin f q = Some q' \<Longrightarrow> inv q' \<and> order q' = filter (\<lambda>g. g \<noteq> f) (order q)"
    and size_order: "inv q \<Longrightarrow> size_of q = Some (length (order q))"
begin

lemma drain_prefix:
  assumes "inv q" "n \<le> length (order q)"
  shows "\<exists>q'. drain victim n q = Some (take n (order q), q') \<and> inv q' \<and> order q' = drop n (order q)"
  using assms
proof (induction n arbitrary: q)
  case (Suc n)
  then obtain f fs where o: "order q = f # fs" by (cases "order q") auto
  from victim_first [OF Suc.prems(1) o] obtain q1 where q1: "victim q = Some (Some f, q1)" "inv q1" "order q1 = fs"
    by blast
  have "n \<le> length (order q1)" using Suc.prems(2) o q1(3) by simp
  from Suc.IH [OF q1(2) this] show ?case using q1 o by auto
qed simp

lemma drain_all:
  assumes "inv q" "size_of q = Some n"
  shows "\<exists>q'. drain victim n q = Some (order q, q') \<and> size_of q' = Some 0"
proof -
  have n: "n = length (order q)" using assms size_order [OF assms(1)] by simp
  obtain q' where q': "drain victim n q = Some (take n (order q), q')" "inv q'" "order q' = drop n (order q)"
    using drain_prefix [OF assms(1), of n] n by auto
  have "size_of q' = Some 0" using size_order [OF q'(2)] q'(3) n by simp
  then show ?thesis using q'(1) n by simp
qed

lemma pinned_not_drained:
  assumes "inv q" "pin f q = Some q1" "size_of q1 = Some n"
  shows "\<exists>fs q'. drain victim n q1 = Some (fs, q') \<and> f \<notin> set fs \<and> distinct fs"
proof -
  have i: "inv q1" "order q1 = filter (\<lambda>g. g \<noteq> f) (order q)" using pin_removes [OF assms(1,2)] by auto
  from drain_all [OF i(1) assms(3)] show ?thesis using i distinct_order [OF i(1)] by auto
qed

end

section \<open>The two-queue replacer provides it\<close>

definition evict_order :: "two_q \<Rightarrow> frame_id list" where
  "evict_order q = cold_frames q @ hot_frames q"

lemma evict_order_policy: "evict_order q = cold (policy_of q) @ hot (policy_of q)"
  by (simp add: evict_order_def policy_of_def)

lemma Victim_first:
  assumes inv: "two_q_inv q" and o: "evict_order q = f # fs"
  shows "\<exists>q'. Victim q = Some (Some f, q') \<and> two_q_inv q' \<and> evict_order q' = fs"
proof -
  have "f \<in> set (cold_frames q) \<union> set (hot_frames q)" using o unfolding evict_order_def by (metis list.set_intros(1) set_append)
  then have "dom (heat q) \<noteq> {}" by (auto simp: heat_frames)
  from Victim_ok [OF inv this] obtain r q' where
    v: "Victim q = Some (r, q')" "two_q_inv q'" "policy_victim (policy_of q) = (r, policy_of q')" by blast
  show ?thesis
  proof (cases "cold (policy_of q)")
    case Nil
    then have h: "hot (policy_of q) = f # fs" using o by (simp add: evict_order_policy)
    then have "policy_of q' = policy_of q\<lparr>tracked := tracked (policy_of q) - {f}, hot := fs\<rparr>" "r = Some f"
      using v(3) Nil by auto
    then show ?thesis using v(1,2) Nil by (simp add: evict_order_policy)
  next
    case (Cons g gs)
    then have "cold (policy_of q') = gs" "hot (policy_of q') = hot (policy_of q)" "r = Some g"
      using v(3) by (auto simp: policy_of_def)
    then show ?thesis using v(1,2) o Cons unfolding evict_order_policy by simp
  qed
qed

lemma Pin_removes:
  assumes inv: "two_q_inv q" and p: "Pin f q = Some q'"
  shows "two_q_inv q' \<and> evict_order q' = filter (\<lambda>g. g \<noteq> f) (evict_order q)"
proof -
  have "0 \<le> f" "f \<le> int (num_pages q)" using p by (auto simp: Pin_def)
  from Pin_ok [OF inv this] show ?thesis using p by (auto simp: evict_order_policy policy_pin_def)
qed

interpretation two_q: replacer two_q_inv evict_order Victim Pin replacer_size
proof unfold_locales
  fix q f fs q'
  assume inv: "two_q_inv q"
  show "distinct (evict_order q)"
    using cold_frames_props(1,3) [OF inv] frames_disjoint [OF inv] by (simp add: evict_order_def)
  show "replacer_size q = Some (length (evict_order q))"
    using inv_sizes [OF inv] two_q_invD(6,7) [OF inv] by (simp add: replacer_size_def evict_order_def)
  show "\<exists>q'. Victim q = Some (Some f, q') \<and> two_q_inv q' \<and> evict_order q' = fs" if "evict_order q = f # fs"
    by (rule Victim_first [OF inv that])
  show "two_q_inv q' \<and> evict_order q' = filter (\<lambda>g. g \<noteq> f) (evict_order q)" if "Pin f q = Some q'"
    by (rule Pin_removes [OF inv that])
qed

section \<open>Runs of requests\<close>

datatype request = PIN frame_id | UNPIN frame_id | VICTIM

fun two_q_step :: "request \<Rightarrow> two_q \<Rightarrow> (frame_id option \<times> two_q) option" where
  "two_q_step (PIN f) q = map_option (Pair None) (Pin f q)"
| "two_q_step (UNPIN f) q = map_option (Pair None) (Unpin f q)"
| "two_q_step VICTIM q = Victim q"

fun policy_step :: "nat \<Rightarrow> request \<Rightarrow> policy \<Rightarrow> (frame_id option \<times> policy) option" where
  "policy_step n (PIN f) p = (if 0 \<le> f \<and> f \<le> int n then Some (None, policy_pin f p) else None)"
| "policy_step n (UNPIN f) p =
     (if 0 \<le> f \<and> f \<le> int n \<and> (f \<notin> tracked p \<longrightarrow> card (tracked p) < n) then Some (None, policy_unpin f p) else None)"
| "policy_step n VICTIM p = (if tracked p = {} then None else Some (policy_victim p))"

primrec run_requests :: "(request \<Rightarrow> 'q \<Rightarrow> ('r \<times> 'q) option) \<Rightarrow> request list \<Rightarrow> 'q \<Rightarrow> ('r list \<times> 'q) option" where
  "run_requests step [] q = Some ([], q)"
| "run_requests step (r # rs) q = do {
     (x, q) \<leftarrow> step r q;
     (xs, q) \<leftarrow> run_requests step rs q;
     Some (x # xs, q) }"

lemma step_refines:
  assumes inv: "two_q_inv q"
  shows "map_option (\<lambda>(r, q'). (r, policy_of q')) (two_q_step rq q) = policy_step (num_pages q) rq (policy_of q)
    \<and> (\<forall>r q'. two_q_step rq q = Some (r, q') \<longrightarrow> two_q_inv q' \<and> num_pages q' = num_pages q)"
proof (cases rq)
  case (PIN f)
  show ?thesis
  proof (cases "0 \<le> f \<and> f \<le> int (num_pages q)")
    case True
    then show ?thesis using Pin_ok [OF inv, of f] PIN by auto
  qed (use PIN in \<open>auto simp: Pin_def require_bind_if\<close>)
next
  case (UNPIN f)
  have t: "tracked (policy_of q) = dom (heat q)" by (simp add: policy_of_def)
  show ?thesis
  proof (cases "0 \<le> f \<and> f \<le> int (num_pages q)")
    case ok: True
    show ?thesis
    proof (cases "heat q f")
      case None
      then have d: "f \<notin> dom (heat q)" "map_of (frame_table q) f = None" by (auto simp: heat_def)
      show ?thesis
      proof (cases "card (dom (heat q)) < num_pages q")
        case True
        then show ?thesis using Unpin_new [OF inv _ _ None] ok d UNPIN t by auto
      next
        case False
        then have "Unpin f q = None" using d length_table [OF inv] by (simp add: Unpin_def require_bind_if)
        then show ?thesis using False d UNPIN t by simp
      qed
    next
      case (Some h)
      then have "f \<in> dom (heat q)" by auto
      then show ?thesis using Unpin_known [OF inv _ _ Some] ok UNPIN t by auto
    qed
  qed (use UNPIN in \<open>auto simp: Unpin_def require_bind_if\<close>)
next
  case VICTIM
  have t: "tracked (policy_of q) = dom (heat q)" by (simp add: policy_of_def)
  show ?thesis
  proof (cases "dom (heat q) = {}")
    case True
    then have "Victim q = None" using length_table [OF inv] by (simp add: Victim_def require_bind_if)
    then show ?thesis using True VICTIM t by simp
  next
    case False
    then show ?thesis using Victim_ok [OF inv False] VICTIM t by auto
  qed
qed

lemma run_refines:
  "two_q_inv q \<Longrightarrow> map_option (\<lambda>(rs, q'). (rs, policy_of q')) (run_requests two_q_step rqs q)
     = run_requests (policy_step (num_pages q)) rqs (policy_of q)"
proof (induction rqs arbitrary: q)
  case (Cons rq rqs)
  note s = step_refines [OF Cons.prems, of rq]
  show ?case
  proof (cases "two_q_step rq q")
    case None
    then show ?thesis using s by simp
  next
    case (Some x)
    then obtain r q' where x: "two_q_step rq q = Some (r, q')" by (cases x) auto
    then have q': "two_q_inv q'" "num_pages q' = num_pages q" "policy_step (num_pages q) rq (policy_of q) = Some (r, policy_of q')"
      using s by auto
    have ih: "run_requests (policy_step (num_pages q)) rqs (policy_of q')
        = map_option (\<lambda>(rs, q'). (rs, policy_of q')) (run_requests two_q_step rqs q')"
      using Cons.IH [OF q'(1)] q'(2) by simp
    show ?thesis using x q'(3) ih by (cases "run_requests two_q_step rqs q'") auto
  qed
qed simp

lemma two_q_init_inv: "two_q_inv (two_q_init n)"
  by (simp add: two_q_init_def two_q_inv_def cold_frames_def hot_frames_def heat_def)

text \<open>C9: Every run of requests on a new replacer has the answers of the two-queue policy, and fails
  exactly where the policy does: on a frame number out of range, on more frames than pages, and
  on asking an empty replacer for a victim.\<close>

theorem two_q_refines_policy:
  "map_option (\<lambda>(rs, q). (rs, policy_of q)) (run_requests two_q_step rqs (two_q_init n))
     = run_requests (policy_step n) rqs \<lparr>tracked = {}, cold = [], hot = []\<rparr>"
  using run_refines [OF two_q_init_inv, of rqs n]
  by (simp add: two_q_init_def policy_of_def cold_frames_def hot_frames_def heat_def)

text \<open>After a frame has been pinned, as many evictions as the replacer counts give distinct frames
  without the pinned one, and then the replacer counts none.\<close>

theorem two_q_drains:
  assumes "two_q_inv q" "Pin f q = Some q1" "replacer_size q1 = Some n"
  shows "\<exists>fs q'. drain Victim n q1 = Some (fs, q') \<and> distinct fs \<and> f \<notin> set fs \<and> length fs = n \<and> replacer_size q' = Some 0"
proof -
  have i: "two_q_inv q1" using Pin_removes [OF assms(1,2)] by simp
  from two_q.drain_all [OF i assms(3)] two_q.pinned_not_drained [OF assms] two_q.size_order [OF i] assms(3)
  show ?thesis by auto
qed

theorem two_q_drains_witness:
  "\<exists>q q1 fs q'. run_requests two_q_step [UNPIN 1, UNPIN 2, UNPIN 3, UNPIN 1] (two_q_init 5) = Some ([None, None, None, None], q)
     \<and> Pin 2 q = Some q1 \<and> drain Victim 2 q1 = Some (fs, q') \<and> distinct fs \<and> 2 \<notin> set fs"
proof -
  let ?q = "\<lparr>num_pages = 5, fifo_size = 2, lru_size = 1, fifo_list = [3, 2], lru_list = [1],
    frame_table = [(1, HOT), (2, COLD), (3, COLD)]\<rparr>"
  let ?q1 = "\<lparr>num_pages = 5, fifo_size = 1, lru_size = 1, fifo_list = [3, 2], lru_list = [1],
    frame_table = [(1, HOT), (2, COLD_PINNED), (3, COLD)]\<rparr>"
  have r: "run_requests two_q_step [UNPIN 1, UNPIN 2, UNPIN 3, UNPIN 1] (two_q_init 5) = Some ([None, None, None, None], ?q)"
    by (simp add: two_q_init_def Unpin_def sizes_agree_def Let_def)
  have p: "Pin 2 ?q = Some ?q1" "replacer_size ?q1 = Some 2"
    by (simp_all add: Pin_def replacer_size_def sizes_agree_def Let_def)
  have inv: "two_q_inv ?q"
    by (auto simp: two_q_inv_def heat_def cold_frames_def hot_frames_def split: if_splits)
  from two_q_drains [OF inv p] r p(1) show ?thesis by blast
qed

end
