(* ===== verification/External_Sort.thy ===== *)
theory External_Sort
  imports Prelude_DB "HOL-Library.Word" "HOL-Library.Product_Lexorder"
begin

text \<open>
  The external merge sort (\<^verbatim>\<open>src/task-external-sort/src/external_sort.cc\<close>) over the files of
  \<^verbatim>\<open>src/file/posix_file.cc\<close>. A file is the list of its 64-bit values. Offsets and sizes are in
  bytes, as in the code, and every one that the code uses is a multiple of eight. Sizes are
  naturals; a subtraction below zero, an assertion that fails and an access outside a buffer
  have no result. The counters of reads and writes, which are only printed, are left out.
\<close>

section \<open>Files\<close>

datatype file_mode = READ | WRITE

record db_file =
  get_mode :: file_mode
  content :: "64 word list"

definition file_size :: "64 word list \<Rightarrow> nat" where
  "file_size f = 8 * length f"

definition file_resize :: "nat \<Rightarrow> 64 word list \<Rightarrow> 64 word list" where
  "file_resize n f = take (n div 8) f @ replicate (n div 8 - length f) 0"

text \<open>A read that runs over the end of the file leaves the rest of the block as it was.\<close>

definition read_block :: "64 word list \<Rightarrow> nat \<Rightarrow> nat \<Rightarrow> 64 word list \<Rightarrow> 64 word list option" where
  "read_block f offset n block = do {
     require (n div 8 \<le> length block);
     let got = take (n div 8) (drop (offset div 8) f);
     Some (got @ drop (length got) block) }"

definition new_block :: "64 word list \<Rightarrow> nat \<Rightarrow> nat \<Rightarrow> 64 word list option" where
  "new_block f offset n = read_block f offset n (replicate (n div 8) 0)"

definition write_block :: "64 word list \<Rightarrow> nat \<Rightarrow> nat \<Rightarrow> 64 word list \<Rightarrow> 64 word list option" where
  "write_block block offset n f = memcpy f (offset div 8) block 0 (n div 8)"

section \<open>The sorting phase\<close>

definition num_runs_of :: "nat \<Rightarrow> nat \<Rightarrow> nat" where
  "num_runs_of input_sort_size run_size = (input_sort_size - 1) div run_size + 1"

definition last_run_of :: "nat \<Rightarrow> nat \<Rightarrow> nat" where
  "last_run_of input_sort_size run_size =
     (let num_runs = num_runs_of input_sort_size run_size
      in if input_sort_size = num_runs * run_size then run_size else input_sort_size - (num_runs - 1) * run_size)"

definition sort_phase_done :: "64 word list \<Rightarrow> nat \<Rightarrow> nat \<Rightarrow> bool option" where
  "sort_phase_done tmp num_values run_size = do {
     let input_sort_size = num_values * 8;
     require (file_size tmp = input_sort_size);
     let num_runs = num_runs_of input_sort_size run_size;
     let num_values_run = run_size div 8;
     let last_run_size = last_run_of input_sort_size run_size;
     require (last_run_size \<le> run_size);
     require (last_run_size mod 8 = 0);
     d \<leftarrow> new_block tmp 0 input_sort_size;
     require (list_all (\<lambda>i. sorted (take num_values_run (drop (i * num_values_run) d))) [0..<num_runs - 1]);
     require (sorted (take (last_run_size div 8) (drop ((num_runs - 1) * num_values_run) d)));
     Some True }"

fun sort_runs :: "nat \<Rightarrow> 64 word list \<Rightarrow> nat \<Rightarrow> nat \<Rightarrow> 64 word list \<Rightarrow> (nat \<times> 64 word list) option" where
  "sort_runs run_size inp 0 offset tmp = Some (offset, tmp)"
| "sort_runs run_size inp (Suc n) offset tmp = do {
     block \<leftarrow> new_block inp offset run_size;
     tmp \<leftarrow> write_block (sort block) offset run_size tmp;
     sort_runs run_size inp n (offset + run_size) tmp }"

definition inmemory_sort :: "64 word list \<Rightarrow> nat \<Rightarrow> 64 word list \<Rightarrow> 64 word list option" where
  "inmemory_sort inp num_values out = do {
     block \<leftarrow> new_block inp 0 (num_values * 8);
     write_block (sort block) 0 (num_values * 8) out }"

section \<open>Buffers\<close>

text \<open>The state of a merge: per run the offset of the next read, the index of the next value in
  the run's input buffer and the number of values to output; the output buffer with the values
  in it and the number of full buffers written.\<close>

record merge =
  next_read_offset_run :: "nat list"
  next_push_index_input_buffer :: "nat list"
  remaining_num_values_run :: "nat list"
  input_buffers :: "64 word list list"
  output_buffer :: "64 word list"
  output_count :: nat
  num_full_writes :: nat
  out_file :: "64 word list"

definition output_value :: "64 word \<Rightarrow> nat \<Rightarrow> merge \<Rightarrow> merge option" where
  "output_value v out_buffer_size st = do {
     buf \<leftarrow> arr_set (output_buffer st) (output_count st) v;
     let n = output_count st + 1;
     if n = out_buffer_size div 8
     then do {
       require (sorted (take n buf));
       f \<leftarrow> write_block buf (num_full_writes st * out_buffer_size) out_buffer_size (out_file st);
       Some (st\<lparr>output_buffer := buf, output_count := 0, num_full_writes := num_full_writes st + 1, out_file := f\<rparr>) }
     else Some (st\<lparr>output_buffer := buf, output_count := n\<rparr>) }"

definition consume_value :: "nat \<Rightarrow> merge \<Rightarrow> (nat \<times> merge) option" where
  "consume_value ib st = do {
     r \<leftarrow> arr_get (remaining_num_values_run st) ib;
     require (r > 0);
     Some (r - 1, st\<lparr>remaining_num_values_run := (remaining_num_values_run st)[ib := r - 1]\<rparr>) }"

text \<open>The next value of a run of \<open>run_len\<close> bytes at offset \<open>base\<close>: its index in the input buffer,
  which is loaded again when it has been used up.\<close>

definition load_next :: "64 word list \<Rightarrow> nat \<Rightarrow> nat \<Rightarrow> nat \<Rightarrow> nat \<Rightarrow> merge \<Rightarrow> merge option" where
  "load_next tmp input_buffer_size run_len base ib st = do {
     at \<leftarrow> arr_get (next_read_offset_run st) ib;
     buf \<leftarrow> arr_get (input_buffers st) ib;
     n \<leftarrow> (if at + input_buffer_size \<ge> run_len
           then do {
             require (at \<le> run_len);
             require ((run_len - at) mod 8 = 0);
             Some (run_len - at) }
           else Some input_buffer_size);
     buf \<leftarrow> read_block tmp (at + base) n buf;
     require (sorted (take (n div 8) buf));
     Some (st\<lparr>next_read_offset_run := (next_read_offset_run st)[ib := at + n],
              next_push_index_input_buffer := (next_push_index_input_buffer st)[ib := 0],
              input_buffers := (input_buffers st)[ib := buf]\<rparr>) }"

definition next_index :: "64 word list \<Rightarrow> nat \<Rightarrow> nat \<Rightarrow> nat \<Rightarrow> nat \<Rightarrow> merge \<Rightarrow> (nat \<times> merge) option" where
  "next_index tmp input_buffer_size run_len base ib st = do {
     push \<leftarrow> arr_get (next_push_index_input_buffer st) ib;
     st \<leftarrow> (if push = input_buffer_size div 8 then load_next tmp input_buffer_size run_len base ib st else Some st);
     push \<leftarrow> arr_get (next_push_index_input_buffer st) ib;
     Some (push, st\<lparr>next_push_index_input_buffer := (next_push_index_input_buffer st)[ib := push + 1]\<rparr>) }"

definition buffer_value :: "nat \<Rightarrow> nat \<Rightarrow> merge \<Rightarrow> 64 word option" where
  "buffer_value ib i st = do { buf \<leftarrow> arr_get (input_buffers st) ib; arr_get buf i }"

text \<open>The first load of every input buffer. The last run may be shorter than its buffer.\<close>

fun load_buffers :: "64 word list \<Rightarrow> nat \<Rightarrow> nat \<Rightarrow> nat \<Rightarrow> nat \<Rightarrow> 64 word list list option" where
  "load_buffers tmp input_buffer_size run_size offset 0 = Some []"
| "load_buffers tmp input_buffer_size run_size offset (Suc n) = do {
     buf \<leftarrow> new_block tmp offset input_buffer_size;
     bufs \<leftarrow> load_buffers tmp input_buffer_size run_size (offset + run_size) n;
     Some (buf # bufs) }"

definition last_write :: "nat \<Rightarrow> nat \<Rightarrow> merge \<Rightarrow> 64 word list option" where
  "last_write file_sz out_buffer_size st =
     (let rest = file_sz - out_buffer_size * (file_sz div out_buffer_size)
      in if rest > 0
         then do {
           require (sorted (take (rest div 8) (output_buffer st)));
           write_block (output_buffer st) (num_full_writes st * out_buffer_size) rest (out_file st) }
         else Some (out_file st))"

lemma require_eq_Some [simp]: "require b = Some u \<longleftrightarrow> b"
  by (simp add: require_def)

lemma consume_less: "consume_value ib st = Some (r, st') \<Longrightarrow>
  sum_list (remaining_num_values_run st') < sum_list (remaining_num_values_run st)"
proof -
  assume "consume_value ib st = Some (r, st')"
  then have "ib < length (remaining_num_values_run st)" "remaining_num_values_run st ! ib > 0"
      "remaining_num_values_run st' = (remaining_num_values_run st)[ib := remaining_num_values_run st ! ib - 1]"
    by (auto simp: consume_value_def arr_get_def bind_eq_Some_conv split: if_splits)
  then show ?thesis
    using sum_list_update [of ib "remaining_num_values_run st" "remaining_num_values_run st ! ib - 1"]
      elem_le_sum_list [of ib "remaining_num_values_run st"] by simp
qed

lemma same_remaining:
  "output_value v n st = Some st' \<Longrightarrow> remaining_num_values_run st' = remaining_num_values_run st"
  "next_index tmp b l o' ib st = Some (i, st') \<Longrightarrow> remaining_num_values_run st' = remaining_num_values_run st"
  by (auto simp: output_value_def next_index_def load_next_def Let_def bind_eq_Some_conv split: if_splits)

section \<open>The merge of all runs\<close>

text \<open>The priority queue of pairs of a value and its run is their sorted list.\<close>

type_synonym queue = "(64 word \<times> nat) list"

definition kway_step :: "64 word list \<Rightarrow> nat \<Rightarrow> nat \<Rightarrow> nat \<Rightarrow> nat \<Rightarrow> nat \<Rightarrow> queue \<times> merge \<Rightarrow> (queue \<times> merge) option" where
  "kway_step tmp input_buffer_size out_buffer_size run_size last_run_size fan_in s = do {
     let (pq, st) = s;
     require (pq \<noteq> []);
     let (v, ib) = hd pq;
     let pq = tl pq;
     (r, st) \<leftarrow> consume_value ib st;
     st \<leftarrow> output_value v out_buffer_size st;
     if r = 0 then Some (pq, st)
     else do {
       (i, st) \<leftarrow> next_index tmp input_buffer_size (if ib = fan_in - 1 then last_run_size else run_size) (run_size * ib) ib st;
       w \<leftarrow> buffer_value ib i st;
       Some (insort (w, ib) pq, st) } }"

lemma kway_step_less: "kway_step tmp b o' rs ls k (pq, st) = Some (pq', st') \<Longrightarrow>
  sum_list (remaining_num_values_run st') < sum_list (remaining_num_values_run st)"
  by (auto simp: kway_step_def Let_def bind_eq_Some_conv same_remaining dest!: consume_less split: if_splits prod.splits)

function kway_loop :: "64 word list \<Rightarrow> nat \<Rightarrow> nat \<Rightarrow> nat \<Rightarrow> nat \<Rightarrow> nat \<Rightarrow> queue \<times> merge \<Rightarrow> merge option" where
  "kway_loop tmp input_buffer_size out_buffer_size run_size last_run_size fan_in s =
     (if fst s = [] then Some (snd s)
      else case kway_step tmp input_buffer_size out_buffer_size run_size last_run_size fan_in s of
          None \<Rightarrow> None
        | Some s \<Rightarrow> kway_loop tmp input_buffer_size out_buffer_size run_size last_run_size fan_in s)"
  by auto
termination
  by (relation "measure (\<lambda>(tmp, b, o', rs, ls, k, s). sum_list (remaining_num_values_run (snd s)))")
    (auto simp: kway_step_less)

declare kway_loop.simps [simp del]

fun first_values :: "64 word list list \<Rightarrow> nat \<Rightarrow> queue option" where
  "first_values [] i = Some []"
| "first_values (b # bs) i = do {
     v \<leftarrow> arr_get b 0;
     q \<leftarrow> first_values bs (Suc i);
     Some (insort (v, i) q) }"

record run_sizes =
  num_runs :: nat
  num_values_run :: nat
  num_values_last_run :: nat
  run_size :: nat
  last_run_size :: nat

definition kway_merge :: "64 word list \<Rightarrow> nat \<Rightarrow> nat \<Rightarrow> run_sizes \<Rightarrow> 64 word list \<Rightarrow> 64 word list option" where
  "kway_merge tmp input_sort_size mem_size sz out = do {
     let fan_in = num_runs sz;
     let num_value_input_buffer = mem_size div (fan_in + 1) div 8;
     let input_buffer_size = num_value_input_buffer * 8;
     require (num_value_input_buffer > 0);
     require (fan_in * input_buffer_size \<le> mem_size);
     let out_buffer_size = (mem_size - fan_in * input_buffer_size) div 8 * 8;
     require (out_buffer_size > 0);
     require (input_buffer_size * fan_in + out_buffer_size \<le> mem_size);
     bufs \<leftarrow> load_buffers tmp input_buffer_size (run_size sz) 0 fan_in;
     pq \<leftarrow> first_values bufs 0;
     st \<leftarrow> kway_loop tmp input_buffer_size out_buffer_size (run_size sz) (last_run_size sz) fan_in (pq,
       \<lparr>next_read_offset_run = replicate fan_in input_buffer_size,
        next_push_index_input_buffer = replicate fan_in 1,
        remaining_num_values_run = (replicate fan_in (num_values_run sz))[fan_in - 1 := num_values_last_run sz],
        input_buffers = bufs, output_buffer = replicate (out_buffer_size div 8) 0,
        output_count = 0, num_full_writes = 0, out_file = out\<rparr>);
     last_write input_sort_size out_buffer_size st }"

section \<open>Passes of two-way merges\<close>

text \<open>The two pointers of the comparison are indices into the input buffers, \<open>None\<close> when their run is done.\<close>

definition smaller_side :: "nat option \<Rightarrow> nat option \<Rightarrow> merge \<Rightarrow> nat option" where
  "smaller_side c0 c1 st =
     (case (c0, c1) of
        (None, _) \<Rightarrow> Some 1
      | (Some i, None) \<Rightarrow> Some 0
      | (Some i, Some j) \<Rightarrow> do {
          v \<leftarrow> buffer_value 0 i st;
          w \<leftarrow> buffer_value 1 j st;
          Some (if v < w then 0 else 1) })"

definition twoway_step :: "64 word list \<Rightarrow> nat \<Rightarrow> nat \<Rightarrow> nat \<Rightarrow> nat \<Rightarrow> bool \<Rightarrow> nat
    \<Rightarrow> (nat option \<times> nat option) \<times> merge \<Rightarrow> ((nat option \<times> nat option) \<times> merge) option" where
  "twoway_step tmp input_buffer_size out_buffer_size run_len last_len last_iteration base s = do {
     let ((c0, c1), st) = s;
     ib \<leftarrow> smaller_side c0 c1 st;
     i \<leftarrow> (if ib = 0 then c0 else c1);
     v \<leftarrow> buffer_value ib i st;
     (r, st) \<leftarrow> consume_value ib st;
     st \<leftarrow> output_value v out_buffer_size st;
     if r = 0 then Some (if ib = 0 then (None, c1) else (c0, None), st)
     else do {
       (i, st) \<leftarrow> next_index tmp input_buffer_size (if last_iteration \<and> ib = 1 then last_len else run_len)
         (run_len * ib + base) ib st;
       Some (if ib = 0 then (Some i, c1) else (c0, Some i), st) } }"

lemma twoway_step_less: "twoway_step tmp b o' rs ls l base (c, st) = Some (c', st') \<Longrightarrow>
  sum_list (remaining_num_values_run st') < sum_list (remaining_num_values_run st)"
  by (auto simp: twoway_step_def Let_def bind_eq_Some_conv same_remaining dest!: consume_less split: if_splits prod.splits)

function twoway_loop :: "64 word list \<Rightarrow> nat \<Rightarrow> nat \<Rightarrow> nat \<Rightarrow> nat \<Rightarrow> bool \<Rightarrow> nat
    \<Rightarrow> (nat option \<times> nat option) \<times> merge \<Rightarrow> merge option" where
  "twoway_loop tmp input_buffer_size out_buffer_size run_len last_len last_iteration base s =
     (if fst s = (None, None) then Some (snd s)
      else case twoway_step tmp input_buffer_size out_buffer_size run_len last_len last_iteration base s of
          None \<Rightarrow> None
        | Some s \<Rightarrow> twoway_loop tmp input_buffer_size out_buffer_size run_len last_len last_iteration base s)"
  by auto
termination
  by (relation "measure (\<lambda>(tmp, b, o', rs, ls, l, base, s). sum_list (remaining_num_values_run (snd s)))")
    (auto simp: twoway_step_less)

declare twoway_loop.simps [simp del]

text \<open>One iteration: two neighbouring runs are merged through a temporary file of their size,
  which is copied back over them.\<close>

definition merge_pair :: "nat \<Rightarrow> nat \<Rightarrow> nat \<Rightarrow> nat \<Rightarrow> run_sizes \<Rightarrow> 64 word list \<Rightarrow> 64 word list option" where
  "merge_pair input_buffer_size out_buffer_size iterations it sz tmp = do {
     let last_iteration = (it = iterations - 1);
     let adjustment = (if last_iteration \<and> num_runs sz mod 2 \<noteq> 0 then run_size sz else 0);
     let base = run_size sz * 2 * it + adjustment;
     let intermediate_size = (if last_iteration then run_size sz + last_run_size sz else 2 * run_size sz);
     bufs \<leftarrow> load_buffers tmp input_buffer_size (run_size sz) base 2;
     st \<leftarrow> twoway_loop tmp input_buffer_size out_buffer_size (run_size sz) (last_run_size sz) last_iteration base
       ((Some 0, Some 0),
        \<lparr>next_read_offset_run = [input_buffer_size, input_buffer_size],
         next_push_index_input_buffer = [1, 1],
         remaining_num_values_run = [num_values_run sz, if last_iteration then num_values_last_run sz else num_values_run sz],
         input_buffers = bufs, output_buffer = replicate (out_buffer_size div 8) 0,
         output_count = 0, num_full_writes = 0, out_file = file_resize intermediate_size []\<rparr>);
     f \<leftarrow> last_write intermediate_size out_buffer_size st;
     d \<leftarrow> new_block f 0 intermediate_size;
     require (sorted d);
     write_block d base intermediate_size tmp }"

text \<open>One pass. An odd number of runs is made even by merging the last two first; the last
  iteration is then repeated.\<close>

function merge_pass :: "nat \<Rightarrow> nat \<Rightarrow> nat \<Rightarrow> nat \<Rightarrow> run_sizes \<Rightarrow> 64 word list \<Rightarrow> (run_sizes \<times> 64 word list) option" where
  "merge_pass input_buffer_size out_buffer_size iterations it sz tmp =
     (if it < iterations
      then do {
        tmp \<leftarrow> merge_pair input_buffer_size out_buffer_size iterations it sz tmp;
        if it = iterations - 1 \<and> num_runs sz mod 2 \<noteq> 0
        then merge_pass input_buffer_size out_buffer_size iterations it
          (sz\<lparr>num_runs := num_runs sz - 1, last_run_size := last_run_size sz + run_size sz,
              num_values_last_run := num_values_last_run sz + num_values_run sz\<rparr>) tmp
        else merge_pass input_buffer_size out_buffer_size iterations (it + 1) sz tmp }
      else Some (sz, tmp))"
  by auto
termination
proof (relation "measures [\<lambda>(b, o', n, it, sz, tmp). n - it, \<lambda>(b, o', n, it, sz, tmp). num_runs sz mod 2]", goal_cases)
  case (2 b o' n it sz tmp tmp')
  then have "num_runs sz mod 2 = 1" by simp
  moreover from this have "(num_runs sz - 1) mod 2 = 0" by presburger
  ultimately show ?case by simp
qed simp_all

declare merge_pass.simps [simp del]

lemma merge_pass_odd:
  assumes "it < n" "merge_pair b o' n it sz tmp = Some t" "it = n - 1 \<and> num_runs sz mod 2 \<noteq> 0"
  shows "merge_pass b o' n it sz tmp = merge_pass b o' n it (sz\<lparr>num_runs := num_runs sz - 1,
    last_run_size := last_run_size sz + run_size sz, num_values_last_run := num_values_last_run sz + num_values_run sz\<rparr>) t"
  by (subst merge_pass.simps) (use assms in simp)

lemma merge_pass_even:
  assumes "it < n" "merge_pair b o' n it sz tmp = Some t" "\<not> (it = n - 1 \<and> num_runs sz mod 2 \<noteq> 0)"
  shows "merge_pass b o' n it sz tmp = merge_pass b o' n (it + 1) sz t"
  by (subst merge_pass.simps) (use assms in auto)

lemma merge_pass_runs: "merge_pass b o' n it sz tmp = Some (sz', tmp') \<Longrightarrow> num_runs sz' \<le> num_runs sz"
proof (induction b o' n it sz tmp rule: merge_pass.induct)
  case (1 b o' n it sz tmp)
  show ?case
  proof (cases "it < n")
    case False
    then show ?thesis using 1(3) by (simp add: merge_pass.simps [of b o' n it])
  next
    case True
    then obtain t where t: "merge_pair b o' n it sz tmp = Some t"
      using 1(3) by (auto simp: merge_pass.simps [of b o' n it] bind_eq_Some_conv)
    show ?thesis
    proof (cases "it = n - 1 \<and> num_runs sz mod 2 \<noteq> 0")
      case odd: True
      with 1(1) [OF True t odd] 1(3) merge_pass_odd [OF True t odd] show ?thesis by simp
    next
      case even: False
      with 1(2) [OF True t even] 1(3) merge_pass_even [OF True t even] show ?thesis by simp
    qed
  qed
qed

definition double_runs :: "run_sizes \<Rightarrow> run_sizes" where
  "double_runs sz = sz\<lparr>num_runs := num_runs sz div 2, last_run_size := last_run_size sz + run_size sz,
     num_values_last_run := num_values_last_run sz + num_values_run sz,
     run_size := run_size sz * 2, num_values_run := num_values_run sz * 2\<rparr>"

function merge_passes :: "nat \<Rightarrow> nat \<Rightarrow> nat \<Rightarrow> run_sizes \<Rightarrow> 64 word list \<Rightarrow> (run_sizes \<times> 64 word list) option" where
  "merge_passes input_buffer_size out_buffer_size num_values sz tmp =
     (if num_runs sz > 2
      then case merge_pass input_buffer_size out_buffer_size (num_runs sz div 2) 0 sz tmp of
          None \<Rightarrow> None
        | Some (sz', tmp) \<Rightarrow> do {
            let sz' = double_runs sz';
            ok \<leftarrow> sort_phase_done tmp num_values (run_size sz');
            merge_passes input_buffer_size out_buffer_size num_values sz' tmp }
      else Some (sz, tmp))"
  by auto
termination
  by (relation "measure (\<lambda>(b, o', n, sz, tmp). num_runs sz)") (auto simp: double_runs_def dest!: merge_pass_runs)

declare merge_passes.simps [simp del]

definition not_full_way_merge :: "64 word list \<Rightarrow> nat \<Rightarrow> nat \<Rightarrow> run_sizes \<Rightarrow> (run_sizes \<times> 64 word list) option" where
  "not_full_way_merge tmp num_values mem_size sz = do {
     let num_value_input_buffer = mem_size div 3 div 8;
     let input_buffer_size = num_value_input_buffer * 8;
     require (num_value_input_buffer > 0);
     require (2 * input_buffer_size \<le> mem_size);
     let num_value_output_buffer = (mem_size - 2 * input_buffer_size) div 8;
     let out_buffer_size = num_value_output_buffer * 8;
     require (num_value_output_buffer > 0);
     merge_passes input_buffer_size out_buffer_size num_values sz tmp }"

section \<open>The external sort\<close>

definition external_merge_sort :: "64 word list \<Rightarrow> nat \<Rightarrow> nat \<Rightarrow> 64 word list \<Rightarrow> 64 word list option" where
  "external_merge_sort inp num_values mem_size out = do {
     let input_sort_size = num_values * 8;
     let runs = num_runs_of input_sort_size mem_size;
     let last_run = last_run_of input_sort_size mem_size;
     require (last_run \<le> mem_size);
     require (last_run mod 8 = 0);
     let tmp = file_resize input_sort_size [];
     (offset, tmp) \<leftarrow> sort_runs mem_size inp (runs - 1) 0 tmp;
     block \<leftarrow> new_block inp offset last_run;
     tmp \<leftarrow> write_block (sort block) offset last_run tmp;
     ok \<leftarrow> sort_phase_done tmp num_values mem_size;
     require (mem_size div 8 \<ge> 3);
     let sz = \<lparr>num_runs = runs, num_values_run = mem_size div 8, num_values_last_run = last_run div 8,
               run_size = mem_size, last_run_size = last_run\<rparr>;
     (sz, tmp) \<leftarrow> (if mem_size div (runs + 1) div 8 = 0
                  then not_full_way_merge tmp num_values mem_size sz else Some (sz, tmp));
     kway_merge tmp input_sort_size mem_size sz out }"

definition external_sort :: "db_file \<Rightarrow> nat \<Rightarrow> db_file \<Rightarrow> nat \<Rightarrow> db_file option" where
  "external_sort input num_values output mem_size = do {
     require (mem_size mod 8 = 0);
     require (get_mode input = READ);
     require (get_mode output = WRITE);
     let input_sort_size = num_values * 8;
     require (file_size (content input) \<ge> input_sort_size);
     let out = file_resize input_sort_size (content output);
     out \<leftarrow> (if num_values = 0 then Some out
            else if input_sort_size \<le> mem_size then inmemory_sort (content input) num_values out
            else external_merge_sort (content input) num_values mem_size out);
     Some (output\<lparr>content := out\<rparr>) }"

end
