(* ===== verification/External_Merge.thy ===== *)
theory External_Merge
  imports External_Sort
begin

text \<open>
  The buffers of a merge: an input buffer gives the values of its run one by one, the output
  buffer collects the values of the output file.
\<close>

section \<open>Reading a run\<close>

text \<open>
  A run of \<open>len\<close> values at position \<open>base\<close> of the temporary file of which \<open>r\<close> values have not
  been output: the buffer holds the values from position \<open>w\<close> of the run on, the first of the
  remaining values is in the buffer in front of index \<open>p\<close>, and the next read is at the end of
  what has been loaded.
\<close>

definition reader :: "64 word list \<Rightarrow> nat \<Rightarrow> nat \<Rightarrow> nat \<Rightarrow> nat \<Rightarrow> nat \<Rightarrow> nat \<Rightarrow> 64 word list \<Rightarrow> bool" where
  "reader tmp b base len at p r buf \<longleftrightarrow> length buf = b \<and> r \<le> len \<and> base + len \<le> length tmp
     \<and> sorted (take len (drop base tmp))
     \<and> (r > 0 \<longrightarrow> (\<exists>w. w + p = len - r + 1 \<and> 0 < p \<and> p \<le> b
          \<and> (\<forall>j < b. w + j < len \<longrightarrow> buf ! j = tmp ! (base + w + j))
          \<and> (at = 8 * (w + b) \<or> (at = 8 * len \<and> len \<le> w + b))))"

lemma reader_len: "reader tmp b base len at p r buf \<Longrightarrow> base + len \<le> length tmp \<and> r \<le> len \<and> length buf = b"
  by (simp add: reader_def)

lemma reader_head:
  assumes "reader tmp b base len at p r buf" "r > 0"
  shows "0 < p" "p \<le> b" "buf ! (p - 1) = tmp ! (base + (len - r))"
proof -
  obtain w where w: "w + p = len - r + 1" "0 < p" "p \<le> b" "\<forall>j < b. w + j < len \<longrightarrow> buf ! j = tmp ! (base + w + j)"
    using assms by (auto simp: reader_def)
  then show "0 < p" "p \<le> b" by auto
  have "buf ! (p - 1) = tmp ! (base + w + (p - 1))" using w assms by (auto simp: reader_def)
  also have "base + w + (p - 1) = base + (len - r)" using w(1,2) by linarith
  finally show "buf ! (p - 1) = tmp ! (base + (len - r))" .
qed

lemma sorted_part:
  assumes "sorted (take len (drop base tmp))" "s + n \<le> len"
  shows "sorted (take n (drop (base + s) tmp))"
proof -
  have "take n (drop (base + s) tmp) = take n (drop s (take len (drop base tmp)))"
    using assms(2) by (simp add: drop_take min_def add.commute)
  then show ?thesis using assms(1) sorted_wrt_take sorted_wrt_drop by metis
qed

definition at_run :: "nat \<Rightarrow> merge \<Rightarrow> bool" where
  "at_run ib st \<longleftrightarrow> ib < length (next_read_offset_run st) \<and> ib < length (next_push_index_input_buffer st)
     \<and> ib < length (remaining_num_values_run st) \<and> ib < length (input_buffers st)"

abbreviation run_reader :: "64 word list \<Rightarrow> nat \<Rightarrow> nat \<Rightarrow> nat \<Rightarrow> nat \<Rightarrow> nat \<Rightarrow> merge \<Rightarrow> bool" where
  "run_reader tmp b base len r ib st \<equiv> at_run ib st \<and>
     reader tmp b base len (next_read_offset_run st ! ib) (next_push_index_input_buffer st ! ib) r (input_buffers st ! ib)"

lemma read_block_full:
  assumes "s + n \<le> length f" "n \<le> length block"
  shows "read_block f (8 * s) (8 * n) block = Some (take n (drop s f) @ drop n block)"
proof -
  have "min (length f - s) n = n" using assms(1) by simp
  then show ?thesis using assms(2) by (simp add: read_block_def)
qed

text \<open>The state in which only the buffer of run \<open>ib\<close> has moved on.\<close>

definition moved_on :: "nat \<Rightarrow> nat \<Rightarrow> nat \<Rightarrow> 64 word list \<Rightarrow> merge \<Rightarrow> merge" where
  "moved_on ib at p buf st = st\<lparr>next_read_offset_run := (next_read_offset_run st)[ib := at],
     next_push_index_input_buffer := (next_push_index_input_buffer st)[ib := p],
     input_buffers := (input_buffers st)[ib := buf]\<rparr>"

lemma load_next_ok:
  assumes rd: "run_reader tmp b base len (Suc r) ib st" and r: "0 < r" and p: "next_push_index_input_buffer st ! ib = b"
  shows "\<exists>at buf. load_next tmp (8 * b) (8 * len) (8 * base) ib st = Some (moved_on ib at 0 buf st)
    \<and> length buf = b \<and> (\<exists>w. w = len - r \<and> (\<forall>j < b. w + j < len \<longrightarrow> buf ! j = tmp ! (base + w + j))
       \<and> (at = 8 * (w + b) \<or> (at = 8 * len \<and> len \<le> w + b)))"
proof -
  let ?at = "next_read_offset_run st ! ib" and ?buf = "input_buffers st ! ib"
  have ib: "at_run ib st" using rd by simp
  have l: "length ?buf = b" "Suc r \<le> len" "base + len \<le> length tmp" "sorted (take len (drop base tmp))"
    using rd by (auto simp: reader_def)
  obtain w where w: "w + b = len - Suc r + 1" "0 < b" "?at = 8 * (w + b) \<or> (?at = 8 * len \<and> len \<le> w + b)"
    using rd p by (auto simp: reader_def)
  have wl: "w + b = len - r" "w + b < len" using w(1) r l(2) by linarith+
  have at: "?at = 8 * (len - r)" using w(3) wl by auto
  define n where "n = (if len - r + b \<ge> len then r else b)"
  have n: "n \<le> b" "len - r + n \<le> len" using l(2) by (auto simp: n_def)
  have size: "(if ?at + 8 * b \<ge> 8 * len
      then do { require (?at \<le> 8 * len); require ((8 * len - ?at) mod 8 = 0); Some (8 * len - ?at) }
      else Some (8 * b)) = Some (8 * n)"
  proof -
    have d: "8 * len - 8 * (len - r) = 8 * r" using l(2) by (simp flip: diff_mult_distrib2)
    show ?thesis unfolding at using d l(2) by (auto simp: n_def)
  qed
  have "read_block tmp (8 * (len - r + base)) (8 * n) ?buf = Some (take n (drop (len - r + base) tmp) @ drop n ?buf)"
    by (rule read_block_full) (use n l in auto)
  then have rb: "read_block tmp (?at + 8 * base) (8 * n) ?buf = Some (take n (drop (base + (len - r)) tmp) @ drop n ?buf)"
    by (simp add: at add_mult_distrib2 add.commute)
  define buf where "buf = take n (drop (base + (len - r)) tmp) @ drop n ?buf"
  have len_buf: "length buf = b" using n l by (simp add: buf_def)
  have "length (take n (drop (base + (len - r)) tmp)) = n" using n l by simp
  then have tk: "take n buf = take n (drop (base + (len - r)) tmp)" unfolding buf_def by (metis append_eq_conv_conj)
  have sb: "sorted (take n buf)" unfolding tk by (rule sorted_part [OF l(4) n(2)])
  have run: "load_next tmp (8 * b) (8 * len) (8 * base) ib st = Some (moved_on ib (?at + 8 * n) 0 buf st)"
    using ib size rb sb unfolding load_next_def at_run_def moved_on_def
    by (simp add: buf_def [symmetric])
  have vals: "buf ! j = tmp ! (base + (len - r) + j)" if "j < b" "len - r + j < len" for j
  proof -
    have "j < n" using that by (auto simp: n_def split: if_splits)
    then have "buf ! j = take n buf ! j" by simp
    also have "\<dots> = tmp ! (base + (len - r) + j)" unfolding tk using \<open>j < n\<close> n l by simp
    finally show ?thesis .
  qed
  have "?at + 8 * n = 8 * (len - r + b) \<or> (?at + 8 * n = 8 * len \<and> len \<le> len - r + b)"
    unfolding at using l(2) by (auto simp: n_def)
  then show ?thesis using run len_buf vals by blast
qed

lemma next_index_ok:
  assumes rd: "run_reader tmp b base len (Suc r) ib st" and r: "0 < r"
  shows "\<exists>i at buf. next_index tmp (8 * b) (8 * len) (8 * base) ib st = Some (i, moved_on ib at (Suc i) buf st)
    \<and> reader tmp b base len at (Suc i) r buf \<and> i < b \<and> buf ! i = tmp ! (base + (len - r))"
proof (cases "next_push_index_input_buffer st ! ib = b")
  case True
  from load_next_ok [OF rd r True] obtain at buf where
    s: "load_next tmp (8 * b) (8 * len) (8 * base) ib st = Some (moved_on ib at 0 buf st)" "length buf = b"
      "\<forall>j < b. len - r + j < len \<longrightarrow> buf ! j = tmp ! (base + (len - r) + j)"
      "at = 8 * (len - r + b) \<or> (at = 8 * len \<and> len \<le> len - r + b)"
    by blast
  have l: "Suc r \<le> len" "0 < b" using rd reader_head [of tmp b base len _ _ "Suc r"] True by (auto simp: reader_def)
  have run: "next_index tmp (8 * b) (8 * len) (8 * base) ib st = Some (0, moved_on ib at (Suc 0) buf st)"
    using rd True s(1) by (simp add: next_index_def at_run_def moved_on_def)
  have "reader tmp b base len at (Suc 0) r buf"
    unfolding reader_def
  proof (intro conjI impI)
    show "\<exists>w. w + Suc 0 = len - r + 1 \<and> 0 < Suc 0 \<and> Suc 0 \<le> b
        \<and> (\<forall>j<b. w + j < len \<longrightarrow> buf ! j = tmp ! (base + w + j)) \<and> (at = 8 * (w + b) \<or> at = 8 * len \<and> len \<le> w + b)"
      using s(3,4) l by (intro exI [of _ "len - r"]) auto
  qed (use rd s(2) l in \<open>auto simp: reader_def\<close>)
  moreover have "buf ! 0 = tmp ! (base + (len - r))" using s(3) l r by auto
  ultimately show ?thesis using run l by blast
next
  case False
  let ?p = "next_push_index_input_buffer st ! ib" and ?at = "next_read_offset_run st ! ib" and ?buf = "input_buffers st ! ib"
  obtain w where w: "w + ?p = len - Suc r + 1" "0 < ?p" "?p \<le> b" "\<forall>j < b. w + j < len \<longrightarrow> ?buf ! j = tmp ! (base + w + j)"
      "?at = 8 * (w + b) \<or> (?at = 8 * len \<and> len \<le> w + b)"
    using rd by (auto simp: reader_def)
  have l: "Suc r \<le> len" using rd by (simp add: reader_def)
  have pb: "?p < b" using False w(3) by simp
  have "moved_on ib ?at (Suc ?p) ?buf st = st\<lparr>next_push_index_input_buffer := (next_push_index_input_buffer st)[ib := ?p + 1]\<rparr>"
    by (simp add: moved_on_def)
  then have run: "next_index tmp (8 * b) (8 * len) (8 * base) ib st = Some (?p, moved_on ib ?at (Suc ?p) ?buf st)"
    using rd False by (simp add: next_index_def at_run_def)
  have rd': "reader tmp b base len ?at (Suc ?p) r ?buf"
    unfolding reader_def
  proof (intro conjI impI)
    show "\<exists>w. w + Suc ?p = len - r + 1 \<and> 0 < Suc ?p \<and> Suc ?p \<le> b
        \<and> (\<forall>j<b. w + j < len \<longrightarrow> ?buf ! j = tmp ! (base + w + j)) \<and> (?at = 8 * (w + b) \<or> ?at = 8 * len \<and> len \<le> w + b)"
      using w pb l r by (intro exI [of _ w]) auto
  qed (use rd l in \<open>auto simp: reader_def\<close>)
  have "?buf ! ?p = tmp ! (base + (len - r))" using reader_head(3) [OF rd' r] by simp
  then show ?thesis using run rd' pb by blast
qed

lemma moved_on_simps [simp]:
  "remaining_num_values_run (moved_on ib at p buf st) = remaining_num_values_run st"
  "output_buffer (moved_on ib at p buf st) = output_buffer st" "output_count (moved_on ib at p buf st) = output_count st"
  "num_full_writes (moved_on ib at p buf st) = num_full_writes st" "out_file (moved_on ib at p buf st) = out_file st"
  by (simp_all add: moved_on_def)

lemma moved_on_at: "at_run j (moved_on ib at p buf st) = at_run j st"
  by (simp add: moved_on_def at_run_def)

lemma moved_on_other: "j \<noteq> ib \<Longrightarrow> run_reader tmp b base len r j (moved_on ib at p buf st) = run_reader tmp b base len r j st"
  unfolding moved_on_at by (simp add: moved_on_def)

lemma moved_on_same: "at_run ib st \<Longrightarrow> run_reader tmp b base len r ib (moved_on ib at p buf st) = reader tmp b base len at p r buf"
  unfolding moved_on_at by (simp add: moved_on_def at_run_def)

lemma buffer_value_moved: "at_run ib st \<Longrightarrow> i < length buf \<Longrightarrow> buffer_value ib i (moved_on ib at p buf st) = Some (buf ! i)"
  by (simp add: buffer_value_def moved_on_def at_run_def)

section \<open>Writing the output\<close>

text \<open>The values \<open>vs\<close> that have been output are the full buffers in the file and the rest in the buffer.\<close>

definition writer :: "nat \<Rightarrow> nat \<Rightarrow> 64 word list \<Rightarrow> merge \<Rightarrow> bool" where
  "writer b tot vs st \<longleftrightarrow> length (out_file st) = tot \<and> length (output_buffer st) = b \<and> output_count st < b
     \<and> length vs = num_full_writes st * b + output_count st
     \<and> take (num_full_writes st * b) (out_file st) = take (num_full_writes st * b) vs
     \<and> take (output_count st) (output_buffer st) = drop (num_full_writes st * b) vs"

text \<open>The state in which only the output has moved on.\<close>

definition wrote :: "merge \<Rightarrow> merge \<Rightarrow> bool" where
  "wrote st st' \<longleftrightarrow> next_read_offset_run st' = next_read_offset_run st
     \<and> next_push_index_input_buffer st' = next_push_index_input_buffer st
     \<and> remaining_num_values_run st' = remaining_num_values_run st \<and> input_buffers st' = input_buffers st"

lemma output_value_ok:
  assumes w: "writer b tot vs st" and s: "sorted (vs @ [v])" and t: "length vs < tot"
  shows "\<exists>st'. output_value v (8 * b) st = Some st' \<and> wrote st st' \<and> writer b tot (vs @ [v]) st'"
proof -
  let ?n = "output_count st" and ?k = "num_full_writes st"
  define buf where "buf = (output_buffer st)[?n := v]"
  have n: "?n < b" "length buf = b" using w by (simp_all add: writer_def buf_def)
  have full: "length vs = ?k * b + ?n" using w by (simp add: writer_def)
  have buf_vs: "take (Suc ?n) buf = drop (?k * b) (vs @ [v])"
    using w n by (simp add: writer_def buf_def take_Suc_conv_app_nth)
  show ?thesis
  proof (cases "?n + 1 = b")
    case False
    then have "output_value v (8 * b) st = Some (st\<lparr>output_buffer := buf, output_count := ?n + 1\<rparr>)"
      using w n by (simp add: output_value_def buf_def writer_def)
    moreover have "writer b tot (vs @ [v]) (st\<lparr>output_buffer := buf, output_count := ?n + 1\<rparr>)"
      using w n False buf_vs full by (simp add: writer_def)
    ultimately show ?thesis by (auto simp: wrote_def)
  next
    case True
    then have tk: "take b buf = buf" "Suc ?n = b" using n by simp_all
    have fit: "?k * b + b \<le> tot" using t full True by simp
    have srt: "sorted buf" using s buf_vs tk sorted_wrt_drop by metis
    define f where "f = take (?k * b) (out_file st) @ buf @ drop (?k * b + b) (out_file st)"
    have wb: "write_block buf (?k * (8 * b)) (8 * b) (out_file st) = Some f"
    proof -
      have "?k * (8 * b) div 8 = ?k * b" by simp
      then show ?thesis using w n fit tk by (simp add: write_block_def memcpy_def f_def writer_def)
    qed
    have "output_value v (8 * b) st = Some (st\<lparr>output_buffer := buf, output_count := 0, num_full_writes := ?k + 1, out_file := f\<rparr>)"
      using w n True wb srt tk by (simp add: output_value_def buf_def [symmetric] writer_def Let_def)
    moreover have "writer b tot (vs @ [v]) (st\<lparr>output_buffer := buf, output_count := 0, num_full_writes := ?k + 1, out_file := f\<rparr>)"
    proof -
      have vl: "length (vs @ [v]) = Suc ?k * b" using full tk by simp
      have "buf = drop (?k * b) (vs @ [v])" using buf_vs tk by simp
      moreover have "take (?k * b) (out_file st) = take (?k * b) (vs @ [v])" using w full by (simp add: writer_def)
      ultimately have tf: "take (?k * b) (out_file st) @ buf = vs @ [v]" by (metis append_take_drop_id)
      have "take (Suc ?k * b) f = vs @ [v]"
      proof -
        have "f = (vs @ [v]) @ drop (?k * b + b) (out_file st)" by (simp add: f_def flip: tf)
        then show ?thesis using vl by (metis append_eq_conv_conj)
      qed
      moreover have "length f = tot" using w fit n by (simp add: f_def writer_def)
      ultimately show ?thesis using n vl by (simp add: writer_def)
    qed
    ultimately show ?thesis by (auto simp: wrote_def)
  qed
qed

lemma last_write_ok:
  assumes w: "writer b tot vs st" and s: "sorted vs" and t: "length vs = tot"
  shows "last_write (8 * tot) (8 * b) st = Some vs"
proof -
  let ?n = "output_count st" and ?k = "num_full_writes st"
  have wd: "length (out_file st) = tot" "length (output_buffer st) = b" "?n < b" "tot = ?k * b + ?n"
      "take (?k * b) (out_file st) = take (?k * b) vs" "take ?n (output_buffer st) = drop (?k * b) vs"
    using w t by (simp_all add: writer_def)
  have "tot div b = ?k" unfolding wd(4) using wd(3) by simp
  then have q: "8 * tot div (8 * b) = ?k" by simp
  have rest: "8 * tot - 8 * b * ?k = 8 * ?n" unfolding wd(4) by (simp add: add_mult_distrib2)
  show ?thesis
  proof (cases "?n = 0")
    case True
    then have "out_file st = vs" using wd t by simp
    then show ?thesis using True q rest by (simp add: last_write_def Let_def)
  next
    case False
    have srt: "sorted (take ?n (output_buffer st))" unfolding wd(6) using s sorted_wrt_drop by blast
    have "?k * (8 * b) div 8 = ?k * b" by simp
    then have "write_block (output_buffer st) (?k * (8 * b)) (8 * ?n) (out_file st)
        = Some (take (?k * b) (out_file st) @ take ?n (output_buffer st))"
      using wd by (simp add: write_block_def memcpy_def)
    also have "take (?k * b) (out_file st) @ take ?n (output_buffer st) = vs" using wd by simp
    finally show ?thesis using False q rest srt by (simp add: last_write_def Let_def)
  qed
qed

end
