(* ===== verification/External_Kway.thy ===== *)
theory External_Kway
  imports External_Merge
begin

text \<open>
  What a merge has done after some steps: the values that are out are sorted and not above any
  that is still to come, and none has been lost. One step of either merge keeps this.
\<close>

section \<open>The values still to come\<close>

definition rest :: "64 word list \<Rightarrow> nat \<Rightarrow> nat \<Rightarrow> nat \<Rightarrow> 64 word list" where
  "rest tmp base len r = take r (drop (base + (len - r)) tmp)"

definition head_value :: "64 word list \<Rightarrow> nat \<Rightarrow> nat \<Rightarrow> nat \<Rightarrow> 64 word" where
  "head_value tmp base len r = tmp ! (base + (len - r))"

lemma rest_0 [simp]: "rest tmp base len 0 = []"
  by (simp add: rest_def)

lemma rest_Suc: "Suc r \<le> len \<Longrightarrow> base + len \<le> length tmp \<Longrightarrow> rest tmp base len (Suc r) = head_value tmp base len (Suc r) # rest tmp base len r"
proof -
  assume a: "Suc r \<le> len" "base + len \<le> length tmp"
  define q where "q = base + (len - Suc r)"
  have q: "q < length tmp" "base + (len - r) = Suc q" using a by (auto simp: q_def)
  show ?thesis
    unfolding rest_def head_value_def q(2) q_def [symmetric] using Cons_nth_drop_Suc [OF q(1)]
    by (metis take_Suc_Cons)
qed

lemma rest_sorted: "sorted (take len (drop base tmp)) \<Longrightarrow> r \<le> len \<Longrightarrow> sorted (rest tmp base len r)"
  unfolding rest_def by (rule sorted_part) auto

definition merging :: "64 word list \<Rightarrow> nat \<Rightarrow> (nat \<Rightarrow> nat) \<Rightarrow> (nat \<Rightarrow> nat) \<Rightarrow> nat \<Rightarrow> nat \<Rightarrow> 64 word multiset \<Rightarrow> 64 word list \<Rightarrow> merge \<Rightarrow> bool" where
  "merging tmp b base len k ob M vs st \<longleftrightarrow> length (remaining_num_values_run st) = k
     \<and> (\<forall>i < k. run_reader tmp b (base i) (len i) (remaining_num_values_run st ! i) i st)
     \<and> writer ob (size M) vs st \<and> sorted vs
     \<and> (\<forall>x \<in> set vs. \<forall>i < k. \<forall>y \<in> set (rest tmp (base i) (len i) (remaining_num_values_run st ! i)). x \<le> y)
     \<and> mset vs + (\<Sum>i<k. mset (rest tmp (base i) (len i) (remaining_num_values_run st ! i))) = M"

lemma mergingD:
  assumes "merging tmp b base len k ob M vs st"
  shows "length (remaining_num_values_run st) = k"
    "i < k \<Longrightarrow> run_reader tmp b (base i) (len i) (remaining_num_values_run st ! i) i st"
    "writer ob (size M) vs st" "sorted vs"
    "x \<in> set vs \<Longrightarrow> i < k \<Longrightarrow> y \<in> set (rest tmp (base i) (len i) (remaining_num_values_run st ! i)) \<Longrightarrow> x \<le> y"
    "mset vs + (\<Sum>i<k. mset (rest tmp (base i) (len i) (remaining_num_values_run st ! i))) = M"
  using assms unfolding merging_def by blast+

lemma merging_head:
  assumes m: "merging tmp b base len k ob M vs st" and i: "i < k" "remaining_num_values_run st ! i > 0"
    and y: "y \<in> set (rest tmp (base i) (len i) (remaining_num_values_run st ! i))"
  shows "head_value tmp (base i) (len i) (remaining_num_values_run st ! i) \<le> y"
proof -
  obtain r where r: "remaining_num_values_run st ! i = Suc r" using i(2) gr0_conv_Suc by blast
  note l = reader_len [of tmp b "base i" "len i"]
  have rd: "reader tmp b (base i) (len i) (next_read_offset_run st ! i) (next_push_index_input_buffer st ! i) (Suc r) (input_buffers st ! i)"
    using mergingD(2) [OF m i(1)] r by simp
  have s: "sorted (rest tmp (base i) (len i) (Suc r))" using rd by (intro rest_sorted) (auto simp: reader_def)
  have c: "rest tmp (base i) (len i) (Suc r) = head_value tmp (base i) (len i) (Suc r) # rest tmp (base i) (len i) r"
    using rd by (intro rest_Suc) (auto simp: reader_def)
  show ?thesis using s y unfolding r c by auto
qed

text \<open>One step: the smallest head is output, and the next value of its run takes its place.\<close>

lemma reader_wrote: "wrote st st' \<Longrightarrow> run_reader tmp b base len r i st' = run_reader tmp b base len r i st"
  by (simp add: wrote_def at_run_def)

lemma reader_consumed:
  "run_reader tmp b base len r i (st\<lparr>remaining_num_values_run := (remaining_num_values_run st)[ib := x]\<rparr>) = run_reader tmp b base len r i st"
  by (simp add: at_run_def)

lemma reader_done: "reader tmp b base len at p r buf \<Longrightarrow> reader tmp b base len at p 0 buf"
  by (simp add: reader_def)

definition advanced :: "nat \<Rightarrow> nat \<Rightarrow> merge \<Rightarrow> merge \<Rightarrow> bool" where
  "advanced ib r st st' \<longleftrightarrow> remaining_num_values_run st' = (remaining_num_values_run st)[ib := r]
     \<and> (\<forall>j. j \<noteq> ib \<longrightarrow> j < length (input_buffers st) \<longrightarrow>
          (\<forall>i. buffer_value j i st' = buffer_value j i st)
          \<and> next_push_index_input_buffer st' ! j = next_push_index_input_buffer st ! j)"

lemma moved_on_buffers:
  "j \<noteq> ib \<Longrightarrow> buffer_value j i (moved_on ib at p buf st) = buffer_value j i st"
  "j \<noteq> ib \<Longrightarrow> next_push_index_input_buffer (moved_on ib at p buf st) ! j = next_push_index_input_buffer st ! j"
  by (simp_all add: moved_on_def buffer_value_def arr_get_def)

lemma merging_step:
  assumes m: "merging tmp b base len k ob M vs st" and ib: "ib < k" "remaining_num_values_run st ! ib = Suc r"
    and least: "\<forall>i < k. remaining_num_values_run st ! i > 0 \<longrightarrow>
      head_value tmp (base ib) (len ib) (Suc r) \<le> head_value tmp (base i) (len i) (remaining_num_values_run st ! i)"
  shows "\<exists>st1 st2. consume_value ib st = Some (r, st1)
    \<and> output_value (head_value tmp (base ib) (len ib) (Suc r)) (8 * ob) st1 = Some st2
    \<and> (r = 0 \<longrightarrow> merging tmp b base len k ob M (vs @ [head_value tmp (base ib) (len ib) (Suc r)]) st2 \<and> advanced ib r st st2)
    \<and> (r > 0 \<longrightarrow> (\<exists>i st3. next_index tmp (8 * b) (8 * len ib) (8 * base ib) ib st2 = Some (i, st3)
         \<and> next_push_index_input_buffer st3 ! ib = Suc i
         \<and> buffer_value ib i st3 = Some (head_value tmp (base ib) (len ib) r)
         \<and> merging tmp b base len k ob M (vs @ [head_value tmp (base ib) (len ib) (Suc r)]) st3 \<and> advanced ib r st st3))"
proof -
  let ?rem = "remaining_num_values_run st" and ?v = "head_value tmp (base ib) (len ib) (Suc r)"
  let ?rest = "\<lambda>i r. rest tmp (base i) (len i) r"
  note d = mergingD [OF m]
  have rd: "run_reader tmp b (base ib) (len ib) (Suc r) ib st" using d(2) [OF ib(1)] ib(2) by simp
  have l: "Suc r \<le> len ib" "base ib + len ib \<le> length tmp" using rd by (auto simp: reader_def)
  define st1 where "st1 = st\<lparr>remaining_num_values_run := ?rem[ib := r]\<rparr>"
  have c: "consume_value ib st = Some (r, st1)"
    using d(1) ib by (simp add: consume_value_def st1_def)
  have split: "?rest ib (Suc r) = ?v # ?rest ib r" by (rule rest_Suc [OF l])
  have heads: "?v \<le> y" if "i < k" "y \<in> set (?rest i (?rem ! i))" for i y
  proof -
    have pos: "?rem ! i > 0" using that(2) by (cases "?rem ! i") auto
    then show ?thesis using least that merging_head [OF m that(1) pos that(2)] order_trans by blast
  qed
  have below: "x \<le> ?v" if "x \<in> set vs" for x using d(5) [OF that ib(1)] ib(2) split by simp
  have srt: "sorted (vs @ [?v])" using d(4) below by (simp add: sorted_append)
  have sum: "(\<Sum>i<k. mset (?rest i (?rem ! i))) = add_mset ?v (\<Sum>i<k. mset (?rest i (?rem[ib := r] ! i)))"
  proof -
    have ibk: "ib \<in> {..<k}" using ib(1) by simp
    have o: "(\<Sum>i\<in>{..<k} - {ib}. mset (?rest i (?rem ! i))) = (\<Sum>i\<in>{..<k} - {ib}. mset (?rest i (?rem[ib := r] ! i)))"
      by (rule sum.cong) auto
    have "(\<Sum>i<k. mset (?rest i (?rem ! i))) = mset (?rest ib (Suc r)) + (\<Sum>i\<in>{..<k} - {ib}. mset (?rest i (?rem ! i)))"
      using sum.remove [OF _ ibk, of "\<lambda>i. mset (?rest i (?rem ! i))"] ib(2) by simp
    also have "\<dots> = add_mset ?v (mset (?rest ib (?rem[ib := r] ! ib)) + (\<Sum>i\<in>{..<k} - {ib}. mset (?rest i (?rem[ib := r] ! i))))"
      unfolding o split using d(1) ib(1) by simp
    also have "mset (?rest ib (?rem[ib := r] ! ib)) + (\<Sum>i\<in>{..<k} - {ib}. mset (?rest i (?rem[ib := r] ! i)))
        = (\<Sum>i<k. mset (?rest i (?rem[ib := r] ! i)))"
      using sum.remove [OF _ ibk, of "\<lambda>i. mset (?rest i (?rem[ib := r] ! i))"] by simp
    finally show ?thesis .
  qed
  have tot: "mset (vs @ [?v]) + (\<Sum>i<k. mset (?rest i (?rem[ib := r] ! i))) = M" using d(6) sum by simp
  have less: "length vs < size M"
  proof -
    have "size M = size (mset (vs @ [?v]) + (\<Sum>i<k. mset (?rest i (?rem[ib := r] ! i))))" using tot by simp
    then show ?thesis by simp
  qed
  have "writer ob (size M) vs st1" using d(3) by (simp add: st1_def writer_def)
  from output_value_ok [OF this srt less] obtain st2 where
    s2: "output_value ?v (8 * ob) st1 = Some st2" "wrote st1 st2" "writer ob (size M) (vs @ [?v]) st2" by blast
  have rem2: "remaining_num_values_run st2 = ?rem[ib := r]" using s2(2) by (simp add: wrote_def st1_def)
  have other: "run_reader tmp b (base i) (len i) (?rem[ib := r] ! i) i st2" if "i < k" "i \<noteq> ib" for i
    using d(2) [OF that(1)] that(2) reader_wrote [OF s2(2)] reader_consumed by (simp add: st1_def)
  have rd2: "run_reader tmp b (base ib) (len ib) (Suc r) ib st2"
    using rd reader_wrote [OF s2(2)] reader_consumed by (simp add: st1_def)
  have bound: "x \<le> y" if "x \<in> set (vs @ [?v])" "i < k" "y \<in> set (?rest i (?rem[ib := r] ! i))" for x i y
  proof -
    have "y \<in> set (?rest i (?rem ! i))"
      using that(2,3) split ib d(1) by (cases "i = ib") auto
    then show ?thesis using that(1,2) d(5) heads by auto
  qed
  have fin: "merging tmp b base len k ob M (vs @ [?v]) st'"
    if "remaining_num_values_run st' = ?rem[ib := r]" "\<forall>i < k. run_reader tmp b (base i) (len i) (?rem[ib := r] ! i) i st'"
      "writer ob (size M) (vs @ [?v]) st'" for st'
    unfolding merging_def that(1) using that d(1) srt tot bound by simp
  have bv2: "buffer_value j i st2 = buffer_value j i st" "next_push_index_input_buffer st2 = next_push_index_input_buffer st" for j i
    using s2(2) by (simp_all add: buffer_value_def wrote_def st1_def)
  have z: "merging tmp b base len k ob M (vs @ [?v]) st2 \<and> advanced ib r st st2" if "r = 0"
  proof -
    have "run_reader tmp b (base i) (len i) (?rem[ib := r] ! i) i st2" if "i < k" for i
      using other [OF that] rd2 reader_done \<open>r = 0\<close> ib d(1) by (cases "i = ib") auto
    then show ?thesis using fin [OF rem2 _ s2(3)] rem2 bv2 by (simp add: advanced_def)
  qed
  have nz: "\<exists>i st3. next_index tmp (8 * b) (8 * len ib) (8 * base ib) ib st2 = Some (i, st3)
      \<and> next_push_index_input_buffer st3 ! ib = Suc i \<and> buffer_value ib i st3 = Some (head_value tmp (base ib) (len ib) r)
      \<and> merging tmp b base len k ob M (vs @ [?v]) st3 \<and> advanced ib r st st3" if "r > 0"
  proof -
    from next_index_ok [OF rd2 that] obtain i at buf where
      n: "next_index tmp (8 * b) (8 * len ib) (8 * base ib) ib st2 = Some (i, moved_on ib at (Suc i) buf st2)"
        "reader tmp b (base ib) (len ib) at (Suc i) r buf" "i < b" "buf ! i = tmp ! (base ib + (len ib - r))" by blast
    let ?st3 = "moved_on ib at (Suc i) buf st2"
    have at: "at_run ib st2" using rd2 by simp
    have "run_reader tmp b (base j) (len j) (?rem[ib := r] ! j) j ?st3" if "j < k" for j
      using other [OF that] moved_on_other moved_on_same [OF at] n(2) ib d(1) by (cases "j = ib") auto
    moreover have "writer ob (size M) (vs @ [?v]) ?st3" using s2(3) by (simp add: writer_def)
    ultimately have "merging tmp b base len k ob M (vs @ [?v]) ?st3" using fin [of ?st3] rem2 by simp
    moreover have "buffer_value ib i ?st3 = Some (head_value tmp (base ib) (len ib) r)"
      using buffer_value_moved [OF at] n(2-4) by (simp add: reader_def head_value_def)
    moreover have "next_push_index_input_buffer ?st3 ! ib = Suc i" using at by (simp add: moved_on_def at_run_def)
    moreover have "advanced ib r st ?st3"
      using bv2 rem2 moved_on_buffers by (simp add: advanced_def)
    ultimately show ?thesis using n(1) by blast
  qed
  show ?thesis using c s2(1) z nz by (cases "r = 0") auto
qed

lemma merging_end:
  assumes "merging tmp b base len k ob M vs st" "\<forall>i < k. remaining_num_values_run st ! i = 0"
  shows "mset vs = M" "sorted vs" "last_write (8 * size M) (8 * ob) st = Some vs"
proof -
  note d = mergingD [OF assms(1)]
  show vs: "mset vs = M" using d(6) assms(2) by simp
  show "sorted vs" by (rule d(4))
  have "length vs = size M" using vs size_mset by metis
  from last_write_ok [OF d(3,4) this] show "last_write (8 * size M) (8 * ob) st = Some vs" .
qed

section \<open>The loop over the priority queue\<close>

definition queue_ok :: "64 word list \<Rightarrow> (nat \<Rightarrow> nat) \<Rightarrow> (nat \<Rightarrow> nat) \<Rightarrow> nat list \<Rightarrow> queue \<Rightarrow> bool" where
  "queue_ok tmp base len rems pq \<longleftrightarrow> sorted pq \<and> distinct pq
     \<and> set pq = {(head_value tmp (base i) (len i) (rems ! i), i) |i. i < length rems \<and> rems ! i > 0}"

lemma queue_next:
  assumes q: "queue_ok tmp base len rems ((v, ib) # pq)"
  shows "ib < length rems" "rems ! ib > 0" "v = head_value tmp (base ib) (len ib) (rems ! ib)"
    "i < length rems \<Longrightarrow> rems ! i > 0 \<Longrightarrow> v \<le> head_value tmp (base i) (len i) (rems ! i)"
    "queue_ok tmp base len (rems[ib := 0]) pq"
    "r > 0 \<Longrightarrow> queue_ok tmp base len (rems[ib := r]) (insort (head_value tmp (base ib) (len ib) r, ib) pq)"
proof -
  let ?h = "\<lambda>rems i. (head_value tmp (base i) (len i) (rems ! i), i)"
  have s: "set ((v, ib) # pq) = {?h rems i |i. i < length rems \<and> rems ! i > 0}" "sorted pq" "distinct pq" "(v, ib) \<notin> set pq"
      "\<forall>x \<in> set pq. (v, ib) \<le> x"
    using q by (auto simp: queue_ok_def)
  then have "(v, ib) \<in> {?h rems i |i. i < length rems \<and> rems ! i > 0}" by auto
  then show h: "ib < length rems" "rems ! ib > 0" "v = head_value tmp (base ib) (len ib) (rems ! ib)" by auto
  show "v \<le> head_value tmp (base i) (len i) (rems ! i)" if "i < length rems" "rems ! i > 0"
  proof -
    have "?h rems i \<in> set ((v, ib) # pq)" unfolding s(1) using that by blast
    then show ?thesis using s(5) by (auto simp: less_eq_prod_def)
  qed
  have rest_set: "set pq = {?h rems i |i. i < length rems \<and> rems ! i > 0 \<and> i \<noteq> ib}"
  proof -
    have "set pq = set ((v, ib) # pq) - {(v, ib)}" using s(4) by auto
    also have "\<dots> = {?h rems i |i. i < length rems \<and> rems ! i > 0 \<and> i \<noteq> ib}" unfolding s(1) using h(3) by auto
    finally show ?thesis .
  qed
  have "{?h (rems[ib := 0]) i |i. i < length rems \<and> rems[ib := 0] ! i > 0} = set pq"
    unfolding rest_set using h(1) by (auto simp: nth_list_update)
  then show "queue_ok tmp base len (rems[ib := 0]) pq" using s(2,3) by (simp add: queue_ok_def)
  show "queue_ok tmp base len (rems[ib := r]) (insort (head_value tmp (base ib) (len ib) r, ib) pq)" if "r > 0"
  proof -
    have "{?h (rems[ib := r]) i |i. i < length rems \<and> rems[ib := r] ! i > 0}
        = insert (head_value tmp (base ib) (len ib) r, ib) (set pq)"
      unfolding rest_set using h(1) that by (auto simp: nth_list_update)
    moreover have "(head_value tmp (base ib) (len ib) r, ib) \<notin> set pq" unfolding rest_set by auto
    ultimately show ?thesis using s(2,3) by (simp add: queue_ok_def set_insort_key distinct_insort sorted_insort)
  qed
qed

lemma kway_loop_ok:
  assumes "merging tmp b (\<lambda>i. rl * i) (\<lambda>i. if i = k - 1 then ll else rl) k ob M vs st"
    "queue_ok tmp (\<lambda>i. rl * i) (\<lambda>i. if i = k - 1 then ll else rl) (remaining_num_values_run st) pq"
  shows "\<exists>st' vs'. kway_loop tmp (8 * b) (8 * ob) (8 * rl) (8 * ll) k (pq, st) = Some st'
    \<and> merging tmp b (\<lambda>i. rl * i) (\<lambda>i. if i = k - 1 then ll else rl) k ob M vs' st'
    \<and> (\<forall>i < k. remaining_num_values_run st' ! i = 0)"
  using assms
proof (induction "sum_list (remaining_num_values_run st)" arbitrary: pq st vs rule: less_induct)
  case less
  let ?base = "\<lambda>i. rl * i" and ?len = "\<lambda>i. if i = k - 1 then ll else rl" and ?rem = "remaining_num_values_run st"
  note m = less.prems(1)
  have k: "length ?rem = k" by (rule mergingD(1) [OF m])
  show ?case
  proof (cases pq)
    case Nil
    then have "\<forall>i < k. ?rem ! i = 0" using less.prems(2) k by (auto simp: queue_ok_def)
    then show ?thesis using m Nil by (subst kway_loop.simps) auto
  next
    case (Cons x pq')
    obtain v ib where x: "x = (v, ib)" by (cases x)
    note q = queue_next [OF less.prems(2) [unfolded Cons x]]
    obtain r where r: "?rem ! ib = Suc r" using q(2) gr0_conv_Suc by blast
    have ib: "ib < k" using q(1) k by simp
    have v: "v = head_value tmp (?base ib) (?len ib) (Suc r)" using q(3) r by simp
    have least: "\<forall>i < k. ?rem ! i > 0 \<longrightarrow> head_value tmp (?base ib) (?len ib) (Suc r) \<le> head_value tmp (?base i) (?len i) (?rem ! i)"
      using q(4) k v by simp
    from merging_step [OF m ib r least] obtain st1 st2 where
      s: "consume_value ib st = Some (r, st1)" "output_value v (8 * ob) st1 = Some st2"
        "r = 0 \<Longrightarrow> merging tmp b ?base ?len k ob M (vs @ [v]) st2 \<and> advanced ib r st st2"
        "r > 0 \<Longrightarrow> \<exists>i st3. next_index tmp (8 * b) (8 * ?len ib) (8 * ?base ib) ib st2 = Some (i, st3)
          \<and> buffer_value ib i st3 = Some (head_value tmp (?base ib) (?len ib) r)
          \<and> merging tmp b ?base ?len k ob M (vs @ [v]) st3 \<and> advanced ib r st st3"
      unfolding v by blast
    have args: "8 * rl * ib = 8 * ?base ib" "(if ib = k - 1 then 8 * ll else 8 * rl) = 8 * ?len ib" by simp_all
    have "\<exists>pq2 st3. kway_step tmp (8 * b) (8 * ob) (8 * rl) (8 * ll) k (pq, st) = Some (pq2, st3)
        \<and> merging tmp b ?base ?len k ob M (vs @ [v]) st3 \<and> queue_ok tmp ?base ?len (remaining_num_values_run st3) pq2"
    proof (cases "r = 0")
      case True
      have "queue_ok tmp ?base ?len (remaining_num_values_run st2) pq'"
        using s(3) [OF True] q(5) True by (simp add: advanced_def)
      then show ?thesis using s(1,2) s(3) [OF True] True Cons x by (auto simp: kway_step_def)
    next
      case False
      then obtain i st3 where n: "next_index tmp (8 * b) (8 * ?len ib) (8 * ?base ib) ib st2 = Some (i, st3)"
          "buffer_value ib i st3 = Some (head_value tmp (?base ib) (?len ib) r)"
          "merging tmp b ?base ?len k ob M (vs @ [v]) st3" "advanced ib r st st3" using s(4) by blast
      have "queue_ok tmp ?base ?len (remaining_num_values_run st3) (insort (head_value tmp (?base ib) (?len ib) r, ib) pq')"
        using n(4) q(6) False by (simp add: advanced_def)
      moreover have n': "next_index tmp (8 * b) (if ib = k - 1 then 8 * ll else 8 * rl) (8 * rl * ib) ib st2 = Some (i, st3)"
        unfolding args by (rule n(1))
      have "kway_step tmp (8 * b) (8 * ob) (8 * rl) (8 * ll) k (pq, st)
          = Some (insort (head_value tmp (?base ib) (?len ib) r, ib) pq', st3)"
        using s(1,2) n' n(2) False Cons x by (simp add: kway_step_def split del: if_split)
      ultimately show ?thesis using n(3) by blast
    qed
    then obtain pq2 st3 where t: "kway_step tmp (8 * b) (8 * ob) (8 * rl) (8 * ll) k (pq, st) = Some (pq2, st3)"
        "merging tmp b ?base ?len k ob M (vs @ [v]) st3" "queue_ok tmp ?base ?len (remaining_num_values_run st3) pq2" by blast
    have "kway_loop tmp (8 * b) (8 * ob) (8 * rl) (8 * ll) k (pq, st) = kway_loop tmp (8 * b) (8 * ob) (8 * rl) (8 * ll) k (pq2, st3)"
      using Cons t(1) by (subst kway_loop.simps) simp
    then show ?thesis using less.hyps [OF kway_step_less [OF t(1)] t(2,3)] by simp
  qed
qed

end
