(* ===== verification/External_Runs.thy ===== *)
theory External_Runs
  imports External_Kway
begin

text \<open>A temporary file of sorted runs, and the merge of all of them into the output.\<close>

section \<open>Runs\<close>

text \<open>The length of run \<open>i\<close> of \<open>k\<close>: the last one is different.\<close>

abbreviation run_len :: "nat \<Rightarrow> nat \<Rightarrow> nat \<Rightarrow> nat \<Rightarrow> nat" where
  "run_len k rl ll i \<equiv> (if i = k - 1 then ll else rl)"

definition runs_ok :: "64 word list \<Rightarrow> nat \<Rightarrow> nat \<Rightarrow> nat \<Rightarrow> bool" where
  "runs_ok tmp k rl ll \<longleftrightarrow> 0 < k \<and> 0 < rl \<and> 0 < ll \<and> length tmp = rl * (k - 1) + ll
     \<and> (\<forall>i < k. sorted (take (run_len k rl ll i) (drop (rl * i) tmp)))"

lemma runs_okD:
  assumes "runs_ok tmp k rl ll"
  shows "0 < k" "0 < rl" "0 < ll" "length tmp = rl * (k - 1) + ll"
    "i < k \<Longrightarrow> sorted (take (run_len k rl ll i) (drop (rl * i) tmp))"
  using assms by (simp_all add: runs_ok_def)

lemma run_inside:
  assumes "runs_ok tmp k rl ll" "i < k"
  shows "rl * i + run_len k rl ll i \<le> length tmp"
proof (cases "i = k - 1")
  case False
  then have "Suc i \<le> k - 1" using assms(2) by simp
  then have "rl * Suc i \<le> rl * (k - 1)" by (rule mult_le_mono2)
  then show ?thesis using False runs_okD(4) [OF assms(1)] by simp
qed (use runs_okD(4) [OF assms(1)] in simp)

lemma mset_blocks: "(\<Sum>i<n. mset (take rl (drop (rl * i) xs))) = mset (take (rl * n) xs)"
proof (induction n)
  case (Suc n)
  have "take (rl * Suc n) xs = take (rl * n) xs @ take rl (drop (rl * n) xs)"
    by (metis add.commute mult_Suc_right take_add)
  then show ?case using Suc by simp
qed simp

lemma mset_runs:
  assumes "runs_ok tmp k rl ll"
  shows "(\<Sum>i<k. mset (take (run_len k rl ll i) (drop (rl * i) tmp))) = mset tmp"
proof -
  obtain n where n: "k = Suc n" using runs_okD(1) [OF assms] gr0_conv_Suc by blast
  have l: "length tmp = rl * n + ll" using runs_okD(4) [OF assms] n by simp
  have "(\<Sum>i<n. mset (take (run_len k rl ll i) (drop (rl * i) tmp))) = (\<Sum>i<n. mset (take rl (drop (rl * i) tmp)))"
    by (rule sum.cong) (auto simp: n)
  also have "\<dots> = mset (take (rl * n) tmp)" by (rule mset_blocks)
  finally have "(\<Sum>i<k. mset (take (run_len k rl ll i) (drop (rl * i) tmp))) = mset (take (rl * n) tmp) + mset (take ll (drop (rl * n) tmp))"
    by (simp add: n)
  also have "take ll (drop (rl * n) tmp) = drop (rl * n) tmp" using l by simp
  finally show ?thesis by (metis append_take_drop_id mset_append)
qed

section \<open>The first load\<close>

lemma new_block_at: "new_block f (8 * s) (8 * n) = Some (take n (drop s f) @ replicate (n - (length f - s)) 0)"
  by (simp add: new_block_def read_block_def min_def)

lemma load_buffers_ok:
  "\<exists>bufs. load_buffers tmp (8 * b) (8 * rl) (8 * s) n = Some bufs \<and> length bufs = n
    \<and> (\<forall>i < n. length (bufs ! i) = b \<and> (\<forall>j < b. s + rl * i + j < length tmp \<longrightarrow> bufs ! i ! j = tmp ! (s + rl * i + j)))"
proof (induction n arbitrary: s)
  case (Suc n)
  have o: "8 * s + 8 * rl = 8 * (s + rl)" by simp
  obtain bufs where bufs: "load_buffers tmp (8 * b) (8 * rl) (8 * s + 8 * rl) n = Some bufs" "length bufs = n"
      "\<forall>i < n. length (bufs ! i) = b \<and> (\<forall>j < b. s + rl + rl * i + j < length tmp \<longrightarrow> bufs ! i ! j = tmp ! (s + rl + rl * i + j))"
    using Suc.IH [of "s + rl"] unfolding o by blast
  let ?buf = "take b (drop s tmp) @ replicate (b - (length tmp - s)) 0"
  have l: "length ?buf = b" by simp
  have v: "?buf ! j = tmp ! (s + j)" if "j < b" "s + j < length tmp" for j
  proof -
    have "j < length tmp - s" using that(2) by linarith
    then show ?thesis using that(1) by (simp add: nth_append)
  qed
  have "load_buffers tmp (8 * b) (8 * rl) (8 * s) (Suc n) = Some (?buf # bufs)"
    using bufs(1) by (simp add: new_block_at)
  moreover have "length ((?buf # bufs) ! i) = b \<and>
      (\<forall>j < b. s + rl * i + j < length tmp \<longrightarrow> (?buf # bufs) ! i ! j = tmp ! (s + rl * i + j))" if "i < Suc n" for i
  proof (cases i)
    case 0
    then show ?thesis using l v by simp
  next
    case (Suc i')
    then have "i' < n" using that by simp
    then show ?thesis using bufs(3) Suc by (simp add: algebra_simps)
  qed
  ultimately show ?case using bufs(2) by (intro exI [of _ "?buf # bufs"]) simp
qed simp

lemma first_reader:
  assumes "length buf = b" "0 < b" "0 < len" "base + len \<le> length tmp" "sorted (take len (drop base tmp))"
    "\<forall>j < b. base + j < length tmp \<longrightarrow> buf ! j = tmp ! (base + j)"
  shows "reader tmp b base len (8 * b) 1 len buf"
proof -
  have v: "buf ! j = tmp ! (base + j)" if "j < b" "j < len" for j
    using assms(4,6) that by simp
  have w: "0 + 1 = len - len + 1 \<and> (0 :: nat) < 1 \<and> 1 \<le> b
      \<and> (\<forall>j < b. 0 + j < len \<longrightarrow> buf ! j = tmp ! (base + 0 + j)) \<and> (8 * b = 8 * (0 + b) \<or> 8 * b = 8 * len \<and> len \<le> 0 + b)"
    using assms(2) v by simp
  show ?thesis unfolding reader_def
  proof (intro conjI impI)
    show "\<exists>w. w + 1 = len - len + 1 \<and> (0 :: nat) < 1 \<and> 1 \<le> b
      \<and> (\<forall>j < b. w + j < len \<longrightarrow> buf ! j = tmp ! (base + w + j)) \<and> (8 * b = 8 * (w + b) \<or> 8 * b = 8 * len \<and> len \<le> w + b)"
      by (rule exI, rule w)
  qed (use assms(1,4,5) in simp_all)
qed

lemma first_values_ok:
  "\<forall>b \<in> set bufs. b \<noteq> [] \<Longrightarrow> \<exists>q. first_values bufs n = Some q \<and> sorted q \<and> distinct q
     \<and> set q = {(bufs ! i ! 0, n + i) |i. i < length bufs}"
proof (induction bufs arbitrary: n)
  case (Cons b bufs)
  have pre: "\<forall>b \<in> set bufs. b \<noteq> []" using Cons.prems by simp
  from Cons.IH [OF pre, of "Suc n"] obtain q where q: "first_values bufs (Suc n) = Some q" "sorted q" "distinct q"
      "set q = {(bufs ! i ! 0, Suc n + i) |i. i < length bufs}" by blast
  have b: "arr_get b 0 = Some (b ! 0)" using Cons.prems by (cases b) (auto simp: arr_get_def)
  have "(b ! 0, n) \<notin> set q" unfolding q(4) by auto
  moreover have "{((b # bufs) ! i ! 0, n + i) |i. i < length (b # bufs)} = insert (b ! 0, n) (set q)"
    unfolding q(4) by (auto simp: less_Suc_eq_0_disj)
  ultimately show ?case using q b by (simp add: set_insort_key distinct_insort sorted_insort)
qed simp

lemma merging_start:
  assumes l: "length (remaining_num_values_run st) = k" "\<forall>i < k. remaining_num_values_run st ! i = len i"
    and r: "\<forall>i < k. run_reader tmp b (base i) (len i) (len i) i st"
    and w: "length (out_file st) = size M" "length (output_buffer st) = ob" "0 < ob" "output_count st = 0" "num_full_writes st = 0"
    and M: "(\<Sum>i<k. mset (take (len i) (drop (base i) tmp))) = M"
  shows "merging tmp b base len k ob M [] st"
proof -
  have "(\<Sum>i<k. mset (rest tmp (base i) (len i) (remaining_num_values_run st ! i))) = M"
    unfolding M [symmetric] by (rule sum.cong) (use l(2) in \<open>auto simp: rest_def\<close>)
  then show ?thesis using l r w by (simp add: merging_def writer_def)
qed

section \<open>The merge of all runs\<close>

lemma sort_unique: "sorted vs \<Longrightarrow> mset vs = mset xs \<Longrightarrow> vs = sort (xs :: 64 word list)"
  using properties_for_sort by metis

lemma kway_merge_ok:
  assumes ok: "runs_ok tmp k rl ll" and m: "k < m" and out: "length out = length tmp"
  shows "kway_merge tmp (8 * length tmp) (8 * m)
     \<lparr>num_runs = k, num_values_run = rl, num_values_last_run = ll, run_size = 8 * rl, last_run_size = 8 * ll\<rparr> out = Some (sort tmp)"
proof -
  note d = runs_okD [OF ok]
  define b where "b = m div (k + 1)"
  define ob where "ob = m - k * b"
  have "8 * m div (k + 1) div 8 = 8 * m div 8 div (k + 1)" by (simp only: div_mult2_eq [symmetric] mult.commute)
  then have bd: "8 * m div (k + 1) div 8 = b" by (simp add: b_def)
  have b0: "0 < b" using m by (simp add: b_def div_greater_zero_iff)
  have kb: "k * b + b \<le> m" using div_times_less_eq_dividend [of m "k + 1"] by (simp add: b_def algebra_simps)
  have ob0: "0 < ob" "k * b + ob = m" using kb b0 by (auto simp: ob_def)
  have obd: "(8 * m - k * (b * 8)) div 8 * 8 = 8 * ob"
  proof -
    have "8 * m - k * (b * 8) = 8 * ob" by (simp add: ob_def algebra_simps diff_mult_distrib2)
    then show ?thesis by simp
  qed
  obtain bufs where bufs: "load_buffers tmp (8 * b) (8 * rl) (8 * 0) k = Some bufs" "length bufs = k"
      "\<forall>i < k. length (bufs ! i) = b \<and> (\<forall>j < b. 0 + rl * i + j < length tmp \<longrightarrow> bufs ! i ! j = tmp ! (0 + rl * i + j))"
    using load_buffers_ok by blast
  have ne: "\<forall>x \<in> set bufs. x \<noteq> []" using bufs(2,3) b0 by (metis in_set_conv_nth list.size(3) less_numeral_extra(3))
  obtain pq where pq: "first_values bufs 0 = Some pq" "sorted pq" "distinct pq" "set pq = {(bufs ! i ! 0, 0 + i) |i. i < length bufs}"
    using first_values_ok [OF ne, of 0] by blast
  define st where "st = \<lparr>next_read_offset_run = replicate k (8 * b), next_push_index_input_buffer = replicate k 1,
     remaining_num_values_run = (replicate k rl)[k - 1 := ll], input_buffers = bufs, output_buffer = replicate ob 0,
     output_count = 0, num_full_writes = 0, out_file = out\<rparr>"
  have rem: "length (remaining_num_values_run st) = k" "\<forall>i < k. remaining_num_values_run st ! i = run_len k rl ll i"
    by (auto simp: st_def nth_list_update)
  have readers: "run_reader tmp b (rl * i) (run_len k rl ll i) (run_len k rl ll i) i st" if i: "i < k" for i
  proof -
    have "reader tmp b (rl * i) (run_len k rl ll i) (8 * b) 1 (run_len k rl ll i) (bufs ! i)"
      using first_reader [of "bufs ! i" b "run_len k rl ll i" "rl * i" tmp] bufs(3) i b0 d(2,3) run_inside [OF ok i] d(5) [OF i] by auto
    then show ?thesis using i bufs(2) by (simp add: st_def at_run_def split del: if_split)
  qed
  have start: "merging tmp b (\<lambda>i. rl * i) (run_len k rl ll) k ob (mset tmp) [] st"
    by (rule merging_start [OF rem]) (use readers out ob0 mset_runs [OF ok] in \<open>simp_all add: st_def\<close>)
  have q: "queue_ok tmp (\<lambda>i. rl * i) (run_len k rl ll) (remaining_num_values_run st) pq"
  proof -
    have hd: "bufs ! i ! 0 = head_value tmp (rl * i) (run_len k rl ll i) (remaining_num_values_run st ! i)
        \<and> remaining_num_values_run st ! i > 0" if "i < k" for i
    proof -
      have "rl * i < length tmp" using run_inside [OF ok that] d(2,3) by (auto split: if_splits)
      then show ?thesis using bufs(3) that b0 rem(2) d(2,3) by (simp add: head_value_def)
    qed
    have "set pq = {(head_value tmp (rl * i) (run_len k rl ll i) (remaining_num_values_run st ! i), i)
        |i. i < length (remaining_num_values_run st) \<and> remaining_num_values_run st ! i > 0}"
      unfolding pq(4) rem(1) bufs(2) using hd by (auto simp del: One_nat_def)
    then show ?thesis using pq(2,3) by (simp add: queue_ok_def)
  qed
  from kway_loop_ok [OF start q] obtain st' vs where
    l: "kway_loop tmp (8 * b) (8 * ob) (8 * rl) (8 * ll) k (pq, st) = Some st'"
      "merging tmp b (\<lambda>i. rl * i) (run_len k rl ll) k ob (mset tmp) vs st'" "\<forall>i < k. remaining_num_values_run st' ! i = 0" by blast
  note e = merging_end [OF l(2,3)]
  have vs: "vs = sort tmp" by (rule sort_unique [OF e(2,1)])
  have args: "b * 8 = 8 * b" "8 * ob div 8 = ob" by simp_all
  have r: "k * (b * 8) \<le> 8 * m" "b * 8 * k + 8 * ob \<le> 8 * m" using ob0(2) by (simp_all add: algebra_simps flip: ob0(2))
  have "kway_merge tmp (8 * length tmp) (8 * m)
     \<lparr>num_runs = k, num_values_run = rl, num_values_last_run = ll, run_size = 8 * rl, last_run_size = 8 * ll\<rparr> out
     = last_write (8 * size (mset tmp)) (8 * ob) st'"
    unfolding kway_merge_def Let_def run_sizes.simps bd obd
    using bufs(1) pq(1) l(1) b0 ob0(1) r by (simp add: st_def args)
  then show ?thesis using e(3) vs by simp
qed

end
