(* ===== verification/External_Passes.thy ===== *)
theory External_Passes
  imports External_Runs
begin

text \<open>The passes of two-way merges: each one halves the number of runs and keeps the values.\<close>

section \<open>The loop over two runs\<close>

definition pointer :: "merge \<Rightarrow> nat \<Rightarrow> nat option" where
  "pointer st i = (if remaining_num_values_run st ! i = 0 then None else Some (next_push_index_input_buffer st ! i - 1))"

lemma pointer_value:
  assumes m: "merging tmp b base len k ob M vs st" and i: "i < k" "remaining_num_values_run st ! i > 0"
  shows "buffer_value i (next_push_index_input_buffer st ! i - 1) st
    = Some (head_value tmp (base i) (len i) (remaining_num_values_run st ! i))"
proof -
  have rd: "run_reader tmp b (base i) (len i) (remaining_num_values_run st ! i) i st" by (rule mergingD(2) [OF m i(1)])
  note h = reader_head [OF conjunct2 [OF rd] i(2)]
  have l: "length (input_buffers st ! i) = b" using rd by (simp add: reader_def)
  have p: "next_push_index_input_buffer st ! i - 1 < b" using h(1,2) by linarith
  have ai: "i < length (input_buffers st)" using rd by (simp add: at_run_def)
  show ?thesis using p l ai h(3) by (simp add: buffer_value_def head_value_def)
qed

lemma smaller_side_ok:
  assumes m: "merging tmp b base len 2 ob M vs st"
    and some: "\<not> (remaining_num_values_run st ! 0 = 0 \<and> remaining_num_values_run st ! 1 = 0)"
  shows "\<exists>ib. smaller_side (pointer st 0) (pointer st 1) st = Some ib \<and> ib < 2 \<and> remaining_num_values_run st ! ib > 0
    \<and> (\<forall>i < 2. remaining_num_values_run st ! i > 0 \<longrightarrow>
        head_value tmp (base ib) (len ib) (remaining_num_values_run st ! ib) \<le> head_value tmp (base i) (len i) (remaining_num_values_run st ! i))"
proof -
  let ?rem = "remaining_num_values_run st"
  have two: "(\<forall>i < 2. P i) \<longleftrightarrow> P 0 \<and> P 1" for P :: "nat \<Rightarrow> bool" by (auto simp: less_2_cases_iff)
  consider "?rem ! 0 = 0" "?rem ! 1 > 0" | "?rem ! 0 > 0" "?rem ! 1 = 0" | "?rem ! 0 > 0" "?rem ! 1 > 0" using some by auto
  then show ?thesis
  proof cases
    case 1
    then show ?thesis unfolding two by (intro exI [of _ 1]) (simp add: smaller_side_def pointer_def)
  next
    case 2
    then show ?thesis unfolding two by (intro exI [of _ 0]) (simp add: smaller_side_def pointer_def)
  next
    case 3
    have v: "buffer_value 0 (next_push_index_input_buffer st ! 0 - 1) st = Some (head_value tmp (base 0) (len 0) (?rem ! 0))"
        "buffer_value 1 (next_push_index_input_buffer st ! 1 - 1) st = Some (head_value tmp (base 1) (len 1) (?rem ! 1))"
      by (rule pointer_value [OF m]; use 3 in simp)+
    show ?thesis
    proof (cases "head_value tmp (base 0) (len 0) (?rem ! 0) < head_value tmp (base 1) (len 1) (?rem ! 1)")
      case True
      then show ?thesis using 3 v unfolding two by (intro exI [of _ 0]) (simp add: smaller_side_def pointer_def)
    next
      case False
      then show ?thesis using 3 v unfolding two by (intro exI [of _ 1]) (simp add: smaller_side_def pointer_def)
    qed
  qed
qed

lemma twoway_loop_ok:
  assumes "merging tmp b (\<lambda>i. rl * i + s) (\<lambda>i. if lst \<and> i = 1 then ll else rl) 2 ob M vs st"
  shows "\<exists>st' vs'. twoway_loop tmp (8 * b) (8 * ob) (8 * rl) (8 * ll) lst (8 * s) ((pointer st 0, pointer st 1), st) = Some st'
    \<and> merging tmp b (\<lambda>i. rl * i + s) (\<lambda>i. if lst \<and> i = 1 then ll else rl) 2 ob M vs' st'
    \<and> (\<forall>i < 2. remaining_num_values_run st' ! i = 0)"
  using assms
proof (induction "sum_list (remaining_num_values_run st)" arbitrary: st vs rule: less_induct)
  case less
  let ?base = "\<lambda>i. rl * i + s" and ?len = "\<lambda>i. if lst \<and> i = 1 then ll else rl" and ?rem = "remaining_num_values_run st"
  note m = less.prems
  show ?case
  proof (cases "?rem ! 0 = 0 \<and> ?rem ! 1 = 0")
    case True
    then have "\<forall>i < 2. ?rem ! i = 0" by (auto simp: less_2_cases_iff)
    then show ?thesis using m True by (subst twoway_loop.simps) (auto simp: pointer_def)
  next
    case False
    from smaller_side_ok [OF m False] obtain ib where ib: "smaller_side (pointer st 0) (pointer st 1) st = Some ib" "ib < 2" "?rem ! ib > 0"
      "\<forall>i < 2. ?rem ! i > 0 \<longrightarrow> head_value tmp (?base ib) (?len ib) (?rem ! ib) \<le> head_value tmp (?base i) (?len i) (?rem ! i)" by blast
    obtain r where r: "?rem ! ib = Suc r" using ib(3) gr0_conv_Suc by blast
    define v where "v = head_value tmp (?base ib) (?len ib) (Suc r)"
    have bv: "buffer_value ib (next_push_index_input_buffer st ! ib - 1) st = Some v"
      using pointer_value [OF m ib(2,3)] r by (simp add: v_def)
    have pt: "(if ib = 0 then pointer st 0 else pointer st 1) = Some (next_push_index_input_buffer st ! ib - 1)"
      using ib(2,3) by (auto simp: pointer_def less_2_cases_iff)
    have nb: "j < length (input_buffers st)" if "j < 2" for j using mergingD(2) [OF m that] by (simp add: at_run_def)
    from merging_step [OF m ib(2) r] ib(4) r obtain st1 st2 where
      s: "consume_value ib st = Some (r, st1)" "output_value v (8 * ob) st1 = Some st2"
        "r = 0 \<Longrightarrow> merging tmp b ?base ?len 2 ob M (vs @ [v]) st2 \<and> advanced ib r st st2"
        "r > 0 \<Longrightarrow> \<exists>i st3. next_index tmp (8 * b) (8 * ?len ib) (8 * ?base ib) ib st2 = Some (i, st3)
          \<and> next_push_index_input_buffer st3 ! ib = Suc i
          \<and> merging tmp b ?base ?len 2 ob M (vs @ [v]) st3 \<and> advanced ib r st st3"
      unfolding v_def by auto
    have args: "8 * rl * ib + 8 * s = 8 * ?base ib" "(if lst \<and> ib = 1 then 8 * ll else 8 * rl) = 8 * ?len ib" by simp_all
    have keep: "pointer st' j = pointer st j" if "advanced ib r st st'" "j < 2" "j \<noteq> ib" for st' j
      using that nb [OF that(2)] by (simp add: advanced_def pointer_def)
    have "\<exists>st3. twoway_step tmp (8 * b) (8 * ob) (8 * rl) (8 * ll) lst (8 * s) ((pointer st 0, pointer st 1), st)
        = Some ((pointer st3 0, pointer st3 1), st3) \<and> merging tmp b ?base ?len 2 ob M (vs @ [v]) st3"
    proof (cases "r = 0")
      case True
      note a = s(3) [OF True]
      have "pointer st2 ib = None" using a mergingD(1) [OF m] ib(2) True by (simp add: advanced_def pointer_def)
      then have "(if ib = 0 then (None, pointer st 1) else (pointer st 0, None)) = (pointer st2 0, pointer st2 1)"
        using keep [OF conjunct2 [OF a]] ib(2) by (auto simp: less_2_cases_iff)
      then show ?thesis using s(1,2) a True ib(1) bv pt by (auto simp: twoway_step_def)
    next
      case False
      then obtain i st3 where n: "next_index tmp (8 * b) (8 * ?len ib) (8 * ?base ib) ib st2 = Some (i, st3)"
          "next_push_index_input_buffer st3 ! ib = Suc i"
          "merging tmp b ?base ?len 2 ob M (vs @ [v]) st3" "advanced ib r st st3" using s(4) by blast
      have "pointer st3 ib = Some i" using n(2,4) mergingD(1) [OF m] ib(2) False by (simp add: advanced_def pointer_def)
      then have c: "(if ib = 0 then (Some i, pointer st 1) else (pointer st 0, Some i)) = (pointer st3 0, pointer st3 1)"
        using keep [OF n(4)] ib(2) by (auto simp: less_2_cases_iff)
      have n': "next_index tmp (8 * b) (if lst \<and> ib = 1 then 8 * ll else 8 * rl) (8 * rl * ib + 8 * s) ib st2 = Some (i, st3)"
        unfolding args by (rule n(1))
      have "twoway_step tmp (8 * b) (8 * ob) (8 * rl) (8 * ll) lst (8 * s) ((pointer st 0, pointer st 1), st)
          = Some ((pointer st3 0, pointer st3 1), st3)"
        using s(1,2) n' False ib(1) bv pt [unfolded One_nat_def] c [unfolded One_nat_def]
        by (simp add: twoway_step_def split del: if_split)
      then show ?thesis using n(3) by blast
    qed
    then obtain st3 where t: "twoway_step tmp (8 * b) (8 * ob) (8 * rl) (8 * ll) lst (8 * s) ((pointer st 0, pointer st 1), st)
        = Some ((pointer st3 0, pointer st3 1), st3)" "merging tmp b ?base ?len 2 ob M (vs @ [v]) st3" by blast
    have "(pointer st 0, pointer st 1) \<noteq> (None, None)" using False by (auto simp: pointer_def)
    then have "twoway_loop tmp (8 * b) (8 * ob) (8 * rl) (8 * ll) lst (8 * s) ((pointer st 0, pointer st 1), st)
        = twoway_loop tmp (8 * b) (8 * ob) (8 * rl) (8 * ll) lst (8 * s) ((pointer st3 0, pointer st3 1), st3)"
      using t(1) by (subst twoway_loop.simps) (simp del: prod.inject)
    then show ?thesis using less.hyps [OF twoway_step_less [OF t(1)] t(2)] by simp
  qed
qed

section \<open>One iteration\<close>

definition sorted_part_of :: "64 word list \<Rightarrow> nat \<Rightarrow> nat \<Rightarrow> 64 word list" where
  "sorted_part_of tmp s n = take s tmp @ sort (take n (drop s tmp)) @ drop (s + n) tmp"

lemma sorted_part_props:
  assumes "s + n \<le> length tmp"
  shows "length (sorted_part_of tmp s n) = length tmp" "mset (sorted_part_of tmp s n) = mset tmp"
    "take n (drop s (sorted_part_of tmp s n)) = sort (take n (drop s tmp))"
    "a + l \<le> s \<Longrightarrow> take l (drop a (sorted_part_of tmp s n)) = take l (drop a tmp)"
    "s + n \<le> a \<Longrightarrow> take l (drop a (sorted_part_of tmp s n)) = take l (drop a tmp)"
proof -
  have l: "length (take s tmp) = s" "length (sort (take n (drop s tmp))) = n" using assms by simp_all
  have e: "take s tmp @ take n (drop s tmp) @ drop (s + n) tmp = tmp"
    by (metis add.commute append_take_drop_id drop_drop)
  show "length (sorted_part_of tmp s n) = length tmp" using assms by (simp add: sorted_part_of_def)
  have "mset (sorted_part_of tmp s n) = mset (take s tmp @ take n (drop s tmp) @ drop (s + n) tmp)"
    by (simp add: sorted_part_of_def)
  then show "mset (sorted_part_of tmp s n) = mset tmp" by (simp only: e)
  have "drop s (sorted_part_of tmp s n) = sort (take n (drop s tmp)) @ drop (s + n) tmp"
    unfolding sorted_part_of_def using l(1) by (metis append_eq_conv_conj)
  then show "take n (drop s (sorted_part_of tmp s n)) = sort (take n (drop s tmp))"
    using l(2) by (metis append_eq_conv_conj)
  show "take l (drop a (sorted_part_of tmp s n)) = take l (drop a tmp)" if "a + l \<le> s"
    using that assms by (intro nth_equalityI) (auto simp: sorted_part_of_def nth_append)
  show "take l (drop a (sorted_part_of tmp s n)) = take l (drop a tmp)" if "s + n \<le> a"
    using that assms by (intro nth_equalityI) (auto simp: sorted_part_of_def nth_append)
qed

abbreviation sizes_of :: "nat \<Rightarrow> nat \<Rightarrow> nat \<Rightarrow> run_sizes" where
  "sizes_of k rl ll \<equiv> \<lparr>num_runs = k, num_values_run = rl, num_values_last_run = ll, run_size = 8 * rl, last_run_size = 8 * ll\<rparr>"

lemma merge_pair_ok:
  assumes b: "0 < b" "0 < ob" and it: "lst = (it = n - 1)" "s = rl * 2 * it + (if lst \<and> k mod 2 \<noteq> 0 then rl else 0)"
    and len: "ll' = (if lst then ll else rl)" "0 < rl" "0 < ll'" "s + rl + ll' \<le> length tmp"
    and srt: "sorted (take rl (drop s tmp))" "sorted (take ll' (drop (s + rl) tmp))"
  shows "merge_pair (8 * b) (8 * ob) n it (sizes_of k rl ll) tmp = Some (sorted_part_of tmp s (rl + ll'))"
proof -
  let ?base = "\<lambda>i. rl * i + s" and ?len = "\<lambda>i :: nat. if lst \<and> i = 1 then ll else rl"
  define part where "part = take (rl + ll') (drop s tmp)"
  have two: "(\<forall>i < 2. P i) \<longleftrightarrow> P 0 \<and> P 1" for P :: "nat \<Rightarrow> bool" by (auto simp: less_2_cases_iff)
  have l1: "?len 0 = rl" "?len 1 = ll'" using len(1) by simp_all
  obtain bufs where bufs: "load_buffers tmp (8 * b) (8 * rl) (8 * s) 2 = Some bufs" "length bufs = 2"
      "\<forall>i < 2. length (bufs ! i) = b \<and> (\<forall>j < b. s + rl * i + j < length tmp \<longrightarrow> bufs ! i ! j = tmp ! (s + rl * i + j))"
    using load_buffers_ok by blast
  have size: "(if lst then 8 * rl + 8 * ll else 2 * (8 * rl)) = 8 * (rl + ll')" using len(1) by simp
  have base: "8 * rl * 2 * it + (if lst \<and> k mod 2 \<noteq> 0 then 8 * rl else 0) = 8 * s" using it(2) by simp
  define st where "st = \<lparr>next_read_offset_run = [8 * b, 8 * b], next_push_index_input_buffer = [1, 1],
     remaining_num_values_run = [rl, ll'], input_buffers = bufs, output_buffer = replicate ob 0,
     output_count = 0, num_full_writes = 0, out_file = file_resize (8 * (rl + ll')) []\<rparr>"
  have rem: "length (remaining_num_values_run st) = 2" "\<forall>i < 2. remaining_num_values_run st ! i = ?len i"
    unfolding two l1 by (simp_all add: st_def)
  have rd: "reader tmp b (?base i) (?len i) (8 * b) 1 (?len i) (bufs ! i)" if "i < 2" for i
    using that bufs(3) b len(2-4) srt l1 unfolding less_2_cases_iff
    by (elim disjE) (rule first_reader; simp add: add.commute)+
  have f: "next_read_offset_run st ! i = 8 * b \<and> next_push_index_input_buffer st ! i = 1 \<and> at_run i st" if "i < 2" for i
    using that bufs(2) by (auto simp: st_def at_run_def less_2_cases_iff)
  have "input_buffers st = bufs" by (simp add: st_def)
  then have readers: "\<forall>i < 2. run_reader tmp b (?base i) (?len i) (?len i) i st"
    using rd f by (simp split del: if_split)
  have parts: "(\<Sum>i<2. mset (take (?len i) (drop (?base i) tmp))) = mset part"
  proof -
    have "part = take rl (drop s tmp) @ take ll' (drop (rl + s) tmp)"
      by (simp add: part_def take_add)
    then show ?thesis using l1 by (simp add: numeral_2_eq_2)
  qed
  have sz: "size (mset part) = rl + ll'" using len(4) by (simp add: part_def)
  have start: "merging tmp b ?base ?len 2 ob (mset part) [] st"
    by (rule merging_start [OF rem readers]) (use b sz parts in \<open>simp_all add: st_def file_resize_def\<close>)
  have ptr: "pointer st 0 = Some 0" "pointer st 1 = Some 0" using len(2,3) by (simp_all add: pointer_def st_def)
  from twoway_loop_ok [OF start, unfolded ptr] obtain st' vs where
    l: "twoway_loop tmp (8 * b) (8 * ob) (8 * rl) (8 * ll) lst (8 * s) ((Some 0, Some 0), st) = Some st'"
      "merging tmp b ?base ?len 2 ob (mset part) vs st'" "\<forall>i < 2. remaining_num_values_run st' ! i = 0" by blast
  note e = merging_end [OF l(2,3)]
  have vs: "vs = sort part" by (rule sort_unique [OF e(2,1)])
  have lw: "last_write (8 * (rl + ll')) (8 * ob) st' = Some (sort part)" using e(3) sz vs by simp
  have lv: "length (sort part) = rl + ll'" using sz by simp
  have nb: "new_block (sort part) 0 (8 * (rl + ll')) = Some (sort part)"
    using new_block_at [of "sort part" 0 "rl + ll'"] lv by simp
  have wb: "write_block (sort part) (8 * s) (8 * (rl + ll')) tmp = Some (sorted_part_of tmp s (rl + ll'))"
    using len(4) lv by (simp add: write_block_def memcpy_def sorted_part_of_def part_def)
  have args: "8 * ob div 8 = ob" by simp
  show ?thesis
    unfolding merge_pair_def Let_def run_sizes.simps it(1) [symmetric] size base
    using bufs(1) l(1) lw nb wb len(1) by (simp add: st_def args)
qed

section \<open>One pass\<close>

text \<open>After \<open>it\<close> of \<open>n\<close> iterations the first \<open>2 * it\<close> runs have been merged in pairs.\<close>

definition pass_inv :: "nat \<Rightarrow> nat \<Rightarrow> nat \<Rightarrow> nat \<Rightarrow> nat \<Rightarrow> 64 word list \<Rightarrow> bool" where
  "pass_inv n it k rl ll tmp \<longleftrightarrow> 0 < rl \<and> 0 < ll \<and> 0 < n \<and> n = k div 2 \<and> it \<le> n \<and> (it = n \<longrightarrow> k = 2 * n)
     \<and> length tmp = rl * (k - 1) + ll
     \<and> (\<forall>i < it. sorted (take (if i = n - 1 then rl + ll else 2 * rl) (drop (2 * rl * i) tmp)))
     \<and> (\<forall>i. 2 * it \<le> i \<longrightarrow> i < k \<longrightarrow> sorted (take (run_len k rl ll i) (drop (rl * i) tmp)))"

lemma pass_invD:
  assumes "pass_inv n it k rl ll tmp"
  shows "0 < rl" "0 < ll" "0 < n" "n = k div 2" "it \<le> n" "it = n \<Longrightarrow> k = 2 * n" "length tmp = rl * (k - 1) + ll"
    "i < it \<Longrightarrow> sorted (take (if i = n - 1 then rl + ll else 2 * rl) (drop (2 * rl * i) tmp))"
    "2 * it \<le> i \<Longrightarrow> i < k \<Longrightarrow> sorted (take (run_len k rl ll i) (drop (rl * i) tmp))"
  using assms unfolding pass_inv_def by blast+

lemma earlier_pairs:
  assumes inv: "pass_inv n it k rl ll tmp" and it: "it < n" and s: "rl * 2 * it \<le> s" "s + m \<le> length tmp" and i: "i < it"
  shows "sorted (take (if i = n - 1 then x else 2 * rl) (drop (2 * rl * i) (sorted_part_of tmp s m)))"
proof -
  have "rl * 2 * Suc i \<le> rl * 2 * it" using i by (intro mult_le_mono2) simp
  then have "2 * rl * i + 2 * rl \<le> s" using s(1) by (simp add: algebra_simps)
  then have "take (2 * rl) (drop (2 * rl * i) (sorted_part_of tmp s m)) = take (2 * rl) (drop (2 * rl * i) tmp)"
    by (rule sorted_part_props(4) [OF s(2)])
  moreover have "i \<noteq> n - 1" using i it by simp
  ultimately show ?thesis using pass_invD(8) [OF inv i] by simp
qed

lemma pass_even:
  assumes inv: "pass_inv n it k rl ll tmp" and it: "it < n" "\<not> (it = n - 1 \<and> k mod 2 \<noteq> 0)"
  defines "ll' \<equiv> (if it = n - 1 then ll else rl)"
  shows "rl * 2 * it + rl + ll' \<le> length tmp" "sorted (take rl (drop (rl * 2 * it) tmp))"
    "sorted (take ll' (drop (rl * 2 * it + rl) tmp))"
    "pass_inv n (Suc it) k rl ll (sorted_part_of tmp (rl * 2 * it) (rl + ll'))"
proof -
  note d = pass_invD [OF inv]
  have k: "it = n - 1 \<Longrightarrow> k = 2 * it + 2" "it \<noteq> n - 1 \<Longrightarrow> 2 * it + 2 \<le> k - 2" using it d(3,4) by auto
  have b: "rl * 2 * it = rl * (2 * it)" "rl * 2 * it + rl = rl * (2 * it + 1)" by (simp_all add: algebra_simps)
  show bound: "rl * 2 * it + rl + ll' \<le> length tmp"
  proof (cases "it = n - 1")
    case True
    then show ?thesis using d(7) k(1) unfolding b(2) by (simp add: ll'_def)
  next
    case False
    then have "rl * (2 * it + 2) \<le> rl * (k - 1)" using k(2) by (intro mult_le_mono2) simp
    then show ?thesis using False d(7) by (simp add: ll'_def algebra_simps)
  qed
  have "2 * it \<noteq> k - 1" "2 * it < k" "2 * it + 1 < k" "2 * it + 1 = k - 1 \<longleftrightarrow> it = n - 1" using k d(3,4) it by auto
  then have "sorted (take rl (drop (rl * (2 * it)) tmp))" "sorted (take ll' (drop (rl * (2 * it + 1)) tmp))"
    using d(9) [of "2 * it"] d(9) [of "2 * it + 1"] by (simp_all add: ll'_def del: mult_Suc_right add_mult_distrib2)
  then show "sorted (take rl (drop (rl * 2 * it) tmp))" "sorted (take ll' (drop (rl * 2 * it + rl) tmp))"
    by (simp_all only: b(2)) (simp add: mult.assoc)
  let ?tmp = "sorted_part_of tmp (rl * 2 * it) (rl + ll')"
  have bound': "rl * 2 * it + (rl + ll') \<le> length tmp" using bound by simp
  note p = sorted_part_props [OF bound']
  show "pass_inv n (Suc it) k rl ll ?tmp"
    unfolding pass_inv_def
  proof (intro conjI allI impI)
    show "0 < rl" "0 < ll" "0 < n" "n = k div 2" "Suc it \<le> n" using d(1-4) it(1) by simp_all
    show "k = 2 * n" if "Suc it = n" using that k(1) by auto
    show "length ?tmp = rl * (k - 1) + ll" using p(1) d(7) by simp
    show "sorted (take (if i = n - 1 then rl + ll else 2 * rl) (drop (2 * rl * i) ?tmp))" if "i < Suc it" for i
    proof (cases "i = it")
      case True
      have c: "(if it = n - 1 then rl + ll else 2 * rl) = rl + ll'" "2 * rl * it = rl * 2 * it" by (simp_all add: ll'_def)
      show ?thesis unfolding True c p(3) by simp
    next
      case False
      then show ?thesis using earlier_pairs [OF inv it(1) _ bound'] that by simp
    qed
    show "sorted (take (run_len k rl ll i) (drop (rl * i) ?tmp))" if i: "2 * Suc it \<le> i" "i < k" for i
    proof -
      have "it \<noteq> n - 1" using i k(1) by auto
      then have l: "rl + ll' = 2 * rl" by (simp add: ll'_def)
      have "rl * (2 * it + 2) \<le> rl * i" using i by (intro mult_le_mono2) simp
      then have "rl * 2 * it + (rl + ll') \<le> rl * i" unfolding l by (simp add: algebra_simps)
      from p(5) [OF this] show ?thesis using d(9) [of i] i by simp
    qed
  qed
qed

lemma pass_odd:
  assumes inv: "pass_inv n it k rl ll tmp" and it: "it = n - 1" "k mod 2 \<noteq> 0"
  shows "rl * 2 * it + rl + rl + ll \<le> length tmp" "sorted (take rl (drop (rl * 2 * it + rl) tmp))"
    "sorted (take ll (drop (rl * 2 * it + rl + rl) tmp))"
    "pass_inv n it (k - 1) rl (ll + rl) (sorted_part_of tmp (rl * 2 * it + rl) (rl + ll))"
proof -
  note d = pass_invD [OF inv]
  have k: "k = 2 * it + 3" "n = it + 1" using it d(3,4) by presburger+
  have b: "rl * 2 * it = rl * (2 * it)" "rl * 2 * it + rl = rl * (2 * it + 1)" "rl * 2 * it + rl + rl = rl * (2 * it + 2)"
    by (simp_all add: algebra_simps)
  show bound: "rl * 2 * it + rl + rl + ll \<le> length tmp" unfolding b d(7) by (simp add: k)
  have "sorted (take rl (drop (rl * (2 * it + 1)) tmp))" "sorted (take ll (drop (rl * (2 * it + 2)) tmp))"
    using d(9) [of "2 * it + 1"] d(9) [of "2 * it + 2"] k(1) by simp_all
  then show "sorted (take rl (drop (rl * 2 * it + rl) tmp))" "sorted (take ll (drop (rl * 2 * it + rl + rl) tmp))"
    by (simp only: b(2), simp only: b(3))
  let ?s = "rl * 2 * it + rl"
  let ?tmp = "sorted_part_of tmp ?s (rl + ll)"
  have bound': "?s + (rl + ll) \<le> length tmp" using bound by simp
  note p = sorted_part_props [OF bound']
  show "pass_inv n it (k - 1) rl (ll + rl) ?tmp"
    unfolding pass_inv_def
  proof (intro conjI allI impI)
    show "0 < rl" "0 < ll + rl" "0 < n" "n = (k - 1) div 2" "it \<le> n" using d(1-3) k by simp_all
    show "k - 1 = 2 * n" if "it = n" using that k by simp
    show "length ?tmp = rl * (k - 1 - 1) + (ll + rl)" unfolding p(1) d(7) by (simp add: k algebra_simps)
    show "sorted (take (if i = n - 1 then rl + (ll + rl) else 2 * rl) (drop (2 * rl * i) ?tmp))" if "i < it" for i
      using earlier_pairs [OF inv _ _ bound' that] k by simp
    show "sorted (take (run_len (k - 1) rl (ll + rl) i) (drop (rl * i) ?tmp))" if i: "2 * it \<le> i" "i < k - 1" for i
    proof (cases "i = 2 * it")
      case True
      have "rl * i + rl \<le> ?s" using True by simp
      from p(4) [OF this] show ?thesis using d(9) [of i] True k by simp
    next
      case False
      then have "i = 2 * it + 1" using i k by simp
      then have "rl * i = ?s" "run_len (k - 1) rl (ll + rl) i = rl + ll" using b k by simp_all
      then show ?thesis using p(3) by simp
    qed
  qed
qed

lemma merge_pass_ok:
  assumes b: "0 < b" "0 < ob" and inv: "pass_inv n it k rl ll tmp"
  shows "\<exists>ll' tmp'. merge_pass (8 * b) (8 * ob) n it (sizes_of k rl ll) tmp = Some (sizes_of (2 * n) rl ll', tmp')
    \<and> pass_inv n n (2 * n) rl ll' tmp' \<and> mset tmp' = mset tmp"
  using inv
proof (induction "2 * (n - it) + k mod 2" arbitrary: it k ll tmp rule: less_induct)
  case less
  note d = pass_invD [OF less.prems]
  show ?case
  proof (cases "it < n")
    case False
    then have "it = n" "k = 2 * n" using d(5,6) by simp_all
    then show ?thesis using less.prems by (subst merge_pass.simps) simp
  next
    case lt: True
    show ?thesis
    proof (cases "it = n - 1 \<and> k mod 2 \<noteq> 0")
      case True
      note o = pass_odd [OF less.prems conjunct1 [OF True] conjunct2 [OF True]]
      let ?tmp = "sorted_part_of tmp (rl * 2 * it + rl) (rl + ll)"
      have mp: "merge_pair (8 * b) (8 * ob) n it (sizes_of k rl ll) tmp = Some ?tmp"
        by (rule merge_pair_ok [OF b, where lst = True]) (use True o(1-3) d(1,2) in simp_all)
      have c: "it = n - 1 \<and> num_runs (sizes_of k rl ll) mod 2 \<noteq> 0" using True by simp
      have sz: "(sizes_of k rl ll)\<lparr>num_runs := num_runs (sizes_of k rl ll) - 1,
          last_run_size := last_run_size (sizes_of k rl ll) + run_size (sizes_of k rl ll),
          num_values_last_run := num_values_last_run (sizes_of k rl ll) + num_values_run (sizes_of k rl ll)\<rparr> = sizes_of (k - 1) rl (ll + rl)"
        by (simp add: add_mult_distrib2)
      have "merge_pass (8 * b) (8 * ob) n it (sizes_of k rl ll) tmp = merge_pass (8 * b) (8 * ob) n it (sizes_of (k - 1) rl (ll + rl)) ?tmp"
        using merge_pass_odd [OF lt mp c] unfolding sz .
      moreover have "2 * (n - it) + (k - 1) mod 2 < 2 * (n - it) + k mod 2"
      proof -
        have "k mod 2 = 1" using True by simp
        moreover from this have "(k - 1) mod 2 = 0" by presburger
        ultimately show ?thesis by simp
      qed
      moreover have "mset ?tmp = mset tmp" using sorted_part_props(2) [of "rl * 2 * it + rl" "rl + ll" tmp] o(1) by simp
      ultimately show ?thesis using less.hyps [OF _ o(4)] by simp
    next
      case False
      define ll' where "ll' = (if it = n - 1 then ll else rl)"
      note e = pass_even [OF less.prems lt False, folded ll'_def]
      let ?tmp = "sorted_part_of tmp (rl * 2 * it) (rl + ll')"
      have mp: "merge_pair (8 * b) (8 * ob) n it (sizes_of k rl ll) tmp = Some ?tmp"
        by (rule merge_pair_ok [OF b, where lst = "it = n - 1" and ll' = ll']) (use False e(1-3) d(1,2) in \<open>simp_all add: ll'_def split: if_splits\<close>)
      have "merge_pass (8 * b) (8 * ob) n it (sizes_of k rl ll) tmp = merge_pass (8 * b) (8 * ob) n (Suc it) (sizes_of k rl ll) ?tmp"
        using merge_pass_even [OF lt mp] False by simp
      moreover have "2 * (n - Suc it) + k mod 2 < 2 * (n - it) + k mod 2" using lt by simp
      moreover have "mset ?tmp = mset tmp" using sorted_part_props(2) [of "rl * 2 * it" "rl + ll'" tmp] e(1) by simp
      ultimately show ?thesis using less.hyps [OF _ e(4)] by simp
    qed
  qed
qed

end
