(* ===== verification/External_Sort_Correct.thy ===== *)
theory External_Sort_Correct
  imports External_Passes
begin

text \<open>The external sort sorts, whichever way it goes.\<close>

section \<open>The assertion between the phases\<close>

lemma runs_prefix_sorted:
  assumes ok: "runs_ok tmp k rl ll" and l: "l \<le> rl"
  shows "sorted (take l (drop (rl * i) tmp))"
proof (cases "i < k - 1")
  case True
  then have "sorted (take rl (drop (rl * i) tmp))" using runs_okD(5) [OF ok, of i] by simp
  then have "sorted (take l (take rl (drop (rl * i) tmp)))" by (rule sorted_wrt_take)
  then show ?thesis using l by (simp add: min_def)
next
  case False
  have "take ll (drop (rl * (k - 1)) tmp) = drop (rl * (k - 1)) tmp" using runs_okD(4) [OF ok] by simp
  then have "sorted (drop (rl * (k - 1)) tmp)" using runs_okD(5) [OF ok, of "k - 1"] runs_okD(1) [OF ok] by simp
  then have "sorted (drop (rl * (i - (k - 1))) (drop (rl * (k - 1)) tmp))" by (rule sorted_wrt_drop)
  moreover have "rl * (i - (k - 1)) + rl * (k - 1) = rl * i" using False by (simp flip: add_mult_distrib2)
  ultimately show ?thesis by (simp add: sorted_wrt_take)
qed

lemma run_counts:
  assumes "0 < rl" "0 < n"
  defines "q \<equiv> (n - 1) div rl + 1"
  shows "num_runs_of (8 * n) (8 * rl) = q" "last_run_of (8 * n) (8 * rl) = 8 * (n - (q - 1) * rl)"
    "(q - 1) * rl < n" "n \<le> q * rl" "0 < q"
proof -
  have "(8 * n - 1) div (8 * rl) = (8 * n - 1) div 8 div rl" by (rule div_mult2_eq)
  also have "(8 * n - 1) div 8 = n - 1" using assms(2) by simp
  finally show q: "num_runs_of (8 * n) (8 * rl) = q" by (simp add: num_runs_of_def q_def)
  show b: "(q - 1) * rl < n" 
  proof -
    have "(q - 1) * rl \<le> n - 1" by (simp add: q_def)
    then show ?thesis using assms(2) by linarith
  qed
  have "n - 1 < (n - 1) div rl * rl + rl" using div_mod_decomp [of "n - 1" rl] mod_less_divisor [OF assms(1), of "n - 1"] by linarith
  then show b': "n \<le> q * rl" using assms(2) by (simp add: q_def)
  show "0 < q" by (simp add: q_def)
  then have e: "q * rl = (q - 1) * rl + rl" by (cases q) simp_all
  have "8 * n = q * (8 * rl) \<longleftrightarrow> n = q * rl" by simp
  moreover have "8 * n - (q - 1) * (8 * rl) = 8 * (n - (q - 1) * rl)" by (simp add: diff_mult_distrib2)
  moreover have "n = q * rl \<Longrightarrow> n - (q - 1) * rl = rl" using e by simp
  ultimately show "last_run_of (8 * n) (8 * rl) = 8 * (n - (q - 1) * rl)"
    unfolding last_run_of_def q Let_def by (simp only: if_split) metis
qed

lemma sort_phase_done_ok:
  assumes ok: "runs_ok tmp k rl ll" and n: "length tmp = n"
  shows "sort_phase_done tmp n (8 * rl) = Some True"
proof -
  have n0: "0 < n" using runs_okD(3,4) [OF ok] n by simp
  define q where "q = (n - 1) div rl + 1"
  note c = run_counts [OF runs_okD(2) [OF ok] n0, folded q_def]
  have e: "q * rl = (q - 1) * rl + rl" using c(5) by (cases q) simp_all
  have l: "n - (q - 1) * rl \<le> rl" using c(4) e by simp
  have s: "sorted (take j (drop (i * rl) tmp))" if "j \<le> rl" for i j
    using runs_prefix_sorted [OF ok that, of i] by (simp add: mult.commute)
  have nb: "new_block tmp 0 (8 * n) = Some tmp" using new_block_at [of tmp 0 n] n by simp
  show ?thesis
    using s l nb n by (simp add: sort_phase_done_def file_size_def mult.commute [of n 8] c(1,2) list_all_iff)
qed

section \<open>The passes\<close>

lemma pass_start:
  assumes ok: "runs_ok tmp k rl ll" and k: "2 < k"
  shows "pass_inv (k div 2) 0 k rl ll tmp"
  using runs_okD [OF ok] k by (simp add: pass_inv_def)

lemma pass_end:
  assumes "pass_inv n n (2 * n) rl ll tmp"
  shows "runs_ok tmp n (2 * rl) (ll + rl)"
proof -
  note d = pass_invD [OF assms]
  have "rl * (2 * n - 1) + ll = 2 * rl * (n - 1) + (ll + rl)" using d(3) by (cases n) simp_all
  moreover have "sorted (take (run_len n (2 * rl) (ll + rl) i) (drop (2 * rl * i) tmp))" if "i < n" for i
    using d(8) [OF that] by (simp add: add.commute split: if_splits)
  ultimately show ?thesis using d(1,2,3,7) by (simp add: runs_ok_def)
qed

lemma merge_passes_ok:
  assumes b: "0 < b" "0 < ob"
  shows "runs_ok tmp k rl ll \<Longrightarrow> length tmp = n \<Longrightarrow>
    \<exists>k' rl' ll' tmp'. merge_passes (8 * b) (8 * ob) n (sizes_of k rl ll) tmp = Some (sizes_of k' rl' ll', tmp')
      \<and> runs_ok tmp' k' rl' ll' \<and> k' \<le> 2 \<and> mset tmp' = mset tmp"
proof (induction k arbitrary: rl ll tmp rule: less_induct)
  case (less k)
  show ?case
  proof (cases "2 < k")
    case False
    then show ?thesis using less.prems by (subst merge_passes.simps) auto
  next
    case True
    from merge_pass_ok [OF b pass_start [OF less.prems(1) True]] obtain ll1 tmp1 where
      p: "merge_pass (8 * b) (8 * ob) (k div 2) 0 (sizes_of k rl ll) tmp = Some (sizes_of (2 * (k div 2)) rl ll1, tmp1)"
        "pass_inv (k div 2) (k div 2) (2 * (k div 2)) rl ll1 tmp1" "mset tmp1 = mset tmp" by blast
    note e = pass_end [OF p(2)]
    have n: "length tmp1 = n" using p(3) less.prems(2) by (metis size_mset)
    have d: "double_runs (sizes_of (2 * (k div 2)) rl ll1) = sizes_of (k div 2) (2 * rl) (ll1 + rl)"
      by (simp add: double_runs_def add_mult_distrib2)
    have phase: "sort_phase_done tmp1 n (8 * (2 * rl)) = Some True" by (rule sort_phase_done_ok [OF e n])
    have "merge_passes (8 * b) (8 * ob) n (sizes_of k rl ll) tmp = merge_passes (8 * b) (8 * ob) n (sizes_of (k div 2) (2 * rl) (ll1 + rl)) tmp1"
      using True p(1) phase by (subst merge_passes.simps) (simp add: d Let_def del: mult_numeral_left_semiring_numeral)
    then show ?thesis using less.IH [OF _ e n] True p(3) by simp
  qed
qed

lemma not_full_way_merge_ok:
  assumes ok: "runs_ok tmp k rl ll" and m: "3 \<le> m" and n: "length tmp = n"
  shows "\<exists>k' rl' ll' tmp'. not_full_way_merge tmp n (8 * m) (sizes_of k rl ll) = Some (sizes_of k' rl' ll', tmp')
      \<and> runs_ok tmp' k' rl' ll' \<and> k' \<le> 2 \<and> mset tmp' = mset tmp"
proof -
  define b where "b = m div 3"
  have "8 * m div 3 div 8 = 8 * m div 8 div 3" by (simp only: div_mult2_eq [symmetric] mult.commute)
  then have bd: "8 * m div 3 div 8 = b" by (simp add: b_def)
  have b0: "0 < b" "0 < m - 2 * b" "2 * b \<le> m" using m by (auto simp: b_def)
  have "8 * m - 2 * (b * 8) = 8 * (m - 2 * b)" by (simp add: diff_mult_distrib2)
  then have obd: "(8 * m - 2 * (b * 8)) div 8 = m - 2 * b" by simp
  have args: "b * 8 = 8 * b" "(m - 2 * b) * 8 = 8 * (m - 2 * b)" by simp_all
  have "not_full_way_merge tmp n (8 * m) (sizes_of k rl ll) = merge_passes (8 * b) (8 * (m - 2 * b)) n (sizes_of k rl ll) tmp"
    unfolding not_full_way_merge_def Let_def bd obd using b0 by (simp add: args)
  then show ?thesis using merge_passes_ok [OF b0(1,2) ok n] by simp
qed

section \<open>The sorting phase\<close>

definition sorted_blocks :: "64 word list \<Rightarrow> 64 word list \<Rightarrow> nat \<Rightarrow> nat \<Rightarrow> bool" where
  "sorted_blocks inp tmp m j \<longleftrightarrow> mset (take (m * j) tmp) = mset (take (m * j) inp) \<and> (\<forall>i < j. sorted (take m (drop (m * i) tmp)))"

lemma write_block_at:
  assumes "s + n \<le> length f" "length xs = n"
  shows "write_block xs (8 * s) (8 * n) f = Some (take s f @ xs @ drop (s + n) f)"
  using assms by (simp add: write_block_def memcpy_def)

lemma take_block_prefix:
  assumes "a + l \<le> s" "s \<le> length xs"
  shows "take l (drop a (take s xs @ ys)) = take l (drop a xs)"
proof -
  have "take l (drop a (take s xs @ ys)) = take l (drop a (take s xs))" using assms by simp
  also have "\<dots> = take l (drop a xs)" using assms(1) by (simp add: drop_take min_def)
  finally show ?thesis .
qed

text \<open>A sorted copy of the next block of the input.\<close>

lemma sort_block:
  assumes inv: "sorted_blocks inp tmp m j" and l: "m * j + n \<le> length tmp" "length tmp \<le> length inp"
  defines "tmp' \<equiv> take (m * j) tmp @ sort (take n (drop (m * j) inp)) @ drop (m * j + n) tmp"
  shows "length tmp' = length tmp" "mset (take (m * j + n) tmp') = mset (take (m * j + n) inp)"
    "\<forall>i < j. sorted (take m (drop (m * i) tmp'))" "sorted (take n (drop (m * j) tmp'))"
    "new_block inp (8 * (m * j)) (8 * n) = Some (take n (drop (m * j) inp))"
    "write_block (sort (take n (drop (m * j) inp))) (8 * (m * j)) (8 * n) tmp = Some tmp'"
proof -
  let ?s = "sort (take n (drop (m * j) inp))"
  have ls: "length ?s = n" "length (take (m * j) tmp) = m * j" using l by simp_all
  show "length tmp' = length tmp" using l by (simp add: tmp'_def)
  have "take (m * j + n) tmp' = take (m * j) tmp @ ?s" unfolding tmp'_def using ls by (simp add: append_eq_conv_conj)
  then show "mset (take (m * j + n) tmp') = mset (take (m * j + n) inp)"
    using inv by (simp add: sorted_blocks_def take_add)
  show "\<forall>i < j. sorted (take m (drop (m * i) tmp'))"
  proof (intro allI impI)
    fix i assume i: "i < j"
    then have "m * Suc i \<le> m * j" by (intro mult_le_mono2) simp
    then have "take m (drop (m * i) tmp') = take m (drop (m * i) tmp)"
      using l take_block_prefix [of "m * i" m "m * j" tmp] by (simp add: tmp'_def add.commute)
    then show "sorted (take m (drop (m * i) tmp'))" using inv i by (simp add: sorted_blocks_def)
  qed
  have "drop (m * j) tmp' = ?s @ drop (m * j + n) tmp" unfolding tmp'_def using ls(2) by (metis append_eq_conv_conj)
  then have "take n (drop (m * j) tmp') = ?s" using ls(1) by (metis append_eq_conv_conj)
  then show "sorted (take n (drop (m * j) tmp'))" by simp
  show "new_block inp (8 * (m * j)) (8 * n) = Some (take n (drop (m * j) inp))"
    using new_block_at [of inp "m * j" n] l by simp
  show "write_block ?s (8 * (m * j)) (8 * n) tmp = Some tmp'"
    unfolding tmp'_def by (rule write_block_at [OF l(1) ls(1)])
qed

lemma sort_runs_ok:
  "sorted_blocks inp tmp m j \<Longrightarrow> m * (j + n) \<le> length tmp \<Longrightarrow> length tmp \<le> length inp \<Longrightarrow>
   \<exists>tmp'. sort_runs (8 * m) inp n (8 * (m * j)) tmp = Some (8 * (m * (j + n)), tmp')
     \<and> sorted_blocks inp tmp' m (j + n) \<and> length tmp' = length tmp"
proof (induction n arbitrary: tmp j)
  case (Suc n)
  have "m * j + m \<le> m * (j + Suc n)" by (simp add: algebra_simps)
  then have l: "m * j + m \<le> length tmp" using Suc.prems(2) by (rule order_trans)
  note b = sort_block [OF Suc.prems(1) l Suc.prems(3)]
  let ?tmp = "take (m * j) tmp @ sort (take m (drop (m * j) inp)) @ drop (m * j + m) tmp"
  have blocks: "sorted_blocks inp ?tmp m (Suc j)"
    unfolding sorted_blocks_def
  proof (intro conjI allI impI)
    have "m * Suc j = m * j + m" by simp
    then show "mset (take (m * Suc j) ?tmp) = mset (take (m * Suc j) inp)" using b(2) by (simp only:)
    show "sorted (take m (drop (m * i) ?tmp))" if "i < Suc j" for i
      using b(3,4) that by (cases "i = j") auto
  qed
  have fits: "m * (Suc j + n) \<le> length ?tmp" "length ?tmp \<le> length inp" unfolding b(1) using Suc.prems(2,3) by simp_all
  have "8 * (m * j) + 8 * m = 8 * (m * Suc j)" by simp
  then have "sort_runs (8 * m) inp (Suc n) (8 * (m * j)) tmp = sort_runs (8 * m) inp n (8 * (m * Suc j)) ?tmp"
    using b(5,6) by (simp add: add.commute [of "8 * m"])
  then show ?case using Suc.IH [OF blocks fits] b(1) by simp
qed simp

section \<open>The whole sort\<close>

lemma external_merge_sort_ok:
  assumes n: "m < n" "n \<le> length inp" and m: "3 \<le> m" and out: "length out = n"
  shows "external_merge_sort inp n (8 * m) out = Some (sort (take n inp))"
proof -
  define q where "q = (n - 1) div m + 1"
  have m0: "0 < m" "0 < n" using n m by simp_all
  note c = run_counts [OF m0, folded q_def]
  define ll where "ll = n - (q - 1) * m"
  have ll: "0 < ll" "ll \<le> m" "m * (q - 1) + ll = n"
  proof -
    have "q * m = (q - 1) * m + m" using c(5) by (cases q) simp_all
    then show "0 < ll" "ll \<le> m" "m * (q - 1) + ll = n" using c(3,4) by (simp_all add: ll_def mult.commute)
  qed
  let ?tmp0 = "replicate n (0 :: 64 word)"
  have r0: "file_resize (n * 8) [] = ?tmp0" by (simp add: file_resize_def)
  have "sorted_blocks inp ?tmp0 m 0" by (simp add: sorted_blocks_def)
  from sort_runs_ok [OF this, of "q - 1"] obtain tmp1 where
    s1: "sort_runs (8 * m) inp (q - 1) 0 ?tmp0 = Some (8 * (m * (q - 1)), tmp1)" "sorted_blocks inp tmp1 m (q - 1)" "length tmp1 = n"
    using ll(3) n by auto
  have l1: "m * (q - 1) + ll \<le> length tmp1" "length tmp1 \<le> length inp" using ll(3) s1(3) n by simp_all
  note b = sort_block [OF s1(2) l1]
  define tmp where "tmp = take (m * (q - 1)) tmp1 @ sort (take ll (drop (m * (q - 1)) inp)) @ drop (m * (q - 1) + ll) tmp1"
  note b = b [folded tmp_def]
  have lt: "length tmp = n" using b(1) s1(3) by simp
  have runs: "runs_ok tmp q m ll"
    unfolding runs_ok_def using c(5) m0 ll lt b(3,4) by (auto simp: less_Suc_eq_le)
  have mt: "mset tmp = mset (take n inp)" using b(2) lt ll(3) by simp
  have phase: "sort_phase_done tmp n (8 * m) = Some True" by (rule sort_phase_done_ok [OF runs lt])
  have sz: "\<lparr>num_runs = q, num_values_run = m, num_values_last_run = ll, run_size = 8 * m, last_run_size = 8 * ll\<rparr> = sizes_of q m ll" by simp
  have "8 * m div (q + 1) div 8 = 8 * m div 8 div (q + 1)" by (simp only: div_mult2_eq [symmetric] mult.commute)
  then have few: "8 * m div (q + 1) div 8 = 0 \<longleftrightarrow> \<not> q < m" using m0 by (auto simp: div_eq_0_iff)
  have "\<exists>k rl ll' tmp'. (if 8 * m div (q + 1) div 8 = 0 then not_full_way_merge tmp n (8 * m) (sizes_of q m ll) else Some (sizes_of q m ll, tmp))
      = Some (sizes_of k rl ll', tmp') \<and> runs_ok tmp' k rl ll' \<and> k < m \<and> mset tmp' = mset tmp"
  proof (cases "q < m")
    case True
    then show ?thesis using few runs by auto
  next
    case False
    from not_full_way_merge_ok [OF runs m lt] obtain k rl ll' tmp' where
      "not_full_way_merge tmp n (8 * m) (sizes_of q m ll) = Some (sizes_of k rl ll', tmp')" "runs_ok tmp' k rl ll'" "k \<le> 2" "mset tmp' = mset tmp"
      by blast
    moreover from this have "k < m" using m by simp
    ultimately show ?thesis using few False by auto
  qed
  then obtain k rl ll' tmp' where p: "(if 8 * m div (q + 1) div 8 = 0 then not_full_way_merge tmp n (8 * m) (sizes_of q m ll) else Some (sizes_of q m ll, tmp))
      = Some (sizes_of k rl ll', tmp')" "runs_ok tmp' k rl ll'" "k < m" "mset tmp' = mset tmp" by blast
  have lt': "length tmp' = n" using p(4) lt by (metis size_mset)
  have "kway_merge tmp' (8 * n) (8 * m) (sizes_of k rl ll') out = Some (sort tmp')"
    using kway_merge_ok [OF p(2,3)] out lt' by simp
  moreover have "sort tmp' = sort (take n inp)" using p(4) mt by (metis sort_unique sorted_sort mset_sort)
  moreover have d8: "8 * m div 8 = m" "8 * ll div 8 = ll" by simp_all
  ultimately show ?thesis
    unfolding external_merge_sort_def Let_def mult.commute [of n 8] c(1,2) ll_def [symmetric] d8
    using r0 ll s1(1) b(5,6) phase m p(1) by (simp add: mult.commute [of n 8] split del: if_split)
qed

lemma inmemory_sort_ok:
  "n \<le> length inp \<Longrightarrow> length out = n \<Longrightarrow> inmemory_sort inp n out = Some (sort (take n inp))"
  using new_block_at [of inp 0 n] write_block_at [of 0 n out "sort (take n inp)"]
  by (simp add: inmemory_sort_def mult.commute [of n 8])

lemma external_sort_ok:
  assumes "get_mode input = READ" "get_mode output = WRITE" "n \<le> length (content input)"
    "8 dvd mem" "24 \<le> mem \<or> 8 * n \<le> mem"
  shows "external_sort input n output mem = Some (output\<lparr>content := sort (take n (content input))\<rparr>)"
proof -
  obtain m where m: "mem = 8 * m" using assms(4) by blast
  let ?out = "file_resize (n * 8) (content output)"
  have l: "length ?out = n" by (simp add: file_resize_def)
  show ?thesis
  proof (cases "n = 0")
    case True
    then show ?thesis using assms m by (simp add: external_sort_def file_resize_def)
  next
    case n0: False
    show ?thesis
    proof (cases "n \<le> m")
      case True
      then show ?thesis using assms m n0 inmemory_sort_ok [OF assms(3) l] by (simp add: external_sort_def file_size_def)
    next
      case False
      then have "m < n" "3 \<le> m" using assms(5) m by auto
      from external_merge_sort_ok [OF this(1) assms(3) this(2) l] show ?thesis
        using assms m n0 False by (simp add: external_sort_def file_size_def)
    qed
  qed
qed

text \<open>C8: The external sort of \<open>n\<close> values with a memory that holds at least three, or all of them,
  terminates, violates no assertion and no buffer, and leaves the sorted values in the output,
  whether it sorts in memory, merges all runs at once or needs intermediate passes.\<close>

theorem external_sort_correct:
  assumes "get_mode input = READ" "get_mode output = WRITE" "n \<le> length (content input)"
    "8 dvd mem" "24 \<le> mem \<or> 8 * n \<le> mem"
  shows "external_sort input n output mem = Some (output\<lparr>content := sort (take n (content input))\<rparr>)"
  by (rule external_sort_ok [OF assms])

theorem external_sort_correct_witness:
  "external_sort \<lparr>get_mode = READ, content = [10, 5, 7, 9, 11, 3, 3, 8, 20, 1]\<rparr> 10 \<lparr>get_mode = WRITE, content = []\<rparr> 24
     = Some \<lparr>get_mode = WRITE, content = [1, 3, 3, 5, 7, 8, 9, 10, 11, 20]\<rparr>"
proof -
  have "sort (take 10 [10, 5, 7, 9, 11, 3, 3, 8, 20, 1 :: 64 word]) = [1, 3, 3, 5, 7, 8, 9, 10, 11, 20]" by code_simp
  then show ?thesis
    using external_sort_correct [of "\<lparr>get_mode = READ, content = [10, 5, 7, 9, 11, 3, 3, 8, 20, 1]\<rparr>"
        "\<lparr>get_mode = WRITE, content = []\<rparr>" 10 24] by simp
qed

end
