(* ===== verification/Text_Conversions.thy ===== *)
theory Text_Conversions
  imports Main "HOL-Library.Word"
begin

text \<open>
  Numbers as text, as the C and C++ libraries print and read them: decimal and hexadecimal
  output, and the scanning of \<open>atoi\<close>.
\<close>

definition digit_char :: "bool \<Rightarrow> nat \<Rightarrow> char" where
  "digit_char upper d = char_of (if d < 10 then 48 + d else if upper then 55 + d else 87 + d)"

fun number_text :: "nat \<Rightarrow> bool \<Rightarrow> nat \<Rightarrow> string" where
  "number_text base upper n =
     (if base < 2 \<or> n < base then [digit_char upper n]
      else number_text base upper (n div base) @ [digit_char upper (n mod base)])"

declare number_text.simps [simp del]

definition decimal :: "nat \<Rightarrow> string" where
  "decimal n = number_text 10 False n"

definition decimal_int :: "int \<Rightarrow> string" where
  "decimal_int i = (if i < 0 then CHR ''-'' # decimal (nat (- i)) else decimal (nat i))"

text \<open>\<open>out.width(w)\<close> with the fill character 0, for one number.\<close>

definition pad_zeros :: "nat \<Rightarrow> string \<Rightarrow> string" where
  "pad_zeros w s = replicate (w - length s) CHR ''0'' @ s"

section \<open>Reading\<close>

definition is_digit :: "char \<Rightarrow> bool" where
  "is_digit c \<longleftrightarrow> 48 \<le> (of_char c :: nat) \<and> (of_char c :: nat) \<le> 57"

definition digit_value :: "char \<Rightarrow> nat" where
  "digit_value c = of_char c - 48"

definition is_space :: "char \<Rightarrow> bool" where
  "is_space c \<longleftrightarrow> c \<in> {CHR '' '', CHR 0x09, CHR 0x0A, CHR 0x0B, CHR 0x0C, CHR 0x0D}"

definition digits_value :: "string \<Rightarrow> nat" where
  "digits_value s = foldl (\<lambda>n c. 10 * n + digit_value c) 0 (takeWhile is_digit s)"

text \<open>The result of \<open>atoi\<close> is undefined where the number is no \<open>int\<close>.\<close>

definition scan_int :: "string \<Rightarrow> int" where
  "scan_int s =
     (case dropWhile is_space s of
        [] \<Rightarrow> 0
      | c # cs \<Rightarrow>
          if c = CHR ''-'' then - int (digits_value cs)
          else if c = CHR ''+'' then int (digits_value cs)
          else int (digits_value (c # cs)))"

definition atoi :: "string \<Rightarrow> int option" where
  "atoi s = (let i = scan_int s in if - (2 ^ 31) \<le> i \<and> i < 2 ^ 31 then Some i else None)"

section \<open>Reading what was printed\<close>

lemma of_char_digit: "d < 10 \<Longrightarrow> (of_char (digit_char u d) :: nat) = 48 + d"
  by (simp add: digit_char_def)

lemma digit_char_digit: "d < 10 \<Longrightarrow> is_digit (digit_char u d) \<and> digit_value (digit_char u d) = d"
  by (simp add: is_digit_def digit_value_def of_char_digit)

lemma decimal_digits: "(\<forall>c \<in> set (decimal n). is_digit c) \<and> foldl (\<lambda>n c. 10 * n + digit_value c) 0 (decimal n) = n"
proof (induction n rule: less_induct)
  case (less n)
  show ?case
  proof (cases "n < 10")
    case True
    then show ?thesis by (simp add: decimal_def number_text.simps [of 10] digit_char_digit)
  next
    case False
    then have "n div 10 < n" by simp
    moreover have "decimal n = decimal (n div 10) @ [digit_char False (n mod 10)]"
      using False by (simp add: decimal_def number_text.simps [of 10 False n])
    ultimately show ?thesis using less.IH [of "n div 10"] by (simp add: digit_char_digit)
  qed
qed

lemma digits_value_decimal [simp]: "digits_value (decimal n) = n"
proof -
  have t: "takeWhile is_digit (decimal n) = decimal n" using decimal_digits by (simp add: takeWhile_eq_all_conv)
  show ?thesis unfolding digits_value_def t using decimal_digits by blast
qed

lemma decimal_not_Nil: "decimal n \<noteq> []"
  by (simp add: decimal_def number_text.simps [of 10 False n])

lemma scan_decimal_int [simp]: "scan_int (decimal_int i) = i"
proof (cases "i < 0")
  case True
  then show ?thesis by (simp add: decimal_int_def scan_int_def is_space_def)
next
  case False
  obtain c cs where d: "decimal (nat i) = c # cs" using decimal_not_Nil by (cases "decimal (nat i)") auto
  then have "is_digit c" using decimal_digits [of "nat i"] by simp
  then have "\<not> is_space c" "c \<noteq> CHR ''-''" "c \<noteq> CHR ''+''" by (auto simp: is_digit_def is_space_def)
  moreover have "digits_value (c # cs) = nat i" using digits_value_decimal [of "nat i"] d by simp
  ultimately show ?thesis using False d by (simp add: decimal_int_def scan_int_def)
qed

lemma atoi_decimal_int: "- (2 ^ 31) \<le> i \<Longrightarrow> i < 2 ^ 31 \<Longrightarrow> atoi (decimal_int i) = Some i"
  unfolding atoi_def Let_def scan_decimal_int by simp

end
