(* ===== verification/Sort_Tool.thy ===== *)
theory Sort_Tool
  imports External_Sort_Correct Text_Conversions
begin

text \<open>
  The command-line tool of the external sort
  (\<^verbatim>\<open>src/task-external-sort/tools/external_sort.cc\<close>): it writes files of numbers, prints them,
  and sorts one file into another. The file system is a map from names to the 64-bit values of
  a file; the result is the exit code, the standard output without the log of the sort, and the
  file system, and \<open>None\<close> a failed assertion of the sort. The random numbers are a parameter,
  the sequence that the engine of the library delivers. A count whose size in bytes is no 64-bit
  number, and sorting a file into itself, are outside the model.
\<close>

type_synonym file_system = "string \<rightharpoonup> 64 word list"
type_synonym outcome = "(nat \<times> string \<times> file_system) option"

text \<open>\<open>std::stoull\<close>: the value and the number of characters read, or an exception.\<close>

definition stoull :: "string \<Rightarrow> (nat \<times> nat) option" where
  "stoull s =
     (let spaces = length (takeWhile is_space s);
          rest = drop spaces s;
          negative = (take 1 rest = ''-'');
          sign = (if negative \<or> take 1 rest = ''+'' then 1 else 0);
          digits = takeWhile is_digit (drop sign rest);
          n = digits_value digits
      in if digits = [] \<or> n \<ge> 2 ^ 64 then None
         else Some (if negative then (2 ^ 64 - n) mod 2 ^ 64 else n, spaces + sign + length digits))"

section \<open>Blocks of 512 values\<close>

definition fill_values :: "(nat \<Rightarrow> 64 word) \<Rightarrow> nat \<Rightarrow> nat \<Rightarrow> 64 word list \<Rightarrow> 64 word list" where
  "fill_values get i n vals = fold (\<lambda>j vs. vs[j := get (i + j)]) [0..<n] vals"

function write_values :: "(nat \<Rightarrow> 64 word) \<Rightarrow> nat \<Rightarrow> nat \<Rightarrow> 64 word list \<Rightarrow> 64 word list \<Rightarrow> 64 word list option" where
  "write_values get num i vals f =
     (if i + 512 \<le> num
      then do {
        let vals = fill_values get i 512 vals;
        f \<leftarrow> write_block vals (i * 8) (512 * 8) f;
        write_values get num (i + 512) vals f }
      else do {
        let remaining = num - i;
        let vals = fill_values get i remaining vals;
        write_block vals (i * 8) (remaining * 8) f })"
  by pat_completeness auto

termination
  by (relation "measure (\<lambda>(get, num, i, _). num - i)") auto

definition value_line :: "64 word \<Rightarrow> string" where
  "value_line v = decimal (unat v) @ [CHR 0x0A]"

function print_values :: "64 word list \<Rightarrow> nat \<Rightarrow> 64 word list \<Rightarrow> string \<Rightarrow> string option" where
  "print_values f offset vals out =
     (if offset + 512 * 8 \<le> file_size f
      then do {
        vals \<leftarrow> read_block f offset (512 * 8) vals;
        print_values f (offset + 512 * 8) vals (out @ concat (map value_line vals)) }
      else do {
        let remaining = (file_size f - offset) div 8;
        vals \<leftarrow> read_block f offset (remaining * 8) vals;
        Some (out @ concat (map value_line (take remaining vals))) })"
  by pat_completeness auto

termination
  by (relation "measure (\<lambda>(f, offset, _). file_size f - offset)") auto

declare write_values.simps [simp del] print_values.simps [simp del]

section \<open>The modes\<close>

text \<open>Opening a file for writing creates it; opening a file that does not exist for reading throws.\<close>

definition open_write :: "string \<Rightarrow> file_system \<Rightarrow> 64 word list" where
  "open_write name fs = (case fs name of Some f \<Rightarrow> f | None \<Rightarrow> [])"

definition mode_generate :: "(nat \<Rightarrow> 64 word) \<Rightarrow> string list \<Rightarrow> file_system \<Rightarrow> outcome" where
  "mode_generate rnd args fs =
     (if length args < 4 \<or> length args > 5 then Some (2, [], fs)
      else if length args = 5 \<and> args ! 2 \<noteq> ''--random'' then Some (2, [], fs)
      else
        let random = (length args = 5);
            count_str = (if random then args ! 3 else args ! 2);
            filename = (if random then args ! 4 else args ! 3)
        in case stoull count_str of
             None \<Rightarrow> Some (1, [], fs)
           | Some (num, pos) \<Rightarrow>
               if pos \<noteq> length count_str then Some (2, [], fs)
               else do {
                 require (num * 8 < 2 ^ 64);
                 let f = file_resize (num * 8) (open_write filename fs);
                 f \<leftarrow> write_values (if random then rnd else (\<lambda>i. of_nat (num - i))) num 0 (replicate 512 0) f;
                 Some (0, [], fs(filename \<mapsto> f)) })"

definition mode_print :: "string list \<Rightarrow> file_system \<Rightarrow> outcome" where
  "mode_print args fs =
     (if length args \<noteq> 3 then Some (2, [], fs)
      else case fs (args ! 2) of
             None \<Rightarrow> Some (1, [], fs)
           | Some f \<Rightarrow> do {
               out \<leftarrow> print_values f 0 (replicate 512 0) [];
               Some (0, out, fs) })"

definition mode_sort :: "string list \<Rightarrow> file_system \<Rightarrow> outcome" where
  "mode_sort args fs =
     (if length args \<noteq> 5 then Some (2, [], fs)
      else case stoull (args ! 4) of
             None \<Rightarrow> Some (1, [], fs)
           | Some (mem_size, pos) \<Rightarrow>
               if pos \<noteq> length (args ! 4) then Some (2, [], fs)
               else case fs (args ! 2) of
                      None \<Rightarrow> Some (1, [], fs)
                    | Some f \<Rightarrow> do {
                        require (args ! 2 \<noteq> args ! 3);
                        output \<leftarrow> external_sort \<lparr>get_mode = READ, content = f\<rparr> (file_size f div 8)
                          \<lparr>get_mode = WRITE, content = open_write (args ! 3) fs\<rparr> mem_size;
                        Some (0, [], fs(args ! 3 \<mapsto> content output)) })"

definition main_tool :: "(nat \<Rightarrow> 64 word) \<Rightarrow> string list \<Rightarrow> file_system \<Rightarrow> outcome" where
  "main_tool rnd args fs =
     (if length args \<le> 2 then Some (2, [], fs)
      else if args ! 1 = ''generate'' then mode_generate rnd args fs
      else if args ! 1 = ''print'' then mode_print args fs
      else if args ! 1 = ''sort'' then mode_sort args fs
      else Some (2, [], fs))"

section \<open>What the modes do\<close>

lemma stoull_decimal: "n < 2 ^ 64 \<Longrightarrow> stoull (decimal n) = Some (n, length (decimal n))"
proof -
  assume n: "n < 2 ^ 64"
  obtain c cs where d: "decimal n = c # cs" using decimal_not_Nil by (cases "decimal n") auto
  then have "is_digit c" using decimal_digits [of n] by simp
  then have c: "\<not> is_space c" "c \<noteq> CHR ''-''" "c \<noteq> CHR ''+''" by (auto simp: is_digit_def is_space_def)
  have t: "takeWhile is_digit (decimal n) = decimal n" using decimal_digits by (simp add: takeWhile_eq_all_conv)
  have s: "takeWhile is_space (decimal n) = []" "take 1 (decimal n) = [c]" using c d by simp_all
  have m: "take 1 (decimal n) \<noteq> ''-''" "take 1 (decimal n) \<noteq> ''+''" using s(2) c by simp_all
  show ?thesis using n m decimal_not_Nil [of n] by (simp add: stoull_def Let_def s(1) t)
qed

lemma fill_values_eq: "n \<le> length vals \<Longrightarrow> fill_values get i n vals = map (\<lambda>j. get (i + j)) [0..<n] @ drop n vals"
  by (induction n) (simp_all add: fill_values_def list_update_append Cons_nth_drop_Suc [symmetric])

lemma write_values_ok:
  "i \<le> num \<Longrightarrow> length vals = 512 \<Longrightarrow> length f = num
    \<Longrightarrow> write_values get num i vals f = Some (take i f @ map get [i..<num])"
proof (induction get num i vals f rule: write_values.induct)
  case hyps: (1 get num i vals f)
  show ?case
  proof (cases "i + 512 \<le> num")
    case True
    let ?vs = "map (\<lambda>j. get (i + j)) [0..<512]"
    have v: "fill_values get i 512 vals = ?vs" using hyps(3) by (simp add: fill_values_eq)
    have w: "write_block ?vs (i * 8) (512 * 8) f = Some (take i f @ ?vs @ drop (i + 512) f)"
      using True hyps(4) by (simp add: write_block_def memcpy_def)
    have "write_values get num (i + 512) ?vs (take i f @ ?vs @ drop (i + 512) f)
        = Some (take (i + 512) (take i f @ ?vs @ drop (i + 512) f) @ map get [i + 512..<num])"
      by (rule hyps(1) [OF True v [symmetric] w]) (use True hyps(4) in simp_all)
    moreover have "take (i + 512) (take i f @ ?vs @ drop (i + 512) f) = take i f @ ?vs"
      using True hyps(4) by simp
    moreover have "[i..<num] = [i..<i + 512] @ [i + 512..<num]"
      using True by (metis le_add1 le_add_diff_inverse upt_add_eq_append)
    moreover have "map get [i..<i + 512] = ?vs" by (rule nth_equalityI) simp_all
    ultimately show ?thesis using True v w by (simp add: write_values.simps [of get num i])
  next
    case False
    let ?n = "num - i"
    have v: "fill_values get i ?n vals = map (\<lambda>j. get (i + j)) [0..<?n] @ drop ?n vals"
      using hyps(3) False by (simp add: fill_values_eq)
    have "map get [i..<num] = map (\<lambda>j. get (i + j)) [0..<?n]" by (rule nth_equalityI) simp_all
    then show ?thesis using False v hyps(2-4) by (simp add: write_values.simps [of get num i] write_block_def memcpy_def Let_def)
  qed
qed

lemma print_values_ok:
  "length vals = 512 \<Longrightarrow> 8 dvd offset \<Longrightarrow> offset \<le> file_size f
    \<Longrightarrow> print_values f offset vals out = Some (out @ concat (map value_line (drop (offset div 8) f)))"
proof (induction f offset vals out rule: print_values.induct)
  case hyps: (1 f offset vals out)
  obtain k where k: "offset = 8 * k" using hyps(3) by blast
  show ?case
  proof (cases "offset + 512 * 8 \<le> file_size f")
    case True
    let ?vs = "take 512 (drop k f)"
    have l: "k + 512 \<le> length f" using True k by (simp add: file_size_def)
    have r: "read_block f offset (512 * 8) vals = Some ?vs"
      using l hyps(2) k by (simp add: read_block_def Let_def min.absorb2)
    have "print_values f (offset + 512 * 8) ?vs (out @ concat (map value_line ?vs))
        = Some ((out @ concat (map value_line ?vs)) @ concat (map value_line (drop ((offset + 512 * 8) div 8) f)))"
      by (rule hyps(1) [OF True r]) (use True l hyps(3) in \<open>simp_all add: min.absorb2\<close>)
    moreover have "drop k f = ?vs @ drop (k + 512) f" by (metis append_take_drop_id drop_drop add.commute)
    then have "concat (map value_line (drop k f)) = concat (map value_line ?vs) @ concat (map value_line (drop (k + 512) f))"
      by (metis concat_append map_append)
    ultimately show ?thesis using True r k by (simp add: print_values.simps [of f "8 * k"])
  next
    case False
    have l: "k \<le> length f" "length f - k < 512" using False k hyps(4) by (simp_all add: file_size_def)
    have n: "(file_size f - offset) div 8 = length f - k" using k by (simp add: file_size_def diff_mult_distrib2 [symmetric])
    show ?thesis using False k l n hyps(2)
      by (simp add: print_values.simps [of f "8 * k"] read_block_def Let_def)
  qed
qed


section \<open>The files of the modes\<close>

lemma mode_generate_ok:
  assumes "n < 2 ^ 61"
  shows "mode_generate rnd [prog, ''generate'', decimal n, f] fs = Some (0, [], fs(f \<mapsto> map (\<lambda>i. of_nat (n - i)) [0..<n]))"
    "mode_generate rnd [prog, ''generate'', ''--random'', decimal n, f] fs = Some (0, [], fs(f \<mapsto> map rnd [0..<n]))"
proof -
  have n: "n < 2 ^ 64" "n * 8 < 2 ^ 64" using assms by simp_all
  have w: "write_values get n 0 (replicate 512 0) (file_resize (n * 8) g) = Some (map get [0..<n])" for get g
    by (subst write_values_ok) (simp_all add: file_resize_def)
  show "mode_generate rnd [prog, ''generate'', decimal n, f] fs = Some (0, [], fs(f \<mapsto> map (\<lambda>i. of_nat (n - i)) [0..<n]))"
    "mode_generate rnd [prog, ''generate'', ''--random'', decimal n, f] fs = Some (0, [], fs(f \<mapsto> map rnd [0..<n]))"
    using w n by (simp_all add: mode_generate_def stoull_decimal [OF n(1)] Let_def)
qed

lemma mode_print_ok: "fs g = Some f \<Longrightarrow> mode_print [prog, ''print'', g] fs = Some (0, concat (map value_line f), fs)"
  using print_values_ok [of "replicate 512 0" 0 f "[]"] by (simp add: mode_print_def)

lemma sort_descending:
  assumes "n < 2 ^ 64"
  shows "sort (map (\<lambda>i. of_nat (n - i) :: 64 word) [0..<n]) = map of_nat [1..<n + 1]"
proof (rule properties_for_sort)
  have "map (\<lambda>i. of_nat (n - i) :: 64 word) [0..<n] = rev (map of_nat [1..<n + 1])"
    by (rule nth_equalityI) (auto simp: rev_nth simp del: upt_Suc)
  then show "mset (map of_nat [1..<n + 1]) = mset (map (\<lambda>i. of_nat (n - i) :: 64 word) [0..<n])" by simp
  have u: "unat (of_nat i :: 64 word) = i" if "i \<le> n" for i
  proof -
    have "i < 2 ^ LENGTH(64)" using that assms by simp
    then show ?thesis by (simp only: unat_of_nat mod_less)
  qed
  show "sorted (map of_nat [1..<n + 1] :: 64 word list)"
    unfolding sorted_wrt_map
    by (rule sorted_wrt_mono_rel [of _ "(\<le>)"]) (auto simp: word_le_nat_alt u simp del: upt_Suc)
qed


lemma mode_sort_ok:
  assumes "fs f = Some xs" "f \<noteq> g" "mem < 2 ^ 64" "8 dvd mem" "24 \<le> mem \<or> 8 * length xs \<le> mem"
  shows "mode_sort [prog, ''sort'', f, g, decimal mem] fs = Some (0, [], fs(g \<mapsto> sort xs))"
  using assms external_sort_ok [of "\<lparr>get_mode = READ, content = xs\<rparr>" "\<lparr>get_mode = WRITE, content = open_write g fs\<rparr>" "length xs" mem]
  by (simp add: mode_sort_def stoull_decimal file_size_def)

section \<open>The property of the tool\<close>

text \<open>C15: The three modes together: generating \<open>n\<close> numbers into one file, sorting it into another
  and printing that prints the numbers from 1 to \<open>n\<close>, or the sorted random numbers, one on a
  line; every run ends with exit code 0 and no other file changes.\<close>

theorem tool_sorts:
  assumes "n < 2 ^ 61" "f \<noteq> g" "mem < 2 ^ 64" "8 dvd mem" "24 \<le> mem \<or> 8 * n \<le> mem"
  shows "\<exists>fs1 fs2. main_tool rnd ([prog, ''generate''] @ (if random then [''--random''] else []) @ [decimal n, f]) fs = Some (0, [], fs1)
      \<and> main_tool rnd [prog, ''sort'', f, g, decimal mem] fs1 = Some (0, [], fs2)
      \<and> main_tool rnd [prog, ''print'', g] fs2
          = Some (0, concat (map (\<lambda>k. decimal k @ [CHR 0x0A]) (if random then map unat (sort (map rnd [0..<n])) else [1..<n + 1])), fs2)
      \<and> (\<forall>h. h \<noteq> f \<longrightarrow> h \<noteq> g \<longrightarrow> fs2 h = fs h)"
proof -
  note main = main_tool_def mode_generate_ok [OF assms(1)]
  have s: "mode_sort [prog, ''sort'', f, g, decimal mem] (fs(f \<mapsto> xs)) = Some (0, [], fs(f \<mapsto> xs, g \<mapsto> sort xs))"
    if "length xs = n" for xs
    using mode_sort_ok [of "fs(f \<mapsto> xs)" f xs g mem prog] assms(2-5) that by simp
  have p: "mode_print [prog, ''print'', g] (fs(f \<mapsto> xs, g \<mapsto> sort xs)) = Some (0, concat (map value_line (sort xs)), fs(f \<mapsto> xs, g \<mapsto> sort xs))" for xs
    by (rule mode_print_ok) simp
  have "unat (of_nat k :: 64 word) = k" if "k \<in> set [1..<n + 1]" for k
  proof -
    have "k < 2 ^ LENGTH(64)" using that assms(1) by auto
    then show ?thesis by (simp only: unat_of_nat mod_less)
  qed
  then have l: "map value_line (map of_nat [1..<n + 1]) = map (\<lambda>k. decimal k @ [CHR 0x0A]) [1..<n + 1]"
    by (simp add: value_line_def del: upt_Suc)
  have n: "n < 2 ^ 64" using assms(1) by simp
  have r: "map value_line xs = map (\<lambda>k. decimal k @ [CHR 0x0A]) (map unat xs)" for xs
    by (simp add: value_line_def)
  define xs where "xs = (if random then map rnd [0..<n] else map (\<lambda>i. of_nat (n - i)) [0..<n])"
  have "main_tool rnd ([prog, ''generate''] @ (if random then [''--random''] else []) @ [decimal n, f]) fs = Some (0, [], fs(f \<mapsto> xs))"
    by (simp add: main xs_def)
  moreover have "main_tool rnd [prog, ''sort'', f, g, decimal mem] (fs(f \<mapsto> xs)) = Some (0, [], fs(f \<mapsto> xs, g \<mapsto> sort xs))"
    using s [of xs] by (simp add: main_tool_def xs_def)
  moreover have "map value_line (sort xs)
      = map (\<lambda>k. decimal k @ [CHR 0x0A]) (if random then map unat (sort (map rnd [0..<n])) else [1..<n + 1])"
    using r [of "sort (map rnd [0..<n])"] l sort_descending [OF n] by (cases random) (simp_all add: xs_def del: upt_Suc map_map)
  then have "main_tool rnd [prog, ''print'', g] (fs(f \<mapsto> xs, g \<mapsto> sort xs))
      = Some (0, concat (map (\<lambda>k. decimal k @ [CHR 0x0A]) (if random then map unat (sort (map rnd [0..<n])) else [1..<n + 1])),
          fs(f \<mapsto> xs, g \<mapsto> sort xs))"
    using p [of xs] by (simp add: main_tool_def)
  moreover have "\<forall>h. h \<noteq> f \<longrightarrow> h \<noteq> g \<longrightarrow> (fs(f \<mapsto> xs, g \<mapsto> sort xs)) h = fs h" by simp
  ultimately show ?thesis by blast
qed

theorem tool_sorts_witness:
  "\<exists>fs1 fs2. main_tool (\<lambda>_. 0) [''tool'', ''generate'', decimal 2000, ''in''] Map.empty = Some (0, [], fs1)
    \<and> main_tool (\<lambda>_. 0) [''tool'', ''sort'', ''in'', ''out'', decimal 800] fs1 = Some (0, [], fs2)
    \<and> main_tool (\<lambda>_. 0) [''tool'', ''print'', ''out''] fs2 = Some (0, concat (map (\<lambda>k. decimal k @ [CHR 0x0A]) [1..<2000 + 1]), fs2)"
proof -
  have h: "(2000 :: nat) < 2 ^ 61" "''in'' \<noteq> ''out''" "(800 :: nat) < 2 ^ 64" "(8 :: nat) dvd 800" "24 \<le> (800 :: nat) \<or> 8 * 2000 \<le> (800 :: nat)"
    by simp_all
  show ?thesis
    using tool_sorts [OF h, of "\<lambda>_. 0" "''tool''" False Map.empty] unfolding if_False append.simps by blast
qed

end
