(* ===== verification/Expressions.thy ===== *)
theory Expressions
  imports Prelude_DB "HOL-Library.Word" "HOL-Library.Signed_Division"
begin

text \<open>
  Expressions over 64-bit values and their compilation
  (\<^verbatim>\<open>src/task-expressions/include/moderndbs/codegen/expression.h\<close> and
  \<^verbatim>\<open>src/task-expressions/src/codegen/expression.cc\<close>). A value is the word \<open>data64_t\<close>. The
  arithmetic on doubles is a parameter of the model, and so is LLVM: the operations of its
  builder make values of a type of their own, and \<open>llvm_ok\<close> states what LLVM's language
  reference says of the ones that the code uses, on operands that it allows (\<open>legal_code\<close>): a bit
  cast from a pointer to a number is not among them. Overflow of a signed integer, a division by
  zero and a read behind the arguments are undefined in C++ and have no result.
\<close>

section \<open>Expressions\<close>

datatype value_type = INT64 | DOUBLE

datatype expr =
    Constant value_type "64 word"
  | Argument "64 word" value_type
  | Cast expr value_type
  | AddExpression expr expr
  | SubExpression expr expr
  | MulExpression expr expr
  | DivExpression expr expr

definition constant_int :: "64 word \<Rightarrow> expr" where
  "constant_int v = Constant INT64 v"

definition constant_double :: "64 word \<Rightarrow> expr" where
  "constant_double v = Constant DOUBLE v"

fun getType :: "expr \<Rightarrow> value_type" where
  "getType (Constant t v) = t"
| "getType (Argument i t) = t"
| "getType (Cast e t) = t"
| "getType (AddExpression l r) = getType l"
| "getType (SubExpression l r) = getType l"
| "getType (MulExpression l r) = getType l"
| "getType (DivExpression l r) = getType l"

text \<open>The assertion of the constructor of the binary expressions, and of those below them.\<close>

fun constructed :: "expr \<Rightarrow> bool" where
  "constructed (Constant t v) = True"
| "constructed (Argument i t) = True"
| "constructed (Cast e t) = constructed e"
| "constructed (AddExpression l r) = (constructed l \<and> constructed r \<and> getType l = getType r)"
| "constructed (SubExpression l r) = (constructed l \<and> constructed r \<and> getType l = getType r)"
| "constructed (MulExpression l r) = (constructed l \<and> constructed r \<and> getType l = getType r)"
| "constructed (DivExpression l r) = (constructed l \<and> constructed r \<and> getType l = getType r)"

section \<open>Evaluation\<close>

text \<open>Arithmetic on the bits of doubles; the conversion to an integer may have no result.\<close>

record doubles =
  dadd :: "64 word \<Rightarrow> 64 word \<Rightarrow> 64 word"
  dsub :: "64 word \<Rightarrow> 64 word \<Rightarrow> 64 word"
  dmul :: "64 word \<Rightarrow> 64 word \<Rightarrow> 64 word"
  ddiv :: "64 word \<Rightarrow> 64 word \<Rightarrow> 64 word"
  double_to_int :: "64 word \<Rightarrow> 64 word option"
  int_to_double :: "64 word \<Rightarrow> 64 word"

definition int64_result :: "int \<Rightarrow> 64 word option" where
  "int64_result z = (if - (2 ^ 63) \<le> z \<and> z < 2 ^ 63 then Some (word_of_int z) else None)"

definition add_eval :: "doubles \<Rightarrow> value_type \<Rightarrow> 64 word \<Rightarrow> 64 word \<Rightarrow> 64 word option" where
  "add_eval D t l r = (if t = INT64 then int64_result (sint l + sint r) else Some (dadd D l r))"

definition sub_eval :: "doubles \<Rightarrow> value_type \<Rightarrow> 64 word \<Rightarrow> 64 word \<Rightarrow> 64 word option" where
  "sub_eval D t l r = (if t = INT64 then int64_result (sint l - sint r) else Some (dsub D l r))"

definition mul_eval :: "doubles \<Rightarrow> value_type \<Rightarrow> 64 word \<Rightarrow> 64 word \<Rightarrow> 64 word option" where
  "mul_eval D t l r = (if t = INT64 then int64_result (sint l * sint r) else Some (dmul D l r))"

definition div_eval :: "doubles \<Rightarrow> value_type \<Rightarrow> 64 word \<Rightarrow> 64 word \<Rightarrow> 64 word option" where
  "div_eval D t l r =
     (if t = INT64 then (if sint r = 0 then None else int64_result (sint l sdiv sint r)) else Some (ddiv D l r))"

definition cast_eval :: "doubles \<Rightarrow> value_type \<Rightarrow> value_type \<Rightarrow> 64 word \<Rightarrow> 64 word option" where
  "cast_eval D childType t v =
     (if childType = t then Some v
      else if t = INT64 then double_to_int D v
      else Some (int_to_double D v))"

fun evaluate :: "doubles \<Rightarrow> expr \<Rightarrow> 64 word list \<Rightarrow> 64 word option" where
  "evaluate D (Constant t v) args = Some v"
| "evaluate D (Argument i t) args = arr_get args (unat i)"
| "evaluate D (Cast e t) args = do { v \<leftarrow> evaluate D e args; cast_eval D (getType e) t v }"
| "evaluate D (AddExpression l r) args = do { x \<leftarrow> evaluate D l args; y \<leftarrow> evaluate D r args; add_eval D (getType l) x y }"
| "evaluate D (SubExpression l r) args = do { x \<leftarrow> evaluate D l args; y \<leftarrow> evaluate D r args; sub_eval D (getType l) x y }"
| "evaluate D (MulExpression l r) args = do { x \<leftarrow> evaluate D l args; y \<leftarrow> evaluate D r args; mul_eval D (getType l) x y }"
| "evaluate D (DivExpression l r) args = do { x \<leftarrow> evaluate D l args; y \<leftarrow> evaluate D r args; div_eval D (getType l) x y }"

section \<open>Code generation\<close>

text \<open>The types of LLVM that occur, all of 64 bits.\<close>

datatype llvm_type = Int64Ty | DoubleTy | PointerTo llvm_type

text \<open>The builder: constants, the parameter of a function that has one of the given type, the
  address of an element of an array, loads, casts and arithmetic.\<close>

record 'v llvm =
  getSigned :: "64 word \<Rightarrow> 'v"
  getFP :: "64 word \<Rightarrow> 'v"
  arg_begin :: "llvm_type \<Rightarrow> 'v"
  CreateConstGEP1_64 :: "'v \<Rightarrow> 64 word \<Rightarrow> 'v"
  CreateLoad :: "'v \<Rightarrow> 'v"
  CreateBitCast :: "'v \<Rightarrow> llvm_type \<Rightarrow> 'v"
  CreateFPToSI :: "'v \<Rightarrow> 'v"
  CreateSIToFP :: "'v \<Rightarrow> 'v"
  CreateAdd :: "'v \<Rightarrow> 'v \<Rightarrow> 'v"
  CreateFAdd :: "'v \<Rightarrow> 'v \<Rightarrow> 'v"
  CreateSub :: "'v \<Rightarrow> 'v \<Rightarrow> 'v"
  CreateFSub :: "'v \<Rightarrow> 'v \<Rightarrow> 'v"
  CreateMul :: "'v \<Rightarrow> 'v \<Rightarrow> 'v"
  CreateFMul :: "'v \<Rightarrow> 'v \<Rightarrow> 'v"
  CreateSDiv :: "'v \<Rightarrow> 'v \<Rightarrow> 'v"
  CreateFDiv :: "'v \<Rightarrow> 'v \<Rightarrow> 'v"

definition constant_build :: "'v llvm \<Rightarrow> value_type \<Rightarrow> 64 word \<Rightarrow> 'v" where
  "constant_build B t v = (if t = INT64 then getSigned B v else getFP B v)"

definition argument_build :: "'v llvm \<Rightarrow> 'v \<Rightarrow> 64 word \<Rightarrow> value_type \<Rightarrow> 'v" where
  "argument_build B args i t =
     (let gepi = CreateConstGEP1_64 B args i; ld = CreateLoad B gepi
      in if t = INT64 then CreateBitCast B ld Int64Ty else CreateBitCast B ld DoubleTy)"

definition cast_build :: "'v llvm \<Rightarrow> value_type \<Rightarrow> value_type \<Rightarrow> 'v \<Rightarrow> 'v" where
  "cast_build B childType t v =
     (if childType = t then v else if t = INT64 then CreateFPToSI B v else CreateSIToFP B v)"

definition add_build :: "'v llvm \<Rightarrow> value_type \<Rightarrow> 'v \<Rightarrow> 'v \<Rightarrow> 'v" where
  "add_build B t l r = (if t = INT64 then CreateAdd B l r else CreateFAdd B l r)"

definition sub_build :: "'v llvm \<Rightarrow> value_type \<Rightarrow> 'v \<Rightarrow> 'v \<Rightarrow> 'v" where
  "sub_build B t l r = (if t = INT64 then CreateSub B l r else CreateFSub B l r)"

definition mul_build :: "'v llvm \<Rightarrow> value_type \<Rightarrow> 'v \<Rightarrow> 'v \<Rightarrow> 'v" where
  "mul_build B t l r = (if t = INT64 then CreateMul B l r else CreateFMul B l r)"

definition div_build :: "'v llvm \<Rightarrow> value_type \<Rightarrow> 'v \<Rightarrow> 'v \<Rightarrow> 'v" where
  "div_build B t l r = (if t = INT64 then CreateSDiv B l r else CreateFDiv B l r)"

fun build :: "'v llvm \<Rightarrow> 'v \<Rightarrow> expr \<Rightarrow> 'v" where
  "build B args (Constant t v) = constant_build B t v"
| "build B args (Argument i t) = argument_build B args i t"
| "build B args (Cast e t) = cast_build B (getType e) t (build B args e)"
| "build B args (AddExpression l r) = add_build B (getType l) (build B args l) (build B args r)"
| "build B args (SubExpression l r) = sub_build B (getType l) (build B args l) (build B args r)"
| "build B args (MulExpression l r) = mul_build B (getType l) (build B args l) (build B args r)"
| "build B args (DivExpression l r) = div_build B (getType l) (build B args l) (build B args r)"

section \<open>The compiler\<close>

text \<open>The compiler owns a module until it hands it to the JIT, and a function after that. The JIT
  may refuse the module; then the code throws.\<close>

record 'v compiler =
  has_module :: bool
  fn_ptr :: "'v option"

definition compiler_init :: "'v compiler" where
  "compiler_init = \<lparr>has_module = True, fn_ptr = None\<rparr>"

text \<open>The parameter of the generated function: its type is \<open>getInt64PtrTy\<close> with \<open>getPointerTo\<close>.\<close>

definition compile_args :: "'v llvm \<Rightarrow> 'v" where
  "compile_args B = arg_begin B (PointerTo (PointerTo Int64Ty))"

definition compile :: "'v llvm \<Rightarrow> ('v \<Rightarrow> bool) \<Rightarrow> expr \<Rightarrow> 'v compiler \<Rightarrow> (bool \<times> 'v compiler) option" where
  "compile B accepts e c = do {
     require (has_module c);
     let body = CreateBitCast B (build B (compile_args B) e) Int64Ty;
     let c = c\<lparr>has_module := False\<rparr>;
     if accepts body then Some (True, c\<lparr>fn_ptr := Some body\<rparr>) else Some (False, c) }"

definition run_compiled :: "('v \<Rightarrow> 64 word list \<Rightarrow> 64 word option) \<Rightarrow> 'v compiler \<Rightarrow> 64 word list \<Rightarrow> 64 word option" where
  "run_compiled meaning c args = do { f \<leftarrow> fn_ptr c; meaning f args }"

section \<open>What LLVM promises\<close>

text \<open>
  The type of a value and its meaning as a function of the arguments. An operation on operands
  of its type has a result of its type; integer addition, subtraction and multiplication wrap
  around. The parameter has the type it is declared with; it is the address of the arguments, so
  that the load of an element gives the bits of the argument, with the type the array's elements
  are declared to have. A bit cast keeps the bits, and is defined between two pointers or between
  two numbers.
\<close>

fun is_pointer :: "llvm_type \<Rightarrow> bool" where
  "is_pointer (PointerTo t) = True"
| "is_pointer t = False"

definition bitcast_legal :: "llvm_type \<Rightarrow> llvm_type \<Rightarrow> bool" where
  "bitcast_legal s t \<longleftrightarrow> is_pointer s = is_pointer t"

definition llvm_int_ops :: "'v llvm \<Rightarrow> ('v \<Rightarrow> llvm_type) \<Rightarrow> ('v \<Rightarrow> 64 word list \<Rightarrow> 64 word option) \<Rightarrow> bool" where
  "llvm_int_ops B ty meaning \<longleftrightarrow> (\<forall>l r. ty l = Int64Ty \<longrightarrow> ty r = Int64Ty \<longrightarrow>
     ty (CreateAdd B l r) = Int64Ty \<and> ty (CreateSub B l r) = Int64Ty
     \<and> ty (CreateMul B l r) = Int64Ty \<and> ty (CreateSDiv B l r) = Int64Ty
     \<and> (\<forall>args x y. meaning l args = Some x \<longrightarrow> meaning r args = Some y \<longrightarrow>
          meaning (CreateAdd B l r) args = Some (x + y) \<and> meaning (CreateSub B l r) args = Some (x - y)
          \<and> meaning (CreateMul B l r) args = Some (x * y)
          \<and> (sint y \<noteq> 0 \<longrightarrow> - (2 ^ 63) \<le> sint x sdiv sint y \<longrightarrow> sint x sdiv sint y < 2 ^ 63 \<longrightarrow>
               meaning (CreateSDiv B l r) args = Some (word_of_int (sint x sdiv sint y)))))"

definition llvm_double_ops :: "doubles \<Rightarrow> 'v llvm \<Rightarrow> ('v \<Rightarrow> llvm_type) \<Rightarrow> ('v \<Rightarrow> 64 word list \<Rightarrow> 64 word option) \<Rightarrow> bool" where
  "llvm_double_ops D B ty meaning \<longleftrightarrow> (\<forall>l r. ty l = DoubleTy \<longrightarrow> ty r = DoubleTy \<longrightarrow>
     ty (CreateFAdd B l r) = DoubleTy \<and> ty (CreateFSub B l r) = DoubleTy
     \<and> ty (CreateFMul B l r) = DoubleTy \<and> ty (CreateFDiv B l r) = DoubleTy
     \<and> (\<forall>args x y. meaning l args = Some x \<longrightarrow> meaning r args = Some y \<longrightarrow>
          meaning (CreateFAdd B l r) args = Some (dadd D x y) \<and> meaning (CreateFSub B l r) args = Some (dsub D x y)
          \<and> meaning (CreateFMul B l r) args = Some (dmul D x y) \<and> meaning (CreateFDiv B l r) args = Some (ddiv D x y)))"

definition llvm_conversions :: "doubles \<Rightarrow> 'v llvm \<Rightarrow> ('v \<Rightarrow> llvm_type) \<Rightarrow> ('v \<Rightarrow> 64 word list \<Rightarrow> 64 word option) \<Rightarrow> bool" where
  "llvm_conversions D B ty meaning \<longleftrightarrow>
     (\<forall>v. ty v = DoubleTy \<longrightarrow> ty (CreateFPToSI B v) = Int64Ty
        \<and> (\<forall>args x y. meaning v args = Some x \<longrightarrow> double_to_int D x = Some y \<longrightarrow> meaning (CreateFPToSI B v) args = Some y))
     \<and> (\<forall>v. ty v = Int64Ty \<longrightarrow> ty (CreateSIToFP B v) = DoubleTy
        \<and> (\<forall>args x. meaning v args = Some x \<longrightarrow> meaning (CreateSIToFP B v) args = Some (int_to_double D x)))
     \<and> (\<forall>v t. bitcast_legal (ty v) t \<longrightarrow> ty (CreateBitCast B v t) = t
        \<and> (\<forall>args x. meaning v args = Some x \<longrightarrow> meaning (CreateBitCast B v t) args = Some x))"

definition llvm_leaves :: "'v llvm \<Rightarrow> ('v \<Rightarrow> llvm_type) \<Rightarrow> ('v \<Rightarrow> 64 word list \<Rightarrow> 64 word option) \<Rightarrow> bool" where
  "llvm_leaves B ty meaning \<longleftrightarrow>
     (\<forall>v. ty (getSigned B v) = Int64Ty \<and> (\<forall>args. meaning (getSigned B v) args = Some v))
     \<and> (\<forall>v. ty (getFP B v) = DoubleTy \<and> (\<forall>args. meaning (getFP B v) args = Some v))
     \<and> (\<forall>t i. ty (CreateLoad B (CreateConstGEP1_64 B (arg_begin B (PointerTo t)) i)) = t
        \<and> (\<forall>args. unat i < length args \<longrightarrow>
             meaning (CreateLoad B (CreateConstGEP1_64 B (arg_begin B (PointerTo t)) i)) args = Some (args ! unat i)))"

definition llvm_ok :: "doubles \<Rightarrow> 'v llvm \<Rightarrow> ('v \<Rightarrow> llvm_type) \<Rightarrow> ('v \<Rightarrow> 64 word list \<Rightarrow> 64 word option) \<Rightarrow> bool" where
  "llvm_ok D B ty meaning \<longleftrightarrow> llvm_int_ops B ty meaning \<and> llvm_double_ops D B ty meaning
     \<and> llvm_conversions D B ty meaning \<and> llvm_leaves B ty meaning"

text \<open>Code whose every instruction has operands that LLVM allows.\<close>

fun ir_type :: "value_type \<Rightarrow> llvm_type" where
  "ir_type INT64 = Int64Ty"
| "ir_type DOUBLE = DoubleTy"

fun legal_code :: "'v llvm \<Rightarrow> ('v \<Rightarrow> llvm_type) \<Rightarrow> 'v \<Rightarrow> expr \<Rightarrow> bool" where
  "legal_code B ty args (Constant t v) = True"
| "legal_code B ty args (Argument i t) = bitcast_legal (ty (CreateLoad B (CreateConstGEP1_64 B args i))) (ir_type t)"
| "legal_code B ty args (Cast e t) =
     (legal_code B ty args e
      \<and> (getType e \<noteq> t \<longrightarrow> ty (build B args e) = (if t = INT64 then DoubleTy else Int64Ty)))"
| "legal_code B ty args (AddExpression l r) = (legal_code B ty args l \<and> legal_code B ty args r
      \<and> ty (build B args l) = ir_type (getType l) \<and> ty (build B args r) = ir_type (getType l))"
| "legal_code B ty args (SubExpression l r) = (legal_code B ty args l \<and> legal_code B ty args r
      \<and> ty (build B args l) = ir_type (getType l) \<and> ty (build B args r) = ir_type (getType l))"
| "legal_code B ty args (MulExpression l r) = (legal_code B ty args l \<and> legal_code B ty args r
      \<and> ty (build B args l) = ir_type (getType l) \<and> ty (build B args r) = ir_type (getType l))"
| "legal_code B ty args (DivExpression l r) = (legal_code B ty args l \<and> legal_code B ty args r
      \<and> ty (build B args l) = ir_type (getType l) \<and> ty (build B args r) = ir_type (getType l))"

fun has_argument :: "expr \<Rightarrow> bool" where
  "has_argument (Constant t v) = False"
| "has_argument (Argument i t) = True"
| "has_argument (Cast e t) = has_argument e"
| "has_argument (AddExpression l r) = (has_argument l \<or> has_argument r)"
| "has_argument (SubExpression l r) = (has_argument l \<or> has_argument r)"
| "has_argument (MulExpression l r) = (has_argument l \<or> has_argument r)"
| "has_argument (DivExpression l r) = (has_argument l \<or> has_argument r)"

text \<open>A builder that keeps its promises: its values are typed functions of the arguments. An
  address is its offset in the arguments; a bit cast that is not legal has no meaning.\<close>

type_synonym code = "llvm_type \<times> (64 word list \<Rightarrow> 64 word option)"

definition code2 :: "llvm_type \<Rightarrow> (64 word \<Rightarrow> 64 word \<Rightarrow> 64 word option) \<Rightarrow> code \<Rightarrow> code \<Rightarrow> code" where
  "code2 t f l r = (t, \<lambda>args. do { x \<leftarrow> snd l args; y \<leftarrow> snd r args; f x y })"

definition code1 :: "llvm_type \<Rightarrow> (64 word \<Rightarrow> 64 word option) \<Rightarrow> code \<Rightarrow> code" where
  "code1 t f v = (t, \<lambda>args. do { x \<leftarrow> snd v args; f x })"

fun pointee :: "llvm_type \<Rightarrow> llvm_type" where
  "pointee (PointerTo t) = t"
| "pointee t = t"

definition sample_gep :: "code \<Rightarrow> 64 word \<Rightarrow> code" where
  "sample_gep v i = (fst v, \<lambda>args. map_option (\<lambda>a. a + i) (snd v args))"

definition sample_load :: "code \<Rightarrow> code" where
  "sample_load v = (pointee (fst v), \<lambda>args. do { a \<leftarrow> snd v args; arr_get args (unat a) })"

definition sample_llvm :: "doubles \<Rightarrow> code llvm" where
  "sample_llvm D = \<lparr>getSigned = (\<lambda>v. (Int64Ty, \<lambda>_. Some v)), getFP = (\<lambda>v. (DoubleTy, \<lambda>_. Some v)),
     arg_begin = (\<lambda>t. (t, \<lambda>args. Some 0)), CreateConstGEP1_64 = sample_gep, CreateLoad = sample_load,
     CreateBitCast = (\<lambda>v t. code1 t (\<lambda>x. if bitcast_legal (fst v) t then Some x else None) v),
     CreateFPToSI = code1 Int64Ty (double_to_int D), CreateSIToFP = code1 DoubleTy (\<lambda>x. Some (int_to_double D x)),
     CreateAdd = code2 Int64Ty (\<lambda>x y. Some (x + y)), CreateFAdd = code2 DoubleTy (\<lambda>x y. Some (dadd D x y)),
     CreateSub = code2 Int64Ty (\<lambda>x y. Some (x - y)), CreateFSub = code2 DoubleTy (\<lambda>x y. Some (dsub D x y)),
     CreateMul = code2 Int64Ty (\<lambda>x y. Some (x * y)), CreateFMul = code2 DoubleTy (\<lambda>x y. Some (dmul D x y)),
     CreateSDiv = code2 Int64Ty (\<lambda>x y. if sint y = 0 then None else int64_result (sint x sdiv sint y)),
     CreateFDiv = code2 DoubleTy (\<lambda>x y. Some (ddiv D x y))\<rparr>"

definition sample_doubles :: doubles where
  "sample_doubles = \<lparr>dadd = (+), dsub = (-), dmul = (*), ddiv = (\<lambda>x y. x div y), double_to_int = Some, int_to_double = (\<lambda>x. x)\<rparr>"

definition sample_expr :: expr where
  "sample_expr = DivExpression (SubExpression (Argument 0 INT64) (constant_int 3)) (Cast (Argument 1 DOUBLE) INT64)"

definition sample_constants :: expr where
  "sample_constants = DivExpression (SubExpression (constant_int 11) (constant_int 3)) (Cast (constant_double 4) INT64)"

lemma sample_llvm_ok: "llvm_ok D (sample_llvm D) fst snd"
  by (simp add: llvm_ok_def llvm_int_ops_def llvm_double_ops_def llvm_conversions_def llvm_leaves_def
      sample_llvm_def code1_def code2_def int64_result_def sample_gep_def sample_load_def)
section \<open>Compiled code computes what the interpreter does\<close>

lemma int64_result_ops:
  "int64_result (sint x + sint y) = Some v \<Longrightarrow> v = x + y"
  "int64_result (sint x - sint y) = Some v \<Longrightarrow> v = x - y"
  "int64_result (sint x * sint y) = Some v \<Longrightarrow> v = x * y"
  by (auto simp: int64_result_def wi_hom_syms split: if_splits)

lemma int64_resultD: "int64_result z = Some v \<Longrightarrow> - (2 ^ 63) \<le> z \<and> z < 2 ^ 63 \<and> v = word_of_int z"
  by (simp add: int64_result_def split: if_splits)

lemma llvm_okD:
  assumes "llvm_ok D B ty meaning"
  shows "llvm_int_ops B ty meaning" "llvm_double_ops D B ty meaning" "llvm_conversions D B ty meaning" "llvm_leaves B ty meaning"
  using assms by (simp_all add: llvm_ok_def)

lemma not_int: "t \<noteq> INT64 \<longleftrightarrow> t = DOUBLE"
  by (cases t) simp_all

lemma build_type:
  assumes "llvm_ok D B ty meaning" "constructed e" "legal_code B ty args e"
  shows "ty (build B args e) = ir_type (getType e)"
  using assms(2,3)
proof (induction e)
  case (Constant t v)
  then show ?case using llvm_okD(4) [OF assms(1)] by (cases t) (simp_all add: llvm_leaves_def constant_build_def)
next
  case (Argument i t)
  then show ?case using llvm_okD(3) [OF assms(1)]
    by (cases t) (simp_all add: llvm_conversions_def argument_build_def Let_def)
next
  case (Cast e t)
  then show ?case using llvm_okD(3) [OF assms(1)]
    by (cases t; cases "getType e") (simp_all add: llvm_conversions_def cast_build_def)
next
  case (AddExpression l r)
  then show ?case using llvm_okD(1,2) [OF assms(1)]
    by (cases "getType r") (simp_all add: llvm_int_ops_def llvm_double_ops_def add_build_def)
next
  case (SubExpression l r)
  then show ?case using llvm_okD(1,2) [OF assms(1)]
    by (cases "getType r") (simp_all add: llvm_int_ops_def llvm_double_ops_def sub_build_def)
next
  case (MulExpression l r)
  then show ?case using llvm_okD(1,2) [OF assms(1)]
    by (cases "getType r") (simp_all add: llvm_int_ops_def llvm_double_ops_def mul_build_def)
next
  case (DivExpression l r)
  then show ?case using llvm_okD(1,2) [OF assms(1)]
    by (cases "getType r") (simp_all add: llvm_int_ops_def llvm_double_ops_def div_build_def)
qed

text \<open>The only instruction that may be illegal is the bit cast of an argument.\<close>

lemma legal_iff:
  assumes "llvm_ok D B ty meaning" "constructed e"
  shows "legal_code B ty (arg_begin B (PointerTo t)) e \<longleftrightarrow> (has_argument e \<longrightarrow> \<not> is_pointer t)"
  using assms(2)
proof (induction e)
  case (Argument i u)
  have "ty (CreateLoad B (CreateConstGEP1_64 B (arg_begin B (PointerTo t)) i)) = t"
    using llvm_okD(4) [OF assms(1)] by (simp add: llvm_leaves_def)
  then show ?case by (cases u) (simp_all add: bitcast_legal_def)
next
  case (Cast e u)
  then show ?case using build_type [OF assms(1), of e]
    by (cases u; cases "getType e") auto
qed (use build_type [OF assms(1)] in auto)

text \<open>One step of arithmetic in compiled code, on operands whose values are known.\<close>

lemma int_arith_meaning:
  assumes "llvm_ok D B ty meaning" "ty l = Int64Ty" "ty r = Int64Ty"
    "meaning l args = Some x" "meaning r args = Some y"
  shows "add_eval D INT64 x y = Some v \<Longrightarrow> meaning (CreateAdd B l r) args = Some v"
    "sub_eval D INT64 x y = Some v \<Longrightarrow> meaning (CreateSub B l r) args = Some v"
    "mul_eval D INT64 x y = Some v \<Longrightarrow> meaning (CreateMul B l r) args = Some v"
    "div_eval D INT64 x y = Some v \<Longrightarrow> meaning (CreateSDiv B l r) args = Some v"
proof -
  have ops: "meaning (CreateAdd B l r) args = Some (x + y)" "meaning (CreateSub B l r) args = Some (x - y)"
    "meaning (CreateMul B l r) args = Some (x * y)"
    "sint y \<noteq> 0 \<Longrightarrow> - (2 ^ 63) \<le> sint x sdiv sint y \<Longrightarrow> sint x sdiv sint y < 2 ^ 63 \<Longrightarrow>
       meaning (CreateSDiv B l r) args = Some (word_of_int (sint x sdiv sint y))"
    using llvm_okD(1) [OF assms(1)] assms(2-5) unfolding llvm_int_ops_def by blast+
  show "add_eval D INT64 x y = Some v \<Longrightarrow> meaning (CreateAdd B l r) args = Some v"
    using ops(1) by (auto simp: add_eval_def dest: int64_result_ops(1))
  show "sub_eval D INT64 x y = Some v \<Longrightarrow> meaning (CreateSub B l r) args = Some v"
    using ops(2) by (auto simp: sub_eval_def dest: int64_result_ops(2))
  show "mul_eval D INT64 x y = Some v \<Longrightarrow> meaning (CreateMul B l r) args = Some v"
    using ops(3) by (auto simp: mul_eval_def dest: int64_result_ops(3))
  show "div_eval D INT64 x y = Some v \<Longrightarrow> meaning (CreateSDiv B l r) args = Some v"
  proof -
    assume d: "div_eval D INT64 x y = Some v"
    then have "sint y \<noteq> 0" and "int64_result (sint x sdiv sint y) = Some v"
      by (simp_all add: div_eval_def split: if_splits)
    then show ?thesis using ops(4) int64_resultD by metis
  qed
qed

lemma double_arith_meaning:
  assumes "llvm_ok D B ty meaning" "ty l = DoubleTy" "ty r = DoubleTy"
    "meaning l args = Some x" "meaning r args = Some y"
  shows "meaning (CreateFAdd B l r) args = Some (dadd D x y)" "meaning (CreateFSub B l r) args = Some (dsub D x y)"
    "meaning (CreateFMul B l r) args = Some (dmul D x y)" "meaning (CreateFDiv B l r) args = Some (ddiv D x y)"
  using llvm_okD(2) [OF assms(1)] assms(2-5) unfolding llvm_double_ops_def by blast+

lemma cast_meaning:
  assumes "llvm_ok D B ty meaning" "ty b = ir_type s" "meaning b args = Some x" "cast_eval D s t x = Some v"
  shows "meaning (cast_build B s t b) args = Some v"
  using llvm_okD(3) [OF assms(1)] assms(2-4)
  by (cases s; cases t) (simp_all add: llvm_conversions_def cast_build_def cast_eval_def)

lemma build_meaning:
  assumes ok: "llvm_ok D B ty meaning" and "constructed e" "legal_code B ty (arg_begin B (PointerTo pt)) e"
    "evaluate D e args = Some v"
  shows "meaning (build B (arg_begin B (PointerTo pt)) e) args = Some v"
  using assms(2-4)
proof (induction e arbitrary: v)
  case (Constant t w)
  then show ?case using llvm_okD(4) [OF ok] by (cases t) (simp_all add: llvm_leaves_def constant_build_def)
next
  case (Argument i t)
  let ?ld = "CreateLoad B (CreateConstGEP1_64 B (arg_begin B (PointerTo pt)) i)"
  have i: "unat i < length args" "v = args ! unat i" using Argument.prems(3) by (auto dest: arr_get_SomeD)
  then have "meaning ?ld args = Some v" using llvm_okD(4) [OF ok] by (simp add: llvm_leaves_def)
  moreover have "bitcast_legal (ty ?ld) (ir_type t)" using Argument.prems(2) by simp
  ultimately show ?case using llvm_okD(3) [OF ok]
    by (cases t) (simp_all add: llvm_conversions_def argument_build_def Let_def)
next
  case (Cast e t)
  then obtain x where x: "evaluate D e args = Some x" "cast_eval D (getType e) t x = Some v"
    by (auto simp: bind_eq_Some_conv)
  have c: "constructed e" and g: "legal_code B ty (arg_begin B (PointerTo pt)) e" using Cast.prems(1,2) by simp_all
  show ?case using cast_meaning [OF ok build_type [OF ok c g] Cast.IH [OF c g x(1)] x(2)] by simp
next
  case (AddExpression l r)
  from AddExpression.prems obtain x y where xy: "evaluate D l args = Some x" "evaluate D r args = Some y"
    and op: "add_eval D (getType l) x y = Some v" by (auto simp: bind_eq_Some_conv)
  have c: "constructed l" "constructed r" "getType l = getType r" using AddExpression.prems(1) by simp_all
  have g: "legal_code B ty (arg_begin B (PointerTo pt)) l" "legal_code B ty (arg_begin B (PointerTo pt)) r"
    using AddExpression.prems(2) by simp_all
  note m = AddExpression.IH(1) [OF c(1) g(1) xy(1)] AddExpression.IH(2) [OF c(2) g(2) xy(2)]
  note t = build_type [OF ok c(1) g(1)] build_type [OF ok c(2) g(2)]
  show ?case
  proof (cases "getType l")
    case INT64
    with op have "add_eval D INT64 x y = Some v" by simp
    then show ?thesis using int_arith_meaning [OF ok] m t c(3) INT64 by (simp add: add_build_def)
  next
    case DOUBLE
    with op have "v = dadd D x y" by (simp add: add_eval_def)
    then show ?thesis using double_arith_meaning [OF ok] m t c(3) DOUBLE by (simp add: add_build_def)
  qed
next
  case (SubExpression l r)
  from SubExpression.prems obtain x y where xy: "evaluate D l args = Some x" "evaluate D r args = Some y"
    and op: "sub_eval D (getType l) x y = Some v" by (auto simp: bind_eq_Some_conv)
  have c: "constructed l" "constructed r" "getType l = getType r" using SubExpression.prems(1) by simp_all
  have g: "legal_code B ty (arg_begin B (PointerTo pt)) l" "legal_code B ty (arg_begin B (PointerTo pt)) r"
    using SubExpression.prems(2) by simp_all
  note m = SubExpression.IH(1) [OF c(1) g(1) xy(1)] SubExpression.IH(2) [OF c(2) g(2) xy(2)]
  note t = build_type [OF ok c(1) g(1)] build_type [OF ok c(2) g(2)]
  show ?case
  proof (cases "getType l")
    case INT64
    with op have "sub_eval D INT64 x y = Some v" by simp
    then show ?thesis using int_arith_meaning [OF ok] m t c(3) INT64 by (simp add: sub_build_def)
  next
    case DOUBLE
    with op have "v = dsub D x y" by (simp add: sub_eval_def)
    then show ?thesis using double_arith_meaning [OF ok] m t c(3) DOUBLE by (simp add: sub_build_def)
  qed
next
  case (MulExpression l r)
  from MulExpression.prems obtain x y where xy: "evaluate D l args = Some x" "evaluate D r args = Some y"
    and op: "mul_eval D (getType l) x y = Some v" by (auto simp: bind_eq_Some_conv)
  have c: "constructed l" "constructed r" "getType l = getType r" using MulExpression.prems(1) by simp_all
  have g: "legal_code B ty (arg_begin B (PointerTo pt)) l" "legal_code B ty (arg_begin B (PointerTo pt)) r"
    using MulExpression.prems(2) by simp_all
  note m = MulExpression.IH(1) [OF c(1) g(1) xy(1)] MulExpression.IH(2) [OF c(2) g(2) xy(2)]
  note t = build_type [OF ok c(1) g(1)] build_type [OF ok c(2) g(2)]
  show ?case
  proof (cases "getType l")
    case INT64
    with op have "mul_eval D INT64 x y = Some v" by simp
    then show ?thesis using int_arith_meaning [OF ok] m t c(3) INT64 by (simp add: mul_build_def)
  next
    case DOUBLE
    with op have "v = dmul D x y" by (simp add: mul_eval_def)
    then show ?thesis using double_arith_meaning [OF ok] m t c(3) DOUBLE by (simp add: mul_build_def)
  qed
next
  case (DivExpression l r)
  from DivExpression.prems obtain x y where xy: "evaluate D l args = Some x" "evaluate D r args = Some y"
    and op: "div_eval D (getType l) x y = Some v" by (auto simp: bind_eq_Some_conv)
  have c: "constructed l" "constructed r" "getType l = getType r" using DivExpression.prems(1) by simp_all
  have g: "legal_code B ty (arg_begin B (PointerTo pt)) l" "legal_code B ty (arg_begin B (PointerTo pt)) r"
    using DivExpression.prems(2) by simp_all
  note m = DivExpression.IH(1) [OF c(1) g(1) xy(1)] DivExpression.IH(2) [OF c(2) g(2) xy(2)]
  note t = build_type [OF ok c(1) g(1)] build_type [OF ok c(2) g(2)]
  show ?case
  proof (cases "getType l")
    case INT64
    with op have "div_eval D INT64 x y = Some v" by simp
    then show ?thesis using int_arith_meaning [OF ok] m t c(3) INT64 by (simp add: div_build_def)
  next
    case DOUBLE
    with op have "v = ddiv D x y" by (simp add: div_eval_def)
    then show ?thesis using double_arith_meaning [OF ok] m t c(3) DOUBLE by (simp add: div_build_def)
  qed
qed

text \<open>The value that the generated function returns.\<close>

lemma compile_body:
  assumes "llvm_ok D B ty meaning" "constructed e" "\<not> has_argument e" "evaluate D e args = Some v"
  shows "meaning (CreateBitCast B (build B (compile_args B) e) Int64Ty) args = Some v"
proof -
  have g: "legal_code B ty (compile_args B) e"
    using legal_iff [OF assms(1,2)] assms(3) by (simp add: compile_args_def)
  have "ty (build B (compile_args B) e) = ir_type (getType e)" by (rule build_type [OF assms(1,2) g])
  then have "bitcast_legal (ty (build B (compile_args B) e)) Int64Ty"
    by (cases "getType e") (simp_all add: bitcast_legal_def)
  then show ?thesis
    using llvm_okD(3) [OF assms(1)] build_meaning [OF assms(1,2) g [unfolded compile_args_def] assms(4)]
    by (simp add: llvm_conversions_def compile_args_def)
qed

section \<open>Properties\<close>

text \<open>C6: compiled code agrees with the interpreter wherever LLVM defines what the generated code
  does. When the arguments are an array of numbers (of integers or of doubles), the code that
  \<open>build\<close> generates for any expression whose binary nodes passed the assertion of their constructor
  has the interpreter's value on all arguments for which the interpreter has a defined result: the
  integer and double constants, arguments, casts in both directions and the four arithmetic
  operations at both types, at any depth. \<open>compile\<close> declares an array of pointers instead, and
  what it generates for an argument is not legal (C7); an expression without arguments compiles on
  a fresh compiler, whatever the JIT answers (a second compilation on it, of any expression, finds
  the module gone and is undefined), and when the JIT takes it, running the compiled function gives
  the interpreter's 64 bits.\<close>

theorem compiled_agrees:
  assumes "llvm_ok D B ty meaning" "constructed e"
  shows "(\<forall>t v. \<not> is_pointer t \<longrightarrow> evaluate D e args = Some v \<longrightarrow>
        meaning (build B (arg_begin B (PointerTo t)) e) args = Some v)
    \<and> (\<not> has_argument e \<longrightarrow> (\<exists>accepted c. compile B accepts e compiler_init = Some (accepted, c)
        \<and> accepted = accepts (CreateBitCast B (build B (compile_args B) e) Int64Ty)
        \<and> compile B accepts e' c = None
        \<and> (\<not> accepted \<longrightarrow> run_compiled meaning c args = None)
        \<and> (\<forall>v. accepted \<longrightarrow> evaluate D e args = Some v \<longrightarrow> run_compiled meaning c args = Some v)))"
proof -
  have "meaning (build B (arg_begin B (PointerTo t)) e) args = Some v"
    if "\<not> is_pointer t" "evaluate D e args = Some v" for t v
    using build_meaning [OF assms _ that(2), of t] legal_iff [OF assms, of t] that(1) by simp
  then show ?thesis
    using compile_body [OF assms] by (simp add: compile_def compiler_init_def run_compiled_def Let_def)
qed

lemma compiled_agrees_witness:
  "llvm_ok sample_doubles (sample_llvm sample_doubles) fst snd \<and> constructed sample_expr \<and> constructed sample_constants
   \<and> snd (build (sample_llvm sample_doubles) (arg_begin (sample_llvm sample_doubles) (PointerTo Int64Ty)) sample_expr) [11, 4] = Some 2
   \<and> (\<exists>c. compile (sample_llvm sample_doubles) (\<lambda>_. True) sample_constants compiler_init = Some (True, c)
        \<and> run_compiled snd c [] = Some 2)"
proof -
  have c: "constructed sample_expr" "constructed sample_constants" "\<not> has_argument sample_constants"
    by (simp_all add: sample_expr_def sample_constants_def constant_int_def constant_double_def)
  have e: "evaluate sample_doubles sample_expr [11, 4] = Some 2" "evaluate sample_doubles sample_constants [] = Some 2"
    by code_simp+
  have "\<not> is_pointer Int64Ty" by simp
  then have b: "snd (build (sample_llvm sample_doubles) (arg_begin (sample_llvm sample_doubles) (PointerTo Int64Ty)) sample_expr) [11, 4] = Some 2"
    using conjunct1 [OF compiled_agrees [OF sample_llvm_ok [of sample_doubles] c(1), of "[11, 4]"]] e(1) by blast
  obtain accepted d where d: "compile (sample_llvm sample_doubles) (\<lambda>_. True) sample_constants compiler_init = Some (accepted, d)"
    "accepted" "run_compiled snd d [] = Some 2"
    using conjunct2 [OF compiled_agrees [OF sample_llvm_ok [of sample_doubles] c(2), of "[]" "\<lambda>_. True" sample_constants]]
      c(3) e(2) by blast
  then show ?thesis using b c sample_llvm_ok [of sample_doubles] by auto
qed

text \<open>C7: which generated code is well typed. Under the operand typing of LLVM's language reference,
  an expression whose binary nodes passed the assertion of their constructor is built into legal
  code for an array of numbers; for the array of pointers that \<open>compile\<close> declares the code is legal
  if and only if the expression has no argument, because an argument's bit cast is one from a
  pointer to a number. Legal code has the type that \<open>getType\<close> names, so that an integer
  instruction never gets a double operand nor a floating-point instruction an integer, and a cast
  converts exactly when the types differ.\<close>

theorem build_well_typed:
  assumes "llvm_ok D B ty meaning" "constructed e"
  shows "(\<forall>t. \<not> is_pointer t \<longrightarrow> legal_code B ty (arg_begin B (PointerTo t)) e)
    \<and> (legal_code B ty (compile_args B) e \<longleftrightarrow> \<not> has_argument e)
    \<and> (\<forall>args. legal_code B ty args e \<longrightarrow> ty (build B args e) = ir_type (getType e))"
  using legal_iff [OF assms] build_type [OF assms] by (simp add: compile_args_def)

lemma build_well_typed_witness:
  "\<not> legal_code (sample_llvm sample_doubles) fst (compile_args (sample_llvm sample_doubles)) sample_expr
   \<and> fst (build (sample_llvm sample_doubles) (arg_begin (sample_llvm sample_doubles) (PointerTo Int64Ty)) sample_expr) = Int64Ty"
proof -
  have c: "constructed sample_expr" "has_argument sample_expr" "getType sample_expr = INT64"
    by (simp_all add: sample_expr_def constant_int_def)
  note w = build_well_typed [OF sample_llvm_ok [of sample_doubles] c(1)]
  have "\<not> is_pointer Int64Ty" by simp
  then have "legal_code (sample_llvm sample_doubles) fst (arg_begin (sample_llvm sample_doubles) (PointerTo Int64Ty)) sample_expr"
    using w by blast
  then show ?thesis using w c(2) c(3) [THEN arg_cong [of _ _ ir_type]] unfolding ir_type.simps by metis
qed

end
