(* ===== verification/Buffer_Manager.thy ===== *)
theory Buffer_Manager
  imports Prelude_DB "HOL-Library.Word" "HOL-Library.AList"
begin

text \<open>
  The concurrent buffer manager of \<^verbatim>\<open>src/task-buffer-manager/src/buffer_manager.cc\<close> as a state
  machine of threads. Every section that the code runs under the directory latch
  (\<open>global_mutex\<close>) is one step, and so are the call of a page's mutex and the reading or writing
  of a file that the code makes while it has released the latch; threads interleave between
  steps. A page is the list of its bytes; a frame points to a page of \<open>loaded_pages\<close> by its
  index. A failed assertion, the decrement of a counter that is zero, the release of a mutex that
  the thread does not hold and an access outside memory or the file have no result. Sizes and
  offsets are naturals. The exceptions of the file system are not modelled. A thread that waits
  for a page keeps an iterator of the hash table over the wait (line 135); here it finds the frame
  of its page again, and an insertion that rehashes the table in between, which invalidates the
  iterator, is not modelled.
\<close>

unbundle bit_operations_syntax

section \<open>State\<close>

type_synonym pid = "64 word"
type_synonym bytes = "8 word list"

datatype frame_state = NEW | LOADING | LOADED | EVICTING | RELOADED

text \<open>The iterators into the two lists are either at the end or at the frame itself.\<close>

record frame =
  fdata :: "nat option"
  fstate :: frame_state
  num_users :: nat
  exclusively_locked :: bool
  is_dirty :: bool
  fifo_position :: bool
  lru_position :: bool
  mutex_writer :: "nat option"
  mutex_readers :: "nat list"

text \<open>
  Where a thread is: in user code (\<open>Thrown\<close>: after \<open>buffer_full_error\<close>); in \<open>fix_page\<close> before the
  mutex of a new page, with it, after it, before the file write of a victim whose copy it has
  made, after it, before the file read of the page, after it, or before the mutex of the page
  that it returns; in \<open>unfix_page\<close> after the mutex of the page has been given back.
\<close>

datatype location =
    Ready
  | Thrown pid
  | Wait_new pid bool
  | Waiting_locked pid bool
  | Waited pid bool
  | Write_victim pid bool pid bytes
  | Written_victim pid bool pid
  | Read_page pid bool
  | Read_done pid bool
  | Lock_page pid bool
  | Unfixing pid bool

text \<open>The pages that a thread has fixed: exclusively or not, and whether it has written to them.\<close>

type_synonym hold = "pid \<times> bool \<times> bool"

record thread =
  at_loc :: location
  holds :: "hold list"

record bm =
  page_size :: nat
  page_count :: nat
  fifo_list :: "pid list"
  lru_list :: "pid list"
  loaded_pages :: "bytes list"
  segment_files :: "16 word list"
  bufferframes :: "(pid \<times> frame) list"
  files :: "16 word \<Rightarrow> bytes"
  threads :: "thread list"

definition bm_init :: "nat \<Rightarrow> nat \<Rightarrow> (16 word \<Rightarrow> bytes) \<Rightarrow> nat \<Rightarrow> bm" where
  "bm_init psize cnt fs n =
     \<lparr>page_size = psize, page_count = cnt, fifo_list = [], lru_list = [],
      loaded_pages = replicate cnt (replicate psize 0), segment_files = [], bufferframes = [],
      files = fs, threads = replicate n \<lparr>at_loc = Ready, holds = []\<rparr>\<rparr>"

definition bm_segment_id :: "pid \<Rightarrow> 16 word" where
  "bm_segment_id p = ucast (drop_bit 48 p)"

definition bm_segment_page_id :: "pid \<Rightarrow> nat" where
  "bm_segment_page_id p = unat (p AND (push_bit 48 1 - 1))"

section \<open>Frames\<close>

definition frame_of :: "bm \<Rightarrow> pid \<Rightarrow> frame option" where
  "frame_of s p = map_of (bufferframes s) p"

definition put_frame :: "pid \<Rightarrow> frame \<Rightarrow> bm \<Rightarrow> bm" where
  "put_frame p f s = s\<lparr>bufferframes := AList.update p f (bufferframes s)\<rparr>"

definition drop_frame :: "pid \<Rightarrow> bm \<Rightarrow> bm" where
  "drop_frame p s = s\<lparr>bufferframes := AList.delete p (bufferframes s)\<rparr>"

definition set_at :: "nat \<Rightarrow> location \<Rightarrow> bm \<Rightarrow> bm" where
  "set_at t l s = s\<lparr>threads := (threads s)[t := (threads s ! t)\<lparr>at_loc := l\<rparr>]\<rparr>"

definition set_holds :: "nat \<Rightarrow> hold list \<Rightarrow> bm \<Rightarrow> bm" where
  "set_holds t hs s = s\<lparr>threads := (threads s)[t := (threads s ! t)\<lparr>holds := hs\<rparr>]\<rparr>"

definition new_frame :: "frame" where
  "new_frame = \<lparr>fdata = None, fstate = NEW, num_users = 0, exclusively_locked = False, is_dirty = False,
     fifo_position = False, lru_position = False, mutex_writer = None, mutex_readers = []\<rparr>"

definition mutex_free :: "bool \<Rightarrow> frame \<Rightarrow> bool" where
  "mutex_free exclusive f \<longleftrightarrow> mutex_writer f = None \<and> (exclusive \<longrightarrow> mutex_readers f = [])"

definition page_lock :: "bool \<Rightarrow> nat \<Rightarrow> frame \<Rightarrow> frame" where
  "page_lock exclusive t f =
     (if exclusive then f\<lparr>mutex_writer := Some t, exclusively_locked := True\<rparr>
      else f\<lparr>mutex_readers := t # mutex_readers f\<rparr>)"

definition page_unlock :: "nat \<Rightarrow> frame \<Rightarrow> frame option" where
  "page_unlock t f =
     (if exclusively_locked f then do {
        require (mutex_writer f = Some t);
        Some (f\<lparr>exclusively_locked := False, mutex_writer := None\<rparr>) }
      else do {
        require (t \<in> set (mutex_readers f));
        Some (f\<lparr>mutex_readers := remove1 t (mutex_readers f)\<rparr>) })"

definition set_dirty :: "frame \<Rightarrow> frame" where
  "set_dirty f = f\<lparr>is_dirty := True\<rparr>"

definition inc_num_users :: "frame \<Rightarrow> frame" where
  "inc_num_users f = f\<lparr>num_users := num_users f + 1\<rparr>"

definition dec_num_users :: "frame \<Rightarrow> frame option" where
  "dec_num_users f = do { require (num_users f > 0); Some (f\<lparr>num_users := num_users f - 1\<rparr>) }"

section \<open>Loading, writing and evicting pages\<close>

definition page_offset :: "bm \<Rightarrow> pid \<Rightarrow> nat" where
  "page_offset s p = bm_segment_page_id p * page_size s"

definition set_file :: "pid \<Rightarrow> bytes \<Rightarrow> bm \<Rightarrow> bm" where
  "set_file p c s = s\<lparr>files := (files s)(bm_segment_id p := c)\<rparr>"

definition file_resized :: "nat \<Rightarrow> bytes \<Rightarrow> bytes" where
  "file_resized n c = take n c @ replicate (n - length c) 0"

text \<open>\<open>load_page\<close> until it returns or releases the latch to read the file: whether it reads.\<close>

definition load_page :: "pid \<Rightarrow> nat \<Rightarrow> bm \<Rightarrow> (bool \<times> bm) option" where
  "load_page p d s = do {
     f \<leftarrow> frame_of s p;
     require (fstate f = LOADING);
     let s = s\<lparr>segment_files := List.insert (bm_segment_id p) (segment_files s)\<rparr>;
     let c = files s (bm_segment_id p);
     let end_of_page = (bm_segment_page_id p + 1) * page_size s;
     if length c < end_of_page then do {
       let s = set_file p (file_resized end_of_page c) s;
       pages \<leftarrow> arr_set (loaded_pages s) d (replicate (page_size s) 0);
       Some (False, s\<lparr>loaded_pages := pages\<rparr>) }
     else Some (True, s) }"

definition read_page :: "pid \<Rightarrow> bm \<Rightarrow> bm option" where
  "read_page p s = do {
     f \<leftarrow> frame_of s p;
     d \<leftarrow> fdata f;
     old \<leftarrow> arr_get (loaded_pages s) d;
     new \<leftarrow> memcpy old 0 (files s (bm_segment_id p)) (page_offset s p) (page_size s);
     pages \<leftarrow> arr_set (loaded_pages s) d new;
     Some (s\<lparr>loaded_pages := pages\<rparr>) }"

text \<open>The end of \<open>load_page\<close> and of \<open>fix_page\<close> under the latch.\<close>

definition page_loaded :: "nat \<Rightarrow> pid \<Rightarrow> bool \<Rightarrow> bm \<Rightarrow> bm option" where
  "page_loaded t p exclusive s = do {
     f \<leftarrow> frame_of s p;
     f \<leftarrow> page_unlock t (f\<lparr>fstate := LOADED, is_dirty := False\<rparr>);
     Some (set_at t (Lock_page p exclusive) (put_frame p f s)) }"

definition write_out_page :: "pid \<Rightarrow> bytes \<Rightarrow> bm \<Rightarrow> bm option" where
  "write_out_page p block s = do {
     require (bm_segment_id p \<in> set (segment_files s));
     c \<leftarrow> memcpy (files s (bm_segment_id p)) (page_offset s p) block 0 (page_size s);
     Some (set_file p c s) }"

definition can_evict :: "bm \<Rightarrow> pid \<Rightarrow> bool" where
  "can_evict s p = (case frame_of s p of None \<Rightarrow> False | Some f \<Rightarrow> num_users f = 0 \<and> fstate f = LOADED)"

definition find_page_to_evict :: "bm \<Rightarrow> pid option" where
  "find_page_to_evict s =
     (case find (can_evict s) (fifo_list s) of
        Some p \<Rightarrow> Some p
      | None \<Rightarrow> find (can_evict s) (lru_list s))"

text \<open>The end of \<open>evict_page\<close>: the memory of the victim.\<close>

definition drop_victim :: "pid \<Rightarrow> bm \<Rightarrow> (nat \<times> bm) option" where
  "drop_victim v s = do {
     f \<leftarrow> frame_of s v;
     s \<leftarrow> (if lru_position f then Some (s\<lparr>lru_list := remove1 v (lru_list s)\<rparr>)
           else do { require (fifo_position f); Some (s\<lparr>fifo_list := remove1 v (fifo_list s)\<rparr>) });
     d \<leftarrow> fdata f;
     Some (d, drop_frame v s) }"

section \<open>Fixing and unfixing\<close>

text \<open>A page that has memory is loaded.\<close>

definition fix_load :: "nat \<Rightarrow> pid \<Rightarrow> bool \<Rightarrow> nat \<Rightarrow> bm \<Rightarrow> bm option" where
  "fix_load t p exclusive d s = do {
     f \<leftarrow> frame_of s p;
     let s = put_frame p (f\<lparr>fstate := LOADING, fdata := Some d, fifo_position := True\<rparr>) s;
     let s = s\<lparr>fifo_list := fifo_list s @ [p]\<rparr>;
     (reads, s) \<leftarrow> load_page p d s;
     if reads then Some (set_at t (Read_page p exclusive) s) else page_loaded t p exclusive s }"

text \<open>No page could be evicted: the exception.\<close>

definition fix_failed :: "nat \<Rightarrow> pid \<Rightarrow> bm \<Rightarrow> bm option" where
  "fix_failed t p s = do {
     f \<leftarrow> frame_of s p;
     f \<leftarrow> dec_num_users f;
     f \<leftarrow> page_unlock t f;
     let s = set_at t (Thrown p) s;
     if num_users f = 0
     then do { require (\<not> fifo_position f \<and> \<not> lru_position f); Some (drop_frame p s) }
     else Some (put_frame p f s) }"

definition fix_evicted :: "nat \<Rightarrow> pid \<Rightarrow> bool \<Rightarrow> pid \<Rightarrow> bm \<Rightarrow> bm option" where
  "fix_evicted t p exclusive v s = do { (d, s) \<leftarrow> drop_victim v s; fix_load t p exclusive d s }"

text \<open>One round of the loop of \<open>evict_page\<close>, until the latch is released to write the copy.\<close>

definition evict_page :: "nat \<Rightarrow> pid \<Rightarrow> bool \<Rightarrow> bm \<Rightarrow> bm option" where
  "evict_page t p exclusive s =
     (case find_page_to_evict s of
        None \<Rightarrow> fix_failed t p s
      | Some v \<Rightarrow> do {
          f \<leftarrow> frame_of s v;
          require (fstate f = LOADED);
          let s = put_frame v (f\<lparr>fstate := EVICTING\<rparr>) s;
          if \<not> is_dirty f then fix_evicted t p exclusive v s
          else do {
            d \<leftarrow> fdata f;
            copy \<leftarrow> arr_get (loaded_pages s) d;
            Some (set_at t (Write_victim p exclusive v copy) s) } })"

definition evict_written :: "nat \<Rightarrow> pid \<Rightarrow> bool \<Rightarrow> pid \<Rightarrow> bm \<Rightarrow> bm option" where
  "evict_written t p exclusive v s = do {
     f \<leftarrow> frame_of s v;
     require (fstate f = EVICTING \<or> fstate f = RELOADED);
     if fstate f = EVICTING then fix_evicted t p exclusive v s
     else evict_page t p exclusive (put_frame v (f\<lparr>fstate := LOADED\<rparr>) s) }"

definition fix_new :: "nat \<Rightarrow> pid \<Rightarrow> bool \<Rightarrow> bm \<Rightarrow> bm option" where
  "fix_new t p exclusive s = do {
     require (frame_of s p = None);
     let s = put_frame p (page_lock True t (inc_num_users new_frame)) s;
     if length (bufferframes s) - 1 < page_count s
     then fix_load t p exclusive (length (bufferframes s) - 1) s
     else evict_page t p exclusive s }"

text \<open>A page that is fixed moves to the end of the LRU list.\<close>

definition touch :: "pid \<Rightarrow> bm \<Rightarrow> bm option" where
  "touch p s = do {
     f \<leftarrow> frame_of s p;
     if lru_position f then Some (s\<lparr>lru_list := remove1 p (lru_list s) @ [p]\<rparr>)
     else do {
       require (fifo_position f);
       let s = put_frame p (f\<lparr>fifo_position := False, lru_position := True\<rparr>) s;
       Some (s\<lparr>fifo_list := remove1 p (fifo_list s), lru_list := lru_list s @ [p]\<rparr>) } }"

definition fix_hit :: "nat \<Rightarrow> pid \<Rightarrow> bool \<Rightarrow> frame \<Rightarrow> bm \<Rightarrow> bm option" where
  "fix_hit t p exclusive f s = do {
     let f = inc_num_users f;
     if fstate f = NEW then Some (set_at t (Wait_new p exclusive) (put_frame p f s))
     else do {
       let f = (if fstate f = EVICTING then f\<lparr>fstate := RELOADED\<rparr> else f);
       s \<leftarrow> touch p (put_frame p f s);
       Some (set_at t (Lock_page p exclusive) s) } }"

definition bm_fix_page :: "nat \<Rightarrow> pid \<Rightarrow> bool \<Rightarrow> bm \<Rightarrow> bm option" where
  "bm_fix_page t p exclusive s =
     (case frame_of s p of Some f \<Rightarrow> fix_hit t p exclusive f s | None \<Rightarrow> fix_new t p exclusive s)"

text \<open>The latch again, after the wait for a new page: when it failed, the loop starts again.\<close>

definition fix_waited :: "nat \<Rightarrow> pid \<Rightarrow> bool \<Rightarrow> bm \<Rightarrow> bm option" where
  "fix_waited t p exclusive s = do {
     f \<leftarrow> frame_of s p;
     if fstate f = NEW then do {
       f \<leftarrow> dec_num_users f;
       s \<leftarrow> (if num_users f = 0
             then do { require (\<not> fifo_position f \<and> \<not> lru_position f); Some (drop_frame p s) }
             else Some (put_frame p f s));
       bm_fix_page t p exclusive s }
     else do { s \<leftarrow> touch p s; Some (set_at t (Lock_page p exclusive) s) } }"

definition unfix_unlock :: "nat \<Rightarrow> pid \<Rightarrow> bool \<Rightarrow> bm \<Rightarrow> bm option" where
  "unfix_unlock t p dirty s = do {
     f \<leftarrow> frame_of s p;
     f \<leftarrow> page_unlock t f;
     Some (set_at t (Unfixing p dirty) (put_frame p f s)) }"

definition unfix_finish :: "nat \<Rightarrow> pid \<Rightarrow> bool \<Rightarrow> bm \<Rightarrow> bm option" where
  "unfix_finish t p dirty s = do {
     f \<leftarrow> frame_of s p;
     f \<leftarrow> dec_num_users (if dirty then set_dirty f else f);
     Some (set_at t Ready (put_frame p f s)) }"

text \<open>The destructor writes every frame; the flags, which nobody reads any more, are left out.\<close>

fun write_frames :: "(pid \<times> frame) list \<Rightarrow> bm \<Rightarrow> bm option" where
  "write_frames [] s = Some s"
| "write_frames ((p, f) # fs) s = do {
     d \<leftarrow> fdata f;
     block \<leftarrow> arr_get (loaded_pages s) d;
     s \<leftarrow> write_out_page p block s;
     write_frames fs s }"

definition bm_destroy :: "bm \<Rightarrow> bm option" where
  "bm_destroy s = write_frames (bufferframes s) s"

text \<open>The page ids of the frames in a list.\<close>

definition bm_get_fifo_list :: "bm \<Rightarrow> pid list" where
  "bm_get_fifo_list s = fifo_list s"

definition bm_get_lru_list :: "bm \<Rightarrow> pid list" where
  "bm_get_lru_list s = lru_list s"

section \<open>Threads\<close>

text \<open>
  What a thread does in user code: fix a page, write to a page that it holds exclusively, unfix a
  page that it holds (dirty, when it has written to it); and the next step of a call.
\<close>

datatype action =
    Fix_page pid bool
  | Write_data pid bytes
  | Unfix_page pid bool
  | Continue

definition loc :: "bm \<Rightarrow> nat \<Rightarrow> location" where
  "loc s t = at_loc (threads s ! t)"

definition held_by :: "bm \<Rightarrow> nat \<Rightarrow> hold list" where
  "held_by s t = holds (threads s ! t)"

fun in_user_code :: "location \<Rightarrow> bool" where
  "in_user_code Ready = True"
| "in_user_code (Thrown p) = True"
| "in_user_code _ = False"

definition holding :: "pid \<Rightarrow> hold list \<Rightarrow> hold option" where
  "holding p hs = find (\<lambda>h. fst h = p) hs"

definition mutex_ready :: "bm \<Rightarrow> pid \<Rightarrow> bool \<Rightarrow> bool" where
  "mutex_ready s p exclusive = (case frame_of s p of None \<Rightarrow> True | Some f \<Rightarrow> mutex_free exclusive f)"

fun enabled :: "bm \<Rightarrow> nat \<Rightarrow> action \<Rightarrow> bool" where
  "enabled s t (Fix_page p e) = (t < length (threads s) \<and> in_user_code (loc s t))"
| "enabled s t (Write_data p bs) =
     (t < length (threads s) \<and> in_user_code (loc s t) \<and> length bs = page_size s
      \<and> (case holding p (held_by s t) of None \<Rightarrow> False | Some h \<Rightarrow> fst (snd h)))"
| "enabled s t (Unfix_page p dirty) =
     (t < length (threads s) \<and> in_user_code (loc s t)
      \<and> (case holding p (held_by s t) of None \<Rightarrow> False | Some h \<Rightarrow> snd (snd h) \<longrightarrow> dirty))"
| "enabled s t Continue =
     (t < length (threads s) \<and>
      (case loc s t of Wait_new p e \<Rightarrow> mutex_ready s p True | Lock_page p e \<Rightarrow> mutex_ready s p e
       | l \<Rightarrow> \<not> in_user_code l))"

definition write_data :: "nat \<Rightarrow> pid \<Rightarrow> bytes \<Rightarrow> bm \<Rightarrow> bm option" where
  "write_data t p bs s = do {
     h \<leftarrow> holding p (held_by s t);
     f \<leftarrow> frame_of s p;
     d \<leftarrow> fdata f;
     pages \<leftarrow> arr_set (loaded_pages s) d bs;
     Some (set_holds t ((p, fst (snd h), True) # remove1 h (held_by s t)) (s\<lparr>loaded_pages := pages\<rparr>)) }"

definition continue :: "nat \<Rightarrow> bm \<Rightarrow> bm option" where
  "continue t s =
     (case loc s t of
        Wait_new p e \<Rightarrow> do {
          f \<leftarrow> frame_of s p;
          Some (set_at t (Waiting_locked p e) (put_frame p (page_lock True t f) s)) }
      | Waiting_locked p e \<Rightarrow> do {
          f \<leftarrow> frame_of s p;
          f \<leftarrow> page_unlock t f;
          Some (set_at t (Waited p e) (put_frame p f s)) }
      | Waited p e \<Rightarrow> fix_waited t p e s
      | Write_victim p e v copy \<Rightarrow> do {
          s \<leftarrow> write_out_page v copy s;
          Some (set_at t (Written_victim p e v) s) }
      | Written_victim p e v \<Rightarrow> evict_written t p e v s
      | Read_page p e \<Rightarrow> do { s \<leftarrow> read_page p s; Some (set_at t (Read_done p e) s) }
      | Read_done p e \<Rightarrow> page_loaded t p e s
      | Lock_page p e \<Rightarrow> do {
          f \<leftarrow> frame_of s p;
          Some (set_holds t ((p, e, False) # held_by s t) (set_at t Ready (put_frame p (page_lock e t f) s))) }
      | Unfixing p dirty \<Rightarrow> unfix_finish t p dirty s
      | _ \<Rightarrow> None)"

fun exec :: "nat \<Rightarrow> action \<Rightarrow> bm \<Rightarrow> bm option" where
  "exec t (Fix_page p e) s = bm_fix_page t p e s"
| "exec t (Write_data p bs) s = write_data t p bs s"
| "exec t (Unfix_page p dirty) s = do {
     h \<leftarrow> holding p (held_by s t);
     unfix_unlock t p dirty (set_holds t (remove1 h (held_by s t)) s) }"
| "exec t Continue s = continue t s"

inductive bm_step :: "bm \<Rightarrow> nat \<Rightarrow> action \<Rightarrow> bm \<Rightarrow> bool" where
  step: "enabled s t a \<Longrightarrow> exec t a s = Some s' \<Longrightarrow> bm_step s t a s'"

text \<open>Runs from a manager of \<open>cnt\<close> pages of \<open>size\<close> bytes, over files of whole pages.\<close>

definition whole_pages :: "nat \<Rightarrow> (16 word \<Rightarrow> bytes) \<Rightarrow> bool" where
  "whole_pages psize fs \<longleftrightarrow> (\<forall>g. psize dvd length (fs g))"

inductive bm_reachable :: "bm \<Rightarrow> bool" where
  init: "whole_pages psize fs \<Longrightarrow> 0 < psize \<Longrightarrow> bm_reachable (bm_init psize cnt fs n)"
| step: "bm_reachable s \<Longrightarrow> bm_step s t a s' \<Longrightarrow> bm_reachable s'"

fun run :: "bm \<Rightarrow> (nat \<times> action) list \<Rightarrow> bm option" where
  "run s [] = Some s"
| "run s ((t, a) # as) = (if enabled s t a then do { s' \<leftarrow> exec t a s; run s' as } else None)"

lemma run_reachable: "bm_reachable s \<Longrightarrow> run s as = Some s' \<Longrightarrow> bm_reachable s'"
proof (induction as arbitrary: s)
  case Nil
  then show ?case by simp
next
  case (Cons a as)
  obtain t b where a: "a = (t, b)" by (cases a)
  with Cons.prems(2) obtain s1 where "enabled s t b" "exec t b s = Some s1" "run s1 as = Some s'"
    by (auto split: if_splits simp: bind_eq_Some_conv)
  then show ?case using Cons.IH bm_reachable.step [OF Cons.prems(1) bm_step.step] by blast
qed

end
