(* ===== verification/Buffer_Invariant.thy ===== *)
theory Buffer_Invariant
  imports Buffer_Manager
begin

text \<open>
  The invariant of the buffer manager, in parts: who refers to a frame, who holds its mutex, the
  two lists, the memory of the pages, what each thread may rely on where it is, and when memory
  and file agree. The contents of a page that the manager presents to its users is \<open>contents\<close>.
\<close>

section \<open>Reading a state after an update\<close>

lemma frame_of_update [simp]:
  "frame_of (put_frame p f s) q = (if q = p then Some f else frame_of s q)"
  "frame_of (drop_frame p s) q = (if q = p then None else frame_of s q)"
  "frame_of (set_at t l s) q = frame_of s q"
  "frame_of (set_holds t hs s) q = frame_of s q"
  "frame_of (set_file p c s) q = frame_of s q"
  "frame_of (s\<lparr>fifo_list := ps\<rparr>) q = frame_of s q"
  "frame_of (s\<lparr>lru_list := ps\<rparr>) q = frame_of s q"
  "frame_of (s\<lparr>loaded_pages := pgs\<rparr>) q = frame_of s q"
  "frame_of (s\<lparr>segment_files := gs\<rparr>) q = frame_of s q"
  by (simp_all add: frame_of_def put_frame_def drop_frame_def set_at_def set_holds_def set_file_def
      update_conv' delete_conv')

lemma select_put [simp]:
  "page_size (put_frame p f s) = page_size s" "page_count (put_frame p f s) = page_count s"
  "fifo_list (put_frame p f s) = fifo_list s" "lru_list (put_frame p f s) = lru_list s"
  "loaded_pages (put_frame p f s) = loaded_pages s" "segment_files (put_frame p f s) = segment_files s"
  "files (put_frame p f s) = files s" "threads (put_frame p f s) = threads s"
  by (simp_all add: put_frame_def)

lemma select_drop [simp]:
  "page_size (drop_frame p s) = page_size s" "page_count (drop_frame p s) = page_count s"
  "fifo_list (drop_frame p s) = fifo_list s" "lru_list (drop_frame p s) = lru_list s"
  "loaded_pages (drop_frame p s) = loaded_pages s" "segment_files (drop_frame p s) = segment_files s"
  "files (drop_frame p s) = files s" "threads (drop_frame p s) = threads s"
  by (simp_all add: drop_frame_def)

lemma select_set_at [simp]:
  "page_size (set_at t l s) = page_size s" "page_count (set_at t l s) = page_count s"
  "fifo_list (set_at t l s) = fifo_list s" "lru_list (set_at t l s) = lru_list s"
  "loaded_pages (set_at t l s) = loaded_pages s" "segment_files (set_at t l s) = segment_files s"
  "files (set_at t l s) = files s" "bufferframes (set_at t l s) = bufferframes s"
  "threads (set_at t l s) = (threads s)[t := (threads s ! t)\<lparr>at_loc := l\<rparr>]"
  by (simp_all add: set_at_def)

lemma select_set_holds [simp]:
  "page_size (set_holds t hs s) = page_size s" "page_count (set_holds t hs s) = page_count s"
  "fifo_list (set_holds t hs s) = fifo_list s" "lru_list (set_holds t hs s) = lru_list s"
  "loaded_pages (set_holds t hs s) = loaded_pages s" "segment_files (set_holds t hs s) = segment_files s"
  "files (set_holds t hs s) = files s" "bufferframes (set_holds t hs s) = bufferframes s"
  "threads (set_holds t hs s) = (threads s)[t := (threads s ! t)\<lparr>holds := hs\<rparr>]"
  by (simp_all add: set_holds_def)

lemma select_set_file [simp]:
  "page_size (set_file p c s) = page_size s" "page_count (set_file p c s) = page_count s"
  "fifo_list (set_file p c s) = fifo_list s" "lru_list (set_file p c s) = lru_list s"
  "loaded_pages (set_file p c s) = loaded_pages s" "segment_files (set_file p c s) = segment_files s"
  "bufferframes (set_file p c s) = bufferframes s" "threads (set_file p c s) = threads s"
  "files (set_file p c s) = (files s)(bm_segment_id p := c)"
  by (simp_all add: set_file_def)

text \<open>The location of a thread that is inside a section does not matter to the section.\<close>

lemma set_at_commute [simp]:
  "put_frame p f (set_at t l s) = set_at t l (put_frame p f s)"
  "drop_frame p (set_at t l s) = set_at t l (drop_frame p s)"
  "set_file p c (set_at t l s) = set_at t l (set_file p c s)"
  "set_at t l (set_at t l' s) = set_at t l s"
  "(set_at t l s)\<lparr>fifo_list := ps\<rparr> = set_at t l (s\<lparr>fifo_list := ps\<rparr>)"
  "(set_at t l s)\<lparr>lru_list := ps\<rparr> = set_at t l (s\<lparr>lru_list := ps\<rparr>)"
  "(set_at t l s)\<lparr>loaded_pages := pgs\<rparr> = set_at t l (s\<lparr>loaded_pages := pgs\<rparr>)"
  "(set_at t l s)\<lparr>segment_files := gs\<rparr> = set_at t l (s\<lparr>segment_files := gs\<rparr>)"
  by (cases "t < length (threads s)"; simp add: put_frame_def drop_frame_def set_file_def set_at_def list_update_beyond)+

lemma can_evict_set_at [simp]: "can_evict (set_at t l s) = can_evict s"
  by (simp add: can_evict_def fun_eq_iff split: option.splits)

lemma find_page_to_evict_set_at [simp]: "find_page_to_evict (set_at t l s) = find_page_to_evict s"
  by (simp add: find_page_to_evict_def split: option.split)

lemma load_page_set_at: "load_page p d (set_at t l s) = map_option (\<lambda>(r, s'). (r, set_at t l s')) (load_page p d s)"
  by (auto simp: load_page_def Let_def require_bind_if split: bind_splits)

lemma page_loaded_set_at [simp]: "page_loaded t p e (set_at t l s) = page_loaded t p e s"
  by (simp add: page_loaded_def)

lemma fix_load_set_at [simp]: "fix_load t p e d (set_at t l s) = fix_load t p e d s"
proof (cases "frame_of s p")
  case (Some f)
  let ?s = "put_frame p (f\<lparr>fstate := LOADING, fdata := Some d, fifo_position := True\<rparr>) s"
  show ?thesis
    using Some by (cases "load_page p d (?s\<lparr>fifo_list := fifo_list s @ [p]\<rparr>)") (auto simp: fix_load_def Let_def load_page_set_at)
qed (simp add: fix_load_def)

lemma fix_failed_set_at [simp]: "fix_failed t p (set_at t l s) = fix_failed t p s"
  by (simp add: fix_failed_def Let_def)

lemma drop_victim_set_at: "drop_victim v (set_at t l s) = map_option (\<lambda>(d, s'). (d, set_at t l s')) (drop_victim v s)"
  by (auto simp: drop_victim_def require_bind_if map_option_bind split: bind_splits)

lemma fix_evicted_set_at [simp]: "fix_evicted t p e v (set_at t l s) = fix_evicted t p e v s"
  by (cases "drop_victim v s") (auto simp: fix_evicted_def drop_victim_set_at)

lemma evict_page_set_at [simp]: "evict_page t p e (set_at t l s) = evict_page t p e s"
  by (auto simp: evict_page_def Let_def split: option.splits intro!: bind_option_cong)

section \<open>The invariant\<close>

subsection \<open>Threads that refer to a page\<close>

fun page_of :: "location \<Rightarrow> pid option" where
  "page_of Ready = None"
| "page_of (Thrown p) = None"
| "page_of (Wait_new p e) = Some p"
| "page_of (Waiting_locked p e) = Some p"
| "page_of (Waited p e) = Some p"
| "page_of (Write_victim p e v c) = Some p"
| "page_of (Written_victim p e v) = Some p"
| "page_of (Read_page p e) = Some p"
| "page_of (Read_done p e) = Some p"
| "page_of (Lock_page p e) = Some p"
| "page_of (Unfixing p d) = Some p"

text \<open>The page whose mutex the thread has locked inside \<open>fix_page\<close>, and its victim.\<close>

fun owned_page :: "location \<Rightarrow> pid option" where
  "owned_page (Waiting_locked p e) = Some p"
| "owned_page (Write_victim p e v c) = Some p"
| "owned_page (Written_victim p e v) = Some p"
| "owned_page (Read_page p e) = Some p"
| "owned_page (Read_done p e) = Some p"
| "owned_page _ = None"

fun victim_of :: "location \<Rightarrow> pid option" where
  "victim_of (Write_victim p e v c) = Some v"
| "victim_of (Written_victim p e v) = Some v"
| "victim_of _ = None"

fun loading :: "location \<Rightarrow> pid option" where
  "loading (Read_page p e) = Some p"
| "loading (Read_done p e) = Some p"
| "loading _ = None"

definition at_page :: "pid \<Rightarrow> location \<Rightarrow> nat" where
  "at_page p l = (if page_of l = Some p then 1 else 0)"

definition fixes_of :: "pid \<Rightarrow> hold list \<Rightarrow> nat" where
  "fixes_of p hs = length (filter (\<lambda>h. fst h = p) hs)"

definition excl_of :: "pid \<Rightarrow> hold list \<Rightarrow> nat" where
  "excl_of p hs = length (filter (\<lambda>h. fst h = p \<and> fst (snd h)) hs)"

definition shared_of :: "pid \<Rightarrow> hold list \<Rightarrow> nat" where
  "shared_of p hs = length (filter (\<lambda>h. fst h = p \<and> \<not> fst (snd h)) hs)"

definition users :: "bm \<Rightarrow> pid \<Rightarrow> nat" where
  "users s p = (case frame_of s p of None \<Rightarrow> 0 | Some f \<Rightarrow> num_users f)"

definition refs :: "pid \<Rightarrow> thread \<Rightarrow> nat" where
  "refs p th = fixes_of p (holds th) + at_page p (at_loc th)"

definition inv_users :: "bm \<Rightarrow> bool" where
  "inv_users s \<longleftrightarrow> (\<forall>p. users s p = (\<Sum>th\<leftarrow>threads s. refs p th))"

subsection \<open>The mutex of a page\<close>

definition writer_of :: "bm \<Rightarrow> pid \<Rightarrow> nat option" where
  "writer_of s p = (case frame_of s p of None \<Rightarrow> None | Some f \<Rightarrow> mutex_writer f)"

definition readers_of :: "bm \<Rightarrow> pid \<Rightarrow> nat list" where
  "readers_of s p = (case frame_of s p of None \<Rightarrow> [] | Some f \<Rightarrow> mutex_readers f)"

definition excl_refs :: "pid \<Rightarrow> thread \<Rightarrow> nat" where
  "excl_refs p th = excl_of p (holds th) + (if owned_page (at_loc th) = Some p then 1 else 0)"

definition shared_refs :: "pid \<Rightarrow> thread \<Rightarrow> nat" where
  "shared_refs p th = shared_of p (holds th)"

definition thread_mutex :: "bm \<Rightarrow> nat \<Rightarrow> thread \<Rightarrow> bool" where
  "thread_mutex s t th \<longleftrightarrow>
     (\<forall>p. excl_refs p th = (if writer_of s p = Some t then 1 else 0)
        \<and> shared_refs p th = count_list (readers_of s p) t)"

definition mutex_wf :: "nat \<Rightarrow> frame \<Rightarrow> bool" where
  "mutex_wf n f \<longleftrightarrow> (exclusively_locked f \<longleftrightarrow> mutex_writer f \<noteq> None)
     \<and> (mutex_writer f \<noteq> None \<longrightarrow> mutex_readers f = [])
     \<and> (\<forall>t. mutex_writer f = Some t \<longrightarrow> t < n) \<and> set (mutex_readers f) \<subseteq> {..<n}"

definition inv_mutex :: "bm \<Rightarrow> bool" where
  "inv_mutex s \<longleftrightarrow> (\<forall>t<length (threads s). thread_mutex s t (threads s ! t))
     \<and> (\<forall>p f. frame_of s p = Some f \<longrightarrow> mutex_wf (length (threads s)) f)"

subsection \<open>Lists and memory\<close>

definition lists_wf :: "frame \<Rightarrow> bool" where
  "lists_wf f \<longleftrightarrow> (if fstate f = NEW then \<not> fifo_position f \<and> \<not> lru_position f \<and> fdata f = None
                   else fifo_position f \<noteq> lru_position f \<and> fdata f \<noteq> None)"

definition inv_lists :: "bm \<Rightarrow> bool" where
  "inv_lists s \<longleftrightarrow> distinct (fifo_list s) \<and> distinct (lru_list s)
     \<and> (\<forall>p. p \<in> set (fifo_list s) \<longleftrightarrow> (\<exists>f. frame_of s p = Some f \<and> fifo_position f))
     \<and> (\<forall>p. p \<in> set (lru_list s) \<longleftrightarrow> (\<exists>f. frame_of s p = Some f \<and> lru_position f))
     \<and> (\<forall>p f. frame_of s p = Some f \<longrightarrow> lists_wf f)"

definition slot_of :: "bm \<Rightarrow> pid \<Rightarrow> nat option" where
  "slot_of s p = (case frame_of s p of None \<Rightarrow> None | Some f \<Rightarrow> fdata f)"

definition inv_memory :: "bm \<Rightarrow> bool" where
  "inv_memory s \<longleftrightarrow> distinct (map fst (bufferframes s))
     \<and> length (loaded_pages s) = page_count s
     \<and> (\<forall>pg \<in> set (loaded_pages s). length pg = page_size s)
     \<and> (\<forall>p d. slot_of s p = Some d \<longrightarrow> d < page_count s)
     \<and> (\<forall>p q d. slot_of s p = Some d \<longrightarrow> slot_of s q = Some d \<longrightarrow> p = q)"

text \<open>While a frame has no memory yet, all memory is in use; the slots in use are the first ones.\<close>

definition in_memory :: "bm \<Rightarrow> pid set" where
  "in_memory s = {p. slot_of s p \<noteq> None}"

definition inv_room :: "bm \<Rightarrow> bool" where
  "inv_room s \<longleftrightarrow> (\<forall>p d. slot_of s p = Some d \<longrightarrow> d < card (in_memory s))
     \<and> card (in_memory s) \<le> page_count s
     \<and> (card (in_memory s) < length (bufferframes s) \<longrightarrow> card (in_memory s) = page_count s)"

subsection \<open>Contents\<close>

text \<open>A page on disk, with zeros behind the end of the file.\<close>

definition stored :: "bm \<Rightarrow> pid \<Rightarrow> bytes" where
  "stored s p = take (page_size s) (drop (page_offset s p) (files s (bm_segment_id p)) @ replicate (page_size s) 0)"

definition on_disk :: "bm \<Rightarrow> pid \<Rightarrow> bool" where
  "on_disk s p \<longleftrightarrow> bm_segment_id p \<in> set (segment_files s)
     \<and> page_offset s p + page_size s \<le> length (files s (bm_segment_id p))"

definition in_mem :: "bm \<Rightarrow> pid \<Rightarrow> bytes" where
  "in_mem s p = (case slot_of s p of None \<Rightarrow> [] | Some d \<Rightarrow> loaded_pages s ! d)"

definition state_of :: "bm \<Rightarrow> pid \<Rightarrow> frame_state option" where
  "state_of s p = map_option fstate (frame_of s p)"

definition dirty_page :: "bm \<Rightarrow> pid \<Rightarrow> bool" where
  "dirty_page s p = (case frame_of s p of None \<Rightarrow> False | Some f \<Rightarrow> is_dirty f)"

definition is_loaded :: "bm \<Rightarrow> pid \<Rightarrow> bool" where
  "is_loaded s p \<longleftrightarrow> state_of s p \<in> {Some LOADED, Some EVICTING, Some RELOADED}"

definition contents :: "bm \<Rightarrow> pid \<Rightarrow> bytes" where
  "contents s p = (if is_loaded s p then in_mem s p else stored s p)"

subsection \<open>What a thread relies on\<close>

fun loc_ok :: "bm \<Rightarrow> location \<Rightarrow> bool" where
  "loc_ok s (Write_victim p e v c) \<longleftrightarrow> state_of s p = Some NEW
     \<and> state_of s v \<in> {Some EVICTING, Some RELOADED} \<and> dirty_page s v \<and> length c = page_size s
     \<and> (state_of s v = Some EVICTING \<longrightarrow> in_mem s v = c)"
| "loc_ok s (Written_victim p e v) \<longleftrightarrow> state_of s p = Some NEW
     \<and> state_of s v \<in> {Some EVICTING, Some RELOADED} \<and> dirty_page s v
     \<and> (state_of s v = Some EVICTING \<longrightarrow> in_mem s v = stored s v)"
| "loc_ok s (Read_page p e) \<longleftrightarrow> state_of s p = Some LOADING \<and> on_disk s p"
| "loc_ok s (Read_done p e) \<longleftrightarrow> state_of s p = Some LOADING \<and> on_disk s p \<and> in_mem s p = stored s p"
| "loc_ok s (Lock_page p e) \<longleftrightarrow> state_of s p \<noteq> Some NEW"
| "loc_ok s (Unfixing p d) \<longleftrightarrow> state_of s p \<in> {Some LOADED, Some RELOADED}"
| "loc_ok s _ \<longleftrightarrow> True"

definition hold_ok :: "bm \<Rightarrow> hold \<Rightarrow> bool" where
  "hold_ok s h \<longleftrightarrow> state_of s (fst h) \<in> {Some LOADED, Some RELOADED} \<and> (snd (snd h) \<longrightarrow> fst (snd h))"

definition thread_ok :: "bm \<Rightarrow> thread \<Rightarrow> bool" where
  "thread_ok s th \<longleftrightarrow> loc_ok s (at_loc th) \<and> (\<forall>h \<in> set (holds th). hold_ok s h)"

definition inv_threads :: "bm \<Rightarrow> bool" where
  "inv_threads s \<longleftrightarrow> (\<forall>t<length (threads s). thread_ok s (threads s ! t))
     \<and> (\<forall>t<length (threads s). \<forall>u<length (threads s). \<forall>v.
          victim_of (loc s t) = Some v \<longrightarrow> victim_of (loc s u) = Some v \<longrightarrow> t = u)"

text \<open>A page in a state of passage has a thread that takes it on; an evicted one has no user.\<close>

definition inv_states :: "bm \<Rightarrow> bool" where
  "inv_states s \<longleftrightarrow> (\<forall>p.
       (state_of s p = Some NEW \<longrightarrow> users s p > 0)
     \<and> (state_of s p = Some LOADING \<longrightarrow> (\<exists>t<length (threads s). loading (loc s t) = Some p))
     \<and> (state_of s p \<in> {Some EVICTING, Some RELOADED} \<longrightarrow> (\<exists>t<length (threads s). victim_of (loc s t) = Some p))
     \<and> (state_of s p = Some EVICTING \<longrightarrow> users s p = 0))"

text \<open>A thread whose write to the page is not yet recorded as dirty.\<close>

definition writes :: "pid \<Rightarrow> thread \<Rightarrow> bool" where
  "writes p th \<longleftrightarrow> (\<exists>h \<in> set (holds th). fst h = p \<and> snd (snd h)) \<or> at_loc th = Unfixing p True"

definition inv_data :: "bm \<Rightarrow> bool" where
  "inv_data s \<longleftrightarrow> 0 < page_size s \<and> whole_pages (page_size s) (files s)
     \<and> (\<forall>p. is_loaded s p \<longrightarrow> on_disk s p
          \<and> (dirty_page s p \<or> (\<exists>t<length (threads s). writes p (threads s ! t)) \<or> in_mem s p = stored s p))"

definition inv_core :: "bm \<Rightarrow> bool" where
  "inv_core s \<longleftrightarrow> inv_users s \<and> inv_mutex s \<and> inv_lists s \<and> inv_memory s \<and> inv_threads s
     \<and> inv_states s \<and> inv_data s"

definition bm_inv :: "bm \<Rightarrow> bool" where
  "bm_inv s \<longleftrightarrow> inv_core s \<and> inv_room s"

section \<open>Views of a state after an update\<close>

lemma users_update [simp]:
  "users (put_frame p f s) q = (if q = p then num_users f else users s q)"
  "users (drop_frame p s) q = (if q = p then 0 else users s q)"
  "users (set_at t l s) q = users s q"
  "users (set_holds t hs s) q = users s q"
  "users (set_file r c s) q = users s q"
  "users (s\<lparr>fifo_list := ps\<rparr>) q = users s q"
  "users (s\<lparr>lru_list := ps\<rparr>) q = users s q"
  "users (s\<lparr>loaded_pages := pgs\<rparr>) q = users s q"
  "users (s\<lparr>segment_files := gs\<rparr>) q = users s q"
  by (simp_all add: users_def)

lemma writer_of_update [simp]:
  "writer_of (put_frame p f s) q = (if q = p then mutex_writer f else writer_of s q)"
  "writer_of (drop_frame p s) q = (if q = p then None else writer_of s q)"
  "writer_of (set_at t l s) q = writer_of s q"
  "writer_of (set_holds t hs s) q = writer_of s q"
  "writer_of (set_file r c s) q = writer_of s q"
  "writer_of (s\<lparr>fifo_list := ps\<rparr>) q = writer_of s q"
  "writer_of (s\<lparr>lru_list := ps\<rparr>) q = writer_of s q"
  "writer_of (s\<lparr>loaded_pages := pgs\<rparr>) q = writer_of s q"
  "writer_of (s\<lparr>segment_files := gs\<rparr>) q = writer_of s q"
  by (simp_all add: writer_of_def)

lemma readers_of_update [simp]:
  "readers_of (put_frame p f s) q = (if q = p then mutex_readers f else readers_of s q)"
  "readers_of (drop_frame p s) q = (if q = p then [] else readers_of s q)"
  "readers_of (set_at t l s) q = readers_of s q"
  "readers_of (set_holds t hs s) q = readers_of s q"
  "readers_of (set_file r c s) q = readers_of s q"
  "readers_of (s\<lparr>fifo_list := ps\<rparr>) q = readers_of s q"
  "readers_of (s\<lparr>lru_list := ps\<rparr>) q = readers_of s q"
  "readers_of (s\<lparr>loaded_pages := pgs\<rparr>) q = readers_of s q"
  "readers_of (s\<lparr>segment_files := gs\<rparr>) q = readers_of s q"
  by (simp_all add: readers_of_def)

lemma slot_of_update [simp]:
  "slot_of (put_frame p f s) q = (if q = p then fdata f else slot_of s q)"
  "slot_of (drop_frame p s) q = (if q = p then None else slot_of s q)"
  "slot_of (set_at t l s) q = slot_of s q"
  "slot_of (set_holds t hs s) q = slot_of s q"
  "slot_of (set_file r c s) q = slot_of s q"
  "slot_of (s\<lparr>fifo_list := ps\<rparr>) q = slot_of s q"
  "slot_of (s\<lparr>lru_list := ps\<rparr>) q = slot_of s q"
  "slot_of (s\<lparr>loaded_pages := pgs\<rparr>) q = slot_of s q"
  "slot_of (s\<lparr>segment_files := gs\<rparr>) q = slot_of s q"
  by (simp_all add: slot_of_def)

lemma state_of_update [simp]:
  "state_of (put_frame p f s) q = (if q = p then Some (fstate f) else state_of s q)"
  "state_of (drop_frame p s) q = (if q = p then None else state_of s q)"
  "state_of (set_at t l s) q = state_of s q"
  "state_of (set_holds t hs s) q = state_of s q"
  "state_of (set_file r c s) q = state_of s q"
  "state_of (s\<lparr>fifo_list := ps\<rparr>) q = state_of s q"
  "state_of (s\<lparr>lru_list := ps\<rparr>) q = state_of s q"
  "state_of (s\<lparr>loaded_pages := pgs\<rparr>) q = state_of s q"
  "state_of (s\<lparr>segment_files := gs\<rparr>) q = state_of s q"
  by (simp_all add: state_of_def)

lemma dirty_page_update [simp]:
  "dirty_page (put_frame p f s) q = (if q = p then is_dirty f else dirty_page s q)"
  "dirty_page (drop_frame p s) q = (if q = p then False else dirty_page s q)"
  "dirty_page (set_at t l s) q = dirty_page s q"
  "dirty_page (set_holds t hs s) q = dirty_page s q"
  "dirty_page (set_file r c s) q = dirty_page s q"
  "dirty_page (s\<lparr>fifo_list := ps\<rparr>) q = dirty_page s q"
  "dirty_page (s\<lparr>lru_list := ps\<rparr>) q = dirty_page s q"
  "dirty_page (s\<lparr>loaded_pages := pgs\<rparr>) q = dirty_page s q"
  "dirty_page (s\<lparr>segment_files := gs\<rparr>) q = dirty_page s q"
  by (simp_all add: dirty_page_def)

lemma page_offset_update [simp]:
  "page_offset (put_frame p f s) q = page_offset s q"
  "page_offset (drop_frame p s) q = page_offset s q"
  "page_offset (set_at t l s) q = page_offset s q"
  "page_offset (set_holds t hs s) q = page_offset s q"
  "page_offset (s\<lparr>fifo_list := ps\<rparr>) q = page_offset s q"
  "page_offset (s\<lparr>lru_list := ps\<rparr>) q = page_offset s q"
  "page_offset (s\<lparr>loaded_pages := pgs\<rparr>) q = page_offset s q"
  "page_offset (s\<lparr>segment_files := gs\<rparr>) q = page_offset s q"
  "page_offset (set_file r c s) q = page_offset s q"
  by (simp_all add: page_offset_def)

lemma stored_update [simp]:
  "stored (put_frame p f s) q = stored s q"
  "stored (drop_frame p s) q = stored s q"
  "stored (set_at t l s) q = stored s q"
  "stored (set_holds t hs s) q = stored s q"
  "stored (s\<lparr>fifo_list := ps\<rparr>) q = stored s q"
  "stored (s\<lparr>lru_list := ps\<rparr>) q = stored s q"
  "stored (s\<lparr>loaded_pages := pgs\<rparr>) q = stored s q"
  "stored (s\<lparr>segment_files := gs\<rparr>) q = stored s q"
  by (simp_all add: stored_def page_offset_def)

lemma on_disk_update [simp]:
  "on_disk (put_frame p f s) q = on_disk s q"
  "on_disk (drop_frame p s) q = on_disk s q"
  "on_disk (set_at t l s) q = on_disk s q"
  "on_disk (set_holds t hs s) q = on_disk s q"
  "on_disk (s\<lparr>fifo_list := ps\<rparr>) q = on_disk s q"
  "on_disk (s\<lparr>lru_list := ps\<rparr>) q = on_disk s q"
  "on_disk (s\<lparr>loaded_pages := pgs\<rparr>) q = on_disk s q"
  by (simp_all add: on_disk_def page_offset_def)

lemma in_mem_update [simp]:
  "in_mem (put_frame p f s) q = (if q = p then (case fdata f of None \<Rightarrow> [] | Some d \<Rightarrow> loaded_pages s ! d) else in_mem s q)"
  "q \<noteq> p \<Longrightarrow> in_mem (drop_frame p s) q = in_mem s q"
  "in_mem (set_at t l s) q = in_mem s q"
  "in_mem (set_holds t hs s) q = in_mem s q"
  "in_mem (set_file r c s) q = in_mem s q"
  "in_mem (s\<lparr>fifo_list := ps\<rparr>) q = in_mem s q"
  "in_mem (s\<lparr>lru_list := ps\<rparr>) q = in_mem s q"
  "in_mem (s\<lparr>segment_files := gs\<rparr>) q = in_mem s q"
  by (simp_all add: in_mem_def split: option.split)

lemma loc_update [simp]:
  "loc (put_frame p f s) u = loc s u" "loc (drop_frame p s) u = loc s u"
  "loc (set_file p c s) u = loc s u" "loc (s\<lparr>fifo_list := ps\<rparr>) u = loc s u" "loc (s\<lparr>lru_list := ps\<rparr>) u = loc s u"
  "loc (s\<lparr>loaded_pages := pgs\<rparr>) u = loc s u" "loc (s\<lparr>segment_files := gs\<rparr>) u = loc s u"
  "t < length (threads s) \<Longrightarrow> loc (set_at t l s) u = (if u = t then l else loc s u)"
  by (simp_all add: loc_def)

lemma is_loaded_iff: "is_loaded s p \<longleftrightarrow> (\<exists>f. frame_of s p = Some f \<and> fstate f \<noteq> NEW \<and> fstate f \<noteq> LOADING)"
proof (cases "frame_of s p")
  case (Some f)
  then show ?thesis by (cases "fstate f") (simp_all add: is_loaded_def state_of_def)
qed (simp add: is_loaded_def state_of_def)

text \<open>Two pages lie at different places.\<close>

lemma segment_page_inj:
  assumes "bm_segment_id p = bm_segment_id q" "bm_segment_page_id p = bm_segment_page_id q"
  shows "p = q"
proof (rule bit_word_eqI)
  fix n assume n: "n < LENGTH(64)"
  have mask: "push_bit 48 1 - 1 = (mask 48 :: 64 word)" by (simp add: mask_eq_exp_minus_1 push_bit_eq_mult)
  show "bit p n \<longleftrightarrow> bit q n"
  proof (cases "n < 48")
    case True
    have "p AND mask 48 = q AND mask 48"
      using assms(2) unfolding bm_segment_page_id_def mask by (simp only: word_unat_eq_iff)
    then have "bit (p AND mask 48) n \<longleftrightarrow> bit (q AND mask 48) n" by simp
    with True n show ?thesis by (simp add: bit_and_iff bit_mask_iff)
  next
    case False
    have "bit (bm_segment_id p) (n - 48) \<longleftrightarrow> bit (bm_segment_id q) (n - 48)" using assms(1) by simp
    moreover have "n - 48 < 16" using n by simp
    ultimately show ?thesis using False n by (simp add: bm_segment_id_def bit_simps)
  qed
qed

section \<open>Generic preservation\<close>

lemma inv_statesD:
  assumes "inv_states s"
  shows "state_of s p = Some NEW \<Longrightarrow> users s p > 0"
    "state_of s p = Some LOADING \<Longrightarrow> \<exists>t<length (threads s). loading (loc s t) = Some p"
    "state_of s p \<in> {Some EVICTING, Some RELOADED} \<Longrightarrow> \<exists>t<length (threads s). victim_of (loc s t) = Some p"
    "state_of s p = Some EVICTING \<Longrightarrow> users s p = 0"
  using assms unfolding inv_states_def by blast+

lemma inv_coreD:
  assumes "inv_core s"
  shows "inv_users s" "inv_mutex s" "inv_lists s" "inv_memory s" "inv_threads s" "inv_states s" "inv_data s"
  using assms by (simp_all add: inv_core_def)

lemma sum_list_thread:
  "t < length xs \<Longrightarrow> (\<Sum>x\<leftarrow>xs[t := y]. f x) + f (xs ! t) = (\<Sum>x\<leftarrow>xs. f x) + (f y :: nat)"
proof (induction xs arbitrary: t)
  case (Cons x xs)
  then show ?case by (cases t) auto
qed simp

lemma inv_users_step:
  assumes "inv_users s" "t < length (threads s)" "threads s' = (threads s)[t := th]"
    "\<And>q. users s' q + refs q (threads s ! t) = users s q + refs q th"
  shows "inv_users s'"
  unfolding inv_users_def
proof
  fix q
  have "(\<Sum>x\<leftarrow>threads s'. refs q x) + refs q (threads s ! t) = users s q + refs q th"
    using sum_list_thread [OF assms(2), of "refs q" th] assms(1,3) by (simp add: inv_users_def)
  with assms(4) [of q] show "users s' q = (\<Sum>x\<leftarrow>threads s'. refs q x)" by simp
qed

lemma inv_mutex_step:
  assumes "inv_mutex s" "threads s' = (threads s)[t := th]" "thread_mutex s' t th"
    "\<And>q u. u \<noteq> t \<Longrightarrow> writer_of s' q = Some u \<longleftrightarrow> writer_of s q = Some u"
    "\<And>q u. u \<noteq> t \<Longrightarrow> count_list (readers_of s' q) u = count_list (readers_of s q) u"
    "\<And>q f. frame_of s' q = Some f \<Longrightarrow> mutex_wf (length (threads s)) f"
  shows "inv_mutex s'"
  unfolding inv_mutex_def
proof (intro conjI allI impI)
  show "mutex_wf (length (threads s')) f" if "frame_of s' q = Some f" for q f using assms(2,6) that by simp
  show "thread_mutex s' u (threads s' ! u)" if u: "u < length (threads s')" for u
  proof (cases "u = t")
    case True
    then show ?thesis using assms(2,3) u by simp
  next
    case False
    have "thread_mutex s u (threads s ! u)" using assms(1,2) u by (simp add: inv_mutex_def)
    with False show ?thesis using assms(2) assms(4,5) [OF False] by (simp add: thread_mutex_def)
  qed
qed

text \<open>A thread keeps what it relies on when nothing changes at the pages that it mentions.\<close>

definition mentions :: "thread \<Rightarrow> pid \<Rightarrow> bool" where
  "mentions th p \<longleftrightarrow> refs p th > 0 \<or> victim_of (at_loc th) = Some p"

definition same_page :: "bm \<Rightarrow> bm \<Rightarrow> pid \<Rightarrow> bool" where
  "same_page s s' p \<longleftrightarrow> state_of s' p = state_of s p \<and> (dirty_page s p \<longrightarrow> dirty_page s' p)
     \<and> in_mem s' p = in_mem s p \<and> stored s' p = stored s p \<and> (on_disk s p \<longrightarrow> on_disk s' p)"

lemma mentions_hold: "h \<in> set (holds th) \<Longrightarrow> mentions th (fst h)"
  by (auto simp: mentions_def refs_def fixes_of_def filter_empty_conv)

lemma mentions_page: "page_of (at_loc th) = Some p \<Longrightarrow> mentions th p"
  by (simp add: mentions_def refs_def at_page_def)

lemma mentions_victim: "victim_of (at_loc th) = Some p \<Longrightarrow> mentions th p"
  by (simp add: mentions_def)

lemma thread_ok_same:
  assumes "thread_ok s th" "page_size s' = page_size s" "\<And>q. mentions th q \<Longrightarrow> same_page s s' q"
  shows "thread_ok s' th"
  unfolding thread_ok_def
proof (intro conjI ballI)
  show "loc_ok s' (at_loc th)"
  proof (cases "at_loc th")
    case (Write_victim p e v c)
    have "same_page s s' p" "same_page s s' v" using assms(3) mentions_page mentions_victim Write_victim by simp_all
    then show ?thesis using assms(1,2) Write_victim by (simp add: thread_ok_def same_page_def)
  next
    case (Written_victim p e v)
    have "same_page s s' p" "same_page s s' v" using assms(3) mentions_page mentions_victim Written_victim by simp_all
    then show ?thesis using assms(1,2) Written_victim by (simp add: thread_ok_def same_page_def)
  qed (use assms mentions_page [of th] in \<open>auto simp: thread_ok_def same_page_def\<close>)
  show "hold_ok s' h" if "h \<in> set (holds th)" for h
  proof -
    have "same_page s s' (fst h)" using assms(3) mentions_hold that by blast
    then show ?thesis using assms(1) that by (simp add: thread_ok_def hold_ok_def same_page_def)
  qed
qed

lemma inv_threads_step:
  assumes "inv_threads s" "t < length (threads s)" "threads s' = (threads s)[t := th]" "thread_ok s' th"
    "\<And>u. u < length (threads s) \<Longrightarrow> u \<noteq> t \<Longrightarrow> thread_ok s' (threads s ! u)"
    "\<And>u v. u < length (threads s) \<Longrightarrow> u \<noteq> t \<Longrightarrow> victim_of (at_loc th) = Some v \<Longrightarrow> victim_of (loc s u) \<noteq> Some v"
  shows "inv_threads s'"
proof -
  have loc: "loc s' u = (if u = t then at_loc th else loc s u)" for u using assms(2,3) by (simp add: loc_def)
  have ok: "thread_ok s' (threads s' ! u)" if "u < length (threads s)" for u
    using that assms(3,4,5) by (cases "u = t") simp_all
  have uniq: "u = w" if "u < length (threads s)" "w < length (threads s)"
      "victim_of (loc s' u) = Some v" "victim_of (loc s' w) = Some v" for u w v
  proof (rule ccontr)
    assume "u \<noteq> w"
    then consider "u = t" "w \<noteq> t" | "u \<noteq> t" "w = t" | "u \<noteq> t" "w \<noteq> t" "u \<noteq> w" by blast
    then show False
    proof cases
      case 1 then show ?thesis using that assms(6) [of w v] by (simp add: loc)
    next
      case 2 then show ?thesis using that assms(6) [of u v] by (simp add: loc)
    next
      case 3 then show ?thesis using that assms(1) by (simp add: loc inv_threads_def)
    qed
  qed
  show ?thesis using ok uniq assms(3) unfolding inv_threads_def by auto
qed

text \<open>Whoever mentions a page is one of its users or the thread that evicts it.\<close>

lemma refs_users:
  assumes "inv_users s" "t < length (threads s)"
  shows "refs p (threads s ! t) \<le> users s p"
  using assms member_le_sum_list [of "refs p (threads s ! t)" "map (refs p) (threads s)"]
  by (simp add: inv_users_def)

lemma mentions_page_state:
  assumes "inv_users s" "inv_threads s" "t < length (threads s)" "mentions (threads s ! t) p"
  shows "users s p > 0 \<or> state_of s p \<in> {Some EVICTING, Some RELOADED}"
proof -
  have "refs p (threads s ! t) > 0 \<or> victim_of (at_loc (threads s ! t)) = Some p"
    using assms(4) by (simp add: mentions_def)
  moreover have "thread_ok s (threads s ! t)" using assms(2,3) by (simp add: inv_threads_def)
  ultimately show ?thesis
    using refs_users [OF assms(1,3), of p] by (cases "at_loc (threads s ! t)") (auto simp: thread_ok_def)
qed

lemma users_exist: "users s p > 0 \<Longrightarrow> \<exists>f. frame_of s p = Some f \<and> num_users f = users s p"
  by (cases "frame_of s p") (simp_all add: users_def)

lemma owner_unique:
  assumes "inv_mutex s" "t < length (threads s)" "u < length (threads s)"
    "excl_refs p (threads s ! t) > 0" "excl_refs p (threads s ! u) > 0"
  shows "t = u"
proof -
  have "writer_of s p = Some t" "writer_of s p = Some u"
    using assms by (auto simp: inv_mutex_def thread_mutex_def split: if_splits)
  then show ?thesis by simp
qed

lemma owner_alone:
  assumes "inv_mutex s" "t < length (threads s)" "u < length (threads s)" "u \<noteq> t"
    "excl_refs p (threads s ! t) > 0"
  shows "excl_refs p (threads s ! u) = 0" "shared_refs p (threads s ! u) = 0"
proof -
  show "excl_refs p (threads s ! u) = 0" using owner_unique [OF assms(1-3,5)] assms(4) by blast
  have "writer_of s p = Some t" using assms by (auto simp: inv_mutex_def thread_mutex_def split: if_splits)
  then have "readers_of s p = []"
    using assms(1) by (auto simp: inv_mutex_def mutex_wf_def writer_of_def readers_of_def split: option.splits)
  then show "shared_refs p (threads s ! u) = 0" using assms(1,3) by (simp add: inv_mutex_def thread_mutex_def)
qed

lemma fixes_split: "fixes_of p hs = excl_of p hs + shared_of p hs"
  by (induction hs) (auto simp: fixes_of_def excl_of_def shared_of_def)

lemma owner_refs: "excl_refs p th > 0 \<Longrightarrow> refs p th > 0"
  by (cases "at_loc th") (auto simp: excl_refs_def refs_def fixes_split at_page_def split: if_splits)

end
