(* ===== verification/Buffer_Steps.thy ===== *)
theory Buffer_Steps
  imports Buffer_Invariant
begin

text \<open>
  Every section of \<open>fix_page\<close> and \<open>unfix_page\<close> succeeds on a state in good order, keeps it so, and
  leaves the contents of all pages as they are.
\<close>

section \<open>A thread and a frame are updated\<close>

definition set_thread :: "nat \<Rightarrow> thread \<Rightarrow> bm \<Rightarrow> bm" where
  "set_thread t th s = s\<lparr>threads := (threads s)[t := th]\<rparr>"

lemma set_thread_select [simp]:
  "page_size (set_thread t th s) = page_size s"
  "page_count (set_thread t th s) = page_count s"
  "fifo_list (set_thread t th s) = fifo_list s"
  "lru_list (set_thread t th s) = lru_list s"
  "loaded_pages (set_thread t th s) = loaded_pages s"
  "segment_files (set_thread t th s) = segment_files s"
  "bufferframes (set_thread t th s) = bufferframes s"
  "files (set_thread t th s) = files s"
  "threads (set_thread t th s) = (threads s)[t := th]"
  by (simp_all add: set_thread_def)

lemma set_thread_views [simp]:
  "frame_of (set_thread t th s) q = frame_of s q"
  "users (set_thread t th s) q = users s q"
  "writer_of (set_thread t th s) q = writer_of s q"
  "readers_of (set_thread t th s) q = readers_of s q"
  "slot_of (set_thread t th s) q = slot_of s q"
  "state_of (set_thread t th s) q = state_of s q"
  "dirty_page (set_thread t th s) q = dirty_page s q"
  "page_offset (set_thread t th s) q = page_offset s q"
  "stored (set_thread t th s) q = stored s q"
  "on_disk (set_thread t th s) q = on_disk s q"
  "in_mem (set_thread t th s) q = in_mem s q"
  "is_loaded (set_thread t th s) q = is_loaded s q"
  by (simp_all add: frame_of_def users_def writer_of_def readers_of_def slot_of_def state_of_def dirty_page_def
      page_offset_def stored_def on_disk_def in_mem_def is_loaded_def split: option.split)

lemma inv_set_thread [simp]:
  "inv_lists (set_thread t th s) = inv_lists s" "inv_memory (set_thread t th s) = inv_memory s"
  "inv_room (set_thread t th s) = inv_room s"
  by (simp_all only: inv_lists_def inv_memory_def inv_room_def in_memory_def set_thread_select set_thread_views)

lemma set_at_eq: "set_at t l s = set_thread t ((threads s ! t)\<lparr>at_loc := l\<rparr>) s"
  by (simp add: set_at_def set_thread_def)

lemma contents_set_thread [simp]: "contents (set_thread t th s) = contents s"
  by (simp add: contents_def fun_eq_iff)

lemma contents_set_at [simp]: "contents (set_at t l s) = contents s"
  by (simp add: set_at_eq)

lemma set_holds_eq: "set_holds t hs s = set_thread t ((threads s ! t)\<lparr>holds := hs\<rparr>) s"
  by (simp add: set_holds_def set_thread_def)

lemma set_thread_twice [simp]: "set_thread t th (set_thread t th' s) = set_thread t th s"
  by (simp add: set_thread_def)

lemma put_set_thread: "put_frame p f (set_thread t th s) = set_thread t th (put_frame p f s)"
  by (simp add: set_thread_def put_frame_def)

lemma is_loaded_update [simp]:
  "is_loaded (put_frame p f s) q = (if q = p then fstate f \<in> {LOADED, EVICTING, RELOADED} else is_loaded s q)"
  "is_loaded (drop_frame p s) q = (q \<noteq> p \<and> is_loaded s q)"
  "is_loaded (set_at t l s) q = is_loaded s q" "is_loaded (set_holds t hs s) q = is_loaded s q"
  "is_loaded (set_file r c s) q = is_loaded s q" "is_loaded (s\<lparr>loaded_pages := pgs\<rparr>) q = is_loaded s q"
  by (simp_all add: is_loaded_def)

lemma length_update: "length (AList.update k v al) = (if k \<in> fst ` set al then length al else Suc (length al))"
  by (induction al) auto

lemma frame_views:
  assumes "frame_of s p = Some f"
  shows "users s p = num_users f" "writer_of s p = mutex_writer f" "readers_of s p = mutex_readers f"
    "slot_of s p = fdata f" "state_of s p = Some (fstate f)" "dirty_page s p = is_dirty f"
  using assms by (simp_all add: users_def writer_of_def readers_of_def slot_of_def state_of_def dirty_page_def)

lemma update_twice: "AList.update k v (AList.update k w al) = AList.update k v al"
  by (induction al) auto

lemma mutex_wf_fields [simp]:
  "mutex_wf n (f\<lparr>fstate := st\<rparr>) = mutex_wf n f" "mutex_wf n (f\<lparr>fdata := d\<rparr>) = mutex_wf n f"
  "mutex_wf n (f\<lparr>num_users := k\<rparr>) = mutex_wf n f" "mutex_wf n (f\<lparr>is_dirty := b\<rparr>) = mutex_wf n f"
  "mutex_wf n (f\<lparr>fifo_position := b\<rparr>) = mutex_wf n f" "mutex_wf n (f\<lparr>lru_position := b\<rparr>) = mutex_wf n f"
  by (simp_all add: mutex_wf_def)

lemma frame_of_dom: "frame_of s p = None \<longleftrightarrow> p \<notin> fst ` set (bufferframes s)"
  by (simp add: frame_of_def map_of_eq_None_iff)

lemma length_put: "length (bufferframes (put_frame p f s)) = (if frame_of s p = None then Suc (length (bufferframes s)) else length (bufferframes s))"
  by (simp add: put_frame_def length_update frame_of_dom)

lemma distinct_put: "distinct (map fst (bufferframes s)) \<Longrightarrow> distinct (map fst (bufferframes (put_frame p f s)))"
  by (simp add: put_frame_def distinct_update)

lemma inv_states_step:
  assumes "inv_states s" "threads s' = (threads s)[t := th]" "t < length (threads s)"
    "\<And>q. state_of s' q = Some NEW \<Longrightarrow> users s' q > 0"
    "\<And>q. state_of s' q = Some LOADING \<Longrightarrow>
       loading (at_loc th) = Some q \<or> state_of s q = Some LOADING \<and> loading (loc s t) \<noteq> Some q"
    "\<And>q. state_of s' q \<in> {Some EVICTING, Some RELOADED} \<Longrightarrow>
       victim_of (at_loc th) = Some q \<or> state_of s q \<in> {Some EVICTING, Some RELOADED} \<and> victim_of (loc s t) \<noteq> Some q"
    "\<And>q. state_of s' q = Some EVICTING \<Longrightarrow> users s' q = 0"
  shows "inv_states s'"
proof -
  have loc: "loc s' u = (if u = t then at_loc th else loc s u)" for u using assms(2,3) by (simp add: loc_def)
  have n: "length (threads s') = length (threads s)" using assms(2) by simp
  have load: "\<exists>u<length (threads s'). loading (loc s' u) = Some q" if "state_of s' q = Some LOADING" for q
    using assms(5) [OF that]
  proof
    assume "loading (at_loc th) = Some q"
    then show ?thesis using assms(3) loc n by (intro exI [of _ t]) simp
  next
    assume a: "state_of s q = Some LOADING \<and> loading (loc s t) \<noteq> Some q"
    then obtain u where "u < length (threads s)" "loading (loc s u) = Some q" using assms(1) unfolding inv_states_def by blast
    then show ?thesis using a loc n by (intro exI [of _ u]) auto
  qed
  have evict: "\<exists>u<length (threads s'). victim_of (loc s' u) = Some q"
    if "state_of s' q \<in> {Some EVICTING, Some RELOADED}" for q
    using assms(6) [OF that]
  proof
    assume "victim_of (at_loc th) = Some q"
    then show ?thesis using assms(3) loc n by (intro exI [of _ t]) simp
  next
    assume a: "state_of s q \<in> {Some EVICTING, Some RELOADED} \<and> victim_of (loc s t) \<noteq> Some q"
    then obtain u where "u < length (threads s)" "victim_of (loc s u) = Some q" using assms(1) unfolding inv_states_def by blast
    then show ?thesis using a loc n by (intro exI [of _ u]) auto
  qed
  show ?thesis unfolding inv_states_def using assms(4,7) load evict by blast
qed

lemma inv_data_step:
  assumes "inv_data s" "threads s' = (threads s)[t := th]" "t < length (threads s)"
    "page_size s' = page_size s" "whole_pages (page_size s) (files s')"
    "\<And>q. is_loaded s' q \<Longrightarrow> on_disk s' q"
    "\<And>q. is_loaded s' q \<Longrightarrow> dirty_page s' q \<or> writes q th \<or> in_mem s' q = stored s' q
       \<or> (\<exists>u<length (threads s). u \<noteq> t \<and> writes q (threads s ! u))"
  shows "inv_data s'"
proof -
  have "dirty_page s' q \<or> (\<exists>u<length (threads s'). writes q (threads s' ! u)) \<or> in_mem s' q = stored s' q"
    if "is_loaded s' q" for q
    using assms(7) [OF that]
  proof (elim disjE exE conjE)
    assume "writes q th"
    then show ?thesis using assms(2,3) by (intro disjI2 disjI1 exI [of _ t]) simp
  next
    fix u assume "u < length (threads s)" "u \<noteq> t" "writes q (threads s ! u)"
    then show ?thesis using assms(2) by (intro disjI2 disjI1 exI [of _ u]) simp
  qed simp_all
  then show ?thesis using assms(1,4-6) unfolding inv_data_def by simp
qed

text \<open>What a frame shows to everyone but its users.\<close>

definition same_frame :: "frame \<Rightarrow> frame \<Rightarrow> bool" where
  "same_frame f g \<longleftrightarrow> fstate g = fstate f \<and> fdata g = fdata f \<and> (is_dirty f \<longrightarrow> is_dirty g)
     \<and> fifo_position g = fifo_position f \<and> lru_position g = lru_position f"

lemma same_frame_views:
  assumes "frame_of s p = Some f" "same_frame f g"
  shows "state_of (put_frame p g s) q = state_of s q" "slot_of (put_frame p g s) q = slot_of s q"
    "dirty_page s q \<Longrightarrow> dirty_page (put_frame p g s) q" "in_mem (put_frame p g s) q = in_mem s q"
    "is_loaded (put_frame p g s) q = is_loaded s q"
  using assms by (auto simp: same_frame_def state_of_def slot_of_def dirty_page_def in_mem_def is_loaded_def split: option.splits if_splits)

lemma same_frame_lists:
  assumes "inv_lists s" "frame_of s p = Some f" "same_frame f g"
  shows "inv_lists (put_frame p g s)"
  using assms by (auto simp: inv_lists_def same_frame_def lists_wf_def split: if_splits)

lemma inv_memory_views:
  assumes "inv_memory s" "distinct (map fst (bufferframes s'))" "length (loaded_pages s') = length (loaded_pages s)"
    "\<And>pg. pg \<in> set (loaded_pages s') \<Longrightarrow> length pg = page_size s"
    "page_count s' = page_count s" "page_size s' = page_size s" "\<And>q. slot_of s' q = slot_of s q"
  shows "inv_memory s'"
  using assms unfolding inv_memory_def by auto

lemma same_frame_memory:
  assumes "inv_memory s" "frame_of s p = Some f" "same_frame f g"
  shows "inv_memory (put_frame p g s)"
proof (rule inv_memory_views [OF assms(1)])
  show "distinct (map fst (bufferframes (put_frame p g s)))"
    using assms(1) by (simp add: inv_memory_def put_frame_def distinct_update)
qed (use assms(1) same_frame_views [OF assms(2,3)] in \<open>simp_all add: inv_memory_def\<close>)

lemma inv_room_views:
  assumes "inv_room s" "length (bufferframes s') = length (bufferframes s)" "page_count s' = page_count s"
    "\<And>q. slot_of s' q = slot_of s q"
  shows "inv_room s'"
  using assms unfolding inv_room_def in_memory_def by auto

lemma same_frame_room:
  assumes "inv_room s" "frame_of s p = Some f" "same_frame f g"
  shows "inv_room (put_frame p g s)"
  by (rule inv_room_views [OF assms(1)])
     (use assms(2) same_frame_views [OF assms(2,3)] in \<open>simp_all add: length_put\<close>)

definition keeps :: "bm \<Rightarrow> bm \<Rightarrow> bool" where
  "keeps s s' \<longleftrightarrow> inv_core s' \<and> contents s' = contents s \<and> (inv_room s \<longrightarrow> inv_room s')
     \<and> length (threads s') = length (threads s)"

lemma keeps_trans [trans]: "keeps s s1 \<Longrightarrow> keeps s1 s2 \<Longrightarrow> keeps s s2"
  by (simp add: keeps_def)

lemma keeps_core: "keeps s s' \<Longrightarrow> inv_core s'"
  by (simp add: keeps_def)

lemma keeps_length: "keeps s s' \<Longrightarrow> length (threads s') = length (threads s)"
  by (simp add: keeps_def)

lemma core_same_frame:
  assumes core: "inv_core s" and t: "t < length (threads s)" and f: "frame_of s p = Some f" and same: "same_frame f g"
    and refs_p: "num_users g + refs p (threads s ! t) = num_users f + refs p th"
    and refs_q: "\<And>q. q \<noteq> p \<Longrightarrow> refs q th = refs q (threads s ! t)"
      "\<And>q. q \<noteq> p \<Longrightarrow> excl_refs q th = excl_refs q (threads s ! t)"
      "\<And>q. q \<noteq> p \<Longrightarrow> shared_refs q th = shared_refs q (threads s ! t)"
    and mutex_p: "excl_refs p th = (if mutex_writer g = Some t then 1 else 0)"
      "shared_refs p th = count_list (mutex_readers g) t"
    and others: "\<And>u. u \<noteq> t \<Longrightarrow> mutex_writer g = Some u \<longleftrightarrow> mutex_writer f = Some u"
      "\<And>u. u \<noteq> t \<Longrightarrow> count_list (mutex_readers g) u = count_list (mutex_readers f) u"
    and wf: "mutex_wf (length (threads s)) g"
    and ok: "thread_ok s th"
    and loc: "loading (loc s t) = None" "victim_of (loc s t) = None" "victim_of (at_loc th) = None"
    and state: "fstate f = NEW \<Longrightarrow> num_users g > 0" "fstate f = EVICTING \<Longrightarrow> num_users g = 0"
    and wr: "\<And>q. writes q (threads s ! t) \<Longrightarrow> writes q th \<or> q = p \<and> is_dirty g"
  shows "keeps s (set_thread t th (put_frame p g s))" (is "keeps s ?s")
proof -
  note view = same_frame_views [OF f same]
  have inv: "inv_users s" "inv_mutex s" "inv_lists s" "inv_memory s" "inv_threads s" "inv_states s" "inv_data s"
    using core by (simp_all add: inv_core_def)
  have page: "same_page s ?s q" for q using view(1,3,4) [of q] by (simp add: same_page_def)
  have tm: "thread_mutex s t (threads s ! t)" using inv(2) t by (simp add: inv_mutex_def)
  have users_p: "users s p = num_users f" using f by (simp add: users_def)
  have st: "state_of s p = Some (fstate f)" "fstate g = fstate f" using f same by (simp_all add: state_of_def same_frame_def)
  have "inv_users ?s"
    by (rule inv_users_step [OF inv(1) t]) (use refs_p refs_q users_p in auto)
  moreover have "inv_mutex ?s"
  proof (rule inv_mutex_step [OF inv(2)])
    show "thread_mutex ?s t th"
      using tm refs_q mutex_p unfolding thread_mutex_def by simp
    show "writer_of ?s q = Some u \<longleftrightarrow> writer_of s q = Some u" if "u \<noteq> t" for q u
      using others(1) [OF that] f by (simp add: writer_of_def)
    show "count_list (readers_of ?s q) u = count_list (readers_of s q) u" if "u \<noteq> t" for q u
      using others(2) [OF that] f by (simp add: readers_of_def)
    show "mutex_wf (length (threads s)) h" if "frame_of ?s q = Some h" for q h
      using that wf inv(2) by (auto simp: inv_mutex_def split: if_splits)
  qed simp
  moreover have "inv_lists ?s"
    using same_frame_lists [OF inv(3) f same] by simp
  moreover have "inv_memory ?s" using same_frame_memory [OF inv(4) f same] by simp
  moreover have "inv_threads ?s"
  proof (rule inv_threads_step [OF inv(5) t])
    show "thread_ok ?s th" by (rule thread_ok_same [OF ok]) (simp_all add: page)
    show "thread_ok ?s (threads s ! u)" if "u < length (threads s)" for u
      by (rule thread_ok_same) (use that inv(5) page in \<open>simp_all add: inv_threads_def\<close>)
  qed (use loc in simp_all)
  moreover have "inv_states ?s"
  proof (rule inv_states_step [OF inv(6) _ t])
    show "users ?s q > 0" if "state_of ?s q = Some NEW" for q
      using that state(1) st inv_statesD(1) [OF inv(6), of q] view(1) [of q] by (cases "q = p") simp_all
    show "users ?s q = 0" if "state_of ?s q = Some EVICTING" for q
      using that state(2) st inv_statesD(4) [OF inv(6), of q] view(1) [of q] by (cases "q = p") simp_all
  qed (use loc view(1) in simp_all)
  moreover have "inv_data ?s"
  proof (rule inv_data_step [OF inv(7) _ t])
    show "whole_pages (page_size s) (files ?s)" using inv(7) by (simp add: inv_data_def)
    show "on_disk ?s q" if "is_loaded ?s q" for q using that view(5) inv(7) by (simp add: inv_data_def)
    show "dirty_page ?s q \<or> writes q th \<or> in_mem ?s q = stored ?s q
       \<or> (\<exists>u<length (threads s). u \<noteq> t \<and> writes q (threads s ! u))" if "is_loaded ?s q" for q
    proof -
      have "is_loaded s q" using that view(5) by simp
      then consider "dirty_page s q" | u where "u < length (threads s)" "writes q (threads s ! u)" | "in_mem s q = stored s q"
        using inv(7) unfolding inv_data_def by blast
      then show ?thesis
      proof cases
        case 1 then show ?thesis using view(3) by simp
      next
        case 2
        then show ?thesis using wr [of q] f by (cases "u = t") auto
      next
        case 3 then show ?thesis using view(4) by simp
      qed
    qed
  qed simp_all
  ultimately have "inv_core ?s" by (simp add: inv_core_def)
  moreover have "contents ?s = contents s" using view(4,5) by (auto simp: contents_def fun_eq_iff)
  moreover have "inv_room s \<longrightarrow> inv_room ?s" using same_frame_room [OF _ f same] by simp
  ultimately show "keeps s ?s" by (simp add: keeps_def)
qed

section \<open>Locking and unlocking a page\<close>

lemma set_at_keeps: "set_at t l (put_frame p g s) = set_thread t ((threads s ! t)\<lparr>at_loc := l\<rparr>) (put_frame p g s)"
  by (simp add: set_at_eq)

lemma thread_mutexD:
  assumes "inv_mutex s" "t < length (threads s)" "frame_of s p = Some f"
  shows "excl_refs p (threads s ! t) = (if mutex_writer f = Some t then 1 else 0)"
    "shared_refs p (threads s ! t) = count_list (mutex_readers f) t" "mutex_wf (length (threads s)) f"
  using assms by (simp_all add: inv_mutex_def thread_mutex_def writer_of_def readers_of_def)

lemma unlock_excl:
  assumes "inv_mutex s" "t < length (threads s)" "frame_of s p = Some f" "excl_refs p (threads s ! t) > 0"
  shows "page_unlock t f = Some (f\<lparr>exclusively_locked := False, mutex_writer := None\<rparr>)"
    "mutex_writer f = Some t" "mutex_readers f = []"
    "mutex_wf (length (threads s)) (f\<lparr>exclusively_locked := False, mutex_writer := None\<rparr>)"
  using thread_mutexD [OF assms(1-3)] assms(4)
  by (auto simp: page_unlock_def mutex_wf_def split: if_splits)

lemma unlock_shared:
  assumes "inv_mutex s" "t < length (threads s)" "frame_of s p = Some f" "shared_refs p (threads s ! t) > 0"
  shows "page_unlock t f = Some (f\<lparr>mutex_readers := remove1 t (mutex_readers f)\<rparr>)" "mutex_writer f = None"
    "t \<in> set (mutex_readers f)" "mutex_wf (length (threads s)) (f\<lparr>mutex_readers := remove1 t (mutex_readers f)\<rparr>)"
proof -
  note m = thread_mutexD [OF assms(1-3)]
  show t: "t \<in> set (mutex_readers f)" using m(2) assms(4) by (metis count_list_0_iff less_numeral_extra(3))
  show w: "mutex_writer f = None" using t m(3) by (auto simp: mutex_wf_def)
  show "page_unlock t f = Some (f\<lparr>mutex_readers := remove1 t (mutex_readers f)\<rparr>)"
    using t w m(3) by (simp add: page_unlock_def mutex_wf_def)
  show "mutex_wf (length (threads s)) (f\<lparr>mutex_readers := remove1 t (mutex_readers f)\<rparr>)"
    using w m(3) set_remove1_subset [of t "mutex_readers f"] by (auto simp: mutex_wf_def)
qed

lemma lock_wf: "mutex_wf n f \<Longrightarrow> mutex_free e f \<Longrightarrow> t < n \<Longrightarrow> mutex_wf n (page_lock e t f)"
  by (auto simp: mutex_wf_def mutex_free_def page_lock_def)

lemma page_lock_same [simp]: "same_frame f (page_lock e t f)"
  by (simp add: same_frame_def page_lock_def)

lemma page_lock_num_users [simp]: "num_users (page_lock e t f) = num_users f"
  by (simp add: page_lock_def)

lemma count_list_remove1_other: "u \<noteq> t \<Longrightarrow> count_list (remove1 t xs) u = count_list xs u"
  by (induction xs) auto

lemma count_list_remove1_same: "count_list (remove1 t xs) t = count_list xs t - 1"
  by (induction xs) (auto simp: count_list_0_iff)

lemma refs_frame:
  assumes "inv_users s" "t < length (threads s)" "refs p (threads s ! t) > 0"
  shows "\<exists>f. frame_of s p = Some f \<and> num_users f > 0"
  using refs_users [OF assms(1,2), of p] assms(3) users_exist [of s p] by force

lemma inv_core_thread_ok: "inv_core s \<Longrightarrow> t < length (threads s) \<Longrightarrow> thread_ok s (threads s ! t)"
  by (simp add: inv_core_def inv_threads_def)

lemma page_not_evicting:
  assumes "inv_core s" "t < length (threads s)" "refs p (threads s ! t) > 0" "frame_of s p = Some f"
  shows "fstate f \<noteq> EVICTING"
  using inv_statesD(4) [OF inv_coreD(6) [OF assms(1)], of p] refs_users [OF inv_coreD(1) [OF assms(1)] assms(2), of p] assms(3,4)
  by (auto simp: state_of_def)

lemma wait_lock_ok:
  assumes core: "inv_core s" and t: "t < length (threads s)" and at: "loc s t = Wait_new p e" and free: "mutex_ready s p True"
  shows "\<exists>s'. continue t s = Some s' \<and> keeps s s'"
proof -
  have refs: "refs p (threads s ! t) > 0" using at by (simp add: refs_def at_page_def loc_def)
  then obtain f where f: "frame_of s p = Some f" "num_users f > 0" using refs_frame inv_coreD(1) [OF core] t by blast
  note m = thread_mutexD [OF inv_coreD(2) [OF core] t f(1)]
  have fr: "mutex_free True f" using free f(1) by (simp add: mutex_ready_def)
  let ?th = "(threads s ! t)\<lparr>at_loc := Waiting_locked p e\<rparr>"
  have th: "at_loc (threads s ! t) = Wait_new p e" using at by (simp add: loc_def)
  have ok: "thread_ok s ?th" using inv_core_thread_ok [OF core t] by (simp add: thread_ok_def)
  have "keeps s (set_thread t ?th (put_frame p (page_lock True t f) s))"
  proof (rule core_same_frame [OF core t f(1) page_lock_same])
    show "fstate f = EVICTING \<Longrightarrow> num_users (page_lock True t f) = 0"
      using page_not_evicting [OF core t refs f(1)] by simp
    show "mutex_wf (length (threads s)) (page_lock True t f)" by (rule lock_wf [OF m(3) fr t])
  qed (use f th fr m(1,2) ok in \<open>auto simp: refs_def excl_refs_def shared_refs_def at_page_def page_lock_def mutex_free_def loc_def writes_def\<close>)
  then show ?thesis using at f(1) by (simp add: continue_def set_at_keeps)
qed

lemma wait_unlock_ok:
  assumes core: "inv_core s" and t: "t < length (threads s)" and at: "loc s t = Waiting_locked p e"
  shows "\<exists>s'. continue t s = Some s' \<and> keeps s s'"
proof -
  have th: "at_loc (threads s ! t) = Waiting_locked p e" using at by (simp add: loc_def)
  have refs: "refs p (threads s ! t) > 0" using th by (simp add: refs_def at_page_def)
  then obtain f where f: "frame_of s p = Some f" "num_users f > 0" using refs_frame inv_coreD(1) [OF core] t by blast
  have ex: "excl_refs p (threads s ! t) > 0" using th by (simp add: excl_refs_def)
  note m = thread_mutexD [OF inv_coreD(2) [OF core] t f(1)]
  note u = unlock_excl [OF inv_coreD(2) [OF core] t f(1) ex]
  let ?g = "f\<lparr>exclusively_locked := False, mutex_writer := None\<rparr>"
  let ?th = "(threads s ! t)\<lparr>at_loc := Waited p e\<rparr>"
  have ok: "thread_ok s ?th" using inv_core_thread_ok [OF core t] by (simp add: thread_ok_def)
  have same: "same_frame f ?g" by (simp add: same_frame_def)
  have "keeps s (set_thread t ?th (put_frame p ?g s))"
  proof (rule core_same_frame [OF core t f(1) same])
    show "fstate f = EVICTING \<Longrightarrow> num_users ?g = 0" using page_not_evicting [OF core t refs f(1)] by simp
  qed (use f th u m(1,2) ok in \<open>auto simp: refs_def excl_refs_def shared_refs_def at_page_def loc_def writes_def\<close>)
  then show ?thesis using at f(1) u(1) by (simp add: continue_def set_at_keeps)
qed

lemma loading_owner:
  assumes "inv_core s" "state_of s p = Some LOADING" "frame_of s p = Some f"
  shows "mutex_writer f \<noteq> None"
proof -
  obtain u where u: "u < length (threads s)" "loading (loc s u) = Some p"
    using inv_statesD(2) [OF inv_coreD(6) [OF assms(1)] assms(2)] by blast
  then have "excl_refs p (threads s ! u) > 0" by (cases "loc s u") (auto simp: excl_refs_def loc_def)
  then show ?thesis using thread_mutexD(1) [OF inv_coreD(2) [OF assms(1)] u(1) assms(3)] by (auto split: if_splits)
qed

lemma lock_page_ok:
  assumes core: "inv_core s" and t: "t < length (threads s)" and at: "loc s t = Lock_page p e" and free: "mutex_ready s p e"
  shows "\<exists>s'. continue t s = Some s' \<and> keeps s s'"
proof -
  have th: "at_loc (threads s ! t) = Lock_page p e" using at by (simp add: loc_def)
  have refs: "refs p (threads s ! t) > 0" using th by (simp add: refs_def at_page_def)
  then obtain f where f: "frame_of s p = Some f" "num_users f > 0" using refs_frame inv_coreD(1) [OF core] t by blast
  note m = thread_mutexD [OF inv_coreD(2) [OF core] t f(1)]
  have fr: "mutex_free e f" using free f(1) by (simp add: mutex_ready_def)
  let ?th = "(threads s ! t)\<lparr>at_loc := Ready, holds := (p, e, False) # holds (threads s ! t)\<rparr>"
  have old: "thread_ok s (threads s ! t)" by (rule inv_core_thread_ok [OF core t])
  then have "fstate f \<noteq> NEW" using f th by (simp add: thread_ok_def state_of_def)
  moreover have "fstate f \<noteq> LOADING" using loading_owner [OF core _ f(1)] f(1) fr by (auto simp: state_of_def mutex_free_def)
  moreover have "fstate f \<noteq> EVICTING" by (rule page_not_evicting [OF core t refs f(1)])
  ultimately have "state_of s p \<in> {Some LOADED, Some RELOADED}" using f(1) by (cases "fstate f") (simp_all add: state_of_def)
  then have ok: "thread_ok s ?th" using old by (simp add: thread_ok_def hold_ok_def)
  have "keeps s (set_thread t ?th (put_frame p (page_lock e t f) s))"
  proof (rule core_same_frame [OF core t f(1) page_lock_same])
    show "fstate f = EVICTING \<Longrightarrow> num_users (page_lock e t f) = 0"
      using page_not_evicting [OF core t refs f(1)] by simp
    show "mutex_wf (length (threads s)) (page_lock e t f)" by (rule lock_wf [OF m(3) fr t])
  qed (use f th fr m(1,2) ok in \<open>auto simp: refs_def excl_refs_def shared_refs_def at_page_def page_lock_def
        mutex_free_def loc_def writes_def fixes_of_def excl_of_def shared_of_def\<close>)
  then show ?thesis using at f(1) t
    by (simp add: continue_def set_at_eq set_holds_eq held_by_def)
qed

lemma holdingD: "holding p hs = Some h \<Longrightarrow> h \<in> set hs \<and> fst h = p"
  by (auto simp: holding_def find_Some_iff)

lemma counts_remove1:
  assumes "h \<in> set hs"
  shows "fixes_of q (remove1 h hs) + (if fst h = q then 1 else 0) = fixes_of q hs"
    "excl_of q (remove1 h hs) + (if fst h = q \<and> fst (snd h) then 1 else 0) = excl_of q hs"
    "shared_of q (remove1 h hs) + (if fst h = q \<and> \<not> fst (snd h) then 1 else 0) = shared_of q hs"
  using assms by (induction hs) (auto simp: fixes_of_def excl_of_def shared_of_def)

lemma user_codeD:
  "in_user_code l \<Longrightarrow> page_of l = None \<and> owned_page l = None \<and> victim_of l = None \<and> loading l = None \<and> l \<noteq> Unfixing p d"
  by (cases l) simp_all

lemma hold_refs:
  assumes "h \<in> set (holds th)"
  shows "refs (fst h) th > 0" "if fst (snd h) then excl_refs (fst h) th > 0 else shared_refs (fst h) th > 0"
  using assms by (auto simp: refs_def excl_refs_def shared_refs_def fixes_of_def excl_of_def shared_of_def filter_empty_conv)

lemma unlock_hold:
  assumes "inv_mutex s" "t < length (threads s)" "frame_of s p = Some f" "h \<in> set (holds (threads s ! t))" "fst h = p"
  obtains g where "page_unlock t f = Some g" "same_frame f g" "num_users g = num_users f" "mutex_wf (length (threads s)) g"
    "\<And>u. u \<noteq> t \<Longrightarrow> mutex_writer g = Some u \<longleftrightarrow> mutex_writer f = Some u"
    "\<And>u. u \<noteq> t \<Longrightarrow> count_list (mutex_readers g) u = count_list (mutex_readers f) u"
    "(if mutex_writer g = Some t then 1 else 0) + (if fst (snd h) then 1 else 0 :: nat) = (if mutex_writer f = Some t then 1 else 0)"
    "count_list (mutex_readers g) t + (if fst (snd h) then 0 else 1) = count_list (mutex_readers f) t"
proof (cases "fst (snd h)")
  case True
  then have "excl_refs p (threads s ! t) > 0" using hold_refs(2) [OF assms(4)] assms(5) by simp
  note u = unlock_excl [OF assms(1-3) this]
  show thesis using that [OF u(1)] u True by (simp add: same_frame_def)
next
  case False
  then have "shared_refs p (threads s ! t) > 0" using hold_refs(2) [OF assms(4)] assms(5) by simp
  note u = unlock_shared [OF assms(1-3) this]
  have "count_list (mutex_readers f) t > 0" using u(3) by (metis count_list_0_iff neq0_conv)
  then show thesis using that [OF u(1)] u False
    by (simp add: same_frame_def count_list_remove1_same count_list_remove1_other)
qed

lemma unfix_unlock_ok:
  assumes core: "inv_core s" and t: "t < length (threads s)" and at: "in_user_code (loc s t)"
    and h: "holding p (held_by s t) = Some h" and dirty: "snd (snd h) \<longrightarrow> dirty"
  shows "\<exists>s'. exec t (Unfix_page p dirty) s = Some s' \<and> keeps s s'"
proof -
  let ?hs = "holds (threads s ! t)"
  have hm: "h \<in> set ?hs" "fst h = p" using holdingD [OF h] by (simp_all add: held_by_def)
  note user = user_codeD [OF at, unfolded loc_def]
  have refs: "refs p (threads s ! t) > 0" using hold_refs(1) [OF hm(1)] hm(2) by simp
  then obtain f where f: "frame_of s p = Some f" "num_users f > 0" using refs_frame inv_coreD(1) [OF core] t by blast
  note m = thread_mutexD [OF inv_coreD(2) [OF core] t f(1)]
  obtain g where g: "page_unlock t f = Some g" "same_frame f g" "num_users g = num_users f"
    "mutex_wf (length (threads s)) g" "\<And>u. u \<noteq> t \<Longrightarrow> mutex_writer g = Some u \<longleftrightarrow> mutex_writer f = Some u"
    "\<And>u. u \<noteq> t \<Longrightarrow> count_list (mutex_readers g) u = count_list (mutex_readers f) u"
    "(if mutex_writer g = Some t then 1 else 0) + (if fst (snd h) then 1 else 0 :: nat) = (if mutex_writer f = Some t then 1 else 0)"
    "count_list (mutex_readers g) t + (if fst (snd h) then 0 else 1) = count_list (mutex_readers f) t"
    by (rule unlock_hold [OF inv_coreD(2) [OF core] t f(1) hm]) blast
  let ?th = "(threads s ! t)\<lparr>holds := remove1 h ?hs, at_loc := Unfixing p dirty\<rparr>"
  note c = counts_remove1 [OF hm(1)]
  have old: "thread_ok s (threads s ! t)" by (rule inv_core_thread_ok [OF core t])
  have st: "state_of s p \<in> {Some LOADED, Some RELOADED}" using old hm by (auto simp: thread_ok_def hold_ok_def)
  have ok: "thread_ok s ?th" using old st set_remove1_subset [of h ?hs] by (auto simp: thread_ok_def)
  have "keeps s (set_thread t ?th (put_frame p g s))"
  proof (rule core_same_frame [OF core t f(1) g(2)])
    show "num_users g + refs p (threads s ! t) = num_users f + refs p ?th"
      using c(1) [of p] g(3) hm(2) user [of p dirty] by (simp add: refs_def at_page_def)
    show "refs q ?th = refs q (threads s ! t)" "excl_refs q ?th = excl_refs q (threads s ! t)"
      "shared_refs q ?th = shared_refs q (threads s ! t)" if "q \<noteq> p" for q
      using c [of q] hm(2) that user [of p dirty] by (simp_all add: refs_def excl_refs_def shared_refs_def at_page_def)
    show "excl_refs p ?th = (if mutex_writer g = Some t then 1 else 0)"
      using c(2) [of p] hm(2) m(1) g(7) user [of p dirty] by (simp add: excl_refs_def)
    show "shared_refs p ?th = count_list (mutex_readers g) t"
      using c(3) [of p] hm(2) m(2) g(8) by (simp add: shared_refs_def split: if_splits)
    show "fstate f = EVICTING \<Longrightarrow> num_users g = 0" using page_not_evicting [OF core t refs f(1)] by simp
    show "writes q ?th \<or> q = p \<and> is_dirty g" if w: "writes q (threads s ! t)" for q
    proof -
      obtain k where k: "k \<in> set ?hs" "fst k = q" "snd (snd k)" using w user [of q True] by (auto simp: writes_def)
      show ?thesis
      proof (cases "k = h")
        case True
        then show ?thesis using k hm dirty by (simp add: writes_def)
      next
        case False
        then have "k \<in> set (remove1 h ?hs)" using k(1) by (simp add: in_set_remove1)
        then show ?thesis using k by (auto simp: writes_def)
      qed
    qed
  qed (use f g ok user [of p dirty] in \<open>auto simp: loc_def\<close>)
  then show ?thesis using h f(1) g(1) t by (simp add: unfix_unlock_def set_at_eq set_holds_eq held_by_def put_set_thread)
qed

lemma unfix_finish_ok:
  assumes core: "inv_core s" and t: "t < length (threads s)" and at: "loc s t = Unfixing p dirty"
  shows "\<exists>s'. continue t s = Some s' \<and> keeps s s'"
proof -
  have th: "at_loc (threads s ! t) = Unfixing p dirty" using at by (simp add: loc_def)
  have refs: "refs p (threads s ! t) > 0" using th by (simp add: refs_def at_page_def)
  then obtain f where f: "frame_of s p = Some f" "num_users f > 0" using refs_frame inv_coreD(1) [OF core] t by blast
  note m = thread_mutexD [OF inv_coreD(2) [OF core] t f(1)]
  let ?g = "(if dirty then set_dirty f else f)\<lparr>num_users := num_users f - 1\<rparr>"
  let ?th = "(threads s ! t)\<lparr>at_loc := Ready\<rparr>"
  have old: "thread_ok s (threads s ! t)" by (rule inv_core_thread_ok [OF core t])
  have ok: "thread_ok s ?th" using old by (simp add: thread_ok_def)
  have new: "fstate f \<noteq> NEW" "fstate f \<noteq> EVICTING" using old th f(1) by (auto simp: thread_ok_def state_of_def)
  have same: "same_frame f ?g" by (simp add: same_frame_def set_dirty_def)
  have "keeps s (set_thread t ?th (put_frame p ?g s))"
    by (rule core_same_frame [OF core t f(1) same])
       (use f th m ok new in \<open>auto simp: refs_def excl_refs_def shared_refs_def at_page_def loc_def writes_def set_dirty_def mutex_wf_def\<close>)
  moreover have "continue t s = Some (set_thread t ?th (put_frame p ?g s))"
    using at f by (simp add: continue_def unfix_finish_def dec_num_users_def set_at_keeps set_dirty_def)
  ultimately show ?thesis by blast
qed

section \<open>Fixing a page that has a frame\<close>

text \<open>A thread in user code becomes a user of the page.\<close>

lemma acquire_ok:
  assumes core: "inv_core s" and t: "t < length (threads s)" and at: "in_user_code (loc s t)"
    and f: "frame_of s p = Some f" and st: "fstate f \<noteq> EVICTING"
    and l: "l = (if fstate f = NEW then Wait_new p e else Lock_page p e)"
  shows "keeps s (set_at t l (put_frame p (inc_num_users f) s))"
proof -
  note m = thread_mutexD [OF inv_coreD(2) [OF core] t f]
  note user = user_codeD [OF at, unfolded loc_def]
  let ?th = "(threads s ! t)\<lparr>at_loc := l\<rparr>"
  have page: "page_of l = Some p" "owned_page l = None" "victim_of l = None" "loading l = None" using l by simp_all
  have old: "thread_ok s (threads s ! t)" by (rule inv_core_thread_ok [OF core t])
  have ok: "thread_ok s ?th" using old f l by (simp add: thread_ok_def state_of_def)
  have same: "same_frame f (inc_num_users f)" by (simp add: same_frame_def inc_num_users_def)
  have "keeps s (set_thread t ?th (put_frame p (inc_num_users f) s))"
    by (rule core_same_frame [OF core t f same])
       (use m ok st page user [of _ True] in \<open>auto simp: refs_def excl_refs_def shared_refs_def at_page_def loc_def writes_def
          inc_num_users_def mutex_wf_def\<close>)
  then show ?thesis by (simp add: set_at_keeps)
qed

text \<open>A thread claims a page that another thread is writing out.\<close>

lemma reload_ok:
  assumes core: "inv_core s" and f: "frame_of s p = Some f" and st: "fstate f = EVICTING"
  shows "keeps s (put_frame p (f\<lparr>fstate := RELOADED\<rparr>) s)" (is "keeps s ?s")
proof -
  let ?g = "f\<lparr>fstate := RELOADED\<rparr>"
  note inv = inv_coreD [OF core]
  have u0: "users s p = 0" using inv_statesD(4) [OF inv(6), of p] f st by (simp add: state_of_def)
  have views: "slot_of ?s q = slot_of s q" "dirty_page ?s q = dirty_page s q" "in_mem ?s q = in_mem s q"
    "users ?s q = users s q" "writer_of ?s q = writer_of s q" "readers_of ?s q = readers_of s q"
    "is_loaded ?s q = is_loaded s q" for q
    using f st by (auto simp: slot_of_def dirty_page_def in_mem_def users_def writer_of_def readers_of_def is_loaded_iff split: option.splits)
  have state: "state_of ?s q = (if q = p then Some RELOADED else state_of s q)" for q by simp
  have threads_ok: "thread_ok ?s th" if ok: "thread_ok s th" for th
  proof -
    have "hold_ok s h \<Longrightarrow> hold_ok ?s h" for h by (auto simp: hold_ok_def)
    moreover have "loc_ok s l \<Longrightarrow> loc_ok ?s l" for l
      using f st views by (cases l) (auto simp: state_of_def)
    ultimately show ?thesis using ok by (auto simp: thread_ok_def)
  qed
  have "inv_users ?s" using inv(1) views by (simp add: inv_users_def)
  moreover have "inv_mutex ?s"
    using inv(2) f views by (auto simp: inv_mutex_def thread_mutex_def mutex_wf_def)
  moreover have "inv_lists ?s" using inv(3) f st by (auto simp: inv_lists_def lists_wf_def)
  moreover have "inv_memory ?s"
    by (rule inv_memory_views [OF inv(4)]) (use inv(4) views in \<open>simp_all add: inv_memory_def put_frame_def distinct_update\<close>)
  moreover have "inv_threads ?s"
    using inv(5) threads_ok by (simp add: inv_threads_def)
  moreover have "inv_states ?s"
    using inv(6) u0 f st views(4) unfolding inv_states_def by (auto simp: state_of_def)
  moreover have "inv_data ?s" using inv(7) views by (simp add: inv_data_def)
  ultimately have "inv_core ?s" by (simp add: inv_core_def)
  moreover have "contents ?s = contents s" using views by (simp add: contents_def fun_eq_iff)
  moreover have "inv_room s \<longrightarrow> inv_room ?s"
    using inv_room_views [of s ?s] f views by (simp add: length_put)
  ultimately show ?thesis by (simp add: keeps_def)
qed

text \<open>A step that only moves a page between the lists.\<close>

lemma keeps_lists:
  assumes core: "inv_core s" and lists: "inv_lists s'"
    and eq: "threads s' = threads s" "page_size s' = page_size s" "page_count s' = page_count s"
      "loaded_pages s' = loaded_pages s" "files s' = files s" "segment_files s' = segment_files s"
      "length (bufferframes s') = length (bufferframes s)" "distinct (map fst (bufferframes s'))"
    and views: "\<And>q. users s' q = users s q" "\<And>q. writer_of s' q = writer_of s q" "\<And>q. readers_of s' q = readers_of s q"
      "\<And>q. slot_of s' q = slot_of s q" "\<And>q. state_of s' q = state_of s q" "\<And>q. dirty_page s' q = dirty_page s q"
    and wf: "\<And>q f. frame_of s' q = Some f \<Longrightarrow> mutex_wf (length (threads s)) f"
  shows "keeps s s'"
proof -
  note inv = inv_coreD [OF core]
  have loc: "loc s' t = loc s t" for t using eq by (simp add: loc_def)
  have more: "stored s' q = stored s q" "on_disk s' q = on_disk s q" "in_mem s' q = in_mem s q" "is_loaded s' q = is_loaded s q" for q
    using eq views by (simp_all add: stored_def page_offset_def on_disk_def in_mem_def is_loaded_def split: option.split)
  have ok: "thread_ok s' th" if "thread_ok s th" for th
    by (rule thread_ok_same [OF that]) (use eq more views in \<open>simp_all add: same_page_def\<close>)
  have "inv_users s'" using inv(1) eq views by (simp add: inv_users_def)
  moreover have "inv_mutex s'"
    using inv(2) wf eq views unfolding inv_mutex_def thread_mutex_def by simp
  moreover have "inv_memory s'"
    by (rule inv_memory_views [OF inv(4)]) (use inv(4) eq views in \<open>simp_all add: inv_memory_def\<close>)
  moreover have "inv_threads s'" using inv(5) ok eq unfolding inv_threads_def loc by simp
  moreover have "inv_states s'" using inv(6) unfolding inv_states_def loc views eq by simp
  moreover have "inv_data s'" using inv(7) unfolding inv_data_def more views eq by simp
  ultimately have "inv_core s'" using lists by (simp add: inv_core_def)
  moreover have "contents s' = contents s" using more by (simp add: contents_def fun_eq_iff)
  moreover have "inv_room s \<longrightarrow> inv_room s'" using inv_room_views [of s s'] eq views by simp
  ultimately show ?thesis using eq by (simp add: keeps_def)
qed

lemma touch_ok:
  assumes core: "inv_core s" and f: "frame_of s p = Some f" and st: "fstate f \<noteq> NEW"
  shows "\<exists>s'. touch p s = Some s' \<and> keeps s s'"
proof -
  note inv = inv_coreD [OF core]
  have pos: "fifo_position f \<noteq> lru_position f" using inv(3) f st by (auto simp: inv_lists_def lists_wf_def)
  have l: "distinct (fifo_list s)" "distinct (lru_list s)"
    "\<And>q. q \<in> set (fifo_list s) \<longleftrightarrow> (\<exists>g. frame_of s q = Some g \<and> fifo_position g)"
    "\<And>q. q \<in> set (lru_list s) \<longleftrightarrow> (\<exists>g. frame_of s q = Some g \<and> lru_position g)"
    "\<And>q g. frame_of s q = Some g \<Longrightarrow> lists_wf g"
    using inv(3) unfolding inv_lists_def by blast+
  have wf: "mutex_wf (length (threads s)) g" if "frame_of s q = Some g" for q g using inv(2) that by (simp add: inv_mutex_def)
  have keys: "distinct (map fst (bufferframes s))" using inv(4) by (simp add: inv_memory_def)
  show ?thesis
  proof (cases "lru_position f")
    case True
    let ?s = "s\<lparr>lru_list := remove1 p (lru_list s) @ [p]\<rparr>"
    have "p \<in> set (lru_list s)" using True f l(4) by blast
    then have "set (lru_list ?s) = set (lru_list s)" "distinct (lru_list ?s)"
      using l(2) by (auto simp: set_remove1_eq)
    then have "inv_lists ?s" using l(1,3,4,5) unfolding inv_lists_def by simp
    then have "keeps s ?s" by (rule keeps_lists [OF core]) (use wf keys in simp_all)
    then show ?thesis using f True by (simp add: touch_def)
  next
    case False
    let ?g = "f\<lparr>fifo_position := False, lru_position := True\<rparr>"
    let ?s = "put_frame p ?g s\<lparr>fifo_list := remove1 p (fifo_list s), lru_list := lru_list s @ [p]\<rparr>"
    have "p \<notin> set (lru_list s)" using False f l(4) by auto
    then have "inv_lists ?s"
      using l st f unfolding inv_lists_def by (auto simp: set_remove1_eq lists_wf_def)
    then have "keeps s ?s"
    proof (rule keeps_lists [OF core])
      show "mutex_wf (length (threads s)) h" if "frame_of ?s q = Some h" for q h
        using that wf wf [OF f] by (auto split: if_splits)
      show "distinct (map fst (bufferframes ?s))" using keys by (simp add: put_frame_def distinct_update)
    qed (use f in \<open>auto simp: length_put users_def writer_of_def readers_of_def slot_of_def state_of_def dirty_page_def\<close>)
    then show ?thesis using f False pos by (simp add: touch_def)
  qed
qed

lemma touch_set_at: "touch p (set_at t l s) = map_option (set_at t l) (touch p s)"
  by (auto simp: touch_def require_bind_if split: bind_splits)

lemma fix_hit_ok:
  assumes core: "inv_core s" and t: "t < length (threads s)" and at: "in_user_code (loc s t)"
    and f: "frame_of s p = Some f"
  shows "\<exists>s'. fix_hit t p e f s = Some s' \<and> keeps s s'"
proof (cases "fstate f = NEW")
  case True
  then show ?thesis using acquire_ok [OF core t at f, of "Wait_new p e" e] by (simp add: fix_hit_def Let_def inc_num_users_def)
next
  case False
  define g where "g = (if fstate f = EVICTING then f\<lparr>fstate := RELOADED\<rparr> else f)"
  have g: "fstate g \<noteq> NEW" "fstate g \<noteq> EVICTING" using False by (simp_all add: g_def)
  have k1: "keeps s (put_frame p g s)" (is "keeps s ?s1")
  proof (cases "fstate f = EVICTING")
    case True
    then show ?thesis using reload_ok [OF core f] by (simp add: g_def)
  next
    case False
    have "put_frame p f s = s" using f by (simp add: put_frame_def frame_of_def update_triv)
    with False show ?thesis using core by (simp add: g_def keeps_def)
  qed
  have "in_user_code (loc ?s1 t)" using at by simp
  then have k2: "keeps ?s1 (set_at t (Lock_page p e) (put_frame p (inc_num_users g) ?s1))" (is "keeps ?s1 ?s2")
    using acquire_ok [OF keeps_core [OF k1], of t p g "Lock_page p e" e] t g by simp
  have "put_frame p (inc_num_users g) ?s1 = put_frame p (inc_num_users g) s" (is "_ = ?s3")
    by (simp add: put_frame_def update_twice)
  with k2 have k2: "keeps ?s1 (set_at t (Lock_page p e) ?s3)" by simp
  obtain s' where s': "touch p (set_at t (Lock_page p e) ?s3) = Some s'" "keeps (set_at t (Lock_page p e) ?s3) s'"
    using touch_ok [OF keeps_core [OF k2], of p "inc_num_users g"] g by (auto simp: inc_num_users_def)
  then obtain s4 where s4: "touch p ?s3 = Some s4" "s' = set_at t (Lock_page p e) s4" by (auto simp: touch_set_at)
  have "keeps s s'" using k1 k2 s'(2) by (blast intro: keeps_trans)
  moreover have "inc_num_users g = (if fstate f = EVICTING then (inc_num_users f)\<lparr>fstate := RELOADED\<rparr> else inc_num_users f)"
    by (simp add: g_def inc_num_users_def)
  moreover have "fstate (inc_num_users f) = fstate f" by (simp add: inc_num_users_def)
  ultimately show ?thesis using s4 False by (simp add: fix_hit_def Let_def)
qed

end
