(* ===== verification/Buffer_Evict.thy ===== *)
theory Buffer_Evict
  imports Buffer_Steps
begin

text \<open>
  The sections of \<open>fix_page\<close> that move pages between memory and the files: eviction, the write of
  a copy, loading.
\<close>

section \<open>Pages of a file\<close>

definition page_at :: "nat \<Rightarrow> nat \<Rightarrow> bytes \<Rightarrow> bytes" where
  "page_at ps off c = take ps (drop off c @ replicate ps 0)"

lemma stored_page_at: "stored s p = page_at (page_size s) (page_offset s p) (files s (bm_segment_id p))"
  by (simp add: stored_def page_at_def)

lemma length_page_at [simp]: "length (page_at ps off c) = ps"
  by (simp add: page_at_def)

lemma nth_page_at: "i < ps \<Longrightarrow> page_at ps off c ! i = (if off + i < length c then c ! (off + i) else 0)"
  by (auto simp: page_at_def nth_append)

lemma page_at_behind: "length c \<le> off \<Longrightarrow> page_at ps off c = replicate ps 0"
  by (rule nth_equalityI) (simp_all add: nth_page_at)

lemma page_at_resized: "length c \<le> n \<Longrightarrow> page_at ps off (file_resized n c) = page_at ps off c"
  by (rule nth_equalityI) (auto simp: nth_page_at file_resized_def nth_append)

lemma length_file_resized [simp]: "length (file_resized n c) = n"
  by (simp add: file_resized_def min_def)

lemma page_at_inside: "off + ps \<le> length c \<Longrightarrow> page_at ps off c = take ps (drop off c)"
  by (simp add: page_at_def)

lemma memcpy_page:
  assumes "off + ps \<le> length c" "length block = ps"
  shows "memcpy c off block 0 ps = Some (take off c @ block @ drop (off + ps) c)"
  using assms by (simp add: memcpy_def)

lemma page_at_written:
  assumes "off + ps \<le> length c" "length block = ps"
  shows "page_at ps off (take off c @ block @ drop (off + ps) c) = block"
  using assms by (simp add: page_at_def)

lemma page_at_written_other:
  assumes "off + ps \<le> length c" "length block = ps" "off = k * ps" "off' = k' * ps" "k \<noteq> k'"
  shows "page_at ps off' (take off c @ block @ drop (off + ps) c) = page_at ps off' c"
proof (rule nth_equalityI)
  fix i assume "i < length (page_at ps off' (take off c @ block @ drop (off + ps) c))"
  then have i: "i < ps" by simp
  have "k * ps + ps \<le> k' * ps \<or> k' * ps + ps \<le> k * ps"
  proof (cases "k < k'")
    case True
    then have "Suc k * ps \<le> k' * ps" by (intro mult_le_mono1) simp
    then show ?thesis by simp
  next
    case False
    then have "Suc k' * ps \<le> k * ps" using assms(5) by (intro mult_le_mono1) simp
    then show ?thesis by simp
  qed
  then have "off' + i < off \<or> off + ps \<le> off' + i" using i assms(3,4) by linarith
  then show "page_at ps off' (take off c @ block @ drop (off + ps) c) ! i = page_at ps off' c ! i"
    using i assms(1,2) by (auto simp: nth_page_at nth_append)
qed simp

lemma whole_page_before:
  assumes "ps dvd n" "(n :: nat) < (k + 1) * ps"
  shows "n \<le> k * ps"
proof -
  obtain m where "n = ps * m" using assms(1) by (rule dvdE)
  then have m: "n = m * ps" by (simp add: mult.commute)
  then have "m \<le> k" using assms(2) by (metis Suc_eq_plus1 less_Suc_eq_le mult_less_cancel2)
  then show ?thesis using m by simp
qed

text \<open>Writing one page changes no other page, on whatever file.\<close>

lemma stored_write:
  assumes "on_disk s v" "length block = page_size s"
    and c: "c = take (page_offset s v) (files s (bm_segment_id v)) @ block @ drop (page_offset s v + page_size s) (files s (bm_segment_id v))"
  shows "stored (set_file v c s) q = (if q = v then block else stored s q)"
    "on_disk (set_file v c s) q = on_disk s q"
    "length c = length (files s (bm_segment_id v))"
proof -
  have len: "page_offset s v + page_size s \<le> length (files s (bm_segment_id v))" using assms(1) by (simp add: on_disk_def)
  show lc: "length c = length (files s (bm_segment_id v))" using len assms(2) c by simp
  show "on_disk (set_file v c s) q = on_disk s q" using lc by (simp add: on_disk_def)
  show "stored (set_file v c s) q = (if q = v then block else stored s q)"
  proof (cases "bm_segment_id q = bm_segment_id v")
    case True
    show ?thesis
    proof (cases "q = v")
      case True
      then show ?thesis using page_at_written [OF len assms(2)] c by (simp add: stored_page_at)
    next
      case False
      then have "bm_segment_page_id v \<noteq> bm_segment_page_id q" using True segment_page_inj by metis
      then show ?thesis
        using page_at_written_other [OF len assms(2) page_offset_def page_offset_def] c True False
        by (simp add: stored_page_at)
    qed
  next
    case False
    then show ?thesis by (auto simp: stored_page_at)
  qed
qed

text \<open>Growing a file changes no page.\<close>

lemma stored_resized:
  assumes "length (files s (bm_segment_id p)) \<le> n"
  shows "stored (set_file p (file_resized n (files s (bm_segment_id p))) s) q = stored s q"
    "on_disk s q \<Longrightarrow> on_disk (set_file p (file_resized n (files s (bm_segment_id p))) s) q"
  using assms page_at_resized [OF assms]
  by (auto simp: stored_page_at on_disk_def file_resized_def)

section \<open>Eviction\<close>

text \<open>Nobody mentions a loaded page without users.\<close>

lemma unused_page:
  assumes "inv_core s" "u < length (threads s)" "users s v = 0" "state_of s v = Some LOADED" "mentions (threads s ! u) q"
  shows "q \<noteq> v"
  using mentions_page_state [OF inv_coreD(1,5) [OF assms(1)] assms(2,5)] assms(3,4) by auto

lemma waiting_thread:
  assumes "loc s t = Waiting_locked p e"
  shows "at_loc (threads s ! t) = Waiting_locked p e" "victim_of (loc s t) = None" "loading (loc s t) = None"
    "refs q ((threads s ! t)\<lparr>at_loc := l\<rparr>) = fixes_of q (holds (threads s ! t)) + at_page q l"
    "refs q (threads s ! t) = fixes_of q (holds (threads s ! t)) + (if q = p then 1 else 0)"
    "excl_refs q (threads s ! t) = excl_of q (holds (threads s ! t)) + (if q = p then 1 else 0)"
  using assms by (simp_all add: loc_def refs_def excl_refs_def at_page_def)

lemma evict_start_ok:
  assumes core: "inv_core s" and t: "t < length (threads s)" and at: "loc s t = Waiting_locked p e"
    and new: "state_of s p = Some NEW" and v: "frame_of s v = Some f"
    and f: "num_users f = 0" "fstate f = LOADED" "is_dirty f" "fdata f = Some d"
  shows "keeps s (set_at t (Write_victim p e v (loaded_pages s ! d)) (put_frame v (f\<lparr>fstate := EVICTING\<rparr>) s))"
    (is "keeps s ?s")
proof -
  let ?g = "f\<lparr>fstate := EVICTING\<rparr>"
  let ?l = "Write_victim p e v (loaded_pages s ! d)"
  let ?th = "(threads s ! t)\<lparr>at_loc := ?l\<rparr>"
  note inv = inv_coreD [OF core]
  have th: "threads ?s = (threads s)[t := ?th]" by simp
  have st: "state_of s v = Some LOADED" using v f by (simp add: state_of_def)
  have u0: "users s v = 0" using v f by (simp add: users_def)
  have views: "slot_of ?s q = slot_of s q" "dirty_page ?s q = dirty_page s q" "in_mem ?s q = in_mem s q"
    "users ?s q = users s q" "writer_of ?s q = writer_of s q" "readers_of ?s q = readers_of s q"
    "is_loaded ?s q = is_loaded s q" "state_of ?s q = (if q = v then Some EVICTING else state_of s q)" for q
    using v f by (auto simp: slot_of_def dirty_page_def in_mem_def users_def writer_of_def readers_of_def is_loaded_iff split: option.splits)
  have pv: "p \<noteq> v" using new st by auto
  have mem: "in_mem s v = loaded_pages s ! d" "length (loaded_pages s ! d) = page_size s" "dirty_page s v"
  proof -
    have sl: "slot_of s v = Some d" using v f by (simp add: slot_of_def)
    then show "in_mem s v = loaded_pages s ! d" by (simp add: in_mem_def)
    have "d < length (loaded_pages s)" using sl inv(4) by (simp add: inv_memory_def)
    then show "length (loaded_pages s ! d) = page_size s" using inv(4) by (simp add: inv_memory_def)
    show "dirty_page s v" using v f by (simp add: dirty_page_def)
  qed
  have others: "thread_ok ?s (threads s ! u)" if u: "u < length (threads s)" "u \<noteq> t" for u
  proof (rule thread_ok_same)
    show "thread_ok s (threads s ! u)" by (rule inv_core_thread_ok [OF core u(1)])
    show "same_page s ?s q" if "mentions (threads s ! u) q" for q
      using unused_page [OF core u(1) u0 st that] views by (simp add: same_page_def)
  qed simp
  have old: "thread_ok s (threads s ! t)" by (rule inv_core_thread_ok [OF core t])
  have holds: "hold_ok ?s h" if h: "h \<in> set (holds (threads s ! t))" for h
  proof -
    have "fst h \<noteq> v" using unused_page [OF core t u0 st] mentions_hold [OF h] by blast
    then show ?thesis using old h views by (simp add: thread_ok_def hold_ok_def)
  qed
  have "inv_users ?s"
    by (rule inv_users_step [OF inv(1) t th]) (simp add: u0 f(1) waiting_thread [OF at] at_page_def)
  moreover have "inv_mutex ?s"
  proof (rule inv_mutex_step [OF inv(2) th])
    have "thread_mutex s t (threads s ! t)" using inv(2) t by (simp add: inv_mutex_def)
    then show "thread_mutex ?s t ?th"
      using waiting_thread(1) [OF at] by (simp add: thread_mutex_def frame_views [OF v] excl_refs_def shared_refs_def)
    show "mutex_wf (length (threads s)) h" if "frame_of ?s q = Some h" for q h
      using that inv(2) v by (auto simp: inv_mutex_def split: if_splits)
  qed (simp_all only: views)
  moreover have "inv_lists ?s" using inv(3) v f by (auto simp: set_at_eq inv_lists_def lists_wf_def)
  moreover have "inv_memory ?s"
    by (rule inv_memory_views [OF inv(4)]) (use inv(4) views in \<open>simp_all add: inv_memory_def put_frame_def distinct_update\<close>)
  moreover have "inv_threads ?s"
  proof (rule inv_threads_step [OF inv(5) t th _ others])
    show "thread_ok ?s ?th"
      using holds new pv mem(2) f unfolding thread_ok_def by simp
    show "victim_of (loc s u) \<noteq> Some w"
      if "u < length (threads s)" "victim_of (at_loc ?th) = Some w" for u w
      using unused_page [OF core that(1) u0 st] mentions_victim [of "threads s ! u" w] that(2) by (auto simp: loc_def)
  qed
  moreover have "inv_states ?s"
  proof (rule inv_states_step [OF inv(6) th t])
    show "users ?s q > 0" if "state_of ?s q = Some NEW" for q
      using that inv_statesD(1) [OF inv(6), of q] unfolding views by (simp split: if_splits)
    show "users ?s q = 0" if "state_of ?s q = Some EVICTING" for q
      using that inv_statesD(4) [OF inv(6), of q] u0 unfolding views by (simp split: if_splits)
  qed (use waiting_thread [OF at] in \<open>auto simp: views split: if_splits\<close>)
  moreover have "inv_data ?s"
  proof (rule inv_data_step [OF inv(7) th t])
    show "on_disk ?s q" if "is_loaded ?s q" for q using that inv(7) unfolding views inv_data_def by simp
    show "dirty_page ?s q \<or> writes q ?th \<or> in_mem ?s q = stored ?s q
       \<or> (\<exists>u<length (threads s). u \<noteq> t \<and> writes q (threads s ! u))" if l: "is_loaded ?s q" for q
    proof -
      have "dirty_page s q \<or> (\<exists>u<length (threads s). writes q (threads s ! u)) \<or> in_mem s q = stored s q"
        using l inv(7) unfolding views inv_data_def by blast
      moreover have "writes q (threads s ! t) \<Longrightarrow> writes q ?th"
        using waiting_thread(1) [OF at] by (auto simp: writes_def)
      ultimately show ?thesis unfolding views by auto
    qed
  qed (use inv(7) in \<open>simp_all add: inv_data_def\<close>)
  ultimately have "inv_core ?s" by (simp add: inv_core_def)
  moreover have "contents ?s = contents s" unfolding contents_def fun_eq_iff views by simp
  moreover have "inv_room s \<longrightarrow> inv_room ?s"
    using inv_room_views [of s ?s] v views by (simp add: length_put)
  ultimately show ?thesis by (simp add: keeps_def)
qed

text \<open>The victim leaves the buffer; memory and file agree on it.\<close>

lemma no_users:
  assumes "inv_core s" "frame_of s v = Some f" "num_users f = 0"
  shows "mutex_writer f = None" "mutex_readers f = []" "\<And>u. u < length (threads s) \<Longrightarrow> refs v (threads s ! u) = 0"
proof -
  note inv = inv_coreD [OF assms(1)]
  have u0: "users s v = 0" using assms(2,3) by (simp add: users_def)
  show r0: "refs v (threads s ! u) = 0" if "u < length (threads s)" for u using refs_users [OF inv(1) that, of v] u0 by simp
  have wf: "mutex_wf (length (threads s)) f" using inv(2) assms(2) by (simp add: inv_mutex_def)
  show "mutex_writer f = None"
  proof (rule ccontr)
    assume "mutex_writer f \<noteq> None"
    then obtain u where u: "mutex_writer f = Some u" "u < length (threads s)" using wf by (auto simp: mutex_wf_def)
    then have "excl_refs v (threads s ! u) > 0" using thread_mutexD(1) [OF inv(2) u(2) assms(2)] by simp
    from owner_refs [OF this] show False using r0 [OF u(2)] by simp
  qed
  show "mutex_readers f = []"
  proof (rule ccontr)
    assume "mutex_readers f \<noteq> []"
    then obtain u where u: "u \<in> set (mutex_readers f)" by (meson list.set_sel(1))
    then have n: "u < length (threads s)" using wf by (auto simp: mutex_wf_def)
    have "shared_refs v (threads s ! u) > 0"
      using thread_mutexD(2) [OF inv(2) n assms(2)] u by (metis count_list_0_iff neq0_conv)
    then show False using r0 [OF n] by (simp add: shared_refs_def refs_def fixes_split)
  qed
qed

lemma drop_ok:
  assumes core: "inv_core s" and t: "t < length (threads s)" and v: "frame_of s v = Some f" and nu: "num_users f = 0"
    and at: "loc s t = Waiting_locked p e \<and> fstate f = LOADED \<or> loc s t = Written_victim p e v \<and> fstate f = EVICTING"
    and agree: "in_mem s v = stored s v"
  obtains d s' where "drop_victim v s = Some (d, s')" "inv_core (set_at t (Waiting_locked p e) s')" "contents s' = contents s"
    "fdata f = Some d" "\<And>q. slot_of s' q = (if q = v then None else slot_of s q)"
    "\<And>q. state_of s' q = (if q = v then None else state_of s q)" "threads s' = threads s"
    "page_count s' = page_count s" "bufferframes s' = AList.delete v (bufferframes s)"
proof -
  note inv = inv_coreD [OF core]
  define s0 where "s0 = (if lru_position f then s\<lparr>lru_list := remove1 v (lru_list s)\<rparr> else s\<lparr>fifo_list := remove1 v (fifo_list s)\<rparr>)"
  let ?s' = "drop_frame v s0"
  let ?s = "set_at t (Waiting_locked p e) ?s'"
  let ?th = "(threads s ! t)\<lparr>at_loc := Waiting_locked p e\<rparr>"
  have sel: "page_size ?s' = page_size s" "page_count ?s' = page_count s" "loaded_pages ?s' = loaded_pages s"
    "files ?s' = files s" "segment_files ?s' = segment_files s" "threads ?s' = threads s"
    "bufferframes ?s' = AList.delete v (bufferframes s)" by (simp_all add: s0_def drop_frame_def)
  have th: "threads ?s = (threads s)[t := ?th]" using sel by simp
  have fr: "frame_of ?s q = (if q = v then None else frame_of s q)" for q by (simp add: s0_def)
  note vv = frame_views [OF v]
  note nu' = no_users [OF core v nu]
  have views: "slot_of ?s q = (if q = v then None else slot_of s q)" "dirty_page ?s q = (q \<noteq> v \<and> dirty_page s q)"
    "users ?s q = users s q" "writer_of ?s q = writer_of s q" "readers_of ?s q = readers_of s q"
    "state_of ?s q = (if q = v then None else state_of s q)" "is_loaded ?s q = (q \<noteq> v \<and> is_loaded s q)"
    "stored ?s q = stored s q" "on_disk ?s q = on_disk s q" for q
    using vv nu nu' by (simp_all add: s0_def is_loaded_def)
  have mem: "q \<noteq> v \<Longrightarrow> in_mem ?s q = in_mem s q" for q by (simp add: s0_def)
  have st: "state_of s v \<in> {Some LOADED, Some EVICTING}" using vv at by auto
  have lf: "lists_wf f" "distinct (map fst (bufferframes s))" using inv(3,4) v by (auto simp: inv_lists_def inv_memory_def)
  then obtain d where d: "fdata f = Some d" "fifo_position f \<noteq> lru_position f" using at by (auto simp: lists_wf_def)
  have victim: "w = v" if "victim_of (loc s t) = Some w" for w using at that by auto
  have loc_t: "page_of (loc s t) = Some p" "owned_page (loc s t) = Some p" "loading (loc s t) = None" "loc s t \<noteq> Unfixing q b" for q b
    using at by auto
  have ment: "q \<noteq> v" if u: "u < length (threads s)" and m: "mentions (threads s ! u) q" and neq: "u \<noteq> t \<or> refs q (threads s ! u) > 0" for u q
  proof
    assume q: "q = v"
    then have vu: "victim_of (loc s u) = Some v" using m nu'(3) [OF u] by (simp add: mentions_def loc_def)
    moreover have "u \<noteq> t" using neq q nu'(3) [OF u] by auto
    ultimately show False
    proof (cases "fstate f = LOADED")
      case True
      then show ?thesis using inv_core_thread_ok [OF core u] vu vv(5) by (cases "loc s u") (auto simp: thread_ok_def loc_def)
    next
      case False
      then have "victim_of (loc s t) = Some v" using at by auto
      then show ?thesis using inv(5) u t vu \<open>u \<noteq> t\<close> unfolding inv_threads_def by blast
    qed
  qed
  have same: "same_page s ?s q" if "q \<noteq> v" for q
    unfolding same_page_def views mem [OF that] using that by simp
  have others: "thread_ok ?s (threads s ! u)" if u: "u < length (threads s)" "u \<noteq> t" for u
    by (rule thread_ok_same [OF inv_core_thread_ok [OF core u(1)]]) (use sel same ment [OF u(1)] u(2) in simp_all)
  have "inv_users ?s"
    by (rule inv_users_step [OF inv(1) t th])
       (use loc_t in \<open>simp add: views refs_def at_page_def loc_def del: users_update\<close>)
  moreover have "inv_mutex ?s"
  proof (rule inv_mutex_step [OF inv(2) th])
    have "thread_mutex s t (threads s ! t)" using inv(2) t by (simp add: inv_mutex_def)
    then show "thread_mutex ?s t ?th"
      using loc_t unfolding thread_mutex_def views by (simp add: excl_refs_def shared_refs_def loc_def)
    show "mutex_wf (length (threads s)) h" if "frame_of ?s q = Some h" for q h
      using that inv(2) unfolding fr by (auto simp: inv_mutex_def split: if_splits)
  qed (simp_all only: views)
  moreover have "inv_lists ?s"
  proof -
    have "inv_lists ?s'" using inv(3) d(2) v unfolding inv_lists_def s0_def
      by (auto simp: set_remove1_eq split: if_splits)
    then show ?thesis by (simp add: set_at_eq)
  qed
  moreover have "inv_memory ?s"
    using inv(4) views(1) sel lf(2) unfolding inv_memory_def by (auto simp: distinct_delete split: if_splits)
  moreover have "inv_threads ?s"
  proof (rule inv_threads_step [OF inv(5) t th _ others])
    have "hold_ok ?s h" if h: "h \<in> set (holds (threads s ! t))" for h
    proof -
      have "fst h \<noteq> v" using ment [OF t mentions_hold [OF h]] hold_refs(1) [OF h] by blast
      moreover have "hold_ok s h" using inv_core_thread_ok [OF core t] h by (simp add: thread_ok_def)
      ultimately show ?thesis unfolding hold_ok_def views by simp
    qed
    then show "thread_ok ?s ?th" by (simp add: thread_ok_def)
  qed simp_all
  moreover have "inv_states ?s"
  proof (rule inv_states_step [OF inv(6) th t])
    show "users ?s q > 0" if "state_of ?s q = Some NEW" for q
      using that inv_statesD(1) [OF inv(6), of q] unfolding views by (simp split: if_splits)
    show "users ?s q = 0" if "state_of ?s q = Some EVICTING" for q
      using that inv_statesD(4) [OF inv(6), of q] unfolding views by (simp split: if_splits)
    show "victim_of (at_loc ?th) = Some q \<or> state_of s q \<in> {Some EVICTING, Some RELOADED} \<and> victim_of (loc s t) \<noteq> Some q"
      if "state_of ?s q \<in> {Some EVICTING, Some RELOADED}" for q
      using that victim [of q] unfolding views by (auto split: if_splits)
  qed (use loc_t(3) in \<open>simp_all add: views del: state_of_update split: if_splits\<close>)
  moreover have "inv_data ?s"
  proof (rule inv_data_step [OF inv(7) th t])
    show "on_disk ?s q" if "is_loaded ?s q" for q using that inv(7) unfolding views inv_data_def by simp
    show "dirty_page ?s q \<or> writes q ?th \<or> in_mem ?s q = stored ?s q
       \<or> (\<exists>u<length (threads s). u \<noteq> t \<and> writes q (threads s ! u))" if l: "is_loaded ?s q" for q
    proof -
      have q: "q \<noteq> v" "is_loaded s q" using l unfolding views by simp_all
      then have "dirty_page s q \<or> (\<exists>u<length (threads s). writes q (threads s ! u)) \<or> in_mem s q = stored s q"
        using inv(7) unfolding inv_data_def by blast
      moreover have "writes q (threads s ! t) \<Longrightarrow> writes q ?th"
        using loc_t(4) by (auto simp: writes_def loc_def)
      ultimately show ?thesis using q mem [OF q(1)] unfolding views by auto
    qed
  qed (use inv(7) sel in \<open>simp_all add: inv_data_def\<close>)
  ultimately have i: "inv_core ?s" by (simp add: inv_core_def)
  have "is_loaded s v" using st by (auto simp: is_loaded_def)
  then have "contents ?s q = contents s q" for q
    using agree mem [of q] unfolding contents_def views by auto
  then have c: "contents ?s' = contents s" by (simp add: fun_eq_iff)
  have drop: "drop_victim v s = Some (d, ?s')"
    using v d by (simp add: drop_victim_def s0_def)
  have "slot_of ?s' q = (if q = v then None else slot_of s q)" "state_of ?s' q = (if q = v then None else state_of s q)" for q
    using views(1,6) [of q] by simp_all
  then show thesis using that [OF drop i c d(1)] sel by blast
qed

section \<open>Loading\<close>

text \<open>What the other threads rely on when a page that is new or loading changes.\<close>

lemma new_page_others:
  assumes core: "inv_core s" and t: "t < length (threads s)" and own: "excl_refs p (threads s ! t) > 0"
    and new: "state_of s p = Some NEW \<or> state_of s p = Some LOADING" "state_of s' p \<noteq> Some NEW"
    and u: "u < length (threads s)" "u \<noteq> t"
    and same: "\<And>q. q \<noteq> p \<Longrightarrow> same_page s s' q" "page_size s' = page_size s"
  shows "thread_ok s' (threads s ! u)"
proof -
  let ?th = "threads s ! u"
  have old: "thread_ok s ?th" by (rule inv_core_thread_ok [OF core u(1)])
  have free: "excl_refs p ?th = 0" by (rule owner_alone(1) [OF inv_coreD(2) [OF core] t u own])
  have hold: "fst h \<noteq> p" if "h \<in> set (holds ?th)" for h using old that new by (auto simp: thread_ok_def hold_ok_def)
  have holds: "hold_ok s' h" if h: "h \<in> set (holds ?th)" for h
    using old h same(1) [OF hold [OF h]] by (simp add: thread_ok_def hold_ok_def same_page_def)
  have loc: "loc_ok s (at_loc ?th)" using old by (simp add: thread_ok_def)
  have "loc_ok s' (at_loc ?th)"
  proof (cases "at_loc ?th")
    case (Write_victim p' e v c)
    have "p' \<noteq> p" "v \<noteq> p" using free loc new Write_victim by (auto simp: excl_refs_def)
    then show ?thesis using loc same(1) [of p'] same(1) [of v] same(2) Write_victim by (simp add: same_page_def)
  next
    case (Written_victim p' e v)
    have "p' \<noteq> p" "v \<noteq> p" using free loc new Written_victim by (auto simp: excl_refs_def)
    then show ?thesis using loc same(1) [of p'] same(1) [of v] Written_victim by (simp add: same_page_def)
  next
    case (Read_page p' e)
    have "p' \<noteq> p" using free Read_page by (auto simp: excl_refs_def)
    then show ?thesis using loc same(1) [of p'] Read_page by (simp add: same_page_def)
  next
    case (Read_done p' e)
    have "p' \<noteq> p" using free Read_done by (auto simp: excl_refs_def)
    then show ?thesis using loc same(1) [of p'] Read_done by (simp add: same_page_def)
  next
    case (Lock_page p' e)
    show ?thesis using loc new(2) same(1) [of p'] Lock_page by (cases "p' = p") (simp_all add: same_page_def)
  next
    case (Unfixing p' b)
    have "p' \<noteq> p" using loc new Unfixing by auto
    then show ?thesis using loc same(1) [of p'] Unfixing by (simp add: same_page_def)
  qed simp_all
  then show ?thesis using holds by (simp add: thread_ok_def)
qed

lemma load_begin_core:
  assumes core: "inv_core s" and t: "t < length (threads s)" and at: "loc s t = Waiting_locked p e"
    and f: "frame_of s p = Some f" "fstate f = NEW" and d: "d < page_count s" "\<And>q. slot_of s q \<noteq> Some d"
    and eq: "threads s2 = threads s" "page_size s2 = page_size s" "page_count s2 = page_count s"
      "fifo_list s2 = fifo_list s @ [p]" "lru_list s2 = lru_list s"
      "distinct (map fst (bufferframes s2))" "length (loaded_pages s2) = length (loaded_pages s)"
    and fr: "\<And>q. frame_of s2 q = (if q = p then Some (f\<lparr>fstate := LOADING, fdata := Some d, fifo_position := True\<rparr>) else frame_of s q)"
    and mem: "\<And>pg. pg \<in> set (loaded_pages s2) \<Longrightarrow> length pg = page_size s"
      "\<And>d'. d' \<noteq> d \<Longrightarrow> loaded_pages s2 ! d' = loaded_pages s ! d'"
    and disk: "\<And>q. stored s2 q = stored s q" "\<And>q. on_disk s q \<Longrightarrow> on_disk s2 q" "on_disk s2 p"
      "whole_pages (page_size s) (files s2)"
    and l: "l = Read_page p e \<or> l = Read_done p e \<and> loaded_pages s2 ! d = stored s p"
  shows "inv_core (set_at t l s2) \<and> contents (set_at t l s2) = contents s"
proof -
  note inv = inv_coreD [OF core]
  note vf = frame_views [OF f(1)]
  let ?s = "set_at t l s2"
  let ?th = "(threads s ! t)\<lparr>at_loc := l\<rparr>"
  have th: "threads ?s = (threads s)[t := ?th]" using eq(1) by simp
  have views: "slot_of ?s q = (if q = p then Some d else slot_of s q)" "dirty_page ?s q = dirty_page s q"
    "users ?s q = users s q" "writer_of ?s q = writer_of s q" "readers_of ?s q = readers_of s q"
    "state_of ?s q = (if q = p then Some LOADING else state_of s q)"
    "stored ?s q = stored s q" "page_size ?s = page_size s" for q
    using vf fr [of q] eq(2) disk(1)
    by (auto simp: slot_of_def dirty_page_def users_def writer_of_def readers_of_def state_of_def)
  have new: "state_of s p = Some NEW" using vf f(2) by simp
  have loaded: "is_loaded ?s q = is_loaded s q" for q using new unfolding is_loaded_def views by simp
  have in_mem: "in_mem ?s q = in_mem s q" if "q \<noteq> p" for q
    using that d(2) [of q] mem(2) unfolding in_mem_def views by (auto split: option.split)
  have in_mem_p: "in_mem ?s p = loaded_pages s2 ! d" unfolding in_mem_def views by simp
  have od: "on_disk s q \<Longrightarrow> on_disk ?s q" for q using disk(2) by simp
  have same: "same_page s ?s q" if "q \<noteq> p" for q
    unfolding same_page_def views in_mem [OF that] using that od by simp
  have own: "excl_refs p (threads s ! t) > 0" using waiting_thread(6) [OF at, of p] by simp
  have page: "page_of l = Some p" "owned_page l = Some p" "victim_of l = None" "loading l = Some p" using l by auto
  have lists: "lists_wf f" using inv(3) f(1) by (auto simp: inv_lists_def)
  have "inv_users ?s"
    by (rule inv_users_step [OF inv(1) t th])
       (simp add: views refs_def at_page_def page waiting_thread(1) [OF at] del: users_update)
  moreover have "inv_mutex ?s"
  proof (rule inv_mutex_step [OF inv(2) th])
    have "thread_mutex s t (threads s ! t)" using inv(2) t by (simp add: inv_mutex_def)
    then show "thread_mutex ?s t ?th"
      unfolding thread_mutex_def views by (simp add: excl_refs_def shared_refs_def page waiting_thread(1) [OF at])
    show "mutex_wf (length (threads s)) h" if "frame_of ?s q = Some h" for q h
      using that inv(2) f(1) fr [of q] by (auto simp: inv_mutex_def split: if_splits)
  qed (simp_all only: views)
  moreover have "inv_lists ?s"
  proof -
    have "p \<notin> set (fifo_list s)" using inv(3) f lists by (auto simp: inv_lists_def lists_wf_def)
    then have "inv_lists s2" using inv(3) f lists unfolding inv_lists_def fr eq by (auto simp: lists_wf_def)
    then show ?thesis by (simp add: set_at_eq)
  qed
  moreover have "inv_memory ?s"
  proof -
    have "inv_memory s2" using inv(4) d eq(2,3,6,7) mem(1) views(1)
      unfolding inv_memory_def by (auto split: if_splits)
    then show ?thesis by (simp add: set_at_eq)
  qed
  moreover have "inv_threads ?s"
  proof (rule inv_threads_step [OF inv(5) t th])
    show "thread_ok ?s (threads s ! u)" if "u < length (threads s)" "u \<noteq> t" for u
      by (rule new_page_others [OF core t own _ _ that same]) (use new views(6) in \<open>simp_all add: eq\<close>)
    have old: "thread_ok s (threads s ! t)" by (rule inv_core_thread_ok [OF core t])
    have "hold_ok ?s h" if h: "h \<in> set (holds (threads s ! t))" for h
    proof -
      have "hold_ok s h" using old h by (simp add: thread_ok_def)
      moreover from this have "fst h \<noteq> p" using new by (auto simp: hold_ok_def)
      ultimately show ?thesis unfolding hold_ok_def views by simp
    qed
    moreover have "loc_ok ?s l" using l disk(3) in_mem_p views(6,7) by auto
    ultimately show "thread_ok ?s ?th" by (simp add: thread_ok_def)
  qed (simp add: page)
  moreover have "inv_states ?s"
  proof (rule inv_states_step [OF inv(6) th t])
    show "users ?s q > 0" if "state_of ?s q = Some NEW" for q
      using that inv_statesD(1) [OF inv(6), of q] unfolding views by (simp split: if_splits)
    show "users ?s q = 0" if "state_of ?s q = Some EVICTING" for q
      using that inv_statesD(4) [OF inv(6), of q] unfolding views by (simp split: if_splits)
    show "loading (at_loc ?th) = Some q \<or> state_of s q = Some LOADING \<and> loading (loc s t) \<noteq> Some q"
      if "state_of ?s q = Some LOADING" for q
      using that page waiting_thread(3) [OF at] unfolding views by (simp split: if_splits)
    show "victim_of (at_loc ?th) = Some q \<or> state_of s q \<in> {Some EVICTING, Some RELOADED} \<and> victim_of (loc s t) \<noteq> Some q"
      if "state_of ?s q \<in> {Some EVICTING, Some RELOADED}" for q
      using that waiting_thread(2) [OF at] unfolding views by (auto split: if_splits)
  qed
  moreover have "inv_data ?s"
  proof (rule inv_data_step [OF inv(7) th t])
    show "on_disk ?s q" if "is_loaded ?s q" for q using that inv(7) od unfolding loaded inv_data_def by blast
    show "dirty_page ?s q \<or> writes q ?th \<or> in_mem ?s q = stored ?s q
       \<or> (\<exists>u<length (threads s). u \<noteq> t \<and> writes q (threads s ! u))" if ld: "is_loaded ?s q" for q
    proof -
      have lq: "is_loaded s q" using ld unfolding loaded .
      then have q: "q \<noteq> p" using new by (auto simp: is_loaded_def)
      have "dirty_page s q \<or> (\<exists>u<length (threads s). writes q (threads s ! u)) \<or> in_mem s q = stored s q"
        using lq inv(7) unfolding inv_data_def by blast
      moreover have "writes q (threads s ! t) \<Longrightarrow> writes q ?th"
        using waiting_thread(1) [OF at] l by (auto simp: writes_def)
      ultimately show ?thesis unfolding views in_mem [OF q] by auto
    qed
  qed (use disk(4) eq(2) in simp_all)
  ultimately have "inv_core ?s" by (simp add: inv_core_def)
  moreover have "contents ?s q = contents s q" for q
    using in_mem [of q] new unfolding contents_def loaded views by (cases "q = p") (auto simp: is_loaded_def)
  ultimately show ?thesis by (simp add: fun_eq_iff)
qed

lemma page_loaded_ok:
  assumes core: "inv_core s" and t: "t < length (threads s)" and at: "loc s t = Read_done p e"
  shows "\<exists>s'. page_loaded t p e s = Some s' \<and> keeps s s' \<and> (\<forall>q. slot_of s' q = slot_of s q)
    \<and> length (bufferframes s') = length (bufferframes s)"
proof -
  note inv = inv_coreD [OF core]
  have th0: "at_loc (threads s ! t) = Read_done p e" using at by (simp add: loc_def)
  have old: "thread_ok s (threads s ! t)" by (rule inv_core_thread_ok [OF core t])
  then have st: "state_of s p = Some LOADING" "on_disk s p" "in_mem s p = stored s p" using th0 by (simp_all add: thread_ok_def)
  then obtain f where f: "frame_of s p = Some f" "fstate f = LOADING" by (auto simp: state_of_def)
  have own: "excl_refs p (threads s ! t) > 0" using th0 by (simp add: excl_refs_def)
  note m = unlock_excl [OF inv(2) t f(1) own]
  note tm = thread_mutexD [OF inv(2) t f(1)]
  note vf = frame_views [OF f(1)]
  define g where "g = f\<lparr>fstate := LOADED, is_dirty := False, exclusively_locked := False, mutex_writer := None\<rparr>"
  let ?s = "set_at t (Lock_page p e) (put_frame p g s)"
  let ?th = "(threads s ! t)\<lparr>at_loc := Lock_page p e\<rparr>"
  have unlock: "page_unlock t (f\<lparr>fstate := LOADED, is_dirty := False\<rparr>) = Some g"
    using tm(3) m(2) by (simp add: page_unlock_def mutex_wf_def g_def)
  have th: "threads ?s = (threads s)[t := ?th]" by simp
  have views: "slot_of ?s q = slot_of s q" "dirty_page ?s q = (q \<noteq> p \<and> dirty_page s q)" "in_mem ?s q = in_mem s q"
    "users ?s q = users s q" "writer_of ?s q = (if q = p then None else writer_of s q)" "readers_of ?s q = readers_of s q"
    "state_of ?s q = (if q = p then Some LOADED else state_of s q)" "is_loaded ?s q = (q = p \<or> is_loaded s q)"
    "stored ?s q = stored s q" "on_disk ?s q = on_disk s q" for q
    using vf by (auto simp: g_def in_mem_def split: option.splits)
  have same: "same_page s ?s q" if "q \<noteq> p" for q
    unfolding same_page_def views using that by simp
  have "inv_users ?s"
    by (rule inv_users_step [OF inv(1) t th]) (simp add: views refs_def at_page_def th0 del: users_update)
  moreover have "inv_mutex ?s"
  proof (rule inv_mutex_step [OF inv(2) th])
    have "thread_mutex s t (threads s ! t)" using inv(2) t by (simp add: inv_mutex_def)
    then have ex: "excl_refs q (threads s ! t) = (if writer_of s q = Some t then 1 else 0)"
      "shared_refs q (threads s ! t) = count_list (readers_of s q) t" for q by (simp_all add: thread_mutex_def)
    have "excl_refs q ?th = (if writer_of ?s q = Some t then 1 else 0)" for q
      using ex(1) [of q] m(2) vf(2) th0 unfolding views by (cases "q = p") (auto simp: excl_refs_def)
    moreover have "shared_refs q ?th = count_list (readers_of ?s q) t" for q
      using ex(2) [of q] unfolding views by (simp add: shared_refs_def)
    ultimately show "thread_mutex ?s t ?th" by (simp only: thread_mutex_def) blast
    show "mutex_wf (length (threads s)) h" if "frame_of ?s q = Some h" for q h
      using that inv(2) m(3) by (auto simp: inv_mutex_def mutex_wf_def g_def split: if_splits)
    show "(writer_of ?s q = Some u) = (writer_of s q = Some u)" if "u \<noteq> t" for q u
      using that m(2) vf(2) unfolding views by simp
  qed (simp_all only: views)
  moreover have "inv_lists ?s"
  proof -
    have "inv_lists (put_frame p g s)" using inv(3) f unfolding inv_lists_def by (auto simp: lists_wf_def g_def)
    then show ?thesis by (simp add: set_at_eq)
  qed
  moreover have "inv_memory ?s"
    by (rule inv_memory_views [OF inv(4)]) (use inv(4) views in \<open>simp_all add: inv_memory_def put_frame_def distinct_update\<close>)
  moreover have "inv_threads ?s"
  proof (rule inv_threads_step [OF inv(5) t th])
    show "thread_ok ?s (threads s ! u)" if "u < length (threads s)" "u \<noteq> t" for u
      by (rule new_page_others [OF core t own _ _ that same]) (use st in \<open>simp_all add: g_def\<close>)
    have "hold_ok ?s h" if h: "h \<in> set (holds (threads s ! t))" for h
    proof -
      have "hold_ok s h" using old h by (simp add: thread_ok_def)
      then show ?thesis unfolding hold_ok_def views by auto
    qed
    then show "thread_ok ?s ?th" by (simp add: thread_ok_def g_def)
  qed simp
  moreover have "inv_states ?s"
  proof (rule inv_states_step [OF inv(6) th t])
    show "users ?s q > 0" if "state_of ?s q = Some NEW" for q
      using that inv_statesD(1) [OF inv(6), of q] unfolding views by (simp split: if_splits)
    show "users ?s q = 0" if "state_of ?s q = Some EVICTING" for q
      using that inv_statesD(4) [OF inv(6), of q] unfolding views by (simp split: if_splits)
    show "loading (at_loc ?th) = Some q \<or> state_of s q = Some LOADING \<and> loading (loc s t) \<noteq> Some q"
      if "state_of ?s q = Some LOADING" for q
      using that at unfolding views by (simp split: if_splits)
    show "victim_of (at_loc ?th) = Some q \<or> state_of s q \<in> {Some EVICTING, Some RELOADED} \<and> victim_of (loc s t) \<noteq> Some q"
      if "state_of ?s q \<in> {Some EVICTING, Some RELOADED}" for q
      using that at unfolding views by (auto split: if_splits)
  qed
  moreover have "inv_data ?s"
  proof (rule inv_data_step [OF inv(7) th t])
    show "on_disk ?s q" if "is_loaded ?s q" for q using that inv(7) st(2) unfolding views inv_data_def by blast
    show "dirty_page ?s q \<or> writes q ?th \<or> in_mem ?s q = stored ?s q
       \<or> (\<exists>u<length (threads s). u \<noteq> t \<and> writes q (threads s ! u))" if ld: "is_loaded ?s q" for q
    proof (cases "q = p")
      case True
      then show ?thesis using st(3) unfolding views by simp
    next
      case False
      then have "is_loaded s q" using ld unfolding views by simp
      then have "dirty_page s q \<or> (\<exists>u<length (threads s). writes q (threads s ! u)) \<or> in_mem s q = stored s q"
        using inv(7) unfolding inv_data_def by blast
      moreover have "writes q (threads s ! t) \<Longrightarrow> writes q ?th" using th0 by (auto simp: writes_def)
      ultimately show ?thesis using False unfolding views by auto
    qed
  qed (use inv(7) in \<open>simp_all add: inv_data_def\<close>)
  ultimately have i: "inv_core ?s" by (simp add: inv_core_def)
  have "contents ?s q = contents s q" for q
    using st unfolding contents_def views by (auto simp: is_loaded_def)
  then have c: "contents ?s = contents s" by (rule ext)
  have len: "length (bufferframes ?s) = length (bufferframes s)" using f(1) by (simp add: length_put)
  have r: "inv_room s \<longrightarrow> inv_room ?s" using inv_room_views [of s ?s] len views(1) by simp
  have "page_loaded t p e s = Some ?s" using f unlock by (simp add: page_loaded_def)
  moreover have "keeps s ?s" using i c r by (simp add: keeps_def)
  ultimately show ?thesis using views(1) len by blast
qed

end
