(* ===== verification/Buffer_Fix.thy ===== *)
theory Buffer_Fix
  imports Buffer_Evict
begin

text \<open>
  Reading and writing of pages by the manager and by its users, the ways out of \<open>fix_page\<close>
  without a page, and \<open>fix_page\<close> as a whole.
\<close>

section \<open>Transfers between memory and files\<close>

lemma thread_ok_data:
  assumes "thread_ok s th" "page_size s' = page_size s" "\<And>q. state_of s' q = state_of s q"
    "\<And>q. dirty_page s' q = dirty_page s q" "\<And>q. on_disk s' q = on_disk s q"
    "\<And>q. victim_of (at_loc th) = Some q \<Longrightarrow> state_of s q = Some EVICTING \<Longrightarrow> in_mem s' q = in_mem s q \<and> stored s' q = stored s q"
    "\<And>q. loading (at_loc th) = Some q \<Longrightarrow> in_mem s' q = in_mem s q \<and> stored s' q = stored s q"
  shows "thread_ok s' th"
proof -
  have "loc_ok s (at_loc th)" using assms(1) by (simp add: thread_ok_def)
  then have "loc_ok s' (at_loc th)" using assms(2-7) by (cases "at_loc th") auto
  then show ?thesis using assms(1,3) by (simp add: thread_ok_def hold_ok_def)
qed

text \<open>A step that changes the bytes of one page, in memory or on disk, and the thread that does it.\<close>

lemma data_step:
  assumes core: "inv_core s" and t: "t < length (threads s)" and th: "threads s' = (threads s)[t := th]"
    and refs: "\<And>q. refs q th = refs q (threads s ! t)" "\<And>q. excl_refs q th = excl_refs q (threads s ! t)"
      "\<And>q. shared_refs q th = shared_refs q (threads s ! t)"
    and loc: "victim_of (at_loc th) = victim_of (loc s t)" "loading (at_loc th) = loading (loc s t)"
    and eq: "page_size s' = page_size s" "page_count s' = page_count s" "fifo_list s' = fifo_list s" "lru_list s' = lru_list s"
      "bufferframes s' = bufferframes s" "length (loaded_pages s') = length (loaded_pages s)"
    and mem: "\<And>pg. pg \<in> set (loaded_pages s') \<Longrightarrow> length pg = page_size s"
    and files: "\<And>q. on_disk s' q = on_disk s q" "whole_pages (page_size s) (files s')"
    and ok: "thread_ok s' th"
    and others: "\<And>u. u < length (threads s) \<Longrightarrow> u \<noteq> t \<Longrightarrow> thread_ok s' (threads s ! u)"
    and data: "\<And>q. is_loaded s q \<Longrightarrow> dirty_page s q \<or> writes q th \<or> in_mem s' q = stored s' q
        \<or> (\<exists>u<length (threads s). u \<noteq> t \<and> writes q (threads s ! u))"
  shows "inv_core s' \<and> (inv_room s \<longrightarrow> inv_room s')"
proof -
  note inv = inv_coreD [OF core]
  have fr: "frame_of s' q = frame_of s q" for q using eq(5) by (simp add: frame_of_def)
  have views: "slot_of s' q = slot_of s q" "dirty_page s' q = dirty_page s q" "users s' q = users s q"
    "writer_of s' q = writer_of s q" "readers_of s' q = readers_of s q" "state_of s' q = state_of s q"
    "is_loaded s' q = is_loaded s q" for q
    by (simp_all add: slot_of_def dirty_page_def users_def writer_of_def readers_of_def state_of_def is_loaded_def fr)
  have "inv_users s'" by (rule inv_users_step [OF inv(1) t th]) (simp add: views refs)
  moreover have "inv_mutex s'"
  proof (rule inv_mutex_step [OF inv(2) th])
    have "thread_mutex s t (threads s ! t)" using inv(2) t by (simp add: inv_mutex_def)
    then show "thread_mutex s' t th" by (simp add: thread_mutex_def views refs)
    show "mutex_wf (length (threads s)) h" if "frame_of s' q = Some h" for q h using that inv(2) fr by (simp add: inv_mutex_def)
  qed (simp_all only: views)
  moreover have "inv_lists s'" using inv(3) unfolding inv_lists_def fr eq .
  moreover have "inv_memory s'"
    by (rule inv_memory_views [OF inv(4)]) (use inv(4) views eq mem in \<open>simp_all add: inv_memory_def\<close>)
  moreover have "inv_threads s'"
  proof (rule inv_threads_step [OF inv(5) t th ok others])
    show "victim_of (loc s u) \<noteq> Some v" if "u < length (threads s)" "u \<noteq> t" "victim_of (at_loc th) = Some v" for u v
      using that loc(1) inv(5) t unfolding inv_threads_def by metis
  qed
  moreover have "inv_states s'"
    by (rule inv_states_step [OF inv(6) th t]) (use inv_statesD [OF inv(6)] loc in \<open>auto simp: views\<close>)
  moreover have "inv_data s'"
    by (rule inv_data_step [OF inv(7) th t]) (use inv(7) files data eq in \<open>auto simp: views inv_data_def\<close>)
  ultimately show ?thesis using inv_room_views [of s s'] eq views by (simp add: inv_core_def)
qed

lemma frame_lists:
  assumes "inv_core s" "frame_of s p = Some f"
  shows "lists_wf f"
  using assms by (simp add: inv_core_def inv_lists_def)

lemma frame_slot:
  assumes "inv_core s" "frame_of s p = Some f" "fstate f \<noteq> NEW"
  obtains d where "fdata f = Some d" "slot_of s p = Some d"
  using frame_lists [OF assms(1,2)] assms(2,3) by (auto simp: lists_wf_def slot_of_def)

lemma in_mem_other:
  assumes "inv_memory s" "slot_of s p = Some d" "q \<noteq> p"
  shows "in_mem (s\<lparr>loaded_pages := (loaded_pages s)[d := new]\<rparr>) q = in_mem s q"
  using assms unfolding inv_memory_def in_mem_def by (auto split: option.split) (metis nth_list_update_neq)

lemma in_mem_set:
  assumes "inv_memory s" "slot_of s p = Some d"
  shows "in_mem (s\<lparr>loaded_pages := (loaded_pages s)[d := new]\<rparr>) p = new" "d < length (loaded_pages s)"
  using assms unfolding inv_memory_def in_mem_def by auto

lemma set_loaded_length:
  assumes "inv_memory s" "length new = page_size s" "pg \<in> set ((loaded_pages s)[d := new])"
  shows "length pg = page_size s"
  using assms set_update_subset_insert [of "loaded_pages s" d new] by (auto simp: inv_memory_def)

lemma read_page_ok:
  assumes core: "inv_core s" and t: "t < length (threads s)" and at: "loc s t = Read_page p e"
  shows "\<exists>s'. continue t s = Some s' \<and> keeps s s'"
proof -
  note inv = inv_coreD [OF core]
  have th0: "at_loc (threads s ! t) = Read_page p e" using at by (simp add: loc_def)
  have old: "thread_ok s (threads s ! t)" by (rule inv_core_thread_ok [OF core t])
  then have st: "state_of s p = Some LOADING" "on_disk s p" using th0 by (simp_all add: thread_ok_def)
  then obtain f where f: "frame_of s p = Some f" "fstate f = LOADING" by (auto simp: state_of_def)
  obtain d where d: "fdata f = Some d" and sl: "slot_of s p = Some d" using frame_slot [OF core f(1)] f(2) by auto
  let ?new = "stored s p"
  let ?s1 = "s\<lparr>loaded_pages := (loaded_pages s)[d := ?new]\<rparr>"
  let ?s = "set_at t (Read_done p e) ?s1"
  let ?th = "(threads s ! t)\<lparr>at_loc := Read_done p e\<rparr>"
  have dl: "d < length (loaded_pages s)" by (rule in_mem_set(2) [OF inv(4) sl])
  have pg: "length (loaded_pages s ! d) = page_size s" using inv(4) dl by (simp add: inv_memory_def)
  have len: "page_offset s p + page_size s \<le> length (files s (bm_segment_id p))" using st(2) by (simp add: on_disk_def)
  have cpy: "memcpy (loaded_pages s ! d) 0 (files s (bm_segment_id p)) (page_offset s p) (page_size s) = Some ?new"
    using len pg page_at_inside [OF len] by (simp add: memcpy_def stored_page_at)
  have cont: "continue t s = Some ?s"
    using at f d dl cpy by (simp add: continue_def read_page_def)
  have own: "excl_refs p (threads s ! t) > 0" using th0 by (simp add: excl_refs_def)
  have th: "threads ?s = (threads s)[t := ?th]" by simp
  have im: "in_mem ?s q = (if q = p then ?new else in_mem s q)" for q
    using in_mem_set(1) [OF inv(4) sl] in_mem_other [OF inv(4) sl] by simp
  have "inv_core ?s \<and> (inv_room s \<longrightarrow> inv_room ?s)"
  proof (rule data_step [OF core t th])
    show "thread_ok ?s (threads s ! u)" if u: "u < length (threads s)" "u \<noteq> t" for u
      by (rule new_page_others [OF core t own _ _ u]) (use st im in \<open>simp_all add: same_page_def\<close>)
    show "thread_ok ?s ?th" using old st im by (simp add: thread_ok_def hold_ok_def)
    show "dirty_page s q \<or> writes q ?th \<or> in_mem ?s q = stored ?s q \<or> (\<exists>u<length (threads s). u \<noteq> t \<and> writes q (threads s ! u))"
      if l: "is_loaded s q" for q
    proof -
      have "q \<noteq> p" using l st(1) by (auto simp: is_loaded_def)
      moreover have "dirty_page s q \<or> (\<exists>u<length (threads s). writes q (threads s ! u)) \<or> in_mem s q = stored s q"
        using l inv(7) unfolding inv_data_def by blast
      moreover have "writes q (threads s ! t) \<Longrightarrow> writes q ?th" using th0 by (auto simp: writes_def)
      ultimately show ?thesis using im [of q] by auto
    qed
    show "length pg = page_size s" if "pg \<in> set (loaded_pages ?s)" for pg
      using that set_loaded_length [OF inv(4), of ?new pg d] by (simp add: stored_page_at)
    show "whole_pages (page_size s) (files ?s)" using inv(7) by (simp add: inv_data_def)
  qed (use th0 at in \<open>simp_all add: refs_def excl_refs_def shared_refs_def at_page_def\<close>)
  moreover have "contents ?s q = contents s q" for q
    using im [of q] st(1) unfolding contents_def by (auto simp: is_loaded_def)
  then have "contents ?s = contents s" by (rule ext)
  ultimately have "keeps s ?s" by (simp add: keeps_def)
  then show ?thesis using cont by blast
qed

lemma write_out_ok:
  assumes core: "inv_core s" and t: "t < length (threads s)" and at: "loc s t = Write_victim p e v c"
  shows "\<exists>s'. continue t s = Some s' \<and> keeps s s'"
proof -
  note inv = inv_coreD [OF core]
  have th0: "at_loc (threads s ! t) = Write_victim p e v c" using at by (simp add: loc_def)
  have old: "thread_ok s (threads s ! t)" by (rule inv_core_thread_ok [OF core t])
  then have st: "state_of s p = Some NEW" "state_of s v \<in> {Some EVICTING, Some RELOADED}" "dirty_page s v"
    "length c = page_size s" "state_of s v = Some EVICTING \<longrightarrow> in_mem s v = c" using th0 by (simp_all add: thread_ok_def)
  have lv: "is_loaded s v" using st(2) by (auto simp: is_loaded_def)
  then have od: "on_disk s v" using inv(7) by (simp add: inv_data_def)
  define c' where "c' = take (page_offset s v) (files s (bm_segment_id v)) @ c @ drop (page_offset s v + page_size s) (files s (bm_segment_id v))"
  note w = stored_write [OF od st(4) c'_def]
  let ?s1 = "set_file v c' s"
  let ?s = "set_at t (Written_victim p e v) ?s1"
  let ?th = "(threads s ! t)\<lparr>at_loc := Written_victim p e v\<rparr>"
  have len: "page_offset s v + page_size s \<le> length (files s (bm_segment_id v))" "bm_segment_id v \<in> set (segment_files s)"
    using od by (simp_all add: on_disk_def)
  have cont: "continue t s = Some ?s"
    using at len memcpy_page [OF len(1) st(4)] by (simp add: continue_def write_out_page_def c'_def)
  have th: "threads ?s = (threads s)[t := ?th]" by simp
  have victim: "victim_of (at_loc (threads s ! u)) \<noteq> Some v" if u: "u < length (threads s)" "u \<noteq> t" for u
    using inv(5) u t at unfolding inv_threads_def loc_def by (metis victim_of.simps(1))
  have notload: "loading (at_loc (threads s ! u)) \<noteq> Some v" if u: "u < length (threads s)" for u
    using inv_core_thread_ok [OF core u] st(2) by (cases "at_loc (threads s ! u)") (auto simp: thread_ok_def)
  have "inv_core ?s \<and> (inv_room s \<longrightarrow> inv_room ?s)"
  proof (rule data_step [OF core t th])
    show "thread_ok ?s (threads s ! u)" if u: "u < length (threads s)" "u \<noteq> t" for u
      by (rule thread_ok_data [OF inv_core_thread_ok [OF core u(1)]]) (use w victim [OF u] notload [OF u(1)] in auto)
    show "thread_ok ?s ?th" using old st w by (simp add: thread_ok_def hold_ok_def)
    show "dirty_page s q \<or> writes q ?th \<or> in_mem ?s q = stored ?s q \<or> (\<exists>u<length (threads s). u \<noteq> t \<and> writes q (threads s ! u))"
      if l: "is_loaded s q" for q
    proof -
      have "dirty_page s q \<or> (\<exists>u<length (threads s). writes q (threads s ! u)) \<or> in_mem s q = stored s q"
        using l inv(7) unfolding inv_data_def by blast
      moreover have "writes q (threads s ! t) \<Longrightarrow> writes q ?th" using th0 by (auto simp: writes_def)
      ultimately show ?thesis using st(3) w(1) [of q] by auto
    qed
    show "length pg = page_size s" if "pg \<in> set (loaded_pages ?s)" for pg using that inv(4) by (simp add: inv_memory_def)
    show "on_disk ?s q = on_disk s q" for q using w(2) by simp
    show "whole_pages (page_size s) (files ?s)" using inv(7) w(3) by (simp add: inv_data_def whole_pages_def)
  qed (use th0 at in \<open>simp_all add: refs_def excl_refs_def shared_refs_def at_page_def\<close>)
  moreover have "contents ?s q = contents s q" for q
    using w(1) [of q] lv unfolding contents_def by simp
  then have "contents ?s = contents s" by (rule ext)
  ultimately have "keeps s ?s" by (simp add: keeps_def)
  then show ?thesis using cont by blast
qed

text \<open>The one step that changes the contents of a page.\<close>

lemma write_data_ok:
  assumes core: "inv_core s" and t: "t < length (threads s)" and at: "in_user_code (loc s t)"
    and h: "holding p (held_by s t) = Some h" and x: "fst (snd h)" and len: "length bs = page_size s"
  shows "\<exists>s'. write_data t p bs s = Some s' \<and> inv_core s' \<and> (inv_room s \<longrightarrow> inv_room s')
    \<and> contents s' = (contents s)(p := bs) \<and> length (threads s') = length (threads s)"
proof -
  note inv = inv_coreD [OF core]
  let ?hs = "holds (threads s ! t)"
  have hm: "h \<in> set ?hs" "fst h = p" using holdingD [OF h] by (simp_all add: held_by_def)
  note user = user_codeD [OF at, unfolded loc_def]
  have old: "thread_ok s (threads s ! t)" by (rule inv_core_thread_ok [OF core t])
  then have st: "state_of s p \<in> {Some LOADED, Some RELOADED}" using hm by (auto simp: thread_ok_def hold_ok_def)
  then obtain f where f: "frame_of s p = Some f" "fstate f \<noteq> NEW" by (auto simp: state_of_def)
  obtain d where d: "fdata f = Some d" and sl: "slot_of s p = Some d" by (rule frame_slot [OF core f])
  let ?s1 = "s\<lparr>loaded_pages := (loaded_pages s)[d := bs]\<rparr>"
  let ?hs' = "(p, fst (snd h), True) # remove1 h ?hs"
  let ?s = "set_holds t ?hs' ?s1"
  let ?th = "(threads s ! t)\<lparr>holds := ?hs'\<rparr>"
  have dl: "d < length (loaded_pages s)" by (rule in_mem_set(2) [OF inv(4) sl])
  have exe: "write_data t p bs s = Some ?s"
    using h f d dl by (simp add: write_data_def held_by_def)
  have th: "threads ?s = (threads s)[t := ?th]" by simp
  have im: "in_mem ?s q = (if q = p then bs else in_mem s q)" for q
    using in_mem_set(1) [OF inv(4) sl] in_mem_other [OF inv(4) sl] by simp
  note c = counts_remove1 [OF hm(1)]
  have "inv_core ?s \<and> (inv_room s \<longrightarrow> inv_room ?s)"
  proof (rule data_step [OF core t th])
    show "refs q ?th = refs q (threads s ! t)" for q
      using c(1) [of q] hm(2) by (cases "p = q") (simp_all add: refs_def fixes_of_def)
    show "excl_refs q ?th = excl_refs q (threads s ! t)" for q
      using c(2) [of q] hm(2) x by (cases "p = q") (simp_all add: excl_refs_def excl_of_def)
    show "shared_refs q ?th = shared_refs q (threads s ! t)" for q
      using c(3) [of q] x by (simp add: shared_refs_def shared_of_def)
    show "thread_ok ?s (threads s ! u)" if u: "u < length (threads s)" "u \<noteq> t" for u
    proof (rule thread_ok_data [OF inv_core_thread_ok [OF core u(1)]])
      show "in_mem ?s q = in_mem s q \<and> stored ?s q = stored s q" if "state_of s q = Some EVICTING" for q
        using that st im [of q] by auto
      show "in_mem ?s q = in_mem s q \<and> stored ?s q = stored s q" if "loading (at_loc (threads s ! u)) = Some q" for q
        using that inv_core_thread_ok [OF core u(1)] st im [of q]
        by (cases "at_loc (threads s ! u)") (auto simp: thread_ok_def)
    qed simp_all
    show "thread_ok ?s ?th"
      using old st x set_remove1_subset [of h ?hs] at by (cases "at_loc (threads s ! t)") (auto simp: thread_ok_def hold_ok_def loc_def)
    show "dirty_page s q \<or> writes q ?th \<or> in_mem ?s q = stored ?s q \<or> (\<exists>u<length (threads s). u \<noteq> t \<and> writes q (threads s ! u))"
      if l: "is_loaded s q" for q
    proof (cases "q = p")
      case True
      then show ?thesis by (simp add: writes_def)
    next
      case False
      have "writes q ?th" if w: "writes q (threads s ! t)"
      proof -
        obtain k where k: "k \<in> set ?hs" "fst k = q" "snd (snd k)" using w user [of q True] by (auto simp: writes_def)
        then have "k \<noteq> h" using hm(2) False by auto
        then have "k \<in> set (remove1 h ?hs)" using k(1) by (simp add: in_set_remove1)
        then show ?thesis using k by (auto simp: writes_def)
      qed
      moreover have "dirty_page s q \<or> (\<exists>u<length (threads s). writes q (threads s ! u)) \<or> in_mem s q = stored s q"
        using l inv(7) unfolding inv_data_def by blast
      ultimately show ?thesis using False im [of q] by auto
    qed
    show "length pg = page_size s" if "pg \<in> set (loaded_pages ?s)" for pg
      using that set_loaded_length [OF inv(4) len] by simp
    show "whole_pages (page_size s) (files ?s)" using inv(7) by (simp add: inv_data_def)
  qed (use user [of p True] in \<open>simp_all add: loc_def\<close>)
  moreover have "contents ?s q = ((contents s)(p := bs)) q" for q
    using im [of q] st unfolding contents_def by (auto simp: is_loaded_def)
  then have "contents ?s = (contents s)(p := bs)" by (rule ext)
  ultimately show ?thesis using exe by simp
qed

section \<open>Leaving a new page\<close>

lemma sum_list_two:
  "t < length xs \<Longrightarrow> u < length xs \<Longrightarrow> t \<noteq> u \<Longrightarrow> f (xs ! t) + f (xs ! u) \<le> (\<Sum>x\<leftarrow>xs. (f x :: nat))"
proof (induction xs arbitrary: t u)
  case (Cons x xs)
  show ?case
  proof (cases t)
    case 0
    then obtain v where "u = Suc v" using Cons.prems(3) by (cases u) simp_all
    then show ?thesis using 0 Cons.prems member_le_sum_list [of "f (xs ! v)" "map f xs"] by simp
  next
    case (Suc w)
    then show ?thesis
      using Cons.prems Cons.IH [of w "u - 1"] member_le_sum_list [of "f (xs ! w)" "map f xs"] by (cases u) simp_all
  qed
qed simp

text \<open>The last user of a new page removes it.\<close>

lemma drop_new_ok:
  assumes core: "inv_core s" and t: "t < length (threads s)" and f: "frame_of s p = Some f" "fstate f = NEW" "num_users f = 1"
    and at: "page_of (loc s t) = Some p" "victim_of (loc s t) = None" "loading (loc s t) = None"
    and l: "in_user_code l"
  shows "keeps s (set_at t l (drop_frame p s))"
proof -
  note inv = inv_coreD [OF core]
  note vf = frame_views [OF f(1)]
  note user = user_codeD [OF l]
  let ?s = "set_at t l (drop_frame p s)"
  let ?th = "(threads s ! t)\<lparr>at_loc := l\<rparr>"
  have th: "threads ?s = (threads s)[t := ?th]" by simp
  have sum: "(\<Sum>x\<leftarrow>threads s. refs p x) = 1" using inv(1) vf(1) f(3) by (metis inv_users_def)
  have rt: "refs p (threads s ! t) = 1" "fixes_of p (holds (threads s ! t)) = 0"
    using refs_users [OF inv(1) t, of p] vf(1) f(3) at(1) by (simp_all add: refs_def at_page_def loc_def)
  have ru: "refs p (threads s ! u) = 0" if "u < length (threads s)" "u \<noteq> t" for u
    using sum_list_two [OF t that(1), of "refs p"] that(2) sum rt(1) by simp
  have views: "slot_of ?s q = slot_of s q" "dirty_page ?s q = (q \<noteq> p \<and> dirty_page s q)"
    "users ?s q = (if q = p then 0 else users s q)" "writer_of ?s q = (if q = p then None else writer_of s q)"
    "readers_of ?s q = (if q = p then [] else readers_of s q)"
    "state_of ?s q = (if q = p then None else state_of s q)" "is_loaded ?s q = is_loaded s q"
    "stored ?s q = stored s q" "on_disk ?s q = on_disk s q" for q
    using vf f(2) frame_lists [OF core f(1)] by (auto simp: lists_wf_def is_loaded_def)
  have mem: "in_mem ?s q = in_mem s q" if "q \<noteq> p" for q using that by simp
  have notp: "q \<noteq> p" if "is_loaded s q" for q using that vf(5) f(2) by (auto simp: is_loaded_def)
  have mutex0: "writer_of s p \<noteq> Some u" "count_list (readers_of s p) u = 0" if u: "u \<noteq> t" for u
  proof -
    have wf: "mutex_wf (length (threads s)) f" using inv(2) f(1) by (simp add: inv_mutex_def)
    show "writer_of s p \<noteq> Some u"
    proof
      assume w: "writer_of s p = Some u"
      then have n: "u < length (threads s)" using wf vf(2) by (simp add: mutex_wf_def)
      have "excl_refs p (threads s ! u) > 0" using thread_mutexD(1) [OF inv(2) n f(1)] w vf(2) by simp
      from owner_refs [OF this] show False using ru [OF n u] by simp
    qed
    show "count_list (readers_of s p) u = 0"
    proof (rule ccontr)
      assume w: "count_list (readers_of s p) u \<noteq> 0"
      then have n: "u < length (threads s)" using wf vf(3) by (metis count_list_0_iff lessThan_iff mutex_wf_def subsetD)
      have "shared_refs p (threads s ! u) > 0" using thread_mutexD(2) [OF inv(2) n f(1)] w vf(3) by simp
      then show False using ru [OF n u] by (simp add: shared_refs_def refs_def fixes_split)
    qed
  qed
  have same: "same_page s ?s q" if "q \<noteq> p" for q
    unfolding same_page_def views mem [OF that] using that by simp
  have victim: "victim_of (at_loc (threads s ! u)) \<noteq> Some p" if "u < length (threads s)" for u
    using inv_core_thread_ok [OF core that] vf(5) f(2) by (cases "at_loc (threads s ! u)") (auto simp: thread_ok_def)
  have "inv_users ?s"
  proof (rule inv_users_step [OF inv(1) t th])
    show "users ?s q + refs q (threads s ! t) = users s q + refs q ?th" for q
      using rt vf(1) f(3) at(1) user unfolding views by (cases "q = p") (simp_all add: refs_def at_page_def loc_def)
  qed
  moreover have "inv_mutex ?s"
  proof (rule inv_mutex_step [OF inv(2) th])
    have "thread_mutex s t (threads s ! t)" using inv(2) t by (simp add: inv_mutex_def)
    then have ex: "excl_refs q (threads s ! t) = (if writer_of s q = Some t then 1 else 0)"
      "shared_refs q (threads s ! t) = count_list (readers_of s q) t" for q by (simp_all add: thread_mutex_def)
    have own: "owned_page (loc s t) = None \<or> owned_page (loc s t) = Some p" using at by (cases "loc s t") simp_all
    have "excl_refs q ?th = (if writer_of ?s q = Some t then 1 else 0)" for q
      using ex(1) [of q] own user rt(2) fixes_split [of p "holds (threads s ! t)"] unfolding views
      by (cases "q = p") (auto simp: excl_refs_def loc_def)
    moreover have "shared_refs q ?th = count_list (readers_of ?s q) t" for q
      using ex(2) [of q] rt(2) fixes_split [of p "holds (threads s ! t)"] unfolding views by (auto simp: shared_refs_def)
    ultimately show "thread_mutex ?s t ?th" by (simp only: thread_mutex_def) blast
    show "mutex_wf (length (threads s)) h" if "frame_of ?s q = Some h" for q h
      using that inv(2) by (auto simp: inv_mutex_def split: if_splits)
    show "(writer_of ?s q = Some u) = (writer_of s q = Some u)" if "u \<noteq> t" for q u
      using mutex0(1) [OF that] unfolding views by simp
    show "count_list (readers_of ?s q) u = count_list (readers_of s q) u" if "u \<noteq> t" for q u
      using mutex0(2) [OF that] unfolding views by simp
  qed
  moreover have "inv_lists ?s"
  proof -
    have "inv_lists (drop_frame p s)"
      using inv(3) f frame_lists [OF core f(1)] unfolding inv_lists_def by (auto simp: lists_wf_def)
    then show ?thesis by (simp add: set_at_eq)
  qed
  moreover have "inv_memory ?s"
    by (rule inv_memory_views [OF inv(4)]) (use inv(4) views in \<open>simp_all add: inv_memory_def drop_frame_def distinct_delete\<close>)
  moreover have "inv_threads ?s"
  proof (rule inv_threads_step [OF inv(5) t th])
    show "thread_ok ?s (threads s ! u)" if u: "u < length (threads s)" "u \<noteq> t" for u
    proof (rule thread_ok_same [OF inv_core_thread_ok [OF core u(1)]])
      show "same_page s ?s q" if "mentions (threads s ! u) q" for q
        using same that ru [OF u] victim [OF u(1)] by (cases "q = p") (auto simp: mentions_def)
    qed simp
    have "hold_ok ?s h" if h: "h \<in> set (holds (threads s ! t))" for h
    proof -
      have "hold_ok s h" using inv_core_thread_ok [OF core t] h by (simp add: thread_ok_def)
      moreover from this have "fst h \<noteq> p" using vf(5) f(2) by (auto simp: hold_ok_def)
      ultimately show ?thesis unfolding hold_ok_def views by simp
    qed
    moreover have "loc_ok ?s l" using l by (cases l) simp_all
    ultimately show "thread_ok ?s ?th" by (simp add: thread_ok_def)
  qed (use user in simp)
  moreover have "inv_states ?s"
    by (rule inv_states_step [OF inv(6) th t]) (use inv_statesD [OF inv(6)] at in \<open>auto simp: views simp del: users_update state_of_update split: if_splits\<close>)
  moreover have "inv_data ?s"
  proof (rule inv_data_step [OF inv(7) th t])
    show "on_disk ?s q" if "is_loaded ?s q" for q using that inv(7) unfolding views inv_data_def by blast
    show "dirty_page ?s q \<or> writes q ?th \<or> in_mem ?s q = stored ?s q
       \<or> (\<exists>u<length (threads s). u \<noteq> t \<and> writes q (threads s ! u))" if ld: "is_loaded ?s q" for q
    proof -
      have lq: "is_loaded s q" "q \<noteq> p" using ld notp unfolding views by auto
      have "dirty_page s q \<or> (\<exists>u<length (threads s). writes q (threads s ! u)) \<or> in_mem s q = stored s q"
        using lq inv(7) unfolding inv_data_def by blast
      moreover have "writes q (threads s ! t) \<Longrightarrow> writes q ?th" using at lq(2) by (auto simp: writes_def loc_def)
      ultimately show ?thesis using lq(2) mem [OF lq(2)] unfolding views by auto
    qed
  qed (use inv(7) in \<open>simp_all add: inv_data_def\<close>)
  ultimately have i: "inv_core ?s" by (simp add: inv_core_def)
  have "contents ?s q = contents s q" for q
    using notp [of q] mem [of q] unfolding contents_def views by auto
  then have c: "contents ?s = contents s" by (rule ext)
  have r: "inv_room ?s" if r: "inv_room s"
  proof -
    have "in_memory ?s = in_memory s" unfolding in_memory_def views ..
    moreover have "length (bufferframes ?s) \<le> length (bufferframes s)"
      by (simp add: drop_frame_def length_delete_le)
    ultimately show ?thesis using r unfolding inv_room_def by (auto simp: views simp del: slot_of_update)
  qed
  show ?thesis using i c r by (simp add: keeps_def)
qed

end
