(* ===== verification/Buffer_Correct.thy ===== *)
theory Buffer_Correct
  imports Buffer_Fix
begin

text \<open>
  Every step of every thread succeeds and keeps the invariant, and the buffer manager implements a
  store of pages: only a write of a user changes the contents of a page.
\<close>

section \<open>The ways through \<open>fix_page\<close>\<close>

lemma fix_failed_ok:
  assumes core: "inv_core s" and t: "t < length (threads s)" and at: "loc s t = Waiting_locked p e"
    and new: "state_of s p = Some NEW"
  shows "\<exists>s'. fix_failed t p s = Some s' \<and> keeps s s'"
proof -
  note inv = inv_coreD [OF core]
  note w = waiting_thread [OF at]
  obtain f where f: "frame_of s p = Some f" "fstate f = NEW" using new by (auto simp: state_of_def)
  have own: "excl_refs p (threads s ! t) > 0" using w(6) [of p] by simp
  have nu: "num_users f > 0"
    using refs_users [OF inv(1) t, of p] frame_views(1) [OF f(1)] owner_refs [OF own] by simp
  note u = unlock_excl [OF inv(2) t f(1) own]
  note tm = thread_mutexD [OF inv(2) t f(1)]
  define g where "g = f\<lparr>num_users := num_users f - 1, exclusively_locked := False, mutex_writer := None\<rparr>"
  have unlock: "page_unlock t (f\<lparr>num_users := num_users f - 1\<rparr>) = Some g"
    using u(2) tm(3) by (simp add: page_unlock_def g_def mutex_wf_def)
  have fl: "\<not> fifo_position f \<and> \<not> lru_position f" using frame_lists [OF core f(1)] f(2) by (simp add: lists_wf_def)
  show ?thesis
  proof (cases "num_users f = 1")
    case True
    have "keeps s (set_at t (Thrown p) (drop_frame p s))"
      by (rule drop_new_ok [OF core t f True]) (use at in simp_all)
    moreover have "fix_failed t p s = Some (set_at t (Thrown p) (drop_frame p s))"
      using f nu unlock True fl by (simp add: fix_failed_def dec_num_users_def g_def)
    ultimately show ?thesis by blast
  next
    case False
    let ?th = "(threads s ! t)\<lparr>at_loc := Thrown p\<rparr>"
    have same: "same_frame f g" by (simp add: same_frame_def g_def)
    have ok: "thread_ok s ?th" using inv_core_thread_ok [OF core t] by (simp add: thread_ok_def)
    have "keeps s (set_thread t ?th (put_frame p g s))"
      by (rule core_same_frame [OF core t f(1) same])
         (use w u f(2) tm nu False ok in \<open>auto simp: refs_def excl_refs_def shared_refs_def at_page_def g_def mutex_wf_def
            writes_def split: if_splits\<close>)
    moreover have "fix_failed t p s = Some (set_thread t ?th (put_frame p g s))"
      using f nu unlock False by (simp add: fix_failed_def dec_num_users_def g_def set_at_keeps)
    ultimately show ?thesis by blast
  qed
qed

text \<open>A waiter gives up its reference to a page that has failed.\<close>

lemma release_new_ok:
  assumes core: "inv_core s" and t: "t < length (threads s)" and at: "loc s t = Waited p e"
    and f: "frame_of s p = Some f" "fstate f = NEW"
  obtains g s' where "dec_num_users f = Some g" "num_users g = num_users f - 1" "\<not> fifo_position g" "\<not> lru_position g"
    "s' = (if num_users g = 0 then drop_frame p s else put_frame p g s)" "keeps s (set_at t Ready s')"
proof -
  note inv = inv_coreD [OF core]
  have th0: "at_loc (threads s ! t) = Waited p e" using at by (simp add: loc_def)
  have "refs p (threads s ! t) > 0" using th0 by (simp add: refs_def at_page_def)
  then have nu: "num_users f > 0" using refs_users [OF inv(1) t, of p] frame_views(1) [OF f(1)] by simp
  note tm = thread_mutexD [OF inv(2) t f(1)]
  have fl: "\<not> fifo_position f" "\<not> lru_position f" using frame_lists [OF core f(1)] f(2) by (simp_all add: lists_wf_def)
  define g where "g = f\<lparr>num_users := num_users f - 1\<rparr>"
  have dec: "dec_num_users f = Some g" using nu by (simp add: dec_num_users_def g_def)
  have "keeps s (set_at t Ready (if num_users g = 0 then drop_frame p s else put_frame p g s))"
  proof (cases "num_users f = 1")
    case True
    then show ?thesis using drop_new_ok [OF core t f True, of Ready] at by (simp add: g_def)
  next
    case False
    let ?th = "(threads s ! t)\<lparr>at_loc := Ready\<rparr>"
    have same: "same_frame f g" by (simp add: same_frame_def g_def)
    have ok: "thread_ok s ?th" using inv_core_thread_ok [OF core t] by (simp add: thread_ok_def)
    have "keeps s (set_thread t ?th (put_frame p g s))"
      by (rule core_same_frame [OF core t f(1) same])
         (use th0 f(2) tm nu False ok in \<open>auto simp: refs_def excl_refs_def shared_refs_def at_page_def g_def loc_def
            writes_def split: if_splits\<close>)
    then show ?thesis using nu False by (simp add: g_def set_at_keeps)
  qed
  then show thesis using that [OF dec] fl by (simp add: g_def)
qed

text \<open>A page that was claimed while it was written out stays.\<close>

lemma unreload_ok:
  assumes core: "inv_core s" and t: "t < length (threads s)" and at: "loc s t = Written_victim p e v"
    and f: "frame_of s v = Some f" "fstate f = RELOADED"
  shows "keeps s (set_at t (Waiting_locked p e) (put_frame v (f\<lparr>fstate := LOADED\<rparr>) s))" (is "keeps s ?s")
proof -
  note inv = inv_coreD [OF core]
  note vf = frame_views [OF f(1)]
  let ?th = "(threads s ! t)\<lparr>at_loc := Waiting_locked p e\<rparr>"
  have th0: "at_loc (threads s ! t) = Written_victim p e v" using at by (simp add: loc_def)
  have old: "thread_ok s (threads s ! t)" by (rule inv_core_thread_ok [OF core t])
  have new: "state_of s p = Some NEW" using old th0 by (simp add: thread_ok_def)
  have th: "threads ?s = (threads s)[t := ?th]" by simp
  have views: "slot_of ?s q = slot_of s q" "dirty_page ?s q = dirty_page s q" "in_mem ?s q = in_mem s q"
    "users ?s q = users s q" "writer_of ?s q = writer_of s q" "readers_of ?s q = readers_of s q"
    "is_loaded ?s q = is_loaded s q" "state_of ?s q = (if q = v then Some LOADED else state_of s q)"
    "stored ?s q = stored s q" "on_disk ?s q = on_disk s q" for q
    using vf f(2) by (auto simp: in_mem_def is_loaded_def split: option.splits)
  have same: "same_page s ?s q" if "q \<noteq> v" for q unfolding same_page_def views using that by simp
  have victim: "victim_of (at_loc (threads s ! u)) \<noteq> Some v" if u: "u < length (threads s)" "u \<noteq> t" for u
    using inv(5) u t at unfolding inv_threads_def loc_def by (metis victim_of.simps(2))
  have others: "thread_ok ?s (threads s ! u)" if u: "u < length (threads s)" "u \<noteq> t" for u
  proof -
    have ok: "thread_ok s (threads s ! u)" by (rule inv_core_thread_ok [OF core u(1)])
    have "hold_ok ?s h" if "hold_ok s h" for h using that unfolding hold_ok_def views by auto
    moreover have "loc_ok s (at_loc (threads s ! u))" using ok by (simp add: thread_ok_def)
    then have "loc_ok ?s (at_loc (threads s ! u))"
    proof (cases "at_loc (threads s ! u)")
      case (Write_victim p' e' v' c)
      have "v' \<noteq> v" "p' \<noteq> v" using victim [OF u] ok vf(5) f(2) Write_victim by (auto simp: thread_ok_def)
      then show ?thesis using ok Write_victim by (simp add: thread_ok_def views del: state_of_update dirty_page_update in_mem_update)
    next
      case (Written_victim p' e' v')
      have "v' \<noteq> v" "p' \<noteq> v" using victim [OF u] ok vf(5) f(2) Written_victim by (auto simp: thread_ok_def)
      then show ?thesis using ok Written_victim by (simp add: thread_ok_def views del: state_of_update dirty_page_update in_mem_update)
    qed (use ok vf(5) f(2) in \<open>auto simp: thread_ok_def views simp del: state_of_update in_mem_update\<close>)
    ultimately show ?thesis using ok by (simp add: thread_ok_def)
  qed
  have "inv_users ?s"
    by (rule inv_users_step [OF inv(1) t th]) (simp add: views refs_def at_page_def th0 del: users_update)
  moreover have "inv_mutex ?s"
  proof (rule inv_mutex_step [OF inv(2) th])
    have "thread_mutex s t (threads s ! t)" using inv(2) t by (simp add: inv_mutex_def)
    then show "thread_mutex ?s t ?th" unfolding thread_mutex_def views by (simp add: th0 excl_refs_def shared_refs_def)
    show "mutex_wf (length (threads s)) h" if "frame_of ?s q = Some h" for q h
      using that inv(2) f(1) by (auto simp: inv_mutex_def split: if_splits)
  qed (simp_all only: views)
  moreover have "inv_lists ?s"
  proof -
    have "inv_lists (put_frame v (f\<lparr>fstate := LOADED\<rparr>) s)"
      using inv(3) f unfolding inv_lists_def by (auto simp: lists_wf_def)
    then show ?thesis by (simp add: set_at_eq)
  qed
  moreover have "inv_memory ?s"
    by (rule inv_memory_views [OF inv(4)]) (use inv(4) views in \<open>simp_all add: inv_memory_def put_frame_def distinct_update\<close>)
  moreover have "inv_threads ?s"
  proof (rule inv_threads_step [OF inv(5) t th _ others])
    have "hold_ok ?s h" if h: "h \<in> set (holds (threads s ! t))" for h
      using old h unfolding thread_ok_def hold_ok_def views by auto
    then show "thread_ok ?s ?th" by (simp add: thread_ok_def)
  qed simp_all
  moreover have "inv_states ?s"
  proof (rule inv_states_step [OF inv(6) th t])
    show "users ?s q > 0" if "state_of ?s q = Some NEW" for q
      using that inv_statesD(1) [OF inv(6), of q] unfolding views by (simp split: if_splits)
    show "users ?s q = 0" if "state_of ?s q = Some EVICTING" for q
      using that inv_statesD(4) [OF inv(6), of q] unfolding views by (simp split: if_splits)
    show "loading (at_loc ?th) = Some q \<or> state_of s q = Some LOADING \<and> loading (loc s t) \<noteq> Some q"
      if "state_of ?s q = Some LOADING" for q
      using that at unfolding views by (simp split: if_splits)
    show "victim_of (at_loc ?th) = Some q \<or> state_of s q \<in> {Some EVICTING, Some RELOADED} \<and> victim_of (loc s t) \<noteq> Some q"
      if "state_of ?s q \<in> {Some EVICTING, Some RELOADED}" for q
      using that at unfolding views by (auto split: if_splits)
  qed
  moreover have "inv_data ?s"
  proof (rule inv_data_step [OF inv(7) th t])
    show "on_disk ?s q" if "is_loaded ?s q" for q using that inv(7) unfolding views inv_data_def by blast
    show "dirty_page ?s q \<or> writes q ?th \<or> in_mem ?s q = stored ?s q
       \<or> (\<exists>u<length (threads s). u \<noteq> t \<and> writes q (threads s ! u))" if ld: "is_loaded ?s q" for q
    proof -
      have "dirty_page s q \<or> (\<exists>u<length (threads s). writes q (threads s ! u)) \<or> in_mem s q = stored s q"
        using ld inv(7) unfolding views inv_data_def by blast
      moreover have "writes q (threads s ! t) \<Longrightarrow> writes q ?th" using th0 by (auto simp: writes_def)
      ultimately show ?thesis unfolding views by auto
    qed
  qed (use inv(7) in \<open>simp_all add: inv_data_def\<close>)
  ultimately have i: "inv_core ?s" by (simp add: inv_core_def)
  have "contents ?s = contents s" unfolding contents_def fun_eq_iff views by simp
  moreover have "inv_room s \<longrightarrow> inv_room ?s" using inv_room_views [of s ?s] f(1) views(1) by (simp add: length_put)
  ultimately show ?thesis using i by (simp add: keeps_def)
qed

text \<open>A page with memory of its own is loaded; a file that is too short for it is extended.\<close>

lemma fix_load_ok:
  assumes core: "inv_core s" and t: "t < length (threads s)" and at: "loc s t = Waiting_locked p e"
    and new: "state_of s p = Some NEW" and d: "d < page_count s" "\<And>q. slot_of s q \<noteq> Some d"
  obtains s' where "fix_load t p e d s = Some s'" "inv_core s'" "contents s' = contents s"
    "\<And>q. slot_of s' q = (if q = p then Some d else slot_of s q)" "length (bufferframes s') = length (bufferframes s)"
    "length (threads s') = length (threads s)" "page_count s' = page_count s"
proof -
  note inv = inv_coreD [OF core]
  obtain f where f: "frame_of s p = Some f" "fstate f = NEW" using new by (auto simp: state_of_def)
  let ?g = "f\<lparr>fstate := LOADING, fdata := Some d, fifo_position := True\<rparr>"
  let ?seg = "bm_segment_id p"
  let ?gs = "List.insert ?seg (segment_files s)"
  let ?s1 = "put_frame p ?g s\<lparr>fifo_list := fifo_list s @ [p], segment_files := ?gs\<rparr>"
  let ?c = "files s ?seg"
  let ?stop = "(bm_segment_page_id p + 1) * page_size s"
  let ?zero = "replicate (page_size s) 0 :: bytes"
  have dl: "d < length (loaded_pages s)" using d(1) inv(4) by (simp add: inv_memory_def)
  have keys: "distinct (map fst (bufferframes s))" using inv(4) by (simp add: inv_memory_def)
  have whole: "page_size s dvd length ?c" "0 < page_size s" using inv(7) by (simp_all add: inv_data_def whole_pages_def)
  have endp: "?stop = page_offset s p + page_size s" by (simp add: page_offset_def)
  have pages: "length pg = page_size s" if "pg \<in> set (loaded_pages s)" for pg using that inv(4) by (simp add: inv_memory_def)
  show thesis
  proof (cases "length ?c < ?stop")
    case True
    let ?s2 = "(set_file p (file_resized ?stop ?c) ?s1)\<lparr>loaded_pages := (loaded_pages s)[d := ?zero]\<rparr>"
    have short: "length ?c \<le> page_offset s p" using whole_page_before [OF whole(1)] True by (simp add: page_offset_def)
    have zero: "stored s p = ?zero" using page_at_behind [OF short] by (simp add: stored_page_at)
    have res: "length ?c \<le> ?stop" using True by simp
    have st: "stored ?s2 q = stored s q" for q
      using stored_resized(1) [of s p, OF res, of q] by (auto simp: stored_page_at)
    have od: "on_disk s q \<Longrightarrow> on_disk ?s2 q" for q
      using res by (auto simp: on_disk_def)
    have c2: "inv_core (set_at t (Read_done p e) ?s2) \<and> contents (set_at t (Read_done p e) ?s2) = contents s"
    proof (rule load_begin_core [OF core t at f d])
      show "whole_pages (page_size s) (files ?s2)"
        using inv(7) by (simp add: inv_data_def whole_pages_def page_offset_def)
      show "length pg = page_size s" if "pg \<in> set (loaded_pages ?s2)" for pg
        using that set_loaded_length [OF inv(4), of ?zero pg d] by simp
      show "on_disk ?s2 p" using endp by (simp add: on_disk_def)
    qed (use st od dl keys zero in \<open>simp_all add: distinct_put\<close>)
    have at2: "loc (set_at t (Read_done p e) ?s2) t = Read_done p e" using t by simp
    have t2: "t < length (threads (set_at t (Read_done p e) ?s2))" using t by simp
    obtain s' where s': "page_loaded t p e ?s2 = Some s'" "keeps (set_at t (Read_done p e) ?s2) s'"
      "\<forall>q. slot_of s' q = slot_of (set_at t (Read_done p e) ?s2) q" "length (bufferframes s') = length (bufferframes ?s2)"
      using page_loaded_ok [OF _ t2 at2] c2 by auto
    have "load_page p d (put_frame p ?g s\<lparr>fifo_list := fifo_list s @ [p]\<rparr>) = Some (False, ?s2)"
      using True dl by (simp add: load_page_def Let_def)
    then have "fix_load t p e d s = Some s'" using f s'(1) by (simp add: fix_load_def Let_def)
    moreover have "length (bufferframes s') = length (bufferframes s)" using s'(4) f(1) by (simp add: length_put)
    moreover have "page_count s' = page_count s"
      using s'(1) f(1) by (auto simp: page_loaded_def bind_eq_Some_conv)
    ultimately show ?thesis using that s' c2 by (simp add: keeps_def)
  next
    case False
    let ?s2 = "set_at t (Read_page p e) ?s1"
    have c2: "inv_core ?s2 \<and> contents ?s2 = contents s"
    proof (rule load_begin_core [OF core t at f d])
      show "on_disk ?s1 p" using False endp by (simp add: on_disk_def)
      show "whole_pages (page_size s) (files ?s1)" using inv(7) by (simp add: inv_data_def)
      show "on_disk s q \<Longrightarrow> on_disk ?s1 q" for q by (auto simp: on_disk_def)
      show "length pg = page_size s" if "pg \<in> set (loaded_pages ?s1)" for pg using that pages by simp
    qed (use keys in \<open>simp_all add: distinct_put\<close>)
    have "load_page p d (put_frame p ?g s\<lparr>fifo_list := fifo_list s @ [p]\<rparr>) = Some (True, ?s1)"
      using False by (simp add: load_page_def Let_def)
    then have "fix_load t p e d s = Some ?s2" using f by (simp add: fix_load_def Let_def)
    then show ?thesis using that c2 f(1) by (simp add: length_put)
  qed
qed

lemma in_memory_dom: "in_memory s \<subseteq> fst ` set (bufferframes s)"
proof
  fix p assume "p \<in> in_memory s"
  then have "frame_of s p \<noteq> None" by (auto simp: in_memory_def slot_of_def split: option.splits)
  then show "p \<in> fst ` set (bufferframes s)" by (simp add: frame_of_dom)
qed

lemma finite_in_memory: "finite (in_memory s)"
  using in_memory_dom finite_subset by blast

lemma card_frames:
  assumes "inv_core s"
  shows "card (fst ` set (bufferframes s)) = length (bufferframes s)" "card (in_memory s) \<le> length (bufferframes s)"
proof -
  have "distinct (map fst (bufferframes s))" using inv_coreD(4) [OF assms] by (simp add: inv_memory_def)
  then show c: "card (fst ` set (bufferframes s)) = length (bufferframes s)"
    using distinct_card [of "map fst (bufferframes s)"] by simp
  show "card (in_memory s) \<le> length (bufferframes s)"
    using card_mono [OF _ in_memory_dom [of s]] c by simp
qed

lemma fix_evicted_ok:
  assumes core: "inv_core s" and t: "t < length (threads s)" and v: "frame_of s v = Some f" and nu: "num_users f = 0"
    and at: "loc s t = Waiting_locked p e \<and> fstate f = LOADED \<or> loc s t = Written_victim p e v \<and> fstate f = EVICTING"
    and agree: "in_mem s v = stored s v" and new: "state_of s p = Some NEW"
  shows "\<exists>s'. fix_evicted t p e v s = Some s' \<and> keeps s s'"
proof -
  note inv = inv_coreD [OF core]
  obtain d s1 where s1: "drop_victim v s = Some (d, s1)" "inv_core (set_at t (Waiting_locked p e) s1)" "contents s1 = contents s"
    "fdata f = Some d" "\<And>q. slot_of s1 q = (if q = v then None else slot_of s q)"
    "\<And>q. state_of s1 q = (if q = v then None else state_of s q)" "threads s1 = threads s"
    "page_count s1 = page_count s" "bufferframes s1 = AList.delete v (bufferframes s)"
    by (rule drop_ok [OF core t v nu at agree]) blast
  let ?s1 = "set_at t (Waiting_locked p e) s1"
  have pv: "p \<noteq> v" using new frame_views(5) [OF v] at by auto
  have sv: "slot_of s v = Some d" using frame_views(4) [OF v] s1(4) by simp
  have sp: "slot_of s p = None"
  proof -
    obtain g where g: "frame_of s p = Some g" "fstate g = NEW" using new by (auto simp: state_of_def)
    then show ?thesis using frame_lists [OF core g(1)] by (simp add: lists_wf_def slot_of_def)
  qed
  have d: "d < page_count ?s1" "slot_of ?s1 q \<noteq> Some d" for q
    using inv(4) sv s1(5,8) by (auto simp: inv_memory_def)
  have t1: "t < length (threads ?s1)" "loc ?s1 t = Waiting_locked p e" "state_of ?s1 p = Some NEW"
    using t s1(7) new pv s1(6) by simp_all
  obtain s' where s': "fix_load t p e d ?s1 = Some s'" "inv_core s'" "contents s' = contents ?s1"
    "\<And>q. slot_of s' q = (if q = p then Some d else slot_of ?s1 q)" "length (bufferframes s') = length (bufferframes ?s1)"
    "length (threads s') = length (threads ?s1)" "page_count s' = page_count ?s1"
    using fix_load_ok [OF s1(2) t1 d] by blast
  have slots: "slot_of s' q = (if q = p then Some d else if q = v then None else slot_of s q)" for q
    using s'(4) [of q] s1(5) by simp
  have room: "inv_room s'" if r: "inv_room s"
  proof -
    have im: "in_memory s' = insert p (in_memory s - {v})" using slots by (auto simp: in_memory_def)
    have "p \<notin> in_memory s" "v \<in> in_memory s" using sp sv by (simp_all add: in_memory_def)
    then have c: "card (in_memory s') = card (in_memory s)"
      unfolding im using finite_in_memory [of s]
      by (metis DiffD1 card_Suc_Diff1 card_insert_disjoint finite_Diff)
    have "length (bufferframes s') \<le> length (bufferframes s)" using s'(5) s1(9) by (simp add: length_delete_le)
    then show ?thesis using r sv s'(7) s1(8) slots unfolding inv_room_def c by (auto split: if_splits)
  qed
  have "fix_evicted t p e v s = Some s'" using s1(1) s'(1) by (simp add: fix_evicted_def)
  moreover have "keeps s s'" using s'(2,3,6) s1(3,7) room by (simp add: keeps_def)
  ultimately show ?thesis by blast
qed

lemma writes_refs:
  assumes "writes p th"
  shows "refs p th > 0"
proof -
  from assms consider h where "h \<in> set (holds th)" "fst h = p" | "at_loc th = Unfixing p True" unfolding writes_def by blast
  then show ?thesis
  proof cases
    case 1
    then show ?thesis using hold_refs(1) by blast
  next
    case 2
    then show ?thesis by (simp add: refs_def at_page_def)
  qed
qed

lemma drop_victim_state:
  assumes "frame_of s v = Some f"
  shows "drop_victim v (put_frame v (f\<lparr>fstate := x\<rparr>) s) = drop_victim v s"
proof -
  have del: "AList.delete k (AList.update k a al) = AList.delete k al" for k a and al :: "(pid \<times> frame) list"
    by (induction al) auto
  show ?thesis using assms by (simp add: drop_victim_def put_frame_def drop_frame_def del frame_of_def update_conv')
qed

text \<open>One round of the loop of \<open>evict_page\<close>.\<close>

lemma find_page_to_evictD:
  assumes "find_page_to_evict s = Some v"
  shows "\<exists>f. frame_of s v = Some f \<and> num_users f = 0 \<and> fstate f = LOADED"
proof -
  have "can_evict s v"
    using assms by (auto simp: find_page_to_evict_def find_Some_iff split: option.splits)
  then show ?thesis by (auto simp: can_evict_def split: option.splits)
qed

lemma evict_page_ok:
  assumes core: "inv_core s" and t: "t < length (threads s)" and at: "loc s t = Waiting_locked p e"
    and new: "state_of s p = Some NEW"
  shows "\<exists>s'. evict_page t p e s = Some s' \<and> keeps s s'"
proof (cases "find_page_to_evict s")
  case None
  then show ?thesis using fix_failed_ok [OF core t at new] by (simp add: evict_page_def)
next
  case (Some v)
  obtain f where f: "frame_of s v = Some f" "num_users f = 0" "fstate f = LOADED" using find_page_to_evictD [OF Some] by blast
  note inv = inv_coreD [OF core]
  have "fstate f \<noteq> NEW" using f(3) by simp
  then obtain d where d: "fdata f = Some d" "slot_of s v = Some d" by (rule frame_slot [OF core f(1)])
  have dl: "d < length (loaded_pages s)" by (rule in_mem_set(2) [OF inv(4) d(2)])
  show ?thesis
  proof (cases "is_dirty f")
    case True
    have "evict_page t p e s = Some (set_at t (Write_victim p e v (loaded_pages s ! d)) (put_frame v (f\<lparr>fstate := EVICTING\<rparr>) s))"
      using Some f d dl True by (simp add: evict_page_def Let_def)
    then show ?thesis using evict_start_ok [OF core t at new f(1,2,3) True d(1)] by blast
  next
    case False
    have "is_loaded s v" using f by (simp add: is_loaded_iff)
    moreover have "\<not> writes v (threads s ! u)" if u: "u < length (threads s)" for u
    proof
      assume w: "writes v (threads s ! u)"
      have "refs v (threads s ! u) > 0" by (rule writes_refs [OF w])
      then show False using no_users(3) [OF core f(1,2) u] by simp
    qed
    ultimately have agree: "in_mem s v = stored s v"
      using inv(7) frame_views(6) [OF f(1)] False unfolding inv_data_def by blast
    have "evict_page t p e s = fix_evicted t p e v (put_frame v (f\<lparr>fstate := EVICTING\<rparr>) s)"
      using Some f False by (simp add: evict_page_def Let_def)
    also have "\<dots> = fix_evicted t p e v s" by (simp add: fix_evicted_def drop_victim_state [OF f(1)])
    finally show ?thesis using fix_evicted_ok [OF core t f(1,2) _ agree new, of e] at f(3) by simp
  qed
qed

lemma evict_written_ok:
  assumes core: "inv_core s" and t: "t < length (threads s)" and at: "loc s t = Written_victim p e v"
  shows "\<exists>s'. continue t s = Some s' \<and> keeps s s'"
proof -
  note inv = inv_coreD [OF core]
  have th0: "at_loc (threads s ! t) = Written_victim p e v" using at by (simp add: loc_def)
  have old: "state_of s p = Some NEW" "state_of s v \<in> {Some EVICTING, Some RELOADED}"
    "state_of s v = Some EVICTING \<longrightarrow> in_mem s v = stored s v"
    using inv_core_thread_ok [OF core t] th0 by (simp_all add: thread_ok_def)
  then obtain f where f: "frame_of s v = Some f" "fstate f = EVICTING \<or> fstate f = RELOADED" by (auto simp: state_of_def)
  show ?thesis
  proof (cases "fstate f = EVICTING")
    case True
    have "num_users f = 0"
      using inv_statesD(4) [OF inv(6), of v] frame_views(1,5) [OF f(1)] True by simp
    moreover have "in_mem s v = stored s v" using old(3) frame_views(5) [OF f(1)] True by simp
    ultimately show ?thesis
      using fix_evicted_ok [OF core t f(1) _ _ _ old(1), of e] at True f(1) by (simp add: continue_def evict_written_def)
  next
    case False
    then have r: "fstate f = RELOADED" using f(2) by simp
    let ?s1 = "put_frame v (f\<lparr>fstate := LOADED\<rparr>) s"
    let ?s2 = "set_at t (Waiting_locked p e) ?s1"
    have k: "keeps s ?s2" by (rule unreload_ok [OF core t at f(1) r])
    have "state_of ?s2 p = Some NEW" using old(1) frame_views(5) [OF f(1)] r by auto
    then obtain s' where "evict_page t p e ?s2 = Some s'" "keeps ?s2 s'"
      using evict_page_ok [OF keeps_core [OF k], of t p e] t by auto
    then show ?thesis using keeps_trans [OF k] at f(1) r by (auto simp: continue_def evict_written_def)
  qed
qed

section \<open>\<open>fix_page\<close>\<close>

lemma length_new: "frame_of s p = None \<Longrightarrow> length (bufferframes (put_frame p f s)) = Suc (length (bufferframes s))"
  by (simp add: length_put)

text \<open>The frame of a new page, locked by the thread that makes it.\<close>

lemma new_frame_core:
  assumes core: "inv_core s" and t: "t < length (threads s)" and at: "in_user_code (loc s t)" and p: "frame_of s p = None"
  shows "inv_core (set_at t (Waiting_locked p e) (put_frame p (page_lock True t (inc_num_users new_frame)) s))" (is "inv_core ?s")
    and "contents (put_frame p (page_lock True t (inc_num_users new_frame)) s) = contents s"
proof -
  note inv = inv_coreD [OF core]
  let ?f = "page_lock True t (inc_num_users new_frame)"
  let ?th = "(threads s ! t)\<lparr>at_loc := Waiting_locked p e\<rparr>"
  note user = user_codeD [OF at, unfolded loc_def]
  have f: "fdata ?f = None" "fstate ?f = NEW" "num_users ?f = 1" "is_dirty ?f = False" "mutex_writer ?f = Some t"
    "mutex_readers ?f = []" "\<not> fifo_position ?f" "\<not> lru_position ?f" "exclusively_locked ?f"
    by (simp_all add: page_lock_def inc_num_users_def new_frame_def)
  have old: "users s p = 0" "writer_of s p = None" "readers_of s p = []" "slot_of s p = None" "state_of s p = None" "\<not> dirty_page s p"
    using p by (simp_all add: users_def writer_of_def readers_of_def slot_of_def state_of_def dirty_page_def)
  have th: "threads ?s = (threads s)[t := ?th]" by simp
  have views: "slot_of ?s q = slot_of s q" "dirty_page ?s q = dirty_page s q" "in_mem ?s q = in_mem s q"
    "users ?s q = (if q = p then 1 else users s q)" "writer_of ?s q = (if q = p then Some t else writer_of s q)"
    "readers_of ?s q = readers_of s q" "state_of ?s q = (if q = p then Some NEW else state_of s q)"
    "is_loaded ?s q = is_loaded s q" "stored ?s q = stored s q" "on_disk ?s q = on_disk s q" for q
    using old f by (auto simp: in_mem_def is_loaded_def split: option.split)
  have r0: "refs p (threads s ! u) = 0" if "u < length (threads s)" for u using refs_users [OF inv(1) that, of p] old(1) by simp
  have ment: "\<not> mentions (threads s ! u) p" if "u < length (threads s)" for u
    using mentions_page_state [OF inv(1,5) that, of p] old(1,5) by auto
  have same: "same_page s ?s q" if "q \<noteq> p" for q unfolding same_page_def views using that by simp
  have others: "thread_ok ?s (threads s ! u)" if u: "u < length (threads s)" for u
  proof (rule thread_ok_same [OF inv_core_thread_ok [OF core u]])
    show "same_page s ?s q" if "mentions (threads s ! u) q" for q
      using that ment [OF u] by (cases "q = p") (blast intro: same)+
  qed simp
  have "inv_users ?s"
  proof (rule inv_users_step [OF inv(1) t th])
    show "users ?s q + refs q (threads s ! t) = users s q + refs q ?th" for q
      using r0 [OF t] old(1) user unfolding views by (cases "q = p") (simp_all add: refs_def at_page_def)
  qed
  moreover have "inv_mutex ?s"
  proof (rule inv_mutex_step [OF inv(2) th])
    have "thread_mutex s t (threads s ! t)" using inv(2) t by (simp add: inv_mutex_def)
    then have ex: "excl_refs q (threads s ! t) = (if writer_of s q = Some t then 1 else 0)"
      "shared_refs q (threads s ! t) = count_list (readers_of s q) t" for q by (simp_all add: thread_mutex_def)
    have "excl_refs q ?th = (if writer_of ?s q = Some t then 1 else 0)" for q
      using ex(1) [of q] old(2) user unfolding views by (cases "q = p") (auto simp: excl_refs_def)
    moreover have "shared_refs q ?th = count_list (readers_of ?s q) t" for q
      using ex(2) [of q] unfolding views by (simp add: shared_refs_def)
    ultimately show "thread_mutex ?s t ?th" by (simp only: thread_mutex_def) blast
    show "mutex_wf (length (threads s)) h" if "frame_of ?s q = Some h" for q h
      using that inv(2) f t by (auto simp: inv_mutex_def mutex_wf_def split: if_splits)
    show "(writer_of ?s q = Some u) = (writer_of s q = Some u)" if "u \<noteq> t" for q u
      using that old(2) unfolding views by auto
  qed (simp only: views)
  moreover have "inv_lists ?s"
  proof -
    have "inv_lists (put_frame p ?f s)" using inv(3) f p unfolding inv_lists_def by (auto simp: lists_wf_def)
    then show ?thesis by (simp add: set_at_eq)
  qed
  moreover have "inv_memory ?s"
    by (rule inv_memory_views [OF inv(4)]) (use inv(4) views in \<open>simp_all add: inv_memory_def distinct_put\<close>)
  moreover have "inv_threads ?s"
  proof (rule inv_threads_step [OF inv(5) t th _ others])
    show "thread_ok ?s ?th" using others [OF t] by (simp add: thread_ok_def)
  qed simp_all
  moreover have "inv_states ?s"
  proof (rule inv_states_step [OF inv(6) th t])
    show "users ?s q > 0" if "state_of ?s q = Some NEW" for q
      using that inv_statesD(1) [OF inv(6), of q] unfolding views by (simp split: if_splits)
    show "users ?s q = 0" if "state_of ?s q = Some EVICTING" for q
      using that inv_statesD(4) [OF inv(6), of q] unfolding views by (simp split: if_splits)
    show "loading (at_loc ?th) = Some q \<or> state_of s q = Some LOADING \<and> loading (loc s t) \<noteq> Some q"
      if "state_of ?s q = Some LOADING" for q
      using that user unfolding views by (simp add: loc_def split: if_splits)
    show "victim_of (at_loc ?th) = Some q \<or> state_of s q \<in> {Some EVICTING, Some RELOADED} \<and> victim_of (loc s t) \<noteq> Some q"
      if "state_of ?s q \<in> {Some EVICTING, Some RELOADED}" for q
      using that user unfolding views by (auto simp: loc_def split: if_splits)
  qed
  moreover have "inv_data ?s"
  proof (rule inv_data_step [OF inv(7) th t])
    show "on_disk ?s q" if "is_loaded ?s q" for q using that inv(7) unfolding views inv_data_def by blast
    show "dirty_page ?s q \<or> writes q ?th \<or> in_mem ?s q = stored ?s q
       \<or> (\<exists>u<length (threads s). u \<noteq> t \<and> writes q (threads s ! u))" if ld: "is_loaded ?s q" for q
    proof -
      have "dirty_page s q \<or> (\<exists>u<length (threads s). writes q (threads s ! u)) \<or> in_mem s q = stored s q"
        using ld inv(7) unfolding views inv_data_def by blast
      moreover have "writes q (threads s ! t) \<Longrightarrow> writes q ?th" using user [of q True] by (auto simp: writes_def)
      ultimately show ?thesis unfolding views by auto
    qed
  qed (use inv(7) in \<open>simp_all add: inv_data_def\<close>)
  ultimately show "inv_core ?s" by (simp add: inv_core_def)
  have "contents ?s = contents s" unfolding contents_def fun_eq_iff views by simp
  then show "contents (put_frame p ?f s) = contents s" by simp
qed

lemma fix_new_ok:
  assumes inv: "bm_inv s" and t: "t < length (threads s)" and at: "in_user_code (loc s t)" and p: "frame_of s p = None"
  shows "\<exists>s'. fix_new t p e s = Some s' \<and> keeps s s'"
proof -
  have core: "inv_core s" and room: "inv_room s" using inv by (simp_all add: bm_inv_def)
  let ?f = "page_lock True t (inc_num_users new_frame)"
  let ?s1 = "put_frame p ?f s"
  let ?s2 = "set_at t (Waiting_locked p e) ?s1"
  note c1 = new_frame_core [OF core t at p]
  have n1: "length (bufferframes ?s1) = Suc (length (bufferframes s))" by (rule length_new [OF p])
  have t2: "t < length (threads ?s2)" "loc ?s2 t = Waiting_locked p e" "state_of ?s2 p = Some NEW"
    using t by (simp_all add: page_lock_def inc_num_users_def new_frame_def)
  have sl: "slot_of ?s2 q = slot_of s q" for q using p by (simp add: page_lock_def inc_num_users_def new_frame_def slot_of_def)
  have im: "in_memory ?s2 = in_memory s" unfolding in_memory_def sl ..
  note card = card_frames(2) [OF core]
  show ?thesis
  proof (cases "length (bufferframes s) < page_count s")
    case True
    then have full: "card (in_memory s) = length (bufferframes s)" using room card unfolding inv_room_def by linarith
    have d: "length (bufferframes s) < page_count ?s2" "slot_of ?s2 q \<noteq> Some (length (bufferframes s))" for q
      using True room full sl [of q] unfolding inv_room_def by auto
    obtain s' where s': "fix_load t p e (length (bufferframes s)) ?s2 = Some s'" "inv_core s'" "contents s' = contents ?s2"
      "\<And>q. slot_of s' q = (if q = p then Some (length (bufferframes s)) else slot_of ?s2 q)"
      "length (bufferframes s') = length (bufferframes ?s2)" "length (threads s') = length (threads ?s2)"
      "page_count s' = page_count ?s2"
      using fix_load_ok [OF c1(1) t2 d] by blast
    have "p \<notin> in_memory s" using p by (simp add: in_memory_def slot_of_def)
    moreover have "in_memory s' = insert p (in_memory s)" using s'(4) sl by (auto simp: in_memory_def split: if_splits)
    ultimately have c: "card (in_memory s') = Suc (length (bufferframes s))" using finite_in_memory [of s] full by simp
    have "inv_room s'" unfolding inv_room_def c
    proof (intro conjI allI impI)
      show "d < Suc (length (bufferframes s))" if "slot_of s' q = Some d" for q d
      proof (cases "q = p")
        case False
        then have "slot_of s q = Some d" using that s'(4) [of q] sl [of q] by simp
        then have "d < card (in_memory s)" using room unfolding inv_room_def by blast
        then show ?thesis using full by simp
      qed (use that s'(4) [of q] in simp)
    qed (use True s'(5,7) n1 in simp_all)
    then have "keeps s s'" using s'(2,3,6) c1(2) by (simp add: keeps_def)
    moreover have "fix_new t p e s = Some s'" using p True s'(1) n1 by (simp add: fix_new_def Let_def)
    ultimately show ?thesis by blast
  next
    case False
    have full: "card (in_memory s) = page_count s" using False room card unfolding inv_room_def by linarith
    have "inv_room ?s2" using room full unfolding inv_room_def im by (simp add: sl del: slot_of_update)
    moreover obtain s' where s': "evict_page t p e ?s2 = Some s'" "keeps ?s2 s'" using evict_page_ok [OF c1(1) t2] by blast
    ultimately have "keeps s s'" using c1(2) by (simp add: keeps_def)
    moreover have "fix_new t p e s = Some s'" using p False s'(1) n1 by (simp add: fix_new_def Let_def)
    ultimately show ?thesis by blast
  qed
qed

lemma bm_fix_page_ok:
  assumes "bm_inv s" "t < length (threads s)" "in_user_code (loc s t)"
  shows "\<exists>s'. bm_fix_page t p e s = Some s' \<and> keeps s s'"
  using fix_new_ok [OF assms] fix_hit_ok [OF _ assms(2,3)] assms(1)
  by (cases "frame_of s p") (auto simp: bm_fix_page_def bm_inv_def)

lemma bm_fix_page_set_at [simp]: "bm_fix_page t p e (set_at t l s) = bm_fix_page t p e s"
proof (cases "frame_of s p")
  case None
  then show ?thesis by (simp add: bm_fix_page_def fix_new_def Let_def)
next
  case (Some f)
  then show ?thesis by (simp add: bm_fix_page_def fix_hit_def Let_def touch_set_at map_option_bind comp_def split: bind_splits)
qed

lemma fix_waited_ok:
  assumes inv: "bm_inv s" and t: "t < length (threads s)" and at: "loc s t = Waited p e"
  shows "\<exists>s'. continue t s = Some s' \<and> keeps s s'"
proof -
  have core: "inv_core s" and room: "inv_room s" using inv by (simp_all add: bm_inv_def)
  have refs: "refs p (threads s ! t) > 0" using at by (simp add: refs_def at_page_def loc_def)
  then obtain f where f: "frame_of s p = Some f" "num_users f > 0" using refs_frame inv_coreD(1) [OF core] t by blast
  show ?thesis
  proof (cases "fstate f = NEW")
    case True
    obtain g s1 where g: "dec_num_users f = Some g" "num_users g = num_users f - 1" "\<not> fifo_position g" "\<not> lru_position g"
      "s1 = (if num_users g = 0 then drop_frame p s else put_frame p g s)" "keeps s (set_at t Ready s1)"
      by (rule release_new_ok [OF core t at f(1) True])
    have len: "length (threads s1) = length (threads s)" using g(5) by simp
    have "bm_inv (set_at t Ready s1)" using g(6) room by (simp add: bm_inv_def keeps_def)
    then obtain s' where s': "bm_fix_page t p e (set_at t Ready s1) = Some s'" "keeps (set_at t Ready s1) s'"
      using bm_fix_page_ok [of "set_at t Ready s1" t p e] t len by auto
    have "bm_fix_page t p e s1 = Some s'"
      using s'(1) by simp
    then have "continue t s = Some s'"
      using at f(1) True g(1,3-5) by (cases "num_users g = 0") (simp_all add: continue_def fix_waited_def)
    then show ?thesis using keeps_trans [OF g(6) s'(2)] by blast
  next
    case False
    have st: "state_of s p \<noteq> Some NEW" using False frame_views(5) [OF f(1)] by simp
    let ?th = "(threads s ! t)\<lparr>at_loc := Lock_page p e\<rparr>"
    have same: "same_frame f f" by (simp add: same_frame_def)
    have ok: "thread_ok s ?th" using inv_core_thread_ok [OF core t] st by (simp add: thread_ok_def)
    have triv: "put_frame p f s = s" using f(1) by (simp add: put_frame_def frame_of_def update_triv)
    note tm = thread_mutexD [OF inv_coreD(2) [OF core] t f(1)]
    have "keeps s (set_thread t ?th (put_frame p f s))"
      by (rule core_same_frame [OF core t f(1) same])
         (use at tm f ok False page_not_evicting [OF core t refs f(1)] in
          \<open>auto simp: refs_def excl_refs_def shared_refs_def at_page_def loc_def writes_def\<close>)
    then have k: "keeps s (set_at t (Lock_page p e) s)" using triv by (simp add: set_at_eq)
    obtain s' where s': "touch p (set_at t (Lock_page p e) s) = Some s'" "keeps (set_at t (Lock_page p e) s) s'"
      using touch_ok [OF keeps_core [OF k], of p f] f(1) False by auto
    then have "continue t s = Some s'"
      using at f(1) False by (auto simp: continue_def fix_waited_def touch_set_at)
    then show ?thesis using keeps_trans [OF k s'(2)] by blast
  qed
qed

section \<open>Steps\<close>

definition store_step :: "action \<Rightarrow> (pid \<Rightarrow> bytes) \<Rightarrow> (pid \<Rightarrow> bytes)" where
  "store_step a m = (case a of Write_data p bs \<Rightarrow> m(p := bs) | _ \<Rightarrow> m)"

lemma bm_step_ok:
  assumes inv: "bm_inv s" and en: "enabled s t a"
  shows "\<exists>s'. exec t a s = Some s' \<and> bm_inv s' \<and> contents s' = store_step a (contents s)
    \<and> length (threads s') = length (threads s)"
proof -
  have core: "inv_core s" and room: "inv_room s" using inv by (simp_all add: bm_inv_def)
  have keep: ?thesis if "\<exists>s'. exec t a s = Some s' \<and> keeps s s'" "\<And>p bs. a \<noteq> Write_data p bs"
    using that room by (cases a) (auto simp: keeps_def bm_inv_def store_step_def)
  show ?thesis
  proof (cases a)
    case (Fix_page p e)
    then show ?thesis using keep bm_fix_page_ok [OF inv, of t p e] en by simp
  next
    case (Write_data p bs)
    obtain h where h: "holding p (held_by s t) = Some h" "fst (snd h)" using en Write_data by (auto split: option.splits)
    show ?thesis
      using write_data_ok [OF core _ _ h, of bs] en Write_data room by (auto simp: bm_inv_def store_step_def)
  next
    case (Unfix_page p dirty)
    obtain h where h: "holding p (held_by s t) = Some h" "snd (snd h) \<longrightarrow> dirty" using en Unfix_page by (auto split: option.splits)
    show ?thesis using keep unfix_unlock_ok [OF core _ _ h] en Unfix_page by simp
  next
    case Continue
    then have t: "t < length (threads s)" using en by simp
    have "\<exists>s'. continue t s = Some s' \<and> keeps s s'"
    proof (cases "loc s t")
      case (Wait_new p e)
      then show ?thesis using wait_lock_ok [OF core t] en Continue by simp
    next
      case (Waiting_locked p e)
      then show ?thesis using wait_unlock_ok [OF core t] by simp
    next
      case (Waited p e)
      then show ?thesis using fix_waited_ok [OF inv t] by simp
    next
      case (Write_victim p e v c)
      then show ?thesis using write_out_ok [OF core t] by simp
    next
      case (Written_victim p e v)
      then show ?thesis using evict_written_ok [OF core t] by simp
    next
      case (Read_page p e)
      then show ?thesis using read_page_ok [OF core t] by simp
    next
      case (Read_done p e)
      then show ?thesis using page_loaded_ok [OF core t] by (auto simp: continue_def)
    next
      case (Lock_page p e)
      then show ?thesis using lock_page_ok [OF core t] en Continue by simp
    next
      case (Unfixing p d)
      then show ?thesis using unfix_finish_ok [OF core t] by simp
    qed (use en Continue in simp_all)
    then show ?thesis using keep Continue by simp
  qed
qed

lemma init_inv:
  assumes "whole_pages psize fs" "0 < psize"
  shows "bm_inv (bm_init psize cnt fs n)"
proof -
  let ?s = "bm_init psize cnt fs n"
  have fr: "frame_of ?s p = None" for p by (simp add: bm_init_def frame_of_def)
  have views: "slot_of ?s q = None" "users ?s q = 0" "writer_of ?s q = None" "readers_of ?s q = []" "state_of ?s q = None"
    "\<not> is_loaded ?s q" for q
    by (simp_all add: slot_of_def users_def writer_of_def readers_of_def state_of_def is_loaded_def fr)
  have th: "threads ?s ! t = \<lparr>at_loc = Ready, holds = []\<rparr>" if "t < n" for t using that by (simp add: bm_init_def)
  have len: "length (threads ?s) = n" by (simp add: bm_init_def)
  have "sum_list (map (refs p) (threads ?s)) = 0" for p
    by (simp add: bm_init_def refs_def fixes_of_def at_page_def sum_list_replicate)
  then have "inv_users ?s" by (simp add: inv_users_def views)
  moreover have "inv_mutex ?s"
    using th by (simp add: inv_mutex_def thread_mutex_def views fr len excl_refs_def shared_refs_def excl_of_def shared_of_def)
  moreover have "inv_lists ?s" by (simp add: inv_lists_def fr) (simp add: bm_init_def)
  moreover have "inv_memory ?s" by (simp add: inv_memory_def views) (simp add: bm_init_def)
  moreover have "inv_threads ?s" using th by (simp add: inv_threads_def thread_ok_def loc_def len)
  moreover have "inv_states ?s" by (simp add: inv_states_def views)
  moreover have "inv_data ?s" using assms by (simp add: inv_data_def views) (simp add: bm_init_def)
  moreover have "inv_room ?s" by (simp add: inv_room_def in_memory_def views) (simp add: bm_init_def)
  ultimately show ?thesis by (simp add: bm_inv_def inv_core_def)
qed

lemma reachable_inv: "bm_reachable s \<Longrightarrow> bm_inv s"
proof (induction rule: bm_reachable.induct)
  case (init psize fs cnt n)
  then show ?case by (rule init_inv)
next
  case (step s t a s')
  from step.hyps(2) have "enabled s t a" "exec t a s = Some s'" by (auto elim: bm_step.cases)
  with bm_step_ok [OF step.IH] show ?case by force
qed

end
