(* ===== verification/Buffer_Properties.thy ===== *)
theory Buffer_Properties
  imports Buffer_Correct
begin

text \<open>
  The properties of the buffer manager: it is a store of pages, its exclusion is exclusion, it
  throws exactly when a step looks for memory and nothing can be evicted (and what the
  throw then changes), and the destructor writes everything back.
\<close>

section \<open>Reading the invariant\<close>

lemma held_page:
  assumes "bm_inv s" "t < length (threads s)" "h \<in> set (held_by s t)"
  shows "is_loaded s (fst h)" "\<exists>d. slot_of s (fst h) = Some d \<and> d < length (loaded_pages s)"
proof -
  have core: "inv_core s" using assms(1) by (simp add: bm_inv_def)
  have "state_of s (fst h) \<in> {Some LOADED, Some RELOADED}"
    using inv_core_thread_ok [OF core assms(2)] assms(3) by (auto simp: thread_ok_def hold_ok_def held_by_def)
  then show l: "is_loaded s (fst h)" by (auto simp: is_loaded_def)
  then obtain f where f: "frame_of s (fst h) = Some f" "fstate f \<noteq> NEW" by (auto simp: is_loaded_iff)
  obtain d where "slot_of s (fst h) = Some d" by (rule frame_slot [OF core f])
  then show "\<exists>d. slot_of s (fst h) = Some d \<and> d < length (loaded_pages s)"
    using inv_coreD(4) [OF core] by (auto simp: inv_memory_def)
qed

lemma run_inv:
  "bm_inv s \<Longrightarrow> run s as = Some s' \<Longrightarrow> bm_inv s' \<and> contents s' = fold (\<lambda>(t, a). store_step a) as (contents s)
     \<and> length (threads s') = length (threads s)"
proof (induction as arbitrary: s)
  case Nil
  then show ?case by simp
next
  case (Cons x as)
  obtain t a where x: "x = (t, a)" by (cases x)
  have en: "enabled s t a" using Cons.prems(2) x by (simp split: if_splits)
  obtain s1 where s1: "exec t a s = Some s1" "bm_inv s1" "contents s1 = store_step a (contents s)"
    "length (threads s1) = length (threads s)" using bm_step_ok [OF Cons.prems(1) en] by blast
  have "run s1 as = Some s'" using Cons.prems(2) x en s1(1) by simp
  then show ?case using Cons.IH [OF s1(2)] s1(3,4) x by simp
qed

lemma init_contents:
  "contents (bm_init psize cnt fs n) p
     = page_at psize (bm_segment_page_id p * psize) (fs (bm_segment_id p))"
  by (simp add: contents_def is_loaded_def state_of_def frame_of_def bm_init_def stored_page_at page_offset_def)

text \<open>C1: the buffer manager implements a store of pages, under every interleaving. From a new
  manager over files of whole pages, any run of steps of its threads (calls of \<open>fix_page\<close> and
  \<open>unfix_page\<close>, writes of the users to the pages that they hold exclusively, and the sections in
  between, with loads, evictions and writes to the files at any point) leaves the store that the
  users' writes alone make of the files; every thread that has a page fixed sees in memory exactly
  the store's page, and every step that is enabled succeeds: no assertion fails, no counter
  underflows, no mutex is released by a thread that does not hold it and no access leaves the
  memory or the file.\<close>

theorem bm_refines_store:
  assumes "whole_pages psize fs" "0 < psize" "run (bm_init psize cnt fs n) as = Some s"
  shows "contents s = fold (\<lambda>(t, a). store_step a) as (\<lambda>p. page_at psize (bm_segment_page_id p * psize) (fs (bm_segment_id p)))
    \<and> (\<forall>t<n. \<forall>h \<in> set (held_by s t). in_mem s (fst h) = contents s (fst h))
    \<and> (\<forall>t a. enabled s t a \<longrightarrow> exec t a s \<noteq> None)"
proof -
  have i: "bm_inv (bm_init psize cnt fs n)" by (rule init_inv [OF assms(1,2)])
  have init: "contents (bm_init psize cnt fs n) = (\<lambda>p. page_at psize (bm_segment_page_id p * psize) (fs (bm_segment_id p)))"
    by (rule ext) (rule init_contents)
  note r = run_inv [OF i assms(3), unfolded init]
  have inv: "bm_inv s" and n: "length (threads s) = n" using r by (simp_all add: bm_init_def)
  have "in_mem s (fst h) = contents s (fst h)" if "t < n" "h \<in> set (held_by s t)" for t h
    using held_page(1) [OF inv _ that(2)] that(1) n by (simp add: contents_def)
  moreover have "exec t a s \<noteq> None" if "enabled s t a" for t a using bm_step_ok [OF inv that] by auto
  ultimately show ?thesis using r by blast
qed

definition sample_steps :: "(nat \<times> action) list" where
  "sample_steps = [(0, Fix_page 1 True), (0, Continue), (0, Continue), (0, Continue), (0, Write_data 1 [7, 8]),
     (0, Unfix_page 1 True), (0, Continue), (1, Fix_page 0 False), (1, Continue), (1, Continue), (1, Continue),
     (1, Continue), (1, Continue)]"

lemma bm_refines_store_witness:
  "\<exists>s. run (bm_init 2 1 (\<lambda>_. [1, 2, 3, 4]) 2) sample_steps = Some s
     \<and> contents s 1 = [7, 8] \<and> held_by s 1 = [(0, False, False)] \<and> in_mem s 0 = [1, 2]"
proof -
  have w: "whole_pages 2 (\<lambda>_. [1, 2, 3, 4])" by (simp add: whole_pages_def)
  have "map_option (\<lambda>s. (length (threads s), held_by s 1)) (run (bm_init 2 1 (\<lambda>_. [1, 2, 3, 4]) 2) sample_steps)
      = Some (2, [(0, False, False)])" by code_simp
  then obtain s where s: "run (bm_init 2 1 (\<lambda>_. [1, 2, 3, 4]) 2) sample_steps = Some s" "held_by s 1 = [(0, False, False)]" by auto
  note r = bm_refines_store [OF w zero_less_numeral s(1)]
  have c: "fold (\<lambda>(t, a). store_step a) sample_steps (\<lambda>p. page_at 2 (bm_segment_page_id p * 2) [1, 2, 3, 4]) 1 = [7, 8]"
    "fold (\<lambda>(t, a). store_step a) sample_steps (\<lambda>p. page_at 2 (bm_segment_page_id p * 2) [1, 2, 3, 4]) 0 = [1, 2]"
    by code_simp+
  have "\<forall>h \<in> set (held_by s 1). in_mem s (fst h) = contents s (fst h)"
    using conjunct1 [OF conjunct2 [OF r], THEN spec [of _ 1]] by simp
  then have "in_mem s 0 = contents s 0" using s(2) by simp
  then show ?thesis using s c r by auto
qed

text \<open>C2: a page that is fixed exclusively is fixed by one thread only, and pages do not share
  memory. In every reachable state a thread that holds a page exclusively excludes every other
  fix of it, by other threads and by itself; every fixed page has a place of its own among the
  \<open>page_count\<close> places in memory, is in exactly one of the two lists, and counts all its fixes.\<close>

theorem bm_exclusive:
  assumes "bm_reachable s" "t < length (threads s)" "h \<in> set (held_by s t)"
  shows "(fst (snd h) \<longrightarrow> fixes_of (fst h) (held_by s t) = 1
        \<and> (\<forall>u<length (threads s). u \<noteq> t \<longrightarrow> fixes_of (fst h) (held_by s u) = 0))
    \<and> (\<exists>d. slot_of s (fst h) = Some d \<and> d < page_count s \<and> (\<forall>q. slot_of s q = Some d \<longrightarrow> q = fst h))
    \<and> (fst h \<in> set (fifo_list s)) \<noteq> (fst h \<in> set (lru_list s))
    \<and> users s (fst h) \<ge> (\<Sum>th\<leftarrow>threads s. fixes_of (fst h) (holds th))"
proof -
  have inv: "bm_inv s" by (rule reachable_inv [OF assms(1)])
  then have core: "inv_core s" by (simp add: bm_inv_def)
  note i = inv_coreD [OF core]
  let ?p = "fst h"
  have hm: "h \<in> set (holds (threads s ! t))" using assms(3) by (simp add: held_by_def)
  have x: "fixes_of ?p (held_by s t) = 1 \<and> (\<forall>u<length (threads s). u \<noteq> t \<longrightarrow> fixes_of ?p (held_by s u) = 0)" if e: "fst (snd h)"
  proof -
    have ex: "excl_refs ?p (threads s ! t) > 0" using hold_refs(2) [OF hm] e by simp
    have eo: "excl_of ?p (holds (threads s ! t)) > 0"
      using hm e by (auto simp: excl_of_def filter_empty_conv)
    have w: "writer_of s ?p = Some t" "excl_refs ?p (threads s ! t) = 1"
      using i(2) assms(2) ex by (auto simp: inv_mutex_def thread_mutex_def split: if_splits)
    then have "readers_of s ?p = []"
      using i(2) by (auto simp: inv_mutex_def mutex_wf_def writer_of_def readers_of_def split: option.splits)
    then have "shared_of ?p (holds (threads s ! t)) = 0"
      using i(2) assms(2) by (simp add: inv_mutex_def thread_mutex_def shared_refs_def)
    then have "fixes_of ?p (held_by s t) = 1"
      using w(2) eo by (simp add: excl_refs_def fixes_split held_by_def split: if_splits)
    moreover have "fixes_of ?p (held_by s u) = 0" if "u < length (threads s)" "u \<noteq> t" for u
      using owner_alone [OF i(2) assms(2) that ex]
      by (simp add: excl_refs_def shared_refs_def fixes_split held_by_def)
    ultimately show ?thesis by blast
  qed
  obtain d where d: "slot_of s ?p = Some d" using held_page(2) [OF inv assms(2,3)] by blast
  have mem: "\<exists>d. slot_of s ?p = Some d \<and> d < page_count s \<and> (\<forall>q. slot_of s q = Some d \<longrightarrow> q = ?p)"
    using d i(4) unfolding inv_memory_def by blast
  obtain f where f: "frame_of s ?p = Some f" "fstate f \<noteq> NEW" using held_page(1) [OF inv assms(2,3)] by (auto simp: is_loaded_iff)
  then have "fifo_position f \<noteq> lru_position f" using frame_lists [OF core f(1)] by (simp add: lists_wf_def)
  moreover have "?p \<in> set (fifo_list s) \<longleftrightarrow> fifo_position f" "?p \<in> set (lru_list s) \<longleftrightarrow> lru_position f"
    using i(3) f(1) unfolding inv_lists_def by auto
  ultimately have lists: "(?p \<in> set (fifo_list s)) \<noteq> (?p \<in> set (lru_list s))" by blast
  have "(\<Sum>th\<leftarrow>threads s. fixes_of ?p (holds th)) \<le> (\<Sum>th\<leftarrow>threads s. refs ?p th)"
    by (rule sum_list_mono) (simp add: refs_def)
  then have "users s ?p \<ge> (\<Sum>th\<leftarrow>threads s. fixes_of ?p (holds th))" using i(1) by (simp add: inv_users_def)
  then show ?thesis using x mem lists by blast
qed

lemma bm_exclusive_witness:
  "\<exists>s. run (bm_init 2 1 (\<lambda>_. [1, 2, 3, 4]) 2) (take 4 sample_steps) = Some s \<and> held_by s 0 = [(1, True, False)]
     \<and> fixes_of 1 (held_by s 1) = 0"
proof -
  have w: "whole_pages 2 (\<lambda>_. [1, 2, 3, 4])" by (simp add: whole_pages_def)
  have "map_option (\<lambda>s. (length (threads s), held_by s 0)) (run (bm_init 2 1 (\<lambda>_. [1, 2, 3, 4]) 2) (take 4 sample_steps))
      = Some (2, [(1, True, False)])" by code_simp
  then obtain s where s: "run (bm_init 2 1 (\<lambda>_. [1, 2, 3, 4]) 2) (take 4 sample_steps) = Some s"
    "held_by s 0 = [(1, True, False)]" "length (threads s) = 2" by auto
  have "bm_reachable s" by (rule run_reachable [OF bm_reachable.init [OF w zero_less_numeral] s(1)])
  from bm_exclusive [OF this, of 0 "(1, True, False)"] s show ?thesis by auto
qed

section \<open>The exception\<close>

lemma find_page_to_evict_None:
  assumes "inv_core s"
  shows "find_page_to_evict s = None \<longleftrightarrow> (\<forall>q. \<not> can_evict s q)"
proof -
  have "can_evict s q \<Longrightarrow> q \<in> set (fifo_list s) \<union> set (lru_list s)" for q
  proof -
    assume "can_evict s q"
    then obtain f where f: "frame_of s q = Some f" "fstate f = LOADED" by (auto simp: can_evict_def split: option.splits)
    then have "fifo_position f \<or> lru_position f" using frame_lists [OF assms f(1)] by (simp add: lists_wf_def)
    then show ?thesis using inv_coreD(3) [OF assms] f(1) unfolding inv_lists_def by blast
  qed
  then show ?thesis by (auto simp: find_page_to_evict_def find_None_iff find_Some_iff split: option.splits)
qed

lemma page_loaded_loc:
  "t < length (threads s) \<Longrightarrow> page_loaded t p e s = Some s' \<Longrightarrow> loc s' t = Lock_page p e"
  by (auto simp: page_loaded_def bind_eq_Some_conv)

lemma fix_load_loc:
  assumes "t < length (threads s)" "fix_load t p e d s = Some s'"
  shows "loc s' t \<noteq> Thrown q"
proof -
  obtain f where f: "frame_of s p = Some f" using assms(2) by (auto simp: fix_load_def bind_eq_Some_conv)
  let ?s1 = "put_frame p (f\<lparr>fstate := LOADING, fdata := Some d, fifo_position := True\<rparr>) s\<lparr>fifo_list := fifo_list s @ [p]\<rparr>"
  obtain r s2 where r: "load_page p d ?s1 = Some (r, s2)" "(if r then Some (set_at t (Read_page p e) s2) else page_loaded t p e s2) = Some s'"
    using assms(2) f by (auto simp: fix_load_def Let_def bind_eq_Some_conv)
  have "threads s2 = threads s" using r(1) by (auto simp: load_page_def Let_def bind_eq_Some_conv split: if_splits)
  then show ?thesis using r(2) assms(1) page_loaded_loc [of t s2 p e s'] by (auto split: if_splits)
qed

lemma fix_evicted_loc:
  assumes "t < length (threads s)" "fix_evicted t p e v s = Some s'"
  shows "loc s' t \<noteq> Thrown q"
proof -
  obtain d s1 where d: "drop_victim v s = Some (d, s1)" "fix_load t p e d s1 = Some s'"
    using assms(2) by (auto simp: fix_evicted_def bind_eq_Some_conv)
  have "threads s1 = threads s" using d(1) by (auto simp: drop_victim_def bind_eq_Some_conv split: if_splits)
  then show ?thesis using fix_load_loc [OF _ d(2)] assms(1) by simp
qed

lemma evict_page_loc:
  assumes "t < length (threads s)" "find_page_to_evict s = Some v" "evict_page t p e s = Some s'"
  shows "loc s' t \<noteq> Thrown q"
proof -
  obtain f where f: "frame_of s v = Some f" using assms(2) find_page_to_evictD by blast
  let ?s1 = "put_frame v (f\<lparr>fstate := EVICTING\<rparr>) s"
  consider c where "s' = set_at t (Write_victim p e v c) ?s1" | "fix_evicted t p e v ?s1 = Some s'"
    using assms(2,3) f by (auto simp: evict_page_def Let_def bind_eq_Some_conv split: if_splits)
  then show ?thesis using assms(1) fix_evicted_loc [of t ?s1] by cases simp_all
qed

text \<open>
  The page for which a step looks for memory: a new page in \<open>fix_page\<close>, at once or when the last
  thread that waited for a failed page starts again, and a page whose victim has been claimed
  while it was written out.
\<close>

fun asks_for_memory :: "bm \<Rightarrow> nat \<Rightarrow> action \<Rightarrow> pid option" where
  "asks_for_memory s t (Fix_page p e) = (if frame_of s p = None then Some p else None)"
| "asks_for_memory s t Continue =
     (case loc s t of
        Waited p e \<Rightarrow> if state_of s p = Some NEW \<and> users s p = 1 then Some p else None
      | Written_victim p e v \<Rightarrow> if state_of s v = Some RELOADED then Some p else None
      | _ \<Rightarrow> None)"
| "asks_for_memory s t a = None"

text \<open>The frame of a page without its user: gone, or still there for those who wait for it.\<close>

definition given_up :: "pid \<Rightarrow> bm \<Rightarrow> bm" where
  "given_up p s =
     (case frame_of s p of
        None \<Rightarrow> s
      | Some f \<Rightarrow>
          if num_users f = 1 then drop_frame p s
          else put_frame p (f\<lparr>num_users := num_users f - 1, exclusively_locked := False, mutex_writer := None\<rparr>) s)"

text \<open>The state after the exception: the victim that has been claimed is an ordinary page again.\<close>

definition after_throw :: "nat \<Rightarrow> pid \<Rightarrow> bm \<Rightarrow> bm" where
  "after_throw t p s =
     set_at t (Thrown p) (given_up p
       (case victim_of (loc s t) of
          None \<Rightarrow> s
        | Some v \<Rightarrow> (case frame_of s v of None \<Rightarrow> s | Some f \<Rightarrow> put_frame v (f\<lparr>fstate := LOADED\<rparr>) s)))"

lemma given_up_set_at [simp]: "given_up p (set_at t l s) = set_at t l (given_up p s)"
  by (simp add: given_up_def split: option.split)

lemma evict_page_throws:
  assumes core: "inv_core s" and t: "t < length (threads s)" and f: "frame_of s p = Some f"
    and lock: "exclusively_locked f" "mutex_writer f = Some t"
    and ev: "evict_page t p e s = Some s'"
  shows "(loc s' t = Thrown q \<longleftrightarrow> q = p \<and> (\<forall>v. \<not> can_evict s v))
    \<and> (loc s' t = Thrown q \<longrightarrow> s' = set_at t (Thrown p) (given_up p s))"
proof (cases "find_page_to_evict s")
  case None
  have "fix_failed t p s = Some s'" using ev None by (simp add: evict_page_def)
  then have s': "s' = set_at t (Thrown p) (given_up p s)"
    using f lock by (auto simp: fix_failed_def dec_num_users_def given_up_def page_unlock_def require_bind_if Let_def
        bind_eq_Some_conv split: if_splits)
  then have "loc s' t = Thrown p"
    using t by (auto simp: loc_def given_up_def split: option.split)
  then show ?thesis using s' None find_page_to_evict_None [OF core] by auto
next
  case (Some v)
  then show ?thesis using evict_page_loc [OF t Some ev] find_page_to_evict_None [OF core] by auto
qed

lemma room_full:
  assumes "bm_inv s"
  shows "page_count s \<le> length (bufferframes s) \<longleftrightarrow> card (in_memory s) = page_count s"
    "card (in_memory s) < length (bufferframes s) \<Longrightarrow> card (in_memory s) = page_count s"
  using assms card_frames(2) [of s] by (auto simp: bm_inv_def inv_room_def)

lemma drop_put_new:
  assumes "frame_of s p = None"
  shows "drop_frame p (put_frame p f s) = s"
proof -
  have "AList.delete k (AList.update k a al) = al" if "k \<notin> fst ` set al" for k and a :: frame and al :: "(pid \<times> frame) list"
    using that by (induction al) auto
  then show ?thesis using assms by (simp add: put_frame_def drop_frame_def frame_of_dom)
qed

lemma fix_new_throws:
  assumes inv: "bm_inv s" and t: "t < length (threads s)" and at: "in_user_code (loc s t)"
    and p: "frame_of s p = None" and new: "fix_new t p e s = Some s'"
  shows "(loc s' t = Thrown q \<longleftrightarrow> q = p \<and> card (in_memory s) = page_count s \<and> (\<forall>v. \<not> can_evict s v))
    \<and> (loc s' t = Thrown q \<longrightarrow> s' = set_at t (Thrown p) s)"
proof -
  have core: "inv_core s" using inv by (simp add: bm_inv_def)
  let ?f = "page_lock True t (inc_num_users new_frame)"
  let ?s1 = "put_frame p ?f s"
  have n1: "length (bufferframes ?s1) - 1 = length (bufferframes s)" using length_new [OF p] by simp
  have evictable: "can_evict ?s1 v \<longleftrightarrow> can_evict s v" for v
    using p by (simp add: can_evict_def page_lock_def inc_num_users_def new_frame_def)
  show ?thesis
  proof (cases "length (bufferframes s) < page_count s")
    case True
    then have "fix_load t p e (length (bufferframes s)) ?s1 = Some s'" using new p n1 by (simp add: fix_new_def Let_def)
    then show ?thesis using fix_load_loc [of t ?s1 p e _ s' q] t True room_full(1) [OF inv] by simp
  next
    case False
    then have ev: "evict_page t p e (set_at t (Waiting_locked p e) ?s1) = Some s'"
      using new p n1 by (simp add: fix_new_def Let_def)
    have c: "card (in_memory s) = page_count s" using False room_full(1) [OF inv] by simp
    have f: "frame_of (set_at t (Waiting_locked p e) ?s1) p = Some ?f"
      "exclusively_locked ?f" "mutex_writer ?f = Some t" "num_users ?f = 1"
      by (simp_all add: page_lock_def inc_num_users_def new_frame_def)
    have g: "given_up p ?s1 = s" using drop_put_new [OF p] f(4) by (simp add: given_up_def)
    have "loc s' t = Thrown q \<longleftrightarrow> q = p \<and> (\<forall>v. \<not> can_evict s v)" "loc s' t = Thrown q \<Longrightarrow> s' = set_at t (Thrown p) s"
      using evict_page_throws [OF new_frame_core(1) [OF core t at p] _ f(1-3) ev, of q] t evictable by (simp_all add: g)
    then show ?thesis using c by blast
  qed
qed

lemma written_victim_throws:
  assumes inv: "bm_inv s" and t: "t < length (threads s)" and at: "loc s t = Written_victim p e v"
    and ex: "continue t s = Some s'"
  shows "(loc s' t = Thrown q \<longleftrightarrow> q = p \<and> state_of s v = Some RELOADED \<and> card (in_memory s) = page_count s
      \<and> (\<forall>w. state_of s w = Some LOADED \<or> w = v \<longrightarrow> users s w > 0))
    \<and> (loc s' t = Thrown q \<longrightarrow> s' = after_throw t p s)"
proof -
  have core: "inv_core s" using inv by (simp add: bm_inv_def)
  note inv' = inv_coreD [OF core]
  have th0: "at_loc (threads s ! t) = Written_victim p e v" using at by (simp add: loc_def)
  have old: "state_of s p = Some NEW" "state_of s v \<in> {Some EVICTING, Some RELOADED}"
    using inv_core_thread_ok [OF core t] th0 by (simp_all add: thread_ok_def)
  obtain g where g: "frame_of s v = Some g" "fstate g = EVICTING \<or> fstate g = RELOADED" using old(2) by (auto simp: state_of_def)
  obtain f where f: "frame_of s p = Some f" "fstate f = NEW" using old(1) by (auto simp: state_of_def)
  have pv: "p \<noteq> v" using f g by auto
  have "excl_refs p (threads s ! t) > 0" using th0 by (simp add: excl_refs_def)
  then have wr: "mutex_writer f = Some t" "exclusively_locked f"
    using thread_mutexD [OF inv'(2) t f(1)] by (auto simp: mutex_wf_def split: if_splits)
  have "slot_of s p = None" using f frame_lists [OF core f(1)] by (simp add: lists_wf_def slot_of_def)
  then have "p \<notin> in_memory s" "p \<in> fst ` set (bufferframes s)" using frame_of_dom [of s p] f(1) by (auto simp: in_memory_def)
  then have "in_memory s \<subset> fst ` set (bufferframes s)" using in_memory_dom [of s] by blast
  then have "card (in_memory s) < length (bufferframes s)"
    using psubset_card_mono [of "fst ` set (bufferframes s)"] card_frames(1) [OF core] by simp
  then have full: "card (in_memory s) = page_count s" by (rule room_full(2) [OF inv])
  have ev: "evict_written t p e v s = Some s'" using ex at by (simp add: continue_def)
  show ?thesis
  proof (cases "fstate g = EVICTING")
    case True
    then have "fix_evicted t p e v s = Some s'" using ev g(1) by (simp add: evict_written_def)
    then have "loc s' t \<noteq> Thrown q" by (rule fix_evicted_loc [OF t])
    moreover have "state_of s v \<noteq> Some RELOADED" using True frame_views(5) [OF g(1)] by simp
    ultimately show ?thesis by blast
  next
    case False
    then have r: "fstate g = RELOADED" using g(2) by simp
    let ?s1 = "put_frame v (g\<lparr>fstate := LOADED\<rparr>) s"
    let ?s2 = "set_at t (Waiting_locked p e) ?s1"
    have k: "inv_core ?s2" by (rule keeps_core [OF unreload_ok [OF core t at g(1) r]])
    have evs: "evict_page t p e ?s2 = Some s'" using ev g(1) r by (simp add: evict_written_def)
    have f2: "frame_of ?s2 p = Some f" using f(1) pv by simp
    have can: "can_evict ?s1 w \<longleftrightarrow> (state_of s w = Some LOADED \<or> w = v) \<and> users s w = 0" for w
      using g(1) by (auto simp: can_evict_def state_of_def users_def split: option.splits)
    have "after_throw t p s = set_at t (Thrown p) (given_up p ?s1)" using at g(1) by (simp add: after_throw_def)
    moreover have "loc s' t = Thrown q \<longleftrightarrow> q = p \<and> (\<forall>w. \<not> can_evict ?s1 w)"
      "loc s' t = Thrown q \<Longrightarrow> s' = set_at t (Thrown p) (given_up p ?s1)"
      using evict_page_throws [OF k _ f2 wr(2,1) evs, of q] t by simp_all
    moreover have "state_of s v = Some RELOADED" using r frame_views(5) [OF g(1)] by simp
    ultimately show ?thesis using full can by auto
  qed
qed

lemma touch_threads: "touch p s = Some s' \<Longrightarrow> threads s' = threads s"
  by (auto simp: touch_def Let_def require_bind_if bind_eq_Some_conv split: if_splits)

lemma can_evict_views: "can_evict s v \<longleftrightarrow> state_of s v = Some LOADED \<and> users s v = 0"
  by (auto simp: can_evict_def state_of_def users_def split: option.split)

lemma fix_hit_loc:
  "t < length (threads s) \<Longrightarrow> fix_hit t p e f s = Some s' \<Longrightarrow> loc s' t \<noteq> Thrown q"
  by (auto simp: fix_hit_def Let_def touch_def require_bind_if bind_eq_Some_conv split: if_splits)

lemma fix_waited_throws:
  assumes inv: "bm_inv s" and t: "t < length (threads s)" and at: "loc s t = Waited p e" and ex: "continue t s = Some s'"
  shows "(loc s' t = Thrown q \<longleftrightarrow> q = p \<and> state_of s p = Some NEW \<and> users s p = 1 \<and> card (in_memory s) = page_count s
      \<and> (\<forall>w. state_of s w = Some LOADED \<longrightarrow> users s w > 0))
    \<and> (loc s' t = Thrown q \<longrightarrow> s' = after_throw t p s)"
proof -
  have core: "inv_core s" using inv by (simp add: bm_inv_def)
  have w: "fix_waited t p e s = Some s'" using ex at by (simp add: continue_def)
  then obtain f where f: "frame_of s p = Some f" by (auto simp: fix_waited_def bind_eq_Some_conv)
  note vf = frame_views [OF f]
  show ?thesis
  proof (cases "fstate f = NEW")
    case False
    then obtain y where "touch p s = Some y" "s' = set_at t (Lock_page p e) y"
      using w f by (auto simp: fix_waited_def bind_eq_Some_conv)
    then have "loc s' t \<noteq> Thrown q" using t touch_threads [of p s y] by simp
    then show ?thesis using False vf(5) by auto
  next
    case True
    obtain g s1 where g: "dec_num_users f = Some g" "num_users g = num_users f - 1" "\<not> fifo_position g" "\<not> lru_position g"
      "s1 = (if num_users g = 0 then drop_frame p s else put_frame p g s)" "keeps s (set_at t Ready s1)"
      by (rule release_new_ok [OF core t at f True])
    have pos: "num_users f > 0" using g(1) by (auto simp: dec_num_users_def require_bind_if split: if_splits)
    have inv1: "bm_inv (set_at t Ready s1)" using g(6) inv by (simp add: bm_inv_def keeps_def)
    have t1: "t < length (threads s1)" using g(5) t by simp
    have again: "bm_fix_page t p e s1 = Some s'"
      using w f True g(1,3,4,5) by (cases "num_users g = 0") (simp_all add: fix_waited_def)
    show ?thesis
    proof (cases "num_users f = 1")
      case False
      then have "frame_of s1 p = Some g" using g(2,5) pos by simp
      then have "loc s' t \<noteq> Thrown q" using again fix_hit_loc [OF t1] by (simp add: bm_fix_page_def)
      then show ?thesis using False vf(1) by simp
    next
      case one: True
      then have s1: "s1 = drop_frame p s" using g(2,5) by simp
      have new: "fix_new t p e (set_at t Ready s1) = Some s'" 
      proof -
        have "bm_fix_page t p e (set_at t Ready s1) = Some s'" using again by simp
        then show ?thesis using s1 unfolding bm_fix_page_def by (simp del: set_at_commute)
      qed
      have "fdata f = None" using True frame_lists [OF core f] by (simp add: lists_wf_def)
      then have im: "in_memory s1 = in_memory s" using f s1 by (auto simp: in_memory_def slot_of_def)
      have can: "(\<forall>v. \<not> can_evict s1 v) \<longleftrightarrow> (\<forall>w. state_of s w = Some LOADED \<longrightarrow> users s w > 0)"
      proof -
        have "can_evict s1 v \<longleftrightarrow> v \<noteq> p \<and> state_of s v = Some LOADED \<and> users s v = 0" for v
          using s1 by (simp add: can_evict_views)
        moreover have "state_of s p \<noteq> Some LOADED" using vf(5) True by simp
        ultimately show ?thesis by (metis not_gr_zero)
      qed
      have "after_throw t p s = set_at t (Thrown p) s1" using at f one s1 by (simp add: after_throw_def given_up_def)
      moreover have "in_memory (set_at t Ready s1) = in_memory s" using im by (simp add: in_memory_def)
      moreover note fix_new_throws [OF inv1 _ _ _ new, of q]
      ultimately show ?thesis using t1 s1 can True one vf(1,5) by auto
    qed
  qed
qed

text \<open>C5: \<open>buffer_full_error\<close> is thrown exactly when all memory is in use and no page can be evicted
  at that moment, wherever in \<open>fix_page\<close> a thread looks for memory: when it makes the frame of a
  page, when it is the last that waited for a page that has failed and starts again, and when it
  comes back from writing out a victim that has been claimed meanwhile. In every reachable state
  a step that is not a user's write leads its thread to the exception for \<open>p\<close> if and only if the
  step looks for memory for \<open>p\<close>, \<open>page_count\<close> pages have memory, and every loaded page and the
  claimed victim have a user. It then changes this and nothing else: the thread is back in its code
  with the exception; the claimed victim is an ordinary loaded page again; and the frame of \<open>p\<close> is
  removed or, when others wait for it, stays without the thread's use and lock. For a page that
  had no frame nothing but the thread has changed.\<close>

theorem bm_buffer_full:
  assumes "bm_reachable s" "enabled s t a" "exec t a s = Some s'" "\<And>r bs. a \<noteq> Write_data r bs"
  shows "(loc s' t = Thrown p \<longleftrightarrow> asks_for_memory s t a = Some p \<and> card (in_memory s) = page_count s
        \<and> (\<forall>q. state_of s q = Some LOADED \<or> victim_of (loc s t) = Some q \<longrightarrow> users s q > 0))
    \<and> (loc s' t = Thrown p \<longrightarrow> s' = after_throw t p s)"
proof -
  have inv: "bm_inv s" by (rule reachable_inv [OF assms(1)])
  have t: "t < length (threads s)" using assms(2) by (cases a) simp_all
  show ?thesis
  proof (cases a)
    case (Fix_page q e)
    then have at: "in_user_code (loc s t)" using assms(2) by simp
    have v: "victim_of (loc s t) = None" using at by (cases "loc s t") simp_all
    have can: "(\<forall>v. \<not> can_evict s v) \<longleftrightarrow> (\<forall>q. state_of s q = Some LOADED \<longrightarrow> users s q > 0)"
      by (auto simp: can_evict_views)
    show ?thesis
    proof (cases "frame_of s q")
      case None
      then have "fix_new t q e s = Some s'" using assms(3) Fix_page by (simp add: bm_fix_page_def)
      from fix_new_throws [OF inv t at None this, of p] show ?thesis
        using Fix_page None v can by (auto simp: after_throw_def given_up_def)
    next
      case (Some f)
      then have "fix_hit t q e f s = Some s'" using assms(3) Fix_page by (simp add: bm_fix_page_def)
      from fix_hit_loc [OF t this] show ?thesis using Fix_page Some by simp
    qed
  next
    case (Unfix_page q d)
    then have "loc s' t \<noteq> Thrown p" using assms(3) t by (auto simp: unfix_unlock_def bind_eq_Some_conv)
    then show ?thesis using Unfix_page by simp
  next
    case Continue
    then have ex: "continue t s = Some s'" using assms(3) by simp
    consider (w) q e where "loc s t = Waited q e" | (v) q e v where "loc s t = Written_victim q e v"
      | (no) "asks_for_memory s t a = None" "loc s' t \<noteq> Thrown p"
    proof (cases "loc s t")
      case (Read_done q e)
      then show thesis using that(3) ex page_loaded_loc [OF t] Continue by (auto simp: continue_def)
    next
      case (Unfixing q d)
      then show thesis using that(3) ex t Continue by (auto simp: continue_def unfix_finish_def bind_eq_Some_conv)
    next
      case (Lock_page q e)
      then show thesis using that(3) ex t Continue by (auto simp: continue_def bind_eq_Some_conv loc_def)
    qed (use that ex t Continue in \<open>auto simp: continue_def bind_eq_Some_conv write_out_page_def read_page_def require_bind_if split: if_splits\<close>)
    then show ?thesis
    proof cases
      case w
      then show ?thesis using fix_waited_throws [OF inv t w ex, of p] Continue by auto
    next
      case v
      then show ?thesis using written_victim_throws [OF inv t v ex, of p] Continue by auto
    next
      case no
      then show ?thesis by simp
    qed
  qed (use assms(4) in blast)
qed

definition throw_steps :: "(nat \<times> action) list" where
  "throw_steps = [(0, Fix_page 1 True), (0, Continue), (0, Continue), (0, Continue), (0, Write_data 1 [7, 7]),
     (0, Unfix_page 1 True), (0, Continue), (1, Fix_page 0 False), (2, Fix_page 0 False),
     (0, Fix_page 1 False), (0, Continue), (1, Continue)]"

lemma bm_buffer_full_witness:
  "\<exists>s s'. run (bm_init 2 1 (\<lambda>_. [1, 2, 3, 4]) 3) throw_steps = Some s \<and> exec 1 Continue s = Some s'
     \<and> loc s' 1 = Thrown 0 \<and> s' = after_throw 1 0 s \<and> users s 0 = 2 \<and> state_of s 1 = Some RELOADED"
proof -
  have w: "whole_pages 2 (\<lambda>_. [1, 2, 3, 4])" by (simp add: whole_pages_def)
  have c: "map_option (\<lambda>s. (enabled s 1 Continue, users s 0, state_of s 1, map_option (\<lambda>s'. loc s' 1) (exec 1 Continue s)))
      (run (bm_init 2 1 (\<lambda>_. [1, 2, 3, 4]) 3) throw_steps) = Some (True, 2, Some RELOADED, Some (Thrown 0))" by code_simp
  then obtain s where s: "run (bm_init 2 1 (\<lambda>_. [1, 2, 3, 4]) 3) throw_steps = Some s"
    and r: "(enabled s 1 Continue, users s 0, state_of s 1, map_option (\<lambda>s'. loc s' 1) (exec 1 Continue s))
      = (True, 2, Some RELOADED, Some (Thrown 0))" by (auto simp only: map_option_eq_Some)
  then obtain s' where s': "exec 1 Continue s = Some s'" "loc s' 1 = Thrown 0" by auto
  have "bm_reachable s" by (rule run_reachable [OF bm_reachable.init [OF w zero_less_numeral] s])
  from bm_buffer_full [OF this _ s'(1), of 0] r s'(2) have "s' = after_throw 1 0 s" by auto
  then show ?thesis using s s' r by blast
qed

section \<open>The destructor\<close>

lemma write_frames_ok:
  assumes "distinct (map fst fs)"
    "\<And>q f. (q, f) \<in> set fs \<Longrightarrow> on_disk s q \<and> (\<exists>d. fdata f = Some d \<and> d < length (loaded_pages s) \<and> length (loaded_pages s ! d) = page_size s)"
  shows "\<exists>s'. write_frames fs s = Some s'
    \<and> (\<forall>q. stored s' q = (case map_of fs q of Some f \<Rightarrow> loaded_pages s ! the (fdata f) | None \<Rightarrow> stored s q))"
  using assms
proof (induction fs arbitrary: s)
  case Nil
  then show ?case by simp
next
  case (Cons x fs)
  obtain p f where x: "x = (p, f)" by (cases x)
  obtain d where d: "fdata f = Some d" "d < length (loaded_pages s)" "length (loaded_pages s ! d) = page_size s" and od: "on_disk s p"
    using Cons.prems(2) [of p f] x by auto
  let ?c = "files s (bm_segment_id p)"
  let ?b = "loaded_pages s ! d"
  define c' where "c' = take (page_offset s p) ?c @ ?b @ drop (page_offset s p + page_size s) ?c"
  note w = stored_write [OF od d(3) c'_def]
  have len: "page_offset s p + page_size s \<le> length ?c" "bm_segment_id p \<in> set (segment_files s)" using od by (simp_all add: on_disk_def)
  have wo: "write_out_page p ?b s = Some (set_file p c' s)"
    using len memcpy_page [OF len(1) d(3)] by (simp add: write_out_page_def c'_def)
  have L: "loaded_pages (set_file p c' s) = loaded_pages s" by simp
  have ih: "\<exists>s'. write_frames fs (set_file p c' s) = Some s'
    \<and> (\<forall>q. stored s' q = (case map_of fs q of Some f \<Rightarrow> loaded_pages (set_file p c' s) ! the (fdata f) | None \<Rightarrow> stored (set_file p c' s) q))"
  proof (rule Cons.IH)
    show "distinct (map fst fs)" using Cons.prems(1) by simp
    show "on_disk (set_file p c' s) q \<and> (\<exists>d. fdata g = Some d \<and> d < length (loaded_pages (set_file p c' s))
        \<and> length (loaded_pages (set_file p c' s) ! d) = page_size (set_file p c' s))" if "(q, g) \<in> set fs" for q g
      using Cons.prems(2) [of q g] that w(2) by simp
  qed
  then obtain s' where s': "write_frames fs (set_file p c' s) = Some s'"
    "\<And>q. stored s' q = (case map_of fs q of Some f \<Rightarrow> loaded_pages s ! the (fdata f) | None \<Rightarrow> stored (set_file p c' s) q)"
    using ih unfolding L by blast
  have "map_of fs p = None" using Cons.prems(1) x by (simp add: map_of_eq_None_iff)
  then have "stored s' q = (case map_of (x # fs) q of Some f \<Rightarrow> loaded_pages s ! the (fdata f) | None \<Rightarrow> stored s q)" for q
    using s'(2) [of q] w(1) [of q] d(1) x by (auto split: option.split)
  then show ?case using x d(1,2) wo s'(1) by auto
qed

lemma no_user_loaded:
  assumes core: "inv_core s" and idle: "\<And>t. t < length (threads s) \<Longrightarrow> in_user_code (loc s t) \<and> held_by s t = []"
    and f: "frame_of s p = Some f"
  shows "fstate f = LOADED"
proof -
  note i = inv_coreD [OF core]
  have quiet: "refs p (threads s ! t) = 0" "victim_of (loc s t) = None" "loading (loc s t) = None" if "t < length (threads s)" for p t
  proof -
    note user = user_codeD [of "loc s t" p True]
    have "page_of (at_loc (threads s ! t)) = None" "holds (threads s ! t) = []"
      using idle [OF that] user by (simp_all add: loc_def held_by_def)
    then show "refs p (threads s ! t) = 0" by (simp add: refs_def at_page_def fixes_of_def)
    show "victim_of (loc s t) = None" "loading (loc s t) = None" using idle [OF that] user by simp_all
  qed
  have u0: "users s p = 0" for p
  proof -
    have "\<forall>x\<in>set (threads s). refs p x = 0" using quiet(1) by (auto simp: in_set_conv_nth)
    then show ?thesis using i(1) by (simp add: inv_users_def sum_list_eq_0_iff)
  qed
  show ?thesis
  proof (cases "fstate f")
    case NEW
    then show ?thesis using inv_statesD(1) [OF i(6), of p] frame_views(5) [OF f] u0 by simp
  next
    case LOADING
    then show ?thesis using inv_statesD(2) [OF i(6), of p] frame_views(5) [OF f] quiet(3) by auto
  next
    case EVICTING
    then show ?thesis using inv_statesD(3) [OF i(6), of p] frame_views(5) [OF f] quiet(2) by auto
  next
    case RELOADED
    then show ?thesis using inv_statesD(3) [OF i(6), of p] frame_views(5) [OF f] quiet(2) by auto
  qed
qed

lemma loaded_frame_memory:
  assumes core: "inv_core s" and f: "frame_of s q = Some f" "fstate f = LOADED"
  shows "on_disk s q \<and> (\<exists>d. fdata f = Some d \<and> d < length (loaded_pages s) \<and> length (loaded_pages s ! d) = page_size s)"
proof -
  note i = inv_coreD [OF core]
  have "fstate f \<noteq> NEW" using f(2) by simp
  then obtain d where d: "fdata f = Some d" "slot_of s q = Some d" by (rule frame_slot [OF core f(1)])
  have "is_loaded s q" using f by (simp add: is_loaded_iff)
  then have "on_disk s q" using i(7) by (simp add: inv_data_def)
  moreover have "d < length (loaded_pages s)" by (rule in_mem_set(2) [OF i(4) d(2)])
  ultimately show ?thesis using d i(4) by (auto simp: inv_memory_def)
qed

text \<open>C4: nothing is lost when the manager is destroyed. When every thread is back in its code and
  has unfixed all its pages, the destructor succeeds (every frame has its bytes and its file is
  open), and the files then hold the contents of every page, written to or not.\<close>

theorem bm_destroy_persists:
  assumes "bm_reachable s" "\<And>t. t < length (threads s) \<Longrightarrow> in_user_code (loc s t) \<and> held_by s t = []"
  shows "\<exists>s'. bm_destroy s = Some s' \<and> (\<forall>p. stored s' p = contents s p)"
proof -
  have core: "inv_core s" using reachable_inv [OF assms(1)] by (simp add: bm_inv_def)
  note i = inv_coreD [OF core]
  have loaded: "fstate f = LOADED" if "frame_of s p = Some f" for p f
    by (rule no_user_loaded [OF core assms(2) that])
  have keys: "distinct (map fst (bufferframes s))" using i(4) by (simp add: inv_memory_def)
  have frame: "frame_of s p = Some f \<longleftrightarrow> (p, f) \<in> set (bufferframes s)" for p f
    using keys by (simp add: frame_of_def map_of_eq_Some_iff)
  have ok: "on_disk s q \<and> (\<exists>d. fdata f = Some d \<and> d < length (loaded_pages s) \<and> length (loaded_pages s ! d) = page_size s)"
    if "(q, f) \<in> set (bufferframes s)" for q f
    using loaded_frame_memory [OF core] loaded that frame by simp
  obtain s' where s': "bm_destroy s = Some s'"
    "\<And>q. stored s' q = (case frame_of s q of Some f \<Rightarrow> loaded_pages s ! the (fdata f) | None \<Rightarrow> stored s q)"
    using write_frames_ok [OF keys ok] by (auto simp: bm_destroy_def frame_of_def)
  have "stored s' p = contents s p" for p
  proof (cases "frame_of s p")
    case None
    then show ?thesis using s'(2) [of p] by (simp add: contents_def is_loaded_iff)
  next
    case (Some f)
    then have "is_loaded s p" using loaded [OF Some] by (simp add: is_loaded_iff)
    moreover obtain d where "fdata f = Some d" using ok Some frame by blast
    ultimately show ?thesis using s'(2) [of p] Some by (simp add: contents_def in_mem_def slot_of_def)
  qed
  then show ?thesis using s'(1) by blast
qed

lemma bm_destroy_persists_witness:
  "\<exists>s s'. run (bm_init 2 1 (\<lambda>_. [1, 2, 3, 4]) 1) (take 7 sample_steps) = Some s \<and> bm_destroy s = Some s'
     \<and> stored s' 1 = contents s 1"
proof -
  have w: "whole_pages 2 (\<lambda>_. [1, 2, 3, 4])" by (simp add: whole_pages_def)
  have c: "map_option (\<lambda>s. (length (threads s), loc s 0, held_by s 0))
      (run (bm_init 2 1 (\<lambda>_. [1, 2, 3, 4]) 1) (take 7 sample_steps)) = Some (1, Ready, [])" by code_simp
  then obtain s where s: "run (bm_init 2 1 (\<lambda>_. [1, 2, 3, 4]) 1) (take 7 sample_steps) = Some s"
    "length (threads s) = 1" "loc s 0 = Ready" "held_by s 0 = []" by auto
  have r: "bm_reachable s" by (rule run_reachable [OF bm_reachable.init [OF w zero_less_numeral] s(1)])
  have "in_user_code (loc s t) \<and> held_by s t = []" if "t < length (threads s)" for t using that s by simp
  from bm_destroy_persists [OF r this] s(1) show ?thesis by blast
qed

end
