(* ===== verification/Buffer_Orphan.thy ===== *)
theory Buffer_Orphan
  imports Buffer_Properties
begin

text \<open>
  A new page that has failed and has two waiters is nobody's page: each waiter gives up its
  reference and takes it again in the same section, so that the count never falls to zero, the
  frame is never removed and nobody tries to load it again.
\<close>

fun waits_new :: "pid \<Rightarrow> location \<Rightarrow> bool" where
  "waits_new p (Wait_new q e) = (q = p)"
| "waits_new p (Waiting_locked q e) = (q = p)"
| "waits_new p (Waited q e) = (q = p)"
| "waits_new p _ = False"

fun makes_page :: "pid \<Rightarrow> location \<Rightarrow> bool" where
  "makes_page p (Write_victim q e v c) = (q = p)"
| "makes_page p (Written_victim q e v) = (q = p)"
| "makes_page p _ = False"

definition orphaned :: "bm \<Rightarrow> pid \<Rightarrow> bool" where
  "orphaned s p \<longleftrightarrow> state_of s p = Some NEW \<and> list_all (\<lambda>th. \<not> makes_page p (at_loc th)) (threads s)
     \<and> 2 \<le> length (filter (\<lambda>th. waits_new p (at_loc th)) (threads s))"

section \<open>What a section does to other pages\<close>

text \<open>A section of \<open>fix_page\<close> on \<open>q\<close> by thread \<open>t\<close>, seen from another page.\<close>

definition elsewhere :: "nat \<Rightarrow> pid \<Rightarrow> pid \<Rightarrow> bm \<Rightarrow> bm \<Rightarrow> bool" where
  "elsewhere t q p s s' \<longleftrightarrow> state_of s' p = state_of s p
     \<and> (\<exists>l. threads s' = (threads s)[t := (threads s ! t)\<lparr>at_loc := l\<rparr>] \<and> (page_of l = Some q \<or> l = Thrown q))"

lemma elsewhereI:
  assumes "state_of s' p = state_of s p" "threads s' = (threads s)[t := (threads s ! t)\<lparr>at_loc := l\<rparr>]"
    "page_of l = Some q \<or> l = Thrown q"
  shows "elsewhere t q p s s'"
  using assms by (auto simp: elsewhere_def)

lemma elsewhere_from:
  "elsewhere t q p s s' \<Longrightarrow> state_of s p = state_of s0 p \<Longrightarrow> threads s = threads s0 \<Longrightarrow> elsewhere t q p s0 s'"
  by (simp add: elsewhere_def)

lemma page_unlock_state: "page_unlock t f = Some g \<Longrightarrow> fstate g = fstate f"
  by (auto simp: page_unlock_def require_bind_if split: if_splits)

lemma dec_num_users_state: "dec_num_users f = Some g \<Longrightarrow> fstate g = fstate f"
  by (auto simp: dec_num_users_def require_bind_if split: if_splits)

lemma page_loaded_else:
  "page_loaded t q e s = Some s' \<Longrightarrow> p \<noteq> q \<Longrightarrow> elsewhere t q p s s'"
  by (auto simp: page_loaded_def bind_eq_Some_conv intro!: elsewhereI)

lemma fix_load_else:
  assumes "fix_load t q e d s = Some s'" "p \<noteq> q"
  shows "elsewhere t q p s s'"
proof -
  obtain f where f: "frame_of s q = Some f" using assms(1) by (auto simp: fix_load_def bind_eq_Some_conv)
  let ?s1 = "put_frame q (f\<lparr>fstate := LOADING, fdata := Some d, fifo_position := True\<rparr>) s\<lparr>fifo_list := fifo_list s @ [q]\<rparr>"
  obtain r s2 where r: "load_page q d ?s1 = Some (r, s2)" "(if r then Some (set_at t (Read_page q e) s2) else page_loaded t q e s2) = Some s'"
    using assms(1) f by (auto simp: fix_load_def Let_def bind_eq_Some_conv)
  have s2: "threads s2 = threads s" "state_of s2 p = state_of s p"
    using r(1) assms(2) by (auto simp: load_page_def Let_def bind_eq_Some_conv split: if_splits)
  show ?thesis
  proof (cases r)
    case True
    then have "s' = set_at t (Read_page q e) s2" using r(2) by simp
    then show ?thesis using s2 by (intro elsewhereI [where l = "Read_page q e"]) simp_all
  next
    case False
    then have "elsewhere t q p s2 s'" using r(2) page_loaded_else assms(2) by simp
    then show ?thesis using s2 elsewhere_from by simp
  qed
qed

lemma fix_failed_else:
  assumes "fix_failed t q s = Some s'" "p \<noteq> q"
  shows "elsewhere t q p s s'"
  using assms by (auto simp: fix_failed_def Let_def bind_eq_Some_conv intro!: elsewhereI [where l = "Thrown q"] split: if_splits)

lemma fix_evicted_else:
  assumes "fix_evicted t q e v s = Some s'" "p \<noteq> q" "p \<noteq> v"
  shows "elsewhere t q p s s'"
proof -
  obtain d s1 where d: "drop_victim v s = Some (d, s1)" "fix_load t q e d s1 = Some s'"
    using assms(1) by (auto simp: fix_evicted_def bind_eq_Some_conv)
  have "threads s1 = threads s" "state_of s1 p = state_of s p"
    using d(1) assms(3) by (auto simp: drop_victim_def bind_eq_Some_conv split: if_splits)
  then show ?thesis using fix_load_else [OF d(2) assms(2)] elsewhere_from by simp
qed

lemma evict_page_else:
  assumes "evict_page t q e s = Some s'" "p \<noteq> q" "state_of s p = Some NEW"
  shows "elsewhere t q p s s'"
proof (cases "find_page_to_evict s")
  case None
  then show ?thesis using assms fix_failed_else by (simp add: evict_page_def)
next
  case (Some v)
  obtain f where f: "frame_of s v = Some f" "fstate f = LOADED" using find_page_to_evictD [OF Some] by blast
  then have pv: "p \<noteq> v" using assms(3) by (auto simp: state_of_def)
  let ?s1 = "put_frame v (f\<lparr>fstate := EVICTING\<rparr>) s"
  consider c where "s' = set_at t (Write_victim q e v c) ?s1" | "fix_evicted t q e v ?s1 = Some s'"
    using assms(1) Some f by (auto simp: evict_page_def Let_def bind_eq_Some_conv split: if_splits)
  then show ?thesis
  proof cases
    case 1
    then show ?thesis using pv by (intro elsewhereI [where l = "Write_victim q e v c"]) simp_all
  next
    case 2
    then show ?thesis using fix_evicted_else [OF 2 assms(2) pv] elsewhere_from [of t q p ?s1 s' s] pv by simp
  qed
qed

lemma evict_written_else:
  assumes "evict_written t q e v s = Some s'" "p \<noteq> q" "state_of s p = Some NEW"
  shows "elsewhere t q p s s'"
proof -
  obtain f where f: "frame_of s v = Some f" "fstate f = EVICTING \<or> fstate f = RELOADED"
    using assms(1) by (auto simp: evict_written_def bind_eq_Some_conv require_def split: if_splits)
  then have pv: "p \<noteq> v" using assms(3) by (auto simp: state_of_def)
  show ?thesis
  proof (cases "fstate f = EVICTING")
    case True
    then show ?thesis using assms f fix_evicted_else pv by (simp add: evict_written_def)
  next
    case False
    let ?s1 = "put_frame v (f\<lparr>fstate := LOADED\<rparr>) s"
    have "evict_page t q e ?s1 = Some s'" using assms(1) f False by (simp add: evict_written_def)
    then show ?thesis using evict_page_else [of t q e ?s1 s' p] assms(2,3) pv elsewhere_from [of t q p ?s1 s' s] by simp
  qed
qed

lemma touch_else: "touch q s = Some s' \<Longrightarrow> state_of s' p = state_of s p \<and> threads s' = threads s"
  by (auto simp: touch_def bind_eq_Some_conv state_of_def split: if_splits)

lemma fix_hit_else:
  assumes "fix_hit t q e f s = Some s'" "p \<noteq> q"
  shows "elsewhere t q p s s'"
proof (cases "fstate f = NEW")
  case True
  then have "s' = set_at t (Wait_new q e) (put_frame q (inc_num_users f) s)"
    using assms(1) by (simp add: fix_hit_def Let_def inc_num_users_def)
  then show ?thesis using assms(2) by (intro elsewhereI [where l = "Wait_new q e"]) simp_all
next
  case False
  then obtain g s1 where "touch q (put_frame q g s) = Some s1" "s' = set_at t (Lock_page q e) s1"
    using assms(1) by (auto simp: fix_hit_def Let_def bind_eq_Some_conv inc_num_users_def)
  then show ?thesis
    using touch_else [of q "put_frame q g s" s1 p] assms(2) by (intro elsewhereI [where l = "Lock_page q e"]) simp_all
qed

lemma bm_fix_page_else:
  assumes "bm_fix_page t q e s = Some s'" "p \<noteq> q" "state_of s p = Some NEW"
  shows "elsewhere t q p s s'"
proof (cases "frame_of s q")
  case (Some f)
  then show ?thesis using assms fix_hit_else by (simp add: bm_fix_page_def)
next
  case None
  let ?s1 = "put_frame q (page_lock True t (inc_num_users new_frame)) s"
  have "fix_load t q e (length (bufferframes ?s1) - 1) ?s1 = Some s' \<or> evict_page t q e ?s1 = Some s'"
    using assms(1) None by (auto simp: bm_fix_page_def fix_new_def Let_def split: if_splits)
  then have "elsewhere t q p ?s1 s'" using fix_load_else evict_page_else assms(2,3) by auto
  then show ?thesis by (rule elsewhere_from) (use assms(2) in simp_all)
qed

lemma fix_waited_else:
  assumes "fix_waited t q e s = Some s'" "p \<noteq> q" "state_of s p = Some NEW"
  shows "elsewhere t q p s s'"
proof -
  obtain f where f: "frame_of s q = Some f" using assms(1) by (auto simp: fix_waited_def bind_eq_Some_conv)
  show ?thesis
  proof (cases "fstate f = NEW")
    case True
    then obtain g s1 where s1: "s1 = drop_frame q s \<or> s1 = put_frame q g s" "bm_fix_page t q e s1 = Some s'"
      using assms(1) f by (auto simp: fix_waited_def bind_eq_Some_conv split: if_splits)
    then have "state_of s1 p = state_of s p" "threads s1 = threads s" using assms(2) by auto
    then show ?thesis using bm_fix_page_else [OF s1(2) assms(2)] assms(3) elsewhere_from by simp
  next
    case False
    then obtain s1 where "touch q s = Some s1" "s' = set_at t (Lock_page q e) s1"
      using assms(1) f by (auto simp: fix_waited_def bind_eq_Some_conv)
    then show ?thesis using touch_else by (intro elsewhereI [where l = "Lock_page q e"]) simp_all
  qed
qed

section \<open>The waiters of a failed page\<close>

lemma filter_count:
  "length (filter P xs) = (\<Sum>x\<leftarrow>xs. if P x then 1 else 0)"
  by (induction xs) simp_all

lemma count_update:
  assumes "t < length xs" "P (xs ! t) \<Longrightarrow> P y"
  shows "length (filter P xs) \<le> length (filter P (xs[t := y]))"
  using sum_list_thread [OF assms(1), of "\<lambda>x. if P x then 1 else 0" y] assms(2)
  unfolding filter_count by (auto split: if_splits)

lemma orphaned_step:
  assumes "orphaned s p" "t < length (threads s)" "state_of s' p = Some NEW" "threads s' = (threads s)[t := th]"
    "\<not> makes_page p (at_loc th)" "waits_new p (loc s t) \<Longrightarrow> waits_new p (at_loc th)"
  shows "orphaned s' p \<and> (\<forall>u<length (threads s). waits_new p (loc s u) \<longrightarrow> waits_new p (loc s' u))"
proof -
  let ?W = "\<lambda>th. waits_new p (at_loc th)"
  have "length (filter ?W (threads s)) \<le> length (filter ?W (threads s'))"
    unfolding assms(4) by (rule count_update [OF assms(2)]) (use assms(6) in \<open>simp add: loc_def\<close>)
  moreover have "list_all (\<lambda>th. \<not> makes_page p (at_loc th)) (threads s')"
    using assms(1,2,4,5) by (auto simp: orphaned_def list_all_length nth_list_update)
  moreover have "waits_new p (loc s' u)" if "u < length (threads s)" "waits_new p (loc s u)" for u
    using that assms(2,4,6) by (cases "u = t") (simp_all add: loc_def)
  ultimately show ?thesis using assms(1,3) by (simp add: orphaned_def)
qed

lemma elsewhere_orphaned:
  assumes "orphaned s p" "t < length (threads s)" "elsewhere t q p s s'" "p \<noteq> q" "\<not> waits_new p (loc s t)"
  shows "orphaned s' p \<and> (\<forall>u<length (threads s). waits_new p (loc s u) \<longrightarrow> waits_new p (loc s' u))"
proof -
  obtain l where l: "threads s' = (threads s)[t := (threads s ! t)\<lparr>at_loc := l\<rparr>]" "page_of l = Some q \<or> l = Thrown q"
    "state_of s' p = state_of s p" using assms(3) by (auto simp: elsewhere_def)
  have "\<not> makes_page p l" using l(2) assms(4) by (cases l) auto
  then show ?thesis using orphaned_step [OF assms(1,2) _ l(1)] assms(1,5) l(3) by (simp add: orphaned_def)
qed

lemma orphaned_users:
  assumes "inv_users s" "orphaned s p"
  shows "2 \<le> users s p"
proof -
  have "(\<Sum>th\<leftarrow>threads s. if waits_new p (at_loc th) then 1 else 0) \<le> (\<Sum>th\<leftarrow>threads s. refs p th)"
  proof (rule sum_list_mono)
    fix th assume "th \<in> set (threads s)"
    show "(if waits_new p (at_loc th) then 1 else 0) \<le> refs p th"
      by (cases "at_loc th") (auto simp: refs_def at_page_def)
  qed
  then show ?thesis using assms by (simp add: orphaned_def filter_count inv_users_def)
qed

text \<open>A step that keeps the frame's state, on any page.\<close>

lemma same_state_orphaned:
  assumes "orphaned s p" "t < length (threads s)" "frame_of s q = Some f" "fstate g = fstate f"
    "s' = set_thread t th (put_frame q g s)" "\<not> makes_page p (at_loc th)" "waits_new p (loc s t) \<Longrightarrow> waits_new p (at_loc th)"
  shows "orphaned s' p \<and> (\<forall>u<length (threads s). waits_new p (loc s u) \<longrightarrow> waits_new p (loc s' u))"
proof (rule orphaned_step [OF assms(1,2) _ _ assms(6,7)])
  show "state_of s' p = Some NEW"
    using assms(1,3,4,5) frame_views(5) [OF assms(3)] by (auto simp: orphaned_def)
qed (use assms(5) in simp_all)

lemma orphaned_continue:
  assumes inv: "bm_inv s" and o: "orphaned s p" and t: "t < length (threads s)" and c: "continue t s = Some s'"
  shows "orphaned s' p \<and> (\<forall>u<length (threads s). waits_new p (loc s u) \<longrightarrow> waits_new p (loc s' u))"
proof -
  have core: "inv_core s" using inv by (simp add: bm_inv_def)
  have new: "state_of s p = Some NEW" using o by (simp add: orphaned_def)
  have ok: "loc_ok s (loc s t)" using inv_core_thread_ok [OF core t] by (simp add: thread_ok_def loc_def)
  have makes: "\<not> makes_page p (loc s t)" using o t by (simp add: orphaned_def list_all_length loc_def)
  show ?thesis
  proof (cases "loc s t")
    case (Wait_new q e)
    obtain f where f: "frame_of s q = Some f" "s' = set_at t (Waiting_locked q e) (put_frame q (page_lock True t f) s)"
      using c Wait_new by (auto simp: continue_def bind_eq_Some_conv)
    show ?thesis
      by (rule same_state_orphaned [OF o t f(1) _ f(2) [unfolded set_at_keeps]]) (use Wait_new in \<open>simp_all add: page_lock_def\<close>)
  next
    case (Waiting_locked q e)
    obtain f g where f: "frame_of s q = Some f" "page_unlock t f = Some g" "s' = set_at t (Waited q e) (put_frame q g s)"
      using c Waiting_locked by (auto simp: continue_def bind_eq_Some_conv)
    show ?thesis
      by (rule same_state_orphaned [OF o t f(1) page_unlock_state [OF f(2)] f(3) [unfolded set_at_keeps]]) (use Waiting_locked in simp_all)
  next
    case (Waited q e)
    have w: "fix_waited t q e s = Some s'" using c Waited by (simp add: continue_def)
    show ?thesis
    proof (cases "q = p")
      case False
      then show ?thesis
        using elsewhere_orphaned [OF o t fix_waited_else [OF w _ new]] Waited by simp
    next
      case True
      obtain f where f: "frame_of s p = Some f" "fstate f = NEW" using new by (auto simp: state_of_def)
      have "2 \<le> num_users f" using orphaned_users [OF inv_coreD(1) [OF core] o] frame_views(1) [OF f(1)] by simp
      then have "fix_waited t p e s = Some (set_at t (Wait_new p e)
          (put_frame p (inc_num_users (f\<lparr>num_users := num_users f - 1\<rparr>)) (put_frame p (f\<lparr>num_users := num_users f - 1\<rparr>) s)))"
        using f by (simp add: fix_waited_def dec_num_users_def bm_fix_page_def fix_hit_def Let_def inc_num_users_def)
      also have "\<dots> = Some (set_at t (Wait_new p e) (put_frame p f s))"
        using \<open>2 \<le> num_users f\<close> by (simp add: put_frame_def update_twice inc_num_users_def)
      finally have s': "s' = set_at t (Wait_new p e) (put_frame p f s)" using w True by simp
      show ?thesis
        by (rule same_state_orphaned [OF o t f(1) refl s' [unfolded set_at_keeps]]) simp_all
    qed
  next
    case (Write_victim q e v b)
    obtain s1 where s1: "write_out_page v b s = Some s1" "s' = set_at t (Written_victim q e v) s1"
      using c Write_victim by (auto simp: continue_def bind_eq_Some_conv)
    have "elsewhere t q p s s'"
      using s1 by (intro elsewhereI [where l = "Written_victim q e v"]) (auto simp: write_out_page_def bind_eq_Some_conv)
    then show ?thesis using elsewhere_orphaned [OF o t] makes Write_victim by simp
  next
    case (Written_victim q e v)
    have "evict_written t q e v s = Some s'" using c Written_victim by (simp add: continue_def)
    then show ?thesis using elsewhere_orphaned [OF o t evict_written_else [OF _ _ new]] makes Written_victim by simp
  next
    case (Read_page q e)
    obtain s1 where s1: "read_page q s = Some s1" "s' = set_at t (Read_done q e) s1"
      using c Read_page by (auto simp: continue_def bind_eq_Some_conv)
    have "elsewhere t q p s s'"
      using s1 by (intro elsewhereI [where l = "Read_done q e"]) (auto simp: read_page_def bind_eq_Some_conv)
    moreover have "p \<noteq> q" using ok Read_page new by auto
    ultimately show ?thesis using elsewhere_orphaned [OF o t] Read_page by simp
  next
    case (Read_done q e)
    have "page_loaded t q e s = Some s'" using c Read_done by (simp add: continue_def)
    moreover have "p \<noteq> q" using ok Read_done new by auto
    ultimately show ?thesis using elsewhere_orphaned [OF o t page_loaded_else] Read_done by simp
  next
    case (Lock_page q e)
    obtain f where f: "frame_of s q = Some f"
      "s' = set_holds t ((q, e, False) # held_by s t) (set_at t Ready (put_frame q (page_lock e t f) s))"
      using c Lock_page by (auto simp: continue_def bind_eq_Some_conv)
    then have s': "s' = set_thread t ((threads s ! t)\<lparr>at_loc := Ready, holds := (q, e, False) # held_by s t\<rparr>) (put_frame q (page_lock e t f) s)"
      using t by (simp add: set_at_eq set_holds_eq)
    show ?thesis by (rule same_state_orphaned [OF o t f(1) _ s']) (use Lock_page in \<open>simp_all add: page_lock_def\<close>)
  next
    case (Unfixing q d)
    obtain f g where f: "frame_of s q = Some f" "dec_num_users (if d then set_dirty f else f) = Some g"
      "s' = set_at t Ready (put_frame q g s)"
      using c Unfixing by (auto simp: continue_def unfix_finish_def bind_eq_Some_conv)
    have "fstate g = fstate f" using dec_num_users_state [OF f(2)] by (simp add: set_dirty_def split: if_splits)
    then show ?thesis
      by (rule same_state_orphaned [OF o t f(1) _ f(3) [unfolded set_at_keeps]]) (use Unfixing in simp_all)
  qed (use c in \<open>simp_all add: continue_def\<close>)
qed

lemma orphaned_exec:
  assumes inv: "bm_inv s" and o: "orphaned s p" and en: "enabled s t a" and e: "exec t a s = Some s'"
  shows "orphaned s' p \<and> (\<forall>u<length (threads s). waits_new p (loc s u) \<longrightarrow> waits_new p (loc s' u))"
proof (cases a)
  case (Fix_page q x)
  have t: "t < length (threads s)" and user: "in_user_code (loc s t)" using en Fix_page by simp_all
  have new: "state_of s p = Some NEW" using o by (simp add: orphaned_def)
  have nw: "\<not> waits_new p (loc s t)" using user by (cases "loc s t") simp_all
  have fx: "bm_fix_page t q x s = Some s'" using e Fix_page by simp
  show ?thesis
  proof (cases "q = p")
    case False
    then show ?thesis using elsewhere_orphaned [OF o t bm_fix_page_else [OF fx _ new]] nw by simp
  next
    case True
    obtain f where f: "frame_of s p = Some f" "fstate f = NEW" using new by (auto simp: state_of_def)
    have s': "s' = set_at t (Wait_new p x) (put_frame p (inc_num_users f) s)"
      using fx True f by (simp add: bm_fix_page_def fix_hit_def Let_def inc_num_users_def)
    show ?thesis
      by (rule same_state_orphaned [OF o t f(1) _ s' [unfolded set_at_keeps]]) (simp_all add: inc_num_users_def)
  qed
next
  case (Write_data q bs)
  have t: "t < length (threads s)" and user: "in_user_code (loc s t)" using en Write_data by simp_all
  obtain hs pgs where s': "s' = set_holds t hs (s\<lparr>loaded_pages := pgs\<rparr>)"
    using e Write_data by (auto simp: write_data_def bind_eq_Some_conv)
  have "threads s' = (threads s)[t := (threads s ! t)\<lparr>holds := hs\<rparr>]" "state_of s' p = state_of s p" using s' by simp_all
  then show ?thesis using orphaned_step [OF o t] o user t by (simp add: orphaned_def list_all_length loc_def)
next
  case (Unfix_page q d)
  have t: "t < length (threads s)" and user: "in_user_code (loc s t)" using en Unfix_page by simp_all
  obtain h where h: "unfix_unlock t q d (set_holds t (remove1 h (held_by s t)) s) = Some s'"
    using e Unfix_page by (auto simp: bind_eq_Some_conv)
  then obtain f g where f: "frame_of s q = Some f" "page_unlock t f = Some g"
    "s' = set_at t (Unfixing q d) (put_frame q g (set_holds t (remove1 h (held_by s t)) s))"
    by (auto simp: unfix_unlock_def bind_eq_Some_conv)
  then have s': "s' = set_thread t ((threads s ! t)\<lparr>holds := remove1 h (held_by s t), at_loc := Unfixing q d\<rparr>) (put_frame q g s)"
    using t by (simp add: set_at_eq set_holds_eq put_set_thread)
  show ?thesis
    by (rule same_state_orphaned [OF o t f(1) page_unlock_state [OF f(2)] s'])
       (use user in \<open>cases "loc s t"; simp\<close>)+
next
  case Continue
  then have "t < length (threads s)" "continue t s = Some s'" using en e by simp_all
  then show ?thesis by (rule orphaned_continue [OF inv o])
qed

lemma orphaned_run:
  assumes "bm_inv s" "orphaned s p" "run s as = Some s'"
  shows "bm_inv s' \<and> orphaned s' p \<and> length (threads s') = length (threads s)
    \<and> (\<forall>u<length (threads s). waits_new p (loc s u) \<longrightarrow> waits_new p (loc s' u))"
  using assms
proof (induction as arbitrary: s)
  case Nil
  then show ?case by simp
next
  case (Cons x as)
  obtain t a where x: "x = (t, a)" by (cases x)
  have en: "enabled s t a" using Cons.prems(3) x by (simp split: if_splits)
  obtain s1 where s1: "exec t a s = Some s1" "bm_inv s1" "length (threads s1) = length (threads s)"
    using bm_step_ok [OF Cons.prems(1) en] by blast
  note o1 = orphaned_exec [OF Cons.prems(1,2) en s1(1)]
  have r: "run s1 as = Some s'" using Cons.prems(3) x en s1(1) by simp
  show ?case using Cons.IH [OF s1(2) _ r] o1 s1(3) by auto
qed

text \<open>C3: a page that could not be loaded can be lost for good. When a new page has failed with two
  threads waiting for it and no thread making it (the eviction for it found its victim reloaded
  and threw), then in no run from there does any thread that waits for the page return from
  \<open>fix_page\<close>, with or without an exception, nor does any thread ever fix the page, however many
  pages could be evicted by then: a waiter gives up its reference and takes a new one under the
  same latch, so that the count never reaches zero and the frame is never removed.\<close>

theorem failed_page_lost:
  assumes "bm_reachable s" "orphaned s p" "t < length (threads s)" "waits_new p (loc s t)" "run s as = Some s'"
  shows "waits_new p (loc s' t) \<and> (\<forall>u<length (threads s). fixes_of p (held_by s' u) = 0) \<and> orphaned s' p"
proof -
  note r = orphaned_run [OF reachable_inv [OF assms(1)] assms(2,5)]
  have "fixes_of p (held_by s' u) = 0" if u: "u < length (threads s)" for u
  proof (rule ccontr)
    assume "fixes_of p (held_by s' u) \<noteq> 0"
    then obtain h where "h \<in> set (held_by s' u)" "fst h = p" by (auto simp: fixes_of_def filter_empty_conv)
    then have "is_loaded s' p" using held_page(1) [of s' u h] r u by auto
    moreover have "state_of s' p = Some NEW" using r by (simp add: orphaned_def)
    ultimately show False by (simp add: is_loaded_def)
  qed
  then show ?thesis using r assms(3,4) by blast
qed

definition lost_page_steps :: "(nat \<times> action) list" where
  "lost_page_steps = [(0, Fix_page 1 True), (0, Continue), (0, Continue), (0, Continue), (0, Write_data 1 [7, 7]),
     (0, Unfix_page 1 True), (0, Continue), (1, Fix_page 0 False), (2, Fix_page 0 False), (3, Fix_page 0 False),
     (0, Fix_page 1 False), (0, Continue), (1, Continue), (1, Continue), (0, Unfix_page 1 False), (0, Continue)]"

lemma failed_page_lost_witness:
  "\<exists>s. run (bm_init 2 1 (\<lambda>_. [1, 2, 3, 4]) 4) lost_page_steps = Some s \<and> can_evict s 1
     \<and> (\<forall>as s'. run s as = Some s' \<longrightarrow> waits_new 0 (loc s' 2))"
proof -
  have w: "whole_pages 2 (\<lambda>_. [1, 2, 3, 4])" by (simp add: whole_pages_def)
  have c: "map_option (\<lambda>s. (length (threads s), orphaned s 0, waits_new 0 (loc s 2), can_evict s 1))
      (run (bm_init 2 1 (\<lambda>_. [1, 2, 3, 4]) 4) lost_page_steps) = Some (4, True, True, True)" by code_simp
  then obtain s where s: "run (bm_init 2 1 (\<lambda>_. [1, 2, 3, 4]) 4) lost_page_steps = Some s"
    "length (threads s) = 4" "orphaned s 0" "waits_new 0 (loc s 2)" "can_evict s 1" by auto
  have r: "bm_reachable s" by (rule run_reachable [OF bm_reachable.init [OF w zero_less_numeral] s(1)])
  have "waits_new 0 (loc s' 2)" if "run s as = Some s'" for as s'
    using failed_page_lost [OF r s(3) _ s(4) that] s(2) by simp
  then show ?thesis using s by blast
qed

end
