(* ===== verification/Slot.thy ===== *)
theory Slot
  imports Prelude_DB "HOL-Library.Word"
begin

unbundle bit_operations_syntax

text \<open>
  Tuple identifiers and the slots of a slotted page
  (\<^verbatim>\<open>src/task-slotted-pages/include/slotted_page/slotted_page.h\<close>): both are 64-bit words with
  bit fields. The lemmas say which fields an operation sets and which it keeps.
\<close>

section \<open>Tuple identifiers\<close>

type_synonym tid = "64 word"

definition mk_tid :: "64 word \<Rightarrow> 16 word \<Rightarrow> tid" where
  "mk_tid page slot = push_bit 16 page XOR (ucast slot AND 0xFFFF)"

definition tid_page_id :: "tid \<Rightarrow> 16 word \<Rightarrow> 64 word" where
  "tid_page_id v segment_id = drop_bit 16 v XOR push_bit 48 (ucast segment_id)"

definition tid_segment_page_id :: "tid \<Rightarrow> 64 word" where
  "tid_segment_page_id v = drop_bit 16 v"

definition tid_slot :: "tid \<Rightarrow> 16 word" where
  "tid_slot v = ucast (v AND 0xFFFF)"

text \<open>A page id: the segment in the upper 16 bits, the page within the segment below.\<close>

definition page_in_segment :: "16 word \<Rightarrow> 64 word \<Rightarrow> 64 word" where
  "page_in_segment segment_id n = push_bit 48 (ucast segment_id) XOR n"

definition get_segment_page_id :: "64 word \<Rightarrow> 64 word" where
  "get_segment_page_id page_id = page_id AND 0xFFFFFFFFFFFF"

definition get_segment_id :: "64 word \<Rightarrow> 16 word" where
  "get_segment_id page_id = ucast (drop_bit 48 page_id)"

section \<open>Slots\<close>

type_synonym slot = "64 word"

definition EMPTY_NON_REDIRECT_SLOT :: slot where
  "EMPTY_NON_REDIRECT_SLOT = 0xFF00000000000000"

definition UNSET_OFFSET_MASK :: slot where
  "UNSET_OFFSET_MASK = 0xFFFF000000FFFFFF"

definition UNSET_SIZE_MASK :: slot where
  "UNSET_SIZE_MASK = 0xFFFFFFFFFF000000"

definition is_redirect :: "slot \<Rightarrow> bool" where
  "is_redirect v \<longleftrightarrow> drop_bit 56 v \<noteq> 0xFF"

definition is_redirect_target :: "slot \<Rightarrow> bool" where
  "is_redirect_target v \<longleftrightarrow> drop_bit 48 v AND 0xFF \<noteq> 0"

definition get_size :: "slot \<Rightarrow> 32 word" where
  "get_size v = ucast (v AND 0xFFFFFF)"

definition get_offset :: "slot \<Rightarrow> 32 word" where
  "get_offset v = ucast (drop_bit 24 v AND 0xFFFFFF)"

definition is_empty :: "slot \<Rightarrow> bool" where
  "is_empty v \<longleftrightarrow> v = EMPTY_NON_REDIRECT_SLOT"

definition set_offset :: "32 word \<Rightarrow> slot \<Rightarrow> slot" where
  "set_offset off v = (v AND UNSET_OFFSET_MASK) XOR push_bit 24 (ucast off)"

definition set_size :: "32 word \<Rightarrow> slot \<Rightarrow> slot" where
  "set_size sz v = (v AND UNSET_SIZE_MASK) XOR ucast sz"

definition set_slot :: "32 word \<Rightarrow> 32 word \<Rightarrow> bool \<Rightarrow> slot" where
  "set_slot off sz target =
     ((0 XOR (ucast sz AND 0xFFFFFF)) XOR push_bit 24 (ucast off AND 0xFFFFFF))
       XOR push_bit 48 (if target then 0xFF else 0) XOR push_bit 56 0xFF"

definition as_redirect_tid :: "slot \<Rightarrow> tid" where
  "as_redirect_tid v = v"

definition set_redirect_tid :: "tid \<Rightarrow> slot option" where
  "set_redirect_tid t = do { require (0xFF - drop_bit 56 t > 0); Some t }"

definition mark_as_redirect_target :: "bool \<Rightarrow> slot \<Rightarrow> slot" where
  "mark_as_redirect_target target v =
     (let v = v AND NOT (push_bit 48 0xFF) in if target then v XOR push_bit 48 0xFF else v)"

section \<open>Masks as bit fields\<close>

lemma masks:
  "(0xFF :: 64 word) = mask 8" "(0xFFFF :: 64 word) = mask 16" "(0xFFFFFF :: 64 word) = mask 24"
  "(0xFFFFFFFFFFFF :: 64 word) = mask 48"
  by (simp_all add: mask_eq_exp_minus_1)

lemma slot_masks:
  "EMPTY_NON_REDIRECT_SLOT = push_bit 56 (mask 8)"
  "UNSET_OFFSET_MASK = NOT (push_bit 24 (mask 24))"
  "UNSET_SIZE_MASK = NOT (mask 24)"
  unfolding EMPTY_NON_REDIRECT_SLOT_def UNSET_OFFSET_MASK_def UNSET_SIZE_MASK_def
  by (code_simp, code_simp, code_simp)

lemma is_redirect_bits: "is_redirect v \<longleftrightarrow> (\<exists>n < 8. \<not> bit v (56 + n))"
proof -
  have "drop_bit 56 v = mask 8 \<longleftrightarrow> (\<forall>n < 8. bit v (56 + n))"
    unfolding bit_eq_iff
    by (auto simp: bit_drop_bit_eq bit_mask_iff dest: bit_imp_le_length)
  then show ?thesis by (simp add: is_redirect_def masks)
qed

lemma is_redirect_target_bits: "is_redirect_target v \<longleftrightarrow> (\<exists>n < 8. bit v (48 + n))"
proof -
  have nz: "x \<noteq> 0 \<longleftrightarrow> (\<exists>m. bit x m)" for x :: "64 word"
    by (metis bit_0_eq bit_eqI bot_apply bot_bool_def)
  have "bit (drop_bit 48 v AND mask 8) m \<longleftrightarrow> m < 8 \<and> bit v (48 + m)" for m
    by (auto simp: bit_and_iff bit_drop_bit_eq bit_mask_iff o_def)
  then show ?thesis unfolding is_redirect_target_def masks nz by blast
qed

lemma is_redirect_cong: "(\<And>n. n < 8 \<Longrightarrow> bit v (56 + n) = bit w (56 + n)) \<Longrightarrow> is_redirect v = is_redirect w"
  by (auto simp: is_redirect_bits)

lemma is_redirect_target_cong:
  "(\<And>n. n < 8 \<Longrightarrow> bit v (48 + n) = bit w (48 + n)) \<Longrightarrow> is_redirect_target v = is_redirect_target w"
  by (auto simp: is_redirect_target_bits)

text \<open>A value that fits into a field of 24 bits.\<close>

definition fits24 :: "32 word \<Rightarrow> bool" where
  "fits24 w \<longleftrightarrow> unat w < 2 ^ 24"

lemma fits24_bits: "fits24 w \<Longrightarrow> bit w m \<Longrightarrow> m < 24"
proof -
  assume w: "fits24 w" and b: "bit w m"
  have "take_bit 24 (unat w) = unat w" using w unfolding fits24_def by (simp only: take_bit_nat_eq_self_iff)
  moreover have "bit (unat w) m" using b by (simp add: bit_unsigned_iff bit_imp_le_length)
  ultimately show "m < 24" by (metis bit_take_bit_iff)
qed

lemma fits24I: "(\<And>m. bit w m \<Longrightarrow> m < 24) \<Longrightarrow> fits24 w"
proof -
  assume b: "\<And>m. bit w m \<Longrightarrow> m < 24"
  have "take_bit 24 (unat w) = unat w"
    by (rule bit_eqI) (auto simp: bit_take_bit_iff bit_unsigned_iff dest: b)
  then show ?thesis unfolding fits24_def by (simp only: take_bit_nat_eq_self_iff)
qed

lemma get_size_bit: "bit (get_size v) n \<longleftrightarrow> n < 24 \<and> bit v n"
  by (auto simp: get_size_def masks bit_simps dest: bit_imp_le_length)

lemma get_offset_bit: "bit (get_offset v) n \<longleftrightarrow> n < 24 \<and> bit v (24 + n)"
  by (auto simp: get_offset_def masks bit_simps dest: bit_imp_le_length)

lemma fits24_fields: "fits24 (get_size v)" "fits24 (get_offset v)"
  by (auto intro!: fits24I simp: get_size_bit get_offset_bit)

section \<open>What the operations set and keep\<close>

named_theorems slot_fields "the fields of a slot after an operation"

lemma get_size_set_slot [slot_fields]: "fits24 sz \<Longrightarrow> get_size (set_slot off sz t) = sz"
  by (rule bit_eqI) (auto simp: get_size_bit set_slot_def masks bit_simps dest: fits24_bits)

lemma get_offset_set_slot [slot_fields]: "fits24 off \<Longrightarrow> get_offset (set_slot off sz t) = off"
  by (rule bit_eqI) (auto simp: get_offset_bit set_slot_def masks bit_simps dest: fits24_bits)

lemma is_redirect_set_slot [slot_fields]: "\<not> is_redirect (set_slot off sz t)"
  by (auto simp: is_redirect_bits set_slot_def masks bit_simps)

lemma is_redirect_target_set_slot [slot_fields]: "is_redirect_target (set_slot off sz t) = t"
  by (auto simp: is_redirect_target_bits set_slot_def masks bit_simps intro: exI [of _ 0])

lemma get_offset_set_offset [slot_fields]: "fits24 off \<Longrightarrow> get_offset (set_offset off v) = off"
  by (rule bit_eqI) (auto simp: get_offset_bit set_offset_def slot_masks bit_simps dest: fits24_bits)

lemma get_size_set_offset [slot_fields]: "get_size (set_offset off v) = get_size v"
  by (rule bit_eqI) (auto simp: get_size_bit set_offset_def slot_masks bit_simps)

lemma is_redirect_set_offset [slot_fields]: "fits24 off \<Longrightarrow> is_redirect (set_offset off v) = is_redirect v"
  by (rule is_redirect_cong) (auto simp: set_offset_def slot_masks bit_simps dest: fits24_bits)

lemma is_redirect_target_set_offset [slot_fields]:
  "fits24 off \<Longrightarrow> is_redirect_target (set_offset off v) = is_redirect_target v"
  by (rule is_redirect_target_cong) (auto simp: set_offset_def slot_masks bit_simps dest: fits24_bits)

lemma get_size_set_size [slot_fields]: "fits24 sz \<Longrightarrow> get_size (set_size sz v) = sz"
  by (rule bit_eqI) (auto simp: get_size_bit set_size_def slot_masks bit_simps dest: fits24_bits)

lemma get_offset_set_size [slot_fields]: "fits24 sz \<Longrightarrow> get_offset (set_size sz v) = get_offset v"
  by (rule bit_eqI) (auto simp: get_offset_bit set_size_def slot_masks bit_simps dest: fits24_bits)

lemma is_redirect_set_size [slot_fields]: "fits24 sz \<Longrightarrow> is_redirect (set_size sz v) = is_redirect v"
  by (rule is_redirect_cong) (auto simp: set_size_def slot_masks bit_simps dest: fits24_bits)

lemma is_redirect_target_set_size [slot_fields]:
  "fits24 sz \<Longrightarrow> is_redirect_target (set_size sz v) = is_redirect_target v"
  by (rule is_redirect_target_cong) (auto simp: set_size_def slot_masks bit_simps dest: fits24_bits)

lemma mark_fields [slot_fields]:
  "get_size (mark_as_redirect_target t v) = get_size v"
  "get_offset (mark_as_redirect_target t v) = get_offset v"
  "is_redirect (mark_as_redirect_target t v) = is_redirect v"
  "is_redirect_target (mark_as_redirect_target t v) = t"
proof -
  show "get_size (mark_as_redirect_target t v) = get_size v"
    by (rule bit_eqI) (auto simp: get_size_bit mark_as_redirect_target_def Let_def masks bit_simps)
  show "get_offset (mark_as_redirect_target t v) = get_offset v"
    by (rule bit_eqI) (auto simp: get_offset_bit mark_as_redirect_target_def Let_def masks bit_simps)
  show "is_redirect (mark_as_redirect_target t v) = is_redirect v"
    by (rule is_redirect_cong) (auto simp: mark_as_redirect_target_def Let_def masks bit_simps)
  show "is_redirect_target (mark_as_redirect_target t v) = t"
    by (auto simp: is_redirect_target_bits mark_as_redirect_target_def Let_def masks bit_simps intro: exI [of _ 0])
qed

lemma empty_fields [slot_fields]:
  "get_size EMPTY_NON_REDIRECT_SLOT = 0" "get_offset EMPTY_NON_REDIRECT_SLOT = 0"
  "\<not> is_redirect EMPTY_NON_REDIRECT_SLOT" "\<not> is_redirect_target EMPTY_NON_REDIRECT_SLOT"
proof -
  show "get_size EMPTY_NON_REDIRECT_SLOT = 0" by (rule bit_eqI) (auto simp: get_size_bit slot_masks bit_simps)
  show "get_offset EMPTY_NON_REDIRECT_SLOT = 0" by (rule bit_eqI) (auto simp: get_offset_bit slot_masks bit_simps)
  show "\<not> is_redirect EMPTY_NON_REDIRECT_SLOT" by (auto simp: is_redirect_bits slot_masks bit_simps)
  show "\<not> is_redirect_target EMPTY_NON_REDIRECT_SLOT" by (auto simp: is_redirect_target_bits slot_masks bit_simps)
qed

lemma not_empty_size: "get_size v \<noteq> 0 \<Longrightarrow> \<not> is_empty v"
  by (auto simp: is_empty_def slot_fields)

section \<open>Round trips\<close>

text \<open>The fields of a slot read back as they were written: \<open>set_slot\<close> followed by the
  getters, for offsets and sizes of 24 bits, and a mark added and removed again.\<close>

theorem slot_roundtrip:
  assumes "fits24 off" "fits24 sz"
  shows "get_offset (set_slot off sz t) = off \<and> get_size (set_slot off sz t) = sz
    \<and> is_redirect_target (set_slot off sz t) = t \<and> \<not> is_redirect (set_slot off sz t)
    \<and> mark_as_redirect_target True (set_slot off sz False) = set_slot off sz True
    \<and> mark_as_redirect_target False (set_slot off sz True) = set_slot off sz False"
proof -
  have "mark_as_redirect_target True (set_slot off sz False) = set_slot off sz True"
    by (rule bit_eqI) (auto simp: mark_as_redirect_target_def set_slot_def Let_def masks bit_simps)
  moreover have "mark_as_redirect_target False (set_slot off sz True) = set_slot off sz False"
    by (rule bit_eqI) (auto simp: mark_as_redirect_target_def set_slot_def Let_def masks bit_simps)
  ultimately show ?thesis using assms by (simp add: slot_fields)
qed

theorem slot_roundtrip_witness: "get_offset (set_slot 1000 24 True) = 1000 \<and> get_size (set_slot 1000 24 True) = 24"
  using slot_roundtrip [of 1000 24 True] by (simp add: fits24_def)

lemma mk_tid_fields:
  "tid_slot (mk_tid page slot) = slot"
  "tid_segment_page_id (mk_tid page slot) = get_segment_page_id page"
  "tid_page_id (mk_tid page slot) (get_segment_id page) = page"
proof -
  show "tid_slot (mk_tid page slot) = slot"
    by (rule bit_eqI) (auto simp: tid_slot_def mk_tid_def masks bit_simps dest: bit_imp_le_length)
  show "tid_segment_page_id (mk_tid page slot) = get_segment_page_id page"
    by (rule bit_eqI) (auto simp: tid_segment_page_id_def get_segment_page_id_def mk_tid_def masks bit_simps
        dest: bit_imp_le_length)
  show "tid_page_id (mk_tid page slot) (get_segment_id page) = page"
    by (rule bit_eqI) (auto simp: tid_page_id_def get_segment_id_def mk_tid_def masks bit_simps
        dest: bit_imp_le_length)
qed

text \<open>A tuple identifier made of a page id and a slot gives them back: the slot, the page
  within the segment, and with the segment the page id it was made of.\<close>

theorem tid_roundtrip:
  "tid_slot (mk_tid page slot) = slot
    \<and> tid_segment_page_id (mk_tid page slot) = get_segment_page_id page
    \<and> tid_page_id (mk_tid page slot) (get_segment_id page) = page"
  by (simp add: mk_tid_fields)

end
