(* ===== verification/Slotted_Page.thy ===== *)
theory Slotted_Page
  imports Slot
begin

text \<open>
  A slotted page (\<^verbatim>\<open>src/task-slotted-pages/src/slotted_page/slotted_page.cc\<close>): the header, the
  slot directory and the bytes of the frame. In memory the directory lies in front of the
  data, from byte 12 on; here it is the list \<open>slots\<close>, and \<open>page_image\<close> puts the two together.
  The assertion of \<open>get_continuous_free_space\<close> keeps them apart. A failing assertion, an
  access outside the page and an unsigned subtraction below zero have no result. The fields of
  the header are naturals, where the code has \<open>uint16_t\<close> for \<open>slot_count\<close> and \<open>first_free_slot\<close>
  and \<open>uint32_t\<close> for the other two: a slot takes 8 bytes of the page, so that on a page of less
  than \<open>2\<^sup>1\<^sup>9\<close> bytes no counter reaches its bound (\<open>directory_bound\<close>; larger pages, which the
  lemmas on one page admit, would wrap the counters in the code).
\<close>

type_synonym bytes = "8 word list"

record sp =
  slot_count :: nat
  first_free_slot :: nat
  data_start :: nat
  free_space :: nat
  slots :: "slot list"
  page_data :: bytes

definition sp_init :: "nat \<Rightarrow> sp" where
  "sp_init page_size = \<lparr>slot_count = 0, first_free_slot = 0, data_start = page_size,
     free_space = page_size - 12, slots = [], page_data = replicate page_size 0\<rparr>"

abbreviation slot_size :: "slot \<Rightarrow> nat" where "slot_size s \<equiv> unat (get_size s)"
abbreviation slot_offset :: "slot \<Rightarrow> nat" where "slot_offset s \<equiv> unat (get_offset s)"

definition put_slot :: "nat \<Rightarrow> slot \<Rightarrow> sp \<Rightarrow> sp option" where
  "put_slot i s p = do { require (i < length (slots p)); Some (p\<lparr>slots := (slots p)[i := s]\<rparr>) }"

definition memset :: "bytes \<Rightarrow> nat \<Rightarrow> 8 word \<Rightarrow> nat \<Rightarrow> bytes option" where
  "memset d at v n = memcpy d at (replicate n v) 0 n"

definition get_continuous_free_space :: "sp \<Rightarrow> nat option" where
  "get_continuous_free_space p = do {
     let last_slot_end = slot_count p * 8 + 12;
     require (data_start p \<ge> last_slot_end);
     Some (data_start p - last_slot_end) }"

section \<open>Compaction\<close>

definition move_slot :: "nat \<Rightarrow> nat \<Rightarrow> sp \<Rightarrow> sp option" where
  "move_slot i to p = do {
     s \<leftarrow> arr_get (slots p) i;
     d \<leftarrow> memmove (page_data p) to (slot_offset s) (slot_size s);
     put_slot i (set_offset (of_nat to) s) (p\<lparr>page_data := d\<rparr>) }"

definition live_slots :: "sp \<Rightarrow> nat list" where
  "live_slots p = filter (\<lambda>i. \<not> is_redirect (slots p ! i) \<and> \<not> is_empty (slots p ! i)) [0..<slot_count p]"

fun compact_loop :: "nat list \<Rightarrow> nat \<Rightarrow> nat \<Rightarrow> sp \<Rightarrow> (nat \<times> sp) option" where
  "compact_loop [] last_data_offset offset_shift p = Some (last_data_offset, p)"
| "compact_loop (i # js) last_data_offset offset_shift p = do {
     s \<leftarrow> arr_get (slots p) i;
     require (slot_offset s + slot_size s + offset_shift \<le> last_data_offset);
     let offset_shift = offset_shift + (last_data_offset - (slot_size s + slot_offset s + offset_shift));
     p \<leftarrow> move_slot i (slot_offset s + offset_shift) p;
     compact_loop js (slot_offset s + offset_shift) offset_shift p }"

definition descending :: "slot \<Rightarrow> int" where
  "descending s = - int (slot_offset s)"

definition compactify :: "nat \<Rightarrow> sp \<Rightarrow> sp option" where
  "compactify page_size p =
     (case sort_key (\<lambda>i. descending (slots p ! i)) (live_slots p) of
        [] \<Rightarrow> Some (p\<lparr>data_start := page_size\<rparr>)
      | i # js \<Rightarrow> do {
          s \<leftarrow> arr_get (slots p) i;
          (last_data_offset, offset_shift, p) \<leftarrow>
            (if slot_offset s + slot_size s < page_size
             then do {
               let offset_shift = page_size - (slot_offset s + slot_size s);
               p \<leftarrow> move_slot i (slot_offset s + offset_shift) p;
               Some (slot_offset s + offset_shift, offset_shift, p) }
             else Some (slot_offset s, 0, p));
          (last_data_offset, p) \<leftarrow> compact_loop js last_data_offset offset_shift p;
          Some (p\<lparr>data_start := last_data_offset\<rparr>) })"

definition compactify_below :: "nat \<Rightarrow> nat \<Rightarrow> sp \<Rightarrow> sp option" where
  "compactify_below n page_size p = do {
     c \<leftarrow> get_continuous_free_space p;
     if c < n then compactify page_size p else Some p }"

section \<open>allocate\<close>

text \<open>The search for the next free slot runs to the end of the directory: it keeps the last
  empty slot that it finds.\<close>

definition next_free_slot :: "sp \<Rightarrow> nat" where
  "next_free_slot p =
     (let ff = fold (\<lambda>i ff. if is_empty (slots p ! i) then i else ff)
                 [first_free_slot p + 1..<slot_count p] (first_free_slot p)
      in if ff = first_free_slot p then slot_count p else ff)"

definition new_slot :: "nat \<Rightarrow> nat \<Rightarrow> sp \<Rightarrow> (nat \<times> sp) option" where
  "new_slot n page_size p = do {
     let p = p\<lparr>first_free_slot := first_free_slot p + 1\<rparr>;
     require (free_space p \<ge> n + 8);
     p \<leftarrow> compactify_below (n + 8) page_size p;
     Some (slot_count p, p\<lparr>free_space := free_space p - (n + 8), slot_count := slot_count p + 1,
                           slots := slots p @ [EMPTY_NON_REDIRECT_SLOT]\<rparr>) }"

definition reuse_slot :: "nat \<Rightarrow> nat \<Rightarrow> sp \<Rightarrow> (nat \<times> sp) option" where
  "reuse_slot n page_size p = do {
     require (first_free_slot p < slot_count p);
     let slot_id = first_free_slot p;
     p \<leftarrow> compactify_below n page_size p;
     let p = p\<lparr>first_free_slot := next_free_slot p\<rparr>;
     require (free_space p \<ge> n);
     Some (slot_id, p\<lparr>free_space := free_space p - n\<rparr>) }"

definition sp_allocate :: "nat \<Rightarrow> nat \<Rightarrow> sp \<Rightarrow> (nat \<times> sp) option" where
  "sp_allocate n page_size p = do {
     (slot_id, p) \<leftarrow> (if first_free_slot p = slot_count p then new_slot n page_size p
                     else reuse_slot n page_size p);
     require (data_start p \<ge> n);
     let p = p\<lparr>data_start := data_start p - n\<rparr>;
     p \<leftarrow> put_slot slot_id (set_slot (of_nat (data_start p)) (of_nat n) False) p;
     d \<leftarrow> memset (page_data p) (data_start p) 0 n;
     Some (slot_id, p\<lparr>page_data := d\<rparr>) }"

section \<open>relocate\<close>

text \<open>The slot of a former redirect, of size 0 at offset 1: nothing is copied.\<close>

definition relocate_redirect :: "nat \<Rightarrow> nat \<Rightarrow> nat \<Rightarrow> sp \<Rightarrow> sp option" where
  "relocate_redirect slot_id n page_size p = do {
     require (free_space p \<ge> n);
     p \<leftarrow> put_slot slot_id EMPTY_NON_REDIRECT_SLOT p;
     p \<leftarrow> compactify_below n page_size p;
     require (data_start p \<ge> n);
     let p = p\<lparr>free_space := free_space p - n, data_start := data_start p - n\<rparr>;
     p \<leftarrow> put_slot slot_id (set_slot (of_nat (data_start p)) (of_nat n) False) p;
     d \<leftarrow> memset (page_data p) (data_start p) 0 n;
     Some (p\<lparr>page_data := d\<rparr>) }"

definition relocate_larger :: "nat \<Rightarrow> slot \<Rightarrow> nat \<Rightarrow> nat \<Rightarrow> sp \<Rightarrow> sp option" where
  "relocate_larger slot_id s n page_size p = do {
     buffer \<leftarrow> memcpy (replicate (slot_size s) 0) 0 (page_data p) (slot_offset s) (slot_size s);
     let p = p\<lparr>free_space := free_space p + slot_size s\<rparr>;
     require (free_space p \<ge> n);
     let p = (if slot_offset s = data_start p then p\<lparr>data_start := data_start p + slot_size s\<rparr> else p);
     p \<leftarrow> put_slot slot_id EMPTY_NON_REDIRECT_SLOT p;
     p \<leftarrow> compactify_below n page_size p;
     require (data_start p \<ge> n);
     let p = p\<lparr>free_space := free_space p - n, data_start := data_start p - n\<rparr>;
     p \<leftarrow> put_slot slot_id (set_slot (of_nat (data_start p)) (of_nat n) False) p;
     d \<leftarrow> memcpy (page_data p) (data_start p) buffer 0 (slot_size s);
     d \<leftarrow> memset d (data_start p + slot_size s) 0 (n - slot_size s);
     Some (p\<lparr>page_data := d\<rparr>) }"

definition relocate :: "nat \<Rightarrow> nat \<Rightarrow> nat \<Rightarrow> sp \<Rightarrow> sp option" where
  "relocate slot_id n page_size p = do {
     require (slot_id < slot_count p);
     s \<leftarrow> arr_get (slots p) slot_id;
     require (\<not> is_empty s);
     require (\<not> is_redirect s \<or> slot_size s = 0);
     if slot_size s = 0 \<and> slot_offset s = 1 then relocate_redirect slot_id n page_size p
     else if slot_size s = n then Some p
     else if slot_size s > n then do {
       require (\<not> is_redirect_target s \<or> n > 8);
       put_slot slot_id (set_size (of_nat n) s) (p\<lparr>free_space := free_space p + (slot_size s - n)\<rparr>) }
     else relocate_larger slot_id s n page_size p }"

section \<open>erase\<close>

text \<open>Give up the empty slots at the end of the directory, from slot \<open>n\<close> down.\<close>

fun trim_slots :: "nat \<Rightarrow> sp \<Rightarrow> sp" where
  "trim_slots 0 p = p"
| "trim_slots (Suc n) p =
     (if is_empty (slots p ! n)
      then trim_slots n (p\<lparr>slot_count := n, slots := take n (slots p), free_space := free_space p + 8\<rparr>)
      else p)"

definition sp_erase :: "nat \<Rightarrow> sp \<Rightarrow> sp option" where
  "sp_erase slot_id p = do {
     require (slot_id < slot_count p);
     s \<leftarrow> arr_get (slots p) slot_id;
     require (\<not> is_redirect s);
     require (\<not> is_empty s);
     let p = p\<lparr>free_space := free_space p + slot_size s\<rparr>;
     let p = (if slot_id < first_free_slot p then p\<lparr>first_free_slot := slot_id\<rparr> else p);
     let p = (if slot_offset s = data_start p then p\<lparr>data_start := data_start p + slot_size s\<rparr> else p);
     p \<leftarrow> put_slot slot_id EMPTY_NON_REDIRECT_SLOT p;
     Some (if slot_id = slot_count p - 1 then trim_slots (slot_count p) p else p) }"

end
