(* ===== verification/Slotted_Page_Compact.thy ===== *)
theory Slotted_Page_Compact
  imports Slotted_Page
begin

text \<open>
  The memory invariant of a slotted page and its compaction. A page is seen abstractly as the
  list of its entries, one for each slot of the directory; compaction keeps the entries and
  makes all free space continuous.
\<close>

section \<open>The abstract page\<close>

datatype entry = Free | Redirect tid | Record bool bytes

definition live :: "slot \<Rightarrow> bool" where
  "live s \<longleftrightarrow> \<not> is_redirect s \<and> \<not> is_empty s"

definition slot_bytes :: "bytes \<Rightarrow> slot \<Rightarrow> bytes" where
  "slot_bytes d s = take (slot_size s) (drop (slot_offset s) d)"

definition entry_of :: "bytes \<Rightarrow> slot \<Rightarrow> entry" where
  "entry_of d s =
     (if is_redirect s then Redirect (as_redirect_tid s) else if is_empty s then Free
      else Record (is_redirect_target s) (slot_bytes d s))"

definition entries :: "sp \<Rightarrow> entry list" where
  "entries p = map (entry_of (page_data p)) (slots p)"

definition used_size :: "slot \<Rightarrow> nat" where
  "used_size s = (if live s then slot_size s else 0)"

definition apart :: "slot \<Rightarrow> slot \<Rightarrow> bool" where
  "apart s t \<longleftrightarrow> slot_offset s + slot_size s \<le> slot_offset t \<or> slot_offset t + slot_size t \<le> slot_offset s"

definition sp_mem :: "nat \<Rightarrow> sp \<Rightarrow> bool" where
  "sp_mem ps p \<longleftrightarrow> ps < 2 ^ 24 \<and> length (page_data p) = ps \<and> length (slots p) = slot_count p
     \<and> slot_count p * 8 + 12 \<le> data_start p \<and> data_start p \<le> ps
     \<and> (\<forall>i < slot_count p. live (slots p ! i) \<longrightarrow> 0 < slot_size (slots p ! i)
          \<and> data_start p \<le> slot_offset (slots p ! i) \<and> slot_offset (slots p ! i) + slot_size (slots p ! i) \<le> ps)
     \<and> (\<forall>i < slot_count p. \<forall>j < slot_count p. i \<noteq> j \<longrightarrow> live (slots p ! i) \<longrightarrow> live (slots p ! j)
          \<longrightarrow> apart (slots p ! i) (slots p ! j))"

text \<open>The free space is what is left of the page.\<close>

definition sp_inv :: "nat \<Rightarrow> sp \<Rightarrow> bool" where
  "sp_inv ps p \<longleftrightarrow> sp_mem ps p
     \<and> free_space p + slot_count p * 8 + 12 + sum_list (map used_size (slots p)) = ps"

lemma sp_memD:
  assumes "sp_mem ps p"
  shows "ps < 2 ^ 24" "length (page_data p) = ps" "length (slots p) = slot_count p"
    "slot_count p * 8 + 12 \<le> data_start p" "data_start p \<le> ps"
  using assms by (simp_all add: sp_mem_def)

lemma sp_mem_live:
  assumes "sp_mem ps p" "i < slot_count p" "live (slots p ! i)"
  shows "0 < slot_size (slots p ! i)" "data_start p \<le> slot_offset (slots p ! i)"
    "slot_offset (slots p ! i) + slot_size (slots p ! i) \<le> ps"
  using assms by (auto simp: sp_mem_def)

lemma sp_mem_apart:
  "sp_mem ps p \<Longrightarrow> i < slot_count p \<Longrightarrow> j < slot_count p \<Longrightarrow> i \<noteq> j \<Longrightarrow> live (slots p ! i) \<Longrightarrow> live (slots p ! j)
    \<Longrightarrow> apart (slots p ! i) (slots p ! j)"
  by (auto simp: sp_mem_def)

lemma liveI: "\<not> is_redirect s \<Longrightarrow> 0 < slot_size s \<Longrightarrow> live s"
  by (metis live_def not_empty_size unsigned_0 less_irrefl)

lemma not_live_empty [simp]: "\<not> live EMPTY_NON_REDIRECT_SLOT"
  by (simp add: live_def is_empty_def)

lemma entry_of_empty [simp]: "entry_of d EMPTY_NON_REDIRECT_SLOT = Free"
  by (simp add: entry_of_def slot_fields is_empty_def)

lemma used_size_empty [simp]: "used_size EMPTY_NON_REDIRECT_SLOT = 0"
  by (simp add: used_size_def)

lemma entry_of_live: "live s \<Longrightarrow> entry_of d s = Record (is_redirect_target s) (slot_bytes d s)"
  by (simp add: live_def entry_of_def)

lemma entry_of_cong: "(live s \<Longrightarrow> slot_bytes d s = slot_bytes d' s) \<Longrightarrow> entry_of d s = entry_of d' s"
  by (auto simp: entry_of_def live_def)

lemma entries_nth: "i < length (slots p) \<Longrightarrow> entries p ! i = entry_of (page_data p) (slots p ! i)"
  by (simp add: entries_def)

section \<open>Block moves, byte by byte\<close>

lemma memcpy_nth:
  assumes "memcpy dst d src s n = Some ys" "k < length dst"
  shows "ys ! k = (if d \<le> k \<and> k < d + n then src ! (s + (k - d)) else dst ! k)"
proof -
  have b: "d + n \<le> length dst" "s + n \<le> length src" and ys: "ys = take d dst @ take n (drop s src) @ drop (d + n) dst"
    using assms by (auto simp: memcpy_def split: if_splits)
  show ?thesis using b assms(2) unfolding ys by (auto simp: nth_append)
qed

lemma take_drop_eqI:
  assumes "a + n \<le> length xs" "b + n \<le> length ys" "\<And>k. k < n \<Longrightarrow> xs ! (a + k) = ys ! (b + k)"
  shows "take n (drop a xs) = take n (drop b ys)"
  using assms by (intro nth_equalityI) auto

lemma of_nat_fits24: "n < 2 ^ 24 \<Longrightarrow> fits24 (of_nat n)" "n < 2 ^ 24 \<Longrightarrow> unat (of_nat n :: 32 word) = n"
proof -
  assume n: "n < 2 ^ 24"
  have "(2 ^ 24 :: nat) < 2 ^ 32" by simp
  then have "n < 2 ^ LENGTH(32)" using n by simp
  then show "unat (of_nat n :: 32 word) = n" by (simp only: unat_of_nat mod_less)
  then show "fits24 (of_nat n)" using n by (simp only: fits24_def)
qed

lemma set_offset_same: "set_offset (get_offset s) s = s"
  by (rule bit_eqI) (auto simp: set_offset_def slot_masks get_offset_bit bit_simps)

section \<open>The loop of the compaction\<close>

fun below :: "nat \<Rightarrow> nat list \<Rightarrow> slot list \<Rightarrow> bool" where
  "below b [] ss = True"
| "below b (i # js) ss = (slot_offset (ss ! i) + slot_size (ss ! i) \<le> b \<and> below (slot_offset (ss ! i)) js ss)"

lemma below_cong: "(\<And>i. i \<in> set js \<Longrightarrow> ss ! i = ts ! i) \<Longrightarrow> below b js ss = below b js ts"
  by (induction js arbitrary: b) auto

lemma below_le: "below b js ss \<Longrightarrow> j \<in> set js \<Longrightarrow> slot_offset (ss ! j) + slot_size (ss ! j) \<le> b"
  by (induction js arbitrary: b) force+

abbreviation sizes :: "nat list \<Rightarrow> slot list \<Rightarrow> nat" where
  "sizes js ss \<equiv> sum_list (map (\<lambda>i. slot_size (ss ! i)) js)"

lemma below_sizes: "below b js ss \<Longrightarrow> \<forall>j \<in> set js. a \<le> slot_offset (ss ! j) \<Longrightarrow> a \<le> b \<Longrightarrow> a + sizes js ss \<le> b"
  by (induction js arbitrary: b) fastforce+

text \<open>Slot \<open>i\<close> after the move: the same record somewhere in between \<open>lo\<close> and \<open>hi\<close>.\<close>

definition moved :: "nat \<Rightarrow> nat \<Rightarrow> sp \<Rightarrow> sp \<Rightarrow> nat \<Rightarrow> bool" where
  "moved lo hi p p' i \<longleftrightarrow> get_size (slots p' ! i) = get_size (slots p ! i)
     \<and> is_redirect (slots p' ! i) = is_redirect (slots p ! i)
     \<and> is_redirect_target (slots p' ! i) = is_redirect_target (slots p ! i)
     \<and> lo \<le> slot_offset (slots p' ! i) \<and> slot_offset (slots p' ! i) + slot_size (slots p ! i) \<le> hi
     \<and> slot_bytes (page_data p') (slots p' ! i) = slot_bytes (page_data p) (slots p ! i)"

lemma move_slot_ok:
  assumes "i < length (slots p)" "slot_offset (slots p ! i) + slot_size (slots p ! i) \<le> length (page_data p)"
    "to + slot_size (slots p ! i) \<le> length (page_data p)" "length (page_data p) < 2 ^ 24"
  shows "\<exists>d. move_slot i to p = Some (p\<lparr>page_data := d, slots := (slots p)[i := set_offset (of_nat to) (slots p ! i)]\<rparr>)
    \<and> length d = length (page_data p)
    \<and> (\<forall>k < length d. d ! k = (if to \<le> k \<and> k < to + slot_size (slots p ! i)
         then page_data p ! (slot_offset (slots p ! i) + (k - to)) else page_data p ! k))"
proof -
  let ?s = "slots p ! i"
  obtain d where d: "memcpy (page_data p) to (page_data p) (slot_offset ?s) (slot_size ?s) = Some d"
    using assms by (simp add: memcpy_def)
  then show ?thesis
    using assms(1) memcpy_nth [OF d] length_memcpy [OF d]
    by (intro exI [of _ d]) (simp add: move_slot_def memmove_def put_slot_def)
qed

lemma moved_apart:
  assumes "moved lo hi p p' i" "moved lo' hi' p p' j" "hi \<le> lo' \<or> hi' \<le> lo"
  shows "apart (slots p' ! i) (slots p' ! j)"
  using assms by (auto simp: moved_def apart_def)

lemma compact_loop_ok:
  assumes "distinct ids" "\<forall>i \<in> set ids. i < length (slots p)" "below b ids (slots p)" "lst = b + shift"
    "lst \<le> length (page_data p)" "length (page_data p) < 2 ^ 24"
  shows "\<exists>p'. compact_loop ids lst shift p = Some (lst - sizes ids (slots p), p')
    \<and> p' = p\<lparr>page_data := page_data p', slots := slots p'\<rparr>
    \<and> length (page_data p') = length (page_data p) \<and> length (slots p') = length (slots p)
    \<and> sizes ids (slots p) \<le> lst
    \<and> (\<forall>k < length (page_data p). lst \<le> k \<longrightarrow> page_data p' ! k = page_data p ! k)
    \<and> (\<forall>j. j \<notin> set ids \<longrightarrow> slots p' ! j = slots p ! j)
    \<and> (\<forall>i \<in> set ids. moved (lst - sizes ids (slots p)) lst p p' i)
    \<and> (\<forall>i \<in> set ids. \<forall>j \<in> set ids. i \<noteq> j \<longrightarrow> apart (slots p' ! i) (slots p' ! j))"
  using assms
proof (induction ids arbitrary: b lst shift p)
  case (Cons i js)
  let ?s = "slots p ! i" and ?L = "length (page_data p)"
  define z where "z = slot_size ?s"
  define off where "off = slot_offset ?s"
  define to where "to = lst - z"
  have i: "i < length (slots p)" and fit: "off + z \<le> b" and js: "below off js (slots p)" "i \<notin> set js"
    using Cons.prems by (simp_all add: z_def off_def)
  have to: "z \<le> lst" "off \<le> to" "to + z = lst" "to = off + (lst - (z + off + shift) + shift)"
    using fit Cons.prems(4) by (simp_all add: to_def)
  obtain d where d: "move_slot i to p = Some (p\<lparr>page_data := d, slots := (slots p)[i := set_offset (of_nat to) ?s]\<rparr>)"
      "length d = ?L"
      "\<forall>k < length d. d ! k = (if to \<le> k \<and> k < to + z then page_data p ! (off + (k - to)) else page_data p ! k)"
    using move_slot_ok [of i p to] i fit to Cons.prems(4,5,6) by (auto simp: z_def off_def)
  define p1 where "p1 = p\<lparr>page_data := d, slots := (slots p)[i := set_offset (of_nat to) ?s]\<rparr>"
  have s1: "slots p1 ! j = slots p ! j" if "j \<noteq> i" for j using that by (simp add: p1_def)
  have o24: "to < 2 ^ 24" using to(3) Cons.prems(5,6) by linarith
  have si: "slots p1 ! i = set_offset (of_nat to) ?s" using i by (simp add: p1_def)
  have f: "slot_offset (slots p1 ! i) = to" "get_size (slots p1 ! i) = get_size ?s"
      "is_redirect (slots p1 ! i) = is_redirect ?s" "is_redirect_target (slots p1 ! i) = is_redirect_target ?s"
    using of_nat_fits24 [OF o24] by (simp_all add: si slot_fields)
  have sz: "sizes js (slots p1) = sizes js (slots p)"
  proof -
    have "slots p1 ! x = slots p ! x" if "x \<in> set js" for x using s1 js(2) that by metis
    then show ?thesis by (metis (no_types, lifting) map_cong)
  qed
  have pre: "distinct js" "\<forall>i \<in> set js. i < length (slots p1)" "below off js (slots p1)"
      "to = off + (lst - (z + off + shift) + shift)" "to \<le> length (page_data p1)" "length (page_data p1) < 2 ^ 24"
  proof -
    have "\<And>j. j \<in> set js \<Longrightarrow> slots p1 ! j = slots p ! j" using s1 js(2) by metis
    then show "below off js (slots p1)" using js(1) below_cong by metis
  qed (use Cons.prems to d(2) in \<open>simp_all add: p1_def\<close>)
  have dd: "page_data p1 = d" "length (slots p1) = length (slots p)" by (simp_all add: p1_def)
  obtain p' where IH: "compact_loop js to (lst - (z + off + shift) + shift) p1 = Some (to - sizes js (slots p), p')"
      "p' = p1\<lparr>page_data := page_data p', slots := slots p'\<rparr>"
      "length (page_data p') = ?L" "length (slots p') = length (slots p)" "sizes js (slots p) \<le> to"
      "\<forall>k < ?L. to \<le> k \<longrightarrow> page_data p' ! k = d ! k" "\<forall>j. j \<notin> set js \<longrightarrow> slots p' ! j = slots p1 ! j"
      "\<forall>i \<in> set js. moved (to - sizes js (slots p)) to p1 p' i"
      "\<forall>i \<in> set js. \<forall>j \<in> set js. i \<noteq> j \<longrightarrow> apart (slots p' ! i) (slots p' ! j)"
    using Cons.IH [OF pre] unfolding sz dd d(2) by blast
  have run: "compact_loop (i # js) lst shift p = Some (to - sizes js (slots p), p')"
    using i fit to(4) Cons.prems(4) d(1) IH(1) by (simp add: z_def off_def p1_def add.commute add.left_commute)
  have eqs: "lst - sizes (i # js) (slots p) = to - sizes js (slots p)" "sizes (i # js) (slots p) \<le> lst"
    using to IH(5) by (simp_all add: z_def)
  have mi: "moved to lst p p' i"
  proof -
    have same: "slots p' ! i = slots p1 ! i" using IH(7) js(2) by blast
    have "take z (drop to (page_data p')) = take z (drop off (page_data p))"
    proof (rule take_drop_eqI)
      show "to + z \<le> length (page_data p')" using to(3) Cons.prems(5) IH(3) by linarith
      show "off + z \<le> ?L" using fit Cons.prems(4,5) by linarith
      show "page_data p' ! (to + k) = page_data p ! (off + k)" if "k < z" for k
      proof -
        have "to + k < ?L" using that to(3) Cons.prems(5) by linarith
        then have "page_data p' ! (to + k) = d ! (to + k)" using IH(6) by simp
        also have "\<dots> = page_data p ! (off + k)" using d(2,3) \<open>to + k < ?L\<close> that by simp
        finally show ?thesis .
      qed
    qed
    then have "slot_bytes (page_data p') (slots p' ! i) = slot_bytes (page_data p) ?s"
      unfolding slot_bytes_def same f(1,2) z_def off_def .
    then show ?thesis using IH(7) js(2) f to by (simp add: moved_def z_def)
  qed
  have mj: "moved (to - sizes js (slots p)) to p p' j" if j: "j \<in> set js" for j
  proof -
    have ne: "j \<noteq> i" using j js(2) by blast
    have "slot_offset (slots p ! j) + slot_size (slots p ! j) \<le> off" using below_le [OF js(1) j] .
    then have "slot_bytes d (slots p ! j) = slot_bytes (page_data p) (slots p ! j)"
      unfolding slot_bytes_def using to(2,3) Cons.prems(5) d(2,3) by (intro take_drop_eqI) auto
    then show ?thesis using bspec [OF IH(8) j] s1 [OF ne] by (simp add: moved_def) (simp add: p1_def)
  qed
  have ap: "apart (slots p' ! k) (slots p' ! l)" if "k \<in> set (i # js)" "l \<in> set (i # js)" "k \<noteq> l" for k l
    using that IH(9) moved_apart [OF mi mj] moved_apart [OF mj mi] by auto
  show ?case
    unfolding eqs(1)
  proof (intro exI [of _ p'] conjI ballI impI allI)
    show "p' = p\<lparr>page_data := page_data p', slots := slots p'\<rparr>" using IH(2) by (simp add: p1_def)
    show "page_data p' ! k = page_data p ! k" if "k < ?L" "lst \<le> k" for k
      using that IH(6) d(2,3) to by auto
    show "slots p' ! j = slots p ! j" if "j \<notin> set (i # js)" for j using that IH(7) s1 by auto
    show "moved (to - sizes js (slots p)) lst p p' k" if "k \<in> set (i # js)" for k
      using that mi mj to by (fastforce simp: moved_def)
  qed (use run eqs IH ap in simp_all)
qed (simp add: moved_def)

section \<open>The whole compaction\<close>

lemma descending_le: "descending s \<le> descending t \<longleftrightarrow> slot_offset t \<le> slot_offset s"
  by (simp only: descending_def neg_le_iff_le of_nat_le_iff)

lemma below_sorted:
  "sorted (map (\<lambda>i. descending (ss ! i)) ids) \<Longrightarrow> distinct ids
    \<Longrightarrow> \<forall>i \<in> set ids. 0 < slot_size (ss ! i) \<and> slot_offset (ss ! i) + slot_size (ss ! i) \<le> b
    \<Longrightarrow> \<forall>i \<in> set ids. \<forall>j \<in> set ids. i \<noteq> j \<longrightarrow> apart (ss ! i) (ss ! j) \<Longrightarrow> below b ids ss"
proof (induction ids arbitrary: b)
  case (Cons i js)
  have "slot_offset (ss ! j) + slot_size (ss ! j) \<le> slot_offset (ss ! i)" if j: "j \<in> set js" for j
  proof -
    have "slot_offset (ss ! j) \<le> slot_offset (ss ! i)" using Cons.prems(1) j by (simp add: descending_le)
    moreover have "apart (ss ! i) (ss ! j)" using Cons.prems(2,4) j by auto
    moreover have "0 < slot_size (ss ! i)" using Cons.prems(3) by simp
    ultimately show ?thesis by (auto simp: apart_def)
  qed
  then show ?case using Cons by simp
qed simp

text \<open>The separate first step is the loop's step, with the end of the page as the limit.\<close>

lemma compactify_loop:
  assumes ids: "sort_key (\<lambda>i. descending (slots p ! i)) (live_slots p) = i # js"
    and i: "i < length (slots p)" "slot_offset (slots p ! i) + slot_size (slots p ! i) \<le> ps" "length (page_data p) = ps"
  shows "compactify ps p =
    do { (lst, p') \<leftarrow> compact_loop (i # js) ps 0 p; Some (p'\<lparr>data_start := lst\<rparr>) }"
proof (cases "slot_offset (slots p ! i) + slot_size (slots p ! i) < ps")
  case True
  then show ?thesis
    using i by (simp add: compactify_def ids Let_def add.commute bind_assoc split: prod.splits)
next
  case False
  let ?s = "slots p ! i"
  have e: "slot_offset ?s + slot_size ?s = ps" using False i by simp
  have "memmove (page_data p) (slot_offset ?s) (slot_offset ?s) (slot_size ?s) = Some (page_data p)"
    using e i by (simp add: memmove_in)
  then have "move_slot i (slot_offset ?s) p = Some p"
    using i by (simp add: move_slot_def put_slot_def set_offset_same)
  then have "compact_loop (i # js) ps 0 p = compact_loop js (slot_offset ?s) 0 p"
    using e i by (simp flip: e)
  moreover have "compactify ps p = do { (lst, p') \<leftarrow> compact_loop js (slot_offset ?s) 0 p; Some (p'\<lparr>data_start := lst\<rparr>) }"
    using False i by (simp add: compactify_def ids)
  ultimately show ?thesis by simp
qed

lemma set_live_slots: "length (slots p) = slot_count p \<Longrightarrow>
    i \<in> set (live_slots p) \<longleftrightarrow> i < slot_count p \<and> live (slots p ! i)"
  by (auto simp: live_slots_def live_def)

lemma sizes_live: "length (slots p) = slot_count p \<Longrightarrow> sizes (live_slots p) (slots p) = sum_list (map used_size (slots p))"
proof -
  assume l: "length (slots p) = slot_count p"
  have "sum_list (map (\<lambda>i. slot_size (ss ! i)) (filter (\<lambda>i. \<not> is_redirect (ss ! i) \<and> \<not> is_empty (ss ! i)) is))
      = sum_list (map (\<lambda>i. used_size (ss ! i)) is)" for ss :: "slot list" and "is"
    by (induction "is") (auto simp: used_size_def live_def)
  then have "sizes (live_slots p) (slots p) = sum_list (map (\<lambda>i. used_size (slots p ! i)) [0..<slot_count p])"
    unfolding live_slots_def by simp
  also have "map (\<lambda>i. used_size (slots p ! i)) [0..<slot_count p] = map used_size (slots p)"
    using l by (intro nth_equalityI) auto
  finally show ?thesis .
qed

lemma compactify_ok:
  assumes m: "sp_mem ps p"
  shows "\<exists>p'. compactify ps p = Some p' \<and> sp_mem ps p' \<and> entries p' = entries p
    \<and> map used_size (slots p') = map used_size (slots p)
    \<and> p' = p\<lparr>page_data := page_data p', slots := slots p', data_start := data_start p'\<rparr>
    \<and> data_start p' + sum_list (map used_size (slots p)) = ps"
proof -
  define ids where "ids = sort_key (\<lambda>i. descending (slots p ! i)) (live_slots p)"
  note mm = sp_memD [OF m]
  have set_ids: "i \<in> set ids \<longleftrightarrow> i < slot_count p \<and> live (slots p ! i)" for i
    using set_live_slots [OF mm(3)] by (simp add: ids_def)
  have dist: "distinct ids" by (simp add: ids_def live_slots_def)
  have sum: "sizes ids (slots p) = sum_list (map used_size (slots p))"
    using sizes_live [OF mm(3)] sum_mset_sum_list [of "map (\<lambda>i. slot_size (slots p ! i)) ids"]
      sum_mset_sum_list [of "map (\<lambda>i. slot_size (slots p ! i)) (live_slots p)"]
    by (simp add: ids_def)
  show ?thesis
  proof (cases ids)
    case Nil
    have nl: "\<not> live (slots p ! i)" if "i < slot_count p" for i using that set_ids [of i] Nil by simp
    have "sp_mem ps (p\<lparr>data_start := ps\<rparr>)" using m nl by (simp add: sp_mem_def)
    moreover have "compactify ps p = Some (p\<lparr>data_start := ps\<rparr>)" using Nil by (simp add: compactify_def ids_def)
    moreover have "sum_list (map used_size (slots p)) = 0" using sum Nil by simp
    ultimately show ?thesis by (simp add: entries_def)
  next
    case (Cons i js)
    have ap: "\<forall>i \<in> set ids. \<forall>j \<in> set ids. i \<noteq> j \<longrightarrow> apart (slots p ! i) (slots p ! j)"
      using set_ids sp_mem_apart [OF m] by blast
    have rng: "\<forall>i \<in> set ids. 0 < slot_size (slots p ! i) \<and> slot_offset (slots p ! i) + slot_size (slots p ! i) \<le> ps"
      using set_ids sp_mem_live [OF m] by blast
    have lo: "\<forall>i \<in> set ids. data_start p \<le> slot_offset (slots p ! i)" using set_ids sp_mem_live [OF m] by blast
    have "sorted (map (\<lambda>i. descending (slots p ! i)) ids)" unfolding ids_def by (rule sorted_sort_key)
    from below_sorted [OF this dist rng ap] have bel: "below ps ids (slots p)" .
    have fits: "data_start p + sizes ids (slots p) \<le> ps" using below_sizes [OF bel lo] mm(5) by blast
    have il: "\<forall>i \<in> set ids. i < length (slots p)" using set_ids mm(3) by simp
    have pd: "ps \<le> length (page_data p)" "length (page_data p) < 2 ^ 24" using mm by simp_all
    obtain p1 where p1: "compact_loop ids ps 0 p = Some (ps - sizes ids (slots p), p1)"
        "p1 = p\<lparr>page_data := page_data p1, slots := slots p1\<rparr>"
        "length (page_data p1) = length (page_data p)" "length (slots p1) = length (slots p)"
        "\<forall>j. j \<notin> set ids \<longrightarrow> slots p1 ! j = slots p ! j"
        "\<forall>i \<in> set ids. moved (ps - sizes ids (slots p)) ps p p1 i"
        "\<forall>i \<in> set ids. \<forall>j \<in> set ids. i \<noteq> j \<longrightarrow> apart (slots p1 ! i) (slots p1 ! j)"
      using compact_loop_ok [OF dist il bel _ pd, of 0] by auto
    define p' where "p' = p1\<lparr>data_start := ps - sizes ids (slots p)\<rparr>"
    have run: "compactify ps p = Some p'"
      using compactify_loop [of p i js ps] Cons il rng mm(2) p1(1) by (simp add: ids_def p'_def)
    have hdr: "slot_count p1 = slot_count p" by (subst p1(2)) simp
    have live': "live (slots p1 ! k) \<longleftrightarrow> live (slots p ! k)" if k: "k < slot_count p" for k
    proof (cases "k \<in> set ids")
      case True
      then have "live (slots p ! k)" "0 < slot_size (slots p ! k)" using set_ids rng by auto
      moreover have "get_size (slots p1 ! k) = get_size (slots p ! k)" "is_redirect (slots p1 ! k) = is_redirect (slots p ! k)"
        using bspec [OF p1(6) True] by (simp_all add: moved_def)
      ultimately show ?thesis using liveI [of "slots p1 ! k"] by (metis live_def)
    qed (use p1(5) in simp)
    have ent: "entry_of (page_data p1) (slots p1 ! k) = entry_of (page_data p) (slots p ! k)
        \<and> used_size (slots p1 ! k) = used_size (slots p ! k)" if k: "k < slot_count p" for k
    proof (cases "k \<in> set ids")
      case True
      then show ?thesis using bspec [OF p1(6) True] live' [OF k] set_ids [of k]
        by (simp add: moved_def entry_of_live used_size_def)
    next
      case False
      then have "\<not> live (slots p ! k)" using set_ids k by simp
      then show ?thesis using False p1(5) by (auto simp: used_size_def intro!: entry_of_cong)
    qed
    have "sp_mem ps p'"
      unfolding sp_mem_def
    proof (intro conjI allI impI)
      fix k assume k: "k < slot_count p'" "live (slots p' ! k)"
      then have "k \<in> set ids" using live' set_ids hdr by (simp add: p'_def)
      then show "0 < slot_size (slots p' ! k)" "data_start p' \<le> slot_offset (slots p' ! k)"
          "slot_offset (slots p' ! k) + slot_size (slots p' ! k) \<le> ps"
        using p1(6) rng by (auto simp: p'_def moved_def)
      fix l assume "l < slot_count p'" "k \<noteq> l" "live (slots p' ! l)"
      then show "apart (slots p' ! k) (slots p' ! l)"
        using \<open>k \<in> set ids\<close> p1(7) live' set_ids hdr by (simp add: p'_def)
    qed (use mm p1(3,4) hdr fits in \<open>simp_all add: p'_def\<close>)
    moreover have "entries p' = entries p" "map used_size (slots p') = map used_size (slots p)"
      using ent p1(4) mm(3) by (auto simp: entries_def p'_def intro!: nth_equalityI)
    moreover have "p' = p\<lparr>page_data := page_data p', slots := slots p', data_start := data_start p'\<rparr>"
      unfolding p'_def by (subst p1(2)) simp
    moreover have "data_start p' + sum_list (map used_size (slots p)) = ps" using fits sum by (simp add: p'_def)
    ultimately show ?thesis using run by blast
  qed
qed

end
