(* ===== verification/Slotted_Page_Correct.thy ===== *)
theory Slotted_Page_Correct
  imports Slotted_Page_Compact
begin

text \<open>
  The operations of a slotted page on its abstract entries: \<open>allocate\<close> adds or reuses an
  entry, \<open>relocate\<close> resizes one, \<open>erase\<close> frees one and gives up the free entries at the
  end. All of them keep the invariant \<open>sp_inv\<close>.
\<close>

lemma sp_invD: "sp_inv ps p \<Longrightarrow> sp_mem ps p"
  "sp_inv ps p \<Longrightarrow> free_space p + slot_count p * 8 + 12 + sum_list (map used_size (slots p)) = ps"
  by (simp_all add: sp_inv_def)

lemma length_entries [simp]: "length (entries p) = length (slots p)"
  by (simp add: entries_def)

lemma is_empty_not_redirect: "is_empty s \<Longrightarrow> \<not> is_redirect s"
  by (auto simp: is_empty_def slot_fields)

lemma entry_Free: "entry_of d s = Free \<longleftrightarrow> is_empty s"
  using is_empty_not_redirect by (auto simp: entry_of_def)

lemma entries_Free: "i < length (slots p) \<Longrightarrow> entries p ! i = Free \<longleftrightarrow> is_empty (slots p ! i)"
  by (simp add: entries_nth entry_Free)

lemma entries_Record: "i < length (slots p) \<Longrightarrow> (\<exists>t bs. entries p ! i = Record t bs) \<longleftrightarrow> live (slots p ! i)"
  by (auto simp: entries_nth entry_of_def live_def)

section \<open>Steps on the memory\<close>

lemma compactify_below_ok:
  assumes "sp_inv ps p" "n \<le> free_space p"
  shows "\<exists>p'. compactify_below n ps p = Some p' \<and> sp_inv ps p' \<and> entries p' = entries p
    \<and> p' = p\<lparr>page_data := page_data p', slots := slots p', data_start := data_start p'\<rparr>
    \<and> slot_count p * 8 + 12 + n \<le> data_start p'"
proof -
  have m: "sp_mem ps p" and e: "free_space p + slot_count p * 8 + 12 + sum_list (map used_size (slots p)) = ps"
    using assms(1) by (simp_all add: sp_inv_def)
  have c: "get_continuous_free_space p = Some (data_start p - (slot_count p * 8 + 12))"
    using sp_memD(4) [OF m] by (simp add: get_continuous_free_space_def Let_def)
  show ?thesis
  proof (cases "data_start p - (slot_count p * 8 + 12) < n")
    case False
    then show ?thesis using c assms sp_memD(4) [OF m] by (simp add: compactify_below_def)
  next
    case True
    obtain p' where p': "compactify ps p = Some p'" "sp_mem ps p'" "entries p' = entries p"
        "map used_size (slots p') = map used_size (slots p)"
        "p' = p\<lparr>page_data := page_data p', slots := slots p', data_start := data_start p'\<rparr>"
        "data_start p' + sum_list (map used_size (slots p)) = ps"
      using compactify_ok [OF m] by blast
    have h: "slot_count p' = slot_count p" "free_space p' = free_space p" by (subst p'(5), simp)+
    then have "sp_inv ps p'" using p' e by (simp add: sp_inv_def)
    moreover have "slot_count p * 8 + 12 + n \<le> data_start p'" using p'(6) e assms(2) by linarith
    ultimately show ?thesis using True c p' by (simp add: compactify_below_def)
  qed
qed

lemma sum_used_update:
  assumes "i < length ss" "\<not> live (ss ! i)"
  shows "sum_list (map used_size (ss[i := s])) = sum_list (map used_size ss) + used_size s"
  using assms by (simp add: map_update sum_list_update) (simp add: used_size_def)

lemma sum_used_clear:
  assumes "i < length ss" "live (ss ! i)"
  shows "sum_list (map used_size (ss[i := EMPTY_NON_REDIRECT_SLOT])) + slot_size (ss ! i) = sum_list (map used_size ss)"
proof -
  have "slot_size (ss ! i) = map used_size ss ! i" using assms by (simp add: used_size_def)
  also have "\<dots> \<le> sum_list (map used_size ss)" using assms(1) by (intro member_le_sum_list) simp_all
  finally show ?thesis using assms by (simp add: map_update sum_list_update) (simp add: used_size_def)
qed

lemma entries_update:
  assumes "i < length (slots p)" "length d = length (page_data p)"
    "\<And>j. j < length (slots p) \<Longrightarrow> j \<noteq> i \<Longrightarrow> live (slots p ! j) \<Longrightarrow> slot_bytes d (slots p ! j) = slot_bytes (page_data p) (slots p ! j)"
  shows "map (entry_of d) ((slots p)[i := s]) = (entries p)[i := entry_of d s]"
proof (rule nth_equalityI)
  fix j assume "j < length (map (entry_of d) ((slots p)[i := s]))"
  then show "map (entry_of d) ((slots p)[i := s]) ! j = (entries p)[i := entry_of d s] ! j"
    using assms by (cases "j = i") (auto simp: entries_nth intro!: entry_of_cong)
qed simp

text \<open>A record is written below the data, into a slot that holds none.\<close>

lemma place_ok:
  assumes m: "sp_mem ps p" and i: "i < slot_count p" "\<not> live (slots p ! i)"
    and n: "bs \<noteq> []" "slot_count p * 8 + 12 + length bs \<le> data_start p"
    and at: "at = data_start p - length bs"
    and d: "length d = ps"
      "\<And>k. k < ps \<Longrightarrow> d ! k = (if at \<le> k \<and> k < at + length bs then bs ! (k - at) else page_data p ! k)"
    and p': "p' = p\<lparr>data_start := at, page_data := d,
      slots := (slots p)[i := set_slot (of_nat at) (of_nat (length bs)) t], free_space := fs, first_free_slot := ff\<rparr>"
  shows "sp_mem ps p'" "entries p' = (entries p)[i := Record t bs]"
    "sum_list (map used_size (slots p')) = sum_list (map used_size (slots p)) + length bs"
proof -
  let ?s = "set_slot (of_nat at) (of_nat (length bs)) t"
  note mm = sp_memD [OF m]
  have atn: "at + length bs = data_start p" using at n by simp
  have b24: "at < 2 ^ 24" "length bs < 2 ^ 24" using atn mm by linarith+
  note f = of_nat_fits24 [OF b24(1)] of_nat_fits24 [OF b24(2)]
  have s: "slot_offset ?s = at" "slot_size ?s = length bs" "is_redirect_target ?s = t" "live ?s"
    using f n(1) by (auto simp: slot_fields intro!: liveI)
  have il: "i < length (slots p)" using i mm(3) by simp
  have keep: "slot_bytes d (slots p ! j) = slot_bytes (page_data p) (slots p ! j)"
    if "j < length (slots p)" "live (slots p ! j)" for j
  proof -
    have "data_start p \<le> slot_offset (slots p ! j)" "slot_offset (slots p ! j) + slot_size (slots p ! j) \<le> ps"
      using sp_mem_live [OF m] that mm(3) by auto
    then show ?thesis unfolding slot_bytes_def using d mm(2) atn by (intro take_drop_eqI) auto
  qed
  have bs: "slot_bytes d ?s = bs"
  proof -
    have "take (length bs) (drop at d) = take (length bs) (drop 0 bs)"
      using d atn mm(5) by (intro take_drop_eqI) auto
    then show ?thesis by (simp add: slot_bytes_def s)
  qed
  show "entries p' = (entries p)[i := Record t bs]"
    using entries_update [OF il, of d ?s] d(1) mm(2) keep bs s entry_of_live [OF s(4), of d]
    by (simp add: p' entries_def)
  show "sum_list (map used_size (slots p')) = sum_list (map used_size (slots p)) + length bs"
    using sum_used_update [OF il i(2), of ?s] s by (simp add: p' used_size_def)
  have far: "at + length bs \<le> slot_offset (slots p ! j)" if "j < slot_count p" "live (slots p ! j)" for j
    using sp_mem_live [OF m that] atn by simp
  show "sp_mem ps p'"
    unfolding sp_mem_def
  proof (intro conjI allI impI)
    fix k assume k: "k < slot_count p'" "live (slots p' ! k)"
    show "0 < slot_size (slots p' ! k)" "data_start p' \<le> slot_offset (slots p' ! k)"
        "slot_offset (slots p' ! k) + slot_size (slots p' ! k) \<le> ps"
      using k sp_mem_live [OF m, of k] il s n(1) atn mm(5) far [of k] by (auto simp: p' nth_list_update)
    fix l assume l: "l < slot_count p'" "k \<noteq> l" "live (slots p' ! l)"
    show "apart (slots p' ! k) (slots p' ! l)"
      using k l sp_mem_apart [OF m, of k l] il s far [of k] far [of l]
      by (auto simp: p' nth_list_update apart_def)
  qed (use mm d n atn in \<open>simp_all add: p'\<close>)
qed

text \<open>A record is dropped; the data area shrinks when it was the first in it.\<close>

lemma clear_ok:
  assumes m: "sp_mem ps p" and i: "i < slot_count p" "live (slots p ! i)"
    and p': "p' = p\<lparr>data_start := (if slot_offset (slots p ! i) = data_start p
         then data_start p + slot_size (slots p ! i) else data_start p),
       slots := (slots p)[i := EMPTY_NON_REDIRECT_SLOT], free_space := fs, first_free_slot := ff\<rparr>"
  shows "sp_mem ps p'" "entries p' = (entries p)[i := Free]"
    "sum_list (map used_size (slots p')) + slot_size (slots p ! i) = sum_list (map used_size (slots p))"
proof -
  note mm = sp_memD [OF m]
  have il: "i < length (slots p)" using i mm(3) by simp
  show "entries p' = (entries p)[i := Free]"
    using entries_update [OF il, of "page_data p" EMPTY_NON_REDIRECT_SLOT] by (simp add: p' entries_def)
  show "sum_list (map used_size (slots p')) + slot_size (slots p ! i) = sum_list (map used_size (slots p))"
    using sum_used_clear [OF il i(2)] by (simp add: p')
  note r = sp_mem_live [OF m i]
  have far: "data_start p' \<le> slot_offset (slots p ! j)" if j: "j < slot_count p" "live (slots p ! j)" "j \<noteq> i" for j
    using sp_mem_live [OF m j(1,2)] sp_mem_apart [OF m j(1) i(1) j(3,2) i(2)] r by (auto simp: p' apart_def)
  show "sp_mem ps p'"
    unfolding sp_mem_def
  proof (intro conjI allI impI)
    fix k assume k: "k < slot_count p'" "live (slots p' ! k)"
    then have ki: "k \<noteq> i" using il by (auto simp: p')
    show "0 < slot_size (slots p' ! k)" "data_start p' \<le> slot_offset (slots p' ! k)"
        "slot_offset (slots p' ! k) + slot_size (slots p' ! k) \<le> ps"
      using k sp_mem_live [OF m, of k] far [of k] ki by (simp_all add: p')
    fix l assume l: "l < slot_count p'" "k \<noteq> l" "live (slots p' ! l)"
    then have "l \<noteq> i" using il by (auto simp: p')
    then show "apart (slots p' ! k) (slots p' ! l)" using k l ki sp_mem_apart [OF m, of k l] by (simp add: p')
  qed (use mm r in \<open>auto simp: p'\<close>)
qed

section \<open>allocate\<close>

definition ff_ok :: "sp \<Rightarrow> bool" where
  "ff_ok p \<longleftrightarrow> first_free_slot p \<le> slot_count p
     \<and> (first_free_slot p < slot_count p \<longrightarrow> entries p ! first_free_slot p = Free)"

lemma fold_last_empty:
  "fold (\<lambda>i ff. if P i then i else ff) is a = a \<or> (fold (\<lambda>i ff. if P i then i else ff) is a \<in> set is
      \<and> P (fold (\<lambda>i ff. if P i then i else ff) is a))"
proof (induction "is" arbitrary: a)
  case (Cons i "is")
  show ?case
  proof (cases "P i")
    case True
    then show ?thesis using Cons [of i] by (simp, metis)
  next
    case False
    then show ?thesis using Cons [of a] by auto
  qed
qed simp

lemma next_free_slot_cases:
  "next_free_slot p = slot_count p \<or> (first_free_slot p < next_free_slot p \<and> next_free_slot p < slot_count p
     \<and> is_empty (slots p ! next_free_slot p))"
  using fold_last_empty [of "\<lambda>i. is_empty (slots p ! i)" "[first_free_slot p + 1..<slot_count p]" "first_free_slot p"]
  by (auto simp: next_free_slot_def Let_def)

lemma memset_ok:
  assumes "at + n \<le> length xs"
  shows "\<exists>d. memset xs at v n = Some d \<and> length d = length xs
    \<and> (\<forall>k < length xs. d ! k = (if at \<le> k \<and> k < at + n then replicate n v ! (k - at) else xs ! k))"
proof -
  obtain d where d: "memcpy xs at (replicate n v) 0 n = Some d" using assms by (simp add: memcpy_def)
  then show ?thesis using memcpy_nth [OF d] length_memcpy [OF d] by (auto simp: memset_def)
qed

text \<open>The last steps of \<open>allocate\<close> and of \<open>relocate_redirect\<close>: a record of zeros.\<close>

lemma place_zeros:
  assumes m: "sp_mem ps p" and i: "i < slot_count p" "\<not> live (slots p ! i)"
    and n: "0 < n" "slot_count p * 8 + 12 + n \<le> data_start p"
    and f: "free_space p + slot_count p * 8 + 12 + sum_list (map used_size (slots p)) = ps - n" "n \<le> ps"
  shows "\<exists>p'. do {
      let p = p\<lparr>data_start := data_start p - n\<rparr>;
      p \<leftarrow> put_slot i (set_slot (of_nat (data_start p)) (of_nat n) False) p;
      d \<leftarrow> memset (page_data p) (data_start p) 0 n;
      Some (i, p\<lparr>page_data := d\<rparr>) } = Some (i, p')
    \<and> sp_inv ps p' \<and> entries p' = (entries p)[i := Record False (replicate n 0)]
    \<and> first_free_slot p' = first_free_slot p \<and> slot_count p' = slot_count p \<and> free_space p' = free_space p"
proof -
  define at where "at = data_start p - n"
  note mm = sp_memD [OF m]
  have "at + n \<le> length (page_data p)" using n mm by (simp add: at_def)
  from memset_ok [OF this, of 0] obtain d where d: "memset (page_data p) at 0 n = Some d" "length d = ps"
      "\<And>k. k < ps \<Longrightarrow> d ! k = (if at \<le> k \<and> k < at + n then replicate n 0 ! (k - at) else page_data p ! k)"
    using mm by auto
  let ?p' = "p\<lparr>data_start := at, page_data := d, slots := (slots p)[i := set_slot (of_nat at) (of_nat n) False],
    free_space := free_space p, first_free_slot := first_free_slot p\<rparr>"
  let ?z = "replicate n (0 :: 8 word)"
  have pre: "?z \<noteq> []" "slot_count p * 8 + 12 + length ?z \<le> data_start p" "at = data_start p - length ?z"
      "\<And>k. k < ps \<Longrightarrow> d ! k = (if at \<le> k \<and> k < at + length ?z then ?z ! (k - at) else page_data p ! k)"
      "?p' = p\<lparr>data_start := at, page_data := d,
        slots := (slots p)[i := set_slot (of_nat at) (of_nat (length ?z)) False],
        free_space := free_space p, first_free_slot := first_free_slot p\<rparr>"
    using n d(3) by (simp_all add: at_def)
  note pl = place_ok [OF m i pre(1,2,3) d(2) pre(4,5)]
  have "sp_mem ps ?p'" "entries ?p' = (entries p)[i := Record False ?z]"
      "sum_list (map used_size (slots ?p')) = sum_list (map used_size (slots p)) + n"
    using pl by (simp_all only: length_replicate)
  then show ?thesis
    using i(1) mm(3) d(1) f by (intro exI [of _ ?p']) (simp add: Let_def put_slot_def at_def sp_inv_def)
qed

lemma new_slot_ok:
  assumes inv: "sp_inv ps p" and ff: "first_free_slot p = slot_count p" and n: "n + 8 \<le> free_space p"
  shows "\<exists>p1. new_slot n ps p = Some (slot_count p, p1) \<and> sp_mem ps p1 \<and> slot_count p < slot_count p1
    \<and> slots p1 ! slot_count p = EMPTY_NON_REDIRECT_SLOT \<and> entries p1 = entries p @ [Free]
    \<and> slot_count p1 * 8 + 12 + n \<le> data_start p1 \<and> first_free_slot p1 = slot_count p1
    \<and> free_space p1 + n + 8 = free_space p
    \<and> free_space p1 + slot_count p1 * 8 + 12 + sum_list (map used_size (slots p1)) = ps - n"
proof -
  have "sp_inv ps (p\<lparr>first_free_slot := first_free_slot p + 1\<rparr>)" "n + 8 \<le> free_space (p\<lparr>first_free_slot := first_free_slot p + 1\<rparr>)"
    using inv n by (simp_all add: sp_inv_def sp_mem_def)
  from compactify_below_ok [OF this] obtain p' where
    p': "compactify_below (n + 8) ps (p\<lparr>first_free_slot := first_free_slot p + 1\<rparr>) = Some p'" "sp_inv ps p'"
      "entries p' = entries p" "slot_count p * 8 + 12 + (n + 8) \<le> data_start p'"
      "p' = p\<lparr>first_free_slot := first_free_slot p + 1, page_data := page_data p', slots := slots p', data_start := data_start p'\<rparr>"
    by (auto simp: entries_def)
  have h: "slot_count p' = slot_count p" "free_space p' = free_space p" "first_free_slot p' = first_free_slot p + 1"
    by (subst p'(5), simp)+
  have len: "length (slots p') = slot_count p" using sp_memD(3) [OF sp_invD(1) [OF p'(2)]] h by simp
  let ?p1 = "p'\<lparr>free_space := free_space p' - (n + 8), slot_count := slot_count p' + 1,
      slots := slots p' @ [EMPTY_NON_REDIRECT_SLOT]\<rparr>"
  have nth: "(slots p' @ [EMPTY_NON_REDIRECT_SLOT]) ! k
      = (if k < slot_count p then slots p' ! k else EMPTY_NON_REDIRECT_SLOT)" if "k < slot_count p + 1" for k
    using that len by (auto simp: nth_append less_Suc_eq)
  have m': "sp_mem ps p'" using p'(2) by (rule sp_invD)
  have "sp_mem ps ?p1"
    unfolding sp_mem_def
  proof (intro conjI allI impI)
    fix k assume k: "k < slot_count ?p1" "live (slots ?p1 ! k)"
    then have k': "k < slot_count p" using nth [of k] h by (auto split: if_splits)
    then have lk: "live (slots p' ! k)" "slots ?p1 ! k = slots p' ! k" using k nth [of k] by simp_all
    show "0 < slot_size (slots ?p1 ! k)" "data_start ?p1 \<le> slot_offset (slots ?p1 ! k)"
        "slot_offset (slots ?p1 ! k) + slot_size (slots ?p1 ! k) \<le> ps"
      using sp_mem_live [OF m', of k] k' lk h by simp_all
    fix l assume l: "l < slot_count ?p1" "k \<noteq> l" "live (slots ?p1 ! l)"
    then have l': "l < slot_count p" using nth [of l] h by (auto split: if_splits)
    then have "live (slots p' ! l)" "slots ?p1 ! l = slots p' ! l" using l nth [of l] by simp_all
    then show "apart (slots ?p1 ! k) (slots ?p1 ! l)" using sp_mem_apart [OF m', of k l] k' l' l(2) lk h by simp
  qed (use sp_memD [OF m'] p'(4) h in simp_all)
  moreover have "entries ?p1 = entries p @ [Free]" using p'(3) by (simp add: entries_def)
  moreover have "free_space ?p1 + slot_count ?p1 * 8 + 12 + sum_list (map used_size (slots ?p1)) = ps - n"
    using sp_invD(2) [OF p'(2)] h n by simp
  ultimately show ?thesis
    using p' h len n ff by (intro exI [of _ ?p1]) (simp add: new_slot_def Let_def nth_append)
qed

lemma reuse_slot_ok:
  assumes inv: "sp_inv ps p" and ff: "first_free_slot p < slot_count p" "ff_ok p" and n: "n \<le> free_space p"
  shows "\<exists>p1. reuse_slot n ps p = Some (first_free_slot p, p1) \<and> sp_mem ps p1 \<and> slot_count p1 = slot_count p
    \<and> slots p1 ! first_free_slot p = EMPTY_NON_REDIRECT_SLOT \<and> entries p1 = entries p
    \<and> slot_count p1 * 8 + 12 + n \<le> data_start p1 \<and> ff_ok p1 \<and> first_free_slot p1 \<noteq> first_free_slot p
    \<and> free_space p1 + n = free_space p
    \<and> free_space p1 + slot_count p1 * 8 + 12 + sum_list (map used_size (slots p1)) = ps - n"
proof -
  from compactify_below_ok [OF inv n] obtain p' where
    p': "compactify_below n ps p = Some p'" "sp_inv ps p'" "entries p' = entries p"
      "slot_count p * 8 + 12 + n \<le> data_start p'"
      "p' = p\<lparr>page_data := page_data p', slots := slots p', data_start := data_start p'\<rparr>"
    by blast
  have h: "slot_count p' = slot_count p" "free_space p' = free_space p" "first_free_slot p' = first_free_slot p"
    by (subst p'(5), simp)+
  have len: "length (slots p') = slot_count p" using sp_memD(3) [OF sp_invD(1) [OF p'(2)]] h by simp
  have "is_empty (slots p' ! first_free_slot p)"
    using ff entries_Free [of "first_free_slot p" p'] len p'(3) by (simp add: ff_ok_def)
  then have e: "slots p' ! first_free_slot p = EMPTY_NON_REDIRECT_SLOT" by (simp add: is_empty_def)
  let ?p1 = "p'\<lparr>first_free_slot := next_free_slot p', free_space := free_space p' - n\<rparr>"
  have "ff_ok ?p1" using next_free_slot_cases [of p'] entries_Free [of "next_free_slot p'" p'] len h
    by (auto simp: ff_ok_def entries_def)
  moreover have "next_free_slot p' \<noteq> first_free_slot p" using next_free_slot_cases [of p'] h ff(1) by auto
  moreover have "sp_mem ps ?p1" using sp_invD(1) [OF p'(2)] by (simp add: sp_mem_def)
  moreover have "free_space ?p1 + slot_count ?p1 * 8 + 12 + sum_list (map used_size (slots ?p1)) = ps - n"
    using sp_invD(2) [OF p'(2)] h n by simp
  ultimately show ?thesis
    using p' h e ff n by (intro exI [of _ ?p1]) (simp add: reuse_slot_def Let_def entries_def)
qed

lemma sp_allocate_ok:
  assumes inv: "sp_inv ps p" and ff: "ff_ok p" and n: "0 < n"
    "n + (if first_free_slot p = slot_count p then 8 else 0) \<le> free_space p"
  shows "\<exists>p'. sp_allocate n ps p = Some (first_free_slot p, p') \<and> sp_inv ps p' \<and> ff_ok p'
    \<and> entries p' = (if first_free_slot p = slot_count p then entries p @ [Record False (replicate n 0)]
         else (entries p)[first_free_slot p := Record False (replicate n 0)])
    \<and> free_space p' = free_space p - (n + (if first_free_slot p = slot_count p then 8 else 0))"
proof -
  define i where "i = first_free_slot p"
  have nps: "n \<le> ps" using sp_invD(2) [OF inv] n(2) by (simp split: if_splits)
  obtain p1 where p1: "(if first_free_slot p = slot_count p then new_slot n ps p else reuse_slot n ps p) = Some (i, p1)"
      "sp_mem ps p1" "i < slot_count p1" "slots p1 ! i = EMPTY_NON_REDIRECT_SLOT"
      "entries p1 = (if i = slot_count p then entries p @ [Free] else entries p)"
      "slot_count p1 * 8 + 12 + n \<le> data_start p1"
      "free_space p1 + slot_count p1 * 8 + 12 + sum_list (map used_size (slots p1)) = ps - n"
      "free_space p1 = free_space p - (n + (if i = slot_count p then 8 else 0))"
      "first_free_slot p1 \<le> slot_count p1" "first_free_slot p1 \<noteq> i"
      "first_free_slot p1 < slot_count p1 \<Longrightarrow> entries p1 ! first_free_slot p1 = Free"
  proof (cases "first_free_slot p = slot_count p")
    case True
    then show ?thesis using new_slot_ok [OF inv True, of n] n that by (auto simp: i_def)
  next
    case False
    then have lt: "first_free_slot p < slot_count p" using ff by (simp add: ff_ok_def)
    then show ?thesis using reuse_slot_ok [OF inv lt ff, of n] n that False by (auto simp: i_def ff_ok_def)
  qed
  have "\<not> live (slots p1 ! i)" using p1(4) by simp
  from place_zeros [OF p1(2,3) this n(1) p1(6,7) nps] obtain p' where
    p': "do {
      let p = p1\<lparr>data_start := data_start p1 - n\<rparr>;
      p \<leftarrow> put_slot i (set_slot (of_nat (data_start p)) (of_nat n) False) p;
      d \<leftarrow> memset (page_data p) (data_start p) 0 n;
      Some (i, p\<lparr>page_data := d\<rparr>) } = Some (i, p')"
    "sp_inv ps p'" "entries p' = (entries p1)[i := Record False (replicate n 0)]"
    "first_free_slot p' = first_free_slot p1" "slot_count p' = slot_count p1" "free_space p' = free_space p1"
    by blast
  have "n \<le> data_start p1" using p1(6) by simp
  then have "sp_allocate n ps p = Some (i, p')" using p1(1) p'(1) by (simp add: sp_allocate_def)
  moreover have "ff_ok p'"
    unfolding ff_ok_def p'(3,4,5) using p1(9,10,11) by simp
  moreover have "length (entries p) = slot_count p" using sp_memD(3) [OF sp_invD(1) [OF inv]] by simp
  ultimately show ?thesis using p' p1(5,8) by (auto simp: i_def list_update_append)
qed

section \<open>erase\<close>

definition trim_free :: "entry list \<Rightarrow> entry list" where
  "trim_free es = rev (dropWhile (\<lambda>e. e = Free) (rev es))"

lemma trim_free_snoc: "trim_free (es @ [e]) = (if e = Free then trim_free es else es @ [e])"
  by (simp add: trim_free_def)

lemma trim_slots_ok:
  "sp_inv ps p \<Longrightarrow> n = slot_count p \<Longrightarrow> sp_inv ps (trim_slots n p) \<and> entries (trim_slots n p) = trim_free (entries p)
    \<and> first_free_slot (trim_slots n p) = first_free_slot p"
proof (induction n p rule: trim_slots.induct)
  case (1 p)
  then have "entries p = []" using sp_memD(3) [OF sp_invD(1) [OF 1(1)]] by (simp add: entries_def)
  then show ?case using 1 by (simp add: trim_free_def)
next
  case (2 n p)
  note m = sp_invD(1) [OF 2(2)]
  have len: "length (slots p) = Suc n" using sp_memD(3) [OF m] 2(3) by simp
  then have snoc: "slots p = take n (slots p) @ [slots p ! n]" by (metis lessI take_Suc_conv_app_nth take_all order_refl)
  have ent: "entries p = map (entry_of (page_data p)) (take n (slots p)) @ [entry_of (page_data p) (slots p ! n)]"
    unfolding entries_def by (subst snoc) simp
  show ?case
  proof (cases "is_empty (slots p ! n)")
    case False
    then show ?thesis using 2(2) by (simp add: ent trim_free_snoc entry_Free)
  next
    case True
    let ?p = "p\<lparr>slot_count := n, slots := take n (slots p), free_space := free_space p + 8\<rparr>"
    have "sum_list (map used_size (slots p)) = sum_list (map used_size (take n (slots p)))"
      using True by (subst snoc) (simp add: used_size_def live_def)
    moreover have "sp_mem ps ?p" using m 2(3) by (auto simp: sp_mem_def)
    ultimately have "sp_inv ps ?p" using sp_invD(2) [OF 2(2)] 2(3) by (simp add: sp_inv_def)
    from 2(1) [OF True this] show ?thesis
      using True by (simp add: ent trim_free_snoc entry_Free) (simp add: entries_def)
  qed
qed

lemma sp_erase_ok:
  assumes inv: "sp_inv ps p" and i: "i < slot_count p" "live (slots p ! i)"
  shows "\<exists>p'. sp_erase i p = Some p' \<and> sp_inv ps p'
    \<and> entries p' = (if i = slot_count p - 1 then trim_free ((entries p)[i := Free]) else (entries p)[i := Free])
    \<and> first_free_slot p' = min i (first_free_slot p)"
proof -
  let ?s = "slots p ! i"
  note m = sp_invD(1) [OF inv]
  have il: "i < length (slots p)" using i sp_memD(3) [OF m] by simp
  define p1 where "p1 = p\<lparr>data_start := (if slot_offset ?s = data_start p then data_start p + slot_size ?s else data_start p),
    slots := (slots p)[i := EMPTY_NON_REDIRECT_SLOT], free_space := free_space p + slot_size ?s,
    first_free_slot := min i (first_free_slot p)\<rparr>"
  note c = clear_ok [OF m i p1_def]
  have h: "slot_count p1 = slot_count p" "free_space p1 = free_space p + slot_size ?s" by (simp_all add: p1_def)
  have inv1: "sp_inv ps p1" using c sp_invD(2) [OF inv] h by (simp add: sp_inv_def)
  define q where "q = (let p = p\<lparr>free_space := free_space p + slot_size ?s\<rparr>;
      p = (if i < first_free_slot p then p\<lparr>first_free_slot := i\<rparr> else p);
      p = (if slot_offset ?s = data_start p then p\<lparr>data_start := data_start p + slot_size ?s\<rparr> else p)
    in p\<lparr>slots := (slots p)[i := EMPTY_NON_REDIRECT_SLOT]\<rparr>)"
  have "q = p1" by (simp add: q_def p1_def Let_def min_def)
  moreover have "sp_erase i p = Some (if i = slot_count q - 1 then trim_slots (slot_count q) q else q)"
    using i il
    by (cases "i < first_free_slot p"; cases "slot_offset ?s = data_start p")
      (simp_all add: sp_erase_def live_def Let_def put_slot_def q_def)
  ultimately have run: "sp_erase i p = Some (if i = slot_count p1 - 1 then trim_slots (slot_count p1) p1 else p1)"
    by simp
  have "first_free_slot p1 = min i (first_free_slot p)" by (simp add: p1_def)
  then show ?thesis using run inv1 c(2) trim_slots_ok [OF inv1 refl] h by auto
qed

section \<open>relocate\<close>

lemma shrink_ok:
  assumes inv: "sp_inv ps p" and i: "i < slot_count p" "live (slots p ! i)"
    and n: "0 < n" "n < slot_size (slots p ! i)"
    and p': "p' = p\<lparr>free_space := free_space p + (slot_size (slots p ! i) - n),
      slots := (slots p)[i := set_size (of_nat n) (slots p ! i)]\<rparr>"
  shows "sp_inv ps p'"
    "entries p' = (entries p)[i := Record (is_redirect_target (slots p ! i)) (take n (slot_bytes (page_data p) (slots p ! i)))]"
proof -
  let ?s = "slots p ! i" and ?t = "set_size (of_nat n) (slots p ! i)"
  note m = sp_invD(1) [OF inv]
  note mm = sp_memD [OF m]
  have il: "i < length (slots p)" using i mm(3) by simp
  note r = sp_mem_live [OF m i]
  have "n < 2 ^ 24" using n(2) r(3) mm(1) by linarith
  note f = of_nat_fits24 [OF this]
  have t: "slot_offset ?t = slot_offset ?s" "slot_size ?t = n" "is_redirect_target ?t = is_redirect_target ?s"
    using f by (simp_all add: slot_fields)
  have t4: "live ?t"
    by (rule liveI) (use f n(1) i(2) in \<open>simp_all add: slot_fields live_def\<close>)
  have bytes: "slot_bytes (page_data p) ?t = take n (slot_bytes (page_data p) ?s)"
    using n(2) by (simp add: slot_bytes_def t(1,2) min_def)
  show "entries p' = (entries p)[i := Record (is_redirect_target ?s) (take n (slot_bytes (page_data p) ?s))]"
    using entries_update [OF il, of "page_data p" ?t] entry_of_live [OF t4, of "page_data p"] bytes t(3)
    by (simp add: p' entries_def)
  have sum: "sum_list (map used_size (slots p')) + (slot_size ?s - n) = sum_list (map used_size (slots p))"
  proof -
    have "map used_size (slots p) ! i \<le> sum_list (map used_size (slots p))"
      using il by (intro member_le_sum_list) simp_all
    then show ?thesis using il n i(2) t(2) t4
      by (simp add: p' map_update sum_list_update) (simp add: used_size_def)
  qed
  have "sp_mem ps p'"
    unfolding sp_mem_def
  proof (intro conjI allI impI)
    fix k assume k: "k < slot_count p'" "live (slots p' ! k)"
    have lk: "live (slots p ! k)" using k i(2) il by (cases "k = i") (auto simp: p')
    show "0 < slot_size (slots p' ! k)" "data_start p' \<le> slot_offset (slots p' ! k)"
        "slot_offset (slots p' ! k) + slot_size (slots p' ! k) \<le> ps"
      using k sp_mem_live [OF m _ lk] il n t(1,2) by (auto simp: p' nth_list_update)
    fix l assume l: "l < slot_count p'" "k \<noteq> l" "live (slots p' ! l)"
    have "live (slots p ! l)" using l i(2) il by (cases "l = i") (auto simp: p')
    then have "apart (slots p ! k) (slots p ! l)" using k l lk sp_mem_apart [OF m, of k l] by (simp add: p')
    then show "apart (slots p' ! k) (slots p' ! l)"
      using l(2) il n t(1,2) by (auto simp: p' nth_list_update apart_def)
  qed (use mm in \<open>simp_all add: p'\<close>)
  then show "sp_inv ps p'" using sp_invD(2) [OF inv] sum by (simp add: sp_inv_def) (simp add: p')
qed

lemma relocate_larger_ok:
  assumes inv: "sp_inv ps p" and i: "i < slot_count p" "live (slots p ! i)"
    and n: "slot_size (slots p ! i) < n" "n \<le> free_space p + slot_size (slots p ! i)"
  shows "\<exists>p'. relocate_larger i (slots p ! i) n ps p = Some p' \<and> sp_inv ps p'
    \<and> entries p' = (entries p)[i := Record False (slot_bytes (page_data p) (slots p ! i)
        @ replicate (n - slot_size (slots p ! i)) 0)]
    \<and> first_free_slot p' = first_free_slot p \<and> slot_count p' = slot_count p
    \<and> free_space p' = free_space p + slot_size (slots p ! i) - n"
proof -
  let ?s = "slots p ! i"
  note m = sp_invD(1) [OF inv]
  note mm = sp_memD [OF m]
  note r = sp_mem_live [OF m i]
  have il: "i < length (slots p)" using i mm(3) by simp
  define bs where "bs = slot_bytes (page_data p) ?s"
  have lbs: "length bs = slot_size ?s" using r mm by (simp add: bs_def slot_bytes_def)
  define p1 where "p1 = p\<lparr>data_start := (if slot_offset ?s = data_start p then data_start p + slot_size ?s else data_start p),
    slots := (slots p)[i := EMPTY_NON_REDIRECT_SLOT], free_space := free_space p + slot_size ?s,
    first_free_slot := first_free_slot p\<rparr>"
  note c = clear_ok [OF m i p1_def]
  have h1: "slot_count p1 = slot_count p" "free_space p1 = free_space p + slot_size ?s"
      "first_free_slot p1 = first_free_slot p" "page_data p1 = page_data p" by (simp_all add: p1_def)
  have inv1: "sp_inv ps p1" using c sp_invD(2) [OF inv] h1 by (simp add: sp_inv_def)
  have "n \<le> free_space p1" using n h1 by simp
  from compactify_below_ok [OF inv1 this] obtain p2 where
    p2: "compactify_below n ps p1 = Some p2" "sp_inv ps p2" "entries p2 = entries p1"
      "p2 = p1\<lparr>page_data := page_data p2, slots := slots p2, data_start := data_start p2\<rparr>"
      "slot_count p1 * 8 + 12 + n \<le> data_start p2" by blast
  have h2: "slot_count p2 = slot_count p1" "free_space p2 = free_space p1" "first_free_slot p2 = first_free_slot p1"
    by (subst p2(4), simp)+
  note m2 = sp_invD(1) [OF p2(2)]
  have il2: "i < length (slots p2)" using i sp_memD(3) [OF m2] h1 h2 by simp
  have nl: "\<not> live (slots p2 ! i)"
    using entries_Free [OF il2] il p2(3) c(2) by (simp add: live_def)
  define at where "at = data_start p2 - n"
  have atn: "at + n = data_start p2" using p2(5) by (simp add: at_def)
  have ds: "data_start p2 \<le> length (page_data p2)" using sp_memD [OF m2] by simp
  obtain d1 where d1: "memcpy (page_data p2) at bs 0 (slot_size ?s) = Some d1"
    using lbs n(1) atn ds by (simp add: memcpy_def)
  note d1' = memcpy_nth [OF d1] length_memcpy [OF d1]
  have "at + slot_size ?s + (n - slot_size ?s) \<le> length d1" using d1'(2) atn n(1) ds by simp
  from memset_ok [OF this, of 0] obtain d2 where d2: "memset d1 (at + slot_size ?s) 0 (n - slot_size ?s) = Some d2"
      "length d2 = length d1" "\<And>k. k < length d1 \<Longrightarrow> d2 ! k = (if at + slot_size ?s \<le> k \<and> k < at + slot_size ?s + (n - slot_size ?s)
         then replicate (n - slot_size ?s) 0 ! (k - (at + slot_size ?s)) else d1 ! k)" by blast
  define zs where "zs = bs @ replicate (n - slot_size ?s) (0 :: 8 word)"
  have lz: "length zs = n" using lbs n(1) by (simp add: zs_def)
  define p' where "p' = p2\<lparr>data_start := at, page_data := d2,
    slots := (slots p2)[i := set_slot (of_nat at) (of_nat (length zs)) False],
    free_space := free_space p2 - n, first_free_slot := first_free_slot p2\<rparr>"
  have pre: "zs \<noteq> []" "slot_count p2 * 8 + 12 + length zs \<le> data_start p2" "at = data_start p2 - length zs"
      "length d2 = ps"
    using lz n(1) p2(5) h2 d1'(2) d2(2) sp_memD(2) [OF m2] by (auto simp: at_def)
  have dn: "d2 ! k = (if at \<le> k \<and> k < at + length zs then zs ! (k - at) else page_data p2 ! k)" if "k < ps" for k
  proof -
    have "k < length d1" "k < length (page_data p2)" using that d1'(2) sp_memD(2) [OF m2] by simp_all
    then show ?thesis using d2(3) d1'(1) n(1) lbs by (auto simp: lz zs_def nth_append)
  qed
  have i2: "i < slot_count p2" using i h1 h2 by simp
  note pl = place_ok [OF m2 i2 nl pre(1,2,3,4) dn p'_def]
  have "sp_inv ps p'"
    using pl sp_invD(2) [OF p2(2)] n(2) h1 h2 lz by (simp add: sp_inv_def) (simp add: p'_def)
  moreover have "entries p' = (entries p)[i := Record False (bs @ replicate (n - slot_size ?s) 0)]"
    using pl(2) p2(3) c(2) by (simp add: zs_def)
  moreover have "relocate_larger i ?s n ps p = Some p'"
  proof -
    have buf: "memcpy (replicate (slot_size ?s) 0) 0 (page_data p) (slot_offset ?s) (slot_size ?s) = Some bs"
      using r mm by (simp add: memcpy_def bs_def slot_bytes_def)
    define q where "q = (let p = p\<lparr>free_space := free_space p + slot_size ?s\<rparr>;
        p = (if slot_offset ?s = data_start p then p\<lparr>data_start := data_start p + slot_size ?s\<rparr> else p)
      in p\<lparr>slots := (slots p)[i := EMPTY_NON_REDIRECT_SLOT]\<rparr>)"
    have q: "q = p1" by (simp add: q_def p1_def Let_def)
    have "relocate_larger i ?s n ps p = do {
       p \<leftarrow> compactify_below n ps q;
       require (data_start p \<ge> n);
       let p = p\<lparr>free_space := free_space p - n, data_start := data_start p - n\<rparr>;
       p \<leftarrow> put_slot i (set_slot (of_nat (data_start p)) (of_nat n) False) p;
       d \<leftarrow> memcpy (page_data p) (data_start p) bs 0 (slot_size ?s);
       d \<leftarrow> memset d (data_start p + slot_size ?s) 0 (n - slot_size ?s);
       Some (p\<lparr>page_data := d\<rparr>) }"
      using il n(2) buf by (simp add: relocate_larger_def q_def Let_def put_slot_def)
    also have "\<dots> = Some p'"
      using p2(1,5) il2 d1 d2(1) by (simp add: q Let_def put_slot_def p'_def lz flip: at_def)
    finally show ?thesis .
  qed
  ultimately show ?thesis using h1 h2 by (intro exI [of _ p']) (simp add: p'_def bs_def)
qed

lemma relocate_redirect_ok:
  assumes i: "i < slot_count p" "slots p ! i = set_offset 1 EMPTY_NON_REDIRECT_SLOT"
    and inv: "sp_inv ps (p\<lparr>slots := (slots p)[i := EMPTY_NON_REDIRECT_SLOT]\<rparr>)"
    and n: "0 < n" "n \<le> free_space p"
  shows "\<exists>p'. relocate i n ps p = Some p' \<and> sp_inv ps p'
    \<and> entries p' = (entries (p\<lparr>slots := (slots p)[i := EMPTY_NON_REDIRECT_SLOT]\<rparr>))[i := Record False (replicate n 0)]
    \<and> first_free_slot p' = first_free_slot p \<and> slot_count p' = slot_count p \<and> free_space p' = free_space p - n"
proof -
  let ?p = "p\<lparr>slots := (slots p)[i := EMPTY_NON_REDIRECT_SLOT]\<rparr>"
  have il: "i < length (slots p)" using sp_memD(3) [OF sp_invD(1) [OF inv]] i(1) by simp
  have f1: "fits24 1" by (simp add: fits24_def)
  have s: "slot_size (slots p ! i) = 0" "slot_offset (slots p ! i) = 1" "\<not> is_redirect (slots p ! i)" "\<not> is_empty (slots p ! i)"
  proof -
    show "slot_size (slots p ! i) = 0" "slot_offset (slots p ! i) = 1" "\<not> is_redirect (slots p ! i)"
      using f1 by (simp_all add: i(2) slot_fields)
    then show "\<not> is_empty (slots p ! i)" by (auto simp: is_empty_def slot_fields)
  qed
  have "n \<le> free_space ?p" using n by simp
  from compactify_below_ok [OF inv this] obtain p2 where
    p2: "compactify_below n ps ?p = Some p2" "sp_inv ps p2" "entries p2 = entries ?p"
      "p2 = ?p\<lparr>page_data := page_data p2, slots := slots p2, data_start := data_start p2\<rparr>"
      "slot_count p * 8 + 12 + n \<le> data_start p2" by auto
  have h2: "slot_count p2 = slot_count p" "free_space p2 = free_space p" "first_free_slot p2 = first_free_slot p"
    by (subst p2(4), simp)+
  note m2 = sp_invD(1) [OF p2(2)]
  let ?q = "p2\<lparr>free_space := free_space p2 - n\<rparr>"
  have mq: "sp_mem ps ?q" using m2 by (simp add: sp_mem_def)
  have iq: "i < slot_count ?q" using i h2 by simp
  have il2: "i < length (slots p2)" using i(1) sp_memD(3) [OF m2] h2 by simp
  have "entries p2 ! i = Free" using p2(3) il by (simp add: entries_def)
  then have nl: "\<not> live (slots ?q ! i)" using entries_Free [OF il2] by (simp add: live_def)
  have nps: "n \<le> ps" using sp_invD(2) [OF p2(2)] n h2 by linarith
  have "free_space ?q + slot_count ?q * 8 + 12 + sum_list (map used_size (slots ?q)) = ps - n"
    using sp_invD(2) [OF p2(2)] n h2 by simp
  moreover have "slot_count ?q * 8 + 12 + n \<le> data_start ?q" using p2(5) h2 by simp
  ultimately obtain p' where p': "do {
      let p = ?q\<lparr>data_start := data_start ?q - n\<rparr>;
      p \<leftarrow> put_slot i (set_slot (of_nat (data_start p)) (of_nat n) False) p;
      d \<leftarrow> memset (page_data p) (data_start p) 0 n;
      Some (i, p\<lparr>page_data := d\<rparr>) } = Some (i, p')"
    "sp_inv ps p'" "entries p' = (entries ?q)[i := Record False (replicate n 0)]"
    "first_free_slot p' = first_free_slot ?q" "slot_count p' = slot_count ?q" "free_space p' = free_space ?q"
    using place_zeros [OF mq iq nl n(1) _ _ nps] by blast
  have "relocate i n ps p = relocate_redirect i n ps p"
    using i(1) il s by (simp add: relocate_def)
  also have "\<dots> = Some p'"
    using n(2) il p2(1,5) p'(1) by (simp add: relocate_redirect_def Let_def put_slot_def bind_eq_Some_conv)
  finally have "relocate i n ps p = Some p'" .
  moreover have "entries ?q = entries ?p" using p2(3) by (simp add: entries_def)
  ultimately show ?thesis using p' h2 by simp
qed

section \<open>The properties of a page\<close>

lemma sp_init_inv: "12 \<le> ps \<Longrightarrow> ps < 2 ^ 24 \<Longrightarrow> sp_inv ps (sp_init ps)" "ff_ok (sp_init ps)" "entries (sp_init ps) = []"
  by (simp_all add: sp_inv_def sp_mem_def sp_init_def ff_ok_def entries_def)

text \<open>C22: Compaction never fails on a well-formed page, keeps every record, redirect and free slot,
  and leaves all free space in one piece in front of the data.\<close>

theorem compactify_correct:
  assumes "sp_inv ps p"
  shows "\<exists>p'. compactify ps p = Some p' \<and> sp_inv ps p' \<and> entries p' = entries p
    \<and> get_continuous_free_space p' = Some (free_space p')"
proof -
  from compactify_ok [OF sp_invD(1) [OF assms]] obtain p' where
    p': "compactify ps p = Some p'" "sp_mem ps p'" "entries p' = entries p"
      "map used_size (slots p') = map used_size (slots p)"
      "p' = p\<lparr>page_data := page_data p', slots := slots p', data_start := data_start p'\<rparr>"
      "data_start p' + sum_list (map used_size (slots p)) = ps" by blast
  have h: "slot_count p' = slot_count p" "free_space p' = free_space p" by (subst p'(5), simp)+
  have "sp_inv ps p'" using p' h sp_invD(2) [OF assms] by (simp add: sp_inv_def)
  moreover have "get_continuous_free_space p' = Some (free_space p')"
    using p'(6) h sp_invD(2) [OF assms] by (simp add: get_continuous_free_space_def Let_def)
  ultimately show ?thesis using p' by blast
qed

theorem compactify_correct_witness:
  "\<exists>p p'. sp_allocate 10 64 (sp_init 64) = Some (0, p) \<and> compactify 64 p = Some p'
    \<and> get_continuous_free_space p' = Some 34"
proof -
  have b: "(12 :: nat) \<le> 64" "(64 :: nat) < 2 ^ 24" by simp_all
  obtain p where p: "sp_allocate 10 64 (sp_init 64) = Some (0, p)" "sp_inv 64 p" "free_space p = 34"
    using sp_allocate_ok [OF sp_init_inv(1) [OF b] sp_init_inv(2), of 10] by (auto simp: sp_init_def)
  obtain p' where p': "compactify 64 p = Some p'" "sp_inv 64 p'" "entries p' = entries p"
      "get_continuous_free_space p' = Some (free_space p')" using compactify_correct [OF p(2)] by blast
  have "free_space p' = 34"
    using compactify_ok [OF sp_invD(1) [OF p(2)]] p'(1) p(3) by (metis option.inject sp.select_convs(4) sp.surjective sp.update_convs)
  then show ?thesis using p p' by metis
qed

text \<open>A page of less than \<open>2 ^ 19\<close> bytes has fewer slots than its 16-bit counters can count.\<close>

lemma directory_bound:
  assumes "sp_inv ps p" "ps < 2 ^ 19"
  shows "slot_count p < 2 ^ 16"
  using sp_invD(2) [OF assms(1)] assms(2) by simp

text \<open>The slot in the header is free when it is inside the directory.\<close>

definition ff_free :: "sp \<Rightarrow> bool" where
  "ff_free p \<longleftrightarrow> (first_free_slot p < slot_count p \<longrightarrow> entries p ! first_free_slot p = Free)"

lemma ff_free_init: "ff_free (sp_init ps)"
  by (simp add: ff_free_def sp_init_def)

lemma trim_free_nth: "k < length (trim_free es) \<Longrightarrow> k < length es \<and> trim_free es ! k = es ! k"
proof (induction es rule: rev_induct)
  case Nil
  then show ?case by (simp add: trim_free_def)
next
  case (snoc e es)
  then show ?case by (auto simp: trim_free_snoc nth_append split: if_splits)
qed

lemma ff_free_erase:
  assumes "sp_inv ps p" "ff_free p" "i < slot_count p" "live (slots p ! i)" "sp_erase i p = Some p'"
  shows "ff_free p'"
proof -
  have e: "sp_inv ps p'" "first_free_slot p' = min i (first_free_slot p)"
    "entries p' = (if i = slot_count p - 1 then trim_free ((entries p)[i := Free]) else (entries p)[i := Free])"
    using sp_erase_ok [OF assms(1,3,4)] assms(5) by auto
  have len: "length (entries p) = slot_count p" "length (entries p') = slot_count p'"
    using sp_memD(3) [OF sp_invD(1) [OF assms(1)]] sp_memD(3) [OF sp_invD(1) [OF e(1)]] by simp_all
  have "entries p' ! k = ((entries p)[i := Free]) ! k \<and> k < length (entries p)" if "k < slot_count p'" for k
    using that len(2) trim_free_nth [of k "(entries p)[i := Free]"] unfolding e(3) by (simp split: if_splits)
  moreover have "((entries p)[i := Free]) ! min i (first_free_slot p) = Free"
    using assms(2,3) len(1) by (cases "first_free_slot p < i") (simp_all add: ff_free_def min_def)
  ultimately show ?thesis by (simp add: ff_free_def e(2))
qed

lemma sp_allocate_fails:
  assumes inv: "sp_inv ps p"
    and no: "slot_count p < first_free_slot p \<or> free_space p < n + (if first_free_slot p = slot_count p then 8 else 0)"
  shows "sp_allocate n ps p = None"
proof (cases "first_free_slot p = slot_count p")
  case True
  then have "new_slot n ps p = None" using no by (simp add: new_slot_def Let_def)
  then show ?thesis using True by (simp add: sp_allocate_def)
next
  case ne: False
  have "reuse_slot n ps p = None"
  proof (cases "first_free_slot p < slot_count p \<and> compactify_below n ps p \<noteq> None")
    case True
    then obtain p' where p': "compactify_below n ps p = Some p'" and lt: "free_space p < n" using no ne by auto
    obtain q where q: "compactify ps p = Some q"
        "q = p\<lparr>page_data := page_data q, slots := slots q, data_start := data_start q\<rparr>"
      using compactify_ok [OF sp_invD(1) [OF inv]] by blast
    have "free_space q = free_space p" by (subst q(2)) simp
    then have "free_space p' = free_space p"
      using p' q(1) by (auto simp: compactify_below_def bind_eq_Some_conv split: if_splits)
    then show ?thesis using p' lt by (simp add: reuse_slot_def Let_def)
  next
    case False
    then show ?thesis by (auto simp: reuse_slot_def require_bind_if)
  qed
  then show ?thesis using ne by (simp add: sp_allocate_def)
qed

text \<open>C19: when \<open>allocate\<close> succeeds and what it does then. On a well-formed page of less than
  \<open>2 ^ 19\<close> bytes, in whose header \<open>first_free_slot\<close> is a free slot or lies behind the last slot (a
  new page has this and \<open>allocate\<close> and \<open>erase\<close> keep it), it fails exactly when \<open>first_free_slot\<close> lies beyond the end of the directory (which \<open>erase\<close> can bring
  about, when it gives up the slots at the end: then no allocation succeeds however much space is
  free) or the free space does not suffice for the data and, at the end of the directory, a new
  slot. Otherwise it returns \<open>first_free_slot\<close> (a free slot, not always the lowest one, or a new
  one), which holds a record of zeros, and leaves every other entry alone, whether or not it had to
  compactify; \<open>first_free_slot\<close> is then a free slot or the end of the directory, and the number of
  slots fits its 16 bits.\<close>

theorem sp_allocate_correct:
  assumes "sp_inv ps p" "ps < 2 ^ 19" "ff_free p" "0 < n"
  shows "if first_free_slot p \<le> slot_count p \<and> n + (if first_free_slot p = slot_count p then 8 else 0) \<le> free_space p
    then \<exists>p'. sp_allocate n ps p = Some (first_free_slot p, p') \<and> sp_inv ps p' \<and> ff_ok p' \<and> slot_count p' < 2 ^ 16
      \<and> entries p' = (if first_free_slot p = slot_count p then entries p @ [Record False (replicate n 0)]
           else (entries p)[first_free_slot p := Record False (replicate n 0)])
      \<and> free_space p' = free_space p - (n + (if first_free_slot p = slot_count p then 8 else 0))
    else sp_allocate n ps p = None"
proof (cases "first_free_slot p \<le> slot_count p \<and> n + (if first_free_slot p = slot_count p then 8 else 0) \<le> free_space p")
  case True
  then have "ff_ok p" using assms(3) by (simp add: ff_ok_def ff_free_def)
  from sp_allocate_ok [OF assms(1) this assms(4)] True directory_bound [OF _ assms(2)] show ?thesis by force
next
  case False
  then show ?thesis using sp_allocate_fails [OF assms(1), of n] by (simp only: if_False) (meson linorder_not_le)
qed

lemma sp_allocate_correct_witness:
  "(\<exists>p'. sp_allocate 10 64 (sp_init 64) = Some (0, p') \<and> entries p' = [Record False (replicate 10 0)] \<and> free_space p' = 34)
   \<and> sp_allocate 45 64 (sp_init 64) = None"
proof -
  have b: "(12 :: nat) \<le> 64" "(64 :: nat) < 2 ^ 24" "(64 :: nat) < 2 ^ 19" by simp_all
  note c = sp_allocate_correct [OF sp_init_inv(1) [OF b(1,2)] b(3) ff_free_init]
  show ?thesis using c [of 10] c [of 45] sp_init_inv(3) [of 64] by (auto simp: sp_init_def)
qed

lemma one_record:
  "\<exists>p. sp_allocate 10 64 (sp_init 64) = Some (0, p) \<and> sp_inv 64 p \<and> ff_ok p
     \<and> entries p = [Record False (replicate 10 0)] \<and> slot_count p = 1 \<and> live (slots p ! 0) \<and> free_space p = 34"
proof -
  have b: "(12 :: nat) \<le> 64" "(64 :: nat) < 2 ^ 24" by simp_all
  obtain p where p: "sp_allocate 10 64 (sp_init 64) = Some (0, p)" "sp_inv 64 p" "ff_ok p" "free_space p = 34"
      "entries p = [Record False (replicate 10 0)]"
    using sp_allocate_ok [OF sp_init_inv(1) [OF b] sp_init_inv(2), of 10] sp_init_inv(3) [of 64]
    by (auto simp: sp_init_def)
  have len: "length (slots p) = 1" using p(5) length_entries [of p] by simp
  then have "slot_count p = 1" using sp_memD(3) [OF sp_invD(1) [OF p(2)]] by simp
  moreover have "\<exists>t bs. entries p ! 0 = Record t bs" using p(5) by auto
  then have "live (slots p ! 0)" using entries_Record [of 0 p] len by (metis zero_less_one)
  ultimately show ?thesis using p by blast
qed

text \<open>C21: \<open>erase\<close> never fails on a slot with a record: it frees that slot and keeps every other
  entry; the free slots at the end of the directory are given up when the last one was erased.\<close>

theorem sp_erase_correct:
  assumes "sp_inv ps p" "i < slot_count p" "entries p ! i = Record t bs"
  shows "\<exists>p'. sp_erase i p = Some p' \<and> sp_inv ps p'
    \<and> entries p' = (if i = slot_count p - 1 then trim_free ((entries p)[i := Free]) else (entries p)[i := Free])
    \<and> first_free_slot p' = min i (first_free_slot p)"
proof -
  have "live (slots p ! i)"
    using assms entries_Record [of i p] sp_memD(3) [OF sp_invD(1) [OF assms(1)]] by auto
  from sp_erase_ok [OF assms(1,2) this] show ?thesis .
qed

theorem sp_erase_correct_witness:
  "\<exists>p p'. sp_allocate 10 64 (sp_init 64) = Some (0, p) \<and> sp_erase 0 p = Some p' \<and> entries p' = []"
proof -
  obtain p where p: "sp_allocate 10 64 (sp_init 64) = Some (0, p)" "sp_inv 64 p" "slot_count p = 1"
      "entries p = [Record False (replicate 10 0)]" using one_record by blast
  show ?thesis using sp_erase_correct [OF p(2), of 0 False "replicate 10 0"] p by (auto simp: trim_free_def)
qed

text \<open>C20: \<open>relocate\<close> resizes a record in place of its slot: it cuts the record off at the end or
  pads it with zeros, and keeps every other entry. A record that grows loses the mark of a
  redirect target, one that shrinks keeps it.\<close>

theorem sp_relocate_correct:
  assumes "sp_inv ps p" "i < slot_count p" "entries p ! i = Record t bs" "0 < n"
    "n \<le> free_space p + length bs" "t \<longrightarrow> n < length bs \<longrightarrow> 8 < n"
  shows "\<exists>p'. relocate i n ps p = Some p' \<and> sp_inv ps p'
    \<and> entries p' = (entries p)[i := if n \<le> length bs then Record t (take n bs)
                                    else Record False (bs @ replicate (n - length bs) 0)]
    \<and> slot_count p' = slot_count p \<and> free_space p' + n = free_space p + length bs"
proof -
  let ?s = "slots p ! i"
  note m = sp_invD(1) [OF assms(1)]
  have il: "i < length (slots p)" using assms(2) sp_memD(3) [OF m] by simp
  have lv: "live ?s" using entries_Record [OF il] assms(3) by auto
  note r = sp_mem_live [OF m assms(2) lv]
  have e: "t = is_redirect_target ?s" "bs = slot_bytes (page_data p) ?s"
    using assms(3) entries_nth [OF il] entry_of_live [OF lv, of "page_data p"] by simp_all
  have lb: "length bs = slot_size ?s" using r sp_memD(2) [OF m] by (simp add: e(2) slot_bytes_def)
  have ne: "\<not> is_empty ?s" "\<not> is_redirect ?s" using lv by (simp_all add: live_def)
  have start: "relocate i n ps p =
      (if slot_size ?s = n then Some p
       else if slot_size ?s > n then do {
         require (\<not> is_redirect_target ?s \<or> n > 8);
         put_slot i (set_size (of_nat n) ?s) (p\<lparr>free_space := free_space p + (slot_size ?s - n)\<rparr>) }
       else relocate_larger i ?s n ps p)"
    using assms(2) il ne r(1) by (simp add: relocate_def)
  consider "n = slot_size ?s" | "n < slot_size ?s" | "slot_size ?s < n" by linarith
  then show ?thesis
  proof cases
    case 1
    have "(entries p)[i := entries p ! i] = entries p" by simp
    then show ?thesis using start 1 assms(1,3) lb by simp
  next
    case 2
    define p' where "p' = p\<lparr>free_space := free_space p + (slot_size ?s - n), slots := (slots p)[i := set_size (of_nat n) ?s]\<rparr>"
    note sh = shrink_ok [OF assms(1,2) lv assms(4) 2 p'_def]
    have "relocate i n ps p = Some p'"
      using start 2 assms(6) e(1) lb il by (auto simp: put_slot_def p'_def)
    then show ?thesis using sh 2 lb e by (intro exI [of _ p']) (simp add: p'_def)
  next
    case 3
    have "n \<le> free_space p + slot_size ?s" using assms(5) lb by simp
    from relocate_larger_ok [OF assms(1,2) lv 3 this] obtain p' where
      "relocate_larger i ?s n ps p = Some p'" "sp_inv ps p'"
      "entries p' = (entries p)[i := Record False (bs @ replicate (n - length bs) 0)]"
      "slot_count p' = slot_count p" "free_space p' = free_space p + slot_size ?s - n"
      by (auto simp: e(2) [symmetric] lb)
    then show ?thesis using start 3 lb assms(5) by simp
  qed
qed

theorem sp_relocate_correct_witness:
  "\<exists>p p'. sp_allocate 10 64 (sp_init 64) = Some (0, p) \<and> relocate 0 40 64 p = Some p'
    \<and> entries p' = [Record False (replicate 10 0 @ replicate 30 0)]"
proof -
  obtain p where p: "sp_allocate 10 64 (sp_init 64) = Some (0, p)" "sp_inv 64 p" "slot_count p = 1"
      "entries p = [Record False (replicate 10 0)]" "free_space p = 34" using one_record by blast
  show ?thesis using sp_relocate_correct [OF p(2), of 0 False "replicate 10 0" 40] p by auto
qed

text \<open>A page on which \<open>allocate\<close> fails with room to spare: the search for the next free slot
  keeps the last one, so that the directory can shrink below it.\<close>

definition stuck_page :: "sp option" where
  "stuck_page = do {
     (_, p) \<leftarrow> sp_allocate 1 64 (sp_init 64);
     (_, p) \<leftarrow> sp_allocate 1 64 p;
     (_, p) \<leftarrow> sp_allocate 1 64 p;
     (_, p) \<leftarrow> sp_allocate 1 64 p;
     p \<leftarrow> sp_erase 0 p;
     p \<leftarrow> sp_erase 1 p;
     p \<leftarrow> sp_erase 2 p;
     (_, p) \<leftarrow> sp_allocate 1 64 p;
     sp_erase 3 p }"

theorem allocate_stuck:
  "\<exists>p. stuck_page = Some p \<and> slot_count p = 1 \<and> first_free_slot p = 2 \<and> free_space p = 43
    \<and> sp_allocate 1 64 p = None"
proof -
  have "map_option (\<lambda>p. (slot_count p, first_free_slot p, free_space p, sp_allocate 1 64 p)) stuck_page
      = Some (1, 2, 43, None)"
    by code_simp
  then show ?thesis by (auto simp: map_option_case split: option.splits)
qed

end
