(* ===== verification/FSI.thy ===== *)
theory FSI
  imports Slotted_Page_Correct
begin

text \<open>
  The free-space inventory (\<^verbatim>\<open>src/task-slotted-pages/src/slotted_page/fsi_segment.cc\<close>): four bits
  for every slotted page, two entries in a byte. The pages of the buffer manager that the
  segments of a table use are maps from page ids to frames; a frame of the inventory is its
  bytes, one of the slotted-page segment is the \<open>sp\<close> that the code casts it to. The segment
  ids are those of the table, as \<open>Database\<close> passes them.
\<close>

record segments =
  page_size :: nat
  sp_segment :: "16 word"
  fsi_segment :: "16 word"
  allocated_slotted_pages :: nat
  allocated_fsi_pages :: nat
  fsi_frames :: "64 word \<rightharpoonup> bytes"
  sp_frames :: "64 word \<rightharpoonup> sp"

section \<open>The encoding\<close>

definition look_up_table :: "nat \<Rightarrow> nat list" where
  "look_up_table ps =
     (let free_size = ps - 12;
          half_page_size = free_size div 2;
          linear_level = half_page_size div 8
      in [0,
          half_page_size div 64,
          half_page_size div 32,
          half_page_size div 16,
          half_page_size div 8,
          half_page_size div 4,
          half_page_size div 2,
          half_page_size,
          free_size - 7 * linear_level,
          free_size - 6 * linear_level,
          free_size - 5 * linear_level,
          free_size - 4 * linear_level,
          free_size - 3 * linear_level,
          free_size - 2 * linear_level,
          free_size - 1 * linear_level,
          free_size])"

text \<open>The loop from 15 down; it stops at 0, where the table holds 0.\<close>

fun encode_from :: "nat \<Rightarrow> nat list \<Rightarrow> nat \<Rightarrow> nat" where
  "encode_from 0 t space = 0"
| "encode_from (Suc i) t space = (if space \<ge> t ! Suc i then Suc i else encode_from i t space)"

definition encode_free_space :: "nat \<Rightarrow> nat \<Rightarrow> nat" where
  "encode_free_space ps space = encode_from 15 (look_up_table ps) space"

definition decode_free_space :: "nat \<Rightarrow> nat \<Rightarrow> nat" where
  "decode_free_space ps code = look_up_table ps ! code"

section \<open>Pages and entries\<close>

definition get_fsi_page :: "64 word \<Rightarrow> segments \<Rightarrow> 64 word \<times> nat \<times> bool" where
  "get_fsi_page target_page st =
     (let segment_page_id = unat (get_segment_page_id target_page) in
      if segment_page_id \<ge> allocated_slotted_pages st then (0, 0, False)
      else (page_in_segment (fsi_segment st) (of_nat (segment_page_id div (page_size st * 2))),
            segment_page_id mod (page_size st * 2), True))"

definition get_target_page :: "64 word \<Rightarrow> nat \<Rightarrow> segments \<Rightarrow> 64 word" where
  "get_target_page fsi_page entry st =
     (let segment_page_id = unat (get_segment_page_id fsi_page)
      in page_in_segment (sp_segment st) (of_nat (segment_page_id * (page_size st * 2) + entry)))"

definition set_first :: "nat \<Rightarrow> 8 word \<Rightarrow> 8 word" where
  "set_first code e = push_bit 4 (of_nat code) + (e AND 0x0F)"

definition set_second :: "nat \<Rightarrow> 8 word \<Rightarrow> 8 word" where
  "set_second code e = (e AND 0xF0) + of_nat code"

definition fsi_update :: "64 word \<Rightarrow> nat \<Rightarrow> segments \<Rightarrow> segments option" where
  "fsi_update target_page space st = do {
     let (fsi_page, fsi_page_offset, ok) = get_fsi_page target_page st;
     require ok;
     d \<leftarrow> fsi_frames st fsi_page;
     e \<leftarrow> arr_get d (fsi_page_offset div 2);
     let code = encode_free_space (page_size st) space;
     let d = d[fsi_page_offset div 2 := (if fsi_page_offset mod 2 = 0 then set_first code e else set_second code e)];
     Some (st\<lparr>fsi_frames := (fsi_frames st)(fsi_page \<mapsto> d)\<rparr>) }"

text \<open>The scan of one page of the inventory, from a byte on.\<close>

datatype fsi_scan = Exhausted nat | Hit nat "8 word" nat | NoFit

fun find_in_page :: "nat \<Rightarrow> nat \<Rightarrow> nat \<Rightarrow> bytes \<Rightarrow> nat \<Rightarrow> nat \<Rightarrow> fsi_scan" where
  "find_in_page ps required_space num_sp [] byte sp = Exhausted sp"
| "find_in_page ps required_space num_sp (e # es) byte sp =
     (let space = decode_free_space ps (unat (drop_bit 4 e)) in
      if space \<ge> required_space
      then Hit byte (push_bit 4 (of_nat (encode_free_space ps (space - required_space))) OR (e AND 0x0F)) (byte * 2)
      else if sp + 1 = num_sp then NoFit
      else
        let space = decode_free_space ps (unat (e AND 0x0F)) in
        if space \<ge> required_space
        then Hit byte ((e AND 0xF0) OR of_nat (encode_free_space ps (space - required_space))) (byte * 2 + 1)
        else if sp + 2 = num_sp then NoFit
        else find_in_page ps required_space num_sp es (byte + 1) (sp + 2))"

fun find_from :: "nat \<Rightarrow> nat list \<Rightarrow> nat \<Rightarrow> segments \<Rightarrow> ((bool \<times> 64 word) \<times> segments) option" where
  "find_from required_space [] sp st = None"
| "find_from required_space (fsi_page # rest) sp st = do {
     let fsi_page_id = page_in_segment (fsi_segment st) (of_nat fsi_page);
     d \<leftarrow> fsi_frames st fsi_page_id;
     case find_in_page (page_size st) required_space (allocated_slotted_pages st) d 0 sp of
       Hit byte e entry \<Rightarrow>
         Some ((True, get_target_page fsi_page_id entry st),
               st\<lparr>fsi_frames := (fsi_frames st)(fsi_page_id \<mapsto> d[byte := e])\<rparr>)
     | NoFit \<Rightarrow>
         Some ((False, page_in_segment (sp_segment st) (of_nat (allocated_slotted_pages st))), st)
     | Exhausted sp \<Rightarrow> find_from required_space rest sp st }"

definition fsi_find :: "nat \<Rightarrow> segments \<Rightarrow> ((bool \<times> 64 word) \<times> segments) option" where
  "fsi_find required_space st = do {
     require (allocated_slotted_pages st > 0);
     require (allocated_fsi_pages st > 0);
     require (allocated_slotted_pages st * (page_size st * 2) \<ge> allocated_slotted_pages st);
     find_from required_space [0..<allocated_fsi_pages st] 0 st }"

text \<open>The constructor: one page of entries, all of them full.\<close>

definition fsi_init :: "segments \<Rightarrow> segments" where
  "fsi_init st = st\<lparr>allocated_fsi_pages := 1,
     fsi_frames := (fsi_frames st)(page_in_segment (fsi_segment st) 0 \<mapsto> replicate (page_size st) 0xFF)\<rparr>"

section \<open>The encoding never promises too much\<close>

lemma encode_from_le: "encode_from n t f \<le> n"
  by (induction n) auto

lemma encode_from_fits: "t ! 0 = 0 \<Longrightarrow> t ! encode_from n t f \<le> f"
  by (induction n) auto

lemma encode_from_next: "encode_from n t f < m \<Longrightarrow> m \<le> n \<Longrightarrow> f < t ! m"
  by (induction n) (auto simp: le_Suc_eq split: if_splits)

lemma encode_less: "encode_free_space ps f < 16"
  using encode_from_le [of 15 "look_up_table ps" f] by (simp add: encode_free_space_def)

lemma decode_encode_le: "decode_free_space ps (encode_free_space ps f) \<le> f"
  unfolding decode_free_space_def encode_free_space_def by (rule encode_from_fits) (simp add: look_up_table_def Let_def)

lemma table_mono: "i \<le> j \<Longrightarrow> j < 16 \<Longrightarrow> look_up_table ps ! i \<le> look_up_table ps ! j"
proof -
  have "sorted (look_up_table ps)"
  proof -
    define h where "h = (ps - 12) div 2"
    define l where "l = h div 8"
    have "8 * l \<le> h" "2 * h \<le> ps - 12" by (simp_all add: h_def l_def)
    then have "h \<le> ps - 12 - 7 * l" by linarith
    moreover have "h div 64 \<le> h div 32" "h div 32 \<le> h div 16" "h div 16 \<le> h div 8" "h div 8 \<le> h div 4"
      "h div 4 \<le> h div 2" "h div 2 \<le> h" by (simp_all add: div_le_mono2)
    ultimately show ?thesis
      unfolding look_up_table_def Let_def h_def [symmetric] l_def [symmetric] sorted2 sorted1
      by (intro conjI) (assumption | rule le0 TrueI diff_le_mono2 diff_le_self | simp)+
  qed
  moreover have "length (look_up_table ps) = 16" by (simp add: look_up_table_def Let_def)
  ultimately show "i \<le> j \<Longrightarrow> j < 16 \<Longrightarrow> ?thesis" by (simp add: sorted_nth_mono)
qed

section \<open>Entries of a page\<close>

definition entry_code :: "bytes \<Rightarrow> nat \<Rightarrow> nat" where
  "entry_code d k = unat (if k mod 2 = 0 then drop_bit 4 (d ! (k div 2)) else d ! (k div 2) AND 0x0F)"

definition set_entry :: "nat \<Rightarrow> nat \<Rightarrow> bytes \<Rightarrow> bytes" where
  "set_entry k code d =
     d[k div 2 := (if k mod 2 = 0 then set_first code (d ! (k div 2)) else set_second code (d ! (k div 2)))]"

lemma code_bits_nat: "code < 16 \<Longrightarrow> bit (code :: nat) n \<Longrightarrow> n < 4"
proof -
  assume c: "code < 16" and b: "bit code n"
  have "take_bit 4 code = code" using c by (simp add: take_bit_nat_eq_self_iff)
  then show "n < 4" using b by (metis bit_take_bit_iff)
qed

lemma code_bits: "code < 16 \<Longrightarrow> bit (of_nat code :: 8 word) n \<Longrightarrow> n < 4"
  by (simp add: bit_of_nat_iff code_bits_nat)

lemma byte_masks: "(0x0F :: 8 word) = mask 4" "(0xF0 :: 8 word) = push_bit 4 (mask 4)"
  by (code_simp, code_simp)

lemma set_first_or: "code < 16 \<Longrightarrow> set_first code e = push_bit 4 (of_nat code) OR (e AND 0x0F)"
  unfolding set_first_def byte_masks
  by (rule disjunctive_add_eq_or, rule bit_eqI) (auto simp: bit_simps)

lemma set_second_or: "code < 16 \<Longrightarrow> set_second code e = (e AND 0xF0) OR of_nat code"
  unfolding set_second_def byte_masks
  by (rule disjunctive_add_eq_or, rule bit_eqI) (auto simp: bit_simps dest: code_bits)

lemma nibbles:
  assumes "code < 16"
  shows "unat (drop_bit 4 (set_first code e)) = code" "set_first code e AND 0x0F = e AND 0x0F"
    "unat (set_second code e AND 0x0F) = code" "drop_bit 4 (set_second code e) = drop_bit 4 e"
proof -
  have "drop_bit 4 (set_first code e) = of_nat code"
    unfolding set_first_or [OF assms] byte_masks
    by (rule bit_eqI) (use code_bits [OF assms] in \<open>auto simp: bit_simps\<close>)
  then show "unat (drop_bit 4 (set_first code e)) = code" using assms by (simp add: unat_of_nat)
  have "set_second code e AND 0x0F = of_nat code"
    unfolding set_second_or [OF assms] byte_masks
    by (rule bit_eqI) (use code_bits [OF assms] in \<open>auto simp: bit_simps\<close>)
  then show "unat (set_second code e AND 0x0F) = code" using assms by (simp add: unat_of_nat)
  show "set_first code e AND 0x0F = e AND 0x0F"
    unfolding set_first_or [OF assms] byte_masks by (rule bit_eqI) (auto simp: bit_simps)
  show "drop_bit 4 (set_second code e) = drop_bit 4 e"
    unfolding set_second_or [OF assms] byte_masks
    by (rule bit_eqI) (auto simp: bit_simps dest: code_bits_nat [OF assms] bit_imp_le_length)
qed

lemma entry_code_set_entry:
  assumes "code < 16" "k div 2 < length d"
  shows "entry_code (set_entry k code d) j = (if j = k then code else entry_code d j)"
proof (cases "j div 2 = k div 2")
  case False
  then show ?thesis by (auto simp: entry_code_def set_entry_def)
next
  case True
  have "j = k \<longleftrightarrow> j mod 2 = k mod 2" using True by (metis div_mult_mod_eq)
  then show ?thesis using assms(2) True nibbles [OF assms(1)]
    by (auto simp: entry_code_def set_entry_def)
qed

lemma length_set_entry [simp]: "length (set_entry k code d) = length d"
  by (simp add: set_entry_def)

section \<open>The scan of a page\<close>

abbreviation fits :: "nat \<Rightarrow> nat \<Rightarrow> bytes \<Rightarrow> nat \<Rightarrow> bool" where
  "fits ps req d k \<equiv> req \<le> decode_free_space ps (entry_code d k)"

lemma entry_code_pair:
  "entry_code d (2 * b) = unat (drop_bit 4 (d ! b))" "entry_code d (Suc (2 * b)) = unat (d ! b AND 0x0F)"
  by (simp_all add: entry_code_def)

lemma find_in_page_ok:
  assumes "es = drop byte d" "byte \<le> length d" "sp = base + 2 * byte" "sp < num_sp"
  shows "case find_in_page ps req num_sp es byte sp of
      Hit b e k \<Rightarrow> 2 * byte \<le> k \<and> base + k < num_sp \<and> k < 2 * length d \<and> fits ps req d k
        \<and> (\<forall>j < k. 2 * byte \<le> j \<longrightarrow> \<not> fits ps req d j)
        \<and> d[b := e] = set_entry k (encode_free_space ps (decode_free_space ps (entry_code d k) - req)) d
    | NoFit \<Rightarrow> num_sp \<le> base + 2 * length d \<and> (\<forall>j. 2 * byte \<le> j \<longrightarrow> base + j < num_sp \<longrightarrow> \<not> fits ps req d j)
    | Exhausted sp' \<Rightarrow> sp' = base + 2 * length d \<and> sp' < num_sp
        \<and> (\<forall>j < 2 * length d. 2 * byte \<le> j \<longrightarrow> \<not> fits ps req d j)"
  using assms
proof (induction ps req num_sp es byte sp rule: find_in_page.induct)
  case (1 ps req num_sp byte sp)
  then show ?case by auto
next
  case (2 ps req num_sp e es byte sp)
  have lt: "byte < length d"
  proof (rule ccontr)
    assume "\<not> byte < length d"
    then show False using 2(2) by simp
  qed
  have e: "e = d ! byte" "es = drop (Suc byte) d"
    using trans [OF 2(2) sym [OF Cons_nth_drop_Suc [OF lt]]] by simp_all
  have c1: "unat (drop_bit 4 e) = entry_code d (2 * byte)" "unat (e AND 0x0F) = entry_code d (Suc (2 * byte))"
    by (simp_all add: entry_code_pair e)
  have upto: "2 * byte \<le> j \<Longrightarrow> j = 2 * byte \<or> j = Suc (2 * byte) \<or> 2 * Suc byte \<le> j" for j by presburger
  have s1: "d[byte := push_bit 4 (of_nat code) OR (e AND 0x0F)] = set_entry (byte * 2) code d" if "code < 16" for code
    by (simp add: set_entry_def e set_first_or [OF that])
  have s2: "d[byte := (e AND 0xF0) OR of_nat code] = set_entry (byte * 2 + 1) code d" if "code < 16" for code
  proof -
    have "(byte * 2 + 1) mod 2 = 1" "(byte * 2 + 1) div 2 = byte" by presburger+
    then show ?thesis unfolding set_entry_def by (simp add: e set_second_or [OF that])
  qed
  consider (first) "fits ps req d (2 * byte)"
    | (end1) "\<not> fits ps req d (2 * byte)" "sp + 1 = num_sp"
    | (second) "\<not> fits ps req d (2 * byte)" "sp + 1 \<noteq> num_sp" "fits ps req d (Suc (2 * byte))"
    | (end2) "\<not> fits ps req d (2 * byte)" "sp + 1 \<noteq> num_sp" "\<not> fits ps req d (Suc (2 * byte))" "sp + 2 = num_sp"
    | (next_byte) "\<not> fits ps req d (2 * byte)" "sp + 1 \<noteq> num_sp" "\<not> fits ps req d (Suc (2 * byte))" "sp + 2 \<noteq> num_sp"
    by blast
  then show ?case
  proof cases
    case first
    have "find_in_page ps req num_sp (e # es) byte sp
        = Hit byte (push_bit 4 (of_nat (encode_free_space ps (decode_free_space ps (entry_code d (2 * byte)) - req)))
            OR (e AND 0x0F)) (byte * 2)"
      using first by (simp only: find_in_page.simps Let_def c1 if_True)
    then show ?thesis using first lt 2(4,5) s1 [OF encode_less] by (simp only: fsi_scan.case) (simp add: mult.commute)
  next
    case end1
    then have "find_in_page ps req num_sp (e # es) byte sp = NoFit"
      by (simp only: find_in_page.simps Let_def c1 if_True if_False refl)
    moreover have "\<not> fits ps req d j" if "2 * byte \<le> j" "base + j < num_sp" for j
    proof -
      have "j = 2 * byte" using that end1(2) 2(4) by linarith
      then show ?thesis using end1(1) by simp
    qed
    ultimately show ?thesis using end1 lt 2(4) by simp
  next
    case second
    have "find_in_page ps req num_sp (e # es) byte sp
        = Hit byte ((e AND 0xF0) OR
            of_nat (encode_free_space ps (decode_free_space ps (entry_code d (Suc (2 * byte))) - req))) (byte * 2 + 1)"
      using second by (simp only: find_in_page.simps Let_def c1 if_True if_False refl)
    then show ?thesis using second lt 2(4,5) s2 [OF encode_less]
      by (simp only: fsi_scan.case) (auto simp: mult.commute less_Suc_eq)
  next
    case end2
    then have "find_in_page ps req num_sp (e # es) byte sp = NoFit"
      by (simp only: find_in_page.simps Let_def c1 if_True if_False refl)
    moreover have "\<not> fits ps req d j" if "2 * byte \<le> j" "base + j < num_sp" for j
    proof -
      have "j = 2 * byte \<or> j = Suc (2 * byte)" using that end2(4) 2(4) upto [OF that(1)] by linarith
      then show ?thesis using end2(1,3) by auto
    qed
    ultimately show ?thesis using end2 lt 2(4) by simp
  next
    case next_byte
    have run: "find_in_page ps req num_sp (e # es) byte sp = find_in_page ps req num_sp es (byte + 1) (sp + 2)"
      using next_byte by (simp only: find_in_page.simps Let_def c1 if_True if_False refl)
    have ih: "case find_in_page ps req num_sp es (byte + 1) (sp + 2) of
      Hit b e k \<Rightarrow> 2 * (byte + 1) \<le> k \<and> base + k < num_sp \<and> k < 2 * length d \<and> fits ps req d k
        \<and> (\<forall>j < k. 2 * (byte + 1) \<le> j \<longrightarrow> \<not> fits ps req d j)
        \<and> d[b := e] = set_entry k (encode_free_space ps (decode_free_space ps (entry_code d k) - req)) d
    | NoFit \<Rightarrow> num_sp \<le> base + 2 * length d \<and> (\<forall>j. 2 * (byte + 1) \<le> j \<longrightarrow> base + j < num_sp \<longrightarrow> \<not> fits ps req d j)
    | Exhausted sp' \<Rightarrow> sp' = base + 2 * length d \<and> sp' < num_sp
        \<and> (\<forall>j < 2 * length d. 2 * (byte + 1) \<le> j \<longrightarrow> \<not> fits ps req d j)"
      using next_byte e lt 2(4,5) by (intro 2(1) [OF refl _ _ refl]) (simp_all add: entry_code_pair)
    have j: "\<not> fits ps req d j" if "2 * byte \<le> j" "2 * Suc byte \<le> j \<Longrightarrow> \<not> fits ps req d j" for j
      using upto [OF that(1)] that(2) next_byte by auto
    show ?thesis unfolding run using ih j
      by (cases "find_in_page ps req num_sp es (byte + 1) (sp + 2)") auto
  qed
qed

section \<open>Page ids of a segment\<close>

lemma of_nat_bits48: "n < 2 ^ 48 \<Longrightarrow> bit (of_nat n :: 64 word) m \<Longrightarrow> m < 48"
proof -
  assume n: "n < 2 ^ 48" and b: "bit (of_nat n :: 64 word) m"
  have "take_bit 48 n = n" using n by (simp only: take_bit_nat_eq_self_iff)
  moreover have "bit n m" using b by (simp add: bit_of_nat_iff)
  ultimately show "m < 48" by (metis bit_take_bit_iff)
qed

lemma page_in_segment_page:
  assumes "n < 2 ^ 48"
  shows "get_segment_page_id (page_in_segment s (of_nat n)) = of_nat n" "get_segment_id (page_in_segment s (of_nat n)) = s"
    "unat (get_segment_page_id (page_in_segment s (of_nat n))) = n"
proof -
  note b = of_nat_bits48 [OF assms]
  show e: "get_segment_page_id (page_in_segment s (of_nat n)) = of_nat n"
    unfolding get_segment_page_id_def page_in_segment_def masks
    by (rule bit_eqI) (auto simp: bit_and_iff bit_xor_iff bit_push_bit_iff bit_mask_iff dest: b)
  show "get_segment_id (page_in_segment s (of_nat n)) = s"
    unfolding get_segment_id_def page_in_segment_def
    by (rule bit_eqI)
      (auto simp: bit_unsigned_iff bit_drop_bit_eq bit_xor_iff bit_push_bit_iff dest: b bit_imp_le_length)
  have "(2 :: nat) ^ 48 < 2 ^ 64" by simp
  then have "n < 2 ^ LENGTH(64)" using assms by simp
  then show "unat (get_segment_page_id (page_in_segment s (of_nat n))) = n"
    unfolding e by (simp only: unat_of_nat mod_less)
qed

lemma page_in_segment_inj:
  "m < 2 ^ 48 \<Longrightarrow> n < 2 ^ 48 \<Longrightarrow> page_in_segment s (of_nat m) = page_in_segment s (of_nat n) \<longleftrightarrow> m = n"
  by (metis page_in_segment_page(3))

section \<open>The inventory as a function\<close>

abbreviation fsi_page_id :: "segments \<Rightarrow> nat \<Rightarrow> 64 word" where
  "fsi_page_id st f \<equiv> page_in_segment (fsi_segment st) (of_nat f)"

abbreviation sp_page_id :: "segments \<Rightarrow> nat \<Rightarrow> 64 word" where
  "sp_page_id st k \<equiv> page_in_segment (sp_segment st) (of_nat k)"

definition code_at :: "segments \<Rightarrow> nat \<Rightarrow> nat" where
  "code_at st k = entry_code (the (fsi_frames st (fsi_page_id st (k div (page_size st * 2))))) (k mod (page_size st * 2))"

definition fsi_ok :: "segments \<Rightarrow> bool" where
  "fsi_ok st \<longleftrightarrow> 0 < page_size st \<and> 0 < allocated_slotted_pages st \<and> 0 < allocated_fsi_pages st
     \<and> allocated_slotted_pages st \<le> allocated_fsi_pages st * (page_size st * 2)
     \<and> allocated_fsi_pages st * (page_size st * 2) < 2 ^ 48
     \<and> (\<forall>f < allocated_fsi_pages st. \<exists>d. fsi_frames st (fsi_page_id st f) = Some d \<and> length d = page_size st)"

lemma fsi_okD:
  assumes "fsi_ok st"
  shows "0 < page_size st" "allocated_slotted_pages st \<le> allocated_fsi_pages st * (page_size st * 2)"
    "allocated_slotted_pages st < 2 ^ 48" "f < allocated_fsi_pages st \<Longrightarrow> f < 2 ^ 48"
proof -
  show "0 < page_size st" "allocated_slotted_pages st \<le> allocated_fsi_pages st * (page_size st * 2)"
    "allocated_slotted_pages st < 2 ^ 48" using assms by (simp_all add: fsi_ok_def)
  assume "f < allocated_fsi_pages st"
  moreover have "allocated_fsi_pages st \<le> allocated_fsi_pages st * (page_size st * 2)"
    using assms by (simp add: fsi_ok_def)
  moreover have "allocated_fsi_pages st * (page_size st * 2) < 2 ^ 48" using assms unfolding fsi_ok_def by blast
  ultimately show "f < 2 ^ 48" by linarith
qed

lemma fsi_page_bound: "fsi_ok st \<Longrightarrow> k < allocated_slotted_pages st
    \<Longrightarrow> k div (page_size st * 2) < allocated_fsi_pages st \<and> k mod (page_size st * 2) div 2 < page_size st"
proof -
  assume "fsi_ok st" "k < allocated_slotted_pages st"
  then have "0 < page_size st" "k < allocated_fsi_pages st * (page_size st * 2)"
    using fsi_okD [of st] by auto
  moreover have "k mod (page_size st * 2) < page_size st * 2" using \<open>0 < page_size st\<close> by simp
  then have "k mod (page_size st * 2) div 2 < page_size st" by linarith
  ultimately show ?thesis using less_mult_imp_div_less by blast
qed

text \<open>One entry is replaced, the others keep their value.\<close>

lemma set_code:
  assumes ok: "fsi_ok st" and k: "k < allocated_slotted_pages st" and code: "code < 16"
    and d: "fsi_frames st (fsi_page_id st (k div (page_size st * 2))) = Some d"
    and st': "st' = st\<lparr>fsi_frames := (fsi_frames st)(fsi_page_id st (k div (page_size st * 2))
      \<mapsto> set_entry (k mod (page_size st * 2)) code d)\<rparr>"
  shows "fsi_ok st'" "j < allocated_slotted_pages st \<Longrightarrow> code_at st' j = (if j = k then code else code_at st j)"
proof -
  let ?n = "page_size st * 2"
  note b = fsi_page_bound [OF ok k]
  have len: "length d = page_size st" using ok b d unfolding fsi_ok_def by (metis option.inject)
  show "fsi_ok st'" using ok d len by (auto simp: fsi_ok_def st')
  show "code_at st' j = (if j = k then code else code_at st j)" if "j < allocated_slotted_pages st"
  proof (cases "j div ?n = k div ?n")
    case True
    have "j = k \<longleftrightarrow> j mod ?n = k mod ?n" using True by (metis div_mult_mod_eq)
    then show ?thesis using True b len d code
      by (simp add: code_at_def st' entry_code_set_entry)
  next
    case False
    have "fsi_page_id st (j div ?n) \<noteq> fsi_page_id st (k div ?n)"
      using False fsi_page_bound [OF ok that] b fsi_okD(4) [OF ok] by (simp add: page_in_segment_inj)
    then show ?thesis using False by (auto simp: code_at_def st')
  qed
qed

lemma fsi_update_ok:
  assumes ok: "fsi_ok st" and k: "k < allocated_slotted_pages st"
  shows "\<exists>st'. fsi_update (sp_page_id st k) space st = Some st' \<and> fsi_ok st'
    \<and> st' = st\<lparr>fsi_frames := fsi_frames st'\<rparr>
    \<and> (\<forall>j < allocated_slotted_pages st.
         code_at st' j = (if j = k then encode_free_space (page_size st) space else code_at st j))"
proof -
  let ?n = "page_size st * 2"
  note b = fsi_page_bound [OF ok k]
  have k48: "k < 2 ^ 48" using k fsi_okD(3) [OF ok] by simp
  obtain d where d: "fsi_frames st (fsi_page_id st (k div ?n)) = Some d" "length d = page_size st"
    using ok b unfolding fsi_ok_def by metis
  define st' where "st' = st\<lparr>fsi_frames := (fsi_frames st)(fsi_page_id st (k div ?n)
      \<mapsto> set_entry (k mod ?n) (encode_free_space (page_size st) space) d)\<rparr>"
  have "get_fsi_page (sp_page_id st k) st = (fsi_page_id st (k div ?n), k mod ?n, True)"
    using k page_in_segment_page(3) [OF k48] by (simp add: get_fsi_page_def Let_def)
  then have "fsi_update (sp_page_id st k) space st = Some st'"
    using d b by (simp add: fsi_update_def Let_def set_entry_def st'_def)
  moreover have "st' = st\<lparr>fsi_frames := fsi_frames st'\<rparr>" by (simp add: st'_def)
  ultimately show ?thesis using set_code [OF ok k encode_less d(1) st'_def] by blast
qed

abbreviation space_at :: "segments \<Rightarrow> nat \<Rightarrow> nat" where
  "space_at st k \<equiv> decode_free_space (page_size st) (code_at st k)"

lemma code_at_page:
  assumes "fsi_ok st" "f < allocated_fsi_pages st" "fsi_frames st (fsi_page_id st f) = Some d" "e < page_size st * 2"
  shows "code_at st (f * (page_size st * 2) + e) = entry_code d e"
  using assms by (simp add: code_at_def)

section \<open>find\<close>

definition found_page :: "nat \<Rightarrow> segments \<Rightarrow> nat \<Rightarrow> segments \<Rightarrow> bool" where
  "found_page req st k st' \<longleftrightarrow> k < allocated_slotted_pages st \<and> req \<le> space_at st k
     \<and> (\<forall>j < k. space_at st j < req) \<and> fsi_ok st' \<and> st' = st\<lparr>fsi_frames := fsi_frames st'\<rparr>
     \<and> (\<forall>j < allocated_slotted_pages st. code_at st' j =
          (if j = k then encode_free_space (page_size st) (space_at st k - req) else code_at st j))"

lemma find_from_ok:
  assumes ok: "fsi_ok st"
  shows "f * (page_size st * 2) < allocated_slotted_pages st \<Longrightarrow> \<forall>j < f * (page_size st * 2). space_at st j < req
    \<Longrightarrow> \<exists>r st'. find_from req [f..<allocated_fsi_pages st] (f * (page_size st * 2)) st = Some (r, st')
      \<and> ((\<exists>k. r = (True, sp_page_id st k) \<and> found_page req st k st')
        \<or> (r = (False, sp_page_id st (allocated_slotted_pages st)) \<and> st' = st
             \<and> (\<forall>j < allocated_slotted_pages st. space_at st j < req)))"
proof (induction "allocated_fsi_pages st - f" arbitrary: f rule: less_induct)
  case less
  let ?n = "page_size st * 2" and ?num = "allocated_slotted_pages st" and ?nf = "allocated_fsi_pages st"
  have "f * ?n < ?nf * ?n" using less.prems(1) fsi_okD(2) [OF ok] by linarith
  then have f: "f < ?nf" using mult_less_cancel2 by blast
  then have f48: "f < 2 ^ 48" by (rule fsi_okD(4) [OF ok])
  obtain d where d: "fsi_frames st (fsi_page_id st f) = Some d" "length d = page_size st"
    using ok f unfolding fsi_ok_def by blast
  have c: "code_at st (f * ?n + e) = entry_code d e" if "e < ?n" for e using code_at_page [OF ok f d(1) that] .
  have before: "space_at st j < req" if "j < f * ?n + e" "\<forall>i < e. \<not> fits (page_size st) req d i" "e \<le> ?n" for j e
  proof (cases "j < f * ?n")
    case False
    then obtain i where j: "j = f * ?n + i" using le_Suc_ex by (metis not_less)
    have "i < e" using that(1) unfolding j by (simp only: add_less_cancel_left)
    note i = j this
    have "i < ?n" using i(2) that(3) by linarith
    then have "code_at st j = entry_code d i" unfolding i(1) by (rule c)
    moreover have "\<not> fits (page_size st) req d i" using that(2) i(2) by blast
    ultimately show ?thesis by (simp only: not_le)
  qed (use less.prems(2) in simp)
  have unf: "[f..<?nf] = f # [Suc f..<?nf]" using f by (simp add: upt_conv_Cons)
  have scan: "find_in_page (page_size st) req ?num d 0 (f * ?n) = r
    \<Longrightarrow> find_from req [f..<?nf] (f * ?n) st = (case r of
       Hit byte e entry \<Rightarrow> Some ((True, get_target_page (fsi_page_id st f) entry st),
               st\<lparr>fsi_frames := (fsi_frames st)(fsi_page_id st f \<mapsto> d[byte := e])\<rparr>)
     | NoFit \<Rightarrow> Some ((False, sp_page_id st ?num), st)
     | Exhausted sp \<Rightarrow> find_from req [Suc f..<?nf] sp st)" for r
    unfolding unf using d(1) by (simp add: Let_def)
  have d0: "d = drop 0 d" "0 \<le> length d" "f * ?n = f * ?n + 2 * 0" by simp_all
  note sc = find_in_page_ok [OF d0 less.prems(1), where ps = "page_size st" and req = req]
  show ?case
  proof (cases "find_in_page (page_size st) req ?num d 0 (f * ?n)")
    case (Exhausted sp')
    have e: "sp' = f * ?n + 2 * length d" "sp' < ?num" "\<forall>j < 2 * length d. \<not> fits (page_size st) req d j"
      using sc less.prems(1) Exhausted by simp_all
    have sp': "sp' = Suc f * ?n" using e(1) d(2) by simp
    have "\<forall>j < Suc f * ?n. space_at st j < req"
      using before [of _ ?n] e(3) d(2) by (auto simp: algebra_simps)
    moreover have "?nf - Suc f < ?nf - f" using f by simp
    moreover have "Suc f * ?n < ?num" using e(2) sp' by simp
    ultimately obtain r st' where "find_from req [Suc f..<?nf] (Suc f * ?n) st = Some (r, st')"
        "(\<exists>k. r = (True, sp_page_id st k) \<and> found_page req st k st')
        \<or> (r = (False, sp_page_id st ?num) \<and> st' = st \<and> (\<forall>j < ?num. space_at st j < req))"
      using less.hyps [of "Suc f"] by blast
    then show ?thesis using scan [OF Exhausted] sp' by auto
  next
    case (Hit byte e entry)
    have h: "f * ?n + entry < ?num" "entry < ?n" "fits (page_size st) req d entry"
        "\<forall>j < entry. \<not> fits (page_size st) req d j"
        "d[byte := e] = set_entry entry (encode_free_space (page_size st) (decode_free_space (page_size st) (entry_code d entry) - req)) d"
      using sc less.prems(1) Hit d(2) by simp_all
    define k where "k = f * ?n + entry"
    have kf: "k div ?n = f" "k mod ?n = entry" using h(2) by (simp_all add: k_def)
    have ck: "code_at st k = entry_code d entry" using c [OF h(2)] by (simp add: k_def)
    define st' where "st' = st\<lparr>fsi_frames := (fsi_frames st)(fsi_page_id st (k div ?n)
      \<mapsto> set_entry (k mod ?n) (encode_free_space (page_size st) (space_at st k - req)) d)\<rparr>"
    have k: "k < ?num" using h(1) by (simp add: k_def)
    have dk: "fsi_frames st (fsi_page_id st (k div ?n)) = Some d" using d(1) kf by simp
    note s = set_code [OF ok k encode_less dk st'_def]
    have "found_page req st k st'"
      unfolding found_page_def using s k h(3) ck before [of _ entry] h(2,4) by (auto simp: st'_def k_def)
    moreover have "get_target_page (fsi_page_id st f) entry st = sp_page_id st k"
      using page_in_segment_page(3) [OF f48] by (simp add: get_target_page_def Let_def k_def)
    moreover have "st\<lparr>fsi_frames := (fsi_frames st)(fsi_page_id st f \<mapsto> d[byte := e])\<rparr> = st'"
      by (simp add: st'_def kf h(5) ck)
    ultimately show ?thesis using scan [OF Hit] by auto
  next
    case NoFit
    have nf: "?num \<le> f * ?n + 2 * length d" "\<forall>j. f * ?n + j < ?num \<longrightarrow> \<not> fits (page_size st) req d j"
      using sc less.prems(1) NoFit by simp_all
    have "space_at st j < req" if "j < ?num" for j
      using before [of j "?num - f * ?n"] nf that less.prems(1) d(2) by auto
    then show ?thesis using scan [OF NoFit] by auto
  qed
qed

lemma fsi_find_ok:
  assumes ok: "fsi_ok st"
  shows "\<exists>r st'. fsi_find req st = Some (r, st')
      \<and> ((\<exists>k. r = (True, sp_page_id st k) \<and> found_page req st k st')
        \<or> (r = (False, sp_page_id st (allocated_slotted_pages st)) \<and> st' = st
             \<and> (\<forall>j < allocated_slotted_pages st. space_at st j < req)))"
proof -
  have "0 < allocated_slotted_pages st" "0 < allocated_fsi_pages st" "0 < page_size st"
    using ok by (simp_all add: fsi_ok_def)
  moreover from this have "allocated_slotted_pages st \<le> allocated_slotted_pages st * (page_size st * 2)" by simp
  ultimately show ?thesis using find_from_ok [OF ok, of 0 req] by (simp add: fsi_find_def)
qed

end
