(* ===== verification/SP_Segment.thy ===== *)
theory SP_Segment
  imports FSI
begin

text \<open>
  The slotted-page segment (\<^verbatim>\<open>src/task-slotted-pages/src/slotted_page/sp_segment.cc\<close>): records on
  slotted pages, found through the free-space inventory, with redirects for the records that
  have outgrown their page. A pointer into a fixed frame is the frame in the state, which is
  read again after every call that may change it. Where the code reads raw memory of a page,
  \<open>page_image\<close> gives its bytes.
\<close>

section \<open>Bytes of a word\<close>

definition tid_bytes :: "tid \<Rightarrow> bytes" where
  "tid_bytes t = map (\<lambda>i. ucast (drop_bit (8 * i) t)) [0..<8]"

fun bytes_word :: "bytes \<Rightarrow> 64 word" where
  "bytes_word [] = 0"
| "bytes_word (b # bs) = ucast b OR push_bit 8 (bytes_word bs)"

definition page_image :: "sp \<Rightarrow> bytes" where
  "page_image p =
     take 2 (tid_bytes (of_nat (slot_count p))) @ take 2 (tid_bytes (of_nat (first_free_slot p)))
     @ take 4 (tid_bytes (of_nat (data_start p))) @ take 4 (tid_bytes (of_nat (free_space p)))
     @ concat (map tid_bytes (slots p)) @ drop (12 + 8 * slot_count p) (page_data p)"

definition read_tid :: "bytes \<Rightarrow> nat \<Rightarrow> tid option" where
  "read_tid d at = do { require (at + 8 \<le> length d); Some (bytes_word (take 8 (drop at d))) }"

definition read_bytes :: "bytes \<Rightarrow> nat \<Rightarrow> nat \<Rightarrow> bytes option" where
  "read_bytes d at n = memcpy (replicate n 0) 0 d at n"

definition write_bytes :: "bytes \<Rightarrow> nat \<Rightarrow> bytes \<Rightarrow> bytes option" where
  "write_bytes d at bs = memcpy d at bs 0 (length bs)"

abbreviation put_page :: "64 word \<Rightarrow> sp \<Rightarrow> segments \<Rightarrow> segments" where
  "put_page pid p st \<equiv> st\<lparr>sp_frames := (sp_frames st)(pid \<mapsto> p)\<rparr>"

definition slot_of :: "tid \<Rightarrow> nat" where
  "slot_of t = unat (tid_slot t)"

section \<open>The operations\<close>

definition seg_init :: "segments \<Rightarrow> segments" where
  "seg_init st = put_page (page_in_segment (sp_segment st) 0) (sp_init (page_size st)) (st\<lparr>allocated_slotted_pages := 1\<rparr>)"

text \<open>A new page, and in advance a new page of the inventory when the last one is full.\<close>

definition new_fsi_page :: "segments \<Rightarrow> segments" where
  "new_fsi_page st =
     (if allocated_slotted_pages st mod (page_size st * 2) = 0
      then st\<lparr>allocated_fsi_pages := allocated_fsi_pages st + 1,
              fsi_frames := (fsi_frames st)
                (page_in_segment (fsi_segment st) (of_nat (allocated_fsi_pages st)) \<mapsto> replicate (page_size st) 0xFF)\<rparr>
      else st)"

definition seg_allocate :: "nat \<Rightarrow> segments \<Rightarrow> (tid \<times> segments) option" where
  "seg_allocate required_space st = do {
     require (allocated_slotted_pages st > 0);
     require (allocated_fsi_pages st > 0);
     require (required_space + 20 \<le> page_size st);
     ((fsi_found, target_page_id), st) \<leftarrow> fsi_find (required_space + 8) st;
     let segment_page_id = unat (get_segment_page_id target_page_id);
     let fresh = (\<not> fsi_found \<and> allocated_slotted_pages st = segment_page_id);
     let st = (if \<not> fsi_found then st\<lparr>allocated_slotted_pages := allocated_slotted_pages st + 1\<rparr> else st);
     if fresh then do {
       let st = new_fsi_page st;
       (slot_id, p) \<leftarrow> sp_allocate required_space (page_size st) (sp_init (page_size st));
       let st = put_page target_page_id p st;
       st \<leftarrow> fsi_update target_page_id (free_space p) st;
       Some (mk_tid target_page_id (of_nat slot_id), st) }
     else do {
       p \<leftarrow> sp_frames st target_page_id;
       (slot_id, p) \<leftarrow> sp_allocate required_space (page_size st) p;
       Some (mk_tid target_page_id (of_nat slot_id), put_page target_page_id p st) } }"

text \<open>The target of a redirect, with the checks of the code: its page and its slot.\<close>

definition redirect_target :: "tid \<Rightarrow> tid \<Rightarrow> segments \<Rightarrow> (sp \<times> slot) option" where
  "redirect_target tid target_tid st = do {
     p \<leftarrow> sp_frames st (tid_page_id target_tid (sp_segment st));
     s \<leftarrow> arr_get (slots p) (slot_of target_tid);
     require (is_redirect_target s);
     require (slot_size s > 8);
     original_tid \<leftarrow> read_tid (page_data p) (slot_offset s);
     require (original_tid = tid);
     Some (p, s) }"

definition seg_read :: "tid \<Rightarrow> nat \<Rightarrow> segments \<Rightarrow> bytes option" where
  "seg_read tid capacity st = do {
     p \<leftarrow> sp_frames st (tid_page_id tid (sp_segment st));
     s \<leftarrow> arr_get (slots p) (slot_of tid);
     if \<not> is_redirect s then do {
       require (slot_size s \<ge> capacity);
       read_bytes (page_data p) (slot_offset s) capacity }
     else do {
       (p, s) \<leftarrow> redirect_target tid (as_redirect_tid s) st;
       require (slot_size s \<ge> capacity);
       read_bytes (page_data p) (slot_offset s + 8) capacity } }"

text \<open>\<open>write\<close> and \<open>erase\<close> replace the target in the slot by eight bytes of the page, at the
  offset that the slot would have if it were not a redirect.\<close>

definition page_bytes_tid :: "sp \<Rightarrow> slot \<Rightarrow> tid option" where
  "page_bytes_tid p s = read_tid (page_image p) (slot_offset s)"

definition seg_write :: "tid \<Rightarrow> bytes \<Rightarrow> segments \<Rightarrow> segments option" where
  "seg_write tid record st = do {
     let page_id = tid_page_id tid (sp_segment st);
     p \<leftarrow> sp_frames st page_id;
     s \<leftarrow> arr_get (slots p) (slot_of tid);
     if \<not> is_redirect s then do {
       require (slot_size s \<ge> length record);
       d \<leftarrow> write_bytes (page_data p) (slot_offset s) record;
       Some (put_page page_id (p\<lparr>page_data := d\<rparr>) st) }
     else do {
       target_tid \<leftarrow> page_bytes_tid p s;
       (p, s) \<leftarrow> redirect_target tid target_tid st;
       require (slot_size s \<ge> length record);
       d \<leftarrow> write_bytes (page_data p) (slot_offset s + 8) record;
       Some (put_page (tid_page_id target_tid (sp_segment st)) (p\<lparr>page_data := d\<rparr>) st) } }"

definition seg_erase :: "tid \<Rightarrow> segments \<Rightarrow> segments option" where
  "seg_erase tid st = do {
     let page_id = tid_page_id tid (sp_segment st);
     p \<leftarrow> sp_frames st page_id;
     s \<leftarrow> arr_get (slots p) (slot_of tid);
     if \<not> is_redirect s then do {
       p \<leftarrow> sp_erase (slot_of tid) p;
       fsi_update page_id (free_space p) (put_page page_id p st) }
     else do {
       target_tid \<leftarrow> page_bytes_tid p s;
       p \<leftarrow> sp_erase (slot_of tid) p;
       st \<leftarrow> fsi_update page_id (free_space p) (put_page page_id p st);
       let target_page_id = tid_page_id target_tid (sp_segment st);
       (p, s) \<leftarrow> redirect_target tid target_tid st;
       p \<leftarrow> sp_erase (slot_of target_tid) p;
       fsi_update target_page_id (free_space p) (put_page target_page_id p st) } }"

section \<open>resize\<close>

text \<open>A new redirect target holds the identifier of the record and then its bytes.\<close>

definition fill_target :: "tid \<Rightarrow> tid \<Rightarrow> nat \<Rightarrow> bytes \<Rightarrow> segments \<Rightarrow> segments option" where
  "fill_target tid target_tid new_size buffer st = do {
     let page_id = tid_page_id target_tid (sp_segment st);
     p \<leftarrow> sp_frames st page_id;
     s \<leftarrow> arr_get (slots p) (slot_of target_tid);
     require (slot_size s = new_size + 8);
     require (\<not> is_redirect_target s);
     p \<leftarrow> put_slot (slot_of target_tid) (mark_as_redirect_target True s) p;
     d \<leftarrow> write_bytes (page_data p) (slot_offset s) (tid_bytes tid);
     d \<leftarrow> write_bytes d (slot_offset s + 8) buffer;
     Some (put_page page_id (p\<lparr>page_data := d\<rparr>) st) }"

definition resize_plain :: "tid \<Rightarrow> nat \<Rightarrow> sp \<Rightarrow> slot \<Rightarrow> segments \<Rightarrow> segments option" where
  "resize_plain tid new_size p s st = do {
     let page_id = tid_page_id tid (sp_segment st);
     let slot_id = slot_of tid;
     let old_size = slot_size s;
     if new_size = old_size then Some st
     else if new_size < old_size then do {
       p \<leftarrow> put_slot slot_id (set_size (of_nat new_size) s) (p\<lparr>free_space := free_space p + (old_size - new_size)\<rparr>);
       fsi_update page_id (free_space p) (put_page page_id p st) }
     else do {
       buffer \<leftarrow> read_bytes (page_data p) (slot_offset s) old_size;
       if free_space p + old_size > new_size then do {
         p \<leftarrow> relocate slot_id new_size (page_size st) p;
         s \<leftarrow> arr_get (slots p) slot_id;
         d \<leftarrow> write_bytes (page_data p) (slot_offset s) buffer;
         d \<leftarrow> memset d (slot_offset s + old_size) 0 (new_size - old_size);
         fsi_update page_id (free_space p) (put_page page_id (p\<lparr>page_data := d\<rparr>) st) }
       else do {
         (target_tid, st) \<leftarrow> seg_allocate (new_size + 8) st;
         require (tid_segment_page_id target_tid \<noteq> tid_segment_page_id tid);
         p \<leftarrow> sp_frames st page_id;
         redirect \<leftarrow> set_redirect_tid target_tid;
         require (is_redirect redirect);
         p \<leftarrow> put_slot slot_id redirect (p\<lparr>free_space := free_space p + old_size\<rparr>);
         st \<leftarrow> fsi_update page_id (free_space p) (put_page page_id p st);
         fill_target tid target_tid new_size buffer st } } }"

definition drop_target :: "tid \<Rightarrow> sp \<Rightarrow> segments \<Rightarrow> segments option" where
  "drop_target target_tid tp st = do {
     let page_id = tid_page_id target_tid (sp_segment st);
     tp \<leftarrow> sp_erase (slot_of target_tid) tp;
     fsi_update page_id (free_space tp) (put_page page_id tp st) }"

definition resize_redirect :: "tid \<Rightarrow> nat \<Rightarrow> sp \<Rightarrow> slot \<Rightarrow> segments \<Rightarrow> segments option" where
  "resize_redirect tid new_size p s st = do {
     let page_id = tid_page_id tid (sp_segment st);
     let slot_id = slot_of tid;
     let target_tid = as_redirect_tid s;
     let target_page_id = tid_page_id target_tid (sp_segment st);
     (tp, ts) \<leftarrow> redirect_target tid target_tid st;
     if free_space p \<ge> new_size then do {
       buffer \<leftarrow> read_bytes (page_data tp) (slot_offset ts + 8) (min (slot_size ts) new_size);
       st \<leftarrow> drop_target target_tid tp st;
       p \<leftarrow> put_slot slot_id (set_offset 1 EMPTY_NON_REDIRECT_SLOT) p;
       p \<leftarrow> relocate slot_id new_size (page_size st) p;
       s \<leftarrow> arr_get (slots p) slot_id;
       d \<leftarrow> write_bytes (page_data p) (slot_offset s) buffer;
       fsi_update page_id (free_space p) (put_page page_id (p\<lparr>page_data := d\<rparr>) st) }
     else if free_space tp + slot_size ts - 8 \<ge> new_size then do {
       tp \<leftarrow> relocate (slot_of target_tid) new_size (page_size st) tp;
       fsi_update target_page_id (free_space tp) (put_page target_page_id tp st) }
     else do {
       buffer \<leftarrow> read_bytes (page_data tp) (slot_offset ts + 8) (min (slot_size ts) new_size);
       st \<leftarrow> drop_target target_tid tp st;
       (new_target_tid, st) \<leftarrow> seg_allocate (new_size + 8) st;
       require (tid_segment_page_id new_target_tid \<noteq> tid_segment_page_id tid);
       require (tid_segment_page_id new_target_tid \<noteq> tid_segment_page_id target_tid);
       p \<leftarrow> sp_frames st page_id;
       redirect \<leftarrow> set_redirect_tid new_target_tid;
       require (is_redirect redirect);
       p \<leftarrow> put_slot slot_id redirect p;
       fill_target tid new_target_tid new_size buffer (put_page page_id p st) } }"

definition seg_resize :: "tid \<Rightarrow> nat \<Rightarrow> segments \<Rightarrow> segments option" where
  "seg_resize tid new_size st = do {
     p \<leftarrow> sp_frames st (tid_page_id tid (sp_segment st));
     s \<leftarrow> arr_get (slots p) (slot_of tid);
     if \<not> is_redirect s then resize_plain tid new_size p s st else resize_redirect tid new_size p s st }"

end
