(* ===== verification/Schema_Segment.thy ===== *)
theory Schema_Segment
  imports SP_Segment
begin

text \<open>
  The schema of a database and the segment that stores it
  (\<^verbatim>\<open>schema.h\<close>, \<^verbatim>\<open>schema.cc\<close> and \<^verbatim>\<open>schema_segment.cc\<close> under
  \<^verbatim>\<open>src/task-slotted-pages\<close>): the schema becomes a JSON document, its text is cut into the
  pages of the segment behind a length, and is read back. The documents are values of
  \<open>json\<close>, with the accessors of rapidjson and their assertions; the writer and the parser of
  rapidjson, which turn a document into bytes and bytes into a document, are parameters.
\<close>

section \<open>The schema\<close>

datatype col_class = KInteger | KChar

record col_type =
  tclass :: col_class
  type_length :: "32 word"

record column =
  column_id :: string
  column_type :: col_type

record db_table =
  table_id :: string
  columns :: "column list"
  primary_key :: "string list"
  table_sp :: "16 word"
  table_fsi :: "16 word"
  table_pages :: "64 word"
  table_fsi_pages :: "64 word"

definition type_integer :: col_type where
  "type_integer = \<lparr>tclass = KInteger, type_length = 0\<rparr>"

definition type_char :: "32 word \<Rightarrow> col_type" where
  "type_char n = \<lparr>tclass = KChar, type_length = n\<rparr>"

definition type_name :: "col_type \<Rightarrow> string" where
  "type_name t = (case tclass t of KInteger \<Rightarrow> ''integer'' | KChar \<Rightarrow> ''char'')"

definition new_table :: "string \<Rightarrow> column list \<Rightarrow> string list \<Rightarrow> 16 word \<Rightarrow> 16 word \<Rightarrow> 64 word \<Rightarrow> db_table" where
  "new_table i cs pk sp fsi n = \<lparr>table_id = i, columns = cs, primary_key = pk, table_sp = sp, table_fsi = fsi,
     table_pages = n, table_fsi_pages = 0\<rparr>"

section \<open>The buffer manager of the task\<close>

text \<open>A table of frames; a page that is fixed for the first time is a new frame of zeros, and
  \<open>unfix_page\<close> does nothing. What is written through a frame is put back.\<close>

record buffer_pool =
  pool_page_size :: nat
  pool_pages :: "64 word \<rightharpoonup> bytes"

definition put_bytes :: "64 word \<Rightarrow> bytes \<Rightarrow> buffer_pool \<Rightarrow> buffer_pool" where
  "put_bytes page_id d p = p\<lparr>pool_pages := (pool_pages p)(page_id \<mapsto> d)\<rparr>"

definition pool_init :: "nat \<Rightarrow> buffer_pool" where
  "pool_init ps = \<lparr>pool_page_size = ps, pool_pages = Map.empty\<rparr>"

definition pool_fix_page :: "64 word \<Rightarrow> buffer_pool \<Rightarrow> bytes \<times> buffer_pool" where
  "pool_fix_page page_id p =
     (case pool_pages p page_id of
        Some d \<Rightarrow> (d, p)
      | None \<Rightarrow> let d = replicate (pool_page_size p) 0 in (d, put_bytes page_id d p))"

section \<open>JSON documents\<close>

datatype json = JNull | JBool bool | JInt int | JDouble "64 word" | JString string | JArray "json list"
  | JObject "(string \<times> json) list"

text \<open>\<open>std::string\<close> of a C string, which ends at the first zero.\<close>

definition c_str :: "string \<Rightarrow> string" where
  "c_str s = takeWhile (\<lambda>c. c \<noteq> CHR 0x00) s"

definition get_string :: "json \<Rightarrow> string option" where
  "get_string j = (case j of JString s \<Rightarrow> Some (c_str s) | _ \<Rightarrow> None)"

definition get_int :: "json \<Rightarrow> int option" where
  "get_int j = (case j of JInt i \<Rightarrow> if - (2 ^ 31) \<le> i \<and> i < 2 ^ 31 then Some i else None | _ \<Rightarrow> None)"

definition find_member :: "string \<Rightarrow> json \<Rightarrow> json option option" where
  "find_member k j = (case j of JObject ms \<Rightarrow> Some (map_of ms k) | _ \<Rightarrow> None)"

text \<open>\<open>obj.HasMember(k) ? f(obj[k]) : d\<close>, and the loop over a member that is an array.\<close>

definition member_or :: "string \<Rightarrow> 'a \<Rightarrow> (json \<Rightarrow> 'a option) \<Rightarrow> json \<Rightarrow> 'a option" where
  "member_or k d f j = do {
     m \<leftarrow> find_member k j;
     case m of None \<Rightarrow> Some d | Some v \<Rightarrow> f v }"

definition array_member :: "string \<Rightarrow> (json \<Rightarrow> 'a option) \<Rightarrow> json \<Rightarrow> 'a list option" where
  "array_member k f j = do {
     m \<leftarrow> find_member k j;
     case m of Some (JArray js) \<Rightarrow> map_opt f js | _ \<Rightarrow> Some [] }"

section \<open>The document of a schema\<close>

definition type_doc :: "col_type \<Rightarrow> json" where
  "type_doc t = JObject [(''tclass'', JString (type_name t)), (''length'', JInt (uint (type_length t)))]"

definition column_doc :: "column \<Rightarrow> json" where
  "column_doc c = JObject [(''id'', JString (c_str (column_id c))), (''type'', type_doc (column_type c))]"

definition table_doc :: "db_table \<Rightarrow> json" where
  "table_doc t = JObject
     [(''id'', JString (c_str (table_id t))),
      (''sp_segment'', JInt (uint (table_sp t))),
      (''fsi_segment'', JInt (uint (table_fsi t))),
      (''allocated_slotted_pages'', JInt (uint (table_pages t))),
      (''columns'', JArray (map column_doc (columns t))),
      (''primary_key'', JArray (map (\<lambda>k. JString (c_str k)) (primary_key t)))]"

definition schema_doc :: "db_table list \<Rightarrow> json" where
  "schema_doc ts = JObject [(''tables'', JArray (map table_doc ts))]"

section \<open>The schema of a document\<close>

definition types :: "string \<rightharpoonup> col_class" where
  "types = map_of [(''char'', KChar), (''integer'', KInteger)]"

text \<open>A column without a type has a type with indeterminate fields: no result.\<close>

definition read_type :: "json \<Rightarrow> col_type option" where
  "read_type j = do {
     n \<leftarrow> member_or ''length'' 0 get_int j;
     c \<leftarrow> member_or ''tclass'' KInteger (\<lambda>v. do {
       s \<leftarrow> get_string v;
       Some (case types s of Some c \<Rightarrow> c | None \<Rightarrow> KInteger) }) j;
     Some \<lparr>tclass = c, type_length = word_of_int n\<rparr> }"

definition read_column :: "json \<Rightarrow> column option" where
  "read_column j = do {
     i \<leftarrow> member_or ''id'' ''?'' get_string j;
     m \<leftarrow> find_member ''type'' j;
     v \<leftarrow> m;
     t \<leftarrow> read_type v;
     Some \<lparr>column_id = i, column_type = t\<rparr> }"

definition read_table :: "json \<Rightarrow> db_table option" where
  "read_table j = do {
     i \<leftarrow> member_or ''id'' ''?'' get_string j;
     sp \<leftarrow> member_or ''sp_segment'' (- 1) get_int j;
     fsi \<leftarrow> member_or ''fsi_segment'' (- 1) get_int j;
     n \<leftarrow> member_or ''allocated_slotted_pages'' (- 1) get_int j;
     cs \<leftarrow> array_member ''columns'' read_column j;
     pk \<leftarrow> array_member ''primary_key'' get_string j;
     Some (new_table i cs pk (word_of_int sp) (word_of_int fsi) (word_of_int n)) }"

definition read_schema :: "json \<Rightarrow> db_table list option" where
  "read_schema j = array_member ''tables'' read_table j"

section \<open>The segment\<close>

record schema_segment =
  schema_segment_id :: "16 word"
  schema :: "db_table list option"

definition new_schema_segment :: "16 word \<Rightarrow> schema_segment" where
  "new_schema_segment i = \<lparr>schema_segment_id = i, schema = None\<rparr>"

definition set_schema :: "db_table list \<Rightarrow> schema_segment \<Rightarrow> schema_segment" where
  "set_schema ts g = g\<lparr>schema := Some ts\<rparr>"

text \<open>The room on the first page, a \<open>size_t\<close>.\<close>

definition first_room :: "nat \<Rightarrow> nat" where
  "first_room ps = (if ps < 20 then 2 ^ 64 + ps - 20 else ps - 20)"

text \<open>The loops over the further pages; the offset is an \<open>int\<close>.\<close>

partial_function (option) write_rest ::
  "16 word \<Rightarrow> bytes \<Rightarrow> nat \<Rightarrow> nat \<Rightarrow> nat \<Rightarrow> buffer_pool \<Rightarrow> buffer_pool option" where
  "write_rest seg text at pid remaining p =
     (if remaining = 0 then Some p
      else do {
        let page_id = page_in_segment seg (of_nat pid);
        let (d, p) = pool_fix_page page_id p;
        let n = min remaining (pool_page_size p);
        require (at < 2 ^ 31);
        d \<leftarrow> memcpy d 0 text at n;
        write_rest seg text (at + n) (pid + 1) (remaining - n) (put_bytes page_id d p) })"

partial_function (option) read_rest ::
  "16 word \<Rightarrow> bytes \<Rightarrow> nat \<Rightarrow> nat \<Rightarrow> nat \<Rightarrow> buffer_pool \<Rightarrow> (bytes \<times> buffer_pool) option" where
  "read_rest seg buffer at pid remaining p =
     (if remaining = 0 then Some (buffer, p)
      else do {
        let page_id = page_in_segment seg (of_nat pid);
        let (d, p) = pool_fix_page page_id p;
        let n = min remaining (pool_page_size p);
        require (at < 2 ^ 31);
        buffer \<leftarrow> memcpy buffer at d 0 n;
        read_rest seg buffer (at + n) (pid + 1) (remaining - n) p })"

definition schema_segment_write :: "(json \<Rightarrow> bytes) \<Rightarrow> schema_segment \<Rightarrow> buffer_pool \<Rightarrow> buffer_pool option" where
  "schema_segment_write writer g p = do {
     let page_id = page_in_segment (schema_segment_id g) 0;
     let (d, p) = pool_fix_page page_id p;
     case schema g of
       None \<Rightarrow> do {
         d \<leftarrow> write_bytes d 0 (tid_bytes 0);
         Some (put_bytes page_id d p) }
     | Some ts \<Rightarrow> do {
         let text = writer (schema_doc ts);
         d \<leftarrow> write_bytes d 0 (tid_bytes (of_nat (length text)));
         let n = min (length text) (first_room (pool_page_size p));
         d \<leftarrow> memcpy d 20 text 0 n;
         write_rest (schema_segment_id g) text n 1 (length text - n) (put_bytes page_id d p) } }"

definition schema_segment_read :: "(bytes \<Rightarrow> json) \<Rightarrow> schema_segment \<Rightarrow> buffer_pool \<Rightarrow> (schema_segment \<times> buffer_pool) option" where
  "schema_segment_read parser g p = do {
     let (d, p) = pool_fix_page (page_in_segment (schema_segment_id g) 0) p;
     schema_size \<leftarrow> read_tid d 0;
     let schema_size = unat schema_size;
     let n = min schema_size (first_room (pool_page_size p));
     buffer \<leftarrow> memcpy (replicate schema_size 0) 0 d 20 n;
     (buffer, p) \<leftarrow> read_rest (schema_segment_id g) buffer n 1 (schema_size - n) p;
     ts \<leftarrow> read_schema (parser buffer);
     Some (set_schema ts g, p) }"

end
