(* ===== verification/Database.thy ===== *)
theory Database
  imports Schema_Segment Text_Conversions
begin

text \<open>
  The database of the slotted-page task (\<^verbatim>\<open>database.cc\<close> and \<^verbatim>\<open>database.h\<close> under
  \<^verbatim>\<open>src/task-slotted-pages\<close>): it keeps the segment of the schema and for every table an
  inventory and a segment of slotted pages, turns the values of a tuple into a record and prints
  a record as text.

  The \<open>segments\<close> of a table hold its counters of pages, which the code keeps in the table of
  the schema itself; \<open>current_tables\<close> is the schema with them. An entry \<open>None\<close> stands for
  an object that refers to a table that has been destroyed, or that shares its pages or its
  inventory with another segment: what it does is outside the model.
\<close>

record database =
  pool :: buffer_pool
  schema_segment :: "schema_segment option"
  slotted_pages :: "16 word \<rightharpoonup> segments option"
  free_space_inventory :: "16 word set"

datatype database_error = Invalid_Data | Out_Of_Range

definition database_init :: database where
  "database_init = \<lparr>pool = pool_init 1024, schema_segment = None, slotted_pages = Map.empty, free_space_inventory = {}\<rparr>"

section \<open>Schemas\<close>

definition current_table :: "(16 word \<rightharpoonup> segments option) \<Rightarrow> db_table \<Rightarrow> db_table" where
  "current_table sps t =
     (case sps (table_sp t) of
        Some (Some st) \<Rightarrow> t\<lparr>table_pages := of_nat (allocated_slotted_pages st), table_fsi_pages := of_nat (allocated_fsi_pages st)\<rparr>
      | _ \<Rightarrow> t)"

definition current_segment :: "database \<Rightarrow> schema_segment option" where
  "current_segment db =
     map_option (\<lambda>g. g\<lparr>schema := map_option (map (current_table (slotted_pages db))) (schema g)\<rparr>) (schema_segment db)"

definition get_schema :: "database \<Rightarrow> db_table list option" where
  "get_schema db = Option.bind (current_segment db) schema"

definition write_schema :: "(json \<Rightarrow> bytes) \<Rightarrow> database \<Rightarrow> database option" where
  "write_schema writer db =
     (case current_segment db of
        None \<Rightarrow> Some db
      | Some g \<Rightarrow> do { p \<leftarrow> schema_segment_write writer g (pool db); Some (db\<lparr>pool := p\<rparr>) })"

text \<open>A new object takes the place of the old segment, whose destructor writes it; the tables of
  its schema are destroyed, to which the segments still refer.\<close>

definition replace_schema_segment :: "(json \<Rightarrow> bytes) \<Rightarrow> schema_segment \<Rightarrow> database \<Rightarrow> database option" where
  "replace_schema_segment writer g db = do {
     db \<leftarrow> write_schema writer db;
     Some (db\<lparr>schema_segment := Some g, slotted_pages := (\<lambda>i. map_option (\<lambda>_. None) (slotted_pages db i))\<rparr>) }"

definition segment_ids :: "db_table list \<Rightarrow> 16 word list" where
  "segment_ids ts = 0 # map table_sp ts @ map table_fsi ts"

text \<open>The two \<open>emplace\<close> calls of a table; an id that is present keeps its object.\<close>

definition table_segments :: "nat \<Rightarrow> db_table \<Rightarrow> segments" where
  "table_segments ps t = seg_init (fsi_init \<lparr>page_size = ps, sp_segment = table_sp t, fsi_segment = table_fsi t,
     allocated_slotted_pages = unat (table_pages t), allocated_fsi_pages = unat (table_fsi_pages t),
     fsi_frames = Map.empty, sp_frames = Map.empty\<rparr>)"

definition emplace_segments :: "db_table list \<Rightarrow> db_table \<Rightarrow> database \<Rightarrow> database" where
  "emplace_segments ts t db =
     (let own = (distinct (segment_ids ts) \<and> table_fsi t \<notin> free_space_inventory db);
          st = (if own then Some (table_segments (pool_page_size (pool db)) t) else None)
      in db\<lparr>free_space_inventory := insert (table_fsi t) (free_space_inventory db),
            slotted_pages := (if slotted_pages db (table_sp t) = None then (slotted_pages db)(table_sp t \<mapsto> st)
                              else slotted_pages db)\<rparr>)"

definition load_new_schema :: "(json \<Rightarrow> bytes) \<Rightarrow> db_table list \<Rightarrow> database \<Rightarrow> database option" where
  "load_new_schema writer ts db = do {
     db \<leftarrow> write_schema writer db;
     db \<leftarrow> replace_schema_segment writer (set_schema ts (new_schema_segment 0)) db;
     Some (fold (emplace_segments ts) ts db) }"

definition load_schema :: "(json \<Rightarrow> bytes) \<Rightarrow> (bytes \<Rightarrow> json) \<Rightarrow> 16 word \<Rightarrow> database \<Rightarrow> database option" where
  "load_schema writer parser i db = do {
     db \<leftarrow> write_schema writer db;
     db \<leftarrow> replace_schema_segment writer (new_schema_segment i) db;
     (g, p) \<leftarrow> schema_segment_read parser (new_schema_segment i) (pool db);
     Some (db\<lparr>schema_segment := Some g, pool := p\<rparr>) }"

section \<open>Tuples\<close>

definition byte_of_char :: "char \<Rightarrow> 8 word" where
  "byte_of_char c = of_nat (of_char c)"

definition char_of_byte :: "8 word \<Rightarrow> char" where
  "char_of_byte b = char_of (unat b)"

definition int_bytes :: "int \<Rightarrow> bytes" where
  "int_bytes i = take 4 (tid_bytes (word_of_int i))"

definition bytes_int :: "bytes \<Rightarrow> int" where
  "bytes_int bs = sint (ucast (bytes_word bs) :: 32 word)"

definition value_bytes :: "column \<Rightarrow> string \<Rightarrow> bytes option" where
  "value_bytes c s =
     (case tclass (column_type c) of
        KInteger \<Rightarrow> do { i \<leftarrow> atoi s; Some (int_bytes i) }
      | KChar \<Rightarrow> Some (map (\<lambda>j. if j < length s then byte_of_char (s ! j) else byte_of_char CHR '' '')
                       [0..<unat (type_length (column_type c))]))"

definition tuple_bytes :: "column list \<Rightarrow> string list \<Rightarrow> bytes option" where
  "tuple_bytes cs data = map_option concat (map_opt (\<lambda>(c, s). value_bytes c s) (zip cs data))"

text \<open>\<open>slotted_pages.at\<close>: the object of a table.\<close>

definition segments_at :: "db_table \<Rightarrow> database \<Rightarrow> segments option option" where
  "segments_at t db = slotted_pages db (table_sp t)"

definition insert_tuple :: "db_table \<Rightarrow> string list \<Rightarrow> database \<Rightarrow> ((database_error + tid) \<times> database) option" where
  "insert_tuple t data db =
     (if length (columns t) \<noteq> length data then Some (Inl Invalid_Data, db)
      else do {
        buffer \<leftarrow> tuple_bytes (columns t) data;
        case segments_at t db of
          None \<Rightarrow> Some (Inl Out_Of_Range, db)
        | Some object \<Rightarrow> do {
            sp \<leftarrow> object;
            let n = length buffer mod 2 ^ 32;
            (tid, sp) \<leftarrow> seg_allocate n sp;
            sp \<leftarrow> seg_write tid (take n buffer) sp;
            Some (Inr tid, db\<lparr>slotted_pages := (slotted_pages db)(table_sp t \<mapsto> Some sp)\<rparr>) } })"

definition inserted_line :: "tid \<Rightarrow> string" where
  "inserted_line tid = ''Tuple with TID '' @ decimal (unat tid) @ '' inserted!'' @ [CHR 0x0A]"

text \<open>The text of one column, from the rest of the buffer.\<close>

definition column_text :: "column \<Rightarrow> bytes \<Rightarrow> (string \<times> bytes) option" where
  "column_text c rest =
     (case tclass (column_type c) of
        KInteger \<Rightarrow> do { require (4 \<le> length rest); Some (decimal_int (bytes_int (take 4 rest)), drop 4 rest) }
      | KChar \<Rightarrow> do {
          let n = unat (type_length (column_type c));
          require (n \<le> length rest);
          Some (map char_of_byte (take n rest), drop n rest) })"

fun tuple_text :: "column list \<Rightarrow> nat \<Rightarrow> nat \<Rightarrow> bytes \<Rightarrow> string option" where
  "tuple_text [] got capacity rest = Some [CHR 0x0A]"
| "tuple_text (c # cs) got capacity rest = do {
     (s, rest) \<leftarrow> column_text c rest;
     if capacity - length rest > got then Some (s @ [CHR 0x0A])
     else do {
       line \<leftarrow> tuple_text cs got capacity rest;
       Some (s @ '' | '' @ line) } }"

definition read_tuple :: "db_table \<Rightarrow> tid \<Rightarrow> database \<Rightarrow> (database_error + string) option" where
  "read_tuple t tid db =
     (case segments_at t db of
        None \<Rightarrow> Some (Inl Out_Of_Range)
      | Some object \<Rightarrow> do {
          sp \<leftarrow> object;
          buffer \<leftarrow> seg_read tid 1024 sp;
          line \<leftarrow> tuple_text (columns t) 1024 1024 buffer;
          Some (Inr line) })"

end
