(* ===== verification/Page_Store.thy ===== *)
theory Page_Store
  imports Prelude_DB
begin

text \<open>
  The interface of a store of pages, as a client with one thread sees it: reading a page gives
  its contents and changes none, writing a page changes exactly that page, or is refused. What may
  be written depends on a part of the state (\<open>view\<close>) that only reads change. The disk manager and
  the table of frames of the slotted-page task provide it.
\<close>

datatype ('a, 'b) request = Get 'a | Put 'a "'b list"

text \<open>A client that issues a list of requests and collects the pages that it reads.\<close>

fun run_requests :: "('a \<Rightarrow> 's \<Rightarrow> ('b list \<times> 's) option) \<Rightarrow> ('a \<Rightarrow> 'b list \<Rightarrow> 's \<Rightarrow> 's option)
    \<Rightarrow> ('a, 'b) request list \<Rightarrow> 's \<Rightarrow> ('b list list \<times> 's) option" where
  "run_requests rd wr [] s = Some ([], s)"
| "run_requests rd wr (Get a # rs) s = do { (b, s) \<leftarrow> rd a s; (bs, s) \<leftarrow> run_requests rd wr rs s; Some (b # bs, s) }"
| "run_requests rd wr (Put a b # rs) s = do { s \<leftarrow> wr a b s; run_requests rd wr rs s }"

text \<open>The same requests on a function from addresses to pages.\<close>

fun answers :: "('a, 'b) request list \<Rightarrow> ('a \<Rightarrow> 'b list) \<Rightarrow> 'b list list" where
  "answers [] m = []"
| "answers (Get a # rs) m = m a # answers rs m"
| "answers (Put a b # rs) m = answers rs (m(a := b))"

fun final_pages :: "('a, 'b) request list \<Rightarrow> ('a \<Rightarrow> 'b list) \<Rightarrow> 'a \<Rightarrow> 'b list" where
  "final_pages [] m = m"
| "final_pages (Get a # rs) m = final_pages rs m"
| "final_pages (Put a b # rs) m = final_pages rs (m(a := b))"

text \<open>What may be written: every write of a list of requests, where it stands.\<close>

fun permitted :: "('a \<Rightarrow> 'v \<Rightarrow> 'v) \<Rightarrow> ('v \<Rightarrow> 'a \<Rightarrow> bool) \<Rightarrow> ('a, 'b) request list \<Rightarrow> 'v \<Rightarrow> bool" where
  "permitted grow may_write [] v = True"
| "permitted grow may_write (Get a # rs) v = permitted grow may_write rs (grow a v)"
| "permitted grow may_write (Put a b # rs) v = (may_write v a \<and> permitted grow may_write rs v)"

fun final_view :: "('a \<Rightarrow> 'v \<Rightarrow> 'v) \<Rightarrow> ('a, 'b) request list \<Rightarrow> 'v \<Rightarrow> 'v" where
  "final_view grow [] v = v"
| "final_view grow (Get a # rs) v = final_view grow rs (grow a v)"
| "final_view grow (Put a b # rs) v = final_view grow rs v"

definition whole_pages :: "nat \<Rightarrow> ('a, 'b) request list \<Rightarrow> bool" where
  "whole_pages n rs \<longleftrightarrow> (\<forall>a b. Put a b \<in> set rs \<longrightarrow> length b = n)"

locale page_store =
  fixes ok :: "'s \<Rightarrow> bool"
    and width :: "'s \<Rightarrow> nat"
    and pages_of :: "'s \<Rightarrow> 'a \<Rightarrow> 'b list"
    and view :: "'s \<Rightarrow> 'v"
    and grow :: "'a \<Rightarrow> 'v \<Rightarrow> 'v"
    and may_write :: "'v \<Rightarrow> 'a \<Rightarrow> bool"
    and rd :: "'a \<Rightarrow> 's \<Rightarrow> ('b list \<times> 's) option"
    and wr :: "'a \<Rightarrow> 'b list \<Rightarrow> 's \<Rightarrow> 's option"
  assumes read_page: "ok s \<Longrightarrow> \<exists>s'. rd a s = Some (pages_of s a, s') \<and> ok s' \<and> width s' = width s
      \<and> pages_of s' = pages_of s \<and> view s' = grow a (view s)"
    and write_page: "ok s \<Longrightarrow> length b = width s \<Longrightarrow> may_write (view s) a \<Longrightarrow>
      \<exists>s'. wr a b s = Some s' \<and> ok s' \<and> width s' = width s \<and> pages_of s' = (pages_of s)(a := b) \<and> view s' = view s"
    and write_refused: "ok s \<Longrightarrow> length b = width s \<Longrightarrow> \<not> may_write (view s) a \<Longrightarrow> wr a b s = None"
begin

lemma run_permitted:
  assumes "ok s" "whole_pages (width s) rs" "permitted grow may_write rs (view s)"
  shows "\<exists>s'. run_requests rd wr rs s = Some (answers rs (pages_of s), s') \<and> ok s'
    \<and> pages_of s' = final_pages rs (pages_of s) \<and> view s' = final_view grow rs (view s)"
  using assms
proof (induction rs arbitrary: s)
  case (Cons r rs)
  show ?case
  proof (cases r)
    case (Get a)
    obtain s1 where s1: "rd a s = Some (pages_of s a, s1)" "ok s1" "width s1 = width s" "pages_of s1 = pages_of s"
        "view s1 = grow a (view s)"
      using read_page [OF Cons.prems(1)] by blast
    have "whole_pages (width s1) rs" "permitted grow may_write rs (view s1)"
      using Cons.prems(2,3) s1(3,5) Get by (auto simp: whole_pages_def)
    from Cons.IH [OF s1(2) this] show ?thesis using Get s1 by auto
  next
    case (Put a b)
    then have "length b = width s" "may_write (view s) a" using Cons.prems(2,3) by (simp_all add: whole_pages_def)
    then obtain s1 where s1: "wr a b s = Some s1" "ok s1" "width s1 = width s" "pages_of s1 = (pages_of s)(a := b)"
        "view s1 = view s"
      using write_page [OF Cons.prems(1)] by blast
    have "whole_pages (width s1) rs" "permitted grow may_write rs (view s1)"
      using Cons.prems(2,3) s1(3,5) Put by (auto simp: whole_pages_def)
    from Cons.IH [OF s1(2) this] obtain s' where "run_requests rd wr rs s1 = Some (answers rs (pages_of s1), s')" "ok s'"
        "pages_of s' = final_pages rs (pages_of s1)" "view s' = final_view grow rs (view s1)" by blast
    then show ?thesis unfolding s1(4,5) using Put s1(1) by simp
  qed
qed simp

lemma run_refused:
  assumes "ok s" "whole_pages (width s) rs" "\<not> permitted grow may_write rs (view s)"
  shows "run_requests rd wr rs s = None"
  using assms
proof (induction rs arbitrary: s)
  case (Cons r rs)
  show ?case
  proof (cases r)
    case (Get a)
    obtain s1 where s1: "rd a s = Some (pages_of s a, s1)" "ok s1" "width s1 = width s" "view s1 = grow a (view s)"
      using read_page [OF Cons.prems(1)] by blast
    have "whole_pages (width s1) rs" "\<not> permitted grow may_write rs (view s1)"
      using Cons.prems(2,3) s1(3,4) Get by (auto simp: whole_pages_def)
    from Cons.IH [OF s1(2) this] show ?thesis using Get s1(1) by simp
  next
    case (Put a b)
    then have len: "length b = width s" using Cons.prems(2) by (simp add: whole_pages_def)
    show ?thesis
    proof (cases "may_write (view s) a")
      case True
      obtain s1 where s1: "wr a b s = Some s1" "ok s1" "width s1 = width s" "view s1 = view s"
        using write_page [OF Cons.prems(1) len True] by blast
      have "whole_pages (width s1) rs" "\<not> permitted grow may_write rs (view s1)"
        using Cons.prems(2,3) s1(3,4) Put True by (auto simp: whole_pages_def)
      from Cons.IH [OF s1(2) this] show ?thesis using Put s1(1) by simp
    next
      case False
      then show ?thesis using write_refused [OF Cons.prems(1) len] Put by simp
    qed
  qed
qed simp

end

end
