(* ===== verification/Schema_Segment_Correct.thy ===== *)
theory Schema_Segment_Correct
  imports Schema_Segment Page_Store
begin

text \<open>
  A schema that is written is read back: the document of a schema is turned back into the
  schema, as far as its numbers fit into an \<open>int\<close>, and the loops over the pages of the
  segment read the text that they wrote.
\<close>

section \<open>Words as bytes\<close>

lemma bytes_word_shifted:
  "bytes_word (map (\<lambda>i. ucast (drop_bit (8 * i) t)) [k..<k + n]) = take_bit (8 * n) (drop_bit (8 * k) t)"
proof (induction n arbitrary: k)
  case (Suc n)
  have "[k..<k + Suc n] = k # [Suc k..<Suc k + n]" by (simp add: upt_rec)
  then have "bytes_word (map (\<lambda>i. ucast (drop_bit (8 * i) t)) [k..<k + Suc n])
      = ucast (ucast (drop_bit (8 * k) t) :: 8 word) OR push_bit 8 (take_bit (8 * n) (drop_bit (8 * Suc k) t))"
    using Suc.IH [of "Suc k"] by simp
  also have "\<dots> = take_bit (8 * Suc n) (drop_bit (8 * k) t)"
    by (rule bit_eqI) (auto simp: bit_simps)
  finally show ?case .
qed simp

lemma bytes_word_tid_bytes [simp]: "bytes_word (tid_bytes t) = t"
  using bytes_word_shifted [of t 0 8] by (simp add: tid_bytes_def take_bit_word_eq_self)

lemma length_tid_bytes [simp]: "length (tid_bytes t) = 8"
  by (simp add: tid_bytes_def)

section \<open>Documents\<close>

lemma c_str_idem [simp]: "c_str (c_str s) = c_str s"
  unfolding c_str_def by (simp add: takeWhile_idem)

lemma get_string_simp [simp]: "get_string (JString s) = Some (c_str s)"
  by (simp add: get_string_def)

lemma get_int_uint: "get_int (JInt (uint w)) = (if uint w < 2 ^ 31 then Some (uint w) else None)"
proof -
  have "- (2 ^ 31) \<le> (0 :: int)" by simp
  then have "- (2 ^ 31) \<le> uint w" using uint_ge_0 [of w] by (rule order_trans)
  then show ?thesis by (simp add: get_int_def)
qed

lemma get_int_segment: "get_int (JInt (uint (w :: 16 word))) = Some (uint w)"
proof -
  have "uint w < 2 ^ 16" using uint_lt2p [of w] by simp
  then have "uint w < 2 ^ 31" by simp
  then show ?thesis by (simp add: get_int_uint)
qed

lemma find_member_object: "find_member k (JObject ms) = Some (map_of ms k)"
  by (simp add: find_member_def)

lemma map_opt_docs:
  assumes "\<And>x. x \<in> set xs \<Longrightarrow> f (h x) = (if P x then Some (g x) else None)"
  shows "map_opt f (map h xs) = (if \<forall>x \<in> set xs. P x then Some (map g xs) else None)"
  using assms by (induction xs) auto

definition reload_column :: "column \<Rightarrow> column" where
  "reload_column c = c\<lparr>column_id := c_str (column_id c)\<rparr>"

text \<open>What is left of a table: names end at a zero, and the count of inventory pages is lost.\<close>

definition reload_table :: "db_table \<Rightarrow> db_table" where
  "reload_table t = t\<lparr>table_id := c_str (table_id t), columns := map reload_column (columns t),
     primary_key := map c_str (primary_key t), table_fsi_pages := 0\<rparr>"

definition ints_fit :: "db_table \<Rightarrow> bool" where
  "ints_fit t \<longleftrightarrow> uint (table_pages t) < 2 ^ 31
     \<and> (\<forall>c \<in> set (columns t). uint (type_length (column_type c)) < 2 ^ 31)"

lemma read_type_doc: "read_type (type_doc t) = (if uint (type_length t) < 2 ^ 31 then Some t else None)"
  by (cases t; cases "tclass t")
    (simp_all add: read_type_def type_doc_def member_or_def find_member_object get_int_uint type_name_def types_def c_str_def)

lemma read_column_doc:
  "read_column (column_doc c)
    = (if uint (type_length (column_type c)) < 2 ^ 31 then Some (reload_column c) else None)"
  by (cases c) (simp add: read_column_def column_doc_def member_or_def find_member_object read_type_doc reload_column_def)

lemma read_table_doc: "read_table (table_doc t) = (if ints_fit t then Some (reload_table t) else None)"
proof -
  have cs: "map_opt read_column (map column_doc (columns t))
      = (if \<forall>c \<in> set (columns t). uint (type_length (column_type c)) < 2 ^ 31
         then Some (map reload_column (columns t)) else None)"
    by (rule map_opt_docs) (rule read_column_doc)
  have pk: "map_opt get_string (map (\<lambda>k. JString (c_str k)) (primary_key t)) = Some (map c_str (primary_key t))"
    by (subst map_opt_docs [where P = "\<lambda>_. True" and g = c_str]) simp_all
  have n: "get_int (JInt (uint (table_pages t))) = (if uint (table_pages t) < 2 ^ 31 then Some (uint (table_pages t)) else None)"
    by (rule get_int_uint)
  show ?thesis
    by (cases t) (use cs pk n in \<open>simp add: read_table_def table_doc_def member_or_def array_member_def find_member_object
      get_int_segment new_table_def reload_table_def ints_fit_def\<close>)
qed

lemma read_schema_doc:
  "read_schema (schema_doc ts) = (if \<forall>t \<in> set ts. ints_fit t then Some (map reload_table ts) else None)"
  using map_opt_docs [of ts read_table table_doc ints_fit reload_table] read_table_doc
  by (simp add: read_schema_def schema_doc_def array_member_def find_member_object)

section \<open>The pages\<close>

definition pool_ok :: "buffer_pool \<Rightarrow> bool" where
  "pool_ok p \<longleftrightarrow> (\<forall>d \<in> ran (pool_pages p). length d = pool_page_size p)"

lemma pool_ok_init: "pool_ok (pool_init ps)"
  by (simp add: pool_ok_def pool_init_def)

lemma put_bytes_simps [simp]:
  "pool_page_size (put_bytes q d p) = pool_page_size p"
  "pool_pages (put_bytes q d p) = (pool_pages p)(q \<mapsto> d)"
  by (simp_all add: put_bytes_def)

lemma pool_ok_put: "pool_ok p \<Longrightarrow> length d = pool_page_size p \<Longrightarrow> pool_ok (put_bytes q d p)"
  by (auto simp: pool_ok_def ran_def split: if_splits)

lemma pool_fix_ok:
  assumes "pool_ok p"
  obtains d p' where "pool_fix_page q p = (d, p')" "length d = pool_page_size p" "pool_page_size p' = pool_page_size p"
    "\<And>d'. put_bytes q d' p' = put_bytes q d' p"
proof (cases "pool_pages p q")
  case None
  then show thesis
    by (intro that [of "replicate (pool_page_size p) 0" "put_bytes q (replicate (pool_page_size p) 0) p"])
      (simp_all add: pool_fix_page_def Let_def put_bytes_def)
next
  case (Some d)
  then show thesis using assms by (intro that [of d p]) (auto simp: pool_fix_page_def pool_ok_def ran_def)
qed

lemma pool_fix_present: "pool_pages p q = Some d \<Longrightarrow> pool_fix_page q p = (d, p)"
  by (simp add: pool_fix_page_def)

text \<open>The table of frames is a store of pages for clients that fix one page at a time; it takes
  every write.\<close>

definition pool_content :: "buffer_pool \<Rightarrow> 64 word \<Rightarrow> bytes" where
  "pool_content p q = (case pool_pages p q of None \<Rightarrow> replicate (pool_page_size p) 0 | Some d \<Rightarrow> d)"

definition pool_get :: "64 word \<Rightarrow> buffer_pool \<Rightarrow> (bytes \<times> buffer_pool) option" where
  "pool_get q p = Some (pool_fix_page q p)"

definition pool_put :: "64 word \<Rightarrow> bytes \<Rightarrow> buffer_pool \<Rightarrow> buffer_pool option" where
  "pool_put q d p = Some (put_bytes q d (snd (pool_fix_page q p)))"

lemma pool_fix_content:
  "fst (pool_fix_page q p) = pool_content p q" "pool_content (snd (pool_fix_page q p)) = pool_content p"
  "pool_page_size (snd (pool_fix_page q p)) = pool_page_size p" "pool_ok p \<Longrightarrow> pool_ok (snd (pool_fix_page q p))"
proof -
  show "pool_page_size (snd (pool_fix_page q p)) = pool_page_size p"
    by (simp add: pool_fix_page_def Let_def split: option.split)
  show "fst (pool_fix_page q p) = pool_content p q" "pool_content (snd (pool_fix_page q p)) = pool_content p"
    by (auto simp: pool_fix_page_def pool_content_def fun_eq_iff Let_def split: option.split)
  show "pool_ok p \<Longrightarrow> pool_ok (snd (pool_fix_page q p))"
    by (simp add: pool_fix_page_def Let_def pool_ok_put split: option.split)
qed

lemma pool_content_put: "pool_content (put_bytes q d p) = (pool_content p)(q := d)"
  by (simp add: pool_content_def fun_eq_iff split: option.split)

interpretation frames: page_store pool_ok pool_page_size pool_content "\<lambda>_. ()" "\<lambda>_ v. v" "\<lambda>_ _. True" pool_get pool_put
proof
  fix p q
  assume "pool_ok p"
  then show "\<exists>p'. pool_get q p = Some (pool_content p q, p') \<and> pool_ok p' \<and> pool_page_size p' = pool_page_size p
      \<and> pool_content p' = pool_content p \<and> () = ()"
    by (intro exI [of _ "snd (pool_fix_page q p)"])
      (simp add: pool_get_def pool_fix_content prod_eq_iff)
next
  fix p :: buffer_pool and d :: bytes and q
  assume "pool_ok p" "length d = pool_page_size p"
  moreover have "pool_content (put_bytes q d (snd (pool_fix_page q p))) = (pool_content p)(q := d)"
    by (simp add: pool_content_put pool_fix_content(2))
  ultimately show "\<exists>p'. pool_put q d p = Some p' \<and> pool_ok p' \<and> pool_page_size p' = pool_page_size p
      \<and> pool_content p' = (pool_content p)(q := d) \<and> () = ()"
    by (intro exI [of _ "put_bytes q d (snd (pool_fix_page q p))"])
      (simp add: pool_put_def pool_fix_content pool_ok_put)
qed simp

lemma write_rest_ok:
  assumes "pool_ok p" "0 < pool_page_size p" "at + remaining = length text" "length text < 2 ^ 31" "pid + remaining < 2 ^ 48"
  shows "\<exists>p'. write_rest seg text at pid remaining p = Some p' \<and> pool_page_size p' = pool_page_size p
    \<and> (\<forall>q. (\<forall>j. pid \<le> j \<and> j < pid + remaining \<longrightarrow> q \<noteq> page_in_segment seg (of_nat j)) \<longrightarrow> pool_pages p' q = pool_pages p q)
    \<and> (\<forall>b. length b = length text \<longrightarrow> read_rest seg b at pid remaining p' = Some (take at b @ drop at text, p'))"
  using assms
proof (induction remaining arbitrary: p at pid rule: less_induct)
  case (less remaining)
  show ?case
  proof (cases "remaining = 0")
    case True
    then show ?thesis using less.prems(3) by (simp add: write_rest.simps read_rest.simps)
  next
    case False
    let ?q = "page_in_segment seg (of_nat pid)"
    let ?n = "min remaining (pool_page_size p)"
    obtain d p1 where fix1: "pool_fix_page ?q p = (d, p1)" "length d = pool_page_size p" "pool_page_size p1 = pool_page_size p"
        "\<And>d'. put_bytes ?q d' p1 = put_bytes ?q d' p"
      using pool_fix_ok [OF less.prems(1), of ?q] by metis
    define d1 where "d1 = take ?n (drop at text) @ drop ?n d"
    have at: "at < 2 ^ 31" "at + ?n \<le> length text" using less.prems(3,4) False by auto
    have m: "memcpy d 0 text at ?n = Some d1"
      using fix1(2) at(2) by (simp add: memcpy_in d1_def)
    have l1: "length d1 = pool_page_size p" using fix1(2) at(2) by (simp add: d1_def)
    have n: "0 < ?n" "?n \<le> remaining" using False less.prems(2) by simp_all
    let ?p1 = "put_bytes ?q d1 p"
    have "\<exists>p'. write_rest seg text (at + ?n) (pid + 1) (remaining - ?n) ?p1 = Some p' \<and> pool_page_size p' = pool_page_size ?p1
        \<and> (\<forall>q. (\<forall>j. pid + 1 \<le> j \<and> j < pid + 1 + (remaining - ?n) \<longrightarrow> q \<noteq> page_in_segment seg (of_nat j)) \<longrightarrow> pool_pages p' q = pool_pages ?p1 q)
        \<and> (\<forall>b. length b = length text \<longrightarrow> read_rest seg b (at + ?n) (pid + 1) (remaining - ?n) p' = Some (take (at + ?n) b @ drop (at + ?n) text, p'))"
      by (rule less.IH) (use n less.prems l1 in \<open>simp_all add: pool_ok_put\<close>)
    then obtain p' where p': "write_rest seg text (at + ?n) (pid + 1) (remaining - ?n) ?p1 = Some p'"
        "pool_page_size p' = pool_page_size p"
        "\<And>q. (\<forall>j. pid + 1 \<le> j \<and> j < pid + 1 + (remaining - ?n) \<longrightarrow> q \<noteq> page_in_segment seg (of_nat j)) \<Longrightarrow> pool_pages p' q = pool_pages ?p1 q"
        "\<And>b. length b = length text \<Longrightarrow> read_rest seg b (at + ?n) (pid + 1) (remaining - ?n) p' = Some (take (at + ?n) b @ drop (at + ?n) text, p')"
      by auto
    have w: "write_rest seg text at pid remaining p = Some p'"
      using p'(1) m fix1 at(1) False by (subst write_rest.simps) (simp add: Let_def)
    have others: "pool_pages p' q = pool_pages p q"
      if "\<forall>j. pid \<le> j \<and> j < pid + remaining \<longrightarrow> q \<noteq> page_in_segment seg (of_nat j)" for q
    proof -
      have "q \<noteq> ?q" using that False by simp
      moreover have "pool_pages p' q = pool_pages ?p1 q"
      proof (rule p'(3), intro allI impI)
        fix j assume "pid + 1 \<le> j \<and> j < pid + 1 + (remaining - ?n)"
        then have "pid \<le> j \<and> j < pid + remaining" using n by linarith
        then show "q \<noteq> page_in_segment seg (of_nat j)" using that by blast
      qed
      ultimately show ?thesis by simp
    qed
    have here: "pool_pages p' ?q = Some d1"
    proof -
      have "?q \<noteq> page_in_segment seg (of_nat j)" if "pid + 1 \<le> j" "j < pid + 1 + (remaining - ?n)" for j
        using that less.prems(5) n by (simp add: page_in_segment_inj)
      then have "pool_pages p' ?q = pool_pages ?p1 ?q" by (intro p'(3)) simp
      then show ?thesis by simp
    qed
    have r: "read_rest seg b at pid remaining p' = Some (take at b @ drop at text, p')" if b: "length b = length text" for b
    proof -
      define b1 where "b1 = take at b @ take ?n (drop at text) @ drop (at + ?n) b"
      have m: "memcpy b at d1 0 ?n = Some b1"
        using b at(2) l1 n by (simp add: memcpy_in b1_def d1_def)
      have lb: "length b1 = length text" "take (at + ?n) b1 = take at b @ take ?n (drop at text)"
        using b at(2) by (simp_all add: b1_def)
      have e: "drop at text = take ?n (drop at text) @ drop (at + ?n) text"
        by (metis append_take_drop_id drop_drop add.commute)
      show ?thesis
        using p'(4) [OF lb(1)] pool_fix_present [OF here] m p'(2) at(1) False lb(2)
        by (subst read_rest.simps) (simp add: Let_def e [symmetric])
    qed
    show ?thesis using w p'(2) others r by blast
  qed
qed


section \<open>The first page\<close>

lemma first_page_ok:
  assumes "20 \<le> length d" "n = min (length text) (length d - 20)"
  shows "\<exists>d1 d2. write_bytes d 0 (tid_bytes (of_nat (length text))) = Some d1 \<and> memcpy d1 20 text 0 n = Some d2
    \<and> length d2 = length d \<and> read_tid d2 0 = Some (of_nat (length text))
    \<and> memcpy (replicate (length text) 0) 0 d2 20 n = Some (take n text @ replicate (length text - n) 0)"
proof -
  define d1 where "d1 = tid_bytes (of_nat (length text)) @ drop 8 d"
  define d2 where "d2 = take 20 d1 @ take n text @ drop (20 + n) d1"
  have d1: "write_bytes d 0 (tid_bytes (of_nat (length text))) = Some d1" "length d1 = length d"
    using assms(1) by (simp_all add: write_bytes_def memcpy_in d1_def)
  have d2: "memcpy d1 20 text 0 n = Some d2" "length d2 = length d"
    using d1(2) assms by (simp_all add: memcpy_in d2_def)
  have "take 8 d2 = tid_bytes (of_nat (length text))" by (simp add: d2_def d1_def)
  then have "read_tid d2 0 = Some (of_nat (length text))" using d2(2) assms(1) by (simp add: read_tid_def)
  moreover have "memcpy (replicate (length text) 0) 0 d2 20 n = Some (take n text @ replicate (length text - n) 0)"
    using d2(2) d1(2) assms by (simp add: memcpy_in d2_def)
  ultimately show ?thesis using d1(1) d2 by blast
qed

lemma other_segment: "get_segment_id q \<noteq> seg \<Longrightarrow> j < 2 ^ 48 \<Longrightarrow> q \<noteq> page_in_segment seg (of_nat j)"
  using page_in_segment_page(2) [of j seg] by blast

section \<open>The properties of the segment\<close>

text \<open>C13: A schema that is written is read back, by a new segment object over the same pages: with the
  names up to their first zero and without the counts of inventory pages, which are not
  stored. Reading fails exactly when a length or a page count does not fit into an
  \<open>int\<close>. Writing never fails and changes no page of another segment.\<close>

theorem schema_write_read:
  assumes "pool_ok p" "20 \<le> pool_page_size p" "schema g = Some ts"
    "parser (writer (schema_doc ts)) = schema_doc ts" "length (writer (schema_doc ts)) < 2 ^ 31"
  shows "\<exists>p'. schema_segment_write writer g p = Some p'
    \<and> (\<forall>q. get_segment_id q \<noteq> schema_segment_id g \<longrightarrow> pool_pages p' q = pool_pages p q)
    \<and> schema_segment_read parser (new_schema_segment (schema_segment_id g)) p'
        = (if \<forall>t \<in> set ts. ints_fit t
           then Some (set_schema (map reload_table ts) (new_schema_segment (schema_segment_id g)), p') else None)"
proof -
  let ?text = "writer (schema_doc ts)" and ?seg = "schema_segment_id g" and ?ps = "pool_page_size p"
  let ?q = "page_in_segment ?seg 0" and ?n = "min (length ?text) (?ps - 20)"
  obtain d p1 where fix1: "pool_fix_page ?q p = (d, p1)" "length d = ?ps" "pool_page_size p1 = ?ps"
      "\<And>d'. put_bytes ?q d' p1 = put_bytes ?q d' p"
    using pool_fix_ok [OF assms(1), of ?q] by metis
  obtain d1 d2 where d2: "write_bytes d 0 (tid_bytes (of_nat (length ?text))) = Some d1" "memcpy d1 20 ?text 0 ?n = Some d2"
      "length d2 = ?ps" "read_tid d2 0 = Some (of_nat (length ?text))"
      "memcpy (replicate (length ?text) 0) 0 d2 20 ?n = Some (take ?n ?text @ replicate (length ?text - ?n) 0)"
    using first_page_ok [of d ?n ?text] assms(2) fix1(2) by auto
  have room: "first_room ?ps = ?ps - 20" using assms(2) by (simp add: first_room_def)
  have b: "(2 :: nat) ^ 31 + 1 < 2 ^ 48" "(2 :: nat) ^ 31 < 2 ^ LENGTH(64)" by simp_all
  then have pids: "1 + (length ?text - ?n) < 2 ^ 48" using assms(5) by linarith
  then obtain p' where p': "write_rest ?seg ?text ?n 1 (length ?text - ?n) (put_bytes ?q d2 p) = Some p'" "pool_page_size p' = ?ps"
      "\<And>q. (\<forall>j. 1 \<le> j \<and> j < 1 + (length ?text - ?n) \<longrightarrow> q \<noteq> page_in_segment ?seg (of_nat j)) \<Longrightarrow> pool_pages p' q = pool_pages (put_bytes ?q d2 p) q"
      "\<And>b. length b = length ?text \<Longrightarrow> read_rest ?seg b ?n 1 (length ?text - ?n) p' = Some (take ?n b @ drop ?n ?text, p')"
    using write_rest_ok [of "put_bytes ?q d2 p" ?n "length ?text - ?n" ?text 1 ?seg] pool_ok_put [OF assms(1) d2(3)] assms(2,5)
    by auto
  have w: "schema_segment_write writer g p = Some p'"
    using fix1 d2(1,2) p'(1) room assms(3) by (simp add: schema_segment_write_def Let_def)
  have others: "pool_pages p' q = pool_pages p q" if "get_segment_id q \<noteq> ?seg" for q
  proof -
    have "q \<noteq> page_in_segment ?seg (of_nat j)" if "j < 1 + (length ?text - ?n)" for j
      by (rule other_segment [OF \<open>get_segment_id q \<noteq> ?seg\<close> less_trans [OF that pids]])
    from this this [of 0] show ?thesis using p'(3) [of q] by simp
  qed
  have "?q \<noteq> page_in_segment ?seg (of_nat j)" if "1 \<le> j" "j < 1 + (length ?text - ?n)" for j
    using page_in_segment_inj [of 0 j ?seg] that pids by simp
  then have here: "pool_pages p' ?q = Some d2" using p'(3) [of ?q] by simp
  have "length ?text < 2 ^ LENGTH(64)" using assms(5) b(2) by linarith
  then have l: "unat (of_nat (length ?text) :: 64 word) = length ?text" by (simp only: unat_of_nat mod_less)
  have e: "read_rest ?seg (take ?n ?text @ replicate (length ?text - ?n) 0) ?n 1 (length ?text - ?n) p' = Some (?text, p')"
    using p'(4) [of "take ?n ?text @ replicate (length ?text - ?n) 0"] by simp
  have "schema_segment_read parser (new_schema_segment ?seg) p'
      = Option.bind (read_schema (schema_doc ts)) (\<lambda>us. Some (set_schema us (new_schema_segment ?seg), p'))"
    using pool_fix_present [OF here] d2(4,5) l room p'(2) e assms(4)
    by (simp add: schema_segment_read_def new_schema_segment_def Let_def)
  then show ?thesis using w others read_schema_doc [of ts] by auto
qed

text \<open>A segment without a schema writes the length 0, and the text of no bytes is no document.\<close>

lemma schema_unset_unreadable:
  assumes "pool_ok p" "8 \<le> pool_page_size p" "20 \<le> pool_page_size p" "schema g = None" "parser [] = JNull"
  shows "\<exists>p'. schema_segment_write writer g p = Some p' \<and> schema_segment_read parser g p' = None"
proof -
  let ?q = "page_in_segment (schema_segment_id g) 0"
  obtain d p1 where fix1: "pool_fix_page ?q p = (d, p1)" "length d = pool_page_size p" "pool_page_size p1 = pool_page_size p"
      "\<And>d'. put_bytes ?q d' p1 = put_bytes ?q d' p"
    using pool_fix_ok [OF assms(1), of ?q] by metis
  let ?d = "tid_bytes 0 @ drop 8 d"
  have w: "schema_segment_write writer g p = Some (put_bytes ?q ?d p)"
    using fix1 assms(2,4) by (simp add: schema_segment_write_def write_bytes_def memcpy_in)
  have "pool_fix_page ?q (put_bytes ?q ?d p) = (?d, put_bytes ?q ?d p)" by (rule pool_fix_present) simp
  then have "schema_segment_read parser g (put_bytes ?q ?d p) = None"
    using assms(3,5) fix1(2) by (simp add: schema_segment_read_def read_tid_def memcpy_def read_rest.simps
      read_schema_def array_member_def find_member_def first_room_def)
  then show ?thesis using w by blast
qed


definition sample_schema :: "db_table list" where
  "sample_schema = [new_table ''nation''
     [\<lparr>column_id = ''key'', column_type = type_integer\<rparr>, \<lparr>column_id = ''name'', column_type = type_char 25\<rparr>]
     [''key''] 20 21 3]"

definition sample_text :: bytes where
  "sample_text = map of_char (''{\"tables\":[{\"id\":\"nation\",\"sp_segment\":20,\"fsi_segment\":21,'' @
     ''\"allocated_slotted_pages\":3,\"columns\":[{\"id\":\"key\",\"type\":{\"tclass\":\"integer\",\"length\":0}},'' @
     ''{\"id\":\"name\",\"type\":{\"tclass\":\"char\",\"length\":25}}],\"primary_key\":[\"key\"]}]}'')"

text \<open>Its text takes five pages of 64 bytes.\<close>

theorem schema_write_read_witness:
  "\<exists>p'. schema_segment_write (\<lambda>_. sample_text) (set_schema sample_schema (new_schema_segment 7)) (pool_init 64) = Some p'
    \<and> schema_segment_read (\<lambda>b. if b = sample_text then schema_doc sample_schema else JNull) (new_schema_segment 7) p'
        = Some (set_schema sample_schema (new_schema_segment 7), p')"
proof -
  have f: "\<forall>t \<in> set sample_schema. ints_fit t"
    by (simp add: sample_schema_def ints_fit_def new_table_def type_integer_def type_char_def)
  have r: "map reload_table sample_schema = sample_schema"
    by (simp add: sample_schema_def reload_table_def reload_column_def new_table_def c_str_def)
  have l: "length sample_text < 2 ^ 31" by (simp add: sample_text_def)
  have s: "schema_segment_id (set_schema sample_schema (new_schema_segment 7)) = 7"
    "schema (set_schema sample_schema (new_schema_segment 7)) = Some sample_schema"
    "20 \<le> pool_page_size (pool_init 64)"
    by (simp_all add: set_schema_def new_schema_segment_def pool_init_def)
  show ?thesis
    using schema_write_read [OF pool_ok_init s(3,2), where writer = "\<lambda>_. sample_text"
      and parser = "\<lambda>b. if b = sample_text then schema_doc sample_schema else JNull"] f r l s(1) by auto
qed

end
