(* ===== verification/SP_Segment_Correct.thy ===== *)
theory SP_Segment_Correct
  imports SP_Segment
begin

text \<open>
  The slotted-page segment keeps its invariant when it allocates, reads and writes: every page
  is well-formed and the inventory never promises more space than the page has. Records that
  are redirects cannot be written or erased.
\<close>

definition seg_inv :: "segments \<Rightarrow> bool" where
  "seg_inv st \<longleftrightarrow> fsi_ok st \<and> page_size st < 2 ^ 19
     \<and> allocated_slotted_pages st < allocated_fsi_pages st * (page_size st * 2)
     \<and> (\<forall>k < allocated_slotted_pages st. \<exists>p. sp_frames st (sp_page_id st k) = Some p
          \<and> sp_inv (page_size st) p \<and> ff_ok p \<and> space_at st k \<le> free_space p)"

lemma slot_count_bound: "sp_inv ps p \<Longrightarrow> ps < 2 ^ 19 \<Longrightarrow> i < slot_count p \<Longrightarrow> i < 2 ^ 16"
proof -
  assume "sp_inv ps p" "ps < 2 ^ 19" "i < slot_count p"
  moreover have "(2 :: nat) ^ 19 = 8 * 2 ^ 16" by simp
  ultimately show "i < 2 ^ 16" using sp_invD(2) [of ps p] by linarith
qed

lemma slot_of_mk: "i < 2 ^ 16 \<Longrightarrow> slot_of (mk_tid pid (of_nat i)) = i"
proof -
  assume "i < 2 ^ 16"
  then have "i < 2 ^ LENGTH(16)" by simp
  then show ?thesis unfolding slot_of_def mk_tid_fields by (simp only: unat_of_nat mod_less)
qed

lemma page_of_mk: "k < 2 ^ 48 \<Longrightarrow> tid_page_id (mk_tid (page_in_segment s (of_nat k)) i) s = page_in_segment s (of_nat k)"
  using mk_tid_fields(3) [of "page_in_segment s (of_nat k)" i] page_in_segment_page(2) [of k s] by simp

section \<open>Reading and writing a record in place\<close>

lemma live_record:
  assumes "sp_inv ps p" "i < slot_count p" "entries p ! i = Record t bs"
  shows "i < length (slots p)" "live (slots p ! i)" "length bs = slot_size (slots p ! i)"
    "bs = slot_bytes (page_data p) (slots p ! i)" "t = is_redirect_target (slots p ! i)"
    "slot_offset (slots p ! i) + slot_size (slots p ! i) \<le> length (page_data p)"
proof -
  note m = sp_invD(1) [OF assms(1)]
  show il: "i < length (slots p)" using assms(2) sp_memD(3) [OF m] by simp
  show lv: "live (slots p ! i)" using entries_Record [OF il] assms(3) by auto
  note r = sp_mem_live [OF m assms(2) lv]
  show "slot_offset (slots p ! i) + slot_size (slots p ! i) \<le> length (page_data p)" using r sp_memD(2) [OF m] by simp
  show "bs = slot_bytes (page_data p) (slots p ! i)" "t = is_redirect_target (slots p ! i)"
    using assms(3) entries_nth [OF il] entry_of_live [OF lv, of "page_data p"] by simp_all
  then show "length bs = slot_size (slots p ! i)" using r sp_memD(2) [OF m] by (simp add: slot_bytes_def)
qed

lemma seg_read_record:
  assumes k: "k < 2 ^ 48" "sp_frames st (sp_page_id st k) = Some p" and p: "sp_inv ps p" "i < slot_count p" "i < 2 ^ 16"
    and e: "entries p ! i = Record t bs" "n \<le> length bs"
  shows "seg_read (mk_tid (sp_page_id st k) (of_nat i)) n st = Some (take n bs)"
proof -
  note r = live_record [OF p(1,2) e(1)]
  have "read_bytes (page_data p) (slot_offset (slots p ! i)) n = Some (take n bs)"
    using r(3,4,6) e(2) by (simp add: read_bytes_def memcpy_def slot_bytes_def min_def)
  then show ?thesis
    using k r e(2) by (simp add: seg_read_def page_of_mk slot_of_mk [OF p(3)] live_def)
qed

lemma overwrite_ok:
  assumes inv: "sp_inv ps p" and i: "i < slot_count p" "entries p ! i = Record t bs" and n: "length rec \<le> length bs"
  shows "\<exists>d. write_bytes (page_data p) (slot_offset (slots p ! i)) rec = Some d \<and> sp_inv ps (p\<lparr>page_data := d\<rparr>)
    \<and> entries (p\<lparr>page_data := d\<rparr>) = (entries p)[i := Record t (rec @ drop (length rec) bs)]"
proof -
  let ?s = "slots p ! i"
  note r = live_record [OF inv i]
  note m = sp_invD(1) [OF inv]
  obtain d where d: "memcpy (page_data p) (slot_offset ?s) rec 0 (length rec) = Some d"
    using r(3,6) n by (simp add: memcpy_def)
  note d' = memcpy_nth [OF d] length_memcpy [OF d]
  have mem: "sp_mem ps (p\<lparr>page_data := d\<rparr>)" using m d'(2) by (simp add: sp_mem_def)
  have new: "slot_bytes d ?s = rec @ drop (length rec) bs"
  proof (rule nth_equalityI)
    show "length (slot_bytes d ?s) = length (rec @ drop (length rec) bs)"
      using r(3,6) n d'(2) by (simp add: slot_bytes_def)
    fix k assume "k < length (slot_bytes d ?s)"
    then have k: "k < length bs" using r(3,6) d'(2) by (simp add: slot_bytes_def)
    have "slot_bytes d ?s ! k = d ! (slot_offset ?s + k)" using k r(3,6) d'(2) by (simp add: slot_bytes_def)
    also have "\<dots> = (if k < length rec then rec ! k else page_data p ! (slot_offset ?s + k))"
      using d'(1) [of "slot_offset ?s + k"] k r(3,6) by simp
    also have "page_data p ! (slot_offset ?s + k) = bs ! k"
      using k r(3,6) unfolding r(4) slot_bytes_def by simp
    finally show "slot_bytes d ?s ! k = (rec @ drop (length rec) bs) ! k" using k by (simp add: nth_append)
  qed
  have keep: "slot_bytes d (slots p ! j) = slot_bytes (page_data p) (slots p ! j)"
    if "j < length (slots p)" "j \<noteq> i" "live (slots p ! j)" for j
  proof -
    have j: "j < slot_count p" using that(1) sp_memD(3) [OF m] by simp
    have "apart (slots p ! j) ?s" "slot_offset (slots p ! j) + slot_size (slots p ! j) \<le> length (page_data p)"
      using sp_mem_apart [OF m j i(1) that(2,3) r(2)] sp_mem_live [OF m j that(3)] sp_memD(2) [OF m] by simp_all
    then show ?thesis unfolding slot_bytes_def using d' n r(3) by (intro take_drop_eqI) (auto simp: apart_def)
  qed
  have "(slots p)[i := ?s] = slots p" by simp
  then have "map (entry_of d) (slots p) = (entries p)[i := entry_of d ?s]"
    using entries_update [OF r(1) d'(2) keep, of ?s] by simp
  then have "entries (p\<lparr>page_data := d\<rparr>) = (entries p)[i := Record t (rec @ drop (length rec) bs)]"
    using entry_of_live [OF r(2), of d] new r(5) by (simp add: entries_def)
  then show ?thesis using d mem sp_invD(2) [OF inv] by (auto simp: write_bytes_def sp_inv_def)
qed

lemma seg_write_record:
  assumes k: "k < 2 ^ 48" "sp_frames st (sp_page_id st k) = Some p" and p: "sp_inv ps p" "i < slot_count p" "i < 2 ^ 16"
    and e: "entries p ! i = Record t bs" "length rec \<le> length bs"
  shows "\<exists>p'. seg_write (mk_tid (sp_page_id st k) (of_nat i)) rec st = Some (put_page (sp_page_id st k) p' st)
    \<and> sp_inv ps p' \<and> entries p' = (entries p)[i := Record t (rec @ drop (length rec) bs)]
    \<and> p' = p\<lparr>page_data := page_data p'\<rparr>"
proof -
  note r = live_record [OF p(1,2) e(1)]
  from overwrite_ok [OF p(1,2) e] obtain d where
    d: "write_bytes (page_data p) (slot_offset (slots p ! i)) rec = Some d" "sp_inv ps (p\<lparr>page_data := d\<rparr>)"
      "entries (p\<lparr>page_data := d\<rparr>) = (entries p)[i := Record t (rec @ drop (length rec) bs)]" by blast
  show ?thesis
    using k r e(2) d
    by (intro exI [of _ "p\<lparr>page_data := d\<rparr>"]) (simp add: seg_write_def Let_def page_of_mk slot_of_mk [OF p(3)] live_def)
qed

section \<open>allocate\<close>

lemma seg_inv_page:
  assumes "seg_inv st" "k < allocated_slotted_pages st"
  obtains p where "sp_frames st (sp_page_id st k) = Some p" "sp_inv (page_size st) p" "ff_ok p" "space_at st k \<le> free_space p"
  using assms unfolding seg_inv_def by blast

text \<open>A page of the segment is replaced by one with enough free space.\<close>

lemma put_page_inv:
  assumes inv: "seg_inv st" and st': "fsi_ok st'" "st' = st\<lparr>fsi_frames := fsi_frames st'\<rparr>"
    and k: "k < allocated_slotted_pages st" and p: "sp_inv (page_size st) p" "ff_ok p" "space_at st' k \<le> free_space p"
    and other: "\<forall>j < allocated_slotted_pages st. j \<noteq> k \<longrightarrow> code_at st' j = code_at st j"
  shows "seg_inv (put_page (sp_page_id st k) p st')"
proof -
  let ?st = "put_page (sp_page_id st k) p st'"
  have f: "page_size st' = page_size st" "sp_segment st' = sp_segment st" "allocated_slotted_pages st' = allocated_slotted_pages st"
      "allocated_fsi_pages st' = allocated_fsi_pages st" "sp_frames st' = sp_frames st" "fsi_segment st' = fsi_segment st"
    by (subst st'(2), simp)+
  have c: "code_at ?st j = code_at st' j" for j by (simp add: code_at_def)
  have ok: "fsi_ok st" using inv by (simp add: seg_inv_def)
  have "\<exists>q. sp_frames ?st (sp_page_id ?st j) = Some q \<and> sp_inv (page_size ?st) q \<and> ff_ok q \<and> space_at ?st j \<le> free_space q"
    if j: "j < allocated_slotted_pages st" for j
  proof (cases "j = k")
    case True
    then show ?thesis using p c f by simp
  next
    case False
    then have "sp_page_id st j \<noteq> sp_page_id st k" using j k fsi_okD(3) [OF ok] by (simp add: page_in_segment_inj)
    moreover obtain q where "sp_frames st (sp_page_id st j) = Some q" "sp_inv (page_size st) q" "ff_ok q"
        "space_at st j \<le> free_space q" using seg_inv_page [OF inv j] .
    ultimately show ?thesis using c f other False j by simp
  qed
  then show ?thesis using inv st'(1) f by (auto simp: seg_inv_def fsi_ok_def)
qed

lemma zeros_in_entries:
  assumes "entries p' = (if i = length es then es @ [r] else es[i := r])" "i \<le> length es"
  shows "i < length (entries p')" "entries p' ! i = r"
  using assms by (auto simp: nth_append)

definition seg_entries :: "segments \<Rightarrow> nat \<Rightarrow> entry list" where
  "seg_entries st k = (case sp_frames st (sp_page_id st k) of None \<Rightarrow> [] | Some p \<Rightarrow> entries p)"

text \<open>The outcome of an allocation: page \<open>k\<close> gets a record of zeros in slot \<open>i\<close>, which was free.\<close>

definition allocated :: "nat \<Rightarrow> segments \<Rightarrow> nat \<Rightarrow> nat \<Rightarrow> segments \<Rightarrow> bool" where
  "allocated n st k i st' \<longleftrightarrow> seg_inv st' \<and> k < allocated_slotted_pages st' \<and> i < 2 ^ 16
     \<and> page_size st' = page_size st \<and> sp_segment st' = sp_segment st
     \<and> (\<forall>j. j < allocated_slotted_pages st \<longrightarrow> j \<noteq> k \<longrightarrow> seg_entries st' j = seg_entries st j)
     \<and> i < length (seg_entries st' k) \<and> seg_entries st' k ! i = Record False (replicate n 0)
     \<and> (\<forall>j < length (seg_entries st k). j \<noteq> i \<longrightarrow> k < allocated_slotted_pages st \<longrightarrow> seg_entries st' k ! j = seg_entries st k ! j)
     \<and> (k < allocated_slotted_pages st \<longrightarrow> i < length (seg_entries st k) \<longrightarrow> seg_entries st k ! i = Free)"

lemma seg_allocate_found:
  assumes inv: "seg_inv st" and n: "0 < n" and find: "fsi_find (n + 8) st = Some ((True, sp_page_id st k), st1)"
    and found: "found_page (n + 8) st k st1" and fit: "n + 20 \<le> page_size st"
  shows "\<exists>i st'. seg_allocate n st = Some (mk_tid (sp_page_id st k) (of_nat i), st') \<and> allocated n st k i st'"
proof -
  have k: "k < allocated_slotted_pages st" and sp: "n + 8 \<le> space_at st k" and ok1: "fsi_ok st1"
      and st1: "st1 = st\<lparr>fsi_frames := fsi_frames st1\<rparr>"
      and codes: "\<forall>j < allocated_slotted_pages st. code_at st1 j =
          (if j = k then encode_free_space (page_size st) (space_at st k - (n + 8)) else code_at st j)"
    using found by (simp_all add: found_page_def)
  have f: "page_size st1 = page_size st" "sp_segment st1 = sp_segment st" "allocated_slotted_pages st1 = allocated_slotted_pages st"
      "sp_frames st1 = sp_frames st" by (subst st1, simp)+
  have ok: "fsi_ok st" using inv by (simp add: seg_inv_def)
  have k48: "k < 2 ^ 48" using k fsi_okD(3) [OF ok] by simp
  obtain p where p: "sp_frames st (sp_page_id st k) = Some p" "sp_inv (page_size st) p" "ff_ok p" "space_at st k \<le> free_space p"
    using seg_inv_page [OF inv k] .
  define i where "i = first_free_slot p"
  have "n + (if first_free_slot p = slot_count p then 8 else 0) \<le> free_space p" using sp p(4) by (simp split: if_splits)
  from sp_allocate_ok [OF p(2,3) n this] obtain p' where
    p': "sp_allocate n (page_size st) p = Some (i, p')" "sp_inv (page_size st) p'" "ff_ok p'"
      "entries p' = (if i = slot_count p then entries p @ [Record False (replicate n 0)]
         else (entries p)[i := Record False (replicate n 0)])"
      "free_space p' = free_space p - (n + (if first_free_slot p = slot_count p then 8 else 0))"
    by (auto simp: i_def)
  have len: "length (entries p) = slot_count p" using sp_memD(3) [OF sp_invD(1) [OF p(2)]] by simp
  have ii: "i \<le> slot_count p" using p(3) by (simp add: i_def ff_ok_def)
  have z: "i < length (entries p')" "entries p' ! i = Record False (replicate n 0)"
    using zeros_in_entries [of p' i "entries p"] p'(4) len ii by simp_all
  define st' where "st' = put_page (sp_page_id st k) p' st1"
  have run: "seg_allocate n st = Some (mk_tid (sp_page_id st k) (of_nat i), st')"
    using ok fit find p(1) p'(1) f by (simp add: seg_allocate_def fsi_ok_def Let_def st'_def)
  have "space_at st1 k \<le> space_at st k - (n + 8)" using codes k f decode_encode_le by simp
  then have "space_at st1 k \<le> free_space p'" using p(4) p'(5) by (auto split: if_splits)
  then have inv': "seg_inv st'" unfolding st'_def using put_page_inv [OF inv ok1 st1 k p'(2,3)] codes by simp
  have "slot_count p' = length (entries p')" using sp_memD(3) [OF sp_invD(1) [OF p'(2)]] by simp
  then have i16: "i < 2 ^ 16" using slot_count_bound [OF p'(2)] inv z(1) by (simp add: seg_inv_def)
  have e: "seg_entries st k = entries p" "seg_entries st' k = entries p'" using p(1) f by (simp_all add: seg_entries_def st'_def)
  have other: "seg_entries st' j = seg_entries st j" if "j < allocated_slotted_pages st" "j \<noteq> k" for j
    using that k48 fsi_okD(3) [OF ok] f by (simp add: seg_entries_def st'_def page_in_segment_inj)
  have free: "entries p ! i = Free" if "i < length (entries p)" using that p(3) len by (simp add: ff_ok_def i_def)
  have keep: "entries p' ! j = entries p ! j" if "j < length (entries p)" "j \<noteq> i" for j
    using that p'(4) by (auto simp: nth_append)
  have sizes: "page_size st' = page_size st" "sp_segment st' = sp_segment st" "k < allocated_slotted_pages st'"
    using f k by (simp_all add: st'_def)
  have "allocated n st k i st'"
    unfolding allocated_def e using inv' i16 other z free keep sizes by blast
  then show ?thesis using run by blast
qed

lemma new_fsi_page_ok:
  assumes inv: "seg_inv st" and room: "(allocated_fsi_pages st + 1) * (page_size st * 2) < 2 ^ 48"
    and st1: "st1 = new_fsi_page (st\<lparr>allocated_slotted_pages := allocated_slotted_pages st + 1\<rparr>)"
  shows "fsi_ok st1" "allocated_slotted_pages st1 < allocated_fsi_pages st1 * (page_size st * 2)"
    "allocated_slotted_pages st1 = allocated_slotted_pages st + 1" "page_size st1 = page_size st"
    "sp_segment st1 = sp_segment st" "sp_frames st1 = sp_frames st"
    "\<forall>j < allocated_slotted_pages st. code_at st1 j = code_at st j"
proof -
  let ?N = "page_size st * 2" and ?num = "allocated_slotted_pages st" and ?A = "allocated_fsi_pages st"
  have ok: "fsi_ok st" and lt: "?num < ?A * ?N" using inv by (simp_all add: seg_inv_def)
  have pos: "0 < page_size st" by (rule fsi_okD(1) [OF ok])
  show b: "allocated_slotted_pages st1 = ?num + 1" "page_size st1 = page_size st" "sp_segment st1 = sp_segment st"
    "sp_frames st1 = sp_frames st" by (simp_all add: st1 new_fsi_page_def)
  have seg: "fsi_segment st1 = fsi_segment st" by (simp add: st1 new_fsi_page_def)
  show lt1: "allocated_slotted_pages st1 < allocated_fsi_pages st1 * ?N"
  proof (cases "(?num + 1) mod ?N = 0")
    case True
    then have "allocated_fsi_pages st1 = ?A + 1" by (simp add: st1 new_fsi_page_def)
    then show ?thesis using b(1) lt pos by simp
  next
    case False
    then have "?num + 1 \<noteq> ?A * ?N" by (metis mod_mult_self2_is_0)
    then show ?thesis using False b(1) lt by (simp add: st1 new_fsi_page_def)
  qed
  have A48: "?A < 2 ^ 48"
  proof -
    have "?A \<le> ?A * ?N" using pos by simp
    moreover have "?A * ?N < 2 ^ 48" using ok unfolding fsi_ok_def by blast
    ultimately show ?thesis by linarith
  qed
  have frames: "fsi_frames st1 (fsi_page_id st f) = fsi_frames st (fsi_page_id st f)" if "f < ?A" for f
    using that fsi_okD(4) [OF ok that] A48 by (simp add: st1 new_fsi_page_def page_in_segment_inj)
  have A: "allocated_fsi_pages st1 = ?A \<or> (allocated_fsi_pages st1 = ?A + 1
      \<and> fsi_frames st1 (fsi_page_id st ?A) = Some (replicate (page_size st) 0xFF))"
    by (simp add: st1 new_fsi_page_def)
  have "\<exists>d. fsi_frames st1 (fsi_page_id st1 f) = Some d \<and> length d = page_size st1" if "f < allocated_fsi_pages st1" for f
  proof (cases "f < ?A")
    case True
    then show ?thesis using ok frames seg b by (simp add: fsi_ok_def)
  next
    case False
    then show ?thesis using A that seg b by (auto simp: less_Suc_eq)
  qed
  moreover have "allocated_fsi_pages st1 * ?N < 2 ^ 48"
    using A room by (auto intro: le_less_trans [OF _ room])
  ultimately show "fsi_ok st1"
    using ok lt1 b pos A by (auto simp: fsi_ok_def)
  show "\<forall>j < ?num. code_at st1 j = code_at st j"
    using fsi_page_bound [OF ok] frames b(2) seg by (simp add: code_at_def)
qed

lemma seg_allocate_fresh:
  assumes inv: "seg_inv st" and n: "0 < n" and fit: "n + 20 \<le> page_size st"
    and room: "(allocated_fsi_pages st + 1) * (page_size st * 2) < 2 ^ 48"
    and find: "fsi_find (n + 8) st = Some ((False, sp_page_id st (allocated_slotted_pages st)), st)"
  shows "\<exists>st'. seg_allocate n st = Some (mk_tid (sp_page_id st (allocated_slotted_pages st)) (of_nat 0), st')
    \<and> allocated n st (allocated_slotted_pages st) 0 st'"
proof -
  let ?k = "allocated_slotted_pages st"
  define st1 where "st1 = new_fsi_page (st\<lparr>allocated_slotted_pages := allocated_slotted_pages st + 1\<rparr>)"
  note nf = new_fsi_page_ok [OF inv room st1_def]
  have ok: "fsi_ok st" and ps: "page_size st < 2 ^ 19" using inv by (simp_all add: seg_inv_def)
  have k48: "?k < 2 ^ 48" by (rule fsi_okD(3) [OF ok])
  have "(2 :: nat) ^ 19 < 2 ^ 24" by simp
  then have "page_size st < 2 ^ 24" using ps by (rule less_trans [rotated])
  note ini = sp_init_inv(1) [OF _ this]
  have "12 \<le> page_size st" using fit by simp
  note ini = ini [OF this]
  have "n + (if first_free_slot (sp_init (page_size st)) = slot_count (sp_init (page_size st)) then 8 else 0)
      \<le> free_space (sp_init (page_size st))" using fit by (simp add: sp_init_def)
  from sp_allocate_ok [OF ini sp_init_inv(2) n this] obtain p where
    p: "sp_allocate n (page_size st) (sp_init (page_size st)) = Some (0, p)" "sp_inv (page_size st) p" "ff_ok p"
      "entries p = [Record False (replicate n 0)]"
    using sp_init_inv(3) [of "page_size st"] by (auto simp: sp_init_def)
  have ok1: "fsi_ok (put_page (sp_page_id st ?k) p st1)" using nf(1) by (simp add: fsi_ok_def)
  have k1: "?k < allocated_slotted_pages (put_page (sp_page_id st ?k) p st1)" using nf(3) by simp
  from fsi_update_ok [OF ok1 k1, of "free_space p"] obtain st' where
    u: "fsi_update (sp_page_id st ?k) (free_space p) (put_page (sp_page_id st ?k) p st1) = Some st'" "fsi_ok st'"
      "st' = (put_page (sp_page_id st ?k) p st1)\<lparr>fsi_frames := fsi_frames st'\<rparr>"
      "\<forall>j < ?k + 1. code_at st' j = (if j = ?k then encode_free_space (page_size st) (free_space p)
         else code_at (put_page (sp_page_id st ?k) p st1) j)"
    using nf(3,4,5) by auto
  have f: "page_size st' = page_size st" "sp_segment st' = sp_segment st" "allocated_slotted_pages st' = ?k + 1"
      "allocated_fsi_pages st' = allocated_fsi_pages st1" "sp_frames st' = (sp_frames st)(sp_page_id st ?k \<mapsto> p)"
    by (subst u(3), simp add: nf)+
  have codes: "code_at st' j = code_at st j" if "j < ?k" for j
  proof -
    have "code_at st' j = code_at (put_page (sp_page_id st ?k) p st1) j" using u(4) that by simp
    also have "\<dots> = code_at st1 j" by (simp add: code_at_def)
    also have "\<dots> = code_at st j" using nf(7) that by simp
    finally show ?thesis .
  qed
  have run: "seg_allocate n st = Some (mk_tid (sp_page_id st ?k) (of_nat 0), st')"
  proof -
    have "new_fsi_page (st\<lparr>allocated_slotted_pages := Suc ?k\<rparr>) = st1" by (simp add: st1_def)
    then show ?thesis
      using ok fit find p(1) u(1) page_in_segment_page(3) [OF k48]
      by (simp add: seg_allocate_def fsi_ok_def Let_def nf(4))
  qed
  have pid: "sp_page_id st j \<noteq> sp_page_id st ?k" if "j < ?k" for j
    using that k48 by (simp add: page_in_segment_inj)
  have "\<exists>q. sp_frames st' (sp_page_id st' j) = Some q \<and> sp_inv (page_size st') q \<and> ff_ok q \<and> space_at st' j \<le> free_space q"
    if j: "j < ?k + 1" for j
  proof (cases "j = ?k")
    case True
    then show ?thesis using f p(2,3) u(4) decode_encode_le by simp
  next
    case False
    then have "j < ?k" using j by simp
    then show ?thesis using seg_inv_page [OF inv, of j] f codes pid by simp metis
  qed
  then have inv': "seg_inv st'"
    unfolding seg_inv_def using u(2) ps f nf(2,3) by simp
  have e: "seg_entries st' ?k = [Record False (replicate n 0)]" using f p(4) by (simp add: seg_entries_def)
  have other: "seg_entries st' j = seg_entries st j" if "j < ?k" for j using that pid f by (simp add: seg_entries_def)
  have "allocated n st ?k 0 st'" using inv' f e other by (simp add: allocated_def)
  then show ?thesis using run by blast
qed

lemma seg_allocate_ok:
  assumes "seg_inv st" "0 < n" "n + 20 \<le> page_size st" "(allocated_fsi_pages st + 1) * (page_size st * 2) < 2 ^ 48"
  shows "\<exists>k i st'. seg_allocate n st = Some (mk_tid (sp_page_id st k) (of_nat i), st') \<and> allocated n st k i st'"
proof -
  have "fsi_ok st" using assms(1) by (simp add: seg_inv_def)
  from fsi_find_ok [OF this, of "n + 8"] show ?thesis
    using seg_allocate_found [OF assms(1,2) _ _ assms(3)] seg_allocate_fresh [OF assms(1,2,3,4)] by blast
qed

section \<open>A new segment\<close>

definition seg_start :: "nat \<Rightarrow> 16 word \<Rightarrow> 16 word \<Rightarrow> segments" where
  "seg_start ps s f = seg_init (fsi_init \<lparr>page_size = ps, sp_segment = s, fsi_segment = f,
     allocated_slotted_pages = 0, allocated_fsi_pages = 0, fsi_frames = Map.empty, sp_frames = Map.empty\<rparr>)"

lemma seg_start_inv:
  assumes "20 \<le> ps" "ps < 2 ^ 19"
  shows "seg_inv (seg_start ps s f)" "page_size (seg_start ps s f) = ps" "allocated_slotted_pages (seg_start ps s f) = 1"
    "allocated_fsi_pages (seg_start ps s f) = 1" "seg_entries (seg_start ps s f) 0 = []"
    "sp_segment (seg_start ps s f) = s"
proof -
  let ?st = "seg_start ps s f"
  show d: "page_size ?st = ps" "allocated_slotted_pages ?st = 1" "allocated_fsi_pages ?st = 1" "sp_segment ?st = s"
    by (simp_all add: seg_start_def seg_init_def fsi_init_def)
  have fr: "fsi_frames ?st (fsi_page_id ?st 0) = Some (replicate ps 0xFF)"
      "sp_frames ?st (sp_page_id ?st 0) = Some (sp_init ps)"
    by (simp_all add: seg_start_def seg_init_def fsi_init_def)
  show "seg_entries ?st 0 = []" using fr(2) by (simp add: seg_entries_def sp_init_inv(3))
  have l: "(2 :: nat) ^ 19 < 2 ^ 24" "(2 :: nat) ^ 19 * 2 < 2 ^ 48" by simp_all
  then have b: "ps < 2 ^ 24" "ps * 2 < 2 ^ 48" using assms(2) by linarith+
  have ok: "fsi_ok ?st" unfolding fsi_ok_def using d assms(1) b(2) fr(1) by (auto simp: less_Suc_eq)
  have "code_at ?st 0 = unat (drop_bit 4 (0xFF :: 8 word))" using assms(1) d fr(1) by (simp add: code_at_def entry_code_def)
  also have "\<dots> = 15" by code_simp
  finally have "space_at ?st 0 = ps - 12" by (simp add: d decode_free_space_def look_up_table_def Let_def)
  moreover have "free_space (sp_init ps) = ps - 12" by (simp add: sp_init_def)
  ultimately show "seg_inv ?st"
    unfolding seg_inv_def using ok d fr(2) assms sp_init_inv(1) [OF _ b(1)] sp_init_inv(2) by (auto simp: less_Suc_eq)
qed

section \<open>The properties of the segment\<close>

text \<open>The inventory's encoding never promises more than there is, and is the closest of the
  sixteen levels below.\<close>

theorem fsi_encoding:
  "encode_free_space ps f < 16 \<and> decode_free_space ps (encode_free_space ps f) \<le> f
    \<and> (\<forall>code < 16. decode_free_space ps code \<le> f \<longrightarrow> decode_free_space ps code \<le> decode_free_space ps (encode_free_space ps f))"
proof -
  have "decode_free_space ps code \<le> decode_free_space ps (encode_free_space ps f)"
    if "code < 16" "decode_free_space ps code \<le> f" for code
  proof -
    have "\<not> encode_free_space ps f < code"
      using encode_from_next [of 15 "look_up_table ps" f code] that by (auto simp: encode_free_space_def decode_free_space_def)
    then show ?thesis using table_mono [of code "encode_free_space ps f" ps] encode_less [of ps f]
      by (simp add: decode_free_space_def)
  qed
  then show ?thesis using decode_encode_le encode_less by blast
qed

theorem fsi_encoding_witness:
  "encode_free_space 1024 300 = 6 \<and> decode_free_space 1024 5 \<le> decode_free_space 1024 (encode_free_space 1024 300)"
proof -
  have "encode_free_space 1024 300 = 6" "decode_free_space 1024 5 \<le> 300" by code_simp+
  then show ?thesis using fsi_encoding [of 1024 300] by simp
qed

text \<open>C23: A search of the inventory finds the first page whose entry promises the space, and lowers
  that entry by it; when no page does, it names the next page to allocate and changes nothing.\<close>

theorem fsi_find_correct:
  assumes "fsi_ok st"
  shows "\<exists>r st'. fsi_find req st = Some (r, st')
      \<and> ((\<exists>k. r = (True, sp_page_id st k) \<and> found_page req st k st')
        \<or> (r = (False, sp_page_id st (allocated_slotted_pages st)) \<and> st' = st
             \<and> (\<forall>j < allocated_slotted_pages st. space_at st j < req)))"
  by (rule fsi_find_ok [OF assms])

theorem fsi_find_correct_witness:
  "\<exists>r st'. fsi_find 100 (seg_start 1024 1 2) = Some (r, st')"
proof -
  have "fsi_ok (seg_start 1024 1 2)" using seg_start_inv(1) [of 1024 1 2] by (simp add: seg_inv_def)
  from fsi_find_correct [OF this, of 100] show ?thesis by blast
qed

text \<open>C10: An allocation on a segment in good order never fails: it returns a record of zeros in a
  slot that was free, on a page that has the space or on a new one, keeps every other record, and
  the inventory still promises no more space than the pages have.\<close>

theorem seg_allocate_correct:
  assumes "seg_inv st" "0 < n" "n + 20 \<le> page_size st" "(allocated_fsi_pages st + 1) * (page_size st * 2) < 2 ^ 48"
  shows "\<exists>k i st'. seg_allocate n st = Some (mk_tid (sp_page_id st k) (of_nat i), st') \<and> allocated n st k i st'
    \<and> seg_read (mk_tid (sp_page_id st k) (of_nat i)) n st' = Some (replicate n 0)"
proof -
  from seg_allocate_ok [OF assms] obtain k i st' where
    a: "seg_allocate n st = Some (mk_tid (sp_page_id st k) (of_nat i), st')" "allocated n st k i st'" by blast
  have inv': "seg_inv st'" "k < allocated_slotted_pages st'" "i < 2 ^ 16" "sp_segment st' = sp_segment st"
      "i < length (seg_entries st' k)" "seg_entries st' k ! i = Record False (replicate n 0)"
    using a(2) by (simp_all add: allocated_def)
  have "fsi_ok st'" using inv'(1) by (simp add: seg_inv_def)
  then have k48: "k < 2 ^ 48" using inv'(2) fsi_okD(3) less_trans by blast
  obtain p where p: "sp_frames st' (sp_page_id st' k) = Some p" "sp_inv (page_size st') p"
    using seg_inv_page [OF inv'(1,2)] by blast
  have e: "seg_entries st' k = entries p" using p(1) by (simp add: seg_entries_def)
  then have il: "i < slot_count p" using inv'(5) sp_memD(3) [OF sp_invD(1) [OF p(2)]] by simp
  have r: "entries p ! i = Record False (replicate n 0)" using inv'(6) e by simp
  have "seg_read (mk_tid (sp_page_id st' k) (of_nat i)) n st' = Some (take n (replicate n 0))"
    by (rule seg_read_record [OF k48 p il inv'(3) r]) simp
  then have "seg_read (mk_tid (sp_page_id st' k) (of_nat i)) n st' = Some (replicate n 0)" by simp
  then show ?thesis using a inv'(4) by auto
qed

theorem seg_allocate_correct_witness:
  "\<exists>t st'. seg_allocate 100 (seg_start 1024 1 2) = Some (t, st') \<and> seg_inv st' \<and> seg_read t 100 st' = Some (replicate 100 0)"
proof -
  let ?st = "seg_start 1024 1 2"
  have s: "seg_inv ?st" "page_size ?st = 1024" "allocated_fsi_pages ?st = 1" by (simp_all add: seg_start_inv)
  from seg_allocate_correct [OF s(1), of 100] show ?thesis
    unfolding s(2,3) allocated_def by fastforce
qed

lemma seg_write_ok:
  assumes "seg_inv st" "k < allocated_slotted_pages st" "i < length (seg_entries st k)"
    "seg_entries st k ! i = Record t bs" "length rec \<le> length bs"
  shows "\<exists>st'. seg_write (mk_tid (sp_page_id st k) (of_nat i)) rec st = Some st' \<and> seg_inv st'
    \<and> seg_read (mk_tid (sp_page_id st k) (of_nat i)) (length rec) st' = Some rec
    \<and> (\<forall>l j. l < allocated_slotted_pages st \<longrightarrow> (l, j) \<noteq> (k, i) \<longrightarrow> seg_entries st' l ! j = seg_entries st l ! j)
    \<and> k < allocated_slotted_pages st' \<and> i < length (seg_entries st' k)
    \<and> seg_entries st' k ! i = Record t (rec @ drop (length rec) bs)"
proof -
  have ok: "fsi_ok st" and ps: "page_size st < 2 ^ 19" using assms(1) by (simp_all add: seg_inv_def)
  have k48: "k < 2 ^ 48" using assms(2) fsi_okD(3) [OF ok] by simp
  obtain p where p: "sp_frames st (sp_page_id st k) = Some p" "sp_inv (page_size st) p" "ff_ok p" "space_at st k \<le> free_space p"
    using seg_inv_page [OF assms(1,2)] .
  have e: "seg_entries st k = entries p" using p(1) by (simp add: seg_entries_def)
  have i: "i < slot_count p" using assms(3) e sp_memD(3) [OF sp_invD(1) [OF p(2)]] by simp
  have i16: "i < 2 ^ 16" by (rule slot_count_bound [OF p(2) ps i])
  have r: "entries p ! i = Record t bs" using assms(4) e by simp
  from seg_write_record [OF k48 p(1,2) i i16 r assms(5)] obtain p' where
    w: "seg_write (mk_tid (sp_page_id st k) (of_nat i)) rec st = Some (put_page (sp_page_id st k) p' st)"
      "sp_inv (page_size st) p'" "entries p' = (entries p)[i := Record t (rec @ drop (length rec) bs)]"
      "p' = p\<lparr>page_data := page_data p'\<rparr>" by blast
  let ?st = "put_page (sp_page_id st k) p' st"
  have h: "slot_count p' = slot_count p" "first_free_slot p' = first_free_slot p" "free_space p' = free_space p"
    by (subst w(4), simp)+
  have "first_free_slot p \<noteq> i" if "first_free_slot p < slot_count p"
    using p(3) r that by (auto simp: ff_ok_def)
  then have ff: "ff_ok p'"
    using p(3) h w(3) by (auto simp: ff_ok_def)
  have inv': "seg_inv ?st"
    by (rule put_page_inv [OF assms(1) ok _ assms(2) w(2) ff]) (use p(4) h in simp_all)
  have "entries p' ! i = Record t (rec @ drop (length rec) bs)" using w(3) assms(3) e by simp
  from seg_read_record [OF k48 _ w(2) _ i16 this, of ?st] i h have
    rd: "seg_read (mk_tid (sp_page_id st k) (of_nat i)) (length rec) ?st = Some rec" by simp
  have "seg_entries ?st l ! j = seg_entries st l ! j" if "l < allocated_slotted_pages st" "(l, j) \<noteq> (k, i)" for l j
  proof (cases "l = k")
    case True
    then show ?thesis using that(2) p(1) w(3) by (simp add: seg_entries_def)
  next
    case False
    then show ?thesis using that(1) k48 fsi_okD(3) [OF ok] by (simp add: seg_entries_def page_in_segment_inj)
  qed
  moreover have "seg_entries ?st k = (entries p)[i := Record t (rec @ drop (length rec) bs)]" using w(3) by (simp add: seg_entries_def)
  ultimately show ?thesis using w(1) inv' rd assms(2,3) e by (intro exI [of _ ?st]) simp
qed

text \<open>C11: What is written to a record that is not a redirect is read back, and no other record
  changes.\<close>

theorem seg_write_read:
  assumes "seg_inv st" "k < allocated_slotted_pages st" "i < length (seg_entries st k)"
    "seg_entries st k ! i = Record t bs" "length rec \<le> length bs"
  shows "\<exists>st'. seg_write (mk_tid (sp_page_id st k) (of_nat i)) rec st = Some st' \<and> seg_inv st'
    \<and> seg_read (mk_tid (sp_page_id st k) (of_nat i)) (length rec) st' = Some rec
    \<and> (\<forall>l j. l < allocated_slotted_pages st \<longrightarrow> (l, j) \<noteq> (k, i) \<longrightarrow> seg_entries st' l ! j = seg_entries st l ! j)"
  using seg_write_ok [OF assms] by blast

theorem seg_write_read_witness:
  "\<exists>t st st'. seg_allocate 3 (seg_start 1024 1 2) = Some (t, st) \<and> seg_write t [7, 8, 9] st = Some st'
    \<and> seg_read t 3 st' = Some [7, 8, 9]"
proof -
  let ?st = "seg_start 1024 1 2"
  have s: "seg_inv ?st" "page_size ?st = 1024" "allocated_fsi_pages ?st = 1" by (simp_all add: seg_start_inv)
  obtain k i st where a: "seg_allocate 3 ?st = Some (mk_tid (sp_page_id ?st k) (of_nat i), st)" "allocated 3 ?st k i st"
    using seg_allocate_ok [OF s(1), of 3] unfolding s(2,3) by auto
  have f: "seg_inv st" "k < allocated_slotted_pages st" "i < length (seg_entries st k)"
      "seg_entries st k ! i = Record False (replicate 3 0)" "sp_segment st = sp_segment ?st"
    using a(2) by (simp_all add: allocated_def)
  from seg_write_read [OF f(1,2,3,4), of "[7, 8, 9]"] show ?thesis
    using a(1) f(5) by (auto simp: numeral_3_eq_3)
qed

text \<open>A record that has outgrown its page: a page of 128 bytes holds records of 40 and of 30 bytes,
  and the first one grows to 90 bytes.\<close>

definition seg_grown :: "(tid \<times> segments) option" where
  "seg_grown = do {
     (t, st) \<leftarrow> seg_allocate 40 (seg_start 128 1 2);
     st \<leftarrow> seg_write t (replicate 40 7) st;
     (_, st) \<leftarrow> seg_allocate 30 st;
     st \<leftarrow> seg_resize t 90 st;
     Some (t, st) }"

definition slot_kind :: "tid \<Rightarrow> segments \<Rightarrow> bool option" where
  "slot_kind t st = do {
     p \<leftarrow> sp_frames st (tid_page_id t (sp_segment st));
     s \<leftarrow> arr_get (slots p) (slot_of t);
     Some (is_redirect s) }"

lemma grown_redirect: "map_option (\<lambda>(t, st). slot_kind t st) seg_grown = Some (Some True)"
  by code_simp

text \<open>C40: A record that is a redirect can never be erased: the page refuses to erase the slot, which
  the code asks it to before it follows the redirect.\<close>

theorem seg_erase_redirect_fails:
  assumes "sp_frames st (tid_page_id tid (sp_segment st)) = Some p" "slot_of tid < length (slots p)"
    "is_redirect (slots p ! slot_of tid)"
  shows "seg_erase tid st = None"
proof -
  have "sp_erase (slot_of tid) p = None"
    using assms by (simp add: sp_erase_def require_bind_if)
  then show ?thesis using assms by (cases "page_bytes_tid p (slots p ! slot_of tid)") (simp_all add: seg_erase_def Let_def)
qed

theorem seg_erase_redirect_fails_witness:
  "\<exists>t st. seg_grown = Some (t, st) \<and> seg_erase t st = None"
proof -
  obtain t st where g: "seg_grown = Some (t, st)" "slot_kind t st = Some True"
    using grown_redirect by (auto simp: map_option_case split: option.splits)
  then obtain p where "sp_frames st (tid_page_id t (sp_segment st)) = Some p" "slot_of t < length (slots p)"
      "is_redirect (slots p ! slot_of t)"
    by (auto simp: slot_kind_def arr_get_def bind_eq_Some_conv split: if_splits)
  from seg_erase_redirect_fails [OF this] g(1) show ?thesis by blast
qed

text \<open>A record that outgrows its page and becomes a redirect is read back with its old bytes, but
  writing to it fails, even within its old size.\<close>

theorem seg_redirect_not_writable:
  "\<exists>t st. seg_grown = Some (t, st) \<and> seg_read t 40 st = Some (replicate 40 7) \<and> seg_write t [1] st = None"
proof -
  have "map_option (\<lambda>(t, st). (seg_read t 40 st, seg_write t [1] st = None)) seg_grown = Some (Some (replicate 40 7), True)"
    by code_simp
  then show ?thesis by (auto simp: map_option_case split: option.splits)
qed

end
