(* ===== verification/Database_Correct.thy ===== *)
theory Database_Correct
  imports Database Schema_Segment_Correct SP_Segment_Correct
begin

text \<open>
  Tuples that are inserted are stored as records that decode to their values, and
  \<open>read_tuple\<close> can never show them: it asks the segment for more bytes than a page has.
\<close>

section \<open>Values as bytes\<close>

lemma char_byte [simp]: "char_of_byte (byte_of_char c) = c"
proof -
  have "(of_char c :: nat) < 256" using of_char_mod_256 [of c] by (metis mod_less_divisor zero_less_numeral)
  then show ?thesis by (simp add: char_of_byte_def byte_of_char_def unat_of_nat)
qed

lemma length_int_bytes [simp]: "length (int_bytes i) = 4"
  by (simp add: int_bytes_def)

lemma bytes_int_bytes: "- (2 ^ 31) \<le> i \<Longrightarrow> i < 2 ^ 31 \<Longrightarrow> bytes_int (int_bytes i) = i"
proof -
  assume i: "- (2 ^ 31) \<le> i" "i < 2 ^ 31"
  let ?w = "word_of_int i :: 64 word"
  have "int_bytes i = map (\<lambda>k. ucast (drop_bit (8 * k) ?w)) [0..<0 + 4]"
    unfolding int_bytes_def tid_bytes_def take_map take_upt [of 0 4 8, simplified] by simp
  then have "bytes_word (int_bytes i) = take_bit 32 ?w" using bytes_word_shifted [of ?w 0 4] by simp
  then have "(ucast (bytes_word (int_bytes i)) :: 32 word) = word_of_int i"
    by (simp add: unsigned_take_bit_eq) (rule bit_eqI, auto simp: bit_simps)
  then show ?thesis unfolding bytes_int_def using i by (simp add: signed_of_int signed_take_bit_int_eq_self)
qed

definition col_width :: "column \<Rightarrow> nat" where
  "col_width c = (case tclass (column_type c) of KInteger \<Rightarrow> 4 | KChar \<Rightarrow> unat (type_length (column_type c)))"

definition record_size :: "column list \<Rightarrow> nat" where
  "record_size cs = sum_list (map col_width cs)"

definition value_text :: "column \<Rightarrow> string \<Rightarrow> string" where
  "value_text c s =
     (case tclass (column_type c) of
        KInteger \<Rightarrow> decimal_int (scan_int s)
      | KChar \<Rightarrow> take (col_width c) s @ replicate (col_width c - length s) CHR '' '')"

text \<open>The integers of a tuple are in the range of \<open>int\<close>.\<close>

definition value_ok :: "column \<Rightarrow> string \<Rightarrow> bool" where
  "value_ok c s \<longleftrightarrow> tclass (column_type c) = KInteger \<longrightarrow> - (2 ^ 31) \<le> scan_int s \<and> scan_int s < 2 ^ 31"

definition tuple_line :: "column list \<Rightarrow> string list \<Rightarrow> string" where
  "tuple_line cs data = concat (map2 (\<lambda>c s. value_text c s @ '' | '') cs data) @ [CHR 0x0A]"

lemma value_bytes_ok:
  assumes "value_ok c s"
  shows "\<exists>bs. value_bytes c s = Some bs \<and> length bs = col_width c
    \<and> (\<forall>rest. column_text c (bs @ rest) = Some (value_text c s, rest))"
proof (cases "tclass (column_type c)")
  case KInteger
  then have i: "- (2 ^ 31) \<le> scan_int s" "scan_int s < 2 ^ 31" using assms by (simp_all add: value_ok_def)
  then have "atoi s = Some (scan_int s)" by (simp add: atoi_def)
  then show ?thesis using KInteger bytes_int_bytes [OF i]
    by (simp add: value_bytes_def column_text_def value_text_def col_width_def)
next
  case KChar
  define n where "n = unat (type_length (column_type c))"
  let ?bs = "map (\<lambda>j. if j < length s then byte_of_char (s ! j) else byte_of_char CHR '' '') [0..<n]"
  have "map char_of_byte ?bs = take n s @ replicate (n - length s) CHR '' ''"
    by (rule nth_equalityI) (auto simp: nth_append min_def)
  then show ?thesis using KChar
    by (simp add: value_bytes_def column_text_def value_text_def col_width_def n_def [symmetric])
qed

lemma tuple_bytes_ok:
  assumes "length cs = length data" "list_all2 value_ok cs data"
  shows "\<exists>bs. tuple_bytes cs data = Some bs \<and> length bs = record_size cs
    \<and> (\<forall>rest got. record_size cs + c0 = got \<longrightarrow>
         tuple_text cs got (got + length rest) (bs @ rest) = Some (tuple_line cs data))"
  using assms
proof (induction cs data arbitrary: c0 rule: list_induct2)
  case Nil
  then show ?case by (simp add: tuple_bytes_def record_size_def tuple_line_def)
next
  case (Cons c cs s data)
  from Cons.prems have ok: "value_ok c s" "list_all2 value_ok cs data" by simp_all
  obtain b where b: "value_bytes c s = Some b" "length b = col_width c"
      "\<And>rest. column_text c (b @ rest) = Some (value_text c s, rest)"
    using value_bytes_ok [OF ok(1)] by blast
  obtain bs where bs: "tuple_bytes cs data = Some bs" "length bs = record_size cs"
      "\<And>rest got. record_size cs + (col_width c + c0) = got \<Longrightarrow>
        tuple_text cs got (got + length rest) (bs @ rest) = Some (tuple_line cs data)"
    using Cons.IH [OF ok(2), of "col_width c + c0"] by blast
  have "tuple_bytes (c # cs) (s # data) = Some (b @ bs)"
    using b(1) bs(1) by (auto simp: tuple_bytes_def split: option.splits)
  moreover have "length (b @ bs) = record_size (c # cs)" using b(2) bs(2) by (simp add: record_size_def)
  moreover have "tuple_text (c # cs) got (got + length rest) ((b @ bs) @ rest) = Some (tuple_line (c # cs) (s # data))"
    if "record_size (c # cs) + c0 = got" for rest got
  proof -
    have g: "record_size cs + (col_width c + c0) = got" using that by (simp add: record_size_def)
    then have "\<not> got + length rest - length (bs @ rest) > got" using bs(2) by simp
    then show ?thesis using b(3) [of "bs @ rest"] bs(3) [OF g, of rest] by (simp add: tuple_line_def)
  qed
  ultimately show ?case by blast
qed

section \<open>Segments of the tables\<close>

lemma find_from_counts: "find_from req ps sp st = Some (r, st') \<Longrightarrow> allocated_slotted_pages st' = allocated_slotted_pages st"
proof (induction ps arbitrary: sp)
  case (Cons a ps)
  obtain d where d: "fsi_frames st (fsi_page_id st a) = Some d"
    using Cons.prems by (cases "fsi_frames st (fsi_page_id st a)") simp_all
  show ?case
    by (cases "find_in_page (page_size st) req (allocated_slotted_pages st) d 0 sp")
      (use Cons d in \<open>auto simp: Let_def\<close>)
qed simp

lemma fsi_update_counts: "fsi_update q f st = Some st' \<Longrightarrow> allocated_slotted_pages st' = allocated_slotted_pages st"
  by (auto simp: fsi_update_def Let_def bind_eq_Some_conv split: prod.splits)

lemma seg_allocate_counts:
  "seg_allocate n st = Some (t, st') \<Longrightarrow> allocated_slotted_pages st \<le> allocated_slotted_pages st'"
  unfolding seg_allocate_def fsi_find_def
  by (auto simp: Let_def new_fsi_page_def bind_eq_Some_conv dest!: find_from_counts fsi_update_counts
    split: prod.splits if_splits)

lemma table_segments_start: "table_segments ps t = seg_start ps (table_sp t) (table_fsi t)"
  by (simp add: table_segments_def seg_start_def seg_init_def fsi_init_def)

lemma emplace_segments_ok:
  assumes "distinct (segment_ids ts)" "distinct (map table_sp us)" "distinct (map table_fsi us)"
    "\<forall>u \<in> set us. slotted_pages db (table_sp u) = None \<and> table_fsi u \<notin> free_space_inventory db"
  shows "\<exists>db'. fold (emplace_segments ts) us db = db' \<and> pool db' = pool db \<and> schema_segment db' = schema_segment db
    \<and> (\<forall>i. i \<notin> table_sp ` set us \<longrightarrow> slotted_pages db' i = slotted_pages db i)
    \<and> (\<forall>u \<in> set us. slotted_pages db' (table_sp u)
          = Some (Some (seg_start (pool_page_size (pool db)) (table_sp u) (table_fsi u))))"
  using assms(2-)
proof (induction us arbitrary: db)
  case (Cons u us)
  let ?db = "emplace_segments ts u db"
  have f: "pool ?db = pool db" "schema_segment ?db = schema_segment db"
      "slotted_pages ?db = (slotted_pages db)(table_sp u \<mapsto> Some (seg_start (pool_page_size (pool db)) (table_sp u) (table_fsi u)))"
      "free_space_inventory ?db = insert (table_fsi u) (free_space_inventory db)"
    using Cons.prems assms(1) by (simp_all add: emplace_segments_def Let_def table_segments_start)
  have "distinct (map table_sp us)" "distinct (map table_fsi us)" using Cons.prems by simp_all
  moreover have "\<forall>v \<in> set us. slotted_pages ?db (table_sp v) = None \<and> table_fsi v \<notin> free_space_inventory ?db"
  proof
    fix v assume v: "v \<in> set us"
    then have "table_sp v \<noteq> table_sp u" "table_fsi v \<noteq> table_fsi u"
      using Cons.prems(1,2) by (auto simp: image_iff)
    then show "slotted_pages ?db (table_sp v) = None \<and> table_fsi v \<notin> free_space_inventory ?db"
      using v Cons.prems(3) unfolding f by simp
  qed
  ultimately obtain db' where db': "fold (emplace_segments ts) us ?db = db'" "pool db' = pool ?db" "schema_segment db' = schema_segment ?db"
      "\<forall>i. i \<notin> table_sp ` set us \<longrightarrow> slotted_pages db' i = slotted_pages ?db i"
      "\<forall>v \<in> set us. slotted_pages db' (table_sp v)
        = Some (Some (seg_start (pool_page_size (pool ?db)) (table_sp v) (table_fsi v)))"
    using Cons.IH [of ?db] by blast
  have "table_sp u \<notin> table_sp ` set us" using Cons.prems(1) by simp
  then show ?case using db' unfolding f by auto
qed simp

lemma load_new_schema_ok:
  assumes "distinct (segment_ids ts)"
  shows "\<exists>db. load_new_schema writer ts database_init = Some db \<and> pool db = pool_init 1024
    \<and> schema_segment db = Some (set_schema ts (new_schema_segment 0))
    \<and> (\<forall>t \<in> set ts. slotted_pages db (table_sp t) = Some (Some (seg_start 1024 (table_sp t) (table_fsi t))))"
proof -
  let ?db = "database_init\<lparr>schema_segment := Some (set_schema ts (new_schema_segment 0))\<rparr>"
  have d: "distinct (map table_sp ts)" "distinct (map table_fsi ts)" using assms by (simp_all add: segment_ids_def)
  have n: "\<forall>t \<in> set ts. slotted_pages ?db (table_sp t) = None \<and> table_fsi t \<notin> free_space_inventory ?db"
    by (simp add: database_init_def)
  have "load_new_schema writer ts database_init = Some (fold (emplace_segments ts) ts ?db)"
    by (simp add: load_new_schema_def replace_schema_segment_def write_schema_def current_segment_def database_init_def)
  then show ?thesis using emplace_segments_ok [OF assms d n] by (auto simp: database_init_def pool_init_def)
qed

section \<open>The properties of the database\<close>

text \<open>C12: A tuple of valid values is inserted: a new record of its table holds bytes from which the
  loop of \<open>read_tuple\<close> prints the values, integers as \<open>atoi\<close> reads them and strings cut or
  padded to their column; no other record and no other table changes.\<close>

theorem insert_stores_tuple:
  assumes "slotted_pages db (table_sp t) = Some (Some st)" "seg_inv st"
    "(allocated_fsi_pages st + 1) * (page_size st * 2) < 2 ^ 48"
    "length (columns t) = length data" "list_all2 value_ok (columns t) data"
    "0 < record_size (columns t)" "record_size (columns t) + 20 \<le> page_size st"
  shows "\<exists>k i st' rec. insert_tuple t data db = Some (Inr (mk_tid (sp_page_id st k) (of_nat i)),
        db\<lparr>slotted_pages := (slotted_pages db)(table_sp t \<mapsto> Some st')\<rparr>)
    \<and> seg_inv st' \<and> k < allocated_slotted_pages st' \<and> i < length (seg_entries st' k) \<and> seg_entries st' k ! i = Record False rec
    \<and> seg_read (mk_tid (sp_page_id st k) (of_nat i)) (record_size (columns t)) st' = Some rec
    \<and> (\<forall>rest. tuple_text (columns t) (length rec) (length (rec @ rest)) (rec @ rest) = Some (tuple_line (columns t) data))
    \<and> (\<forall>l j. l < allocated_slotted_pages st \<longrightarrow> j < length (seg_entries st l) \<longrightarrow> seg_entries st l ! j \<noteq> Free
         \<longrightarrow> seg_entries st' l ! j = seg_entries st l ! j)"
proof -
  let ?n = "record_size (columns t)"
  obtain rec where rec: "tuple_bytes (columns t) data = Some rec" "length rec = ?n"
      "\<And>rest. tuple_text (columns t) ?n (?n + length rest) (rec @ rest) = Some (tuple_line (columns t) data)"
    using tuple_bytes_ok [OF assms(4,5), of 0] by auto
  have "page_size st < 2 ^ 19" using assms(2) by (simp add: seg_inv_def)
  moreover have "(2 :: nat) ^ 19 < 2 ^ 32" by simp
  ultimately have n: "?n mod 2 ^ 32 = ?n" using assms(7) by (intro mod_less) linarith
  obtain k i st1 where a: "seg_allocate ?n st = Some (mk_tid (sp_page_id st k) (of_nat i), st1)" "allocated ?n st k i st1"
    using seg_allocate_ok [OF assms(2,6,7,3)] by blast
  have f: "seg_inv st1" "k < allocated_slotted_pages st1" "i < length (seg_entries st1 k)"
      "seg_entries st1 k ! i = Record False (replicate ?n 0)" "sp_segment st1 = sp_segment st"
    using a(2) by (simp_all add: allocated_def)
  from seg_write_ok [OF f(1-4), of rec] rec(2) obtain st' where
    w: "seg_write (mk_tid (sp_page_id st k) (of_nat i)) rec st1 = Some st'" "seg_inv st'"
      "seg_read (mk_tid (sp_page_id st k) (of_nat i)) ?n st' = Some rec"
      "\<And>l j. l < allocated_slotted_pages st1 \<Longrightarrow> (l, j) \<noteq> (k, i) \<Longrightarrow> seg_entries st' l ! j = seg_entries st1 l ! j"
      "k < allocated_slotted_pages st'" "i < length (seg_entries st' k)" "seg_entries st' k ! i = Record False rec"
    using f(5) by auto
  have "insert_tuple t data db = Some (Inr (mk_tid (sp_page_id st k) (of_nat i)),
      db\<lparr>slotted_pages := (slotted_pages db)(table_sp t \<mapsto> Some st')\<rparr>)"
    using assms(1,4) rec(1,2) n a(1) w(1) by (simp add: insert_tuple_def segments_at_def Let_def)
  moreover have "seg_entries st' l ! j = seg_entries st l ! j"
    if "l < allocated_slotted_pages st" "j < length (seg_entries st l)" "seg_entries st l ! j \<noteq> Free" for l j
  proof -
    have "(l, j) \<noteq> (k, i)" using that a(2) by (auto simp: allocated_def)
    moreover have "l < allocated_slotted_pages st1" using seg_allocate_counts [OF a(1)] that(1) by simp
    moreover have "seg_entries st1 l ! j = seg_entries st l ! j"
      using that \<open>(l, j) \<noteq> (k, i)\<close> a(2) by (cases "l = k") (auto simp: allocated_def)
    ultimately show ?thesis using w(4) by simp
  qed
  ultimately show ?thesis using w(2,3,5-7) rec(2,3) by (intro exI conjI) auto
qed

text \<open>A table with an integer and 25 characters, and the text of a tuple of it.\<close>

definition sample_table :: db_table where
  "sample_table = hd sample_schema"

lemma sample_table_fields:
  "table_sp sample_table = 20" "table_fsi sample_table = 21" "sample_schema = [sample_table]"
  "columns sample_table = [\<lparr>column_id = ''key'', column_type = type_integer\<rparr>, \<lparr>column_id = ''name'', column_type = type_char 25\<rparr>]"
  "record_size (columns sample_table) = 29"
  by (simp_all add: sample_table_def sample_schema_def new_table_def record_size_def col_width_def type_integer_def type_char_def)

lemma sample_line:
  "list_all2 value_ok (columns sample_table) [''42'', ''GERMANY'']"
  "tuple_line (columns sample_table) [''42'', ''GERMANY''] = ''42 | GERMANY                   | '' @ [CHR 0x0A]"
proof -
  have "scan_int ''42'' = 42" by code_simp
  then show "list_all2 value_ok (columns sample_table) [''42'', ''GERMANY'']"
    by (simp add: sample_table_fields value_ok_def type_integer_def type_char_def)
  show "tuple_line (columns sample_table) [''42'', ''GERMANY''] = ''42 | GERMANY                   | '' @ [CHR 0x0A]"
    by code_simp
qed

theorem insert_stores_tuple_witness:
  "\<exists>db tid db' rec. load_new_schema (\<lambda>_. []) sample_schema database_init = Some db
    \<and> insert_tuple sample_table [''42'', ''GERMANY''] db = Some (Inr tid, db')
    \<and> tuple_text (columns sample_table) (length rec) (length rec) rec = Some (''42 | GERMANY                   | '' @ [CHR 0x0A])"
proof -
  have ids: "distinct (segment_ids sample_schema)"
    by (simp add: segment_ids_def sample_table_fields)
  obtain db where db: "load_new_schema (\<lambda>_. []) sample_schema database_init = Some db"
      "slotted_pages db (table_sp sample_table) = Some (Some (seg_start 1024 20 21))"
    using load_new_schema_ok [OF ids, of "\<lambda>_. []"] by (auto simp: sample_table_fields)
  have s: "seg_inv (seg_start 1024 20 21)" "page_size (seg_start 1024 20 21) = 1024" "allocated_fsi_pages (seg_start 1024 20 21) = 1"
    by (simp_all add: seg_start_inv)
  have h: "(allocated_fsi_pages (seg_start 1024 20 21) + 1) * (page_size (seg_start 1024 20 21) * 2) < 2 ^ 48"
      "length (columns sample_table) = length [''42'', ''GERMANY'']" "0 < record_size (columns sample_table)"
      "record_size (columns sample_table) + 20 \<le> page_size (seg_start 1024 20 21)"
    unfolding sample_table_fields(5) s(2,3) by (simp_all add: sample_table_fields(4))
  have "\<exists>tid db' rec. insert_tuple sample_table [''42'', ''GERMANY''] db = Some (Inr tid, db')
      \<and> (\<forall>rest. tuple_text (columns sample_table) (length rec) (length (rec @ rest)) (rec @ rest)
            = Some (tuple_line (columns sample_table) [''42'', ''GERMANY'']))"
    using insert_stores_tuple [OF db(2) s(1) h(1,2) sample_line(1) h(3,4)] by blast
  then obtain tid db' rec where i: "insert_tuple sample_table [''42'', ''GERMANY''] db = Some (Inr tid, db')"
      "\<And>rest. tuple_text (columns sample_table) (length rec) (length (rec @ rest)) (rec @ rest)
        = Some (tuple_line (columns sample_table) [''42'', ''GERMANY''])" by blast
  show ?thesis using db(1) i(1) i(2) [of "[]"] sample_line(2) by auto
qed

text \<open>C14: \<open>read_tuple\<close> never shows a record: it reads 1024 bytes, and the assertion of the segment
  that the slot has as many fails for every record of a page of 1024 bytes.\<close>

theorem read_tuple_fails:
  assumes "slotted_pages db (table_sp t) = Some (Some st)" "seg_inv st" "page_size st \<le> 1024"
    "k < allocated_slotted_pages st" "i < length (seg_entries st k)" "seg_entries st k ! i = Record tg rec"
  shows "read_tuple t (mk_tid (sp_page_id st k) (of_nat i)) db = None"
proof -
  have ok: "fsi_ok st" and ps: "page_size st < 2 ^ 19" using assms(2) by (simp_all add: seg_inv_def)
  have k48: "k < 2 ^ 48" using assms(4) fsi_okD(3) [OF ok] by simp
  obtain p where p: "sp_frames st (sp_page_id st k) = Some p" "sp_inv (page_size st) p"
    using seg_inv_page [OF assms(2,4)] by blast
  have e: "seg_entries st k = entries p" using p(1) by (simp add: seg_entries_def)
  note m = sp_memD [OF sp_invD(1) [OF p(2)]]
  have i: "i < slot_count p" using assms(5) e m(3) by simp
  have i16: "i < 2 ^ 16" by (rule slot_count_bound [OF p(2) ps i])
  have "entries p ! i = Record tg rec" using assms(6) e by simp
  note r = live_record [OF p(2) i this]
  have "slot_size (slots p ! i) < 1024"
    using sp_mem_live(2,3) [OF sp_invD(1) [OF p(2)] i r(2)] m(4) i assms(3) by linarith
  then have "seg_read (mk_tid (sp_page_id st k) (of_nat i)) 1024 st = None"
    using p(1) r(1,2) k48 by (simp add: seg_read_def page_of_mk slot_of_mk [OF i16] live_def require_bind_if)
  then show ?thesis using assms(1) by (simp add: read_tuple_def segments_at_def)
qed

theorem read_tuple_fails_witness:
  "\<exists>tid st. seg_allocate 29 (seg_start 1024 20 21) = Some (tid, st)
    \<and> read_tuple sample_table tid (database_init\<lparr>slotted_pages := [20 \<mapsto> Some st]\<rparr>) = None"
proof -
  let ?st = "seg_start 1024 20 21"
  have s: "seg_inv ?st" "page_size ?st = 1024" "allocated_fsi_pages ?st = 1" by (simp_all add: seg_start_inv)
  obtain k i st where a: "seg_allocate 29 ?st = Some (mk_tid (sp_page_id ?st k) (of_nat i), st)" "allocated 29 ?st k i st"
    using seg_allocate_ok [OF s(1), of 29] unfolding s(2,3) by auto
  have f: "seg_inv st" "page_size st \<le> 1024" "k < allocated_slotted_pages st" "i < length (seg_entries st k)"
      "seg_entries st k ! i = Record False (replicate 29 0)" "sp_segment st = sp_segment ?st"
    using a(2) s(2) by (simp_all add: allocated_def)
  have "slotted_pages (database_init\<lparr>slotted_pages := [20 \<mapsto> Some st]\<rparr>) (table_sp sample_table) = Some (Some st)"
    by (simp add: sample_table_fields)
  from read_tuple_fails [OF this f(1-5)] show ?thesis using a(1) f(6) by auto
qed

end
