(* ===== verification/Hex_Dump.thy ===== *)
theory Hex_Dump
  imports Slotted_Page Text_Conversions
begin

text \<open>
  The dump of a buffer (\<^verbatim>\<open>hex_dump.cc\<close> of the tasks \<^verbatim>\<open>task-slotted-pages\<close> and
  \<^verbatim>\<open>task-btree\<close>, two copies of one file): per line the offset, the characters and the bytes
  in hexadecimal. The flags of the stream stay set between the outputs: numbers are hexadecimal
  from the first offset on, and upper case from the first byte on. The loop does not advance
  when the width is 0.
\<close>

text \<open>A \<open>char\<close> is signed: the bytes from 128 on are less than 32.\<close>

definition dump_char :: "8 word \<Rightarrow> char" where
  "dump_char b = (if sint b < 32 then CHR ''.'' else char_of (unat b))"

definition dump_byte :: "8 word \<Rightarrow> string" where
  "dump_byte b = pad_zeros 2 (number_text 16 True (unat b))"

fun dump_bytes :: "bool \<Rightarrow> bytes \<Rightarrow> string" where
  "dump_bytes start [] = []"
| "dump_bytes start (b # bs) = (if start then [] else '' '') @ dump_byte b @ dump_bytes False bs"

definition dump_offset :: "bool \<Rightarrow> nat \<Rightarrow> string" where
  "dump_offset upper at = pad_zeros 4 (number_text 16 upper at)"

definition dump_line :: "nat \<Rightarrow> bool \<Rightarrow> nat \<Rightarrow> bytes \<Rightarrow> string" where
  "dump_line width upper at line =
     dump_offset upper at @ '' : '' @ map dump_char line
     @ (if length line \<noteq> width then replicate (width - length line) CHR '' '' else []) @ '' ''
     @ dump_bytes True line @ '' '' @ [CHR 0x0A]"

partial_function (option) dump_lines :: "nat \<Rightarrow> bytes \<Rightarrow> nat \<Rightarrow> bool \<Rightarrow> string \<Rightarrow> string option" where
  "dump_lines width data at upper out =
     (if at = length data then Some out
      else
        let line_length = min width (length data - at);
            line = take line_length (drop at data)
        in dump_lines width data (at + line_length) (upper \<or> line \<noteq> []) (out @ dump_line width upper at line))"

definition hex_dump :: "bytes \<Rightarrow> nat \<Rightarrow> string option" where
  "hex_dump data width = dump_lines width data 0 False []"

section \<open>The dump\<close>

text \<open>The lines that a dump should have.\<close>

definition dump_text :: "nat \<Rightarrow> bytes \<Rightarrow> string" where
  "dump_text width data =
     concat (map (\<lambda>k. dump_line width (k > 0) (k * width) (take width (drop (k * width) data)))
       [0..<(length data + width - 1) div width])"

lemma dump_lines_stuck:
  assumes "at < length data"
  shows "dump_lines 0 data at upper out = None"
proof (rule ccontr)
  assume "dump_lines 0 data at upper out \<noteq> None"
  then obtain r where r: "dump_lines 0 data at upper out = Some r" by blast
  have "0 = (0 :: nat) \<longrightarrow> \<not> at < length data"
    by (rule dump_lines.raw_induct [OF _ r, where P = "\<lambda>w d at u ou r. w = (0 :: nat) \<longrightarrow> \<not> at < length d"])
      (auto simp: Let_def split: if_splits)
  then show False using assms by simp
qed

lemma dump_lines_text:
  assumes "0 < width" "k * width \<le> length data + width - 1" "k \<le> (length data + width - 1) div width" "upper = (k > 0)"
  shows "dump_lines width data (min (k * width) (length data)) upper out
    = Some (out @ concat (map (\<lambda>k. dump_line width (k > 0) (k * width) (take width (drop (k * width) data)))
        [k..<(length data + width - 1) div width]))"
  using assms
proof (induction "(length data + width - 1) div width - k" arbitrary: k out upper)
  case 0
  let ?m = "(length data + width - 1) div width"
  have "k = ?m" using 0 by simp
  moreover have "length data \<le> ?m * width"
  proof -
    have "length data + width - 1 = ?m * width + (length data + width - 1) mod width" by simp
    moreover have "(length data + width - 1) mod width < width" using 0 by simp
    ultimately show ?thesis by linarith
  qed
  ultimately show ?case by (simp add: dump_lines.simps)
next
  case (Suc m)
  let ?m = "(length data + width - 1) div width"
  let ?line = "take width (drop (k * width) data)"
  have k: "k < ?m" using Suc.hyps(2) by simp
  then have "(k + 1) * width \<le> ?m * width" by (intro mult_le_mono1) simp
  also have "\<dots> \<le> length data + width - 1" by simp
  finally have le: "(k + 1) * width \<le> length data + width - 1" .
  then have at: "k * width < length data" using Suc.prems(1) by simp
  have next_at: "k * width + min width (length data - k * width) = min ((k + 1) * width) (length data)"
    using at by (auto simp: min_def)
  have line: "take (min width (length data - k * width)) (drop (k * width) data) = ?line"
    by (simp add: min_def)
  have ne: "?line \<noteq> []" using at Suc.prems(1) by simp
  have "dump_lines width data (min (k * width) (length data)) upper out
      = dump_lines width data (min ((k + 1) * width) (length data)) True (out @ dump_line width upper (k * width) ?line)"
    using at ne next_at line by (subst dump_lines.simps) (simp add: Let_def min_absorb1)
  also have "\<dots> = Some ((out @ dump_line width upper (k * width) ?line)
      @ concat (map (\<lambda>k. dump_line width (k > 0) (k * width) (take width (drop (k * width) data))) [k + 1..<?m]))"
    by (rule Suc.hyps(1)) (use Suc.hyps(2) Suc.prems(1) k le in simp_all)
  also have "[k..<?m] = k # [k + 1..<?m]" using k by (simp add: upt_rec)
  ultimately show ?case using Suc.prems(4) by simp
qed

text \<open>C16: A dump ends exactly when the width is positive or there is nothing to dump, and then has
  one line for every \<open>width\<close> bytes and for the rest, with its offset, its characters and its bytes.\<close>

theorem hex_dump_terminates:
  "hex_dump data width = (if width = 0 \<and> data \<noteq> [] then None else Some (dump_text width data))"
proof (cases "width = 0")
  case True
  have e: "dump_lines 0 [] 0 False [] = Some []" by (subst dump_lines.simps) simp
  show ?thesis
    using True e dump_lines_stuck [of 0 data False "[]"] by (cases data) (simp_all add: hex_dump_def dump_text_def)
next
  case False
  then show ?thesis using dump_lines_text [of width 0 data False "[]"] by (simp add: hex_dump_def dump_text_def)
qed

theorem hex_dump_terminates_witness:
  "hex_dump [0x48, 0x69, 0xFF, 0x0A] 3 = Some (''0000 : Hi. 48 69 FF '' @ [CHR 0x0A] @ ''0003 : .   0A '' @ [CHR 0x0A])
    \<and> hex_dump [0x48] 0 = None"
proof -
  have "dump_text 3 [0x48, 0x69, 0xFF, 0x0A] = ''0000 : Hi. 48 69 FF '' @ [CHR 0x0A] @ ''0003 : .   0A '' @ [CHR 0x0A]"
    by code_simp
  then show ?thesis
    using hex_dump_terminates [of "[0x48, 0x69, 0xFF, 0x0A]" 3] hex_dump_terminates [of "[0x48]" 0] by simp
qed

end
