(* ===== verification/Disk_Manager.thy ===== *)
theory Disk_Manager
  imports Slotted_Page Page_Store
begin

text \<open>
  The disk manager of the slotted-page task (\<^verbatim>\<open>disk_manager.cc\<close> and \<^verbatim>\<open>disk_manager.h\<close>
  under \<^verbatim>\<open>src/task-slotted-pages\<close>): pages of files, one file per segment, for any number of
  threads. \<open>ReadPage\<close> opens the file of a segment on first use and makes it larger when the
  page lies behind its end. Its sections under a latch are steps: the look-up under the global
  latch, which a thread keeps while it waits for the latch of the file; the resize under that
  latch; and the read. \<open>WritePage\<close> is one step under the shared global latch, and fails when no
  read has opened the file or the page is not inside it. A new disk manager finds files of any
  contents. Errors of the file system are not modelled.

  With one thread the disk manager is a store of pages (\<open>disk_store\<close>); with several, a page
  changes exactly by a write of it or by a resize that cuts it off (\<open>page_lost_by_resize\<close>).
\<close>

datatype dm_pc = Idle | Waiting "16 word" nat | Resizing "16 word" nat | Reading "16 word" nat

record disk_manager =
  dm_page_size :: nat
  file_table :: "16 word set"
  segment_file :: "16 word \<Rightarrow> bytes"
  global_latch :: "nat option"
  file_latch :: "16 word \<rightharpoonup> nat"
  dm_at :: "nat \<Rightarrow> dm_pc"

datatype 'a attempt = Blocked | Failed | Done 'a

definition asserted :: "bool \<Rightarrow> 'a \<Rightarrow> 'a attempt" where
  "asserted b x = (if b then Done x else Failed)"

fun has_failed :: "'a attempt \<Rightarrow> bool" where
  "has_failed Failed = True"
| "has_failed Blocked = False"
| "has_failed (Done x) = False"

lemma has_failed_iff: "has_failed x \<longleftrightarrow> x = Failed"
  by (cases x) simp_all

text \<open>A new disk manager has opened no file; the files are those on the disk.\<close>

definition dm_init :: "nat \<Rightarrow> (16 word \<Rightarrow> bytes) \<Rightarrow> disk_manager" where
  "dm_init ps fs = \<lparr>dm_page_size = ps, file_table = {}, segment_file = fs, global_latch = None,
     file_latch = Map.empty, dm_at = (\<lambda>_. Idle)\<rparr>"

abbreviation at_pc :: "nat \<Rightarrow> dm_pc \<Rightarrow> disk_manager \<Rightarrow> disk_manager" where
  "at_pc t pc d \<equiv> d\<lparr>dm_at := (dm_at d)(t := pc)\<rparr>"

definition if_file_opened :: "16 word \<Rightarrow> disk_manager \<Rightarrow> bool" where
  "if_file_opened seg d \<longleftrightarrow> seg \<in> file_table d"

definition get_file_size :: "16 word \<Rightarrow> disk_manager \<Rightarrow> nat attempt" where
  "get_file_size seg d =
     asserted (seg \<in> file_table d \<and> length (segment_file d seg) mod dm_page_size d = 0) (length (segment_file d seg))"

section \<open>ReadPage and WritePage\<close>

definition page_inside :: "16 word \<Rightarrow> nat \<Rightarrow> disk_manager \<Rightarrow> bool" where
  "page_inside seg n d \<longleftrightarrow> n * dm_page_size d + dm_page_size d \<le> length (segment_file d seg)"

definition read_begin :: "nat \<Rightarrow> 16 word \<Rightarrow> nat \<Rightarrow> disk_manager \<Rightarrow> disk_manager" where
  "read_begin t seg n d =
     (let d = d\<lparr>file_table := insert seg (file_table d)\<rparr>
      in if page_inside seg n d then at_pc t (Reading seg n) d
         else case file_latch d seg of
                None \<Rightarrow> at_pc t (Resizing seg n) (d\<lparr>file_latch := (file_latch d)(seg \<mapsto> t)\<rparr>)
              | Some _ \<Rightarrow> at_pc t (Waiting seg n) (d\<lparr>global_latch := Some t\<rparr>))"

definition read_latched :: "nat \<Rightarrow> 16 word \<Rightarrow> nat \<Rightarrow> disk_manager \<Rightarrow> disk_manager" where
  "read_latched t seg n d =
     at_pc t (Resizing seg n) (d\<lparr>file_latch := (file_latch d)(seg \<mapsto> t), global_latch := None\<rparr>)"

definition resize_bytes :: "nat \<Rightarrow> bytes \<Rightarrow> bytes" where
  "resize_bytes n f = take n f @ replicate (n - length f) 0"

definition read_resize :: "nat \<Rightarrow> 16 word \<Rightarrow> nat \<Rightarrow> disk_manager \<Rightarrow> disk_manager attempt" where
  "read_resize t seg n d =
     (let new_size = dm_page_size d * (n + 1 + 1)
      in asserted (n * dm_page_size d + dm_page_size d \<le> new_size \<and> length (segment_file d seg) mod dm_page_size d = 0)
           (at_pc t (Reading seg n)
             (d\<lparr>segment_file := (segment_file d)(seg := resize_bytes new_size (segment_file d seg)),
                file_latch := (file_latch d)(seg := None)\<rparr>)))"

definition read_finish :: "nat \<Rightarrow> 16 word \<Rightarrow> nat \<Rightarrow> disk_manager \<Rightarrow> (bytes \<times> disk_manager) attempt" where
  "read_finish t seg n d =
     asserted (page_inside seg n d)
       (take (dm_page_size d) (drop (n * dm_page_size d) (segment_file d seg)), at_pc t Idle d)"

definition write_page :: "16 word \<Rightarrow> nat \<Rightarrow> bytes \<Rightarrow> disk_manager \<Rightarrow> disk_manager attempt" where
  "write_page seg n block d =
     (case memcpy (segment_file d seg) (n * dm_page_size d) block 0 (dm_page_size d) of
        None \<Rightarrow> Failed
      | Some f \<Rightarrow> asserted (seg \<in> file_table d \<and> page_inside seg n d) (d\<lparr>segment_file := (segment_file d)(seg := f)\<rparr>))"

section \<open>Steps of the threads\<close>

datatype dm_action = ReadPage nat "16 word" nat | Continue nat | WritePage nat "16 word" nat bytes

text \<open>A step with the page that a \<open>ReadPage\<close> delivers, if it ends with this step.\<close>

fun dm_step :: "dm_action \<Rightarrow> disk_manager \<Rightarrow> (bytes option \<times> disk_manager) attempt" where
  "dm_step (ReadPage t seg n) d =
     (if dm_at d t = Idle \<and> global_latch d = None then Done (None, read_begin t seg n d) else Blocked)"
| "dm_step (Continue t) d =
     (case dm_at d t of
        Idle \<Rightarrow> Blocked
      | Waiting seg n \<Rightarrow> if file_latch d seg = None then Done (None, read_latched t seg n d) else Blocked
      | Resizing seg n \<Rightarrow> (case read_resize t seg n d of Done d \<Rightarrow> Done (None, d) | Blocked \<Rightarrow> Blocked | Failed \<Rightarrow> Failed)
      | Reading seg n \<Rightarrow> (case read_finish t seg n d of Done (p, d) \<Rightarrow> Done (Some p, d) | Blocked \<Rightarrow> Blocked | Failed \<Rightarrow> Failed))"
| "dm_step (WritePage t seg n block) d =
     (if dm_at d t = Idle \<and> global_latch d = None
      then (case write_page seg n block d of Done d \<Rightarrow> Done (None, d) | Blocked \<Rightarrow> Blocked | Failed \<Rightarrow> Failed)
      else Blocked)"

fun dm_run :: "dm_action list \<Rightarrow> disk_manager \<Rightarrow> (bytes list \<times> disk_manager) attempt" where
  "dm_run [] d = Done ([], d)"
| "dm_run (a # as) d =
     (case dm_step a d of
        Done (p, d) \<Rightarrow>
          (case dm_run as d of
             Done (ps, d) \<Rightarrow> Done ((case p of None \<Rightarrow> ps | Some q \<Rightarrow> q # ps), d)
           | Blocked \<Rightarrow> Blocked | Failed \<Rightarrow> Failed)
      | Blocked \<Rightarrow> Blocked | Failed \<Rightarrow> Failed)"

text \<open>The pages of the files, with zeros behind the end.\<close>

definition disk_page :: "disk_manager \<Rightarrow> 16 word \<Rightarrow> nat \<Rightarrow> bytes" where
  "disk_page d seg n =
     (let p = take (dm_page_size d) (drop (n * dm_page_size d) (segment_file d seg))
      in p @ replicate (dm_page_size d - length p) 0)"

definition dm_ok :: "disk_manager \<Rightarrow> bool" where
  "dm_ok d \<longleftrightarrow> 0 < dm_page_size d \<and> (\<forall>seg. dm_page_size d dvd length (segment_file d seg))"

definition quiet :: "disk_manager \<Rightarrow> bool" where
  "quiet d \<longleftrightarrow> global_latch d = None \<and> file_latch d = Map.empty \<and> dm_at d = (\<lambda>_. Idle)"

lemma disk_page_inside: "page_inside seg n d \<Longrightarrow> disk_page d seg n = take (dm_page_size d) (drop (n * dm_page_size d) (segment_file d seg))"
  by (simp add: disk_page_def page_inside_def Let_def)

lemma page_resized:
  assumes "0 < ps" "ps dvd length f" "length f \<le> k"
  shows "(let p = take ps (drop (n * ps) (resize_bytes k f)) in p @ replicate (ps - length p) (0 :: 8 word))
    = (let p = take ps (drop (n * ps) f) in p @ replicate (ps - length p) 0)"
proof -
  obtain q where q: "length f = ps * q" using assms(2) by blast
  have r: "resize_bytes k f = f @ replicate (k - length f) 0" using assms(3) by (simp add: resize_bytes_def)
  show ?thesis
  proof (cases "n < q")
    case True
    then have "(n + 1) * ps \<le> q * ps" by (intro mult_le_mono1) simp
    then have "n * ps + ps \<le> length f" using q by (simp add: algebra_simps)
    then show ?thesis by (simp add: r)
  next
    case False
    then have "length f \<le> n * ps" using q by (simp add: mult.commute)
    then show ?thesis by (simp add: r min_def replicate_add [symmetric])
  qed
qed

lemma not_inside_resize:
  assumes "dm_ok d" "\<not> page_inside seg n d"
  shows "length (segment_file d seg) \<le> dm_page_size d * (n + 1 + 1)"
  using assms(2) by (simp add: page_inside_def algebra_simps)

text \<open>The steps of one undisturbed \<open>ReadPage\<close>.\<close>

definition read_actions :: "nat \<Rightarrow> 16 word \<Rightarrow> nat \<Rightarrow> disk_manager \<Rightarrow> dm_action list" where
  "read_actions t seg n d = (if page_inside seg n d then [ReadPage t seg n, Continue t] else [ReadPage t seg n, Continue t, Continue t])"

lemma disk_page_cong: "dm_page_size d' = dm_page_size d \<Longrightarrow> segment_file d' = segment_file d \<Longrightarrow> disk_page d' = disk_page d"
  by (intro ext) (simp add: disk_page_def)

lemma dm_read_ok:
  assumes "quiet d" "dm_ok d"
  shows "\<exists>d'. dm_run (read_actions t seg n d) d = Done ([disk_page d seg n], d') \<and> quiet d' \<and> dm_ok d'
    \<and> dm_page_size d' = dm_page_size d \<and> disk_page d' = disk_page d
    \<and> file_table d' = insert seg (file_table d)
    \<and> segment_file d' = (segment_file d)(seg := if page_inside seg n d then segment_file d seg
         else resize_bytes (dm_page_size d * (n + 2)) (segment_file d seg))"
proof (cases "page_inside seg n d")
  case True
  let ?d = "d\<lparr>file_table := insert seg (file_table d), dm_at := (dm_at d)(t := Idle)\<rparr>"
  have i: "page_inside seg n ?d" using True by (simp add: page_inside_def)
  have "dm_run (read_actions t seg n d) d = Done ([disk_page d seg n], ?d)"
    using assms(1) True by (simp add: read_actions_def quiet_def read_begin_def Let_def page_inside_def
      read_finish_def asserted_def disk_page_inside)
  moreover have "quiet ?d" "dm_ok ?d" "disk_page ?d = disk_page d"
    using assms by (auto simp: quiet_def dm_ok_def intro!: disk_page_cong)
  ultimately show ?thesis using True by (intro exI [of _ ?d]) simp
next
  case False
  let ?k = "dm_page_size d * (n + 1 + 1)"
  let ?f = "resize_bytes ?k (segment_file d seg)"
  let ?d = "d\<lparr>file_table := insert seg (file_table d), segment_file := (segment_file d)(seg := ?f),
     file_latch := (file_latch d)(seg := None), dm_at := (dm_at d)(t := Idle)\<rparr>"
  have le: "length (segment_file d seg) \<le> ?k" by (rule not_inside_resize [OF assms(2) False])
  have lf: "length ?f = ?k" using le by (simp add: resize_bytes_def)
  have ps: "0 < dm_page_size d" "dm_page_size d dvd length (segment_file d seg)" using assms(2) by (simp_all add: dm_ok_def)
  have i: "page_inside seg n ?d" unfolding page_inside_def using lf by (simp add: algebra_simps)
  have page: "disk_page ?d = disk_page d"
  proof (intro ext)
    fix s m
    show "disk_page ?d s m = disk_page d s m"
    proof (cases "s = seg")
      case True
      then show ?thesis using page_resized [OF ps le, of m] by (simp add: disk_page_def)
    next
      case False
      then show ?thesis by (simp add: disk_page_def)
    qed
  qed
  have "take (dm_page_size d) (drop (n * dm_page_size d) ?f) = disk_page d seg n"
    using disk_page_inside [OF i] page by (simp add: fun_eq_iff)
  moreover have "dm_page_size d + n * dm_page_size d \<le> ?k" by (simp add: algebra_simps)
  ultimately have "dm_run (read_actions t seg n d) d = Done ([disk_page d seg n], ?d)"
    using assms(1) False ps lf by (simp add: read_actions_def quiet_def read_begin_def Let_def page_inside_def
      read_resize_def read_finish_def asserted_def algebra_simps)
  moreover have "quiet ?d" using assms(1) by (auto simp: quiet_def)
  moreover have "dm_ok ?d" using assms(2) lf by (auto simp: dm_ok_def)
  ultimately show ?thesis using False page by (intro exI [of _ ?d]) simp
qed

lemma page_written:
  assumes "length block = dm_page_size d" "n * dm_page_size d + dm_page_size d \<le> length (segment_file d seg)"
    "dm_page_size d' = dm_page_size d"
    "segment_file d' = (segment_file d)(seg := take (n * dm_page_size d) (segment_file d seg) @ block
       @ drop (n * dm_page_size d + dm_page_size d) (segment_file d seg))"
  shows "disk_page d' = (disk_page d)(seg := (disk_page d seg)(n := block))"
proof (intro ext)
  fix s k
  let ?ps = "dm_page_size d" and ?f = "segment_file d seg"
  define g where "g = take (n * ?ps) ?f @ block @ drop (n * ?ps + ?ps) ?f"
  note ins = assms(2)
  have d': "segment_file d' = (segment_file d)(seg := g)" using assms(4) by (simp add: g_def)
  have lg: "length g = length ?f" using ins assms(1) by (simp add: g_def)
  have other: "take ?ps (drop (k * ?ps) g) = take ?ps (drop (k * ?ps) ?f)" if "k \<noteq> n"
  proof (rule nth_equalityI)
    show "length (take ?ps (drop (k * ?ps) g)) = length (take ?ps (drop (k * ?ps) ?f))" by (simp add: lg)
    fix i assume "i < length (take ?ps (drop (k * ?ps) g))"
    then have i: "i < ?ps" "k * ?ps + i < length ?f" by (auto simp: lg less_diff_conv add.commute)
    have "k * ?ps + i < n * ?ps \<or> n * ?ps + ?ps \<le> k * ?ps + i"
    proof (cases "k < n")
      case True
      then have "(k + 1) * ?ps \<le> n * ?ps" by (intro mult_le_mono1) simp
      then show ?thesis using i(1) by simp
    next
      case False
      then have "(n + 1) * ?ps \<le> k * ?ps" using that by (intro mult_le_mono1) simp
      then show ?thesis by simp
    qed
    then have "g ! (k * ?ps + i) = ?f ! (k * ?ps + i)"
      using i(2) ins assms(1) by (auto simp: nth_append g_def)
    then show "take ?ps (drop (k * ?ps) g) ! i = take ?ps (drop (k * ?ps) ?f) ! i" using i lg by simp
  qed
  have same: "take ?ps (drop (n * ?ps) g) = block" using ins assms(1) by (simp add: g_def)
  show "disk_page d' s k = ((disk_page d)(seg := (disk_page d seg)(n := block))) s k"
    using other same assms(1,3) d' by (cases "s = seg"; cases "k = n") (simp_all add: disk_page_def)
qed

lemma dm_write_ok:
  assumes "quiet d" "dm_ok d" "seg \<in> file_table d" "page_inside seg n d" "length block = dm_page_size d"
  shows "\<exists>d'. dm_run [WritePage t seg n block] d = Done ([], d') \<and> quiet d' \<and> dm_ok d'
    \<and> dm_page_size d' = dm_page_size d \<and> disk_page d' = (disk_page d)(seg := (disk_page d seg)(n := block))
    \<and> file_table d' = file_table d \<and> (\<forall>s. length (segment_file d' s) = length (segment_file d s))"
proof -
  let ?ps = "dm_page_size d" and ?f = "segment_file d seg"
  let ?g = "take (n * ?ps) ?f @ block @ drop (n * ?ps + ?ps) ?f"
  let ?d = "d\<lparr>segment_file := (segment_file d)(seg := ?g)\<rparr>"
  have ins: "n * ?ps + ?ps \<le> length ?f" using assms(4) by (simp add: page_inside_def)
  then have lg: "length ?g = length ?f" using assms(5) by simp
  have m: "memcpy ?f (n * ?ps) block 0 ?ps = Some ?g" using ins assms(5) by (simp add: memcpy_def)
  have run: "dm_run [WritePage t seg n block] d = Done ([], ?d)"
    using assms(1,3,4) m by (simp add: quiet_def write_page_def asserted_def)
  have page: "disk_page ?d = (disk_page d)(seg := (disk_page d seg)(n := block))"
    by (rule page_written [OF assms(5) ins]) simp_all
  have "dm_ok ?d" using assms(2) lg by (auto simp: dm_ok_def)
  then show ?thesis using run page assms(1) lg by (intro exI [of _ ?d]) (simp add: quiet_def)
qed

section \<open>The disk manager as a store of pages\<close>

text \<open>A client with one thread reads a page, or writes one.\<close>

definition disk_get :: "nat \<Rightarrow> 16 word \<times> nat \<Rightarrow> disk_manager \<Rightarrow> (bytes \<times> disk_manager) option" where
  "disk_get t a d =
     (case dm_run (read_actions t (fst a) (snd a) d) d of Done ([p], d) \<Rightarrow> Some (p, d) | _ \<Rightarrow> None)"

definition disk_put :: "nat \<Rightarrow> 16 word \<times> nat \<Rightarrow> bytes \<Rightarrow> disk_manager \<Rightarrow> disk_manager option" where
  "disk_put t a block d =
     (case dm_run [WritePage t (fst a) (snd a) block] d of Done (_, d) \<Rightarrow> Some d | _ \<Rightarrow> None)"

abbreviation disk_pages :: "disk_manager \<Rightarrow> 16 word \<times> nat \<Rightarrow> bytes" where
  "disk_pages d \<equiv> (\<lambda>a. disk_page d (fst a) (snd a))"

text \<open>The files that are open and the number of pages of each file: a read opens the file, and one
  of a page behind the end leaves a file with one page more than it asks for.\<close>

definition disk_view :: "disk_manager \<Rightarrow> 16 word set \<times> (16 word \<Rightarrow> nat)" where
  "disk_view d = (file_table d, \<lambda>seg. length (segment_file d seg) div dm_page_size d)"

definition read_grows :: "16 word \<times> nat \<Rightarrow> 16 word set \<times> (16 word \<Rightarrow> nat) \<Rightarrow> 16 word set \<times> (16 word \<Rightarrow> nat)" where
  "read_grows a v =
     (insert (fst a) (fst v), (snd v)(fst a := if snd a < snd v (fst a) then snd v (fst a) else snd a + 2))"

definition may_write :: "16 word set \<times> (16 word \<Rightarrow> nat) \<Rightarrow> 16 word \<times> nat \<Rightarrow> bool" where
  "may_write v a \<longleftrightarrow> fst a \<in> fst v \<and> snd a < snd v (fst a)"

lemma inside_count:
  assumes "dm_ok d"
  shows "page_inside seg n d \<longleftrightarrow> n < length (segment_file d seg) div dm_page_size d"
proof -
  obtain q where q: "length (segment_file d seg) = dm_page_size d * q" and ps: "0 < dm_page_size d"
    using assms unfolding dm_ok_def by blast
  have "n * dm_page_size d + dm_page_size d = dm_page_size d * Suc n" by simp
  then have "page_inside seg n d \<longleftrightarrow> Suc n \<le> q" unfolding page_inside_def q using ps by (simp only: nat_mult_le_cancel1)
  then show ?thesis using ps q by auto
qed

lemma disk_get_ok:
  assumes "quiet d" "dm_ok d"
  shows "\<exists>d'. disk_get t a d = Some (disk_pages d a, d') \<and> quiet d' \<and> dm_ok d'
    \<and> dm_page_size d' = dm_page_size d \<and> disk_page d' = disk_page d \<and> disk_view d' = read_grows a (disk_view d)"
proof -
  obtain d' where d': "dm_run (read_actions t (fst a) (snd a) d) d = Done ([disk_pages d a], d')" "quiet d'" "dm_ok d'"
      "dm_page_size d' = dm_page_size d" "disk_page d' = disk_page d" "file_table d' = insert (fst a) (file_table d)"
      "segment_file d' = (segment_file d)(fst a := if page_inside (fst a) (snd a) d then segment_file d (fst a)
         else resize_bytes (dm_page_size d * (snd a + 2)) (segment_file d (fst a)))"
    using dm_read_ok [OF assms, of t "fst a" "snd a"] by auto
  have ps: "0 < dm_page_size d" using assms(2) by (simp add: dm_ok_def)
  have "length (segment_file d (fst a)) \<le> dm_page_size d * (snd a + 2)" if "\<not> page_inside (fst a) (snd a) d"
    using not_inside_resize [OF assms(2) that] by simp
  then have "disk_view d' = read_grows a (disk_view d)"
    using ps d'(4,6) inside_count [OF assms(2), of "fst a" "snd a"] unfolding disk_view_def d'(7)
    by (auto simp: read_grows_def fun_eq_iff resize_bytes_def)
  then show ?thesis using d' by (intro exI [of _ d']) (simp add: disk_get_def)
qed

lemma disk_put_ok:
  assumes "quiet d" "dm_ok d" "length block = dm_page_size d" "may_write (disk_view d) a"
  shows "\<exists>d'. disk_put t a block d = Some d' \<and> quiet d' \<and> dm_ok d' \<and> dm_page_size d' = dm_page_size d
    \<and> disk_pages d' = (disk_pages d)(a := block) \<and> disk_view d' = disk_view d"
proof -
  have w: "fst a \<in> file_table d" "page_inside (fst a) (snd a) d"
    using assms(4) inside_count [OF assms(2)] by (simp_all add: may_write_def disk_view_def)
  from dm_write_ok [OF assms(1,2) w assms(3), of t] obtain d2 where d2:
      "dm_run [WritePage t (fst a) (snd a) block] d = Done ([], d2)"
      "quiet d2" "dm_ok d2" "dm_page_size d2 = dm_page_size d"
      "file_table d2 = file_table d" "\<And>s. length (segment_file d2 s) = length (segment_file d s)"
      "disk_page d2 = (disk_page d)(fst a := (disk_page d (fst a))(snd a := block))" by blast
  have "disk_pages d2 = (disk_pages d)(a := block)"
    unfolding d2(7) by (cases a) (auto simp: fun_eq_iff)
  then show ?thesis using d2(1-6) by (simp add: disk_put_def disk_view_def del: dm_run.simps)
qed

lemma disk_put_refused:
  assumes "quiet d" "dm_ok d" "length block = dm_page_size d" "\<not> may_write (disk_view d) a"
  shows "disk_put t a block d = None"
proof -
  have "\<not> (fst a \<in> file_table d \<and> page_inside (fst a) (snd a) d)"
    using assms(4) inside_count [OF assms(2)] by (simp add: may_write_def disk_view_def)
  then have "write_page (fst a) (snd a) block d = Failed"
    by (auto simp: write_page_def asserted_def split: option.split)
  then show ?thesis using assms(1) by (simp add: disk_put_def quiet_def)
qed

interpretation disk: page_store "\<lambda>d. quiet d \<and> dm_ok d" dm_page_size disk_pages disk_view read_grows may_write
    "disk_get t" "disk_put t" for t
proof
  fix d a
  assume "quiet d \<and> dm_ok d"
  then show "\<exists>d'. disk_get t a d = Some (disk_pages d a, d') \<and> (quiet d' \<and> dm_ok d')
      \<and> dm_page_size d' = dm_page_size d \<and> disk_pages d' = disk_pages d \<and> disk_view d' = read_grows a (disk_view d)"
    using disk_get_ok [of d t a] by auto
next
  fix d :: disk_manager and block :: bytes and a
  assume "quiet d \<and> dm_ok d" "length block = dm_page_size d" "may_write (disk_view d) a"
  then show "\<exists>d'. disk_put t a block d = Some d' \<and> (quiet d' \<and> dm_ok d')
      \<and> dm_page_size d' = dm_page_size d \<and> disk_pages d' = (disk_pages d)(a := block) \<and> disk_view d' = disk_view d"
    using disk_put_ok [of d block a t] by auto
next
  fix d :: disk_manager and block :: bytes and a
  assume "quiet d \<and> dm_ok d" "length block = dm_page_size d" "\<not> may_write (disk_view d) a"
  then show "disk_put t a block d = None" using disk_put_refused [of d block a t] by blast
qed

section \<open>The properties of the disk manager\<close>

text \<open>C17: With one thread the disk manager is a store of pages, over any files of whole pages: a
  sequence of reads and writes of pages, in any order and of any files, answers as the function
  from page addresses to pages that the files hold (zeros behind their ends) does, and leaves the
  pages that the writes make, if every write is of a page of a file that a read has opened and that
  lies inside the file at that time; reading a page behind the end of its file leaves the file one
  page longer than that page, and nothing else changes the sizes. A sequence with any other write
  fails, at the assertion of \<open>WritePage\<close>.\<close>

theorem disk_store:
  assumes "0 < ps" "\<And>seg. ps dvd length (fs seg)" "whole_pages ps rs"
  shows "(permitted read_grows may_write rs (disk_view (dm_init ps fs)) \<longrightarrow>
      (\<exists>d. run_requests (disk_get t) (disk_put t) rs (dm_init ps fs) = Some (answers rs (disk_pages (dm_init ps fs)), d)
        \<and> disk_pages d = final_pages rs (disk_pages (dm_init ps fs))
        \<and> disk_view d = final_view read_grows rs ({}, \<lambda>seg. length (fs seg) div ps)))
    \<and> (\<not> permitted read_grows may_write rs (disk_view (dm_init ps fs)) \<longrightarrow>
        run_requests (disk_get t) (disk_put t) rs (dm_init ps fs) = None)"
proof -
  have i: "quiet (dm_init ps fs) \<and> dm_ok (dm_init ps fs)" "dm_page_size (dm_init ps fs) = ps"
    "disk_view (dm_init ps fs) = ({}, \<lambda>seg. length (fs seg) div ps)"
    using assms(1,2) by (simp_all add: dm_init_def quiet_def dm_ok_def disk_view_def)
  then show ?thesis using disk.run_permitted [OF i(1), of rs t] disk.run_refused [OF i(1), of rs t] assms(3) by auto
qed

definition sample_files :: "16 word \<Rightarrow> bytes" where
  "sample_files seg = (if seg = 1 then [5, 6] else [])"

lemma disk_store_witness:
  "(\<exists>d. run_requests (disk_get 0) (disk_put 0) [Get (1, 3), Put (1, 3) [7, 8], Get (1, 0), Get (2, 0), Put (2, 1) [9, 9], Get (1, 3)]
        (dm_init 2 sample_files) = Some ([[0, 0], [5, 6], [0, 0], [7, 8]], d)
      \<and> snd (disk_view d) 1 = 5)
    \<and> run_requests (disk_get 0) (disk_put 0) [Put (1, 0) [7, 8]] (dm_init 2 sample_files) = None"
proof -
  let ?rs = "[Get (1, 3), Put (1, 3) [7, 8], Get (1, 0), Get (2, 0), Put (2, 1) [9, 9], Get (1, 3)] :: (16 word \<times> nat, 8 word) request list"
  let ?bad = "[Put (1, 0) [7, 8]] :: (16 word \<times> nat, 8 word) request list"
  have fs: "2 dvd length (sample_files seg)" for seg by (simp add: sample_files_def)
  have w: "whole_pages 2 ?rs" "whole_pages 2 ?bad" by (auto simp: whole_pages_def)
  have p: "permitted read_grows may_write ?rs (disk_view (dm_init 2 sample_files))"
    "\<not> permitted read_grows may_write ?bad (disk_view (dm_init 2 sample_files))"
    "snd (final_view read_grows ?rs ({}, \<lambda>seg. length (sample_files seg) div 2)) 1 = 5"
    by (simp_all add: disk_view_def dm_init_def read_grows_def may_write_def sample_files_def)
  have a: "answers ?rs (disk_pages (dm_init 2 sample_files)) = [[0, 0], [5, 6], [0, 0], [7, 8]]"
    by (simp add: disk_page_def dm_init_def numeral_2_eq_2 sample_files_def)
  obtain d where "run_requests (disk_get 0) (disk_put 0) ?rs (dm_init 2 sample_files) = Some ([[0, 0], [5, 6], [0, 0], [7, 8]], d)"
      "disk_view d = final_view read_grows ?rs ({}, \<lambda>seg. length (sample_files seg) div 2)"
    using disk_store [where fs = sample_files and t = 0, OF zero_less_numeral fs w(1)] p(1) unfolding a by blast
  moreover have "run_requests (disk_get 0) (disk_put 0) ?bad (dm_init 2 sample_files) = None"
    using disk_store [where fs = sample_files and t = 0, OF zero_less_numeral fs w(2)] p(2) by blast
  ultimately show ?thesis using p(3) by metis
qed

text \<open>The states that any number of threads reach in any order of their steps.\<close>

inductive dm_reachable :: "nat \<Rightarrow> disk_manager \<Rightarrow> bool" for ps where
  init: "(\<And>seg. ps dvd length (fs seg)) \<Longrightarrow> dm_reachable ps (dm_init ps fs)"
| step: "dm_reachable ps d \<Longrightarrow> dm_step a d = Done (p, d') \<Longrightarrow> dm_reachable ps d'"

lemma dm_run_reachable:
  "dm_reachable ps d \<Longrightarrow> dm_run as d = Done (ps', d') \<Longrightarrow> dm_reachable ps d'"
proof (induction as arbitrary: d ps')
  case (Cons a as)
  obtain p d1 qs where "dm_step a d = Done (p, d1)" "dm_run as d1 = Done (qs, d')"
    using Cons.prems(2) by (auto split: attempt.splits prod.splits)
  then show ?case using Cons.IH dm_reachable.step [OF Cons.prems(1)] by blast
qed simp

lemma dm_step_cases:
  assumes "dm_step a d = Done (p, d')"
  obtains (same) "segment_file d' = segment_file d" "dm_page_size d' = dm_page_size d"
      "\<And>t seg n block. a \<noteq> WritePage t seg n block" "\<And>t seg n. a = Continue t \<Longrightarrow> dm_at d t \<noteq> Resizing seg n"
    | (resize) t seg n where "a = Continue t" "dm_at d t = Resizing seg n" "dm_page_size d' = dm_page_size d"
      "segment_file d' = (segment_file d)(seg := resize_bytes (dm_page_size d * (n + 2)) (segment_file d seg))"
    | (written) t seg n block g where "a = WritePage t seg n block" "dm_page_size d' = dm_page_size d"
      "memcpy (segment_file d seg) (n * dm_page_size d) block 0 (dm_page_size d) = Some g"
      "segment_file d' = (segment_file d)(seg := g)" "page_inside seg n d"
proof (cases a)
  case (ReadPage t seg n)
  then show thesis using assms by (intro same) (auto simp: read_begin_def Let_def split: if_splits option.splits)
next
  case (Continue t)
  show thesis
  proof (cases "dm_at d t")
    case (Resizing seg n)
    then show thesis using assms Continue
      by (intro resize [of t seg n]) (auto simp: read_resize_def asserted_def Let_def split: if_splits)
  qed (use assms Continue in \<open>auto simp: read_latched_def read_finish_def asserted_def split: if_splits intro: same\<close>)
next
  case (WritePage t seg n block)
  then show thesis using assms
    by (auto simp: write_page_def asserted_def split: if_splits option.splits intro: written)
qed

lemma page_after_resize:
  assumes "0 < dm_page_size d" "dm_page_size d dvd length (segment_file d seg)" "dm_page_size d' = dm_page_size d"
    "segment_file d' = (segment_file d)(seg := resize_bytes (dm_page_size d * (n + 2)) (segment_file d seg))"
  shows "disk_page d' s m = (if s = seg \<and> n + 2 \<le> m then replicate (dm_page_size d) 0 else disk_page d s m)"
proof -
  let ?ps = "dm_page_size d" and ?f = "segment_file d seg" and ?k = "dm_page_size d * (n + 2)"
  have len: "length (resize_bytes ?k ?f) = ?k" by (simp add: resize_bytes_def)
  consider "s \<noteq> seg" | (behind) "s = seg" "n + 2 \<le> m" | (before) "s = seg" "m < n + 2" by linarith
  then show ?thesis
  proof cases
    case 1
    then show ?thesis using assms(3,4) by (simp add: disk_page_def)
  next
    case behind
    then have "?k \<le> m * ?ps" using mult_le_mono2 [of "n + 2" m ?ps] by (simp only: mult.commute [of m])
    then show ?thesis using behind assms(3,4) len by (simp add: disk_page_def Let_def)
  next
    case before
    then have "(m + 1) * ?ps \<le> (n + 2) * ?ps" by (intro mult_le_mono1) simp
    then have in_k: "m * ?ps + ?ps \<le> ?k" by (simp add: algebra_simps)
    show ?thesis
    proof (cases "length ?f \<le> ?k")
      case True
      then show ?thesis using page_resized [OF assms(1,2) True, of m] before assms(3,4) by (simp add: disk_page_def)
    next
      case False
      then have "resize_bytes ?k ?f = take ?k ?f" by (simp add: resize_bytes_def)
      moreover have "take ?ps (drop (m * ?ps) (take ?k ?f)) = take ?ps (drop (m * ?ps) ?f)"
        using in_k by (simp add: drop_take min_def)
      ultimately show ?thesis using before assms(3,4) by (simp add: disk_page_def)
    qed
  qed
qed

lemma page_after_write:
  assumes "0 < dm_page_size d" "dm_page_size d' = dm_page_size d" "segment_file d' = (segment_file d)(seg := g)"
    "memcpy (segment_file d seg) (n * dm_page_size d) block 0 (dm_page_size d) = Some g"
  shows "disk_page d' s m = (if s = seg \<and> m = n then take (dm_page_size d) block else disk_page d s m)"
    "length g = length (segment_file d seg)"
proof -
  let ?ps = "dm_page_size d"
  have b: "?ps \<le> length block" "n * ?ps + ?ps \<le> length (segment_file d seg)"
    and g: "g = take (n * ?ps) (segment_file d seg) @ take ?ps block @ drop (n * ?ps + ?ps) (segment_file d seg)"
    using assms(4) by (simp_all add: memcpy_def split: if_splits)
  then show "length g = length (segment_file d seg)" by simp
  have "disk_page d' = (disk_page d)(seg := (disk_page d seg)(n := take ?ps block))"
    by (rule page_written [OF _ _ assms(2) _]) (use b g assms(3) in simp_all)
  then show "disk_page d' s m = (if s = seg \<and> m = n then take ?ps block else disk_page d s m)" by simp
qed

lemma reachable_ok: "dm_reachable ps d \<Longrightarrow> 0 < ps \<Longrightarrow> dm_ok d \<and> dm_page_size d = ps"
proof (induction rule: dm_reachable.induct)
  case (init fs)
  then show ?case by (simp add: dm_ok_def dm_init_def)
next
  case (step d a p d')
  then have ok: "0 < dm_page_size d" "\<And>seg. dm_page_size d dvd length (segment_file d seg)" "dm_page_size d = ps"
    unfolding dm_ok_def by blast+
  from step.hyps(2) show ?case
  proof (cases rule: dm_step_cases)
    case same
    then show ?thesis using ok by (simp add: dm_ok_def)
  next
    case (resize t seg n)
    have "length (resize_bytes k f) = k" for k f by (simp add: resize_bytes_def)
    then show ?thesis using resize ok by (simp add: dm_ok_def)
  next
    case (written t seg n block g)
    then show ?thesis using ok page_after_write(2) [OF ok(1) written(2,4,3)] by (simp add: dm_ok_def)
  qed
qed

text \<open>C18: exactly when a page on disk changes, and is lost. In every state that any threads reach by
  any interleaving of their steps, over any files of whole pages, a step that succeeds leaves every
  page of every file as it is, with two exceptions: a write makes its own page the given bytes, and
  the resize at the end of which a thread reads page \<open>n\<close> clears every page from \<open>n + 2\<close> on,
  whether anybody has written to it or not. A single thread resizes only files that end
  before these pages (C17). With two, the thread has compared the size of the file before it waited
  for its latch, and the other may have made it larger since: in the witness it cuts off a page that
  the other has written, and writing this page again fails.\<close>

theorem page_lost_by_resize:
  assumes "dm_reachable ps d" "0 < ps" "dm_step a d = Done (p, d')"
  shows "disk_page d' seg m =
    (case a of
       WritePage t s n block \<Rightarrow> if s = seg \<and> n = m then take ps block else disk_page d seg m
     | Continue t \<Rightarrow> if \<exists>n. dm_at d t = Resizing seg n \<and> n + 2 \<le> m then replicate ps 0 else disk_page d seg m
     | ReadPage t s n \<Rightarrow> disk_page d seg m)"
proof -
  have ok: "0 < dm_page_size d" "\<And>seg. dm_page_size d dvd length (segment_file d seg)" and ps: "dm_page_size d = ps"
    using reachable_ok [OF assms(1,2)] unfolding dm_ok_def by blast+
  from assms(3) show ?thesis
  proof (cases rule: dm_step_cases)
    case same
    then have "disk_page d' = disk_page d" by (intro disk_page_cong)
    then show ?thesis using same(3,4) by (simp split: dm_action.split)
  next
    case (resize t s n)
    then show ?thesis using page_after_resize [OF ok(1,2) resize(3,4), of seg m] ps by auto
  next
    case (written t s n block g)
    then show ?thesis using page_after_write(1) [OF ok(1) written(2,4,3), of seg m] ps by auto
  qed
qed

definition race :: "dm_action list" where
  "race = [ReadPage 0 1 3, ReadPage 1 1 1, Continue 0, Continue 1, Continue 0, WritePage 0 1 3 [7, 8]]"

lemma page_lost_by_resize_witness:
  "\<exists>d d' r. dm_run race (dm_init 2 sample_files) = Done (r, d) \<and> disk_page d 1 3 = [7, 8]
     \<and> dm_step (Continue 1) d = Done (None, d') \<and> disk_page d' 1 3 = [0, 0] \<and> dm_step (WritePage 0 1 3 [7, 8]) d' = Failed"
proof -
  have "(case dm_run race (dm_init 2 sample_files) of
           Done (r, d) \<Rightarrow> disk_page d 1 3 = [7, 8] \<and> dm_at d 1 = Resizing 1 1
             \<and> (case dm_step (Continue 1) d of Done (q, d') \<Rightarrow> q = None \<and> has_failed (dm_step (WritePage 0 1 3 [7, 8]) d') | _ \<Rightarrow> False)
         | _ \<Rightarrow> False)"
    by code_simp
  then obtain r d where d: "dm_run race (dm_init 2 sample_files) = Done (r, d)" "disk_page d 1 3 = [7, 8]" "dm_at d 1 = Resizing 1 1"
    and c: "case dm_step (Continue 1) d of Done (q, d') \<Rightarrow> q = None \<and> has_failed (dm_step (WritePage 0 1 3 [7, 8]) d') | _ \<Rightarrow> False"
    by (cases "dm_run race (dm_init 2 sample_files)") (auto simp del: dm_step.simps dm_run.simps)
  from c obtain d' where d': "dm_step (Continue 1) d = Done (None, d')" "dm_step (WritePage 0 1 3 [7, 8]) d' = Failed"
    by (cases "dm_step (Continue 1) d") (auto simp: has_failed_iff simp del: dm_step.simps)
  have "dm_reachable 2 d"
    by (rule dm_run_reachable [OF dm_reachable.init d(1)]) (simp add: sample_files_def)
  from page_lost_by_resize [OF this zero_less_numeral d'(1), of 1 3] have "disk_page d' 1 3 = [0, 0]"
    using d(3) by (simp add: numeral_2_eq_2)
  then show ?thesis using d d' by blast
qed

end
