(* ===== verification/Spec2Isabelle.thy ===== *)
theory Spec2Isabelle
  imports Lock_Destroy Lock_Leak BTree_Map Query_Properties Replacer Sort_Tool Expressions Buffer_Orphan Database_Correct
    Hex_Dump Disk_Manager
begin

text \<open>
  Verification of \<^verbatim>\<open>modern_dbs\<close>, the parts of a database system that are built one after the other
  in the directories \<^verbatim>\<open>src/task-*\<close>. The parts are independent programs: each task brings the
  helpers that it needs (files, a buffer manager) itself. This header says what models which
  part; the text at the head of every theory says how.

  \<^bold>\<open>Conventions.\<close> Operations that assert, throw or index an array are in the option monad:
  \<open>None\<close> is a run that an \<open>assert\<close> of the source stops, or that accesses memory outside an array,
  overflows a signed integer or dereferences a null pointer (\<open>require\<close>, \<open>arr_get\<close>, \<open>memcpy\<close> in
  \<open>Prelude_DB\<close>); a result \<open>Some x\<close> says that nothing of this happened. Exceptions that a caller can
  observe are values. Programs with threads are step relations (\<open>lm_step\<close>, \<open>bm_step\<close>, \<open>dm_step\<close>)
  whose steps are the sections between two acquisitions of latches, and their properties hold in
  every reachable state, under every interleaving. Loops whose end is not obvious are
  \<open>partial_function (option)\<close> or \<open>function\<close> with a measure; that they end is part of the
  properties, never a hypothesis, and no fuel is used. Libraries outside \<^verbatim>\<open>src/\<close> (the hash tables'
  order of iteration, LLVM, rapidjson, the random engine) are parameters with their documented
  behaviour as named hypotheses.

  \<^bold>\<open>Buffer manager\<close> (\<^verbatim>\<open>task-buffer-manager\<close>). \<open>Buffer_Manager\<close> models \<open>fix_page\<close>, \<open>unfix_page\<close>, the
  eviction with its states \<open>NEW\<close>, \<open>LOADING\<close>, \<open>LOADED\<close>, \<open>EVICTING\<close> and \<open>RELOADED\<close>, the two lists and
  the destructor for any number of threads. \<open>Buffer_Invariant\<close> states the invariant in parts (who
  refers to a frame, who holds its mutex, the lists, the memory, the program counters of the
  threads, memory and file); \<open>Buffer_Steps\<close>, \<open>Buffer_Evict\<close> and \<open>Buffer_Fix\<close> show that the sections
  keep it and \<open>Buffer_Correct\<close> that every step does. \<open>Buffer_Properties\<close>: the manager is a store of
  pages, an exclusive fix excludes all others, the exception is thrown (from every step of
  \<open>fix_page\<close> that looks for memory) exactly when nothing can be evicted and changes what
  \<open>after_throw\<close> says, the destructor writes everything. \<open>Buffer_Orphan\<close>: two waiters of a page that
  has failed wait forever. Files hold whole pages; page sizes and counts are naturals. A thread
  that has waited finds its frame again; that its iterator may be invalid is not modelled.

  \<^bold>\<open>Slotted pages\<close> (\<^verbatim>\<open>task-slotted-pages\<close>), from the bits up. \<open>Slot\<close>: tuple identifiers and slots as
  64-bit words. \<open>Slotted_Page\<close>, \<open>Slotted_Page_Compact\<close>, \<open>Slotted_Page_Correct\<close>: a page with its
  directory and bytes; \<open>allocate\<close>, \<open>relocate\<close>, \<open>erase\<close> and the compaction keep the invariant \<open>sp_inv\<close>
  and refine the list of its entries, and it is said exactly when \<open>allocate\<close> succeeds (\<open>erase\<close> can
  leave a page on which it never does). \<open>FSI\<close>: the free-space inventory, four bits per page.
  \<open>SP_Segment\<close>, \<open>SP_Segment_Correct\<close>: the segment with redirects; an allocation never fails and the
  inventory never promises more than there is. \<open>Schema_Segment\<close>, \<open>Schema_Segment_Correct\<close>: the
  schema, its JSON document and the pages that hold its text. \<open>Database\<close>, \<open>Database_Correct\<close>: the
  database over these segments; an inserted tuple is stored as bytes that decode to its values,
  and \<open>read_tuple\<close> cannot show them. \<open>Two_Q\<close>, \<open>Two_Q_Correct\<close>, \<open>Replacer\<close>: the replacement policy.
  \<open>Disk_Manager\<close>: the pages of the segments' files, with threads, over files of any contents: a
  store of pages for one thread, with the writes that fail, and which pages a resize of another
  thread can cut off. \<open>Page_Store\<close> is the interface of a store of pages, which the disk manager
  and the task's table of frames provide. The counters of a page are naturals, where the header
  has \<open>uint16_t\<close> and \<open>uint32_t\<close>. Pages of the segments have less than \<open>2\<^sup>1\<^sup>9\<close> bytes, so that a
  directory has less than \<open>2\<^sup>1\<^sup>6\<close> slots and no counter wraps, and segments less than \<open>2\<^sup>4\<^sup>8\<close>
  pages: these are the widths of the fields of a tuple identifier.

  \<^bold>\<open>B+ tree\<close> (\<^verbatim>\<open>task-btree\<close>). \<open>BTree_Node\<close>: the operations of the nodes on arrays of fixed capacity, with
  the binary search and the block moves for keys and values of eight bytes. \<open>BTree\<close>: the descent
  and the operations over the pages of the task's buffer manager, with the fixes counted.
  \<open>BTree_Spec\<close> says what a well-formed tree is, \<open>BTree_Correct\<close> and \<open>BTree_Insert\<close> that the
  operations keep it, and \<open>BTree_Map\<close> that the tree implements the interface \<open>ordered_map\<close> of
  \<open>Map_Interface\<close>; there also the layout of the structs: on pages of 88 bytes to 1 MiB every node
  of a tree fits its page and its count, a natural here, fits the 16 bits that the code has. The
  loops of the descent end because the tree is finite.

  \<^bold>\<open>Lock manager\<close> (\<^verbatim>\<open>task-lock-manager\<close>). \<open>Waits_For_Graph\<close>: the search for cycles is exact and an
  edge that would close one is refused; \<open>addWaiters\<close> throws when the owner reaches a waiter or a
  cycle, also one that an earlier exception has left. \<open>Lock_Manager\<close>: \<open>acquireLock\<close> and the
  destructor of \<open>Transaction\<close> as interleaved sections, with the lazy clean-up of the chains; the
  walk over a chain, the drop of a transaction's references, and \<open>try_lock\<close> with the section of
  the graph's mutex behind it are one step each. \<open>Lock_Safety\<close>: mutual exclusion, no lock is
  freed while it is referenced, no cycle of blocked transactions. \<open>Lock_Leak\<close>: a mutex that the
  exception of \<open>addWaiters\<close> leaks is never given back, in any continuation. \<open>Lock_Destroy\<close>: the
  destructor deletes every lock once.

  \<^bold>\<open>Query operators\<close> (\<^verbatim>\<open>task-operators\<close>). \<open>Register\<close> and \<open>Iterator\<close>: values and the interface
  \<open>Operator\<close> as locales (open, next, output, close and the tuples that are still to come).
  \<open>Op_Pipeline\<close>, \<open>Op_Sort\<close>, \<open>Op_Join\<close>, \<open>Op_Aggregation\<close>, \<open>Op_Set\<close>, \<open>Op_Set_Correct\<close>: each operator over
  any inputs that satisfy the interface, and again an instance of it. \<open>Query_Properties\<close>: what
  each of them delivers over tables in memory. The library's
  \<open>std::stable_sort\<close> is a stable insertion sort; signed overflow of an aggregate has no result.

  \<^bold>\<open>External sort\<close> (\<^verbatim>\<open>task-external-sort\<close>). \<open>External_Sort\<close>: the sort with its buffers, offsets and
  assertions over files of 64-bit values. \<open>External_Merge\<close> and \<open>External_Kway\<close>: the readers and the
  invariant of a merge; \<open>External_Runs\<close>: one merge of all runs; \<open>External_Passes\<close>: the passes of
  two-way merges; \<open>External_Sort_Correct\<close>: the sort ends with the sorted values for every memory
  of at least three values. \<open>Sort_Tool\<close>: the command-line tool, whose three modes are composed
  with the sort. \<open>Text_Conversions\<close>: numbers as text, shared with the dump and the database.

  \<^bold>\<open>Expressions\<close> (\<^verbatim>\<open>task-expressions\<close>). \<open>Expressions\<close>: the interpreter and the code generator, over
  the LLVM instructions that it emits, of which \<open>llvm_ok\<close> states what the language reference says on
  operands of the right types; for arguments in an array of numbers, generated and interpreted
  results agree wherever the interpreter is defined. The array of pointers that \<open>compile\<close> declares
  makes the code of an argument illegal (a bit cast of a pointer to a number), which is proved too.

  \<^bold>\<open>Hex dump\<close>: \<open>Hex_Dump\<close>, of two tasks.

  \<^bold>\<open>Not modelled.\<close> The set-up of LLVM's JIT and the printf example (calls of LLVM only); the menu of
  the database console and its constant schema; the text writer and parser of rapidjson; errors
  of the operating system and failures of allocations; the class \<open>ReaderWriterLatch\<close>, the \<open>PID\<close>
  wrapper, \<open>Defer\<close>, exception classes and copies of the file class that no modelled code uses; the
  buffer manager of the slotted-page task that is commented out. Data races on fields that are
  read without a latch (the cached size of a file) are not undefined behaviour here but reads of
  the current value. Tests, benchmarks, build files and vendored code are left out.
\<close>

end
